(* ===== verification/Prelude.thy ===== *)
theory Prelude
  imports Main "HOL-Library.Word" "HOL-Library.Multiset" "HOL-Library.Code_Target_Numeral"
begin

text \<open>
  Shared vocabulary of the development: fixed-width arithmetic written on \<open>nat\<close>, the reduction
  of a hash code to a power-of-two bucket array, the triangular probe sequence that
  khash and Verstable use, the cyclic distance that linear probing is about,
  and the list of live entries of a bucket array with the finite map it stands for.
\<close>

unbundle bit_operations_syntax

named_theorems table_simps \<open>field-wise simplification rules of the table models\<close>

type_synonym u8 = "8 word"
type_synonym u16 = "16 word"
type_synonym u32 = "32 word"
type_synonym u64 = "64 word"

section \<open>Machine integers and power-of-two masks\<close>

text \<open>Unsigned 32-bit and 64-bit truncation of a computed value.\<close>

definition wrap32 :: "nat \<Rightarrow> nat" where
  "wrap32 x = x mod 2 ^ 32"

definition wrap64 :: "nat \<Rightarrow> nat" where
  "wrap64 x = x mod 2 ^ 64"

lemma wrap32_id [simp]: "x < 2 ^ 32 \<Longrightarrow> wrap32 x = x"
  by (simp add: wrap32_def)

lemma wrap64_id [simp]: "x < 2 ^ 64 \<Longrightarrow> wrap64 x = x"
  by (simp add: wrap64_def)

lemma nat_and_mask: "(x::nat) AND (2 ^ k - 1) = x mod 2 ^ k"
  using take_bit_eq_mask [of k x] by (simp add: take_bit_eq_mod mask_eq_exp_minus_1)

lemma mod_mod_pow2: "k \<le> w \<Longrightarrow> (x mod 2 ^ w) mod 2 ^ k = (x::nat) mod 2 ^ k"
  by (rule mod_mod_cancel) (simp add: le_imp_power_dvd)

lemma wrap32_and_mask: "k \<le> 32 \<Longrightarrow> wrap32 x AND (2 ^ k - 1) = x mod 2 ^ k"
  unfolding wrap32_def nat_and_mask by (rule mod_mod_pow2)

lemma wrap64_and_mask: "k \<le> 64 \<Longrightarrow> wrap64 x AND (2 ^ k - 1) = x mod 2 ^ k"
  unfolding wrap64_def nat_and_mask by (rule mod_mod_pow2)

section \<open>Triangular probing\<close>

text \<open>
  The \<open>s\<close>-th bucket visited from home bucket \<open>h\<close> in a table of \<open>n\<close> buckets, when the stride
  grows by one at each step.
\<close>

definition tri :: "nat \<Rightarrow> nat" where
  "tri s = (s * s + s) div 2"

definition probe :: "nat \<Rightarrow> nat \<Rightarrow> nat \<Rightarrow> nat" where
  "probe n h s = (h + tri s) mod n"

lemma two_tri: "2 * tri s = s * s + s"
proof -
  have "2 dvd s * s + s" by auto
  then have "2 * ((s * s + s) div 2) = s * s + s" by (rule dvd_mult_div_cancel)
  then show ?thesis unfolding tri_def .
qed

lemma mod_add_left_cancel: "(h + a) mod m = (h + b) mod m \<longleftrightarrow> a mod m = b mod (m::nat)"
  unfolding nat_mod_eq_iff by (simp add: add.assoc)

lemma tri_0 [simp]: "tri 0 = 0"
  by (simp add: tri_def)

lemma tri_Suc: "tri (Suc s) = tri s + Suc s"
proof -
  have "2 * tri (Suc s) = 2 * (tri s + Suc s)"
    by (simp only: distrib_left two_tri) simp
  then show ?thesis by (rule iffD1 [OF nat_mult_eq_cancel1, rotated]) simp
qed

lemma probe_0: "h < n \<Longrightarrow> probe n h 0 = h"
  by (simp add: probe_def)

lemma probe_less: "0 < n \<Longrightarrow> probe n h s < n"
  by (simp add: probe_def)

lemma probe_Suc: "probe n h (Suc s) = (probe n h s + Suc s) mod n"
  unfolding probe_def tri_Suc by (simp only: mod_add_left_eq add.assoc)

lemma tri_mono: "s \<le> t \<Longrightarrow> tri s \<le> tri t"
proof -
  assume "s \<le> t"
  then have "2 * tri s \<le> 2 * tri t"
    unfolding two_tri by (intro add_mono mult_le_mono) auto
  then show ?thesis by simp
qed

lemma two_tri_diff: "t \<le> s \<Longrightarrow> 2 * (tri s - tri t) = (s - t) * (s + t + 1)"
proof -
  assume ts: "t \<le> s"
  then obtain d where s: "s = t + d" using le_Suc_ex by blast
  have "2 * tri s = 2 * tri t + (s - t) * (s + t + 1)"
    unfolding two_tri s by (simp add: algebra_simps)
  then show ?thesis by (simp add: diff_mult_distrib2)
qed

lemma odd_coprime_pow2_dvd:
  fixes a b :: nat
  assumes "2 ^ k dvd a * b" and "odd a"
  shows "2 ^ k dvd b"
proof -
  have "coprime (2 ^ k) a" using assms(2) by simp
  then show ?thesis using assms(1) by (simp add: coprime_dvd_mult_right_iff)
qed

lemma tri_congruent:
  assumes "t < s" and "tri s mod 2 ^ k = tri t mod 2 ^ k"
  shows "2 ^ Suc k dvd s - t \<or> 2 ^ Suc k dvd s + t + 1"
proof -
  have "tri t \<le> tri s" using assms(1) by (simp add: tri_mono)
  then have "2 ^ k dvd tri s - tri t"
    using assms(2) by (metis mod_eq_dvd_iff_nat)
  then have "2 * 2 ^ k dvd 2 * (tri s - tri t)" by (rule mult_dvd_mono [OF dvd_refl])
  then have d: "2 ^ Suc k dvd (s - t) * (s + t + 1)"
    using two_tri_diff [of t s] assms(1) by simp
  have "odd ((s - t) + (s + t + 1))" using assms(1) by simp
  then have "odd (s - t) \<or> odd (s + t + 1)" by presburger
  with d show ?thesis
    by (metis mult.commute odd_coprime_pow2_dvd)
qed

lemma probe_inj:
  assumes "s < 2 ^ k" and "t < 2 ^ k" and "probe (2 ^ k) h s = probe (2 ^ k) h t"
  shows "s = t"
proof -
  have tri_eq: "tri s mod 2 ^ k = tri t mod 2 ^ k"
    using assms(3) unfolding probe_def by (simp only: mod_add_left_cancel)
  have no: False if "t < s" "s < 2 ^ k" "tri s mod 2 ^ k = tri t mod 2 ^ k" for s t :: nat
  proof -
    have "0 < s - t" "s - t < 2 ^ Suc k" "s + t + 1 < 2 ^ Suc k"
      using that by auto
    then show False
      using tri_congruent [OF that(1,3)] by (metis add_gr_0 nat_dvd_not_less zero_less_one)
  qed
  show ?thesis
  proof (rule linorder_cases [of s t])
    assume "s < t"
    then show ?thesis using no [of s t] assms(2) tri_eq by simp
  next
    assume "t < s"
    then show ?thesis using no [of t s] assms(1) tri_eq by simp
  qed
qed

lemma probe_covers:
  assumes "b < 2 ^ k"
  obtains s where "s < 2 ^ k" and "probe (2 ^ k) h s = b"
proof -
  have "inj_on (probe (2 ^ k) h) {..<2 ^ k}"
    by (rule inj_onI) (auto intro: probe_inj)
  then have "card (probe (2 ^ k) h ` {..<2 ^ k}) = 2 ^ k"
    by (simp add: card_image)
  moreover have "probe (2 ^ k) h ` {..<2 ^ k} \<subseteq> {..<2 ^ k}"
    by (auto simp: probe_less)
  ultimately have "probe (2 ^ k) h ` {..<2 ^ k} = {..<2 ^ k}"
    by (intro card_subset_eq) auto
  with assms have "b \<in> probe (2 ^ k) h ` {..<2 ^ k}" by simp
  then show thesis using that by auto
qed

text \<open>The sequence comes back to its start at step \<open>2n - 1\<close> for the first time.\<close>

lemma probe_return:
  assumes "h < 2 ^ k" and "0 < s" and "probe (2 ^ k) h s = h"
  shows "2 * 2 ^ k - 1 \<le> s"
proof -
  have "tri s mod 2 ^ k = tri 0 mod 2 ^ k"
  proof -
    have "(h + tri s) mod 2 ^ k = (h + 0) mod 2 ^ k"
      using assms(1,3) by (simp add: probe_def)
    then show ?thesis by (simp only: mod_add_left_cancel tri_0)
  qed
  from tri_congruent [OF assms(2) this]
  have "2 ^ Suc k dvd s \<or> 2 ^ Suc k dvd s + 1" by simp
  then have "2 ^ Suc k \<le> s + 1"
    using assms(2) by (meson add_gr_0 dvd_imp_le le_SucI Suc_eq_plus1 trans_le_add1)
  then show ?thesis by simp
qed

lemma probe_back: "h < 2 ^ k \<Longrightarrow> probe (2 ^ k) h (2 * 2 ^ k - 1) = h"
proof -
  assume h: "h < 2 ^ k"
  define n :: nat where "n = 2 ^ k"
  have n0: "0 < n" by (simp add: n_def)
  have "2 * tri (2 * n - 1) = (2 * n - 1) * (2 * n)"
  proof -
    obtain m where m: "2 * n = Suc m" using n0 by (cases "2 * n") auto
    show ?thesis unfolding two_tri m by simp
  qed
  then have "tri (2 * n - 1) = (2 * n - 1) * n" by simp
  then show "probe (2 ^ k) h (2 * 2 ^ k - 1) = h"
    using h by (simp add: probe_def n_def)
qed

section \<open>Rounding up to a power of two by smearing bits\<close>

text \<open>
  One step \<open>x |= x >> 2^m\<close> of the classic rounding macro; after the steps for shifts
  \<open>1, 2, \<dots>, 2^(m-1)\<close> a bit is set exactly when one of the \<open>2^m\<close> bits from it upwards was.
\<close>

definition smear :: "nat \<Rightarrow> 'a::len word \<Rightarrow> 'a word" where
  "smear s x = x OR drop_bit s x"

lemma smear_step:
  fixes x y :: "'a::len word"
  assumes "\<And>i. bit y i \<longleftrightarrow> (\<exists>d<2 ^ m. bit x (i + d))"
  shows "bit (smear (2 ^ m) y) i \<longleftrightarrow> (\<exists>d<2 ^ Suc m. bit x (i + d))"
proof
  assume "bit (smear (2 ^ m) y) i"
  then consider d where "d < 2 ^ m" "bit x (i + d)" | d where "d < 2 ^ m" "bit x (2 ^ m + i + d)"
    using assms by (auto simp: smear_def bit_or_iff bit_drop_bit_eq add.commute)
  then show "\<exists>d<2 ^ Suc m. bit x (i + d)"
  proof cases
    case 1
    then show ?thesis by (intro exI [of _ d]) auto
  next
    case 2
    then show ?thesis by (intro exI [of _ "2 ^ m + d"]) (auto simp: ac_simps)
  qed
next
  assume "\<exists>d<2 ^ Suc m. bit x (i + d)"
  then obtain d where d: "d < 2 ^ Suc m" "bit x (i + d)" by blast
  show "bit (smear (2 ^ m) y) i"
  proof (cases "d < 2 ^ m")
    case True
    then show ?thesis using d assms by (auto simp: smear_def bit_or_iff)
  next
    case False
    then have "d - 2 ^ m < 2 ^ m" "2 ^ m + i + (d - 2 ^ m) = i + d" using d by auto
    then have "bit y (2 ^ m + i)" using d assms by metis
    then show ?thesis by (simp add: smear_def bit_or_iff bit_drop_bit_eq add.commute)
  qed
qed

lemma unat_pow2: "n < LENGTH('a) \<Longrightarrow> unat (2 ^ n :: 'a::len word) = 2 ^ n"
  by (metis unat_of_nat of_nat_numeral of_nat_power mod_less power_strict_increasing_iff one_less_numeral_iff semiring_norm(76))

lemma bit_offset_less: "bit (x :: 'a::len word) (i + d) \<Longrightarrow> d < LENGTH('a)"
  using bit_imp_le_length [of x "i + d"] by simp

lemma exists_bit_above:
  "(\<exists>d. bit (x :: 'a::len word) (i + d)) \<longleftrightarrow> 2 ^ i \<le> unat x"
proof -
  have "(\<exists>d. bit x (i + d)) \<longleftrightarrow> (\<exists>d<LENGTH('a). bit x (i + d))"
    using bit_offset_less by blast
  also have "\<dots> \<longleftrightarrow> drop_bit i x \<noteq> 0"
    by (auto simp: bit_eq_iff bit_drop_bit_eq)
  also have "\<dots> \<longleftrightarrow> unat (drop_bit i x) \<noteq> 0" by (simp add: unat_eq_0)
  also have "unat (drop_bit i x) = unat x div 2 ^ i"
    unfolding unsigned_drop_bit_eq by (simp add: drop_bit_eq_div take_bit_eq_mod)
  finally show ?thesis by (auto simp: div_eq_0_iff not_less)
qed

text \<open>A word whose set bits are exactly those below the magnitude of \<open>x\<close> is one less than a power of two.\<close>

lemma filled_word:
  assumes y: "\<And>i. i < LENGTH('a) \<Longrightarrow> bit y i \<longleftrightarrow> 2 ^ i \<le> unat x" and x: "unat x < 2 ^ L"
    and L: "L = 0 \<or> 2 ^ (L - 1) \<le> unat x" and len: "L < LENGTH('a)"
  shows "y + 1 = (2 ^ L :: 'a::len word)"
proof -
  have bits: "2 ^ i \<le> unat x \<longleftrightarrow> i < L" for i
  proof
    assume "2 ^ i \<le> unat x"
    then have "(2::nat) ^ i < 2 ^ L" using x by linarith
    then show "i < L" by simp
  next
    assume "i < L"
    then have "(2::nat) ^ i \<le> 2 ^ (L - 1)" "L \<noteq> 0" by (auto intro: power_increasing)
    then show "2 ^ i \<le> unat x" using L by linarith
  qed
  have "y = mask L"
    by (rule bit_word_eqI) (auto simp: y bits bit_mask_iff)
  then show ?thesis by (simp add: mask_eq_decr_exp)
qed

lemma pow2_bracket:
  assumes "1 \<le> x"
  obtains L where "x \<le> (2::nat) ^ L" and "L = 0 \<or> 2 ^ (L - 1) < x"
proof -
  define L where "L = (LEAST l. x \<le> 2 ^ l)"
  have ex: "x \<le> 2 ^ x" using less_exp [of x] by simp
  then have "x \<le> 2 ^ L" unfolding L_def by (rule LeastI)
  moreover have "L = 0 \<or> 2 ^ (L - 1) < x"
    by (metis L_def diff_less not_less_Least not_gr_zero not_le zero_less_one)
  ultimately show thesis using that by blast
qed

section \<open>The live entries of a bucket array\<close>

text \<open>
  \<open>entries n live f\<close> lists the entries \<open>f i\<close> (key and value) of the buckets \<open>i < n\<close> that
  \<open>live\<close> marks as occupied, in index order; \<open>map_of\<close> of it is the finite map the table stands
  for, provided no key occurs twice (\<open>keys_inj\<close>).
\<close>

definition entries :: "nat \<Rightarrow> (nat \<Rightarrow> bool) \<Rightarrow> (nat \<Rightarrow> 'k \<times> 'v) \<Rightarrow> ('k \<times> 'v) list" where
  "entries n live f = map f (filter live [0..<n])"

definition keys_inj :: "nat \<Rightarrow> (nat \<Rightarrow> bool) \<Rightarrow> (nat \<Rightarrow> 'k \<times> 'v) \<Rightarrow> bool" where
  "keys_inj n live f \<longleftrightarrow> inj_on (\<lambda>i. fst (f i)) {i. i < n \<and> live i}"

lemma keys_injD:
  "keys_inj n live f \<Longrightarrow> i < n \<Longrightarrow> j < n \<Longrightarrow> live i \<Longrightarrow> live j \<Longrightarrow> fst (f i) = fst (f j) \<Longrightarrow> i = j"
  by (auto simp: keys_inj_def inj_on_def)

lemma entries_Suc: "entries (Suc i) live f = entries i live f @ (if live i then [f i] else [])"
  by (simp add: entries_def)

lemma set_entries: "set (entries n live f) = f ` {i. i < n \<and> live i}"
  by (auto simp: entries_def)

lemma length_entries: "length (entries n live f) = card {i. i < n \<and> live i}"
proof -
  have "length (entries n live f) = card (set (filter live [0..<n]))"
    by (subst distinct_card) (simp_all add: entries_def)
  also have "set (filter live [0..<n]) = {i. i < n \<and> live i}" by auto
  finally show ?thesis .
qed

lemma mset_entries: "mset (entries n live f) = image_mset f (mset_set {i. i < n \<and> live i})"
proof -
  have "mset (filter live [0..<n]) = mset_set {i. i < n \<and> live i}"
    by (subst mset_set_set [symmetric]) (auto intro: arg_cong [where f = mset_set])
  then show ?thesis by (simp add: entries_def)
qed

lemma distinct_entries: "distinct (map fst (entries n live f)) \<longleftrightarrow> keys_inj n live f"
proof -
  have "{i. i < n \<and> live i} = set (filter live [0..<n])" by auto
  then show ?thesis
    by (simp add: entries_def keys_inj_def distinct_map inj_on_def del: set_filter)
qed

lemma map_of_entries_Some:
  assumes "keys_inj n live f"
  shows "map_of (entries n live f) k = Some v \<longleftrightarrow> (\<exists>i<n. live i \<and> f i = (k, v))"
proof -
  have "distinct (map fst (entries n live f))"
    using assms by (simp add: distinct_entries)
  then have "map_of (entries n live f) k = Some v \<longleftrightarrow> (k, v) \<in> set (entries n live f)"
    by (rule map_of_eq_Some_iff)
  then show ?thesis by (auto simp: set_entries image_iff)
qed

lemma map_of_entries_at:
  "keys_inj n live f \<Longrightarrow> i < n \<Longrightarrow> live i \<Longrightarrow> map_of (entries n live f) (fst (f i)) = Some (snd (f i))"
  using map_of_entries_Some [of n live f "fst (f i)" "snd (f i)"] by auto

lemma map_of_entries_None:
  "map_of (entries n live f) k = None \<longleftrightarrow> (\<forall>i<n. live i \<longrightarrow> fst (f i) \<noteq> k)"
  by (auto simp: map_of_eq_None_iff set_entries image_iff)

lemma entries_cong:
  assumes "\<And>i. i < n \<Longrightarrow> live' i \<longleftrightarrow> live i" and "\<And>i. i < n \<Longrightarrow> live i \<Longrightarrow> f' i = f i"
  shows "entries n live' f' = entries n live f"
proof -
  have "filter live' [0..<n] = filter live [0..<n]"
    using assms(1) by (auto intro: filter_cong)
  then show ?thesis using assms(2) by (auto simp: entries_def)
qed

lemma map_of_entries_mset:
  assumes "mset (entries n live f) = mset (entries m live' f')" and "keys_inj n live f"
  shows "map_of (entries m live' f') = map_of (entries n live f)" and "keys_inj m live' f'"
proof -
  have "distinct (map fst (entries n live f))"
    using assms(2) by (simp add: distinct_entries)
  moreover have "mset (map fst (entries n live f)) = mset (map fst (entries m live' f'))"
    using assms(1) by simp
  ultimately have d: "distinct (map fst (entries m live' f'))"
    by (metis mset_eq_imp_distinct_iff)
  then show "keys_inj m live' f'" by (simp add: distinct_entries)
  show "map_of (entries m live' f') = map_of (entries n live f)"
    using d assms by (metis distinct_entries map_of_inject_set mset_eq_setD)
qed

text \<open>
  The three ways an operation changes the entries: one bucket gets a key not in the table, one
  live bucket gets a new value, one live bucket is freed.
\<close>

lemma map_eqI: "(\<And>x w. m x = Some w \<longleftrightarrow> m' x = Some w) \<Longrightarrow> m = m'"
  by (rule ext) (metis option.exhaust)

lemma entries_put:
  assumes inj: "keys_inj n live f" and i: "i < n" "live' i" "f' i = (k, v)"
    and other: "\<And>j. j < n \<Longrightarrow> j \<noteq> i \<Longrightarrow> (live' j \<longleftrightarrow> live j) \<and> (live j \<longrightarrow> f' j = f j)"
    and fresh: "\<And>j. j < n \<Longrightarrow> j \<noteq> i \<Longrightarrow> live j \<Longrightarrow> fst (f j) \<noteq> k"
    and own: "live i \<Longrightarrow> fst (f i) = k"
  shows "keys_inj n live' f'" (is ?inj)
    and "map_of (entries n live' f') = (map_of (entries n live f))(k \<mapsto> v)" (is ?map)
proof -
  show ?inj
    using inj i other fresh unfolding keys_inj_def inj_on_def
    by (simp, metis fst_conv)
  show ?map
  proof (rule map_eqI)
    fix x w
    have "(\<exists>j<n. live' j \<and> f' j = (x, w)) \<longleftrightarrow>
        x = k \<and> w = v \<or> x \<noteq> k \<and> (\<exists>j<n. live j \<and> f j = (x, w))"
      using i other fresh own by (metis Pair_inject fst_conv)
    then show "map_of (entries n live' f') x = Some w
        \<longleftrightarrow> ((map_of (entries n live f))(k \<mapsto> v)) x = Some w"
      by (auto simp: map_of_entries_Some [OF inj] map_of_entries_Some [OF \<open>?inj\<close>])
  qed
qed

lemma entries_remove:
  assumes inj: "keys_inj n live f" and i: "i < n" "live i" "\<not> live' i"
    and other: "\<And>j. j < n \<Longrightarrow> j \<noteq> i \<Longrightarrow> (live' j \<longleftrightarrow> live j) \<and> (live j \<longrightarrow> f' j = f j)"
  shows "keys_inj n live' f'" (is ?inj)
    and "map_of (entries n live' f') = (map_of (entries n live f))(fst (f i) := None)" (is ?map)
proof -
  show ?inj
    using inj i other unfolding keys_inj_def inj_on_def by (simp, metis)
  show ?map
  proof (rule map_eqI)
    fix x w
    have "(\<exists>j<n. live' j \<and> f' j = (x, w)) \<longleftrightarrow>
        x \<noteq> fst (f i) \<and> (\<exists>j<n. live j \<and> f j = (x, w))"
      using i other keys_injD [OF inj] by (metis fst_conv)
    then show "map_of (entries n live' f') x = Some w
        \<longleftrightarrow> ((map_of (entries n live f))(fst (f i) := None)) x = Some w"
      by (auto simp: map_of_entries_Some [OF inj] map_of_entries_Some [OF \<open>?inj\<close>])
  qed
qed

lemma card_live_insert:
  assumes "i < (n::nat)" "\<not> live i" "live' i" "\<And>j. j < n \<Longrightarrow> j \<noteq> i \<Longrightarrow> live' j \<longleftrightarrow> live j"
  shows "card {j. j < n \<and> live' j} = Suc (card {j. j < n \<and> live j})"
proof -
  have "{j. j < n \<and> live' j} = insert i {j. j < n \<and> live j}" using assms by auto
  then show ?thesis using assms(2) by simp
qed

lemma card_live_remove:
  assumes "i < (n::nat)" "live i" "\<not> live' i" "\<And>j. j < n \<Longrightarrow> j \<noteq> i \<Longrightarrow> live' j \<longleftrightarrow> live j"
  shows "Suc (card {j. j < n \<and> live' j}) = card {j. j < n \<and> live j}"
  using card_live_insert [of i n live' live] assms by simp

lemma card_live_cong:
  "(\<And>j. j < n \<Longrightarrow> live' j \<longleftrightarrow> live j) \<Longrightarrow> card {j. j < (n::nat) \<and> live' j} = card {j. j < n \<and> live j}"
  by (rule arg_cong [where f = card]) auto

lemma exists_free_bucket:
  assumes "card {j. j < (n::nat) \<and> live j} < n"
  obtains b where "b < n" and "\<not> live b"
proof -
  have "{j. j < n \<and> live j} \<noteq> {..<n}"
    using assms by (metis card_lessThan nat_less_le)
  then show thesis using that by auto
qed

text \<open>What follows an element of a filtered range.\<close>

lemma filter_upt_after:
  "j < length (filter P [a..<n]) \<Longrightarrow>
    filter P [Suc (filter P [a..<n] ! j)..<n] = drop (Suc j) (filter P [a..<n])"
proof (induction "n - a" arbitrary: a j)
  case (Suc d)
  then have up: "[a..<n] = a # [Suc a..<n]" by (simp add: upt_conv_Cons)
  have "d = n - Suc a" using Suc.hyps(2) by simp
  note IH = Suc.hyps(1) [OF this]
  show ?case
  proof (cases "P a")
    case True
    then show ?thesis using IH Suc.prems by (cases j) (simp_all add: up)
  next
    case False
    then show ?thesis using IH Suc.prems by (simp add: up)
  qed
qed simp

lemma filter_upt_hd: "filter P [a..<n] = j # js \<Longrightarrow> a \<le> j \<and> j < n \<and> P j"
  by (metis atLeastLessThan_iff filter_eq_Cons_iff in_set_conv_decomp set_upt)

end
