(* ===== verification/Blueprints.thy ===== *)
theory Blueprints
  imports Prelude
begin

text \<open>
  The three blueprints under \<open>src/blueprints\<close>: key types, hash functions, comparison functions and
  the generators of unique keys. A blueprint's contract (what the tables and the benchmark rely
  on) is the locale \<open>blueprint\<close>, interpreted on all three.
\<close>

section \<open>The contract of a blueprint\<close>

text \<open>
  \<open>cmpr_keys\<close> decides equality, and \<open>fill_unique_keys\<close> fills a vector of any size up to
  \<open>max_keys\<close> with distinct keys (README, "Adding a new blueprint").
\<close>

locale blueprint =
  fixes hash_key :: "'k \<Rightarrow> u64"
    and cmpr_keys :: "'k \<Rightarrow> 'k \<Rightarrow> bool"
    and fill_unique_keys :: "nat \<Rightarrow> 'k list"
    and max_keys :: nat
  assumes cmpr_eq: "cmpr_keys x y \<longleftrightarrow> x = y"
    and fill_length: "length (fill_unique_keys n) = n"
    and fill_distinct: "n \<le> max_keys \<Longrightarrow> distinct (fill_unique_keys n)"
begin

lemma cmpr_is_eq: "cmpr_keys = (=)"
  by (intro ext) (simp add: cmpr_eq)

text \<open>Keys at different positions of the vector never compare equal.\<close>

lemma fill_cmpr_neq:
  assumes "n \<le> max_keys" "i < n" "j < n" "i \<noteq> j"
  shows "\<not> cmpr_keys (fill_unique_keys n ! i) (fill_unique_keys n ! j)"
  using assms fill_distinct [OF assms(1)] fill_length [of n]
  by (simp add: cmpr_eq nth_eq_iff_index_eq)

end

section \<open>Integer keys: the 64-bit finalizer of MurmurHash3\<close>

definition murmur_fin :: "u64 \<Rightarrow> u64" where
  "murmur_fin key =
    (let result = key;
         result = result XOR drop_bit 33 result;
         result = result * 0xff51afd7ed558ccd;
         result = result XOR drop_bit 33 result;
         result = result * 0xc4ceb9fe1a85ec53;
         result = result XOR drop_bit 33 result
     in result)"

definition hash_key_uint32 :: "u32 \<Rightarrow> u64" where
  "hash_key_uint32 key = murmur_fin (ucast key)"

definition hash_key_uint64 :: "u64 \<Rightarrow> u64" where
  "hash_key_uint64 key = murmur_fin key"

definition cmpr_keys_uint32 :: "u32 \<Rightarrow> u32 \<Rightarrow> bool" where
  "cmpr_keys_uint32 key_1 key_2 \<longleftrightarrow> key_1 = key_2"

definition cmpr_keys_uint64 :: "u64 \<Rightarrow> u64 \<Rightarrow> bool" where
  "cmpr_keys_uint64 key_1 key_2 \<longleftrightarrow> key_1 = key_2"

text \<open>
  \<open>std::iota\<close> from 0: element \<open>i\<close> is \<open>i\<close>, reduced to the key type. Its counter is an \<open>int\<close>, which counts
  without overflow up to \<open>2 ^ 31 - 1\<close> keys; the interpretations below hold up to that number, and the
  benchmarks ask for 600,000.
\<close>

definition fill_unique_keys_uint32 :: "nat \<Rightarrow> u32 list" where
  "fill_unique_keys_uint32 n = map of_nat [0..<n]"

definition fill_unique_keys_uint64 :: "nat \<Rightarrow> u64 list" where
  "fill_unique_keys_uint64 n = map of_nat [0..<n]"

text \<open>
  Each step of the finalizer is invertible: the shift by 33 is undone by itself, and each
  multiplier is odd, with the inverse written out.
\<close>

definition murmur_unfin :: "u64 \<Rightarrow> u64" where
  "murmur_unfin h =
    (let r = h XOR drop_bit 33 h;
         r = r * 0x9cb4b2f8129337db;
         r = r XOR drop_bit 33 r;
         r = r * 0x4f74430c22a54005
     in r XOR drop_bit 33 r)"

lemma xorshift33_inv: "(x XOR drop_bit 33 x) XOR drop_bit 33 (x XOR drop_bit 33 x) = (x :: u64)"
  by (rule bit_word_eqI) (auto simp: bit_simps dest: bit_imp_le_length)

lemma murmur_inverse_constants:
  "(0xff51afd7ed558ccd :: u64) * 0x4f74430c22a54005 = 1"
  "(0xc4ceb9fe1a85ec53 :: u64) * 0x9cb4b2f8129337db = 1"
  by simp_all

lemma mul_c1_inv: "(x * 0xff51afd7ed558ccd) * 0x4f74430c22a54005 = (x :: u64)"
  by (simp only: mult.assoc murmur_inverse_constants mult_1_right)

lemma mul_c2_inv: "(x * 0xc4ceb9fe1a85ec53) * 0x9cb4b2f8129337db = (x :: u64)"
  by (simp only: mult.assoc murmur_inverse_constants mult_1_right)

lemma murmur_unfin_fin: "murmur_unfin (murmur_fin k) = k"
  unfolding murmur_unfin_def murmur_fin_def Let_def
  by (simp only: xorshift33_inv mul_c1_inv mul_c2_inv)

lemma is_up_u32_u64: "is_up (ucast :: u32 \<Rightarrow> u64)"
  by (simp add: is_up)

lemma ucast_u32_inj: "(ucast (x :: u32) :: u64) = ucast y \<Longrightarrow> x = y"
  by (metis ucast_up_ucast_id is_up_u32_u64)

lemma distinct_map_of_nat_u32: "n \<le> 2 ^ 32 \<Longrightarrow> distinct (map (of_nat :: nat \<Rightarrow> u32) [0..<n])"
  by (simp add: distinct_map inj_on_def word_unat_eq_iff unat_of_nat)

lemma distinct_map_of_nat_u64: "n \<le> 2 ^ 64 \<Longrightarrow> distinct (map (of_nat :: nat \<Rightarrow> u64) [0..<n])"
  by (simp add: distinct_map inj_on_def word_unat_eq_iff unat_of_nat)

interpretation bp_uint32: blueprint hash_key_uint32 cmpr_keys_uint32 fill_unique_keys_uint32 "2 ^ 31 - 1"
  by unfold_locales
    (auto simp: cmpr_keys_uint32_def fill_unique_keys_uint32_def simp del: distinct_map
      intro: distinct_map_of_nat_u32)

interpretation bp_uint64: blueprint hash_key_uint64 cmpr_keys_uint64 fill_unique_keys_uint64 "2 ^ 31 - 1"
  by unfold_locales
    (auto simp: cmpr_keys_uint64_def fill_unique_keys_uint64_def simp del: distinct_map
      intro: distinct_map_of_nat_u64)

section \<open>C-string keys: FNV-1a and strcmp\<close>

text \<open>
  A key is a pointer to a NUL-terminated byte string: the bytes before the terminator, none of
  them NUL. \<open>cmem\<close> is the memory a function reads from the pointer on.
\<close>

typedef cstr = "{bs :: u8 list. 0 \<notin> set bs}"
  morphisms cbytes mk_cstr
  by (rule exI [of _ "[]"]) simp

setup_lifting type_definition_cstr

definition cmem :: "cstr \<Rightarrow> u8 list" where
  "cmem s = cbytes s @ [0]"

fun fnv1a_loop :: "u64 \<Rightarrow> u8 list \<Rightarrow> u64" where
  "fnv1a_loop hash [] = hash"
| "fnv1a_loop hash (c # cs) =
    (if c \<noteq> 0 then fnv1a_loop ((ucast c XOR hash) * 0x100000001b3) cs else hash)"

definition hash_key_cstring :: "cstr \<Rightarrow> u64" where
  "hash_key_cstring key = fnv1a_loop 0xcbf29ce484222325 (cmem key)"

text \<open>\<open>strcmp( a, b ) == 0\<close>, byte by byte up to the first difference or the common terminator.\<close>

fun strcmp_zero :: "u8 list \<Rightarrow> u8 list \<Rightarrow> bool" where
  "strcmp_zero (a # as) (b # bs) = (if a \<noteq> b then False else if a = 0 then True else strcmp_zero as bs)"
| "strcmp_zero as bs = (as = bs)"

definition cmpr_keys_cstring :: "cstr \<Rightarrow> cstr \<Rightarrow> bool" where
  "cmpr_keys_cstring key_1 key_2 = strcmp_zero (cmem key_1) (cmem key_2)"

text \<open>
  \<open>current\<close>, the 16-byte buffer of \<open>fill_unique_keys\<close>, counts in base 26: the inner loop adds
  one at the first byte and carries while a byte passes \<open>'z'\<close> (122; compared as a signed char).
  The terminator is never touched, so the buffer is its first 15 bytes.
\<close>

fun next_string :: "u8 list \<Rightarrow> u8 list" where
  "next_string [] = []"
| "next_string (c # cs) = (if word_sle (c + 1) 122 then (c + 1) # cs else 97 # next_string cs)"

fun fill_strings :: "nat \<Rightarrow> u8 list \<Rightarrow> u8 list list" where
  "fill_strings 0 current = []"
| "fill_strings (Suc n) current = current # fill_strings n (next_string current)"

definition fill_unique_keys_cstring :: "nat \<Rightarrow> cstr list" where
  "fill_unique_keys_cstring n = map mk_cstr (fill_strings n (replicate 15 97))"

lemma zero_notin_cbytes [simp]: "0 \<notin> set (cbytes s)"
  using cbytes [of s] by simp

lemma strcmp_zero_iff: "0 \<notin> set as \<Longrightarrow> 0 \<notin> set bs \<Longrightarrow> strcmp_zero (as @ [0]) (bs @ [0]) \<longleftrightarrow> as = bs"
proof (induction as arbitrary: bs)
  case Nil
  then show ?case by (cases bs) auto
next
  case (Cons a as)
  then show ?case by (cases bs) auto
qed

text \<open>The buffer as a number in base 26, least significant byte first.\<close>

fun string_value :: "u8 list \<Rightarrow> nat" where
  "string_value [] = 0"
| "string_value (c # cs) = (unat c - 97) + 26 * string_value cs"

definition lower :: "u8 list \<Rightarrow> bool" where
  "lower bs \<longleftrightarrow> (\<forall>b \<in> set bs. 97 \<le> unat b \<and> unat b \<le> 122)"

lemma next_char_cases:
  assumes "97 \<le> unat c" "unat (c :: u8) \<le> 122"
  shows "unat (c + 1) = unat c + 1" and "word_sle (c + 1) 122 \<longleftrightarrow> unat c < 122"
proof -
  show u: "unat (c + 1) = unat c + 1"
    using assms by (simp add: unat_word_ariths)
  have "int (unat c) \<le> 122" using assms(2) by linarith
  then have c122: "uint c \<le> 122" by simp
  have "uint (c + 1) = int (unat (c + 1))" by simp
  then have "uint (c + 1) = int (unat c + 1)" unfolding u .
  then have "sint (c + 1) = int (unat c + 1)"
    using c122 unfolding sint_uint by (subst signed_take_bit_int_eq_self) simp_all
  moreover have "unat c < 122 \<longleftrightarrow> int (unat c) \<le> 121" by linarith
  ultimately show "word_sle (c + 1) 122 \<longleftrightarrow> unat c < 122"
    by (simp add: word_sle_eq)
qed

lemma next_string_lower:
  "lower cs \<Longrightarrow> lower (next_string cs) \<and> length (next_string cs) = length cs"
proof (induction cs)
  case (Cons c cs)
  from Cons.prems have c: "97 \<le> unat c" "unat c \<le> 122" and cs: "lower cs"
    by (simp_all add: lower_def)
  from Cons.IH [OF cs] have IH: "lower (next_string cs)" "length (next_string cs) = length cs"
    by simp_all
  show ?case
  proof (cases "unat c < 122")
    case True
    then have "97 \<le> unat (c + 1)" "unat (c + 1) \<le> 122"
      using c unfolding next_char_cases(1) [OF c] by simp_all
    then show ?thesis
      using True cs by (simp add: next_char_cases(2) [OF c] lower_def)
  next
    case False
    then show ?thesis using IH by (simp add: next_char_cases(2) [OF c] lower_def)
  qed
qed (simp add: lower_def)

lemma string_value_bound: "lower cs \<Longrightarrow> string_value cs < 26 ^ length cs"
proof (induction cs)
  case (Cons c cs)
  then have "string_value cs < 26 ^ length cs" "unat c - 97 < 26"
    by (auto simp: lower_def)
  then show ?case by (simp add: lower_def)
qed simp

text \<open>One step of the inner loop adds one to the number, up to the wrap-around at the last string.\<close>

lemma string_value_next:
  "lower cs \<Longrightarrow> string_value (next_string cs) = (string_value cs + 1) mod 26 ^ length cs"
proof (induction cs)
  case (Cons c cs)
  have l: "97 \<le> unat c" "unat c \<le> 122" "lower cs" using Cons.prems by (auto simp: lower_def)
  show ?case
  proof (cases "unat c < 122")
    case True
    have "string_value cs < 26 ^ length cs" using l(3) by (rule string_value_bound)
    then show ?thesis using True l next_char_cases [OF l(1,2)] by simp
  next
    case False
    then have "unat c = 122" using l by simp
    then show ?thesis
      using l next_char_cases [OF l(1,2)] Cons.IH [OF l(3)]
      using mult_mod_right [of 26 "Suc (string_value cs)" "26 ^ length cs"] by simp
  qed
qed simp

lemma string_value_inj: "lower as \<Longrightarrow> lower bs \<Longrightarrow> length as = length bs \<Longrightarrow>
    string_value as = string_value bs \<Longrightarrow> as = bs"
proof (induction as arbitrary: bs)
  case (Cons a as)
  then obtain b bs' where bs: "bs = b # bs'" by (cases bs) auto
  have ab: "unat a - 97 < 26" "unat b - 97 < 26" "97 \<le> unat a" "97 \<le> unat b"
    using Cons.prems by (auto simp: lower_def bs)
  have eq: "(unat a - 97) + 26 * string_value as = (unat b - 97) + 26 * string_value bs'"
    using Cons.prems by (simp add: bs)
  then have "unat a - 97 = unat b - 97"
    using ab by (metis mod_less mod_mult_self2)
  then have "a = b" using ab by (simp add: word_unat_eq_iff)
  moreover have "string_value as = string_value bs'" using eq \<open>a = b\<close> by simp
  ultimately show ?case using Cons.IH [of bs'] Cons.prems by (auto simp: bs lower_def)
qed simp

text \<open>The \<open>i\<close>-th string of the vector is the number \<open>i\<close> above the first one.\<close>

lemma fill_strings_nth:
  "lower cs \<Longrightarrow> i < n \<Longrightarrow>
   lower (fill_strings n cs ! i) \<and> length (fill_strings n cs ! i) = length cs \<and>
   string_value (fill_strings n cs ! i) = (string_value cs + i) mod 26 ^ length cs"
proof (induction n arbitrary: cs i)
  case (Suc n)
  show ?case
  proof (cases i)
    case 0
    then show ?thesis using Suc.prems string_value_bound by simp
  next
    case (Suc j)
    have nx: "lower (next_string cs)" "length (next_string cs) = length cs"
      using next_string_lower Suc.prems(1) by blast+
    show ?thesis
      using Suc.IH [OF nx(1), of j] Suc.prems Suc
      by (simp add: nx string_value_next mod_simps)
  qed
qed simp

lemma length_fill_strings: "length (fill_strings n cs) = n"
  by (induction n arbitrary: cs) auto

lemma string_value_start: "string_value (replicate m 97) = 0"
  by (induction m) auto

lemma lower_start: "lower (replicate m 97)"
  by (simp add: lower_def)

lemma distinct_fill_strings: "n \<le> 26 ^ 15 \<Longrightarrow> distinct (fill_strings n (replicate 15 97))"
proof -
  assume n: "n \<le> 26 ^ 15"
  have v: "string_value (fill_strings n (replicate 15 97) ! i) = i" if "i < n" for i
    using fill_strings_nth [OF lower_start that, of 15] n that
    by (simp add: string_value_start)
  show ?thesis
    unfolding distinct_conv_nth length_fill_strings using v by metis
qed

lemma lower_zero_free: "lower bs \<Longrightarrow> 0 \<notin> set bs"
  by (auto simp: lower_def)

lemma mk_cstr_inj: "0 \<notin> set as \<Longrightarrow> 0 \<notin> set bs \<Longrightarrow> mk_cstr as = mk_cstr bs \<longleftrightarrow> as = bs"
  by (simp add: mk_cstr_inject)

lemma set_fill_strings_zero_free:
  assumes "bs \<in> set (fill_strings n (replicate 15 97))"
  shows "0 \<notin> set bs"
proof -
  obtain i where i: "i < n" "bs = fill_strings n (replicate 15 97) ! i"
    using assms by (metis in_set_conv_nth length_fill_strings)
  then show ?thesis
    using fill_strings_nth [OF lower_start i(1), of 15] lower_zero_free by simp
qed

interpretation bp_cstring: blueprint hash_key_cstring cmpr_keys_cstring fill_unique_keys_cstring "26 ^ 15"
proof unfold_locales
  fix x y :: cstr
  show "cmpr_keys_cstring x y \<longleftrightarrow> x = y"
    by (simp add: cmpr_keys_cstring_def cmem_def strcmp_zero_iff cbytes_inject)
next
  fix n
  show "length (fill_unique_keys_cstring n) = n"
    by (simp add: fill_unique_keys_cstring_def length_fill_strings)
next
  fix n :: nat
  assume "n \<le> 26 ^ 15"
  then show "distinct (fill_unique_keys_cstring n)"
    unfolding fill_unique_keys_cstring_def distinct_map
    by (auto simp del: replicate.simps simp: distinct_fill_strings inj_on_def mk_cstr_inj
      set_fill_strings_zero_free)
qed

section \<open>Properties of the blueprints\<close>

text \<open>The integer hash function loses nothing: \<open>murmur_unfin\<close> recovers the key from the hash
  code, so two different 32-bit or 64-bit keys never have the same 64-bit hash code.\<close>

theorem murmur_collision_free:
  "murmur_unfin (hash_key_uint64 k) = k
    \<and> (hash_key_uint64 k1 = hash_key_uint64 k2 \<longleftrightarrow> k1 = k2)
    \<and> (hash_key_uint32 j1 = hash_key_uint32 j2 \<longleftrightarrow> j1 = j2)"
  unfolding hash_key_uint64_def hash_key_uint32_def
  by (metis murmur_unfin_fin ucast_u32_inj)

text \<open>C36: the odometer of the C-string blueprint writes pairwise different strings, and
  \<open>cmpr_keys\<close> tells any two of them apart, for every vector of up to \<open>26 ^ 15\<close> keys.\<close>

theorem cstring_keys_unique:
  assumes "n \<le> 26 ^ 15" and "i < n" and "j < n" and "i \<noteq> j"
  shows "\<not> cmpr_keys_cstring (fill_unique_keys_cstring n ! i) (fill_unique_keys_cstring n ! j)"
  using assms by (rule bp_cstring.fill_cmpr_neq)

theorem cstring_keys_unique_witness:
  "\<not> cmpr_keys_cstring (fill_unique_keys_cstring 600000 ! 5) (fill_unique_keys_cstring 600000 ! 599999)"
  by (rule cstring_keys_unique) simp_all

end
