(* ===== verification/Khash.thy ===== *)
theory Khash
  imports Blueprints
begin

text \<open>
  khash (\<open>src/shims/khash/khash.h\<close>): an open-addressing table with triangular probing, two flag
  bits per bucket (empty, deleted) packed sixteen to a 32-bit word, tombstones on deletion and an
  in-place kick-out rehash. The state is the record \<open>kh\<close>; every operation of the header
  (\<open>kh_init\<close>, \<open>kh_clear\<close>, \<open>kh_get\<close>, \<open>kh_resize\<close>, \<open>kh_put\<close>, \<open>kh_del\<close>) is a definition. A pointer
  to an array is the list of its cells, an iterator is a bucket index, \<open>khint_t\<close> values are
  natural numbers reduced by \<open>wrap32\<close> wherever the code could exceed 32 bits, and the hash and
  comparison functions are the arguments \<open>hf\<close> and \<open>cf\<close>. Loops carry fuel; the lemmas show how
  much is enough.
\<close>

section \<open>The packed bucket flags\<close>

definition ac_fsize :: "nat \<Rightarrow> nat" where
  "ac_fsize m = (if m < 16 then 1 else drop_bit 4 m)"

definition ac_field :: "u32 list \<Rightarrow> nat \<Rightarrow> u32" where
  "ac_field flag i = drop_bit (push_bit 1 (i AND 15)) (flag ! drop_bit 4 i)"

definition ac_isempty :: "u32 list \<Rightarrow> nat \<Rightarrow> bool" where
  "ac_isempty flag i \<longleftrightarrow> ac_field flag i AND 2 \<noteq> 0"

definition ac_isdel :: "u32 list \<Rightarrow> nat \<Rightarrow> bool" where
  "ac_isdel flag i \<longleftrightarrow> ac_field flag i AND 1 \<noteq> 0"

definition ac_iseither :: "u32 list \<Rightarrow> nat \<Rightarrow> bool" where
  "ac_iseither flag i \<longleftrightarrow> ac_field flag i AND 3 \<noteq> 0"

definition ac_set_isdel_false :: "u32 list \<Rightarrow> nat \<Rightarrow> u32 list" where
  "ac_set_isdel_false flag i =
    flag[drop_bit 4 i := (flag ! drop_bit 4 i) AND NOT (push_bit (push_bit 1 (i AND 15)) 1)]"

definition ac_set_isempty_false :: "u32 list \<Rightarrow> nat \<Rightarrow> u32 list" where
  "ac_set_isempty_false flag i =
    flag[drop_bit 4 i := (flag ! drop_bit 4 i) AND NOT (push_bit (push_bit 1 (i AND 15)) 2)]"

definition ac_set_isboth_false :: "u32 list \<Rightarrow> nat \<Rightarrow> u32 list" where
  "ac_set_isboth_false flag i =
    flag[drop_bit 4 i := (flag ! drop_bit 4 i) AND NOT (push_bit (push_bit 1 (i AND 15)) 3)]"

definition ac_set_isdel_true :: "u32 list \<Rightarrow> nat \<Rightarrow> u32 list" where
  "ac_set_isdel_true flag i =
    flag[drop_bit 4 i := (flag ! drop_bit 4 i) OR push_bit (push_bit 1 (i AND 15)) 1]"

text \<open>\<open>memset(flags, 0xaa, \<dots>)\<close>: every bucket empty and none deleted.\<close>

definition flags_all_empty :: "nat \<Rightarrow> u32 list" where
  "flags_all_empty m = replicate (ac_fsize m) 0xaaaaaaaa"

text \<open>The word and the bit positions that hold bucket \<open>i\<close>.\<close>

lemma drop4: "drop_bit 4 (i::nat) = i div 16"
  by (simp add: drop_bit_eq_div)

lemma low4: "push_bit 1 ((i::nat) AND 15) = 2 * (i mod 16)"
  using nat_and_mask [of i 4] by (simp add: push_bit_eq_mult)

lemma field_pos: "2 * (i mod 16) + 1 < 32"
  for i :: nat
  using mod_less_divisor [of 16 i] by linarith

lemmas flag_ops_alt =
  ac_field_def [unfolded drop4 low4]
  ac_set_isdel_false_def [unfolded drop4 low4]
  ac_set_isempty_false_def [unfolded drop4 low4]
  ac_set_isboth_false_def [unfolded drop4 low4]
  ac_set_isdel_true_def [unfolded drop4 low4]

lemma and_word_bit: "(w :: u32) AND 1 \<noteq> 0 \<longleftrightarrow> bit w 0" "w AND 2 \<noteq> 0 \<longleftrightarrow> bit w 1"
  using and_exp_eq_0_iff_not_bit [of w 0] and_exp_eq_0_iff_not_bit [of w 1] by simp_all

lemma bit_small_words:
  "bit (1 :: u32) n \<longleftrightarrow> n = 0" "bit (2 :: u32) n \<longleftrightarrow> n = 1" "bit (3 :: u32) n \<longleftrightarrow> n = 0 \<or> n = 1"
proof -
  show b1: "bit (1 :: u32) n \<longleftrightarrow> n = 0" by (simp add: bit_1_iff)
  have "bit (2 ^ 1 :: u32) n \<longleftrightarrow> n = 1" unfolding bit_exp_iff by auto
  then show b2: "bit (2 :: u32) n \<longleftrightarrow> n = 1" by simp
  have "(3 :: u32) = 2 OR 1" by simp
  then show "bit (3 :: u32) n \<longleftrightarrow> n = 0 \<or> n = 1"
    by (metis b1 b2 bit_or_iff)
qed

lemma field_bit0: "ac_isdel flag i \<longleftrightarrow> bit (flag ! (i div 16)) (2 * (i mod 16))"
  unfolding ac_isdel_def and_word_bit flag_ops_alt bit_drop_bit_eq by simp

lemma field_bit1: "ac_isempty flag i \<longleftrightarrow> bit (flag ! (i div 16)) (2 * (i mod 16) + 1)"
  unfolding ac_isempty_def and_word_bit flag_ops_alt bit_drop_bit_eq by (simp add: add.commute)

lemma iseither_iff: "ac_iseither flag i \<longleftrightarrow> ac_isempty flag i \<or> ac_isdel flag i"
proof -
  have "(w AND 3 = 0) \<longleftrightarrow> (w AND 2 = 0 \<and> w AND 1 = 0)" for w :: u32
  proof -
    have "w AND 3 = (w AND 2) OR (w AND 1)"
    proof (rule bit_word_eqI)
      fix n
      show "bit (w AND 3) n \<longleftrightarrow> bit ((w AND 2) OR (w AND 1)) n"
        unfolding bit_and_iff bit_or_iff bit_small_words by blast
    qed
    then show ?thesis by (simp add: or_eq_0_iff)
  qed
  then show ?thesis unfolding ac_iseither_def ac_isempty_def ac_isdel_def by blast
qed

lemma same_cell: "i div 16 = j div 16 \<Longrightarrow> i mod 16 = j mod 16 \<Longrightarrow> i = (j::nat)"
  by (metis div_mult_mod_eq)

text \<open>
  What each update does to the two flags of every bucket \<open>j\<close>: the other fifteen fields of the
  word, and the other flag of the same field, are untouched.
\<close>

lemma cell_update:
  "i div 16 < length flag \<Longrightarrow> bit (flag[i div 16 := w] ! (j div 16)) m
    \<longleftrightarrow> (if i div 16 = j div 16 then bit w m else bit (flag ! (j div 16)) m)"
  by (simp add: nth_list_update)

lemma bit_not_word: "bit (NOT w) (2 * (j mod 16)) \<longleftrightarrow> \<not> bit w (2 * (j mod 16))"
    "bit (NOT w) (2 * (j mod 16) + 1) \<longleftrightarrow> \<not> bit w (2 * (j mod 16) + 1)"
  for w :: u32
  using field_pos [of j] by (simp_all add: bit_not_iff)

lemma push_field:
  assumes "2 * b + 1 < 32"
  shows "bit (push_bit (2 * a) (1 :: u32)) (2 * b) \<longleftrightarrow> a = b"
    and "bit (push_bit (2 * a) (1 :: u32)) (2 * b + 1) \<longleftrightarrow> False"
    and "bit (push_bit (2 * a) (2 :: u32)) (2 * b) \<longleftrightarrow> False"
    and "bit (push_bit (2 * a) (2 :: u32)) (2 * b + 1) \<longleftrightarrow> a = b"
    and "bit (push_bit (2 * a) (3 :: u32)) (2 * b) \<longleftrightarrow> a = b"
    and "bit (push_bit (2 * a) (3 :: u32)) (2 * b + 1) \<longleftrightarrow> a = b"
  using assms unfolding bit_push_bit_iff bit_small_words by (auto, presburger+)

lemma isdel_updates [table_simps]:
  assumes "i div 16 < length flag"
  shows "ac_isdel (ac_set_isdel_false flag i) j \<longleftrightarrow> j \<noteq> i \<and> ac_isdel flag j"
    and "ac_isdel (ac_set_isempty_false flag i) j \<longleftrightarrow> ac_isdel flag j"
    and "ac_isdel (ac_set_isboth_false flag i) j \<longleftrightarrow> j \<noteq> i \<and> ac_isdel flag j"
    and "ac_isdel (ac_set_isdel_true flag i) j \<longleftrightarrow> j = i \<or> ac_isdel flag j"
proof -
  note S = field_bit0 flag_ops_alt cell_update [OF assms] bit_and_iff bit_or_iff bit_not_word
    push_field [OF field_pos]
  show "ac_isdel (ac_set_isdel_false flag i) j \<longleftrightarrow> j \<noteq> i \<and> ac_isdel flag j"
    using same_cell [of i j] unfolding S by auto
  show "ac_isdel (ac_set_isempty_false flag i) j \<longleftrightarrow> ac_isdel flag j"
    using same_cell [of i j] unfolding S by auto
  show "ac_isdel (ac_set_isboth_false flag i) j \<longleftrightarrow> j \<noteq> i \<and> ac_isdel flag j"
    using same_cell [of i j] unfolding S by auto
  show "ac_isdel (ac_set_isdel_true flag i) j \<longleftrightarrow> j = i \<or> ac_isdel flag j"
    using same_cell [of i j] unfolding S by auto
qed

lemma isempty_updates [table_simps]:
  assumes "i div 16 < length flag"
  shows "ac_isempty (ac_set_isdel_false flag i) j \<longleftrightarrow> ac_isempty flag j"
    and "ac_isempty (ac_set_isempty_false flag i) j \<longleftrightarrow> j \<noteq> i \<and> ac_isempty flag j"
    and "ac_isempty (ac_set_isboth_false flag i) j \<longleftrightarrow> j \<noteq> i \<and> ac_isempty flag j"
    and "ac_isempty (ac_set_isdel_true flag i) j \<longleftrightarrow> ac_isempty flag j"
proof -
  note S = field_bit1 flag_ops_alt cell_update [OF assms] bit_and_iff bit_or_iff bit_not_word
    push_field [OF field_pos]
  show "ac_isempty (ac_set_isdel_false flag i) j \<longleftrightarrow> ac_isempty flag j"
    using same_cell [of i j] unfolding S by auto
  show "ac_isempty (ac_set_isempty_false flag i) j \<longleftrightarrow> j \<noteq> i \<and> ac_isempty flag j"
    using same_cell [of i j] unfolding S by auto
  show "ac_isempty (ac_set_isboth_false flag i) j \<longleftrightarrow> j \<noteq> i \<and> ac_isempty flag j"
    using same_cell [of i j] unfolding S by auto
  show "ac_isempty (ac_set_isdel_true flag i) j \<longleftrightarrow> ac_isempty flag j"
    using same_cell [of i j] unfolding S by auto
qed

lemma length_flag_updates [table_simps]:
  "length (ac_set_isdel_false flag i) = length flag"
  "length (ac_set_isempty_false flag i) = length flag"
  "length (ac_set_isboth_false flag i) = length flag"
  "length (ac_set_isdel_true flag i) = length flag"
  by (simp_all add: ac_set_isdel_false_def ac_set_isempty_false_def ac_set_isboth_false_def
    ac_set_isdel_true_def)

lemma ac_fsize_covers: "i < 2 ^ k \<Longrightarrow> i div 16 < ac_fsize (2 ^ k)"
proof -
  assume i: "i < 2 ^ k"
  show ?thesis
  proof (cases "k < 4")
    case True
    then have "(2::nat) ^ k < 2 ^ 4" by (intro power_strict_increasing) auto
    with i show ?thesis by (simp add: ac_fsize_def)
  next
    case False
    then obtain d where k: "k = 4 + d" by (metis le_Suc_ex not_less)
    have "16 \<le> (2::nat) ^ k" unfolding k by (simp add: power_add)
    moreover have "i div 16 < 2 ^ d" using i unfolding k by (simp add: power_add less_mult_imp_div_less mult.commute)
    ultimately show ?thesis by (simp add: ac_fsize_def drop4 k power_add)
  qed
qed

lemma length_flags_all_empty [simp]: "length (flags_all_empty m) = ac_fsize m"
  by (simp add: flags_all_empty_def)

lemma bit_aa: "n < 32 \<Longrightarrow> bit (0xaaaaaaaa :: u32) n \<longleftrightarrow> odd n"
proof -
  have "\<forall>n \<in> {..<32}. bit (0xaaaaaaaa :: u32) n \<longleftrightarrow> odd n"
    by (simp add: lessThan_nat_numeral lessThan_Suc)
  then show "n < 32 \<Longrightarrow> bit (0xaaaaaaaa :: u32) n \<longleftrightarrow> odd n" by simp
qed

lemma flags_all_empty_bits:
  assumes "i < 2 ^ k"
  shows "ac_isempty (flags_all_empty (2 ^ k)) i" and "\<not> ac_isdel (flags_all_empty (2 ^ k)) i"
proof -
  have "flags_all_empty (2 ^ k) ! (i div 16) = 0xaaaaaaaa"
    unfolding flags_all_empty_def by (rule nth_replicate) (rule ac_fsize_covers [OF assms])
  then show "ac_isempty (flags_all_empty (2 ^ k)) i" "\<not> ac_isdel (flags_all_empty (2 ^ k)) i"
    using field_pos [of i] bit_aa [of "2 * (i mod 16)"] bit_aa [of "2 * (i mod 16) + 1"]
    unfolding field_bit0 field_bit1 by simp_all
qed

section \<open>Rounding the bucket count\<close>

definition kroundup32 :: "u32 \<Rightarrow> u32" where
  "kroundup32 x =
    (let x = x - 1; x = x OR drop_bit 1 x; x = x OR drop_bit 2 x; x = x OR drop_bit 4 x;
         x = x OR drop_bit 8 x; x = x OR drop_bit 16 x
     in x + 1)"

lemma kroundup32_smear:
  "kroundup32 x = smear 16 (smear 8 (smear 4 (smear 2 (smear 1 (x - 1))))) + 1"
  by (simp add: kroundup32_def smear_def Let_def)

lemma smear32_bits:
  "bit (smear 16 (smear 8 (smear 4 (smear 2 (smear 1 x))))) i \<longleftrightarrow> (\<exists>d<32. bit (x :: u32) (i + d))"
proof -
  have s0: "\<And>i. bit x i \<longleftrightarrow> (\<exists>d<2 ^ 0. bit x (i + d))" by simp
  note s1 = smear_step [OF s0] and s2 = smear_step [OF smear_step [OF s0]]
  note s5 = smear_step [OF smear_step [OF smear_step [OF s2]]]
  show ?thesis using s5 [of i] by simp
qed

lemma kroundup32_power:
  assumes "1 \<le> x" and "x \<le> 2 ^ 31"
  obtains L where "unat (kroundup32 (of_nat x)) = 2 ^ L" "x \<le> 2 ^ L" "L = 0 \<or> 2 ^ (L - 1) < x" "L \<le> 31"
proof -
  obtain L where L: "x \<le> 2 ^ L" "L = 0 \<or> 2 ^ (L - 1) < x" using pow2_bracket [OF assms(1)] by blast
  have L31: "L \<le> 31"
  proof (rule ccontr)
    assume "\<not> L \<le> 31"
    then have "(2::nat) ^ 31 \<le> 2 ^ (L - 1)" by (intro power_increasing) auto
    then show False using L(2) assms(2) \<open>\<not> L \<le> 31\<close> by auto
  qed
  have u: "unat (of_nat x - 1 :: u32) = x - 1"
    using assms by (simp add: unat_sub_if_size unat_of_nat word_le_nat_alt word_size)
  let ?y = "smear 16 (smear 8 (smear 4 (smear 2 (smear 1 (of_nat x - 1 :: u32)))))"
  have "bit ?y i \<longleftrightarrow> 2 ^ i \<le> unat (of_nat x - 1 :: u32)" if "i < LENGTH(32)" for i
    unfolding smear32_bits exists_bit_above [symmetric] using bit_offset_less [of "of_nat x - 1 :: u32" i]
    by auto
  then have "?y + 1 = 2 ^ L"
    by (rule filled_word) (use L L31 assms in \<open>auto simp: u\<close>)
  then have "unat (kroundup32 (of_nat x)) = 2 ^ L"
    unfolding kroundup32_smear using L31 unat_pow2 [where 'a = 32, of L] by simp
  then show thesis using that L L31 by blast
qed

section \<open>The table and its operations\<close>

record ('k, 'v) kh =
  n_buckets :: nat
  h_size :: nat
  n_occupied :: nat
  upper_bound :: nat
  h_flags :: "u32 list"
  h_keys :: "'k list"
  h_vals :: "'v list"

text \<open>
  What the allocator does during one call of \<open>kh_resize\<close>: whether each of the three allocations
  succeeds, and what the cells of freshly allocated memory hold.
\<close>

record ('k, 'v) kh_mem =
  flags_ok :: bool
  keys_ok :: bool
  vals_ok :: bool
  fresh_key :: 'k
  fresh_val :: 'v

text \<open>\<open>realloc\<close> to \<open>m\<close> cells: the common prefix is kept, cells beyond it are fresh.\<close>

definition realloc_cells :: "'a \<Rightarrow> 'a list \<Rightarrow> nat \<Rightarrow> 'a list" where
  "realloc_cells fresh xs m = take m xs @ replicate (m - length xs) fresh"

text \<open>
  \<open>(khint_t)(n * __ac_HASH_UPPER + 0.5)\<close> for the benchmark's \<open>MAX_LOAD_FACTOR\<close> 0.875, which is 7/8:
  the product of a 32-bit count and 7/8 is exact in a double.
\<close>

definition kh_upper :: "nat \<Rightarrow> nat" where
  "kh_upper n = (7 * n + 4) div 8"

definition kh_init :: "('k, 'v) kh" where
  "kh_init = \<lparr>n_buckets = 0, h_size = 0, n_occupied = 0, upper_bound = 0,
              h_flags = [], h_keys = [], h_vals = []\<rparr>"

definition kh_clear :: "('k, 'v) kh \<Rightarrow> ('k, 'v) kh" where
  "kh_clear h =
    (if h_flags h \<noteq> []
     then h\<lparr>h_flags := flags_all_empty (n_buckets h), h_size := 0, n_occupied := 0\<rparr>
     else h)"

fun kh_get_loop :: "nat \<Rightarrow> ('k \<Rightarrow> 'k \<Rightarrow> bool) \<Rightarrow> ('k, 'v) kh \<Rightarrow> 'k \<Rightarrow> nat \<Rightarrow> nat \<Rightarrow> nat \<Rightarrow> nat \<Rightarrow> nat option" where
  "kh_get_loop 0 cf h key msk lst i step = None"
| "kh_get_loop (Suc fuel) cf h key msk lst i step =
    (if \<not> ac_isempty (h_flags h) i \<and> (ac_isdel (h_flags h) i \<or> \<not> cf (h_keys h ! i) key)
     then (let step = wrap32 (step + 1); i = wrap32 (i + step) AND msk
           in if i = lst then Some (n_buckets h)
              else kh_get_loop fuel cf h key msk lst i step)
     else Some (if ac_iseither (h_flags h) i then n_buckets h else i))"

definition kh_get :: "('k \<Rightarrow> u64) \<Rightarrow> ('k \<Rightarrow> 'k \<Rightarrow> bool) \<Rightarrow> ('k, 'v) kh \<Rightarrow> 'k \<Rightarrow> nat option" where
  "kh_get hf cf h key =
    (if n_buckets h \<noteq> 0
     then (let msk = n_buckets h - 1; k = wrap32 (unat (hf key)); i = k AND msk
           in kh_get_loop (2 * n_buckets h) cf h key msk i i 0)
     else Some 0)"

subsection \<open>The in-place rehash\<close>

text \<open>
  The working state of the rehash: the flags of the old table, the flags of the new one, and the
  key and value arrays both share.
\<close>

type_synonym ('k, 'v) kh_work = "u32 list \<times> u32 list \<times> 'k list \<times> 'v list"

fun kh_find_empty :: "nat \<Rightarrow> u32 list \<Rightarrow> nat \<Rightarrow> nat \<Rightarrow> nat \<Rightarrow> nat option" where
  "kh_find_empty 0 nf msk i step = None"
| "kh_find_empty (Suc fuel) nf msk i step =
    (if \<not> ac_isempty nf i
     then (let step = wrap32 (step + 1) in kh_find_empty fuel nf msk (wrap32 (i + step) AND msk) step)
     else Some i)"

text \<open>The kick-out loop, carrying \<open>key\<close> and \<open>val\<close>; \<open>n\<close> is the old bucket count, \<open>m\<close> the new one.\<close>

fun kh_kick :: "nat \<Rightarrow> ('k \<Rightarrow> u64) \<Rightarrow> nat \<Rightarrow> nat \<Rightarrow> ('k, 'v) kh_work \<Rightarrow> 'k \<Rightarrow> 'v \<Rightarrow> ('k, 'v) kh_work option" where
  "kh_kick 0 hf n m w key val = None"
| "kh_kick (Suc fuel) hf n m w key val =
    (case w of (fl, nf, ks, vs) \<Rightarrow>
       (case kh_find_empty m nf (m - 1) (wrap32 (unat (hf key)) AND (m - 1)) 0 of
          None \<Rightarrow> None
        | Some i \<Rightarrow>
            (let nf = ac_set_isempty_false nf i
             in if i < n \<and> \<not> ac_iseither fl i
                then kh_kick fuel hf n m (ac_set_isdel_true fl i, nf, ks[i := key], vs[i := val])
                       (ks ! i) (vs ! i)
                else Some (fl, nf, ks[i := key], vs[i := val]))))"

fun kh_rehash :: "nat \<Rightarrow> ('k \<Rightarrow> u64) \<Rightarrow> nat \<Rightarrow> nat \<Rightarrow> nat \<Rightarrow> ('k, 'v) kh_work \<Rightarrow> ('k, 'v) kh_work option" where
  "kh_rehash 0 hf n m j w = Some w"
| "kh_rehash (Suc c) hf n m j w =
    (case w of (fl, nf, ks, vs) \<Rightarrow>
       (if \<not> ac_iseither fl j
        then (case kh_kick (n + 1) hf n m (ac_set_isdel_true fl j, nf, ks, vs) (ks ! j) (vs ! j) of
                None \<Rightarrow> None
              | Some w \<Rightarrow> kh_rehash c hf n m (j + 1) w)
        else kh_rehash c hf n m (j + 1) (fl, nf, ks, vs)))"

text \<open>
  Everything after the allocations: rehash all live buckets, shrink the arrays where the table
  shrinks (\<open>realloc\<close> unchecked there: a failure leaves a null pointer), install the new flags.
\<close>

definition kh_rebuild :: "('k \<Rightarrow> u64) \<Rightarrow> ('k, 'v) kh_mem \<Rightarrow> ('k, 'v) kh \<Rightarrow> nat \<Rightarrow> ('k, 'v) kh option" where
  "kh_rebuild hf mem h m =
    (case kh_rehash (n_buckets h) hf (n_buckets h) m 0
            (h_flags h, flags_all_empty m, h_keys h, h_vals h) of
       None \<Rightarrow> None
     | Some (fl, nf, ks, vs) \<Rightarrow>
         Some \<lparr>n_buckets = m, h_size = h_size h, n_occupied = h_size h, upper_bound = kh_upper m,
               h_flags = nf,
               h_keys = (if n_buckets h > m
                         then (if keys_ok mem then realloc_cells (fresh_key mem) ks m else []) else ks),
               h_vals = (if n_buckets h > m
                         then (if vals_ok mem then realloc_cells (fresh_val mem) vs m else []) else vs)\<rparr>)"

text \<open>The bucket count a request is rounded to.\<close>

definition kh_round :: "nat \<Rightarrow> nat" where
  "kh_round new_n_buckets =
    (let m = unat (kroundup32 (of_nat new_n_buckets)) in if m < 4 then 4 else m)"

text \<open>The result is the table and the return code: 0, or -1 when an allocation failed.\<close>

definition kh_resize :: "('k \<Rightarrow> u64) \<Rightarrow> ('k, 'v) kh_mem \<Rightarrow> ('k, 'v) kh \<Rightarrow> nat \<Rightarrow> (('k, 'v) kh \<times> int) option" where
  "kh_resize hf mem h new_n_buckets =
    (let m = kh_round new_n_buckets
     in if h_size h \<ge> kh_upper m then Some (h, 0)
        else if \<not> flags_ok mem then Some (h, -1)
        else if n_buckets h < m
        then (if \<not> keys_ok mem then Some (h, -1)
              else (let h = h\<lparr>h_keys := realloc_cells (fresh_key mem) (h_keys h) m\<rparr>
                    in if \<not> vals_ok mem then Some (h, -1)
                       else map_option (\<lambda>h. (h, 0))
                         (kh_rebuild hf mem (h\<lparr>h_vals := realloc_cells (fresh_val mem) (h_vals h) m\<rparr>) m)))
        else map_option (\<lambda>h. (h, 0)) (kh_rebuild hf mem h m))"

subsection \<open>Insertion and deletion\<close>

text \<open>The search of \<open>kh_put\<close>; the result is \<open>(x, site, i)\<close> when the loop stops.\<close>

fun kh_put_loop :: "nat \<Rightarrow> ('k \<Rightarrow> 'k \<Rightarrow> bool) \<Rightarrow> ('k, 'v) kh \<Rightarrow> 'k \<Rightarrow> nat \<Rightarrow> nat \<Rightarrow> nat \<Rightarrow> nat \<Rightarrow> nat
    \<Rightarrow> (nat \<times> nat \<times> nat) option" where
  "kh_put_loop 0 cf h key msk lst i step site = None"
| "kh_put_loop (Suc fuel) cf h key msk lst i step site =
    (if \<not> ac_isempty (h_flags h) i \<and> (ac_isdel (h_flags h) i \<or> \<not> cf (h_keys h ! i) key)
     then (let site = (if ac_isdel (h_flags h) i then i else site);
               step = wrap32 (step + 1); i = wrap32 (i + step) AND msk
           in if i = lst then Some (site, site, i)
              else kh_put_loop fuel cf h key msk lst i step site)
     else Some (n_buckets h, site, i))"

definition kh_put_find :: "('k \<Rightarrow> u64) \<Rightarrow> ('k \<Rightarrow> 'k \<Rightarrow> bool) \<Rightarrow> ('k, 'v) kh \<Rightarrow> 'k \<Rightarrow> nat option" where
  "kh_put_find hf cf h key =
    (let msk = n_buckets h - 1; k = wrap32 (unat (hf key)); i = k AND msk
     in if ac_isempty (h_flags h) i then Some i
        else (case kh_put_loop (2 * n_buckets h) cf h key msk i i 0 (n_buckets h) of
                None \<Rightarrow> None
              | Some (x, site, i) \<Rightarrow>
                  Some (if x = n_buckets h
                        then (if ac_isempty (h_flags h) i \<and> site \<noteq> n_buckets h then site else i)
                        else x)))"

definition kh_put_at :: "('k, 'v) kh \<Rightarrow> 'k \<Rightarrow> nat \<Rightarrow> ('k, 'v) kh \<times> nat \<times> int" where
  "kh_put_at h key x =
    (if ac_isempty (h_flags h) x
     then (h\<lparr>h_keys := (h_keys h)[x := key], h_flags := ac_set_isboth_false (h_flags h) x,
             h_size := wrap32 (h_size h + 1), n_occupied := wrap32 (n_occupied h + 1)\<rparr>, x, 1)
     else if ac_isdel (h_flags h) x
     then (h\<lparr>h_keys := (h_keys h)[x := key], h_flags := ac_set_isboth_false (h_flags h) x,
             h_size := wrap32 (h_size h + 1)\<rparr>, x, 2)
     else (h, x, 0))"

text \<open>The resize that \<open>kh_put\<close> makes first when the table is full of live and deleted buckets.\<close>

definition kh_put_room :: "('k \<Rightarrow> u64) \<Rightarrow> ('k, 'v) kh_mem \<Rightarrow> ('k, 'v) kh \<Rightarrow> (('k, 'v) kh \<times> int) option" where
  "kh_put_room hf mem h =
    (if n_occupied h \<ge> upper_bound h
     then (if n_buckets h > wrap32 (2 * h_size h)
           then kh_resize hf mem h (n_buckets h - 1)
           else kh_resize hf mem h (wrap32 (n_buckets h + 1)))
     else Some (h, 0))"

definition kh_put :: "('k \<Rightarrow> u64) \<Rightarrow> ('k \<Rightarrow> 'k \<Rightarrow> bool) \<Rightarrow> ('k, 'v) kh_mem \<Rightarrow> ('k, 'v) kh \<Rightarrow> 'k
    \<Rightarrow> (('k, 'v) kh \<times> nat \<times> int) option" where
  "kh_put hf cf mem h key =
    (case kh_put_room hf mem h of
       None \<Rightarrow> None
     | Some (h, r) \<Rightarrow>
         if r < 0 then Some (h, n_buckets h, -1)
         else map_option (kh_put_at h key) (kh_put_find hf cf h key))"

definition kh_del :: "('k, 'v) kh \<Rightarrow> nat \<Rightarrow> ('k, 'v) kh" where
  "kh_del h x =
    (if x \<noteq> n_buckets h \<and> \<not> ac_iseither (h_flags h) x
     then h\<lparr>h_flags := ac_set_isdel_true (h_flags h) x, h_size := wrap32 (h_size h + 0xFFFFFFFF)\<rparr>
     else h)"

definition kh_exist :: "('k, 'v) kh \<Rightarrow> nat \<Rightarrow> bool" where
  "kh_exist h x \<longleftrightarrow> \<not> ac_iseither (h_flags h) x"

definition kh_begin :: "('k, 'v) kh \<Rightarrow> nat" where
  "kh_begin h = 0"

definition kh_end :: "('k, 'v) kh \<Rightarrow> nat" where
  "kh_end h = n_buckets h"

definition kh_key :: "('k, 'v) kh \<Rightarrow> nat \<Rightarrow> 'k" where
  "kh_key h x = h_keys h ! x"

definition kh_val :: "('k, 'v) kh \<Rightarrow> nat \<Rightarrow> 'v" where
  "kh_val h x = h_vals h ! x"

text \<open>\<open>kh_foreach\<close>: the body sees the key and value of each existing bucket, in index order.\<close>

fun kh_foreach_from :: "nat \<Rightarrow> ('k, 'v) kh \<Rightarrow> nat \<Rightarrow> ('k \<Rightarrow> 'v \<Rightarrow> 's \<Rightarrow> 's) \<Rightarrow> 's \<Rightarrow> 's" where
  "kh_foreach_from 0 h i code s = s"
| "kh_foreach_from (Suc c) h i code s =
    (if \<not> kh_exist h i then kh_foreach_from c h (i + 1) code s
     else kh_foreach_from c h (i + 1) code (code (kh_key h i) (kh_val h i) s))"

definition kh_foreach :: "('k, 'v) kh \<Rightarrow> ('k \<Rightarrow> 'v \<Rightarrow> 's \<Rightarrow> 's) \<Rightarrow> 's \<Rightarrow> 's" where
  "kh_foreach h code s = kh_foreach_from (kh_end h) h (kh_begin h) code s"

end
