(* ===== verification/Khash_Correct.thy ===== *)
theory Khash_Correct
  imports Khash
begin

text \<open>
  khash against its specification: the invariant \<open>kh_inv\<close> of the table, the finite map \<open>kh_map\<close>
  it stands for, and the proof that lookup, insertion (with its in-place rehash) and deletion
  implement lookup, update and removal on that map.
\<close>

section \<open>Invariant and abstraction\<close>

definition kh_live :: "u32 list \<Rightarrow> nat \<Rightarrow> bool" where
  "kh_live fl i \<longleftrightarrow> \<not> ac_isempty fl i \<and> \<not> ac_isdel fl i"

lemma not_iseither: "\<not> ac_iseither fl i \<longleftrightarrow> kh_live fl i"
  by (simp add: iseither_iff kh_live_def)

definition kh_home :: "('k \<Rightarrow> u64) \<Rightarrow> nat \<Rightarrow> 'k \<Rightarrow> nat" where
  "kh_home hf n key = unat (hf key) mod n"

text \<open>Bucket \<open>i\<close> is found from home \<open>home\<close> without passing an empty bucket.\<close>

definition reaches :: "nat \<Rightarrow> (nat \<Rightarrow> bool) \<Rightarrow> nat \<Rightarrow> nat \<Rightarrow> bool" where
  "reaches n used home i \<longleftrightarrow> (\<exists>s. probe n home s = i \<and> (\<forall>t < s. used (probe n home t)))"

definition kh_entry :: "'k list \<Rightarrow> 'v list \<Rightarrow> nat \<Rightarrow> 'k \<times> 'v" where
  "kh_entry ks vs i = (ks ! i, vs ! i)"

definition kh_table_ok :: "('k \<Rightarrow> u64) \<Rightarrow> ('k, 'v) kh \<Rightarrow> bool" where
  "kh_table_ok hf h \<longleftrightarrow>
     length (h_flags h) = ac_fsize (n_buckets h) \<and>
     n_buckets h \<le> length (h_keys h) \<and> n_buckets h \<le> length (h_vals h) \<and>
     h_size h = card {i. i < n_buckets h \<and> kh_live (h_flags h) i} \<and>
     n_occupied h = card {i. i < n_buckets h \<and> \<not> ac_isempty (h_flags h) i} \<and>
     upper_bound h = kh_upper (n_buckets h) \<and>
     keys_inj (n_buckets h) (kh_live (h_flags h)) (kh_entry (h_keys h) (h_vals h)) \<and>
     (\<forall>i < n_buckets h. kh_live (h_flags h) i \<longrightarrow>
        reaches (n_buckets h) (\<lambda>b. \<not> ac_isempty (h_flags h) b)
          (kh_home hf (n_buckets h) (h_keys h ! i)) i)"

definition kh_inv :: "('k \<Rightarrow> u64) \<Rightarrow> ('k, 'v) kh \<Rightarrow> bool" where
  "kh_inv hf h \<longleftrightarrow>
     (n_buckets h = 0 \<and> h_flags h = [] \<and> h_size h = 0 \<and> n_occupied h = 0 \<and> upper_bound h = 0)
     \<or> ((\<exists>k. n_buckets h = 2 ^ k \<and> 2 \<le> k \<and> k \<le> 31) \<and> kh_table_ok hf h)"

definition kh_map :: "('k, 'v) kh \<Rightarrow> 'k \<Rightarrow> 'v option" where
  "kh_map h = map_of (entries (n_buckets h) (kh_live (h_flags h)) (kh_entry (h_keys h) (h_vals h)))"

lemma fst_kh_entry [simp]: "fst (kh_entry ks vs i) = ks ! i"
  and snd_kh_entry [simp]: "snd (kh_entry ks vs i) = vs ! i"
  by (simp_all add: kh_entry_def)

lemma kh_inv_init: "kh_inv hf kh_init"
  by (simp add: kh_inv_def kh_init_def)

lemma kh_map_init: "kh_map kh_init = Map.empty"
  by (simp add: kh_map_def kh_init_def entries_def)

lemma kh_upper_le: "4 \<le> n \<Longrightarrow> kh_upper n \<le> n"
  using div_le_mono [of "7 * n + 4" "8 * n" 8] by (simp add: kh_upper_def)

lemma kh_upper_gt: "8 * x < 7 * n + 4 \<Longrightarrow> 8 * x + 8 \<le> 7 * n + 4 \<Longrightarrow> x < kh_upper n"
  using less_eq_div_iff_mult_less_eq [of 8 "Suc x" "7 * n + 4"] by (simp add: kh_upper_def)

lemma home_position: "k \<le> 31 \<Longrightarrow> wrap32 (unat (hf key)) AND (2 ^ k - 1) = kh_home hf (2 ^ k) key"
  unfolding kh_home_def by (rule wrap32_and_mask) simp

lemma reaches_mono:
  "reaches n used home i \<Longrightarrow> (\<And>b. b < n \<Longrightarrow> used b \<Longrightarrow> used' b) \<Longrightarrow> 0 < n \<Longrightarrow> reaches n used' home i"
  unfolding reaches_def using probe_less [of n home] by blast

lemma kh_map_eqD:
  assumes "kh_table_ok hf h" and "kh_map h key = Some v"
  obtains x where "x < n_buckets h" "kh_live (h_flags h) x" "h_keys h ! x = key" "h_vals h ! x = v"
  using assms map_of_entries_Some unfolding kh_map_def kh_table_ok_def kh_entry_def
  by (smt (verit, best) prod.inject)

lemma kh_map_None: "kh_map h key = None \<longleftrightarrow>
    (\<forall>i < n_buckets h. kh_live (h_flags h) i \<longrightarrow> h_keys h ! i \<noteq> key)"
  by (simp add: kh_map_def map_of_entries_None)

lemma kh_map_at:
  assumes "kh_table_ok hf h" "x < n_buckets h" "kh_live (h_flags h) x"
  shows "kh_map h (h_keys h ! x) = Some (h_vals h ! x)"
  using map_of_entries_at assms unfolding kh_map_def kh_table_ok_def by fastforce

lemma kh_key_unique:
  assumes "kh_table_ok hf h" "x < n_buckets h" "kh_live (h_flags h) x"
    "y < n_buckets h" "kh_live (h_flags h) y" "h_keys h ! x = h_keys h ! y"
  shows "x = y"
  using assms keys_injD unfolding kh_table_ok_def by fastforce

section \<open>Lookup\<close>

text \<open>The bucket visited at step \<open>s\<close> does not end the search for \<open>key\<close>.\<close>

definition kh_pass :: "('k, 'v) kh \<Rightarrow> 'k \<Rightarrow> nat \<Rightarrow> bool" where
  "kh_pass h key i \<longleftrightarrow> \<not> ac_isempty (h_flags h) i \<and> (ac_isdel (h_flags h) i \<or> h_keys h ! i \<noteq> key)"

lemma step_position:
  assumes "k \<le> 31" "Suc s < 2 * 2 ^ k"
  shows "wrap32 (s + 1) = Suc s"
    and "wrap32 (probe (2 ^ k) home s + Suc s) AND (2 ^ k - 1) = probe (2 ^ k) home (Suc s)"
proof -
  have "(2::nat) * 2 ^ k \<le> 2 ^ 32"
    using power_increasing [of "Suc k" 32 "2::nat"] assms(1) by simp
  with assms(2) have "s + 1 < 2 ^ 32" by linarith
  then show "wrap32 (s + 1) = Suc s" by simp
  show "wrap32 (probe (2 ^ k) home s + Suc s) AND (2 ^ k - 1) = probe (2 ^ k) home (Suc s)"
    using assms(1) by (simp only: wrap32_and_mask probe_Suc)
qed

lemma not_back_yet:
  assumes "home < 2 ^ k" "Suc s < 2 * 2 ^ k - 1"
  shows "probe (2 ^ k) home (Suc s) \<noteq> home"
  using probe_return [OF assms(1), of "Suc s"] assms(2) by auto

lemma kh_get_loop_run:
  assumes "k \<le> 31" "home < 2 ^ k" "\<And>t. t < s \<Longrightarrow> kh_pass h key (probe (2 ^ k) home t)"
    and "s < 2 * 2 ^ k - 1"
  shows "kh_get_loop (f + s) (=) h key (2 ^ k - 1) home home 0
       = kh_get_loop f (=) h key (2 ^ k - 1) home (probe (2 ^ k) home s) s"
  using assms(3,4)
proof (induction s arbitrary: f)
  case 0
  then show ?case using assms(2) by (simp add: probe_0)
next
  case (Suc s)
  have "kh_get_loop (Suc f + s) (=) h key (2 ^ k - 1) home home 0
      = kh_get_loop (Suc f) (=) h key (2 ^ k - 1) home (probe (2 ^ k) home s) s"
    using Suc by (intro Suc.IH) auto
  also have "\<dots> = kh_get_loop f (=) h key (2 ^ k - 1) home (probe (2 ^ k) home (Suc s)) (Suc s)"
  proof -
    have "kh_pass h key (probe (2 ^ k) home s)" using Suc.prems(1) by simp
    moreover have "Suc s < 2 * 2 ^ k" using Suc.prems(2) by simp
    ultimately show ?thesis
      using step_position [OF assms(1)] not_back_yet [OF assms(2) Suc.prems(2)]
      by (simp add: kh_pass_def Let_def)
  qed
  finally show ?case by simp
qed

text \<open>
  The search either stops at the first bucket that does not pass, or comes back to its start
  after \<open>2n - 1\<close> steps; either way fuel \<open>2n\<close> is enough.
\<close>

lemma kh_get_stop:
  assumes "n_buckets h = 2 ^ k" "k \<le> 31"
    and pass: "\<And>t. t < s \<Longrightarrow> kh_pass h key (probe (2 ^ k) (kh_home hf (2 ^ k) key) t)"
    and stop: "\<not> kh_pass h key (probe (2 ^ k) (kh_home hf (2 ^ k) key) s)" and s: "s < 2 ^ k"
  shows "kh_get hf (=) h key =
    Some (let x = probe (2 ^ k) (kh_home hf (2 ^ k) key) s
          in if kh_live (h_flags h) x then x else n_buckets h)"
proof -
  have home: "kh_home hf (2 ^ k) key < 2 ^ k" by (simp add: kh_home_def)
  have s2: "s < 2 * 2 ^ k - 1" using s by simp
  have fuel: "2 * 2 ^ k - s + s = 2 * 2 ^ k" using s2 by linarith
  have "kh_get hf (=) h key
      = kh_get_loop (2 * 2 ^ k - s + s) (=) h key (2 ^ k - 1) (kh_home hf (2 ^ k) key) (kh_home hf (2 ^ k) key) 0"
    unfolding kh_get_def Let_def assms(1) home_position [OF assms(2)] fuel by simp
  also have "\<dots> = kh_get_loop (2 * 2 ^ k - s) (=) h key (2 ^ k - 1) (kh_home hf (2 ^ k) key)
                  (probe (2 ^ k) (kh_home hf (2 ^ k) key) s) s"
    by (rule kh_get_loop_run [OF assms(2) home pass s2])
  also have "2 * 2 ^ k - s = Suc (2 * 2 ^ k - s - 1)" using s2 by linarith
  finally show ?thesis
    using stop not_iseither [of "h_flags h"] by (auto simp: kh_pass_def Let_def iseither_iff)
qed

lemma kh_get_exhausted:
  assumes "n_buckets h = 2 ^ k" "k \<le> 31"
    and pass: "\<And>t. kh_pass h key (probe (2 ^ k) (kh_home hf (2 ^ k) key) t)"
  shows "kh_get hf (=) h key = Some (n_buckets h)"
proof -
  let ?s = "2 * 2 ^ k - 2 :: nat"
  have home: "kh_home hf (2 ^ k) key < 2 ^ k" by (simp add: kh_home_def)
  have Suc_s: "Suc ?s = 2 * 2 ^ k - 1" using one_le_power [of "2::nat" k] by linarith
  have s2: "?s < 2 * 2 ^ k - 1" using Suc_s by linarith
  have fuel: "2 + ?s = 2 * 2 ^ k" using Suc_s one_le_power [of "2::nat" k] by linarith
  have "kh_get hf (=) h key
      = kh_get_loop (2 + ?s) (=) h key (2 ^ k - 1) (kh_home hf (2 ^ k) key) (kh_home hf (2 ^ k) key) 0"
    unfolding kh_get_def Let_def assms(1) home_position [OF assms(2)] fuel by simp
  also have "\<dots> = kh_get_loop 2 (=) h key (2 ^ k - 1) (kh_home hf (2 ^ k) key)
                  (probe (2 ^ k) (kh_home hf (2 ^ k) key) ?s) ?s"
    by (rule kh_get_loop_run [OF assms(2) home pass s2])
  also have "\<dots> = kh_get_loop (Suc (Suc 0)) (=) h key (2 ^ k - 1) (kh_home hf (2 ^ k) key)
                  (probe (2 ^ k) (kh_home hf (2 ^ k) key) ?s) ?s"
    by (simp add: numeral_2_eq_2)
  also have "\<dots> = Some (n_buckets h)"
  proof -
    have lt: "Suc ?s < 2 * 2 ^ k" using Suc_s one_le_power [of "2::nat" k] by linarith
    have "probe (2 ^ k) (kh_home hf (2 ^ k) key) (Suc ?s) = kh_home hf (2 ^ k) key"
      unfolding Suc_s by (rule probe_back [OF home])
    then show ?thesis
      using pass [of ?s] step_position(1) [OF assms(2) lt]
        step_position(2) [OF assms(2) lt, of "kh_home hf (2 ^ k) key"]
      unfolding kh_pass_def kh_get_loop.simps Let_def by simp
  qed
  finally show ?thesis .
qed

lemma kh_get_correct:
  assumes "kh_inv hf h"
  shows "\<exists>x. kh_get hf (=) h key = Some x \<and>
    (case kh_map h key of
       None \<Rightarrow> x = n_buckets h
     | Some v \<Rightarrow> x < n_buckets h \<and> kh_exist h x \<and> kh_key h x = key \<and> kh_val h x = v)"
proof (cases "n_buckets h = 0")
  case True
  then show ?thesis by (simp add: kh_get_def kh_map_def entries_def)
next
  case False
  then obtain k where k: "n_buckets h = 2 ^ k" "k \<le> 31" and ok: "kh_table_ok hf h"
    using assms unfolding kh_inv_def by auto
  let ?p = "probe (2 ^ k) (kh_home hf (2 ^ k) key)"
  show ?thesis
  proof (cases "kh_map h key")
    case None
    then have dead: "\<not> kh_live (h_flags h) i \<or> h_keys h ! i \<noteq> key" if "i < 2 ^ k" for i
      using that k unfolding kh_map_None by simp
    show ?thesis
    proof (cases "\<exists>s<2 ^ k. \<not> kh_pass h key (?p s)")
      case True
      define s where "s = (LEAST s. s < 2 ^ k \<and> \<not> kh_pass h key (?p s))"
      have s: "s < 2 ^ k" "\<not> kh_pass h key (?p s)"
        using LeastI_ex [OF True] unfolding s_def by auto
      have least: "kh_pass h key (?p t)" if "t < s" for t
        using not_less_Least that s(1) unfolding s_def by (metis (mono_tags, lifting) order.strict_trans)
      have "\<not> kh_live (h_flags h) (?p s)"
        using s(2) dead [of "?p s"] probe_less [of "2 ^ k"] by (auto simp: kh_pass_def kh_live_def)
      then show ?thesis using kh_get_stop [OF k least s(2,1)] None by (simp add: Let_def)
    next
      case False
      have "kh_pass h key (?p t)" for t
      proof -
        obtain s where "s < 2 ^ k" "?p s = ?p t"
          using probe_covers [OF probe_less [of "2 ^ k"]] by (metis zero_less_numeral zero_less_power)
        then show ?thesis using False by metis
      qed
      then show ?thesis using kh_get_exhausted [OF k] None by simp
    qed
  next
    case (Some v)
    obtain x where x: "x < 2 ^ k" "kh_live (h_flags h) x" "h_keys h ! x = key" "h_vals h ! x = v"
      using kh_map_eqD [OF ok Some] k(1) by metis
    have "reaches (2 ^ k) (\<lambda>b. \<not> ac_isempty (h_flags h) b) (kh_home hf (2 ^ k) key) x"
      using ok x k(1) unfolding kh_table_ok_def by auto
    then obtain s0 where s0: "?p s0 = x" "\<And>t. t < s0 \<Longrightarrow> \<not> ac_isempty (h_flags h) (?p t)"
      unfolding reaches_def by blast
    have ex: "\<exists>s. ?p s = x" using s0 by blast
    define s where "s = (LEAST s. ?p s = x)"
    have s: "?p s = x" unfolding s_def by (rule LeastI_ex [OF ex])
    have le: "s \<le> s0" unfolding s_def by (rule Least_le [of _ s0]) (rule s0)
    have before: "?p t \<noteq> x" if "t < s" for t using not_less_Least that unfolding s_def by blast
    have "s < 2 ^ k"
      using probe_covers [OF x(1)] before by (metis not_less order.strict_trans1)
    moreover have "kh_pass h key (?p t)" if "t < s" for t
    proof -
      have "\<not> ac_isempty (h_flags h) (?p t)" using s0(2) that le by simp
      moreover have "ac_isdel (h_flags h) (?p t) \<or> h_keys h ! (?p t) \<noteq> key"
        using kh_key_unique [OF ok, of "?p t" x] before [OF that] x k(1) calculation
          probe_less [of "2 ^ k"] by (auto simp: kh_live_def)
      ultimately show ?thesis by (simp add: kh_pass_def)
    qed
    moreover have "\<not> kh_pass h key (?p s)" using x s by (simp add: kh_pass_def kh_live_def)
    ultimately have "kh_get hf (=) h key = Some x"
      using kh_get_stop [OF k, of s key hf] x(2) s by (simp add: Let_def)
    then show ?thesis
      using Some x k(1) not_iseither [of "h_flags h" x] by (simp add: kh_exist_def kh_key_def kh_val_def)
  qed
qed

section \<open>Insertion\<close>

text \<open>The last deleted bucket passed before step \<open>s\<close>, or \<open>n\<close>: the variable \<open>site\<close> of the search.\<close>

fun kh_site :: "('k, 'v) kh \<Rightarrow> (nat \<Rightarrow> nat) \<Rightarrow> nat \<Rightarrow> nat" where
  "kh_site h p 0 = n_buckets h"
| "kh_site h p (Suc s) = (if ac_isdel (h_flags h) (p s) then p s else kh_site h p s)"

lemma kh_site_cases:
  "kh_site h p s = n_buckets h \<or> (\<exists>t < s. kh_site h p s = p t \<and> ac_isdel (h_flags h) (p t))"
  by (induction s) (auto simp: less_Suc_eq)

lemma kh_put_loop_run:
  assumes "k \<le> 31" "home < 2 ^ k" "\<And>t. t < s \<Longrightarrow> kh_pass h key (probe (2 ^ k) home t)"
    and "s < 2 * 2 ^ k - 1"
  shows "kh_put_loop (f + s) (=) h key (2 ^ k - 1) home home 0 (n_buckets h)
       = kh_put_loop f (=) h key (2 ^ k - 1) home (probe (2 ^ k) home s) s
           (kh_site h (probe (2 ^ k) home) s)"
  using assms(3,4)
proof (induction s arbitrary: f)
  case 0
  then show ?case using assms(2) by (simp add: probe_0)
next
  case (Suc s)
  have "kh_put_loop (Suc f + s) (=) h key (2 ^ k - 1) home home 0 (n_buckets h)
      = kh_put_loop (Suc f) (=) h key (2 ^ k - 1) home (probe (2 ^ k) home s) s
          (kh_site h (probe (2 ^ k) home) s)"
    using Suc by (intro Suc.IH) auto
  also have "\<dots> = kh_put_loop f (=) h key (2 ^ k - 1) home (probe (2 ^ k) home (Suc s)) (Suc s)
          (kh_site h (probe (2 ^ k) home) (Suc s))"
  proof -
    have "kh_pass h key (probe (2 ^ k) home s)" using Suc.prems(1) by simp
    moreover have "Suc s < 2 * 2 ^ k" using Suc.prems(2) by simp
    ultimately show ?thesis
      using step_position [OF assms(1)] not_back_yet [OF assms(2) Suc.prems(2)]
      by (simp add: kh_pass_def Let_def)
  qed
  finally show ?case by simp
qed

lemma kh_put_find_stop:
  assumes "n_buckets h = 2 ^ k" "k \<le> 31"
    and pass: "\<And>t. t < s \<Longrightarrow> kh_pass h key (probe (2 ^ k) (kh_home hf (2 ^ k) key) t)"
    and stop: "\<not> kh_pass h key (probe (2 ^ k) (kh_home hf (2 ^ k) key) s)" and s: "s < 2 ^ k"
  shows "kh_put_find hf (=) h key =
    Some (let p = probe (2 ^ k) (kh_home hf (2 ^ k) key); site = kh_site h p s
          in if ac_isempty (h_flags h) (p s) \<and> site \<noteq> n_buckets h then site else p s)"
proof -
  let ?home = "kh_home hf (2 ^ k) key"
  have home: "?home < 2 ^ k" by (simp add: kh_home_def)
  have s2: "s < 2 * 2 ^ k - 1" using s by simp
  have start: "probe (2 ^ k) ?home 0 = ?home" by (rule probe_0 [OF home])
  show ?thesis
  proof (cases "ac_isempty (h_flags h) ?home")
    case True
    then have "s = 0" using pass [of 0] start by (cases s) (auto simp: kh_pass_def)
    then show ?thesis
      using True start by (simp add: kh_put_find_def home_position [OF assms(2)] assms(1) Let_def del: One_nat_def)
  next
    case False
    have fuel: "2 * 2 ^ k - s + s = 2 * 2 ^ k" using s2 by linarith
    obtain f where f: "2 * 2 ^ k - s = Suc f" using s2 by (cases "2 * 2 ^ k - s") auto
    have loop: "kh_put_loop (2 * 2 ^ k - s + s) (=) h key (2 ^ k - 1) ?home ?home 0 (n_buckets h)
        = Some (n_buckets h, kh_site h (probe (2 ^ k) ?home) s, probe (2 ^ k) ?home s)"
    proof -
      have "kh_put_loop (2 * 2 ^ k - s + s) (=) h key (2 ^ k - 1) ?home ?home 0 (n_buckets h)
          = kh_put_loop (2 * 2 ^ k - s) (=) h key (2 ^ k - 1) ?home (probe (2 ^ k) ?home s) s
              (kh_site h (probe (2 ^ k) ?home) s)"
        by (rule kh_put_loop_run [OF assms(2) home pass s2])
      then show ?thesis using stop unfolding f by (auto simp: kh_pass_def)
    qed
    show ?thesis
      using False loop
      unfolding kh_put_find_def Let_def assms(1) home_position [OF assms(2)] fuel by simp
  qed
qed

text \<open>
  With an empty bucket in the table, the search finds the key's bucket when the key is there, and
  otherwise a bucket that is not live and that the key's probe sequence reaches.
\<close>

lemma kh_put_find_correct:
  assumes k: "n_buckets h = 2 ^ k" "k \<le> 31" and ok: "kh_table_ok hf h"
    and free: "e < 2 ^ k" "ac_isempty (h_flags h) e"
  obtains x where "kh_put_find hf (=) h key = Some x" "x < 2 ^ k"
    "kh_live (h_flags h) x \<longrightarrow> h_keys h ! x = key"
    "\<not> kh_live (h_flags h) x \<longrightarrow> kh_map h key = None \<and>
       reaches (2 ^ k) (\<lambda>b. \<not> ac_isempty (h_flags h) b) (kh_home hf (2 ^ k) key) x"
proof -
  let ?p = "probe (2 ^ k) (kh_home hf (2 ^ k) key)"
  have ex: "\<exists>s. s < 2 ^ k \<and> \<not> kh_pass h key (?p s)"
    using probe_covers [OF free(1)] free(2) by (metis kh_pass_def)
  define s where "s = (LEAST s. s < 2 ^ k \<and> \<not> kh_pass h key (?p s))"
  have s: "s < 2 ^ k" "\<not> kh_pass h key (?p s)"
    using LeastI_ex [OF ex] unfolding s_def by auto
  have least: "kh_pass h key (?p t)" if "t < s" for t
    using not_less_Least that s(1) unfolding s_def by (metis (mono_tags, lifting) order.strict_trans)
  have lt: "?p t < 2 ^ k" for t by (rule probe_less) simp
  note found = kh_put_find_stop [OF k least s(2,1)]
  show thesis
  proof (cases "ac_isempty (h_flags h) (?p s)")
    case False
    then have "kh_live (h_flags h) (?p s)" "h_keys h ! ?p s = key"
      using s(2) by (auto simp: kh_pass_def kh_live_def)
    moreover have "kh_put_find hf (=) h key = Some (?p s)" using found False by (simp add: Let_def)
    ultimately show thesis using that [of "?p s"] lt by blast
  next
    case True
    have absent: "kh_map h key = None"
    proof (rule ccontr)
      assume "kh_map h key \<noteq> None"
      then obtain v where "kh_map h key = Some v" by blast
      then obtain y where y: "y < 2 ^ k" "kh_live (h_flags h) y" "h_keys h ! y = key"
        using kh_map_eqD [OF ok] k(1) by metis
      have "reaches (2 ^ k) (\<lambda>b. \<not> ac_isempty (h_flags h) b) (kh_home hf (2 ^ k) key) y"
        using ok y k(1) unfolding kh_table_ok_def by auto
      then obtain s1 where s1: "?p s1 = y" "\<And>t. t < s1 \<Longrightarrow> \<not> ac_isempty (h_flags h) (?p t)"
        unfolding reaches_def by blast
      have "\<not> s < s1" using s1(2) True by blast
      moreover have "s1 \<noteq> s" using s1(1) True y(2) by (auto simp: kh_live_def)
      ultimately have "s1 < s" by simp
      then show False using least [of s1] s1(1) y by (auto simp: kh_pass_def kh_live_def)
    qed
    have reach: "reaches (2 ^ k) (\<lambda>b. \<not> ac_isempty (h_flags h) b) (kh_home hf (2 ^ k) key) (?p t)"
      if "t \<le> s" for t
      unfolding reaches_def using least that by (intro exI [of _ t]) (auto simp: kh_pass_def)
    show thesis
    proof (cases "kh_site h ?p s = n_buckets h")
      case True
      then have "kh_put_find hf (=) h key = Some (?p s)" using found by (simp add: Let_def)
      moreover have "\<not> kh_live (h_flags h) (?p s)"
        using \<open>ac_isempty (h_flags h) (?p s)\<close> by (simp add: kh_live_def)
      ultimately show thesis using that [of "?p s"] lt absent reach [of s] by blast
    next
      case False
      then obtain t where t: "t < s" "kh_site h ?p s = ?p t" "ac_isdel (h_flags h) (?p t)"
        using kh_site_cases by blast
      have "kh_put_find hf (=) h key = Some (?p t)"
        using found False True t by (simp add: Let_def)
      moreover have "\<not> kh_live (h_flags h) (?p t)" using t(3) by (simp add: kh_live_def)
      ultimately show thesis using that [of "?p t"] lt absent reach [of t] t(1) by simp
    qed
  qed
qed

lemma kh_put_at_result:
  assumes ok: "kh_table_ok hf h" and k: "n_buckets h = 2 ^ k" "k \<le> 31"
    and x: "x < 2 ^ k" "\<not> kh_live (h_flags h) x" "kh_map h key = None"
    and reach: "reaches (2 ^ k) (\<lambda>b. \<not> ac_isempty (h_flags h) b) (kh_home hf (2 ^ k) key) x"
    and small: "h_size h < 2 ^ 31" "n_occupied h < 2 ^ 31"
    and put: "kh_put_at h key x = (h', x', ret)"
  shows "x' = x" "ret = (if ac_isempty (h_flags h) x then 1 else 2)"
    "n_buckets h' = n_buckets h" "kh_live (h_flags h') x" "h_keys h' ! x = key" "h_vals h' = h_vals h"
    "kh_table_ok hf h'" "kh_map h' = (kh_map h)(key \<mapsto> h_vals h ! x)"
proof -
  let ?fl = "ac_set_isboth_false (h_flags h) x"
  have len: "x div 16 < length (h_flags h)"
    using ok k(1) ac_fsize_covers [OF x(1)] by (simp add: kh_table_ok_def)
  note upd = isdel_updates(3) [OF len] isempty_updates(3) [OF len]
  have xk: "x < length (h_keys h)" using ok k(1) x(1) by (simp add: kh_table_ok_def)
  have del: "ac_isdel (h_flags h) x" if "\<not> ac_isempty (h_flags h) x"
    using that x(2) by (simp add: kh_live_def)
  have occ: "n_occupied h' = (if ac_isempty (h_flags h) x then Suc (n_occupied h) else n_occupied h)"
    and fl': "h_flags h' = ?fl" and ks': "h_keys h' = (h_keys h)[x := key]"
    and vs': "h_vals h' = h_vals h" and n': "n_buckets h' = 2 ^ k"
    and up': "upper_bound h' = upper_bound h" and sz': "h_size h' = Suc (h_size h)"
    and "x' = x" "ret = (if ac_isempty (h_flags h) x then 1 else 2)"
    using put small del k(1) by (auto simp: kh_put_at_def split: if_splits)
  then show "x' = x" "ret = (if ac_isempty (h_flags h) x then 1 else 2)"
    "n_buckets h' = n_buckets h" "h_vals h' = h_vals h"
    using k(1) by simp_all
  have live': "kh_live (h_flags h') j \<longleftrightarrow> j = x \<or> kh_live (h_flags h) j" for j
    unfolding fl' kh_live_def upd using x(2) by auto
  then show "kh_live (h_flags h') x" by simp
  show "h_keys h' ! x = key" using xk by (simp add: ks')
  have entry': "kh_entry (h_keys h') (h_vals h') j
      = (if j = x then (key, h_vals h ! x) else kh_entry (h_keys h) (h_vals h) j)" for j
    using xk by (simp add: ks' vs' kh_entry_def)
  have inj: "keys_inj (2 ^ k) (kh_live (h_flags h)) (kh_entry (h_keys h) (h_vals h))"
    using ok k(1) by (simp add: kh_table_ok_def)
  have put': "keys_inj (2 ^ k) (kh_live (h_flags h')) (kh_entry (h_keys h') (h_vals h'))"
    "map_of (entries (2 ^ k) (kh_live (h_flags h')) (kh_entry (h_keys h') (h_vals h')))
      = (map_of (entries (2 ^ k) (kh_live (h_flags h)) (kh_entry (h_keys h) (h_vals h))))(key \<mapsto> h_vals h ! x)"
    by (rule entries_put [OF inj x(1)]; use live' entry' x k(1) in \<open>auto simp: kh_map_None\<close>)+
  then show "kh_map h' = (kh_map h)(key \<mapsto> h_vals h ! x)"
    using k(1) n' by (simp add: kh_map_def)
  have cs: "h_size h' = card {i. i < 2 ^ k \<and> kh_live (h_flags h') i}"
    using card_live_insert [of x "2 ^ k" "kh_live (h_flags h)" "kh_live (h_flags h')"] x live' ok k(1)
    by (simp add: kh_table_ok_def sz')
  have co: "n_occupied h' = card {i. i < 2 ^ k \<and> \<not> ac_isempty (h_flags h') i}"
  proof (cases "ac_isempty (h_flags h) x")
    case True
    have "card {i. i < 2 ^ k \<and> \<not> ac_isempty (h_flags h') i}
        = Suc (card {i. i < 2 ^ k \<and> \<not> ac_isempty (h_flags h) i})"
      by (rule card_live_insert [of x]) (use x True in \<open>auto simp: fl' upd\<close>)
    then show ?thesis using True ok k(1) by (simp add: occ kh_table_ok_def)
  next
    case False
    have "card {i. i < 2 ^ k \<and> \<not> ac_isempty (h_flags h') i}
        = card {i. i < 2 ^ k \<and> \<not> ac_isempty (h_flags h) i}"
      by (rule card_live_cong) (use False in \<open>auto simp: fl' upd\<close>)
    then show ?thesis using False ok k(1) by (simp add: occ kh_table_ok_def)
  qed
  have rc: "reaches (2 ^ k) (\<lambda>b. \<not> ac_isempty (h_flags h') b) (kh_home hf (2 ^ k) (h_keys h' ! i)) i"
    if i: "i < 2 ^ k" "kh_live (h_flags h') i" for i
  proof -
    have "reaches (2 ^ k) (\<lambda>b. \<not> ac_isempty (h_flags h) b) (kh_home hf (2 ^ k) (h_keys h' ! i)) i"
      using ok k(1) i xk reach live' unfolding kh_table_ok_def ks' by (cases "i = x") auto
    then show ?thesis by (rule reaches_mono) (auto simp: fl' upd)
  qed
  show "kh_table_ok hf h'"
    unfolding kh_table_ok_def n'
    using ok k(1) put'(1) cs co rc vs' up' by (simp add: kh_table_ok_def fl' ks' table_simps)
qed

section \<open>The in-place rehash\<close>

text \<open>
  While the rehash runs, the arrays hold entries of two kinds: those still live under the old flags
  and those already placed under the new ones. No bucket is both, and together with the carried
  entry they make up the bag of entries the table had at the start.
\<close>

definition kh_bag :: "nat \<Rightarrow> (nat \<Rightarrow> bool) \<Rightarrow> 'k list \<Rightarrow> 'v list \<Rightarrow> ('k \<times> 'v) multiset" where
  "kh_bag n live ks vs = mset (entries n live (kh_entry ks vs))"

definition kh_work_inv :: "('k \<Rightarrow> u64) \<Rightarrow> nat \<Rightarrow> nat \<Rightarrow> ('k \<times> 'v) multiset \<Rightarrow> ('k \<times> 'v) multiset
    \<Rightarrow> u32 list \<Rightarrow> u32 list \<Rightarrow> 'k list \<Rightarrow> 'v list \<Rightarrow> bool" where
  "kh_work_inv hf n m bag extra fl nf ks vs \<longleftrightarrow>
     (\<forall>i < n. i div 16 < length fl) \<and> length nf = ac_fsize m \<and> (\<forall>i < m. \<not> ac_isdel nf i) \<and>
     n \<le> length ks \<and> m \<le> length ks \<and> n \<le> length vs \<and> m \<le> length vs \<and>
     (\<forall>i < n. i < m \<longrightarrow> kh_live fl i \<longrightarrow> ac_isempty nf i) \<and>
     (\<forall>i < m. \<not> ac_isempty nf i \<longrightarrow>
        reaches m (\<lambda>b. \<not> ac_isempty nf b) (kh_home hf m (ks ! i)) i) \<and>
     kh_bag n (kh_live fl) ks vs + kh_bag m (\<lambda>i. \<not> ac_isempty nf i) ks vs + extra = bag \<and>
     size bag \<le> m"

lemma kh_bag_insert:
  assumes "i < n" "\<not> live i" "live' i" "\<And>j. j < n \<Longrightarrow> j \<noteq> i \<Longrightarrow> live' j \<longleftrightarrow> live j"
    and "i < length ks" "i < length vs"
  shows "kh_bag n live' (ks[i := k]) (vs[i := v]) = add_mset (k, v) (kh_bag n live ks vs)"
proof -
  have "{j. j < n \<and> live' j} = insert i {j. j < n \<and> live j}" using assms(1-4) by auto
  moreover have "image_mset (kh_entry (ks[i := k]) (vs[i := v])) (mset_set {j. j < n \<and> live j})
      = image_mset (kh_entry ks vs) (mset_set {j. j < n \<and> live j})"
    using assms(2) by (intro image_mset_cong) (auto simp: kh_entry_def intro!: nth_list_update_neq)
  ultimately show ?thesis
    using assms by (simp add: kh_bag_def mset_entries kh_entry_def)
qed

lemma kh_bag_remove:
  assumes "i < n" "live i" "\<not> live' i" "\<And>j. j < n \<Longrightarrow> j \<noteq> i \<Longrightarrow> live' j \<longleftrightarrow> live j"
  shows "kh_bag n live ks vs = add_mset (ks ! i, vs ! i) (kh_bag n live' ks vs)"
proof -
  have "{j. j < n \<and> live j} = insert i {j. j < n \<and> live' j}" using assms by auto
  then show ?thesis using assms(3) by (simp add: kh_bag_def mset_entries kh_entry_def)
qed

lemma kh_bag_cong:
  assumes "\<And>j. j < n \<Longrightarrow> live' j \<longleftrightarrow> live j" "\<And>j. j < n \<Longrightarrow> live j \<Longrightarrow> j \<noteq> i"
  shows "kh_bag n live' (ks[i := k]) (vs[i := v]) = kh_bag n live ks vs"
proof -
  have "entries n live' (kh_entry (ks[i := k]) (vs[i := v])) = entries n live (kh_entry ks vs)"
    by (rule entries_cong) (use assms in \<open>force simp: kh_entry_def nth_list_update\<close>)+
  then show ?thesis by (simp add: kh_bag_def)
qed

lemma size_kh_bag: "size (kh_bag n live ks vs) = card {i. i < n \<and> live i}"
  by (simp add: kh_bag_def length_entries)

text \<open>The search for an empty new bucket stops at the first one of the probe sequence.\<close>

lemma kh_find_empty_run:
  assumes "k \<le> 31" "home < 2 ^ k" "\<And>t. t < s \<Longrightarrow> \<not> ac_isempty nf (probe (2 ^ k) home t)"
    and "s < 2 ^ k"
  shows "kh_find_empty (f + s) nf (2 ^ k - 1) home 0
       = kh_find_empty f nf (2 ^ k - 1) (probe (2 ^ k) home s) s"
  using assms(3,4)
proof (induction s arbitrary: f)
  case 0
  then show ?case using assms(2) by (simp add: probe_0)
next
  case (Suc s)
  have "kh_find_empty (Suc f + s) nf (2 ^ k - 1) home 0
      = kh_find_empty (Suc f) nf (2 ^ k - 1) (probe (2 ^ k) home s) s"
    using Suc by (intro Suc.IH) auto
  also have "\<dots> = kh_find_empty f nf (2 ^ k - 1) (probe (2 ^ k) home (Suc s)) (Suc s)"
    using step_position(1) [OF assms(1), of s] step_position(2) [OF assms(1), of s home]
      Suc.prems(1) [of s] Suc.prems(2)
    by (simp add: Let_def)
  finally show ?case by simp
qed

lemma kh_find_empty_correct:
  assumes k: "k \<le> 31" and home: "home < 2 ^ k" and free: "e < 2 ^ k" "ac_isempty nf e"
  obtains i where "kh_find_empty (2 ^ k) nf (2 ^ k - 1) home 0 = Some i" "i < 2 ^ k"
    "ac_isempty nf i" "reaches (2 ^ k) (\<lambda>b. \<not> ac_isempty nf b) home i"
proof -
  let ?p = "probe (2 ^ k) home"
  have ex: "\<exists>s. s < 2 ^ k \<and> ac_isempty nf (?p s)"
    using probe_covers [OF free(1)] free(2) by metis
  define s where "s = (LEAST s. s < 2 ^ k \<and> ac_isempty nf (?p s))"
  have s: "s < 2 ^ k" "ac_isempty nf (?p s)"
    using LeastI_ex [OF ex] unfolding s_def by auto
  have least: "\<not> ac_isempty nf (?p t)" if "t < s" for t
    using not_less_Least that s(1) unfolding s_def by (metis (mono_tags, lifting) order.strict_trans)
  obtain f where f: "2 ^ k - s = Suc f" using s(1) by (cases "2 ^ k - s") auto
  then have fuel: "(2::nat) ^ k = Suc f + s" using s(1) by linarith
  have "kh_find_empty (Suc f + s) nf (2 ^ k - 1) home 0 = kh_find_empty (Suc f) nf (2 ^ k - 1) (?p s) s"
    by (rule kh_find_empty_run [OF k home least s(1)])
  then have "kh_find_empty (Suc f + s) nf (2 ^ k - 1) home 0 = Some (?p s)"
    using s(2) by simp
  then have "kh_find_empty (2 ^ k) nf (2 ^ k - 1) home 0 = Some (?p s)"
    by (simp only: fuel)
  moreover have "reaches (2 ^ k) (\<lambda>b. \<not> ac_isempty nf b) home (?p s)"
    unfolding reaches_def using least by blast
  moreover have "?p s < 2 ^ k" by (rule probe_less) simp
  ultimately show thesis using that s(2) by blast
qed

text \<open>One placement: the carried entry goes into the empty bucket \<open>i\<close> its probe sequence reaches.\<close>

lemma kh_work_place:
  assumes inv: "kh_work_inv hf n (2 ^ k) bag {#(key, val)#} fl nf ks vs"
    and i: "i < 2 ^ k" "ac_isempty nf i"
    and reach: "reaches (2 ^ k) (\<lambda>b. \<not> ac_isempty nf b) (kh_home hf (2 ^ k) key) i"
  shows "\<not> (i < n \<and> kh_live fl i) \<Longrightarrow>
      kh_work_inv hf n (2 ^ k) bag {#} fl (ac_set_isempty_false nf i) (ks[i := key]) (vs[i := val])"
    and "i < n \<Longrightarrow> kh_live fl i \<Longrightarrow>
      kh_work_inv hf n (2 ^ k) bag {#(ks ! i, vs ! i)#} (ac_set_isdel_true fl i)
        (ac_set_isempty_false nf i) (ks[i := key]) (vs[i := val])"
proof -
  let ?nf = "ac_set_isempty_false nf i" and ?ks = "ks[i := key]" and ?vs = "vs[i := val]"
  have len: "i div 16 < length nf"
    using inv ac_fsize_covers [OF i(1)] by (simp add: kh_work_inv_def)
  note upd = isdel_updates(2) [OF len] isempty_updates(2) [OF len]
  have il: "i < length ks" "i < length vs" using inv i(1) by (auto simp: kh_work_inv_def)
  have newbag: "kh_bag (2 ^ k) (\<lambda>j. \<not> ac_isempty ?nf j) ?ks ?vs
      = add_mset (key, val) (kh_bag (2 ^ k) (\<lambda>j. \<not> ac_isempty nf j) ks vs)"
    by (rule kh_bag_insert) (use i il in \<open>auto simp: upd\<close>)
  have rc: "reaches (2 ^ k) (\<lambda>b. \<not> ac_isempty ?nf b) (kh_home hf (2 ^ k) (?ks ! j)) j"
    if j: "j < 2 ^ k" "\<not> ac_isempty ?nf j" for j
  proof -
    have "reaches (2 ^ k) (\<lambda>b. \<not> ac_isempty nf b) (kh_home hf (2 ^ k) (?ks ! j)) j"
      using inv j reach il i(1) unfolding kh_work_inv_def upd by (cases "j = i") auto
    then show ?thesis by (rule reaches_mono) (auto simp: upd)
  qed
  show "kh_work_inv hf n (2 ^ k) bag {#} fl ?nf ?ks ?vs" if no: "\<not> (i < n \<and> kh_live fl i)"
  proof -
    have "kh_bag n (kh_live fl) ?ks ?vs = kh_bag n (kh_live fl) ks vs"
      by (rule kh_bag_cong) (use no in auto)
    then show ?thesis
      using inv no rc i unfolding kh_work_inv_def newbag by (auto simp: upd table_simps)
  qed
  show "kh_work_inv hf n (2 ^ k) bag {#(ks ! i, vs ! i)#} (ac_set_isdel_true fl i) ?nf ?ks ?vs"
    if yes: "i < n" "kh_live fl i"
  proof -
    have flen: "i div 16 < length fl" using inv yes(1) by (simp add: kh_work_inv_def)
    have live': "kh_live (ac_set_isdel_true fl i) j \<longleftrightarrow> j \<noteq> i \<and> kh_live fl j" for j
      unfolding kh_live_def isdel_updates(4) [OF flen] isempty_updates(4) [OF flen] by auto
    have "kh_bag n (kh_live fl) ks vs
        = add_mset (ks ! i, vs ! i) (kh_bag n (kh_live (ac_set_isdel_true fl i)) ks vs)"
      by (rule kh_bag_remove) (use yes live' in auto)
    moreover have "kh_bag n (kh_live (ac_set_isdel_true fl i)) ?ks ?vs
        = kh_bag n (kh_live (ac_set_isdel_true fl i)) ks vs"
      by (rule kh_bag_cong) (use live' in auto)
    ultimately show ?thesis
      using inv rc i unfolding kh_work_inv_def newbag by (auto simp: upd table_simps live')
  qed
qed

lemma kh_work_room:
  assumes "kh_work_inv hf n m bag {#e#} fl nf ks vs"
  obtains b where "b < m" "ac_isempty nf b"
proof -
  have "size bag = card {i. i < n \<and> kh_live fl i} + card {i. i < m \<and> \<not> ac_isempty nf i} + 1"
    using assms unfolding kh_work_inv_def by (metis size_kh_bag size_single size_union)
  moreover have "size bag \<le> m" using assms by (simp add: kh_work_inv_def)
  ultimately have "card {i. i < m \<and> \<not> ac_isempty nf i} < m" by linarith
  then show thesis using exists_free_bucket [of m "\<lambda>i. \<not> ac_isempty nf i"] that by auto
qed

text \<open>Each kick frees an old bucket for good, so one more unit of fuel than live buckets is enough.\<close>

lemma kh_kick_correct:
  assumes "k \<le> 31" "kh_work_inv hf n (2 ^ k) bag {#(key, val)#} fl nf ks vs"
    and "card {i. i < n \<and> kh_live fl i} < fuel"
  shows "\<exists>fl' nf' ks' vs'. kh_kick fuel hf n (2 ^ k) (fl, nf, ks, vs) key val = Some (fl', nf', ks', vs')
    \<and> kh_work_inv hf n (2 ^ k) bag {#} fl' nf' ks' vs'
    \<and> (\<forall>i < n. kh_live fl' i \<longrightarrow> kh_live fl i) \<and> length ks' = length ks \<and> length vs' = length vs"
  using assms(2,3)
proof (induction fuel arbitrary: fl nf ks vs key val)
  case 0
  then show ?case by simp
next
  case (Suc fuel)
  have home: "kh_home hf (2 ^ k) key < 2 ^ k" by (simp add: kh_home_def)
  obtain e where "e < 2 ^ k" "ac_isempty nf e" by (rule kh_work_room [OF Suc.prems(1)])
  then obtain i where find: "kh_find_empty (2 ^ k) nf (2 ^ k - 1) (kh_home hf (2 ^ k) key) 0 = Some i"
    and i: "i < 2 ^ k" "ac_isempty nf i"
      "reaches (2 ^ k) (\<lambda>b. \<not> ac_isempty nf b) (kh_home hf (2 ^ k) key) i"
    by (rule kh_find_empty_correct [OF assms(1) home])
  note place = kh_work_place [OF Suc.prems(1) i]
  show ?case
  proof (cases "i < n \<and> kh_live fl i")
    case False
    then show ?thesis
      using place(1) [OF False] find False
      by (cases "i < n")
        (simp_all add: home_position [OF assms(1)] not_iseither Let_def del: One_nat_def)
  next
    case True
    let ?fl = "ac_set_isdel_true fl i"
    have flen: "i div 16 < length fl" using Suc.prems(1) True by (simp add: kh_work_inv_def)
    have live': "kh_live ?fl j \<longleftrightarrow> j \<noteq> i \<and> kh_live fl j" for j
      unfolding kh_live_def isdel_updates(4) [OF flen] isempty_updates(4) [OF flen] by auto
    have "Suc (card {j. j < n \<and> kh_live ?fl j}) = card {j. j < n \<and> kh_live fl j}"
      by (rule card_live_remove [of i]) (use True live' in auto)
    then have "card {j. j < n \<and> kh_live ?fl j} < fuel" using Suc.prems(2) by linarith
    from Suc.IH [OF place(2) this] True
    obtain fl' nf' ks' vs' where
      "kh_kick fuel hf n (2 ^ k) (?fl, ac_set_isempty_false nf i, ks[i := key], vs[i := val]) (ks ! i) (vs ! i)
        = Some (fl', nf', ks', vs')"
      "kh_work_inv hf n (2 ^ k) bag {#} fl' nf' ks' vs'"
      "\<forall>j < n. kh_live fl' j \<longrightarrow> kh_live ?fl j" "length ks' = length ks" "length vs' = length vs"
      by auto
    then show ?thesis
      using True find live'
      by (simp add: home_position [OF assms(1)] not_iseither Let_def del: One_nat_def)
  qed
qed

lemma kh_rehash_correct:
  assumes "k \<le> 31" "kh_work_inv hf n (2 ^ k) bag {#} fl nf ks vs"
    and "\<forall>i < j. \<not> kh_live fl i" "j + c = n"
  shows "\<exists>fl' nf' ks' vs'. kh_rehash c hf n (2 ^ k) j (fl, nf, ks, vs) = Some (fl', nf', ks', vs')
    \<and> kh_work_inv hf n (2 ^ k) bag {#} fl' nf' ks' vs' \<and> (\<forall>i < n. \<not> kh_live fl' i)
    \<and> length ks' = length ks \<and> length vs' = length vs"
  using assms(2-4)
proof (induction c arbitrary: j fl nf ks vs)
  case 0
  then show ?case by simp
next
  case (Suc c)
  show ?case
  proof (cases "kh_live fl j")
    case False
    then have "\<forall>i < Suc j. \<not> kh_live fl i" using Suc.prems(2) less_Suc_eq by auto
    then show ?thesis
      using Suc.IH [OF Suc.prems(1), of "Suc j"] Suc.prems(3) False by (simp add: not_iseither)
  next
    case True
    let ?fl = "ac_set_isdel_true fl j"
    have jn: "j < n" using Suc.prems(3) by simp
    have flen: "j div 16 < length fl" using Suc.prems(1) jn by (simp add: kh_work_inv_def)
    have live': "kh_live ?fl i \<longleftrightarrow> i \<noteq> j \<and> kh_live fl i" for i
      unfolding kh_live_def isdel_updates(4) [OF flen] isempty_updates(4) [OF flen] by auto
    have "kh_bag n (kh_live fl) ks vs = add_mset (ks ! j, vs ! j) (kh_bag n (kh_live ?fl) ks vs)"
      by (rule kh_bag_remove) (use True live' jn in auto)
    then have carried: "kh_work_inv hf n (2 ^ k) bag {#(ks ! j, vs ! j)#} ?fl nf ks vs"
      using Suc.prems(1) unfolding kh_work_inv_def by (auto simp: live' table_simps)
    have "card {i. i < n \<and> kh_live ?fl i} \<le> card {..<n}" by (rule card_mono) auto
    then have "card {i. i < n \<and> kh_live ?fl i} < n + 1" by simp
    from kh_kick_correct [OF assms(1) carried this]
    obtain fl' nf' ks' vs' where
      kick: "kh_kick (n + 1) hf n (2 ^ k) (?fl, nf, ks, vs) (ks ! j) (vs ! j) = Some (fl', nf', ks', vs')"
      and inv': "kh_work_inv hf n (2 ^ k) bag {#} fl' nf' ks' vs'"
      and dead: "\<forall>i < n. kh_live fl' i \<longrightarrow> kh_live ?fl i"
      and len: "length ks' = length ks" "length vs' = length vs"
      by blast
    have "\<forall>i < Suc j. \<not> kh_live fl' i"
      using dead Suc.prems(2) jn live' by (metis less_Suc_eq order.strict_trans)
    then show ?thesis
      using Suc.IH [OF inv', of "Suc j"] Suc.prems(3) True kick len by (simp add: not_iseither)
  qed
qed

lemma kh_bag_map:
  assumes "keys_inj n live (kh_entry ks vs)" and "kh_bag n live ks vs = kh_bag m live' ks' vs'"
  shows "keys_inj m live' (kh_entry ks' vs')"
    and "map_of (entries m live' (kh_entry ks' vs')) = map_of (entries n live (kh_entry ks vs))"
    and "card {i. i < m \<and> live' i} = card {i. i < n \<and> live i}"
proof -
  show "keys_inj m live' (kh_entry ks' vs')"
    "map_of (entries m live' (kh_entry ks' vs')) = map_of (entries n live (kh_entry ks vs))"
    using map_of_entries_mset [OF assms(2)[unfolded kh_bag_def] assms(1)] by simp_all
  show "card {i. i < m \<and> live' i} = card {i. i < n \<and> live i}"
    using assms(2) by (metis size_kh_bag)
qed

text \<open>A successful rebuild keeps the map and leaves a table without deleted buckets.\<close>

lemma kh_rebuild_correct:
  assumes inj: "keys_inj (n_buckets h) (kh_live (h_flags h)) (kh_entry (h_keys h) (h_vals h))"
    and flen: "\<And>i. i < n_buckets h \<Longrightarrow> i div 16 < length (h_flags h)"
    and size: "h_size h = card {i. i < n_buckets h \<and> kh_live (h_flags h) i}" "h_size h \<le> 2 ^ k"
    and len: "n_buckets h \<le> length (h_keys h)" "2 ^ k \<le> length (h_keys h)"
      "n_buckets h \<le> length (h_vals h)" "2 ^ k \<le> length (h_vals h)"
    and k: "k \<le> 31" and mem: "2 ^ k < n_buckets h \<Longrightarrow> keys_ok mem \<and> vals_ok mem"
  obtains h' where "kh_rebuild hf mem h (2 ^ k) = Some h'" "kh_table_ok hf h'"
    "n_buckets h' = 2 ^ k" "h_size h' = h_size h" "n_occupied h' = h_size h" "kh_map h' = kh_map h"
proof -
  let ?bag = "kh_bag (n_buckets h) (kh_live (h_flags h)) (h_keys h) (h_vals h)"
  let ?new = "flags_all_empty (2 ^ k)"
  have "kh_bag (2 ^ k) (\<lambda>i. \<not> ac_isempty ?new i) (h_keys h) (h_vals h) = {#}"
  proof -
    have "{i. i < 2 ^ k \<and> \<not> ac_isempty ?new i} = {}" using flags_all_empty_bits by auto
    then show ?thesis unfolding kh_bag_def mset_entries by (simp only: mset_set.empty image_mset_empty)
  qed
  then have start: "kh_work_inv hf (n_buckets h) (2 ^ k) ?bag {#} (h_flags h) ?new (h_keys h) (h_vals h)"
    using flen size len by (simp add: kh_work_inv_def flags_all_empty_bits size_kh_bag)
  obtain fl nf ks vs where
    run: "kh_rehash (n_buckets h) hf (n_buckets h) (2 ^ k) 0 (h_flags h, ?new, h_keys h, h_vals h)
        = Some (fl, nf, ks, vs)"
    and fin: "kh_work_inv hf (n_buckets h) (2 ^ k) ?bag {#} fl nf ks vs"
    and dead: "\<forall>i < n_buckets h. \<not> kh_live fl i"
    using kh_rehash_correct [OF k start, of 0 "n_buckets h"] by auto
  have nodel: "\<not> ac_isdel nf i" if "i < 2 ^ k" for i using fin that by (simp add: kh_work_inv_def)
  have live: "kh_live nf i \<longleftrightarrow> \<not> ac_isempty nf i" if "i < 2 ^ k" for i
    using nodel [OF that] by (simp add: kh_live_def)
  have "kh_bag (n_buckets h) (kh_live fl) ks vs = {#}"
  proof -
    have "{i. i < n_buckets h \<and> kh_live fl i} = {}" using dead by auto
    then show ?thesis unfolding kh_bag_def mset_entries by (simp only: mset_set.empty image_mset_empty)
  qed
  then have "?bag = kh_bag (2 ^ k) (\<lambda>i. \<not> ac_isempty nf i) ks vs"
    using fin by (simp add: kh_work_inv_def)
  also have "\<dots> = kh_bag (2 ^ k) (kh_live nf) ks vs"
    unfolding kh_bag_def by (subst entries_cong [of "2 ^ k" "kh_live nf" "\<lambda>i. \<not> ac_isempty nf i"]) (auto simp: live)
  finally have bag: "?bag = kh_bag (2 ^ k) (kh_live nf) ks vs" .
  define ks' where "ks' = (if n_buckets h > 2 ^ k
      then (if keys_ok mem then realloc_cells (fresh_key mem) ks (2 ^ k) else []) else ks)"
  define vs' where "vs' = (if n_buckets h > 2 ^ k
      then (if vals_ok mem then realloc_cells (fresh_val mem) vs (2 ^ k) else []) else vs)"
  have cells: "2 ^ k \<le> length ks'" "2 ^ k \<le> length vs'"
    and same: "\<And>i. i < 2 ^ k \<Longrightarrow> ks' ! i = ks ! i \<and> vs' ! i = vs ! i"
    using fin mem by (auto simp: ks'_def vs'_def realloc_cells_def kh_work_inv_def nth_append)
  have ent: "entries (2 ^ k) (kh_live nf) (kh_entry ks' vs') = entries (2 ^ k) (kh_live nf) (kh_entry ks vs)"
    by (rule entries_cong) (use same in \<open>auto simp: kh_entry_def\<close>)
  have bag': "?bag = kh_bag (2 ^ k) (kh_live nf) ks' vs'" using bag by (simp add: kh_bag_def ent)
  note res = kh_bag_map [OF inj bag']
  let ?h = "\<lparr>n_buckets = 2 ^ k, h_size = h_size h, n_occupied = h_size h, upper_bound = kh_upper (2 ^ k),
      h_flags = nf, h_keys = ks', h_vals = vs'\<rparr>"
  have "kh_rebuild hf mem h (2 ^ k) = Some ?h"
    by (simp add: kh_rebuild_def run ks'_def vs'_def)
  moreover have "kh_table_ok hf ?h"
  proof -
    have "card {i. i < 2 ^ k \<and> \<not> ac_isempty nf i} = card {i. i < 2 ^ k \<and> kh_live nf i}"
      by (rule card_live_cong) (simp add: live)
    then show ?thesis
      using fin res(1,3) size cells live same by (simp add: kh_table_ok_def kh_work_inv_def)
  qed
  moreover have "kh_map ?h = kh_map h" using res(2) by (simp add: kh_map_def)
  ultimately show thesis using that [of ?h] by simp
qed

section \<open>Resizing\<close>

lemma kh_inv_base:
  assumes "kh_inv hf h"
  shows "keys_inj (n_buckets h) (kh_live (h_flags h)) (kh_entry (h_keys h) (h_vals h))"
    and "\<And>i. i < n_buckets h \<Longrightarrow> i div 16 < length (h_flags h)"
    and "h_size h = card {i. i < n_buckets h \<and> kh_live (h_flags h) i}"
    and "n_buckets h \<le> length (h_keys h)" and "n_buckets h \<le> length (h_vals h)"
  using assms ac_fsize_covers unfolding kh_inv_def kh_table_ok_def
  by (auto simp: keys_inj_def inj_on_def)

lemma kh_round_power:
  assumes "1 \<le> x" "x \<le> 2 ^ 31"
  obtains L where "kh_round x = 2 ^ L" "2 \<le> L" "L \<le> 31" "x \<le> 2 ^ L"
    "2 < L \<longrightarrow> 2 ^ (L - 1) < x"
proof -
  obtain L where L: "unat (kroundup32 (of_nat x)) = 2 ^ L" "x \<le> 2 ^ L" "L = 0 \<or> 2 ^ (L - 1) < x" "L \<le> 31"
    by (rule kroundup32_power [OF assms])
  show thesis
  proof (cases "L < 2")
    case True
    then have "(2::nat) ^ L < 2 ^ 2" by (intro power_strict_increasing) auto
    then have "kh_round x = 2 ^ 2" "x \<le> 2 ^ 2" using L by (simp_all add: kh_round_def)
    then show thesis using that [of 2] by simp
  next
    case False
    then have "(2::nat) ^ 2 \<le> 2 ^ L" by (intro power_increasing) auto
    then have "kh_round x = 2 ^ L" using L by (simp add: kh_round_def)
    then show thesis using that [of L] L False by auto
  qed
qed

lemma length_realloc_cells: "length (realloc_cells fresh xs m) = m"
  by (simp add: realloc_cells_def)

lemma nth_realloc_cells: "i < m \<Longrightarrow> i < length xs \<Longrightarrow> realloc_cells fresh xs m ! i = xs ! i"
  by (simp add: realloc_cells_def nth_append)

lemma kh_map_realloc:
  assumes "n_buckets h \<le> length (h_keys h)" "n_buckets h \<le> length (h_vals h)" "n_buckets h \<le> m"
  shows "entries (n_buckets h) live (kh_entry (realloc_cells f (h_keys h) m) (realloc_cells g (h_vals h) m))
      = entries (n_buckets h) live (kh_entry (h_keys h) (h_vals h))"
    and "entries (n_buckets h) live (kh_entry (realloc_cells f (h_keys h) m) (h_vals h))
      = entries (n_buckets h) live (kh_entry (h_keys h) (h_vals h))"
  by (rule entries_cong; use assms in \<open>auto simp: kh_entry_def nth_realloc_cells\<close>)+

lemma kh_resize_success:
  assumes inv: "kh_inv hf h" and m: "kh_round x = 2 ^ k" "k \<le> 31" "h_size h < kh_upper (2 ^ k)" "2 \<le> k"
    and mem: "flags_ok mem" "n_buckets h \<noteq> 2 ^ k \<Longrightarrow> keys_ok mem \<and> vals_ok mem"
  obtains h' where "kh_resize hf mem h x = Some (h', 0)" "kh_inv hf h'" "n_buckets h' = 2 ^ k"
    "h_size h' = h_size h" "n_occupied h' = h_size h" "kh_map h' = kh_map h"
    "kh_table_ok hf h'"
proof -
  note base = kh_inv_base [OF inv]
  have "(4::nat) \<le> 2 ^ k" using power_increasing [of 2 k "2::nat"] m(4) by simp
  then have small: "h_size h \<le> 2 ^ k" using m(3) kh_upper_le [of "2 ^ k"] by linarith
  define h1 where "h1 = (if n_buckets h < 2 ^ k
      then h\<lparr>h_keys := realloc_cells (fresh_key mem) (h_keys h) (2 ^ k),
             h_vals := realloc_cells (fresh_val mem) (h_vals h) (2 ^ k)\<rparr> else h)"
  have h1: "n_buckets h1 = n_buckets h" "h_flags h1 = h_flags h" "h_size h1 = h_size h"
    "n_buckets h \<le> length (h_keys h1)" "2 ^ k \<le> length (h_keys h1)"
    "n_buckets h \<le> length (h_vals h1)" "2 ^ k \<le> length (h_vals h1)"
    using base(4,5) by (auto simp: h1_def length_realloc_cells)
  have ent: "entries (n_buckets h) live (kh_entry (h_keys h1) (h_vals h1))
      = entries (n_buckets h) live (kh_entry (h_keys h) (h_vals h))" for live
    using kh_map_realloc [OF base(4,5)] by (simp add: h1_def)
  have inj1: "keys_inj (n_buckets h1) (kh_live (h_flags h1)) (kh_entry (h_keys h1) (h_vals h1))"
    using base(1) ent by (metis distinct_entries h1(1,2))
  have map1: "kh_map h1 = kh_map h" by (simp add: kh_map_def h1 ent)
  have mem1: "2 ^ k < n_buckets h1 \<Longrightarrow> keys_ok mem \<and> vals_ok mem" using mem(2) h1(1) by simp
  obtain h' where h': "kh_rebuild hf mem h1 (2 ^ k) = Some h'" "kh_table_ok hf h'"
    "n_buckets h' = 2 ^ k" "h_size h' = h_size h" "n_occupied h' = h_size h" "kh_map h' = kh_map h1"
    by (rule kh_rebuild_correct [OF inj1 _ _ _ _ _ _ _ m(2) mem1])
      (use base small h1 in auto)
  have "kh_resize hf mem h x = map_option (\<lambda>h. (h, 0)) (kh_rebuild hf mem h1 (2 ^ k))"
    using m mem by (auto simp: kh_resize_def h1_def Let_def)
  then show thesis using that [of h'] h' m map1 by (auto simp: kh_inv_def)
qed

lemma kh_inv_realloc_keys:
  assumes "kh_inv hf h" "n_buckets h \<le> m"
  shows "kh_inv hf (h\<lparr>h_keys := realloc_cells f (h_keys h) m\<rparr>)"
    and "kh_map (h\<lparr>h_keys := realloc_cells f (h_keys h) m\<rparr>) = kh_map h"
proof -
  note base = kh_inv_base [OF assms(1)]
  note ent = kh_map_realloc(2) [OF base(4,5) assms(2)]
  show "kh_map (h\<lparr>h_keys := realloc_cells f (h_keys h) m\<rparr>) = kh_map h"
    by (simp add: kh_map_def ent)
  have "keys_inj (n_buckets h) (kh_live (h_flags h)) (kh_entry (realloc_cells f (h_keys h) m) (h_vals h))"
    using base(1) ent by (metis distinct_entries)
  then show "kh_inv hf (h\<lparr>h_keys := realloc_cells f (h_keys h) m\<rparr>)"
    using assms base(4) unfolding kh_inv_def kh_table_ok_def
    by (auto simp: length_realloc_cells nth_realloc_cells)
qed

text \<open>
  Whatever the request and whatever the allocator does, a resize returns, keeps the invariant and
  loses no entry; only a shrinking \<open>realloc\<close> must not fail, since its result is not checked.
\<close>

lemma kh_resize_safe:
  assumes inv: "kh_inv hf h" and x: "1 \<le> x" "x \<le> 2 ^ 31"
    and mem: "kh_round x < n_buckets h \<Longrightarrow> keys_ok mem \<and> vals_ok mem"
  shows "\<exists>h' r. kh_resize hf mem h x = Some (h', r) \<and> kh_inv hf h' \<and> kh_map h' = kh_map h \<and>
    (r = 0 \<or> r = -1)"
proof -
  obtain k where k: "kh_round x = 2 ^ k" "2 \<le> k" "k \<le> 31"
    using kh_round_power [OF x] by metis
  consider (small) "h_size h \<ge> kh_upper (2 ^ k)"
    | (noflags) "h_size h < kh_upper (2 ^ k)" "\<not> flags_ok mem"
    | (nokeys) "h_size h < kh_upper (2 ^ k)" "flags_ok mem" "n_buckets h < 2 ^ k" "\<not> keys_ok mem"
    | (novals) "h_size h < kh_upper (2 ^ k)" "flags_ok mem" "n_buckets h < 2 ^ k" "keys_ok mem" "\<not> vals_ok mem"
    | (ok) "h_size h < kh_upper (2 ^ k)" "flags_ok mem" "n_buckets h \<noteq> 2 ^ k \<Longrightarrow> keys_ok mem \<and> vals_ok mem"
    using mem k(1) by (metis linorder_neqE_nat not_le)
  then show ?thesis
  proof cases
    case novals
    then show ?thesis
      using kh_inv_realloc_keys [OF inv, of "2 ^ k"] k(1) by (simp add: kh_resize_def Let_def)
  next
    case ok
    then show ?thesis using kh_resize_success [OF inv k(1,3) ok(1) k(2) ok(2,3)] by metis
  qed (use inv k(1) in \<open>simp_all add: kh_resize_def Let_def\<close>)
qed

section \<open>Putting the operations together\<close>

text \<open>All three allocations succeed.\<close>

definition kh_mem_ok :: "('k, 'v) kh_mem \<Rightarrow> bool" where
  "kh_mem_ok mem \<longleftrightarrow> flags_ok mem \<and> keys_ok mem \<and> vals_ok mem"

lemma kh_size_le: "kh_inv hf h \<Longrightarrow> h_size h \<le> n_buckets h \<and> h_size h \<le> n_occupied h"
proof -
  assume inv: "kh_inv hf h"
  show ?thesis
  proof (cases "n_buckets h = 0")
    case True
    then show ?thesis using kh_inv_base(3) [OF inv] by simp
  next
    case False
    then have ok: "kh_table_ok hf h" using inv unfolding kh_inv_def by auto
    have "card {i. i < n_buckets h \<and> kh_live (h_flags h) i} \<le> card {..<n_buckets h}"
      by (rule card_mono) auto
    moreover have "card {i. i < n_buckets h \<and> kh_live (h_flags h) i}
        \<le> card {i. i < n_buckets h \<and> \<not> ac_isempty (h_flags h) i}"
      by (rule card_mono) (auto simp: kh_live_def)
    ultimately show ?thesis using ok by (simp add: kh_table_ok_def)
  qed
qed

lemma kh_table_free:
  assumes "kh_table_ok hf h" "n_occupied h < kh_upper (n_buckets h)" "4 \<le> n_buckets h"
  obtains e where "e < n_buckets h" "ac_isempty (h_flags h) e"
proof -
  have "card {i. i < n_buckets h \<and> \<not> ac_isempty (h_flags h) i} < n_buckets h"
    using assms kh_upper_le [of "n_buckets h"] by (simp add: kh_table_ok_def)
  then show thesis
    using exists_free_bucket [of "n_buckets h" "\<lambda>i. \<not> ac_isempty (h_flags h) i"] that by auto
qed

text \<open>Making room before an insertion leaves at least one empty bucket, whichever case applies.\<close>

lemma kh_put_room_correct:
  assumes inv: "kh_inv hf h" and big: "h_size h < 2 ^ 29" and mem: "kh_mem_ok mem"
    and nb: "n_buckets h \<le> 2 ^ 30"
  obtains h' k where "kh_put_room hf mem h = Some (h', 0)" "kh_inv hf h'" "kh_table_ok hf h'"
    "n_buckets h' = 2 ^ k" "2 \<le> k" "k \<le> 31" "n_occupied h' < kh_upper (2 ^ k)"
    "kh_map h' = kh_map h" "h_size h' = h_size h" "n_buckets h' \<le> max (n_buckets h) (4 * (h_size h + 1))"
proof (cases "n_occupied h \<ge> upper_bound h")
  case False
  then have nz: "n_buckets h \<noteq> 0" using inv by (auto simp: kh_inv_def)
  then obtain k where k: "n_buckets h = 2 ^ k" "2 \<le> k" "k \<le> 31" and ok: "kh_table_ok hf h"
    using inv unfolding kh_inv_def by auto
  show thesis
    by (rule that [of h k]) (use False k ok inv in \<open>auto simp: kh_put_room_def kh_table_ok_def\<close>)
next
  case True
  define x where "x = (if n_buckets h > 2 * h_size h then n_buckets h - 1 else n_buckets h + 1)"
  have room: "kh_put_room hf mem h = kh_resize hf mem h x"
    using True big nb by (simp add: kh_put_room_def x_def)
  have "\<exists>k. n_buckets h = 0 \<or> n_buckets h = 2 ^ k \<and> 2 \<le> k" using inv by (auto simp: kh_inv_def)
  then have n4: "n_buckets h = 0 \<or> 4 \<le> n_buckets h"
    using power_increasing [of 2 _ "2::nat"] by fastforce
  have x: "1 \<le> x" "x \<le> 2 ^ 31" using nb n4 by (auto simp: x_def)
  obtain L where L: "kh_round x = 2 ^ L" "2 \<le> L" "L \<le> 31" "x \<le> 2 ^ L" "2 < L \<longrightarrow> 2 ^ (L - 1) < x"
    by (rule kh_round_power [OF x])
  have L4: "(4::nat) \<le> 2 ^ L" using power_increasing [of 2 L "2::nat"] L(2) by simp
  have fits: "h_size h < kh_upper (2 ^ L)"
  proof (rule kh_upper_gt)
    have "8 * h_size h + 8 \<le> 7 * 2 ^ L + 4"
    proof (cases "n_buckets h > 2 * h_size h")
      case True
      then have "2 * h_size h \<le> 2 ^ L" using L(4) by (simp add: x_def)
      then show ?thesis using L4 by linarith
    next
      case False
      then have "n_buckets h < 2 ^ L" using L(4) by (simp add: x_def)
      moreover have "n_buckets h = 0 \<or> 2 * n_buckets h \<le> 2 ^ L"
      proof (cases "n_buckets h = 0")
        case False
        then obtain k where "n_buckets h = 2 ^ k" using inv by (auto simp: kh_inv_def)
        then have "k < L" using \<open>n_buckets h < 2 ^ L\<close> by simp
        then have "(2::nat) ^ Suc k \<le> 2 ^ L" by (intro power_increasing) auto
        then show ?thesis using \<open>n_buckets h = 2 ^ k\<close> by simp
      qed simp
      moreover have "h_size h \<le> n_buckets h" using kh_size_le [OF inv] by simp
      ultimately show ?thesis using L4 by linarith
    qed
    then show "8 * h_size h < 7 * 2 ^ L + 4" "8 * h_size h + 8 \<le> 7 * 2 ^ L + 4" by simp_all
  qed
  have size: "2 ^ L \<le> max (n_buckets h) (4 * (h_size h + 1))"
  proof (cases "2 < L")
    case False
    then have "L = 2" using L(2) by simp
    then show ?thesis by simp
  next
    case big: True
    then have "2 * 2 ^ (L - 1) = (2::nat) ^ L" by (metis power_Suc Suc_diff_1 less_trans zero_less_numeral)
    then have dbl: "2 ^ L < 2 * x" using L(5) [rule_format, OF big] by linarith
    show ?thesis
    proof (cases "n_buckets h > 2 * h_size h")
      case True
      then obtain k where k: "n_buckets h = 2 ^ k" using inv by (auto simp: kh_inv_def)
      have "(2::nat) ^ (L - 1) < 2 ^ k - 1" using L(5) [rule_format, OF big] True k by (simp add: x_def)
      then have "(2::nat) ^ (L - 1) < 2 ^ k" by linarith
      then have "L - 1 < k" by (rule power_less_imp_less_exp [rotated]) simp
      then have "L \<le> k" by linarith
      then have "(2::nat) ^ L \<le> n_buckets h" unfolding k by (intro power_increasing) auto
      then show ?thesis by (rule max.coboundedI1)
    next
      case False
      then show ?thesis using dbl by (simp add: x_def)
    qed
  qed
  obtain h' where h': "kh_resize hf mem h x = Some (h', 0)" "kh_inv hf h'" "n_buckets h' = 2 ^ L"
    "h_size h' = h_size h" "n_occupied h' = h_size h" "kh_map h' = kh_map h" "kh_table_ok hf h'"
    by (rule kh_resize_success [OF inv L(1,3) fits L(2), of mem])
      (use mem in \<open>auto simp: kh_mem_ok_def\<close>)
  show thesis
    by (rule that [of h' L]) (use h' L room fits size in auto)
qed

text \<open>
  Insertion: the key's bucket is returned; the map gains the key (with whatever the value cell
  holds, which the caller overwrites) exactly when it was absent, and the return code says which.
\<close>

lemma kh_put_correct:
  assumes inv: "kh_inv hf h" and big: "h_size h < 2 ^ 29" and mem: "kh_mem_ok mem"
    and nb: "n_buckets h \<le> 2 ^ 30"
  shows "\<exists>h' x ret. kh_put hf (=) mem h key = Some (h', x, ret) \<and> kh_inv hf h' \<and>
    x < n_buckets h' \<and> kh_exist h' x \<and> kh_key h' x = key \<and>
    (if kh_map h key = None then ret \<in> {1, 2} \<and> kh_map h' = (kh_map h)(key \<mapsto> kh_val h' x)
     else ret = 0 \<and> kh_map h' = kh_map h) \<and>
    n_buckets h' \<le> max (n_buckets h) (4 * (h_size h + 1))"
proof -
  obtain h1 k where room: "kh_put_room hf mem h = Some (h1, 0)" "kh_inv hf h1" and ok: "kh_table_ok hf h1"
    and k: "n_buckets h1 = 2 ^ k" "2 \<le> k" "k \<le> 31" and occ: "n_occupied h1 < kh_upper (2 ^ k)"
    and map1: "kh_map h1 = kh_map h" and size1: "h_size h1 = h_size h"
    and nb1: "n_buckets h1 \<le> max (n_buckets h) (4 * (h_size h + 1))"
    by (rule kh_put_room_correct [OF inv big mem nb])
  have k4: "4 \<le> n_buckets h1" using k power_increasing [of 2 k "2::nat"] by simp
  have occ': "n_occupied h1 < kh_upper (n_buckets h1)" using occ k by simp
  obtain e where "e < n_buckets h1" "ac_isempty (h_flags h1) e"
    by (rule kh_table_free [OF ok occ' k4])
  then have e: "e < 2 ^ k" "ac_isempty (h_flags h1) e" using k by simp_all
  obtain x where find: "kh_put_find hf (=) h1 key = Some x" "x < 2 ^ k"
    and present: "kh_live (h_flags h1) x \<longrightarrow> h_keys h1 ! x = key"
    and absent: "\<not> kh_live (h_flags h1) x \<longrightarrow> kh_map h1 key = None \<and>
       reaches (2 ^ k) (\<lambda>b. \<not> ac_isempty (h_flags h1) b) (kh_home hf (2 ^ k) key) x"
    by (rule kh_put_find_correct [OF k(1,3) ok e, where key = key])
  have run: "kh_put hf (=) mem h key = Some (kh_put_at h1 key x)"
    using room(1) find(1) by (simp add: kh_put_def)
  show ?thesis
  proof (cases "kh_live (h_flags h1) x")
    case True
    then have "kh_put_at h1 key x = (h1, x, 0)" by (simp add: kh_put_at_def kh_live_def)
    moreover have "kh_map h key \<noteq> None"
      using kh_map_at [OF ok _ True] find(2) k(1) present [rule_format, OF True] map1 by simp
    ultimately show ?thesis
      using run room(2) find(2) k(1) True present map1 nb1 not_iseither [of "h_flags h1" x]
      by (simp add: kh_exist_def kh_key_def)
  next
    case False
    obtain h' x' ret where put: "kh_put_at h1 key x = (h', x', ret)" by (cases "kh_put_at h1 key x")
    have "kh_upper (2 ^ k) \<le> 2 ^ k" by (rule kh_upper_le) (use k4 k in simp)
    moreover have "(2::nat) ^ k \<le> 2 ^ 31" by (rule power_increasing) (use k in auto)
    ultimately have small: "h_size h1 < 2 ^ 31" "n_occupied h1 < 2 ^ 31" using big size1 occ by simp_all
    note res = kh_put_at_result [OF ok k(1,3) find(2) False _ _ small put]
    have "kh_inv hf h'" using res absent [rule_format, OF False] k by (auto simp: kh_inv_def)
    then show ?thesis
      using run put res absent [rule_format, OF False] map1 nb1 find(2) k(1) not_iseither [of "h_flags h'" x]
      by (auto simp: kh_exist_def kh_key_def kh_val_def)
  qed
qed

subsection \<open>When an allocation fails\<close>

text \<open>The request of \<open>kh_put\<close> never shrinks the table.\<close>

lemma kh_put_request:
  assumes inv: "kh_inv hf h" and nb: "n_buckets h \<le> 2 ^ 30"
    and x: "x = (if n_buckets h > 2 * h_size h then n_buckets h - 1 else n_buckets h + 1)"
  shows "1 \<le> x" and "x \<le> 2 ^ 31" and "n_buckets h \<le> kh_round x"
proof -
  have pow: "\<exists>k. n_buckets h = 0 \<or> n_buckets h = 2 ^ k \<and> 2 \<le> k" using inv by (auto simp: kh_inv_def)
  then have n4: "n_buckets h = 0 \<or> 4 \<le> n_buckets h"
    using power_increasing [of 2 _ "2::nat"] by fastforce
  then show x1: "1 \<le> x" and x31: "x \<le> 2 ^ 31" using nb x by auto
  obtain L where L: "kh_round x = 2 ^ L" "2 \<le> L" "x \<le> 2 ^ L"
    by (rule kh_round_power [OF x1 x31])
  show "n_buckets h \<le> kh_round x"
  proof (cases "n_buckets h = 0")
    case False
    then obtain k where k: "n_buckets h = 2 ^ k" "2 \<le> k" using pow by auto
    have "k \<le> L"
    proof (rule ccontr)
      assume "\<not> k \<le> L"
      then have "(2::nat) ^ Suc L \<le> 2 ^ k" by (intro power_increasing) auto
      moreover have "(2::nat) ^ 2 \<le> 2 ^ L" using L(2) by (intro power_increasing) auto
      moreover have "n_buckets h - 1 \<le> x" using x by (simp split: if_splits)
      then have "(2::nat) ^ k - 1 \<le> x" unfolding k(1) .
      ultimately show False using L(3) by simp
    qed
    then show ?thesis unfolding k(1) L(1) by (intro power_increasing) auto
  qed simp
qed

text \<open>A resize that reports success did the same as with an allocator that never fails.\<close>

lemma kh_resize_zero_mem:
  assumes "kh_resize hf mem h x = Some (h', 0)" "n_buckets h \<le> kh_round x"
  shows "kh_resize hf (mem\<lparr>flags_ok := True, keys_ok := True, vals_ok := True\<rparr>) h x = Some (h', 0)"
  using assms by (auto simp: kh_resize_def kh_rebuild_def Let_def split: if_splits option.splits)

lemma kh_put_any_memory:
  assumes inv: "kh_inv hf h" and big: "h_size h < 2 ^ 29" and nb: "n_buckets h \<le> 2 ^ 30"
  shows "\<exists>h' x ret. kh_put hf (=) mem h key = Some (h', x, ret) \<and> kh_inv hf h' \<and>
    (if ret = -1 then x = n_buckets h' \<and> kh_map h' = kh_map h
     else x < n_buckets h' \<and> kh_exist h' x \<and> kh_key h' x = key \<and>
       (if kh_map h key = None then ret \<in> {1, 2} \<and> kh_map h' = (kh_map h)(key \<mapsto> kh_val h' x)
        else ret = 0 \<and> kh_map h' = kh_map h))"
proof -
  define x where "x = (if n_buckets h > 2 * h_size h then n_buckets h - 1 else n_buckets h + 1)"
  note req = kh_put_request [OF inv nb x_def]
  have room: "kh_put_room hf mem h = (if n_occupied h \<ge> upper_bound h then kh_resize hf mem h x
      else Some (h, 0))" for mem
    using big nb by (simp add: kh_put_room_def x_def)
  obtain h1 r where r: "kh_resize hf mem h x = Some (h1, r)" "kh_inv hf h1" "kh_map h1 = kh_map h"
    "r = 0 \<or> r = -1"
    using kh_resize_safe [OF inv req(1,2), of mem] req(3) by auto
  let ?mem = "mem\<lparr>flags_ok := True, keys_ok := True, vals_ok := True\<rparr>"
  show ?thesis
  proof (cases "n_occupied h \<ge> upper_bound h \<and> r = -1")
    case True
    then have "kh_put hf (=) mem h key = Some (h1, n_buckets h1, -1)"
      using r(1) by (simp add: kh_put_def room)
    then show ?thesis using r(2,3) by simp
  next
    case False
    then have "kh_put_room hf mem h = kh_put_room hf ?mem h"
      using r(1,4) kh_resize_zero_mem [OF _ req(3), of hf mem h1] by (auto simp: room)
    then have "kh_put hf (=) mem h key = kh_put hf (=) ?mem h key" by (simp only: kh_put_def)
    moreover have "kh_mem_ok ?mem" by (simp add: kh_mem_ok_def)
    ultimately obtain h' x ret where res: "kh_put hf (=) mem h key = Some (h', x, ret)" "kh_inv hf h'"
      "x < n_buckets h' \<and> kh_exist h' x \<and> kh_key h' x = key"
      "if kh_map h key = None then ret \<in> {1, 2} \<and> kh_map h' = (kh_map h)(key \<mapsto> kh_val h' x)
       else ret = 0 \<and> kh_map h' = kh_map h"
      using kh_put_correct [OF inv big _ nb, of ?mem key] by auto
    moreover have "ret \<noteq> -1" using res(4) by (auto split: if_splits)
    ultimately show ?thesis by (intro exI [of _ h'] exI [of _ x] exI [of _ ret]) simp
  qed
qed

lemma kh_del_correct:
  assumes inv: "kh_inv hf h" and x: "x < n_buckets h" "kh_exist h x"
  shows "kh_inv hf (kh_del h x)" and "kh_map (kh_del h x) = (kh_map h)(kh_key h x := None)"
    and "n_buckets (kh_del h x) = n_buckets h"
proof -
  have live: "kh_live (h_flags h) x" using x(2) by (simp add: kh_exist_def not_iseither)
  obtain k where k: "n_buckets h = 2 ^ k" "2 \<le> k" "k \<le> 31" and ok: "kh_table_ok hf h"
    using inv x(1) unfolding kh_inv_def by auto
  have len: "x div 16 < length (h_flags h)" by (rule kh_inv_base(2) [OF inv x(1)])
  note upd = isdel_updates(4) [OF len] isempty_updates(4) [OF len]
  have "(2::nat) ^ k \<le> 2 ^ 31" using k(3) by (rule power_increasing) simp
  moreover have "0 < card {i. i < n_buckets h \<and> kh_live (h_flags h) i}"
    using x(1) live by (auto simp: card_gt_0_iff)
  moreover have "card {i. i < n_buckets h \<and> kh_live (h_flags h) i} \<le> card {..<n_buckets h}"
    by (rule card_mono) auto
  ultimately have size: "0 < h_size h" "h_size h \<le> 2 ^ 31" using ok k(1) by (simp_all add: kh_table_ok_def)
  have "h_size h + 0xFFFFFFFF = (h_size h - 1) + 2 ^ 32" using size(1) by simp
  then have "wrap32 (h_size h + 0xFFFFFFFF) = (h_size h - 1) mod 2 ^ 32"
    unfolding wrap32_def by (simp only: mod_add_self2)
  also have "\<dots> = h_size h - 1" using size by (intro mod_less) simp
  finally have del: "kh_del h x = h\<lparr>h_flags := ac_set_isdel_true (h_flags h) x, h_size := h_size h - 1\<rparr>"
    using x by (simp add: kh_del_def kh_exist_def)
  have live': "kh_live (ac_set_isdel_true (h_flags h) x) j \<longleftrightarrow> j \<noteq> x \<and> kh_live (h_flags h) j" for j
    unfolding kh_live_def upd by auto
  have inj: "keys_inj (2 ^ k) (kh_live (h_flags h)) (kh_entry (h_keys h) (h_vals h))"
    using ok k(1) by (simp add: kh_table_ok_def)
  have xk: "x < 2 ^ k" using x(1) k(1) by simp
  note rem = entries_remove [OF inj xk live, of "kh_live (ac_set_isdel_true (h_flags h) x)"
      "kh_entry (h_keys h) (h_vals h)"]
  show "kh_map (kh_del h x) = (kh_map h)(kh_key h x := None)"
    using rem(2) k(1) live' by (simp add: del kh_map_def kh_key_def)
  have "Suc (card {i. i < 2 ^ k \<and> kh_live (ac_set_isdel_true (h_flags h) x) i})
      = card {i. i < 2 ^ k \<and> kh_live (h_flags h) i}"
    by (rule card_live_remove [of x]) (use xk live live' in auto)
  then have "kh_table_ok hf (kh_del h x)"
    using ok rem(1) live' k(1) by (simp add: kh_table_ok_def del table_simps upd)
  then show "kh_inv hf (kh_del h x)" using k by (auto simp: kh_inv_def del)
  show "n_buckets (kh_del h x) = n_buckets h" by (simp add: del)
qed

lemma kh_clear_correct:
  assumes "kh_inv hf h"
  shows "kh_inv hf (kh_clear h)" and "kh_map (kh_clear h) = Map.empty"
proof -
  consider (zero) "n_buckets h = 0" "h_flags h = []"
    | (table) k where "n_buckets h = 2 ^ k" "2 \<le> k" "k \<le> 31" "kh_table_ok hf h" "h_flags h \<noteq> []"
  proof (cases "n_buckets h = 0")
    case True
    then show ?thesis using assms zero by (auto simp: kh_inv_def)
  next
    case False
    then obtain k where k: "n_buckets h = 2 ^ k" "2 \<le> k" "k \<le> 31" "kh_table_ok hf h"
      using assms by (auto simp: kh_inv_def)
    moreover have "h_flags h \<noteq> []" using kh_inv_base(2) [OF assms, of 0] False by auto
    ultimately show ?thesis using table by blast
  qed
  then have "kh_inv hf (kh_clear h) \<and> kh_map (kh_clear h) = Map.empty"
  proof cases
    case zero
    then show ?thesis using assms by (simp add: kh_clear_def kh_map_def entries_def)
  next
    case table
    have dead: "\<not> kh_live (flags_all_empty (2 ^ k)) i" if "i < 2 ^ k" for i
      using flags_all_empty_bits [OF that] by (simp add: kh_live_def)
    have none: "{i. i < 2 ^ k \<and> kh_live (flags_all_empty (2 ^ k)) i} = {}"
      "{i. i < 2 ^ k \<and> \<not> ac_isempty (flags_all_empty (2 ^ k)) i} = {}"
      using dead flags_all_empty_bits by auto
    have "entries (2 ^ k) (kh_live (flags_all_empty (2 ^ k))) f = []" for f :: "nat \<Rightarrow> 'a \<times> 'b"
      using length_entries [of "2 ^ k" "kh_live (flags_all_empty (2 ^ k))" f] unfolding none by simp
    moreover have "kh_table_ok hf (kh_clear h)"
      using table none dead unfolding kh_table_ok_def
      by (simp add: kh_clear_def keys_inj_def del: Collect_empty_eq)
    ultimately show ?thesis using table by (auto simp: kh_inv_def kh_clear_def kh_map_def)
  qed
  then show "kh_inv hf (kh_clear h)" "kh_map (kh_clear h) = Map.empty" by simp_all
qed

end
