(* ===== verification/Benchmark.thy ===== *)
theory Benchmark
  imports Blueprints
begin

text \<open>
  The benchmark's side of the interface: what a shim must provide (README, "Adding a new table"),
  the sequences of shim calls that \<open>benchmark\<close> in \<open>src/main.cpp\<close> makes with the settings of
  \<open>src/config.h\<close>, and, proved once for every shim that satisfies the contract, what each sequence
  leaves in the table and what its lookups see. Clocks, sleeps and the random generator are not
  modelled: a random starting position is an argument.
\<close>

section \<open>The shim interface\<close>

text \<open>
  The static members of \<open>new_shim< blueprint >\<close>. A result \<open>None\<close> means that the call does not
  return.
\<close>

record ('t, 'k, 'v, 'i) shim_ops =
  create_table :: 't
  sh_insert :: "'t \<Rightarrow> 'k \<Rightarrow> 't option"
  sh_erase :: "'t \<Rightarrow> 'k \<Rightarrow> 't option"
  sh_find :: "'t \<Rightarrow> 'k \<Rightarrow> 'i option"
  begin_itr :: "'t \<Rightarrow> 'i option"
  is_itr_valid :: "'t \<Rightarrow> 'i \<Rightarrow> bool"
  increment_itr :: "'t \<Rightarrow> 'i \<Rightarrow> 'i option"
  get_key_from_itr :: "'t \<Rightarrow> 'i \<Rightarrow> 'k"
  get_value_from_itr :: "'t \<Rightarrow> 'i \<Rightarrow> 'v"

text \<open>
  The contract: with \<open>inv\<close> the shim's table invariant and \<open>abs\<close> the map a table stands for,
  insertion replaces or adds the key with the dummy value \<open>dflt\<close> while the table holds fewer than
  \<open>cap\<close> keys, erasure removes it, and \<open>find\<close> returns an iterator to it or an invalid one.
\<close>

locale shim =
  fixes ops :: "('t, 'k, 'v, 'i) shim_ops"
    and inv :: "'t \<Rightarrow> bool"
    and abs :: "'t \<Rightarrow> 'k \<Rightarrow> 'v option"
    and dflt :: 'v
    and cap :: nat
  assumes create_inv: "inv (create_table ops)"
    and create_abs: "abs (create_table ops) = Map.empty"
    and insert_law: "inv t \<Longrightarrow> card (dom (abs t)) < cap \<Longrightarrow>
      \<exists>t'. sh_insert ops t key = Some t' \<and> inv t' \<and> abs t' = (abs t)(key \<mapsto> dflt)"
    and erase_law: "inv t \<Longrightarrow>
      \<exists>t'. sh_erase ops t key = Some t' \<and> inv t' \<and> abs t' = (abs t)(key := None)"
    and find_law: "inv t \<Longrightarrow>
      \<exists>i. sh_find ops t key = Some i \<and> (is_itr_valid ops t i \<longleftrightarrow> abs t key \<noteq> None) \<and>
        (is_itr_valid ops t i \<longrightarrow>
          get_key_from_itr ops t i = key \<and> abs t key = Some (get_value_from_itr ops t i))"

text \<open>
  The part of the contract about iteration: \<open>order t\<close> lists the keys of the table, each once, and
  \<open>at t i j\<close> says that the iterator \<open>i\<close> stands at its position \<open>j\<close>; \<open>begin_itr\<close> gives an iterator at
  the first position and \<open>increment_itr\<close> one at the next, and both give an invalid iterator when there
  is none.
\<close>

locale iterable_shim = shim ops inv abs dflt cap
  for ops :: "('t, 'k, 'v, 'i) shim_ops" and inv abs dflt cap +
  fixes order :: "'t \<Rightarrow> 'k list"
    and at :: "'t \<Rightarrow> 'i \<Rightarrow> nat \<Rightarrow> bool"
  assumes at_law: "inv t \<Longrightarrow> at t i j \<Longrightarrow>
      j < length (order t) \<and> is_itr_valid ops t i \<and> get_key_from_itr ops t i = order t ! j"
    and order_law: "inv t \<Longrightarrow> distinct (order t) \<and> set (order t) = dom (abs t)"
    and begin_law: "inv t \<Longrightarrow>
      \<exists>i. begin_itr ops t = Some i \<and> (if order t = [] then \<not> is_itr_valid ops t i else at t i 0)"
    and increment_law: "inv t \<Longrightarrow> at t i j \<Longrightarrow>
      \<exists>i'. increment_itr ops t i = Some i' \<and>
        (if Suc j < length (order t) then at t i' (Suc j) else \<not> is_itr_valid ops t i')"
    and find_law_at: "inv t \<Longrightarrow> sh_find ops t key = Some i \<Longrightarrow> is_itr_valid ops t i \<Longrightarrow> \<exists>j. at t i j"

text \<open>
  What the iteration of the combined benchmark needs to run to its end, even when the iterators are not
  always at a key: \<open>safe t i\<close> says that \<open>i\<close> can be read and advanced. \<open>find\<close> gives such an iterator,
  advancing one ends and gives another or an invalid one, and once one exists \<open>begin_itr\<close> gives one too.
\<close>

locale walkable_shim = shim ops inv abs dflt cap
  for ops :: "('t, 'k, 'v, 'i) shim_ops" and inv abs dflt cap +
  fixes safe :: "'t \<Rightarrow> 'i \<Rightarrow> bool"
  assumes find_safe: "inv t \<Longrightarrow> sh_find ops t key = Some i \<Longrightarrow> is_itr_valid ops t i \<Longrightarrow> safe t i"
    and increment_safe: "inv t \<Longrightarrow> safe t i \<Longrightarrow>
      \<exists>i'. increment_itr ops t i = Some i' \<and> (is_itr_valid ops t i' \<longrightarrow> safe t i')"
    and begin_safe: "inv t \<Longrightarrow> safe t i \<Longrightarrow> \<exists>i'. begin_itr ops t = Some i' \<and> safe t i'"

text \<open>
  A shim whose library ends the program when memory runs out: an insertion may not return (\<open>None\<close>), and
  everything else is as before. The stronger contracts give the weaker ones.
\<close>

locale exiting_shim =
  fixes ops :: "('t, 'k, 'v, 'i) shim_ops"
    and inv :: "'t \<Rightarrow> bool"
    and abs :: "'t \<Rightarrow> 'k \<Rightarrow> 'v option"
    and dflt :: 'v
    and cap :: nat
  assumes new_inv: "inv (create_table ops)"
    and new_abs: "abs (create_table ops) = Map.empty"
    and insert_or_exit: "inv t \<Longrightarrow> card (dom (abs t)) < cap \<Longrightarrow>
      sh_insert ops t key = None \<or>
      (\<exists>t'. sh_insert ops t key = Some t' \<and> inv t' \<and> abs t' = (abs t)(key \<mapsto> dflt))"
    and erases: "inv t \<Longrightarrow>
      \<exists>t'. sh_erase ops t key = Some t' \<and> inv t' \<and> abs t' = (abs t)(key := None)"
    and finds: "inv t \<Longrightarrow>
      \<exists>i. sh_find ops t key = Some i \<and> (is_itr_valid ops t i \<longleftrightarrow> abs t key \<noteq> None) \<and>
        (is_itr_valid ops t i \<longrightarrow>
          get_key_from_itr ops t i = key \<and> abs t key = Some (get_value_from_itr ops t i))"

locale iterable_exiting_shim = exiting_shim ops inv abs dflt cap
  for ops :: "('t, 'k, 'v, 'i) shim_ops" and inv abs dflt cap +
  fixes order :: "'t \<Rightarrow> 'k list"
    and at :: "'t \<Rightarrow> 'i \<Rightarrow> nat \<Rightarrow> bool"
  assumes at_position: "inv t \<Longrightarrow> at t i j \<Longrightarrow>
      j < length (order t) \<and> is_itr_valid ops t i \<and> get_key_from_itr ops t i = order t ! j"
    and order_keys: "inv t \<Longrightarrow> distinct (order t) \<and> set (order t) = dom (abs t)"
    and begin_at: "inv t \<Longrightarrow>
      \<exists>i. begin_itr ops t = Some i \<and> (if order t = [] then \<not> is_itr_valid ops t i else at t i 0)"
    and increment_at: "inv t \<Longrightarrow> at t i j \<Longrightarrow>
      \<exists>i'. increment_itr ops t i = Some i' \<and>
        (if Suc j < length (order t) then at t i' (Suc j) else \<not> is_itr_valid ops t i')"
    and find_at: "inv t \<Longrightarrow> sh_find ops t key = Some i \<Longrightarrow> is_itr_valid ops t i \<Longrightarrow> \<exists>j. at t i j"

sublocale shim \<subseteq> exiting_shim ops inv abs dflt cap
  by unfold_locales (fact create_inv create_abs erase_law find_law | rule disjI2, fact insert_law)+

sublocale iterable_shim \<subseteq> iterable_exiting_shim ops inv abs dflt cap order at
  by unfold_locales (fact at_law order_law begin_law increment_law find_law_at)+

sublocale iterable_shim \<subseteq> walkable_shim ops inv abs dflt cap "\<lambda>t i. \<exists>j. at t i j"
proof
  show "\<exists>j. at t i j" if "inv t" "sh_find ops t key = Some i" "is_itr_valid ops t i" for t key i
    by (rule find_law_at [OF that])
  show "\<exists>i'. increment_itr ops t i = Some i' \<and> (is_itr_valid ops t i' \<longrightarrow> (\<exists>j. at t i' j))"
    if "inv t" "\<exists>j. at t i j" for t i
    using increment_law [OF that(1)] that(2) by (metis (full_types))
  show "\<exists>i'. begin_itr ops t = Some i' \<and> (\<exists>j. at t i' j)" if "inv t" "\<exists>j. at t i j" for t i
  proof -
    have "order t \<noteq> []" using at_law [OF that(1)] that(2) by auto
    then show ?thesis using begin_law [OF that(1)] by auto
  qed
qed

section \<open>The benchmark's sequences of calls\<close>

record bench_config =
  KEY_COUNT :: nat
  KEY_COUNT_MEASUREMENT_INTERVAL :: nat
  RUN_COUNT :: nat
  DISCARDED_RUNS_COUNT :: nat

definition default_config :: bench_config where
  "default_config = \<lparr>KEY_COUNT = 200000, KEY_COUNT_MEASUREMENT_INTERVAL = 500,
     RUN_COUNT = 14, DISCARDED_RUNS_COUNT = 4\<rparr>"

text \<open>The number of keys \<open>shuffled_unique_key\<close> provides; those from \<open>KEY_COUNT\<close> on are never inserted.\<close>

definition total_keys :: "bench_config \<Rightarrow> nat" where
  "total_keys cfg = KEY_COUNT cfg + KEY_COUNT cfg div KEY_COUNT_MEASUREMENT_INTERVAL cfg * 1000"

text \<open>
  The inner loops visit \<open>cnt\<close> key positions from \<open>l\<close> on: \<open>if( ++k == cnt ) break; if( ++l == hi )
  l = lo;\<close>.
\<close>

fun key_window :: "nat \<Rightarrow> nat \<Rightarrow> nat \<Rightarrow> nat \<Rightarrow> nat list" where
  "key_window 0 lo hi l = []"
| "key_window (Suc cnt) lo hi l = l # key_window cnt lo hi (if l + 1 = hi then lo else l + 1)"

fun run_calls :: "('t \<Rightarrow> 'k \<Rightarrow> 't option) \<Rightarrow> (nat \<Rightarrow> 'k) \<Rightarrow> nat list \<Rightarrow> 't \<Rightarrow> 't option" where
  "run_calls op keys [] t = Some t"
| "run_calls op keys (l # ls) t =
    (case op t (keys l) of None \<Rightarrow> None | Some t \<Rightarrow> run_calls op keys ls t)"

definition bench_insert_nonexisting where
  "bench_insert_nonexisting cfg ops keys = run_calls (sh_insert ops) keys [0..<KEY_COUNT cfg] (create_table ops)"

definition bench_reinsert_after_erasure where
  "bench_reinsert_after_erasure cfg ops keys =
    (case run_calls (sh_insert ops) keys [0..<KEY_COUNT cfg] (create_table ops) of
       None \<Rightarrow> None
     | Some t \<Rightarrow>
        (case run_calls (sh_erase ops) keys [0..<KEY_COUNT cfg - 1] t of
           None \<Rightarrow> None
         | Some t \<Rightarrow> run_calls (sh_insert ops) keys [0..<KEY_COUNT cfg] t))"

text \<open>Erase 1000 keys from the random position \<open>l\<close> on, then insert them again.\<close>

definition erase_and_reinsert where
  "erase_and_reinsert ops keys i l t =
    (case run_calls (sh_erase ops) keys (key_window 1000 0 i l) t of
       None \<Rightarrow> None
     | Some t \<Rightarrow> run_calls (sh_insert ops) keys (key_window 1000 0 i l) t)"

text \<open>
  The outer loop shared by the last two benchmarks: insert key \<open>i\<close>, and after every
  \<open>KEY_COUNT_MEASUREMENT_INTERVAL\<close> insertions do the measured phase with \<open>i\<close> keys in the table.
\<close>

fun bench_loop where
  "bench_loop 0 interval ops keys phase i j t = Some t"
| "bench_loop (Suc c) interval ops keys phase i j t =
    (case sh_insert ops t (keys i) of
       None \<Rightarrow> None
     | Some t \<Rightarrow>
        (if j + 1 = interval
         then (case phase (i + 1) t of
                 None \<Rightarrow> None
               | Some t \<Rightarrow> bench_loop c interval ops keys phase (i + 1) 0 t)
         else bench_loop c interval ops keys phase (i + 1) (j + 1) t))"

definition bench_erase_existing where
  "bench_erase_existing cfg ops keys rnd =
    bench_loop (KEY_COUNT cfg) (KEY_COUNT_MEASUREMENT_INTERVAL cfg) ops keys
      (\<lambda>i. erase_and_reinsert ops keys i (rnd i)) 0 0 (create_table ops)"

text \<open>
  The lookup of an existing key reads key and value through the iterator and calls \<open>exit( 0 )\<close> when
  the key differs from the one asked for: then the result is \<open>False\<close>.
\<close>

fun get_existing :: "('t, 'k, 'v, 'i) shim_ops \<Rightarrow> (nat \<Rightarrow> 'k) \<Rightarrow> nat list \<Rightarrow> 't \<Rightarrow> bool option" where
  "get_existing ops keys [] t = Some True"
| "get_existing ops keys (l # ls) t =
    (case sh_find ops t (keys l) of
       None \<Rightarrow> None
     | Some itr \<Rightarrow> if get_key_from_itr ops t itr \<noteq> keys l then Some False else get_existing ops keys ls t)"

text \<open>The lookup of nonexisting keys counts the valid iterators ("should always be false").\<close>

fun get_nonexisting :: "('t, 'k, 'v, 'i) shim_ops \<Rightarrow> (nat \<Rightarrow> 'k) \<Rightarrow> nat list \<Rightarrow> 't \<Rightarrow> nat option" where
  "get_nonexisting ops keys [] t = Some 0"
| "get_nonexisting ops keys (l # ls) t =
    (case sh_find ops t (keys l) of
       None \<Rightarrow> None
     | Some itr \<Rightarrow> map_option (\<lambda>c. c + (if is_itr_valid ops t itr then 1 else 0)) (get_nonexisting ops keys ls t))"

text \<open>The iteration benchmark: the keys read in \<open>cnt\<close> steps from \<open>itr\<close>, starting over at the end.\<close>

fun iterate_keys :: "('t, 'k, 'v, 'i) shim_ops \<Rightarrow> nat \<Rightarrow> 't \<Rightarrow> 'i \<Rightarrow> 'k list option" where
  "iterate_keys ops 0 t itr = Some []"
| "iterate_keys ops (Suc cnt) t itr =
    (if cnt = 0 then Some [get_key_from_itr ops t itr]
     else (case increment_itr ops t itr of
             None \<Rightarrow> None
           | Some itr' \<Rightarrow>
               (case (if is_itr_valid ops t itr' then Some itr' else begin_itr ops t) of
                  None \<Rightarrow> None
                | Some itr' \<Rightarrow> map_option ((#) (get_key_from_itr ops t itr)) (iterate_keys ops cnt t itr'))))"

text \<open>
  The measured phase of the combined benchmark with \<open>i\<close> keys in the table; \<open>rnd\<close> supplies the five
  random positions. The result is the table, whether no lookup made the program exit, the number
  of valid iterators to nonexisting keys, and the keys read while iterating.
\<close>

definition mixed_phase where
  "mixed_phase cfg ops keys i r_ins r_era r_get r_non r_itr t =
    (case run_calls (sh_insert ops) keys (key_window 1000 0 i r_ins) t of
       None \<Rightarrow> None
     | Some t \<Rightarrow>
     (case run_calls (sh_erase ops) keys (key_window 1000 (KEY_COUNT cfg) (total_keys cfg) r_era) t of
        None \<Rightarrow> None
      | Some t \<Rightarrow>
      (case get_existing ops keys (key_window 1000 0 i r_get) t of
         None \<Rightarrow> None
       | Some ok \<Rightarrow>
       (case get_nonexisting ops keys (key_window 1000 (KEY_COUNT cfg) (total_keys cfg) r_non) t of
          None \<Rightarrow> None
        | Some bad \<Rightarrow>
        (case sh_find ops t (keys r_itr) of
           None \<Rightarrow> None
         | Some itr \<Rightarrow> map_option (\<lambda>ks. (t, ok, bad, ks)) (iterate_keys ops 1000 t itr))))))"

text \<open>
  \<open>adjusted_average_result\<close>: sort the runs' results, drop \<open>DISCARDED_RUNS_COUNT / 2\<close> at either end,
  sum in 64 bits; the pair is the sum and the number it is divided by.
\<close>

definition adjusted_average :: "bench_config \<Rightarrow> nat list \<Rightarrow> nat \<times> nat" where
  "adjusted_average cfg results =
    (let d = DISCARDED_RUNS_COUNT cfg div 2; sorted_results = sort results
     in (wrap64 (sum_list (take (length results - 2 * d) (drop d sorted_results))),
         length results - DISCARDED_RUNS_COUNT cfg))"

subsection \<open>Arbitrary histories\<close>

text \<open>Any sequence of the two calls that change a table, and what it does to the map.\<close>

datatype 'k shim_call = Insert 'k | Erase 'k

fun run_shim :: "('t, 'k, 'v, 'i) shim_ops \<Rightarrow> 'k shim_call list \<Rightarrow> 't \<Rightarrow> 't option" where
  "run_shim ops [] t = Some t"
| "run_shim ops (Insert k # cs) t =
    (case sh_insert ops t k of None \<Rightarrow> None | Some t \<Rightarrow> run_shim ops cs t)"
| "run_shim ops (Erase k # cs) t =
    (case sh_erase ops t k of None \<Rightarrow> None | Some t \<Rightarrow> run_shim ops cs t)"

fun run_map :: "'v \<Rightarrow> 'k shim_call list \<Rightarrow> ('k \<Rightarrow> 'v option) \<Rightarrow> 'k \<Rightarrow> 'v option" where
  "run_map v [] m = m"
| "run_map v (Insert k # cs) m = run_map v cs (m(k \<mapsto> v))"
| "run_map v (Erase k # cs) m = run_map v cs (m(k := None))"

section \<open>Lemmas on windows\<close>

lemma length_key_window: "length (key_window cnt lo hi l) = cnt"
  by (induction cnt lo hi l rule: key_window.induct) auto

lemma set_key_window: "lo \<le> l \<Longrightarrow> l < hi \<Longrightarrow> set (key_window cnt lo hi l) \<subseteq> {lo..<hi}"
proof (induction cnt lo hi l rule: key_window.induct)
  case (2 cnt lo hi l)
  then have "set (key_window cnt lo hi (if l + 1 = hi then lo else l + 1)) \<subseteq> {lo..<hi}"
    by (intro "2.IH") auto
  then show ?case using "2.prems" by auto
qed simp

text \<open>The window is the \<open>cnt\<close> positions after \<open>l\<close>, modulo the size of the range.\<close>

lemma nth_key_window:
  "lo \<le> l \<Longrightarrow> l < hi \<Longrightarrow> k < cnt \<Longrightarrow> key_window cnt lo hi l ! k = lo + (l - lo + k) mod (hi - lo)"
proof (induction cnt lo hi l arbitrary: k rule: key_window.induct)
  case (2 cnt lo hi l)
  show ?case
  proof (cases k)
    case (Suc k')
    let ?l = "if l + 1 = hi then lo else l + 1"
    have "key_window cnt lo hi ?l ! k' = lo + (?l - lo + k') mod (hi - lo)"
      using "2.prems" Suc by (intro "2.IH") auto
    moreover have "(?l - lo + k') mod (hi - lo) = (l - lo + k) mod (hi - lo)"
    proof (cases "l + 1 = hi")
      case True
      then have "l - lo + k = (hi - lo) + k'" using "2.prems" Suc by simp
      then show ?thesis using True by simp
    next
      case False
      then have "l + 1 - lo + k' = l - lo + k" using "2.prems" Suc by simp
      then show ?thesis using False by simp
    qed
    ultimately show ?thesis using Suc by simp
  qed (use "2.prems" in simp)
qed simp

section \<open>What the sequences do on any shim that keeps its contract\<close>

text \<open>The table stands for the map from the keys at the positions \<open>S\<close> to the dummy value.\<close>

definition key_map :: "(nat \<Rightarrow> 'k) \<Rightarrow> 'v \<Rightarrow> nat set \<Rightarrow> 'k \<Rightarrow> 'v option" where
  "key_map keys v S = (\<lambda>k. if k \<in> keys ` S then Some v else None)"

lemma dom_key_map: "dom (key_map keys v S) = keys ` S"
  by (auto simp: key_map_def dom_def)

lemma key_map_insert: "(key_map keys v S)(keys i \<mapsto> v) = key_map keys v (insert i S)"
  by (auto simp: key_map_def)

lemma key_map_remove:
  assumes "inj_on keys D" "S \<subseteq> D" "i \<in> D"
  shows "(key_map keys v S)(keys i := None) = key_map keys v (S - {i})"
proof
  fix k
  have "k \<in> keys ` (S - {i}) \<longleftrightarrow> k \<in> keys ` S \<and> k \<noteq> keys i"
    using assms by (auto dest: inj_onD)
  then show "((key_map keys v S)(keys i := None)) k = key_map keys v (S - {i}) k"
    by (simp add: key_map_def)
qed

lemma key_map_empty: "key_map keys v {} = Map.empty"
  by (simp add: key_map_def)

context exiting_shim
begin

text \<open>Any history of up to \<open>cap\<close> calls either exits or does what it does to the map.\<close>

lemma history_or_exit:
  assumes "inv t" "finite (dom (abs t))" "card (dom (abs t)) + length cs \<le> cap"
  shows "run_shim ops cs t = None \<or>
    (\<exists>t'. run_shim ops cs t = Some t' \<and> inv t' \<and> abs t' = run_map dflt cs (abs t))"
  using assms
proof (induction cs arbitrary: t)
  case (Cons c cs)
  show ?case
  proof (cases c)
    case (Insert k)
    show ?thesis
    proof (cases "sh_insert ops t k")
      case None
      then show ?thesis by (simp add: Insert)
    next
      case (Some t1)
      have "card (dom (abs t)) < cap" using Cons.prems(3) by simp
      then have t1: "inv t1" "abs t1 = (abs t)(k \<mapsto> dflt)"
        using insert_or_exit [OF Cons.prems(1), of k] Some by auto
      have dom: "finite (dom (abs t1))" "card (dom (abs t1)) \<le> Suc (card (dom (abs t)))"
        using Cons.prems(2) by (simp_all add: t1(2) card_insert_if)
      then have "card (dom (abs t1)) + length cs \<le> cap" using Cons.prems(3) by simp
      from Cons.IH [OF t1(1) dom(1) this] show ?thesis
        by (simp only: Insert Some run_shim.simps run_map.simps option.case t1(2))
    qed
  next
    case (Erase k)
    obtain t1 where t1: "sh_erase ops t k = Some t1" "inv t1" "abs t1 = (abs t)(k := None)"
      using erases Cons.prems(1) by blast
    have dom: "finite (dom (abs t1))" using Cons.prems(2) by (simp add: t1(3))
    have "card (dom (abs t1)) \<le> card (dom (abs t))"
      unfolding t1(3) by (rule card_mono) (use Cons.prems(2) in auto)
    then have "card (dom (abs t1)) + length cs \<le> cap" using Cons.prems(3) by simp
    from Cons.IH [OF t1(2) dom this] show ?thesis
      by (simp only: Erase t1 run_shim.simps run_map.simps option.case)
  qed
qed simp

lemma erases_hold:
  assumes "inv t" "abs t = key_map keys dflt S" "inj_on keys D" "set ls \<subseteq> D" "S \<subseteq> D"
  shows "\<exists>t'. run_calls (sh_erase ops) keys ls t = Some t' \<and> inv t' \<and> abs t' = key_map keys dflt (S - set ls)"
  using assms
proof (induction ls arbitrary: t S)
  case (Cons l ls)
  obtain t1 where t1: "sh_erase ops t (keys l) = Some t1" "inv t1" "abs t1 = key_map keys dflt (S - {l})"
    using erases [OF Cons.prems(1)] Cons.prems key_map_remove [OF Cons.prems(3,5), of l]
    by (metis insert_subset list.simps(15))
  have "S - {l} - set ls = S - set (l # ls)" by auto
  then show ?case
    using Cons.IH [OF t1(2,3) Cons.prems(3)] Cons.prems t1(1) by auto
qed simp

lemma find_key:
  assumes "inv t" "abs t = key_map keys dflt S" "inj_on keys D" "S \<subseteq> D" "l \<in> D"
  shows "\<exists>i. sh_find ops t (keys l) = Some i \<and> (is_itr_valid ops t i \<longleftrightarrow> l \<in> S) \<and>
    (l \<in> S \<longrightarrow> get_key_from_itr ops t i = keys l \<and> get_value_from_itr ops t i = dflt)"
proof -
  have "keys l \<in> keys ` S \<longleftrightarrow> l \<in> S" using assms(3-5) by (auto dest: inj_onD)
  then show ?thesis
    using finds [OF assms(1), of "keys l"] assms(2) by (auto simp: key_map_def split: if_splits)
qed

lemma get_existing_ok:
  assumes "inv t" "abs t = key_map keys dflt S" "inj_on keys D" "S \<subseteq> D" "set ls \<subseteq> S"
  shows "get_existing ops keys ls t = Some True"
  using assms(5)
proof (induction ls)
  case (Cons l ls)
  then have "l \<in> S" "l \<in> D" using assms(4) by auto
  with find_key [OF assms(1-4), of l] obtain i where "sh_find ops t (keys l) = Some i"
    "get_key_from_itr ops t i = keys l" by blast
  then show ?case using Cons by simp
qed simp

lemma get_nonexisting_zero:
  assumes "inv t" "abs t = key_map keys dflt S" "inj_on keys D" "S \<subseteq> D" "set ls \<subseteq> D - S"
  shows "get_nonexisting ops keys ls t = Some 0"
  using assms(5)
proof (induction ls)
  case (Cons l ls)
  then have "l \<notin> S" "l \<in> D" by auto
  with find_key [OF assms(1-4), of l] obtain i where "sh_find ops t (keys l) = Some i"
    "\<not> is_itr_valid ops t i" by blast
  then show ?case using Cons by simp
qed simp

end

context shim
begin

lemma history_simulated:
  assumes "inv t" "finite (dom (abs t))" "card (dom (abs t)) + length cs \<le> cap"
  shows "\<exists>t'. run_shim ops cs t = Some t' \<and> inv t' \<and> abs t' = run_map dflt cs (abs t)"
  using assms
proof (induction cs arbitrary: t)
  case (Cons c cs)
  show ?case
  proof (cases c)
    case (Insert k)
    then have "card (dom (abs t)) < cap" using Cons.prems(3) by simp
    then obtain t1 where t1: "sh_insert ops t k = Some t1" "inv t1" "abs t1 = (abs t)(k \<mapsto> dflt)"
      using insert_law Cons.prems(1) by blast
    have dom: "finite (dom (abs t1))" "card (dom (abs t1)) \<le> Suc (card (dom (abs t)))"
      using Cons.prems(2) by (simp_all add: t1(3) card_insert_if)
    then have "card (dom (abs t1)) + length cs \<le> cap" using Cons.prems(3) by simp
    from Cons.IH [OF t1(2) dom(1) this] show ?thesis
      by (simp only: Insert t1 run_shim.simps run_map.simps option.case)
  next
    case (Erase k)
    obtain t1 where t1: "sh_erase ops t k = Some t1" "inv t1" "abs t1 = (abs t)(k := None)"
      using erase_law Cons.prems(1) by blast
    have dom: "finite (dom (abs t1))" using Cons.prems(2) by (simp add: t1(3))
    have "card (dom (abs t1)) \<le> card (dom (abs t))"
      unfolding t1(3) by (rule card_mono) (use Cons.prems(2) in auto)
    then have "card (dom (abs t1)) + length cs \<le> cap" using Cons.prems(3) by simp
    from Cons.IH [OF t1(2) dom this] show ?thesis
      by (simp only: Erase t1 run_shim.simps run_map.simps option.case)
  qed
qed simp

text \<open>From a new table, up to \<open>cap\<close> calls.\<close>

lemma history_lookup:
  assumes "length cs \<le> cap"
  shows "\<exists>t i. run_shim ops cs (create_table ops) = Some t \<and> sh_find ops t key = Some i \<and>
    (is_itr_valid ops t i \<longleftrightarrow> run_map dflt cs Map.empty key \<noteq> None) \<and>
    (is_itr_valid ops t i \<longrightarrow> get_key_from_itr ops t i = key \<and>
      run_map dflt cs Map.empty key = Some (get_value_from_itr ops t i))"
proof -
  obtain t where t: "run_shim ops cs (create_table ops) = Some t" "inv t"
    "abs t = run_map dflt cs Map.empty"
    using history_simulated [OF create_inv] assms by (auto simp: create_abs)
  then show ?thesis using find_law [OF t(2), of key] by auto
qed

lemma inserts_hold:
  assumes "inv t" "abs t = key_map keys dflt S" "finite S" "set ls \<subseteq> {..<n}" "S \<subseteq> {..<n}" "n < cap"
  shows "\<exists>t'. run_calls (sh_insert ops) keys ls t = Some t' \<and> inv t' \<and> abs t' = key_map keys dflt (S \<union> set ls)"
  using assms
proof (induction ls arbitrary: t S)
  case (Cons l ls)
  have "card (keys ` S) \<le> card {..<n}"
    using Cons.prems(3,5) by (meson card_image_le card_mono finite_lessThan order_trans)
  then have "card (dom (abs t)) < cap" using Cons.prems by (simp add: dom_key_map)
  then obtain t1 where t1: "sh_insert ops t (keys l) = Some t1" "inv t1"
    "abs t1 = key_map keys dflt (insert l S)"
    using insert_law [OF Cons.prems(1)] Cons.prems(2) by (metis key_map_insert)
  show ?case
    using Cons.IH [OF t1(2,3)] Cons.prems t1(1) by auto
qed simp

lemma insert_nonexisting_result:
  assumes "KEY_COUNT cfg < cap"
  shows "\<exists>t. bench_insert_nonexisting cfg ops keys = Some t \<and> inv t \<and>
    abs t = key_map keys dflt {..<KEY_COUNT cfg}"
  using inserts_hold [OF create_inv, of keys "{}" "[0..<KEY_COUNT cfg]" "KEY_COUNT cfg"] assms
  by (simp add: bench_insert_nonexisting_def create_abs key_map_empty atLeast0LessThan)

text \<open>After the erasures one key is left; after the reinsertions all are back.\<close>

lemma reinsert_after_erasure_result:
  assumes cap: "KEY_COUNT cfg < cap" and n: "0 < KEY_COUNT cfg" and inj: "inj_on keys {..<KEY_COUNT cfg}"
  shows "\<exists>t1 t2 t3. run_calls (sh_insert ops) keys [0..<KEY_COUNT cfg] (create_table ops) = Some t1 \<and>
    run_calls (sh_erase ops) keys [0..<KEY_COUNT cfg - 1] t1 = Some t2 \<and>
    abs t2 = key_map keys dflt {KEY_COUNT cfg - 1} \<and>
    bench_reinsert_after_erasure cfg ops keys = Some t3 \<and> inv t3 \<and>
    abs t3 = key_map keys dflt {..<KEY_COUNT cfg}"
proof -
  let ?n = "KEY_COUNT cfg"
  obtain t1 where t1: "run_calls (sh_insert ops) keys [0..<?n] (create_table ops) = Some t1" "inv t1"
    "abs t1 = key_map keys dflt {..<?n}"
    using insert_nonexisting_result [OF cap] by (auto simp: bench_insert_nonexisting_def)
  obtain t2 where t2: "run_calls (sh_erase ops) keys [0..<?n - 1] t1 = Some t2" "inv t2"
    "abs t2 = key_map keys dflt ({..<?n} - {..<?n - 1})"
    using erases_hold [OF t1(2,3) inj, of "[0..<?n - 1]"] by (auto simp: atLeast0LessThan)
  have rest: "{..<?n} - {..<?n - 1} = {?n - 1}" using n by auto
  obtain t3 where "run_calls (sh_insert ops) keys [0..<?n] t2 = Some t3" "inv t3"
    "abs t3 = key_map keys dflt ({?n - 1} \<union> {..<?n})"
    using inserts_hold [OF t2(2) t2(3)[unfolded rest], of "[0..<?n]" ?n] n cap
    by (auto simp: atLeast0LessThan)
  moreover have "{?n - 1} \<union> {..<?n} = {..<?n}" using n by auto
  ultimately show ?thesis
    using t1 t2 rest by (simp add: bench_reinsert_after_erasure_def)
qed

lemma erase_and_reinsert_result:
  assumes "inv t" "abs t = key_map keys dflt {..<i}" "inj_on keys {..<i}" "l < i" "i < cap"
  shows "\<exists>t'. erase_and_reinsert ops keys i l t = Some t' \<and> inv t' \<and> abs t' = key_map keys dflt {..<i}"
proof -
  let ?w = "key_window 1000 0 i l"
  have w: "set ?w \<subseteq> {..<i}" using set_key_window [of 0 l i 1000] assms(4) by auto
  obtain t1 where t1: "run_calls (sh_erase ops) keys ?w t = Some t1" "inv t1"
    "abs t1 = key_map keys dflt ({..<i} - set ?w)"
    using erases_hold [OF assms(1-3) w] by auto
  have "{..<i} - set ?w \<union> set ?w = {..<i}" using w by auto
  then show ?thesis
    using inserts_hold [OF t1(2,3) _ w _ assms(5)] t1(1) by (auto simp: erase_and_reinsert_def)
qed

lemma bench_loop_result:
  fixes c i j n interval :: nat
  assumes "\<And>i t. inv t \<Longrightarrow> abs t = key_map keys dflt {..<i} \<Longrightarrow> 0 < i \<Longrightarrow> i \<le> n \<Longrightarrow>
      \<exists>t'. phase i t = Some t' \<and> inv t' \<and> abs t' = key_map keys dflt {..<i}"
    and "inv t" "abs t = key_map keys dflt {..<i}" "i + c \<le> n" "n < cap"
  shows "\<exists>t'. bench_loop c interval ops keys phase i j t = Some t' \<and> inv t' \<and>
    abs t' = key_map keys dflt {..<i + c}"
  using assms(2-4)
proof (induction c arbitrary: i j t)
  case (Suc c)
  have "card (keys ` {..<i}) \<le> i" by (metis card_image_le card_lessThan finite_lessThan)
  then have "card (dom (abs t)) < cap" using Suc.prems assms(5) by (simp add: dom_key_map)
  then obtain t1 where t1: "sh_insert ops t (keys i) = Some t1" "inv t1"
    "abs t1 = key_map keys dflt {..<Suc i}"
    using insert_law [OF Suc.prems(1)] Suc.prems(2) by (metis key_map_insert lessThan_Suc)
  obtain t2 where t2: "phase (Suc i) t1 = Some t2" "inv t2" "abs t2 = key_map keys dflt {..<Suc i}"
    using assms(1) [OF t1(2,3)] Suc.prems(3) by auto
  show ?case
    using Suc.IH [OF t1(2,3), of "Suc j"] Suc.IH [OF t2(2,3), of 0] Suc.prems(3) t1(1) t2(1)
    by (cases "j + 1 = interval") auto
qed simp

lemma erase_existing_result:
  assumes "KEY_COUNT cfg < cap" "inj_on keys {..<KEY_COUNT cfg}" "\<And>i. 0 < i \<Longrightarrow> rnd i < i"
  shows "\<exists>t. bench_erase_existing cfg ops keys rnd = Some t \<and> inv t \<and>
    abs t = key_map keys dflt {..<KEY_COUNT cfg}"
proof -
  have "\<exists>t'. erase_and_reinsert ops keys i (rnd i) t = Some t' \<and> inv t' \<and> abs t' = key_map keys dflt {..<i}"
    if "inv t" "abs t = key_map keys dflt {..<i}" "0 < i" "i \<le> KEY_COUNT cfg" for i t
    using erase_and_reinsert_result [OF that(1,2) _ assms(3) [OF that(3)]] assms(1,2) that(4)
    by (auto intro: inj_on_subset)
  then have "\<exists>t'. bench_loop (KEY_COUNT cfg) (KEY_COUNT_MEASUREMENT_INTERVAL cfg) ops keys
      (\<lambda>i. erase_and_reinsert ops keys i (rnd i)) 0 0 (create_table ops) = Some t' \<and> inv t' \<and>
      abs t' = key_map keys dflt {..<0 + KEY_COUNT cfg}"
    by (rule bench_loop_result [OF _ create_inv, where n = "KEY_COUNT cfg"])
      (simp_all add: create_abs key_map_empty assms(1))
  then show ?thesis by (simp add: bench_erase_existing_def)
qed

lemma find_phase_result:
  assumes t: "inv t" "abs t = key_map keys dflt {..<i}" and inj: "inj_on keys {..<total_keys cfg}"
    and i: "0 < i" "i \<le> KEY_COUNT cfg" and cap: "i < cap"
    and r: "r_ins < i" "r_get < i" "KEY_COUNT cfg \<le> r_era" "r_era < total_keys cfg"
      "KEY_COUNT cfg \<le> r_non" "r_non < total_keys cfg"
  shows "\<exists>t1 t2. run_calls (sh_insert ops) keys (key_window 1000 0 i r_ins) t = Some t1 \<and>
    run_calls (sh_erase ops) keys (key_window 1000 (KEY_COUNT cfg) (total_keys cfg) r_era) t1 = Some t2 \<and>
    inv t2 \<and> abs t2 = key_map keys dflt {..<i} \<and>
    get_existing ops keys (key_window 1000 0 i r_get) t2 = Some True \<and>
    get_nonexisting ops keys (key_window 1000 (KEY_COUNT cfg) (total_keys cfg) r_non) t2 = Some 0"
proof -
  let ?D = "{..<total_keys cfg}" and ?S = "{..<i}"
  have SD: "?S \<subseteq> ?D" using i by (auto simp: total_keys_def)
  have win: "set (key_window 1000 (KEY_COUNT cfg) (total_keys cfg) l) \<subseteq> ?D - ?S"
    if "KEY_COUNT cfg \<le> l" "l < total_keys cfg" for l
    using set_key_window [OF that, of 1000] i(2) by auto
  have low: "set (key_window 1000 0 i l) \<subseteq> ?S" if "l < i" for l
    using set_key_window [of 0 l i 1000] that by auto
  obtain t1 where t1: "run_calls (sh_insert ops) keys (key_window 1000 0 i r_ins) t = Some t1" "inv t1"
    "abs t1 = key_map keys dflt ?S"
    using inserts_hold [OF t _ low [OF r(1)] _ cap] low [OF r(1)] by (auto simp: Un_absorb2)
  have "?S - set (key_window 1000 (KEY_COUNT cfg) (total_keys cfg) r_era) = ?S"
    using win [OF r(3,4)] by auto
  then obtain t2 where t2: "run_calls (sh_erase ops) keys (key_window 1000 (KEY_COUNT cfg) (total_keys cfg) r_era) t1
      = Some t2" "inv t2" "abs t2 = key_map keys dflt ?S"
    using erases_hold [OF t1(2,3) inj _ SD] win [OF r(3,4)] by (metis Diff_subset order_trans)
  show ?thesis
    using t1(1) t2 get_existing_ok [OF t2(2,3) inj SD low [OF r(2)]]
      get_nonexisting_zero [OF t2(2,3) inj SD win [OF r(5,6)]] by blast
qed

end

context iterable_exiting_shim
begin

text \<open>Iteration from any key reads the keys of the table cyclically, never anything else.\<close>

lemma iterate_keys_cyclic:
  assumes "inv t" "at t i j"
  shows "iterate_keys ops cnt t i
    = Some (map (\<lambda>d. order t ! ((j + d) mod length (order t))) [0..<cnt])"
  using assms(2)
proof (induction cnt arbitrary: i j)
  case (Suc cnt)
  let ?n = "length (order t)"
  note here = at_position [OF assms(1) Suc.prems]
  show ?case
  proof (cases "cnt = 0")
    case True
    then show ?thesis using here by simp
  next
    case False
    obtain i' where i': "increment_itr ops t i = Some i'"
      "if Suc j < ?n then at t i' (Suc j) else \<not> is_itr_valid ops t i'"
      using increment_at [OF assms(1) Suc.prems] by blast
    obtain i'' where nxt: "(if is_itr_valid ops t i' then Some i' else begin_itr ops t) = Some i''" "at t i'' (Suc j mod ?n)"
    proof (cases "Suc j < ?n")
      case True
      then show thesis using that [of i'] i'(2) at_position [OF assms(1)] by simp
    next
      case False
      then have "Suc j = ?n" "order t \<noteq> []" using here by auto
      then show thesis using that i'(2) begin_at [OF assms(1)] by auto
    qed
    have "iterate_keys ops cnt t i'' = Some (map (\<lambda>d. order t ! ((j + Suc d) mod ?n)) [0..<cnt])"
      using Suc.IH [OF nxt(2)] by (simp add: mod_add_left_eq)
    then show ?thesis
      using False i'(1) nxt(1) here by (simp add: map_upt_Suc del: upt_Suc)
  qed
qed simp

lemma iterate_only_keys:
  assumes "inv t" "abs t = key_map keys dflt S" "inj_on keys D" "S \<subseteq> D" "l \<in> S"
  shows "\<exists>itr ks. sh_find ops t (keys l) = Some itr \<and> iterate_keys ops cnt t itr = Some ks \<and>
    length ks = cnt \<and> set ks \<subseteq> keys ` S"
proof -
  obtain itr where itr: "sh_find ops t (keys l) = Some itr" "is_itr_valid ops t itr"
    using find_key [OF assms(1-4), of l] assms(4,5) by auto
  then obtain j where j: "at t itr j" using find_at [OF assms(1)] by blast
  have n: "0 < length (order t)" using at_position [OF assms(1) j] by auto
  have "order t ! (d mod length (order t)) \<in> keys ` S" for d
    using order_keys [OF assms(1)] assms(2) n by (metis dom_key_map mod_less_divisor nth_mem)
  then show ?thesis
    using iterate_keys_cyclic [OF assms(1) j, of cnt] itr(1) by auto
qed

text \<open>As many steps as there are keys visit every key exactly once, wherever the iteration starts.\<close>

lemma rotation_indices:
  assumes "j < (n::nat)"
  shows "distinct (map (\<lambda>d. (j + d) mod n) [0..<n])" and "set (map (\<lambda>d. (j + d) mod n) [0..<n]) = {..<n}"
proof -
  have inj: "inj_on (\<lambda>d. (j + d) mod n) {..<n}"
    by (rule inj_onI) (use mod_add_left_cancel [of j _ n] in auto)
  then show "distinct (map (\<lambda>d. (j + d) mod n) [0..<n])"
    by (simp add: distinct_map atLeast0LessThan)
  have "(\<lambda>d. (j + d) mod n) ` {..<n} = {..<n}" by (rule endo_inj_surj [OF _ _ inj]) (use assms in auto)
  then show "set (map (\<lambda>d. (j + d) mod n) [0..<n]) = {..<n}" by (simp add: atLeast0LessThan)
qed

lemma iterate_all_keys:
  assumes "inv t" "sh_find ops t key = Some i" "is_itr_valid ops t i"
  shows "\<exists>ks. iterate_keys ops (card (dom (abs t))) t i = Some ks \<and> distinct ks \<and> set ks = dom (abs t)"
proof -
  obtain j where j: "at t i j" using find_at [OF assms] by blast
  let ?n = "length (order t)"
  note ord = order_keys [OF assms(1)]
  have card: "card (dom (abs t)) = ?n" using ord distinct_card [of "order t"] by simp
  have jn: "j < ?n" using at_position [OF assms(1) j] by simp
  let ?is = "map (\<lambda>d. (j + d) mod ?n) [0..<?n]"
  have ks: "iterate_keys ops ?n t i = Some (map ((!) (order t)) ?is)"
    using iterate_keys_cyclic [OF assms(1) j, of ?n] by (simp add: comp_def)
  have "inj_on ((!) (order t)) {..<?n}" using ord by (simp add: inj_on_nth)
  then have "distinct (map ((!) (order t)) ?is)"
    using rotation_indices [OF jn] by (simp only: distinct_map)
  moreover have "set (map ((!) (order t)) ?is) = set (order t)"
    using rotation_indices(2) [OF jn] by (simp only: set_map) (auto simp: in_set_conv_nth)
  ultimately show ?thesis using ks card ord by simp
qed

end

text \<open>
  \<open>shuffled_unique_key\<close>: the vector of unique keys in an order \<open>shuffled\<close>, the outcome of \<open>std::shuffle\<close>.
\<close>

definition shuffled_unique_key :: "(nat \<Rightarrow> 'k list) \<Rightarrow> bench_config \<Rightarrow> (nat \<Rightarrow> nat) \<Rightarrow> nat \<Rightarrow> 'k" where
  "shuffled_unique_key fill cfg shuffled index = fill (total_keys cfg) ! shuffled index"

text \<open>
  The whole combined benchmark; \<open>rnd i\<close> are the random positions of the phase with \<open>i\<close> keys in the table.
  \<open>exit( 0 )\<close> in a phase gives \<open>None\<close>.
\<close>

definition bench_combined where
  "bench_combined cfg ops keys rnd =
    bench_loop (KEY_COUNT cfg) (KEY_COUNT_MEASUREMENT_INTERVAL cfg) ops keys
      (\<lambda>i t. case rnd i of (r_ins, r_era, r_get, r_non, r_itr) \<Rightarrow>
        (case mixed_phase cfg ops keys i r_ins r_era r_get r_non r_itr t of
           None \<Rightarrow> None
         | Some (t, ok, bad, ks) \<Rightarrow> if ok then Some t else None))
      0 0 (create_table ops)"

text \<open>The ranges of the random positions with \<open>i\<close> keys in the table.\<close>

definition positions_ok :: "bench_config \<Rightarrow> nat \<Rightarrow> nat \<times> nat \<times> nat \<times> nat \<times> nat \<Rightarrow> bool" where
  "positions_ok cfg i = (\<lambda>(r_ins, r_era, r_get, r_non, r_itr). r_ins < i \<and> r_get < i \<and> r_itr < i \<and>
    r_era \<in> {KEY_COUNT cfg..<total_keys cfg} \<and> r_non \<in> {KEY_COUNT cfg..<total_keys cfg})"



text \<open>The three benchmarks that only insert and erase return, and leave the \<open>KEY_COUNT\<close> first keys in the table.\<close>

definition benchmarks_complete where
  "benchmarks_complete cfg ops content dflt keys rnd \<longleftrightarrow>
    (\<forall>result \<in> {bench_insert_nonexisting cfg ops keys, bench_reinsert_after_erasure cfg ops keys,
        bench_erase_existing cfg ops keys rnd}.
      \<exists>t. result = Some t \<and> content t = key_map keys dflt {..<KEY_COUNT cfg})"

context blueprint
begin

lemma shuffled_unique_keys:
  assumes "bij_betw shuffled {..<total_keys cfg} {..<total_keys cfg}" "total_keys cfg \<le> max_keys"
  shows "inj_on (shuffled_unique_key fill_unique_keys cfg shuffled) {..<total_keys cfg}"
proof (rule inj_onI)
  fix x y
  assume xy: "x \<in> {..<total_keys cfg}" "y \<in> {..<total_keys cfg}"
    "shuffled_unique_key fill_unique_keys cfg shuffled x = shuffled_unique_key fill_unique_keys cfg shuffled y"
  have "shuffled z < total_keys cfg" if "z \<in> {..<total_keys cfg}" for z
    using assms(1) that by (auto simp: bij_betw_def)
  then have "shuffled x = shuffled y"
    using xy fill_distinct [OF assms(2)] by (simp add: shuffled_unique_key_def nth_eq_iff_index_eq fill_length)
  then show "x = y" using assms(1) xy(1,2) by (auto simp: bij_betw_def inj_on_def)
qed

end

context shim
begin

lemma completes:
  assumes "KEY_COUNT cfg < cap" "0 < KEY_COUNT cfg" "inj_on keys {..<KEY_COUNT cfg}" "\<And>i. 0 < i \<Longrightarrow> rnd i < i"
  shows "benchmarks_complete cfg ops abs dflt keys rnd"
  using insert_nonexisting_result [OF assms(1), of keys] reinsert_after_erasure_result [OF assms(1-3)]
    erase_existing_result [OF assms(1,3,4)]
  unfolding benchmarks_complete_def by blast

end

context walkable_shim
begin

lemma iterate_returns:
  assumes "inv t" "safe t i"
  shows "\<exists>ks. iterate_keys ops cnt t i = Some ks \<and> length ks = cnt"
  using assms(2)
proof (induction cnt arbitrary: i)
  case (Suc cnt)
  obtain i1 where i1: "increment_itr ops t i = Some i1" "is_itr_valid ops t i1 \<Longrightarrow> safe t i1"
    using increment_safe [OF assms(1) Suc.prems] by blast
  obtain i2 where "(if is_itr_valid ops t i1 then Some i1 else begin_itr ops t) = Some i2" "safe t i2"
    using i1(2) begin_safe [OF assms(1) Suc.prems] by (cases "is_itr_valid ops t i1") auto
  then show ?case using i1(1) Suc.IH [of i2] by auto
qed simp

lemma mixed_phase_returns:
  assumes t: "inv t" "abs t = key_map keys dflt {..<i}" and inj: "inj_on keys {..<total_keys cfg}"
    and i: "0 < i" "i \<le> KEY_COUNT cfg" and cap: "i < cap"
    and r: "positions_ok cfg i (r_ins, r_era, r_get, r_non, r_itr)"
  shows "\<exists>t' ks. mixed_phase cfg ops keys i r_ins r_era r_get r_non r_itr t = Some (t', True, 0, ks) \<and>
    inv t' \<and> abs t' = key_map keys dflt {..<i} \<and> length ks = 1000"
proof -
  have r': "r_ins < i" "r_get < i" "KEY_COUNT cfg \<le> r_era" "r_era < total_keys cfg"
      "KEY_COUNT cfg \<le> r_non" "r_non < total_keys cfg" "r_itr < i"
    using r by (simp_all add: positions_ok_def)
  have sub: "{..<i} \<subseteq> {..<total_keys cfg}" using i by (auto simp: total_keys_def)
  obtain t1 t2 where t12: "run_calls (sh_insert ops) keys (key_window 1000 0 i r_ins) t = Some t1"
    "run_calls (sh_erase ops) keys (key_window 1000 (KEY_COUNT cfg) (total_keys cfg) r_era) t1 = Some t2"
    "inv t2" "abs t2 = key_map keys dflt {..<i}"
    "get_existing ops keys (key_window 1000 0 i r_get) t2 = Some True"
    "get_nonexisting ops keys (key_window 1000 (KEY_COUNT cfg) (total_keys cfg) r_non) t2 = Some 0"
    using find_phase_result [OF t inj i cap r'(1-6)] by blast
  obtain itr where itr: "sh_find ops t2 (keys r_itr) = Some itr" "is_itr_valid ops t2 itr"
    using find_key [OF t12(3,4) inj sub, of r_itr] r'(7) sub by auto
  obtain ks where "iterate_keys ops 1000 t2 itr = Some ks" "length ks = 1000"
    using iterate_returns [OF t12(3) find_safe [OF t12(3) itr]] by blast
  then show ?thesis using t12 itr(1) by (simp add: mixed_phase_def)
qed

lemma combined_result:
  assumes "KEY_COUNT cfg < cap" "inj_on keys {..<total_keys cfg}"
    "\<And>i. 0 < i \<Longrightarrow> i \<le> KEY_COUNT cfg \<Longrightarrow> positions_ok cfg i (rnd i)"
  shows "\<exists>t. bench_combined cfg ops keys rnd = Some t \<and> inv t \<and> abs t = key_map keys dflt {..<KEY_COUNT cfg}"
proof -
  let ?phase = "\<lambda>i t. case rnd i of (r_ins, r_era, r_get, r_non, r_itr) \<Rightarrow>
        (case mixed_phase cfg ops keys i r_ins r_era r_get r_non r_itr t of
           None \<Rightarrow> None
         | Some (t, ok, bad, ks) \<Rightarrow> if ok then Some t else None)"
  have "\<exists>t'. ?phase i t = Some t' \<and> inv t' \<and> abs t' = key_map keys dflt {..<i}"
    if "inv t" "abs t = key_map keys dflt {..<i}" "0 < i" "i \<le> KEY_COUNT cfg" for i t
  proof -
    obtain r1 r2 r3 r4 r5 where r: "rnd i = (r1, r2, r3, r4, r5)" by (metis surj_pair)
    show ?thesis
      using mixed_phase_returns [OF that(1,2) assms(2) that(3,4) _ assms(3) [OF that(3,4), unfolded r]] that(4) assms(1)
      by (auto simp: r)
  qed
  then have "\<exists>t'. bench_loop (KEY_COUNT cfg) (KEY_COUNT_MEASUREMENT_INTERVAL cfg) ops keys ?phase 0 0 (create_table ops) = Some t' \<and>
      inv t' \<and> abs t' = key_map keys dflt {..<0 + KEY_COUNT cfg}"
    by (rule bench_loop_result [OF _ create_inv, where n = "KEY_COUNT cfg"])
      (simp_all add: create_abs key_map_empty assms(1))
  then show ?thesis by (simp add: bench_combined_def)
qed

end

end
