(* ===== verification/Khash_Shim.thy ===== *)
theory Khash_Shim
  imports Khash_Correct Benchmark
begin

text \<open>
  \<open>src/shims/khash/shim.h\<close>: the shim over khash, the proof that it keeps the insertion, lookup and
  erasure part of the shim contract for each of the three blueprints, iteration, and the properties
  of khash itself. The load factor is the \<open>MAX_LOAD_FACTOR\<close> the shim puts in place of khash's 0.77.
\<close>

section \<open>The shim\<close>

text \<open>
  \<open>kh_value( table, itr ) = blueprint::value_type()\<close> after \<open>kh_put\<close>; when \<open>kh_put\<close> failed, the
  iterator is the end and the assignment is out of bounds: \<open>None\<close>.
\<close>

definition kh_insert_call where
  "kh_insert_call hf cf mem dflt h key =
    (case kh_put hf cf mem h key of
       None \<Rightarrow> None
     | Some (h, itr, ret) \<Rightarrow>
         if itr < length (h_vals h) then Some (h\<lparr>h_vals := (h_vals h)[itr := dflt]\<rparr>) else None)"

definition kh_erase_call where
  "kh_erase_call hf cf h key =
    map_option (\<lambda>itr. if itr \<noteq> kh_end h then kh_del h itr else h) (kh_get hf cf h key)"

text \<open>
  \<open>increment_itr\<close>'s \<open>do\<close> loop; from the end or beyond it leaves the flag array, which the fuel turns
  into \<open>None\<close>.
\<close>

fun kh_increment_loop :: "nat \<Rightarrow> ('k, 'v) kh \<Rightarrow> nat \<Rightarrow> nat option" where
  "kh_increment_loop 0 h itr = None"
| "kh_increment_loop (Suc fuel) h itr =
    (let itr = wrap32 (itr + 1)
     in if itr \<noteq> kh_end h \<and> \<not> kh_exist h itr then kh_increment_loop fuel h itr else Some itr)"

definition kh_increment :: "('k, 'v) kh \<Rightarrow> nat \<Rightarrow> nat option" where
  "kh_increment h itr = kh_increment_loop (kh_end h) h itr"

text \<open>\<open>mem\<close> tells what the allocator does on a call, for every table it is called with.\<close>

definition kh_shim_ops ::
  "('k \<Rightarrow> u64) \<Rightarrow> ('k \<Rightarrow> 'k \<Rightarrow> bool) \<Rightarrow> (('k, 'v) kh \<Rightarrow> ('k, 'v) kh_mem) \<Rightarrow> 'v
     \<Rightarrow> (('k, 'v) kh, 'k, 'v, nat) shim_ops" where
  "kh_shim_ops hf cf mem dflt =
    \<lparr>create_table = kh_init,
     sh_insert = (\<lambda>h. kh_insert_call hf cf (mem h) dflt h),
     sh_erase = kh_erase_call hf cf,
     sh_find = kh_get hf cf,
     begin_itr = (\<lambda>h. Some (kh_begin h)),
     is_itr_valid = (\<lambda>h itr. itr \<noteq> kh_end h),
     increment_itr = kh_increment,
     get_key_from_itr = kh_key,
     get_value_from_itr = kh_val\<rparr>"

section \<open>The contract\<close>

definition kh_ok :: "('k \<Rightarrow> u64) \<Rightarrow> ('k, 'v) kh \<Rightarrow> bool" where
  "kh_ok hf h \<longleftrightarrow> kh_inv hf h \<and> n_buckets h \<le> 2 ^ 30"

lemma kh_size_card: "kh_inv hf h \<Longrightarrow> h_size h = card (dom (kh_map h))"
proof (cases "n_buckets h = 0")
  case True
  assume "kh_inv hf h"
  then show ?thesis using True by (auto simp: kh_inv_def kh_map_def entries_def)
next
  case False
  assume "kh_inv hf h"
  then have ok: "kh_table_ok hf h" using False by (auto simp: kh_inv_def)
  let ?l = "entries (n_buckets h) (kh_live (h_flags h)) (kh_entry (h_keys h) (h_vals h))"
  have "dom (kh_map h) = set (map fst ?l)" by (simp add: kh_map_def dom_map_of_conv_image_fst)
  moreover have "distinct (map fst ?l)" using ok by (simp add: distinct_entries kh_table_ok_def)
  ultimately show ?thesis
    using ok distinct_card [of "map fst ?l"] by (simp add: length_entries kh_table_ok_def)
qed

lemma kh_set_value:
  assumes inv: "kh_inv hf h" and x: "x < n_buckets h" "kh_exist h x"
  shows "kh_inv hf (h\<lparr>h_vals := (h_vals h)[x := v]\<rparr>)" and "x < length (h_vals h)"
    and "kh_map (h\<lparr>h_vals := (h_vals h)[x := v]\<rparr>) = (kh_map h)(kh_key h x \<mapsto> v)"
proof -
  have live: "kh_live (h_flags h) x" using x(2) by (simp add: kh_exist_def not_iseither)
  have ok: "kh_table_ok hf h" using inv x(1) by (auto simp: kh_inv_def)
  then have inj: "keys_inj (n_buckets h) (kh_live (h_flags h)) (kh_entry (h_keys h) (h_vals h))"
    and len: "x < length (h_vals h)"
    using x(1) by (simp_all add: kh_table_ok_def)
  note put = entries_put [OF inj x(1), of "kh_live (h_flags h)" "kh_entry (h_keys h) ((h_vals h)[x := v])"
      "kh_key h x" v]
  have new: "keys_inj (n_buckets h) (kh_live (h_flags h)) (kh_entry (h_keys h) ((h_vals h)[x := v]))"
    by (rule put(1)) (use live len keys_injD [OF inj] x in \<open>auto simp: kh_entry_def kh_key_def\<close>)
  show "kh_map (h\<lparr>h_vals := (h_vals h)[x := v]\<rparr>) = (kh_map h)(kh_key h x \<mapsto> v)"
    unfolding kh_map_def
    by (simp, rule put(2)) (use live len keys_injD [OF inj] x in \<open>auto simp: kh_entry_def kh_key_def\<close>)
  show "kh_inv hf (h\<lparr>h_vals := (h_vals h)[x := v]\<rparr>)"
    using inv ok new by (auto simp: kh_inv_def kh_table_ok_def)
  show "x < length (h_vals h)" by (rule len)
qed

lemma kh_insert_call_correct:
  assumes ok: "kh_ok hf h" and size: "card (dom (kh_map h)) < 2 ^ 28" and mem: "kh_mem_ok mem"
  shows "\<exists>h'. kh_insert_call hf (=) mem dflt h key = Some h' \<and> kh_ok hf h' \<and>
    kh_map h' = (kh_map h)(key \<mapsto> dflt)"
proof -
  have inv: "kh_inv hf h" and nb: "n_buckets h \<le> 2 ^ 30" using ok by (simp_all add: kh_ok_def)
  have sz: "h_size h < 2 ^ 28" using size kh_size_card [OF inv] by simp
  then have "h_size h < 2 ^ 29" by simp
  from kh_put_correct [OF inv this mem nb, of key] obtain h' x ret where
    put: "kh_put hf (=) mem h key = Some (h', x, ret)" and inv': "kh_inv hf h'"
    and x: "x < n_buckets h'" "kh_exist h' x" "kh_key h' x = key"
    and map: "kh_map h' = (if kh_map h key = None then (kh_map h)(key \<mapsto> kh_val h' x) else kh_map h)"
    and nb': "n_buckets h' \<le> max (n_buckets h) (4 * (h_size h + 1))"
    by (auto split: if_splits)
  have "4 * (h_size h + 1) \<le> 2 ^ 30" using sz by simp
  then have "n_buckets h' \<le> 2 ^ 30" using nb nb' by simp
  then show ?thesis
    using put kh_set_value(1,3) [OF inv' x(1,2), of dflt] kh_set_value(2) [OF inv' x(1,2)] x(3) map
    by (auto simp: kh_insert_call_def kh_ok_def)
qed

lemma kh_erase_call_correct:
  assumes "kh_ok hf h"
  shows "\<exists>h'. kh_erase_call hf (=) h key = Some h' \<and> kh_ok hf h' \<and> kh_map h' = (kh_map h)(key := None)"
proof -
  have inv: "kh_inv hf h" using assms by (simp add: kh_ok_def)
  obtain x where x: "kh_get hf (=) h key = Some x"
    "case kh_map h key of None \<Rightarrow> x = n_buckets h
     | Some v \<Rightarrow> x < n_buckets h \<and> kh_exist h x \<and> kh_key h x = key \<and> kh_val h x = v"
    using kh_get_correct [OF inv] by blast
  show ?thesis
  proof (cases "kh_map h key")
    case None
    then show ?thesis using x assms by (auto simp: kh_erase_call_def kh_end_def fun_eq_iff)
  next
    case (Some v)
    then show ?thesis
      using x assms kh_del_correct [OF inv, of x] by (auto simp: kh_erase_call_def kh_end_def kh_ok_def)
  qed
qed

lemma kh_shim_keeps_contract:
  assumes "\<And>h. kh_mem_ok (mem h)"
  shows "shim (kh_shim_ops hf (=) mem dflt) (kh_ok hf) kh_map dflt (2 ^ 28)"
proof
  let ?ops = "kh_shim_ops hf (=) mem dflt"
  show "kh_ok hf (create_table ?ops)"
    using kh_inv_init by (simp add: kh_shim_ops_def kh_ok_def) (simp add: kh_init_def)
  show "kh_map (create_table ?ops) = Map.empty" by (simp add: kh_shim_ops_def kh_map_init)
  show "\<exists>t'. sh_insert ?ops t key = Some t' \<and> kh_ok hf t' \<and> kh_map t' = (kh_map t)(key \<mapsto> dflt)"
    if "kh_ok hf t" "card (dom (kh_map t)) < 2 ^ 28" for t key
    using kh_insert_call_correct [OF that assms] by (simp add: kh_shim_ops_def)
  show "\<exists>t'. sh_erase ?ops t key = Some t' \<and> kh_ok hf t' \<and> kh_map t' = (kh_map t)(key := None)"
    if "kh_ok hf t" for t key
    using kh_erase_call_correct [OF that] by (simp add: kh_shim_ops_def)
  show "\<exists>i. sh_find ?ops t key = Some i \<and> (is_itr_valid ?ops t i \<longleftrightarrow> kh_map t key \<noteq> None) \<and>
      (is_itr_valid ?ops t i \<longrightarrow>
        get_key_from_itr ?ops t i = key \<and> kh_map t key = Some (get_value_from_itr ?ops t i))"
    if "kh_ok hf t" for t key
    using kh_get_correct [of hf t key] that
    by (auto simp: kh_shim_ops_def kh_ok_def kh_end_def split: option.splits)
qed

text \<open>An allocator that never fails, whose fresh memory holds the given key and value.\<close>

definition kh_good_mem :: "'k \<Rightarrow> 'v \<Rightarrow> ('k, 'v) kh_mem" where
  "kh_good_mem fk fv =
    \<lparr>flags_ok = True, keys_ok = True, vals_ok = True, fresh_key = fk, fresh_val = fv\<rparr>"

lemma kh_good_mem_ok [simp]: "kh_mem_ok (kh_good_mem fk fv)"
  by (simp add: kh_mem_ok_def kh_good_mem_def)

section \<open>Iteration\<close>

text \<open>The buckets with a key, in index order.\<close>

definition kh_order :: "('k, 'v) kh \<Rightarrow> nat list" where
  "kh_order h = filter (kh_exist h) [0..<n_buckets h]"

lemma kh_increment_loop_result:
  assumes "i < n" "n - i \<le> fuel" "n = n_buckets h" "n \<le> 2 ^ 31"
  shows "kh_increment_loop fuel h i = Some (case filter (kh_exist h) [Suc i..<n] of [] \<Rightarrow> n | j # _ \<Rightarrow> j)"
  using assms
proof (induction fuel arbitrary: i)
  case (Suc fuel)
  then have w: "wrap32 (Suc i) = Suc i" by simp
  show ?case
  proof (cases "Suc i < n")
    case True
    then have up: "[Suc i..<n] = Suc i # [Suc (Suc i)..<n]" by (simp add: upt_conv_Cons)
    have "kh_increment_loop fuel h (Suc i)
        = Some (case filter (kh_exist h) [Suc (Suc i)..<n] of [] \<Rightarrow> n | j # _ \<Rightarrow> j)"
      if "\<not> kh_exist h (Suc i)"
      using Suc True by (intro Suc.IH) auto
    then show ?thesis using True Suc.prems(3) unfolding up by (simp add: w kh_end_def Let_def)
  next
    case False
    then have "Suc i = n" using Suc.prems by simp
    then show ?thesis using w Suc.prems(3) by (simp add: kh_end_def Let_def)
  qed
qed simp


lemma kh_order_step:
  assumes "kh_ok hf h" "j < length (kh_order h)"
  shows "kh_increment h (kh_order h ! j)
    = Some (if Suc j < length (kh_order h) then kh_order h ! Suc j else kh_end h)"
proof -
  have "kh_order h ! j \<in> set (kh_order h)" using assms(2) by simp
  then have i: "kh_order h ! j < n_buckets h" by (simp add: kh_order_def)
  have n: "n_buckets h \<le> 2 ^ 31" using assms(1) by (simp add: kh_ok_def)
  have "filter (kh_exist h) [Suc (kh_order h ! j)..<n_buckets h] = drop (Suc j) (kh_order h)"
    unfolding kh_order_def by (rule filter_upt_after) (use assms(2) in \<open>simp add: kh_order_def\<close>)
  then show ?thesis
    using kh_increment_loop_result [OF i _ refl n, of "n_buckets h"]
    by (cases "Suc j < length (kh_order h)")
      (simp_all add: kh_increment_def kh_end_def Cons_nth_drop_Suc [symmetric])
qed

text \<open>\<open>kh_foreach\<close> visits the entries in the same order.\<close>

lemma kh_foreach_from_fold:
  "kh_foreach_from c h i code s
    = fold (\<lambda>x. code (kh_key h x) (kh_val h x)) (filter (kh_exist h) [i..<i + c]) s"
proof (induction c arbitrary: i s)
  case (Suc c)
  have "[i..<i + Suc c] = i # [Suc i..<Suc i + c]" by (simp add: upt_conv_Cons)
  then show ?case using Suc by simp
qed simp

lemma kh_order_entries:
  "map (\<lambda>x. (kh_key h x, kh_val h x)) (kh_order h)
    = entries (n_buckets h) (kh_live (h_flags h)) (kh_entry (h_keys h) (h_vals h))"
proof -
  have "kh_exist h = kh_live (h_flags h)" by (rule ext) (simp add: kh_exist_def not_iseither)
  moreover have "(\<lambda>x. (kh_key h x, kh_val h x)) = kh_entry (h_keys h) (h_vals h)"
    by (rule ext) (simp add: kh_entry_def kh_key_def kh_val_def)
  ultimately show ?thesis by (simp only: kh_order_def entries_def)
qed


text \<open>
  Every bucket of the array is safe to read and to advance from, also one without a key: \<open>begin_itr\<close>
  gives bucket 0 whether or not it exists, and reading it gives whatever the key array holds there.
\<close>

lemma kh_increment_returns:
  assumes "kh_ok hf h" "i < n_buckets h"
  shows "\<exists>i'. kh_increment h i = Some i' \<and> i' \<le> kh_end h"
proof -
  let ?l = "filter (kh_exist h) [Suc i..<n_buckets h]"
  have n: "n_buckets h \<le> 2 ^ 31" using assms(1) by (simp add: kh_ok_def)
  have "j \<le> n_buckets h" if "?l = j # l" for j l
  proof -
    have "j \<in> set ?l" by (simp only: that list.set_intros)
    then show ?thesis by simp
  qed
  then show ?thesis
    using kh_increment_loop_result [OF assms(2) _ refl n, of "n_buckets h"]
    by (simp add: kh_increment_def kh_end_def split: list.split)
qed

lemma kh_shim_walkable:
  assumes "\<And>h. kh_mem_ok (mem h)"
  shows "walkable_shim (kh_shim_ops hf (=) mem dflt) (kh_ok hf) kh_map dflt (2 ^ 28) (\<lambda>h i. i < n_buckets h)"
proof (intro walkable_shim.intro walkable_shim_axioms.intro kh_shim_keeps_contract [OF assms])
  let ?ops = "kh_shim_ops hf (=) mem dflt"
  show "i < n_buckets t" if "kh_ok hf t" "sh_find ?ops t key = Some i" "is_itr_valid ?ops t i" for t key i
    using kh_get_correct [of hf t key] that
    by (auto simp: kh_shim_ops_def kh_ok_def kh_end_def split: option.splits)
  show "\<exists>i'. increment_itr ?ops t i = Some i' \<and> (is_itr_valid ?ops t i' \<longrightarrow> i' < n_buckets t)"
    if "kh_ok hf t" "i < n_buckets t" for t i
    using kh_increment_returns [OF that] by (auto simp: kh_shim_ops_def kh_end_def)
  show "\<exists>i'. begin_itr ?ops t = Some i' \<and> i' < n_buckets t" if "kh_ok hf t" "i < n_buckets t" for t i
    using that(2) by (simp add: kh_shim_ops_def kh_begin_def)
qed

interpretation kh_uint32: walkable_shim "kh_shim_ops hash_key_uint32 cmpr_keys_uint32 (\<lambda>h. kh_good_mem fk fv) dflt"
  "kh_ok hash_key_uint32" kh_map dflt "2 ^ 28" "\<lambda>h i. i < n_buckets h" for fk and fv dflt :: u32
  unfolding bp_uint32.cmpr_is_eq by (rule kh_shim_walkable) simp

interpretation kh_uint64: walkable_shim "kh_shim_ops hash_key_uint64 cmpr_keys_uint64 (\<lambda>h. kh_good_mem fk fv) dflt"
  "kh_ok hash_key_uint64" kh_map dflt "2 ^ 28" "\<lambda>h i. i < n_buckets h" for fk and fv dflt :: "u8 list"
  unfolding bp_uint64.cmpr_is_eq by (rule kh_shim_walkable) simp

interpretation kh_cstring: walkable_shim "kh_shim_ops hash_key_cstring cmpr_keys_cstring (\<lambda>h. kh_good_mem fk fv) dflt"
  "kh_ok hash_key_cstring" kh_map dflt "2 ^ 28" "\<lambda>h i. i < n_buckets h" for fk and fv dflt :: u64
  unfolding bp_cstring.cmpr_is_eq by (rule kh_shim_walkable) simp

section \<open>An example table\<close>

text \<open>Keys 1, 2 and 3 inserted, 2 erased: four buckets, one of them deleted.\<close>

definition kh_example_ops :: "((u32, u32) kh, u32, u32, nat) shim_ops" where
  "kh_example_ops = kh_shim_ops hash_key_uint32 cmpr_keys_uint32 (\<lambda>h. kh_good_mem 0 0) 0"

definition kh_example :: "(u32, u32) kh" where
  "kh_example = the (run_shim kh_example_ops [Insert 1, Insert 2, Insert 3, Erase 2] kh_init)"

lemma kh_example_ok: "kh_ok hash_key_uint32 kh_example"
  and kh_example_map: "kh_map kh_example = [1 \<mapsto> 0, 3 \<mapsto> 0]"
proof -
  have "\<exists>t. run_shim kh_example_ops [Insert 1, Insert 2, Insert 3, Erase 2] kh_init = Some t \<and>
      kh_ok hash_key_uint32 t \<and> kh_map t = run_map 0 [Insert 1, Insert 2, Insert 3, Erase 2] (kh_map kh_init)"
    unfolding kh_example_ops_def
    by (rule kh_uint32.history_simulated) (simp_all add: kh_map_init kh_ok_def kh_inv_init, simp add: kh_init_def)
  then show "kh_ok hash_key_uint32 kh_example" "kh_map kh_example = [1 \<mapsto> 0, 3 \<mapsto> 0]"
    by (auto simp: kh_example_def kh_map_init fun_eq_iff)
qed

lemma kh_example_inv: "kh_inv hash_key_uint32 kh_example"
  and kh_example_small: "n_buckets kh_example \<le> 2 ^ 30" "h_size kh_example < 2 ^ 29"
proof -
  show inv: "kh_inv hash_key_uint32 kh_example" and "n_buckets kh_example \<le> 2 ^ 30"
    using kh_example_ok by (simp_all add: kh_ok_def)
  have "dom (kh_map kh_example) = {1, 3}" by (simp add: kh_example_map insert_commute)
  then show "h_size kh_example < 2 ^ 29" using kh_size_card [OF inv] by simp
qed

text \<open>Key 3 alone: it sits in bucket 2, and buckets 0, 1 and 3 are empty.\<close>

definition kh_single :: "(u32, u32) kh" where
  "kh_single = \<lparr>n_buckets = 4, h_size = 1, n_occupied = 1, upper_bound = 4, h_flags = [0xaaaaaa8a],
     h_keys = [0, 0, 3, 0], h_vals = [0, 0, 0, 0]\<rparr>"

lemma kh_single_run: "run_shim kh_example_ops [Insert 3] kh_init = Some kh_single"
  by code_simp

lemma kh_single_ok: "kh_ok hash_key_uint32 kh_single"
  and kh_single_map: "kh_map kh_single = [3 \<mapsto> 0]"
proof -
  have "\<exists>t. run_shim kh_example_ops [Insert 3] kh_init = Some t \<and>
      kh_ok hash_key_uint32 t \<and> kh_map t = run_map 0 [Insert 3] (kh_map kh_init)"
    unfolding kh_example_ops_def
    by (rule kh_uint32.history_simulated) (simp_all add: kh_map_init kh_ok_def kh_inv_init, simp add: kh_init_def)
  then show "kh_ok hash_key_uint32 kh_single" "kh_map kh_single = [3 \<mapsto> 0]"
    unfolding kh_single_run by (auto simp: kh_map_init)
qed

section \<open>Properties\<close>

text \<open>C1: khash behind its shim implements a map: after any sequence of up to \<open>2 ^ 28\<close> insertions
  and erasures of C-string keys, starting from a new table and with allocations that succeed, every
  call has returned, and \<open>find\<close> gives a valid iterator exactly to the keys the same sequence leaves
  in the map, with the value the shim stored.\<close>

theorem khash_shim_implements_map:
  fixes fv dflt :: u64
  assumes "length calls \<le> 2 ^ 28"
  shows "\<exists>h itr.
    run_shim (kh_shim_ops hash_key_cstring cmpr_keys_cstring (\<lambda>h. kh_good_mem fk fv) dflt) calls kh_init = Some h \<and>
    kh_get hash_key_cstring cmpr_keys_cstring h key = Some itr \<and>
    (itr \<noteq> kh_end h \<longleftrightarrow> run_map dflt calls Map.empty key \<noteq> None) \<and>
    (itr \<noteq> kh_end h \<longrightarrow> kh_key h itr = key \<and> run_map dflt calls Map.empty key = Some (kh_val h itr))"
  using kh_cstring.history_lookup [OF assms, where fk = fk and fv = fv and dflt = dflt and key = key] by (simp add: kh_shim_ops_def)

theorem khash_shim_implements_map_witness:
  "\<exists>h itr.
    run_shim (kh_shim_ops hash_key_cstring cmpr_keys_cstring (\<lambda>h. kh_good_mem (mk_cstr []) 0) (7 :: u64))
      [Insert (mk_cstr [97]), Insert (mk_cstr [98]), Erase (mk_cstr [97])] kh_init = Some h \<and>
    kh_get hash_key_cstring cmpr_keys_cstring h (mk_cstr [98]) = Some itr \<and>
    itr \<noteq> kh_end h \<and> kh_key h itr = mk_cstr [98] \<and> kh_val h itr = 7"
proof -
  have "mk_cstr [98] \<noteq> mk_cstr [97]" by (subst mk_cstr_inj) simp_all
  then show ?thesis
    using khash_shim_implements_map [of "[Insert (mk_cstr [97]), Insert (mk_cstr [98]), Erase (mk_cstr [97])]"
        "mk_cstr []" 0 7 "mk_cstr [98]"] by auto
qed

text \<open>C14: \<open>kh_put\<close> with any allocator. It returns; if it reports -1 the map is what it was;
  otherwise the returned bucket exists and holds the key, the return code is 0 exactly when the key
  was there before, and the map gains nothing but the key.\<close>

theorem khash_put_any_allocator:
  assumes "kh_inv hf h" and "h_size h < 2 ^ 29" and "n_buckets h \<le> 2 ^ 30"
  shows "\<exists>h' x ret. kh_put hf (=) mem h key = Some (h', x, ret) \<and> kh_inv hf h' \<and>
    (if ret = -1 then x = n_buckets h' \<and> kh_map h' = kh_map h
     else x < n_buckets h' \<and> kh_exist h' x \<and> kh_key h' x = key \<and>
       (if kh_map h key = None then ret \<in> {1, 2} \<and> kh_map h' = (kh_map h)(key \<mapsto> kh_val h' x)
        else ret = 0 \<and> kh_map h' = kh_map h))"
  by (rule kh_put_any_memory [OF assms])

theorem khash_put_any_allocator_witness:
  "\<exists>h' x ret. kh_put hash_key_uint32 (=) ((kh_good_mem 0 0)\<lparr>vals_ok := False\<rparr>) kh_example 3 = Some (h', x, ret) \<and>
    ret \<in> {0, -1} \<and> kh_map h' = [1 \<mapsto> 0, 3 \<mapsto> 0]"
  using khash_put_any_allocator [OF kh_example_inv kh_example_small(2,1), of "(kh_good_mem 0 0)\<lparr>vals_ok := False\<rparr>" 3]
  by (auto simp: kh_example_map split: if_splits)

text \<open>\<open>kh_get\<close> returns on every table that satisfies the invariant, also when no bucket is
  empty, and gives the bucket of the key, or \<open>kh_end\<close> exactly when the map lacks it.\<close>

theorem khash_get_finds:
  assumes "kh_inv hf h"
  shows "\<exists>x. kh_get hf (=) h key = Some x \<and>
    (case kh_map h key of
       None \<Rightarrow> x = kh_end h
     | Some v \<Rightarrow> x < n_buckets h \<and> kh_exist h x \<and> kh_key h x = key \<and> kh_val h x = v)"
  unfolding kh_end_def by (rule kh_get_correct [OF assms])

theorem khash_get_finds_witness:
  "\<exists>x. kh_get hash_key_uint32 (=) kh_example 2 = Some x \<and> x = kh_end kh_example"
  using khash_get_finds [OF kh_example_inv, of 2] by (simp add: kh_example_map)

text \<open>C16: \<open>kh_resize\<close> to any request up to \<open>2 ^ 31\<close>, growing, shrinking or rehashing in place,
  terminates and keeps the invariant and every entry, whatever the allocator answers, provided only
  that the unchecked \<open>realloc\<close> calls of a shrink succeed.\<close>

theorem khash_resize_keeps_entries:
  assumes "kh_inv hf h" and "1 \<le> x" and "x \<le> 2 ^ 31"
    and "kh_round x < n_buckets h \<Longrightarrow> keys_ok mem \<and> vals_ok mem"
  shows "\<exists>h' r. kh_resize hf mem h x = Some (h', r) \<and> kh_inv hf h' \<and> kh_map h' = kh_map h \<and> r \<in> {0, -1}"
  using kh_resize_safe [OF assms] by auto

theorem khash_resize_keeps_entries_witness:
  "\<exists>h' r. kh_resize hash_key_uint32 (kh_good_mem 0 0) kh_example 5 = Some (h', r) \<and>
    kh_map h' = [1 \<mapsto> 0, 3 \<mapsto> 0]"
proof -
  have "\<exists>h' r. kh_resize hash_key_uint32 (kh_good_mem 0 0) kh_example 5 = Some (h', r) \<and>
      kh_inv hash_key_uint32 h' \<and> kh_map h' = kh_map kh_example \<and> r \<in> {0, -1}"
    by (rule khash_resize_keeps_entries [OF kh_example_inv]) (simp_all add: kh_good_mem_def)
  then show ?thesis unfolding kh_example_map by blast
qed

text \<open>\<open>kh_del\<close> of an existing bucket removes its key and nothing else and counts one entry
  less; of any other bucket, the end included, it changes nothing.\<close>

theorem khash_del_removes:
  assumes "kh_inv hf h" and "x \<le> n_buckets h"
  shows "if x < n_buckets h \<and> kh_exist h x
    then kh_inv hf (kh_del h x) \<and> kh_map (kh_del h x) = (kh_map h)(kh_key h x := None) \<and>
      h_size h = h_size (kh_del h x) + 1
    else kh_del h x = h"
proof (cases "x < n_buckets h \<and> kh_exist h x")
  case True
  note del = kh_del_correct [OF assms(1), of x]
  have ok: "kh_table_ok hf h" using True assms(1) by (auto simp: kh_inv_def)
  have "kh_key h x \<in> dom (kh_map h)"
    using kh_map_at [OF ok] True by (simp add: kh_exist_def kh_key_def not_iseither domIff)
  moreover have "finite (dom (kh_map h))" by (simp add: kh_map_def finite_dom_map_of)
  ultimately have "card (dom (kh_map h)) = Suc (card (dom (kh_map h) - {kh_key h x}))"
    by (rule card.remove [rotated])
  moreover have "dom (kh_map (kh_del h x)) = dom (kh_map h) - {kh_key h x}"
    using del(2) True by (simp only: dom_fun_upd simp_thms if_True)
  ultimately have "h_size h = h_size (kh_del h x) + 1"
    using True kh_size_card [OF assms(1)] kh_size_card [OF del(1)] by (simp only: Suc_eq_plus1)
  then show ?thesis using True del by (simp only: simp_thms if_True)
next
  case False
  then show ?thesis using assms(2) by (auto simp: kh_del_def kh_exist_def)
qed

theorem khash_del_removes_witness:
  "kh_del kh_example (n_buckets kh_example) = kh_example"
  using khash_del_removes [OF kh_example_inv, of "n_buckets kh_example"] by simp

text \<open>The shim's iterator walks the existing buckets: there is a list of the buckets with a key,
  each key of the map once, along which \<open>increment_itr\<close> steps and which it leaves for \<open>kh_end\<close>, and
  \<open>kh_foreach\<close> visits the same buckets in the same order.\<close>

theorem khash_iteration_visits_each_key:
  assumes "kh_ok hf h"
  shows "\<exists>bs. distinct (map (kh_key h) bs) \<and> kh_key h ` set bs = dom (kh_map h) \<and>
    (\<forall>j < length bs. kh_increment h (bs ! j) = Some (if Suc j < length bs then bs ! Suc j else kh_end h)) \<and>
    (\<forall>f (s :: 's). kh_foreach h f s = fold (\<lambda>b. f (kh_key h b) (kh_val h b)) bs s)"
proof (intro exI conjI allI impI)
  let ?l = "entries (n_buckets h) (kh_live (h_flags h)) (kh_entry (h_keys h) (h_vals h))"
  have inj: "distinct (map fst ?l)"
    using assms kh_inv_base(1) [of hf h] by (simp add: kh_ok_def distinct_entries)
  have keys: "map (kh_key h) (kh_order h) = map fst ?l" by (simp add: kh_order_entries [symmetric])
  show "distinct (map (kh_key h) (kh_order h))" using inj keys by simp
  show "kh_key h ` set (kh_order h) = dom (kh_map h)"
    using arg_cong [OF keys, of set] by (simp add: kh_map_def dom_map_of_conv_image_fst)
  show "kh_increment h (kh_order h ! j) = Some (if Suc j < length (kh_order h) then kh_order h ! Suc j else kh_end h)"
    if "j < length (kh_order h)" for j
    by (rule kh_order_step [OF assms that])
  show "kh_foreach h f s = fold (\<lambda>b. f (kh_key h b) (kh_val h b)) (kh_order h) s" for f and s :: 's
    by (simp add: kh_foreach_def kh_foreach_from_fold kh_order_def kh_end_def kh_begin_def)
qed

theorem khash_iteration_visits_each_key_witness:
  "\<exists>bs. distinct (map (kh_key kh_example) bs) \<and> kh_key kh_example ` set bs = {1, 3} \<and>
    kh_foreach kh_example (\<lambda>k v n. n + k) 0 = fold (\<lambda>b n. n + kh_key kh_example b) bs 0"
proof -
  have "dom (kh_map kh_example) = {1, 3}" by (simp add: kh_example_map insert_commute)
  moreover obtain bs where "distinct (map (kh_key kh_example) bs)"
    "kh_key kh_example ` set bs = dom (kh_map kh_example)"
    "\<And>f (s :: u32). kh_foreach kh_example f s
       = fold (\<lambda>b. f (kh_key kh_example b) (kh_val kh_example b)) bs s"
    using khash_iteration_visits_each_key [OF kh_example_ok, where 's = u32] by blast
  ultimately show ?thesis by (intro exI [of _ bs]) simp
qed

text \<open>\<open>begin_itr\<close> does not keep the promise of the README ("Returns an iterator to the first
  key"): on a table with one key it gives a valid iterator to a bucket without a key.\<close>

theorem khash_begin_is_no_key:
  "\<exists>(h :: (u32, u32) kh) itr. kh_ok hash_key_uint32 h \<and> dom (kh_map h) \<noteq> {} \<and>
    begin_itr (kh_shim_ops hash_key_uint32 cmpr_keys_uint32 (\<lambda>h. kh_good_mem 0 0) 0) h = Some itr \<and>
    itr \<noteq> kh_end h \<and> \<not> kh_exist h itr"
proof (intro exI conjI)
  show "kh_ok hash_key_uint32 kh_single" by (rule kh_single_ok)
  show "dom (kh_map kh_single) \<noteq> {}" by (simp add: kh_single_map)
  show "begin_itr (kh_shim_ops hash_key_uint32 cmpr_keys_uint32 (\<lambda>h. kh_good_mem 0 0) 0) kh_single = Some 0"
    by (simp add: kh_shim_ops_def kh_begin_def)
qed (simp_all add: kh_end_def kh_exist_def kh_single_def ac_iseither_def ac_field_def)

text \<open>The two flag bits of a bucket are independent of those of every other bucket: each of
  \<open>__ac_set_isdel_true\<close> and \<open>__ac_set_isboth_false\<close> changes what the tests report for that bucket only,
  and a table fresh from \<open>memset( 0xaa )\<close> has all buckets empty and none deleted.\<close>

lemma khash_flags_independent:
  assumes "i < 2 ^ k" and "j < 2 ^ k" and "length flag = ac_fsize (2 ^ k)"
  shows "ac_isempty (flags_all_empty (2 ^ k)) j \<and> \<not> ac_isdel (flags_all_empty (2 ^ k)) j \<and>
    ac_isdel (ac_set_isdel_true flag i) j = (j = i \<or> ac_isdel flag j) \<and>
    ac_isempty (ac_set_isdel_true flag i) j = ac_isempty flag j \<and>
    ac_isdel (ac_set_isboth_false flag i) j = (j \<noteq> i \<and> ac_isdel flag j) \<and>
    ac_isempty (ac_set_isboth_false flag i) j = (j \<noteq> i \<and> ac_isempty flag j)"
  using flags_all_empty_bits [OF assms(2)] ac_fsize_covers [OF assms(1)] assms(3)
  by (simp add: isdel_updates isempty_updates)

text \<open>\<open>kroundup32\<close> gives the least power of two that is at least its argument for arguments from
  1 to \<open>2 ^ 31\<close>, and 0 for every larger one, so that \<open>kh_resize\<close> then asks for four buckets.\<close>

theorem kroundup32_least_power:
  assumes "1 \<le> x" and "x \<le> 2 ^ 31"
  shows "(\<exists>L. unat (kroundup32 (of_nat x)) = 2 ^ L \<and> {M. x \<le> 2 ^ M} = {L..}) \<and>
    kroundup32 (2 ^ 31 + 1) = 0 \<and> kh_round (2 ^ 31 + 1) = 4"
proof (intro conjI)
  obtain L where L: "unat (kroundup32 (of_nat x)) = 2 ^ L" "x \<le> 2 ^ L" "L = 0 \<or> 2 ^ (L - 1) < x"
    using kroundup32_power [OF assms] by metis
  have "L \<le> M" if "x \<le> 2 ^ M" for M
  proof (rule ccontr)
    assume "\<not> L \<le> M"
    then have "(2::nat) ^ M \<le> 2 ^ (L - 1)" by (intro power_increasing) auto
    moreover have "2 ^ (L - 1) < x" using L(3) \<open>\<not> L \<le> M\<close> by auto
    ultimately show False using that by linarith
  qed
  moreover have "x \<le> 2 ^ M" if "L \<le> M" for M
  proof -
    have "(2::nat) ^ L \<le> 2 ^ M" using that by (intro power_increasing) auto
    then show ?thesis by (rule order_trans [OF L(2)])
  qed
  ultimately show "\<exists>L. unat (kroundup32 (of_nat x)) = 2 ^ L \<and> {M. x \<le> 2 ^ M} = {L..}"
    using L(1) by (intro exI [of _ L]) auto
qed (code_simp, code_simp)

theorem kroundup32_least_power_witness:
  "\<exists>L. unat (kroundup32 (of_nat 600)) = 2 ^ L \<and> {M. 600 \<le> (2::nat) ^ M} = {L..}"
  using kroundup32_least_power [of 600] by simp

end
