(* ===== verification/Hmap.thy ===== *)
theory Hmap
  imports Prelude "HOL-Library.Log_Nat"
begin

text \<open>
  The hash map of the bundled STC library, \<open>src/shims/stc_hmap/stc/hmap.h\<close>: closed hashing with
  linear probing, one byte of metadata per bucket, and erasure by shifting entries back instead of
  tombstones. The type parameters are those of the shim: keys and values are plain data, so cloning
  copies and dropping does nothing, and raw keys are keys. \<open>hf\<close> is \<open>i_hash\<close>, \<open>eq\<close> is \<open>i_eq\<close>.
  Pointers into \<open>table\<close> and \<open>slot\<close> are indices, null is \<open>None\<close>. A result \<open>None\<close> of an operation as a
  whole means that the C code leaves the arrays or does not return.
\<close>

section \<open>State\<close>

text \<open>
  \<open>slots\<close> has \<open>bucket_count + 1\<close> bytes: 0 for an empty bucket, otherwise \<open>hash | 0x80\<close>; the last one
  is the sentinel of the iterators. Both arrays are \<open>[]\<close> when their pointers are null.
\<close>

record ('k, 'v) hm =
  hm_table :: "('k \<times> 'v) list"
  hm_slot :: "u8 list"
  hm_size :: nat
  bucket_count :: nat

record ('k, 'v) hm_mem =
  table_ok :: bool
  slot_ok :: bool
  fresh_value :: "'k \<times> 'v"

text \<open>\<open>_m_result\<close>: the bucket, whether the key has to be written there, and its metadata byte.\<close>

record hm_result =
  res_ref :: "nat option"
  inserted :: bool
  res_hashx :: u8

definition no_result :: hm_result where
  "no_result = \<lparr>res_ref = None, inserted = False, res_hashx = 0\<rparr>"

section \<open>Capacity arithmetic\<close>

text \<open>
  The conversion of a count to \<open>float\<close>: 24 significant bits, halfway cases to the even neighbour.
\<close>

definition float_of_count :: "nat \<Rightarrow> nat" where
  "float_of_count n =
    (if n < 2 ^ 24 then n
     else (let e = floorlog 2 n - 24; q = n div 2 ^ e; r = n mod 2 ^ e
           in (if 2 ^ e < 2 * r \<or> 2 * r = 2 ^ e \<and> odd q then q + 1 else q) * 2 ^ e))"

text \<open>
  \<open>(intptr_t)((float)n * i_max_load_factor)\<close> with the shim's factor 0.875: the product of a
  24-bit significand and 7/8 is exact in a \<open>double\<close>, and the conversion truncates.
\<close>

definition hm_limit :: "nat \<Rightarrow> nat" where
  "hm_limit n = 7 * float_of_count n div 8"

text \<open>
  \<open>(intptr_t)((float)n / i_max_load_factor)\<close>: the quotient is rounded to 53 bits before the
  truncation, which cannot reach the next integer for counts below \<open>2 ^ 48\<close>. The definition takes the
  exact fraction; \<open>hm_newbucks\<close> rounds what it gives up to a power of two.
\<close>

definition hm_request :: "nat \<Rightarrow> nat" where
  "hm_request n = 8 * float_of_count n div 7"

definition c_next_pow2 :: "u64 \<Rightarrow> u64" where
  "c_next_pow2 n =
    (let n = n - 1; n = n OR drop_bit 1 n; n = n OR drop_bit 2 n; n = n OR drop_bit 4 n;
         n = n OR drop_bit 8 n; n = n OR drop_bit 16 n; n = n OR drop_bit 32 n
     in n + 1)"

definition fastrange_2 :: "u64 \<Rightarrow> nat \<Rightarrow> nat" where
  "fastrange_2 x n = unat (x AND (of_nat n - 1))"

section \<open>Lookup\<close>

definition hm_hashx :: "u64 \<Rightarrow> u8" where
  "hm_hashx hash = ucast (hash OR 0x80)"

definition hm_init :: "('k, 'v) hm" where
  "hm_init = \<lparr>hm_table = [], hm_slot = [], hm_size = 0, bucket_count = 0\<rparr>"

fun hm_bucket_loop :: "nat \<Rightarrow> ('k \<Rightarrow> 'k \<Rightarrow> bool) \<Rightarrow> ('k, 'v) hm \<Rightarrow> 'k \<Rightarrow> u8 \<Rightarrow> nat \<Rightarrow> hm_result option" where
  "hm_bucket_loop 0 eq m rkey hx idx = None"
| "hm_bucket_loop (Suc fuel) eq m rkey hx idx =
    (if hm_slot m ! idx \<noteq> 0
     then (if hm_slot m ! idx = hx \<and> eq (fst (hm_table m ! idx)) rkey
           then Some \<lparr>res_ref = Some idx, inserted = False, res_hashx = hx\<rparr>
           else hm_bucket_loop fuel eq m rkey hx (if idx + 1 = bucket_count m then 0 else idx + 1))
     else Some \<lparr>res_ref = Some idx, inserted = True, res_hashx = hx\<rparr>)"

text \<open>\<open>_bucket_\<close>; with no buckets it would read through a null pointer.\<close>

definition hm_bucket :: "('k \<Rightarrow> u64) \<Rightarrow> ('k \<Rightarrow> 'k \<Rightarrow> bool) \<Rightarrow> ('k, 'v) hm \<Rightarrow> 'k \<Rightarrow> hm_result option" where
  "hm_bucket hf eq m rkey =
    (if bucket_count m = 0 then None
     else hm_bucket_loop (bucket_count m + 1) eq m rkey (hm_hashx (hf rkey)) (fastrange_2 (hf rkey) (bucket_count m)))"

text \<open>\<open>_get\<close> and \<open>_find\<close>: the bucket of the key or null.\<close>

definition hm_get :: "('k \<Rightarrow> u64) \<Rightarrow> ('k \<Rightarrow> 'k \<Rightarrow> bool) \<Rightarrow> ('k, 'v) hm \<Rightarrow> 'k \<Rightarrow> nat option option" where
  "hm_get hf eq m rkey =
    (if hm_size m \<noteq> 0
     then map_option (\<lambda>b. if \<not> inserted b then res_ref b else None) (hm_bucket hf eq m rkey)
     else Some None)"

definition hm_contains :: "('k \<Rightarrow> u64) \<Rightarrow> ('k \<Rightarrow> 'k \<Rightarrow> bool) \<Rightarrow> ('k, 'v) hm \<Rightarrow> 'k \<Rightarrow> bool option" where
  "hm_contains hf eq m rkey =
    (if hm_size m \<noteq> 0 then map_option (\<lambda>b. \<not> inserted b) (hm_bucket hf eq m rkey) else Some False)"

text \<open>\<open>_at\<close>: the assertion fails with \<open>None\<close> when the key is absent.\<close>

definition hm_at :: "('k \<Rightarrow> u64) \<Rightarrow> ('k \<Rightarrow> 'k \<Rightarrow> bool) \<Rightarrow> ('k, 'v) hm \<Rightarrow> 'k \<Rightarrow> 'v option" where
  "hm_at hf eq m rkey =
    (case hm_bucket hf eq m rkey of
       None \<Rightarrow> None
     | Some b \<Rightarrow> if inserted b then None else map_option (\<lambda>i. snd (hm_table m ! i)) (res_ref b))"

section \<open>Insertion\<close>

text \<open>The rehash loop of \<open>_reserve\<close>: \<open>c\<close> buckets of the old table from \<open>i\<close> on go into \<open>m\<close>.\<close>

fun hm_rehash :: "nat \<Rightarrow> ('k \<Rightarrow> u64) \<Rightarrow> ('k \<Rightarrow> 'k \<Rightarrow> bool) \<Rightarrow> ('k, 'v) hm \<Rightarrow> nat \<Rightarrow> ('k, 'v) hm \<Rightarrow> ('k, 'v) hm option" where
  "hm_rehash 0 hf eq old i m = Some m"
| "hm_rehash (Suc c) hf eq old i m =
    (if hm_slot old ! i \<noteq> 0
     then (case hm_bucket hf eq m (fst (hm_table old ! i)) of
             None \<Rightarrow> None
           | Some b \<Rightarrow>
               (case res_ref b of
                  None \<Rightarrow> None
                | Some x \<Rightarrow>
                    hm_rehash c hf eq old (i + 1)
                      (m\<lparr>hm_slot := (hm_slot m)[x := res_hashx b], hm_table := (hm_table m)[x := hm_table old ! i]\<rparr>)))
     else hm_rehash c hf eq old (i + 1) m)"

definition hm_newbucks :: "nat \<Rightarrow> nat" where
  "hm_newbucks newcap = unat (c_next_pow2 (of_nat (hm_request newcap + 4)))"

text \<open>A new table with the sentinel written.\<close>

definition hm_fresh :: "('k, 'v) hm_mem \<Rightarrow> nat \<Rightarrow> nat \<Rightarrow> ('k, 'v) hm" where
  "hm_fresh mem sz n =
    \<lparr>hm_table = replicate n (fresh_value mem), hm_slot = (replicate (n + 1) 0)[n := 0xff],
     hm_size = sz, bucket_count = n\<rparr>"

definition hm_reserve :: "('k \<Rightarrow> u64) \<Rightarrow> ('k \<Rightarrow> 'k \<Rightarrow> bool) \<Rightarrow> ('k, 'v) hm_mem \<Rightarrow> ('k, 'v) hm \<Rightarrow> nat \<Rightarrow> (('k, 'v) hm \<times> bool) option" where
  "hm_reserve hf eq mem m newcap =
    (if newcap \<noteq> hm_size m \<and> newcap \<le> bucket_count m then Some (m, True)
     else if table_ok mem \<and> slot_ok mem
     then map_option (\<lambda>m'. (m', True))
            (hm_rehash (bucket_count m) hf eq m 0 (hm_fresh mem (hm_size m) (hm_newbucks newcap)))
     else Some (m, False))"

definition hm_insert_entry :: "('k \<Rightarrow> u64) \<Rightarrow> ('k \<Rightarrow> 'k \<Rightarrow> bool) \<Rightarrow> ('k, 'v) hm_mem \<Rightarrow> ('k, 'v) hm \<Rightarrow> 'k \<Rightarrow> (('k, 'v) hm \<times> hm_result) option" where
  "hm_insert_entry hf eq mem m rkey =
    (case (if hm_size m \<ge> hm_limit (bucket_count m)
           then hm_reserve hf eq mem m (hm_size m * 3 div 2 + 2) else Some (m, True)) of
       None \<Rightarrow> None
     | Some (m, ok) \<Rightarrow>
         if \<not> ok then Some (m, no_result)
         else (case hm_bucket hf eq m rkey of
                 None \<Rightarrow> None
               | Some b \<Rightarrow>
                   (case res_ref b of
                      None \<Rightarrow> None
                    | Some x \<Rightarrow>
                        Some (if inserted b
                              then m\<lparr>hm_slot := (hm_slot m)[x := res_hashx b], hm_size := hm_size m + 1\<rparr>
                              else m, b))))"

text \<open>Writing key and value through the reference of a result.\<close>

definition put_value :: "hm_result \<Rightarrow> ('k \<times> 'v \<Rightarrow> 'k \<times> 'v) \<Rightarrow> ('k, 'v) hm \<Rightarrow> ('k, 'v) hm" where
  "put_value b f m =
    (case res_ref b of None \<Rightarrow> m
     | Some x \<Rightarrow> m\<lparr>hm_table := (hm_table m)[x := f (hm_table m ! x)]\<rparr>)"

definition hm_insert :: "('k \<Rightarrow> u64) \<Rightarrow> ('k \<Rightarrow> 'k \<Rightarrow> bool) \<Rightarrow> ('k, 'v) hm_mem \<Rightarrow> ('k, 'v) hm \<Rightarrow> 'k \<Rightarrow> 'v \<Rightarrow> (('k, 'v) hm \<times> hm_result) option" where
  "hm_insert hf eq mem m key mapped =
    map_option (\<lambda>(m, b). (if inserted b then put_value b (\<lambda>_. (key, mapped)) m else m, b))
      (hm_insert_entry hf eq mem m key)"

text \<open>\<open>_insert_or_assign\<close>: without a reference the value goes to a local variable.\<close>

definition hm_insert_or_assign :: "('k \<Rightarrow> u64) \<Rightarrow> ('k \<Rightarrow> 'k \<Rightarrow> bool) \<Rightarrow> ('k, 'v) hm_mem \<Rightarrow> ('k, 'v) hm \<Rightarrow> 'k \<Rightarrow> 'v \<Rightarrow> (('k, 'v) hm \<times> hm_result) option" where
  "hm_insert_or_assign hf eq mem m key mapped =
    map_option
      (\<lambda>(m, b). (put_value b (\<lambda>kv. (if inserted b then key else fst kv, mapped)) m, b))
      (hm_insert_entry hf eq mem m key)"

definition hm_emplace_or_assign :: "('k \<Rightarrow> u64) \<Rightarrow> ('k \<Rightarrow> 'k \<Rightarrow> bool) \<Rightarrow> ('k, 'v) hm_mem \<Rightarrow> ('k, 'v) hm \<Rightarrow> 'k \<Rightarrow> 'v \<Rightarrow> (('k, 'v) hm \<times> hm_result) option" where
  "hm_emplace_or_assign hf eq mem m rkey rmapped =
    map_option
      (\<lambda>(m, b).
        (if inserted b then put_value b (\<lambda>kv. (fst kv, rmapped)) (put_value b (\<lambda>kv. (rkey, snd kv)) m)
         else if res_ref b = None then m
         else put_value b (\<lambda>kv. (fst kv, rmapped)) m, b))
      (hm_insert_entry hf eq mem m rkey)"

text \<open>\<open>_push\<close> returns the reference.\<close>

definition hm_push :: "('k \<Rightarrow> u64) \<Rightarrow> ('k \<Rightarrow> 'k \<Rightarrow> bool) \<Rightarrow> ('k, 'v) hm_mem \<Rightarrow> ('k, 'v) hm \<Rightarrow> 'k \<times> 'v \<Rightarrow> (('k, 'v) hm \<times> nat option) option" where
  "hm_push hf eq mem m val =
    map_option (\<lambda>(m, b). (if inserted b then put_value b (\<lambda>_. val) m else m, res_ref b))
      (hm_insert_entry hf eq mem m (fst val))"

text \<open>\<open>_put_n\<close> and \<open>_from_n\<close>; \<open>mem\<close> is asked anew for every element.\<close>

fun hm_put_n :: "('k \<Rightarrow> u64) \<Rightarrow> ('k \<Rightarrow> 'k \<Rightarrow> bool) \<Rightarrow> (('k, 'v) hm \<Rightarrow> ('k, 'v) hm_mem) \<Rightarrow> ('k, 'v) hm \<Rightarrow> ('k \<times> 'v) list \<Rightarrow> ('k, 'v) hm option" where
  "hm_put_n hf eq mem m [] = Some m"
| "hm_put_n hf eq mem m (r # raw) =
    (case hm_emplace_or_assign hf eq (mem m) m (fst r) (snd r) of
       None \<Rightarrow> None
     | Some (m, b) \<Rightarrow> hm_put_n hf eq mem m raw)"

definition hm_from_n :: "('k \<Rightarrow> u64) \<Rightarrow> ('k \<Rightarrow> 'k \<Rightarrow> bool) \<Rightarrow> (('k, 'v) hm \<Rightarrow> ('k, 'v) hm_mem) \<Rightarrow> ('k \<times> 'v) list \<Rightarrow> ('k, 'v) hm option" where
  "hm_from_n hf eq mem raw = hm_put_n hf eq mem hm_init raw"

definition hm_with_capacity :: "('k \<Rightarrow> u64) \<Rightarrow> ('k \<Rightarrow> 'k \<Rightarrow> bool) \<Rightarrow> ('k, 'v) hm_mem \<Rightarrow> nat \<Rightarrow> ('k, 'v) hm option" where
  "hm_with_capacity hf eq mem cap = map_option fst (hm_reserve hf eq mem hm_init cap)"

definition hm_shrink_to_fit :: "('k \<Rightarrow> u64) \<Rightarrow> ('k \<Rightarrow> 'k \<Rightarrow> bool) \<Rightarrow> ('k, 'v) hm_mem \<Rightarrow> ('k, 'v) hm \<Rightarrow> (('k, 'v) hm \<times> bool) option" where
  "hm_shrink_to_fit hf eq mem m = hm_reserve hf eq mem m (hm_size m)"

section \<open>Erasure\<close>

text \<open>
  The loop of \<open>_erase_entry\<close>: \<open>i\<close> is the hole, \<open>j\<close> the bucket looked at last; the result is the
  table and the bucket to clear.
\<close>

fun hm_shift_back :: "nat \<Rightarrow> ('k \<Rightarrow> u64) \<Rightarrow> ('k, 'v) hm \<Rightarrow> nat \<Rightarrow> nat \<Rightarrow> (('k, 'v) hm \<times> nat) option" where
  "hm_shift_back 0 hf m i j = None"
| "hm_shift_back (Suc fuel) hf m i j =
    (let j = (if j + 1 = bucket_count m then 0 else j + 1)
     in if hm_slot m ! j = 0 then Some (m, i)
        else (let k = fastrange_2 (hf (fst (hm_table m ! j))) (bucket_count m)
              in if (j < i) \<noteq> ((k \<le> i) \<noteq> (j < k))
                 then hm_shift_back fuel hf
                        (m\<lparr>hm_table := (hm_table m)[i := hm_table m ! j], hm_slot := (hm_slot m)[i := hm_slot m ! j]\<rparr>)
                        j j
                 else hm_shift_back fuel hf m i j))"

definition hm_erase_entry :: "('k \<Rightarrow> u64) \<Rightarrow> ('k, 'v) hm \<Rightarrow> nat \<Rightarrow> ('k, 'v) hm option" where
  "hm_erase_entry hf m val =
    map_option (\<lambda>(m, i). m\<lparr>hm_slot := (hm_slot m)[i := 0], hm_size := hm_size m - 1\<rparr>)
      (hm_shift_back (bucket_count m) hf m val val)"

text \<open>\<open>_erase\<close> also returns how many keys it removed.\<close>

definition hm_erase :: "('k \<Rightarrow> u64) \<Rightarrow> ('k \<Rightarrow> 'k \<Rightarrow> bool) \<Rightarrow> ('k, 'v) hm \<Rightarrow> 'k \<Rightarrow> (('k, 'v) hm \<times> int) option" where
  "hm_erase hf eq m rkey =
    (if hm_size m \<noteq> 0
     then (case hm_bucket hf eq m rkey of
             None \<Rightarrow> None
           | Some b \<Rightarrow>
               (if \<not> inserted b
                then (case res_ref b of None \<Rightarrow> None
                      | Some x \<Rightarrow> map_option (\<lambda>m. (m, 1)) (hm_erase_entry hf m x))
                else Some (m, 0)))
     else Some (m, 0))"

text \<open>\<open>_clear\<close> empties the metadata of the buckets and leaves the sentinel.\<close>

definition hm_clear :: "('k, 'v) hm \<Rightarrow> ('k, 'v) hm" where
  "hm_clear m =
    m\<lparr>hm_size := 0, hm_slot := replicate (bucket_count m) 0 @ drop (bucket_count m) (hm_slot m)\<rparr>"

section \<open>Iteration\<close>

text \<open>An iterator is its bucket; \<open>it.ref == NULL\<close> is \<open>None\<close>. \<open>_end\<close> and \<open>_sref\<close> follow from the table.\<close>

fun hm_scan :: "nat \<Rightarrow> ('k, 'v) hm \<Rightarrow> nat \<Rightarrow> nat option" where
  "hm_scan 0 m i = None"
| "hm_scan (Suc fuel) m i = (if hm_slot m ! i = 0 then hm_scan fuel m (i + 1) else Some i)"

definition hm_iter_at :: "('k, 'v) hm \<Rightarrow> nat \<Rightarrow> nat option" where
  "hm_iter_at m i = (if i = bucket_count m then None else Some i)"

definition hm_begin :: "('k, 'v) hm \<Rightarrow> nat option option" where
  "hm_begin m =
    (if hm_slot m = [] then Some (hm_iter_at m 0)
     else map_option (hm_iter_at m) (hm_scan (bucket_count m + 1) m 0))"

text \<open>\<open>_next\<close> of an iterator that is not at the end.\<close>

definition hm_next :: "('k, 'v) hm \<Rightarrow> nat option \<Rightarrow> nat option option" where
  "hm_next m it =
    (case it of
       None \<Rightarrow> None
     | Some i \<Rightarrow> map_option (hm_iter_at m) (hm_scan (bucket_count m) m (i + 1)))"

fun hm_advance :: "('k, 'v) hm \<Rightarrow> nat option \<Rightarrow> nat \<Rightarrow> nat option option" where
  "hm_advance m it 0 = Some it"
| "hm_advance m it (Suc n) =
    (if it = None then Some it
     else (case hm_next m it of None \<Rightarrow> None | Some it \<Rightarrow> hm_advance m it n))"

definition hm_erase_at :: "('k \<Rightarrow> u64) \<Rightarrow> ('k, 'v) hm \<Rightarrow> nat \<Rightarrow> (('k, 'v) hm \<times> nat option) option" where
  "hm_erase_at hf m i =
    (case hm_erase_entry hf m i of
       None \<Rightarrow> None
     | Some m \<Rightarrow>
         if hm_slot m ! i = 0 then map_option (Pair m) (hm_next m (Some i)) else Some (m, Some i))"

fun hm_eq_loop :: "nat \<Rightarrow> ('k \<Rightarrow> u64) \<Rightarrow> ('k \<Rightarrow> 'k \<Rightarrow> bool) \<Rightarrow> ('k, 'v) hm \<Rightarrow> ('k, 'v) hm \<Rightarrow> nat option \<Rightarrow> bool option" where
  "hm_eq_loop 0 hf eq m other it = None"
| "hm_eq_loop (Suc fuel) hf eq m other it =
    (case it of
       None \<Rightarrow> Some True
     | Some i \<Rightarrow>
         (case hm_contains hf eq other (fst (hm_table m ! i)) of
            None \<Rightarrow> None
          | Some found \<Rightarrow>
              if \<not> found then Some False
              else (case hm_next m it of None \<Rightarrow> None | Some it \<Rightarrow> hm_eq_loop fuel hf eq m other it)))"

definition hm_eq :: "('k \<Rightarrow> u64) \<Rightarrow> ('k \<Rightarrow> 'k \<Rightarrow> bool) \<Rightarrow> ('k, 'v) hm \<Rightarrow> ('k, 'v) hm \<Rightarrow> bool option" where
  "hm_eq hf eq m other =
    (if hm_size m \<noteq> hm_size other then Some False
     else (case hm_begin m of
             None \<Rightarrow> None
           | Some it \<Rightarrow> hm_eq_loop (bucket_count m + 1) hf eq m other it))"

section \<open>Cloning\<close>

text \<open>
  \<open>_clone\<close>: the metadata is copied before the allocations are checked, so a failed allocation of
  the metadata is a \<open>memcpy\<close> to null (\<open>None\<close>); after a failed allocation of the values the copy has
  no arrays and no buckets, but the size of the original.
\<close>

definition hm_clone :: "('k, 'v) hm_mem \<Rightarrow> ('k, 'v) hm \<Rightarrow> ('k, 'v) hm option" where
  "hm_clone mem m =
    (if bucket_count m = 0 then Some m
     else if \<not> slot_ok mem then None
     else if \<not> table_ok mem then Some (m\<lparr>hm_table := [], hm_slot := [], bucket_count := 0\<rparr>)
     else Some (m\<lparr>hm_table :=
       map (\<lambda>i. if hm_slot m ! i \<noteq> 0 then hm_table m ! i else fresh_value mem) [0..<bucket_count m]\<rparr>))"

end
