(* ===== verification/Hmap_Correct.thy ===== *)
theory Hmap_Correct
  imports Hmap
begin

text \<open>
  The invariant of STC's hash map and the map it stands for, and the proofs that lookup, insertion,
  rehash and erasure are lookup, update, identity and removal on that map. The key comparison is
  equality, which is what the comparison of every blueprint is.
\<close>

section \<open>Cyclic distances\<close>

text \<open>The number of steps from \<open>a\<close> to \<open>b\<close> in an array of \<open>n\<close> buckets that wraps around.\<close>

definition cdist :: "nat \<Rightarrow> nat \<Rightarrow> nat \<Rightarrow> nat" where
  "cdist n a b = (if a \<le> b then b - a else b + n - a)"

lemma cdist_less: "a < n \<Longrightarrow> b < n \<Longrightarrow> cdist n a b < n"
  by (auto simp: cdist_def)

lemma cdist_walk: "a < n \<Longrightarrow> b < n \<Longrightarrow> (a + cdist n a b) mod n = b"
  by (auto simp: cdist_def)

lemma cdist_unique: "a < n \<Longrightarrow> d < n \<Longrightarrow> cdist n a ((a + d) mod n) = d"
  by (cases "a + d < n") (auto simp: cdist_def mod_if)

lemma cdist_self [simp]: "cdist n a a = 0"
  by (simp add: cdist_def)

lemma cdist_eq_0: "a < n \<Longrightarrow> b < n \<Longrightarrow> cdist n a b = 0 \<longleftrightarrow> a = b"
  by (auto simp: cdist_def)

lemma cdist_add: "a < n \<Longrightarrow> b < n \<Longrightarrow> c < n \<Longrightarrow> cdist n a b + cdist n b c < n \<Longrightarrow>
    cdist n a c = cdist n a b + cdist n b c"
  by (auto simp: cdist_def split: if_splits)

lemma cdist_between: "a < n \<Longrightarrow> b < n \<Longrightarrow> c < n \<Longrightarrow> cdist n a b \<le> cdist n a c \<Longrightarrow>
    cdist n b c = cdist n a c - cdist n a b"
  by (auto simp: cdist_def split: if_splits)

lemma cdist_before: "a < n \<Longrightarrow> b < n \<Longrightarrow> c < n \<Longrightarrow> cdist n b c \<le> cdist n a c \<Longrightarrow>
    cdist n a b = cdist n a c - cdist n b c"
  by (auto simp: cdist_def split: if_splits)

text \<open>One step, as the C code takes it.\<close>

lemma cyclic_step: "0 < n \<Longrightarrow>
    (h + Suc s) mod n = (if (h + s) mod n + 1 = n then 0 else (h + s) mod n + 1)"
  by (simp add: mod_Suc)

lemma cdist_Suc:
  assumes "a < n" "j < n" "j' = (if j + 1 = n then 0 else j + 1)" "j' \<noteq> a"
  shows "cdist n a j' = Suc (cdist n a j)"
  using assms by (auto simp: cdist_def split: if_splits)

lemma cdist_Suc_left:
  assumes "e < n" "j < n" "j' = (if j + 1 = n then 0 else j + 1)" "j \<noteq> e"
  shows "Suc (cdist n j' e) = cdist n j e"
  using assms by (auto simp: cdist_def split: if_splits)

text \<open>All buckets from \<open>h\<close> to \<open>i\<close> are in use.\<close>

definition run :: "nat \<Rightarrow> (nat \<Rightarrow> bool) \<Rightarrow> nat \<Rightarrow> nat \<Rightarrow> bool" where
  "run n live h i \<longleftrightarrow> (\<forall>d \<le> cdist n h i. live ((h + d) mod n))"

lemma run_mono: "run n live h i \<Longrightarrow> (\<And>b. b < n \<Longrightarrow> live b \<Longrightarrow> live' b) \<Longrightarrow> 0 < n \<Longrightarrow> run n live' h i"
  by (simp add: run_def)

lemma run_suffix:
  assumes "run n live h i" "h < n" "i < n" "b < n" "cdist n b i \<le> cdist n h i"
  shows "run n live b i"
  unfolding run_def
proof (intro allI impI)
  fix d assume d: "d \<le> cdist n b i"
  have b: "b = (h + cdist n h b) mod n" using cdist_walk assms by simp
  have "cdist n h b = cdist n h i - cdist n b i" using cdist_before assms by blast
  then have "cdist n h b + d \<le> cdist n h i" using d assms(5) by simp
  then have "live ((h + (cdist n h b + d)) mod n)" using assms(1) by (simp add: run_def)
  moreover have "(b + d) mod n = (h + (cdist n h b + d)) mod n"
    by (subst b) (simp add: mod_add_left_eq add.assoc)
  ultimately show "live ((b + d) mod n)" by simp
qed

lemma run_prefix:
  assumes "run n live h j" "h < n" "i < n" "cdist n h i \<le> cdist n h j"
  shows "run n live h i"
  using assms by (simp add: run_def)

section \<open>Invariant and abstraction\<close>

definition hm_live :: "('k, 'v) hm \<Rightarrow> nat \<Rightarrow> bool" where
  "hm_live m i \<longleftrightarrow> hm_slot m ! i \<noteq> 0"

definition hm_home :: "('k \<Rightarrow> u64) \<Rightarrow> nat \<Rightarrow> 'k \<Rightarrow> nat" where
  "hm_home hf n key = unat (hf key) mod n"

definition hm_entries_ok :: "('k \<Rightarrow> u64) \<Rightarrow> ('k, 'v) hm \<Rightarrow> bool" where
  "hm_entries_ok hf m \<longleftrightarrow>
     length (hm_slot m) = bucket_count m + 1 \<and> hm_slot m ! bucket_count m = 0xff \<and>
     length (hm_table m) = bucket_count m \<and>
     keys_inj (bucket_count m) (hm_live m) ((!) (hm_table m)) \<and>
     (\<forall>i < bucket_count m. hm_live m i \<longrightarrow>
        hm_slot m ! i = hm_hashx (hf (fst (hm_table m ! i))) \<and>
        run (bucket_count m) (hm_live m) (hm_home hf (bucket_count m) (fst (hm_table m ! i))) i)"

definition hm_inv :: "('k \<Rightarrow> u64) \<Rightarrow> ('k, 'v) hm \<Rightarrow> bool" where
  "hm_inv hf m \<longleftrightarrow>
     m = hm_init \<or>
     ((\<exists>k. bucket_count m = 2 ^ k \<and> 2 \<le> k \<and> k \<le> 62) \<and> hm_entries_ok hf m \<and>
      hm_size m = card {i. i < bucket_count m \<and> hm_live m i} \<and> hm_size m < bucket_count m)"

definition hm_map :: "('k, 'v) hm \<Rightarrow> 'k \<Rightarrow> 'v option" where
  "hm_map m = map_of (entries (bucket_count m) (hm_live m) ((!) (hm_table m)))"

lemma hm_inv_init: "hm_inv hf hm_init"
  by (simp add: hm_inv_def)

lemma hm_map_init: "hm_map hm_init = Map.empty"
  by (simp add: hm_map_def hm_init_def entries_def)

lemma hashx_nonzero: "hm_hashx h \<noteq> 0"
proof -
  have "bit (0x80 :: u64) 7" by simp
  then have "bit (hm_hashx h) 7" by (simp add: hm_hashx_def bit_ucast_iff bit_or_iff)
  then show ?thesis by auto
qed

lemma fastrange_mod: "k \<le> 63 \<Longrightarrow> fastrange_2 x (2 ^ k) = unat x mod 2 ^ k"
proof -
  assume "k \<le> 63"
  have "(of_nat (2 ^ k) - 1 :: u64) = mask k" by (simp add: mask_eq_decr_exp)
  then have "x AND (of_nat (2 ^ k) - 1) = take_bit k x" by (simp add: take_bit_eq_mask)
  then show ?thesis unfolding fastrange_2_def by (simp only: unsigned_take_bit_eq) (simp only: take_bit_eq_mod)
qed

lemma home_less: "0 < n \<Longrightarrow> hm_home hf n key < n"
  by (simp add: hm_home_def)

lemma hm_map_at:
  "hm_entries_ok hf m \<Longrightarrow> i < bucket_count m \<Longrightarrow> hm_live m i \<Longrightarrow>
    hm_map m (fst (hm_table m ! i)) = Some (snd (hm_table m ! i))"
  unfolding hm_map_def hm_entries_ok_def by (intro map_of_entries_at) auto

lemma hm_map_None: "hm_map m key = None \<longleftrightarrow>
    (\<forall>i < bucket_count m. hm_live m i \<longrightarrow> fst (hm_table m ! i) \<noteq> key)"
  by (simp add: hm_map_def map_of_entries_None)

section \<open>Lookup\<close>

lemma hm_bucket_loop_walk:
  assumes "\<And>t. t < S \<Longrightarrow> hm_live m ((h + t) mod n) \<and> fst (hm_table m ! ((h + t) mod n)) \<noteq> key"
    and n: "n = bucket_count m" "0 < n" and "s \<le> S" "S - s < fuel"
  shows "hm_bucket_loop fuel (=) m key hx ((h + s) mod n)
    = hm_bucket_loop (fuel - (S - s)) (=) m key hx ((h + S) mod n)"
  using assms(4,5)
proof (induction "S - s" arbitrary: s fuel)
  case (Suc d)
  then obtain f where f: "fuel = Suc f" by (cases fuel) auto
  have pos: "hm_live m ((h + s) mod n)" "fst (hm_table m ! ((h + s) mod n)) \<noteq> key"
    using assms(1) [of s] Suc.hyps(2) by auto
  have "hm_bucket_loop fuel (=) m key hx ((h + s) mod n) = hm_bucket_loop f (=) m key hx ((h + Suc s) mod n)"
    using pos cyclic_step [of n h s] n unfolding f by (simp add: hm_live_def)
  also have "\<dots> = hm_bucket_loop (f - (S - Suc s)) (=) m key hx ((h + S) mod n)"
    using Suc f by (intro Suc.hyps(1)) auto
  also have "f - (S - Suc s) = fuel - (S - s)" using Suc.hyps(2) f by simp
  finally show ?case .
qed simp

lemma hm_bucket_correct:
  assumes ok: "hm_entries_ok hf m" and n: "bucket_count m = 2 ^ k" "k \<le> 63"
    and e: "e < bucket_count m" "\<not> hm_live m e"
  obtains x ins where "hm_bucket hf (=) m key = Some \<lparr>res_ref = Some x, inserted = ins, res_hashx = hm_hashx (hf key)\<rparr>"
    "x < bucket_count m" "hm_live m x \<longleftrightarrow> \<not> ins" "\<not> ins \<longrightarrow> fst (hm_table m ! x) = key"
    "ins \<longrightarrow> hm_map m key = None \<and>
      (\<forall>d < cdist (bucket_count m) (hm_home hf (bucket_count m) key) x.
         hm_live m ((hm_home hf (bucket_count m) key + d) mod bucket_count m))"
proof -
  let ?n = "bucket_count m" and ?h = "hm_home hf (bucket_count m) key"
  let ?p = "\<lambda>s. (?h + s) mod ?n" and ?hx = "hm_hashx (hf key)"
  have n0: "0 < ?n" using e(1) by simp
  have h: "?h < ?n" by (rule home_less [OF n0])
  let ?stop = "\<lambda>s. \<not> hm_live m (?p s) \<or> fst (hm_table m ! ?p s) = key"
  define S where "S = (LEAST s. ?stop s)"
  have "?stop (cdist ?n ?h e)" using cdist_walk [OF h e(1)] e(2) by simp
  then have stop: "?stop S" and S: "S \<le> cdist ?n ?h e"
    unfolding S_def by (rule LeastI, rule Least_le)
  have walk: "hm_live m (?p t) \<and> fst (hm_table m ! ?p t) \<noteq> key" if "t < S" for t
    using not_less_Least [of t ?stop] that unfolding S_def by blast
  have Sn: "S < ?n" using S cdist_less [OF h e(1)] by simp
  have x: "?p S < ?n" using n0 by simp
  have "hm_bucket hf (=) m key = hm_bucket_loop (?n + 1) (=) m key ?hx (?p 0)"
    using n0 h n fastrange_mod [OF n(2)] by (simp add: hm_bucket_def hm_home_def)
  also have "\<dots> = hm_bucket_loop (?n + 1 - (S - 0)) (=) m key ?hx (?p S)"
    by (rule hm_bucket_loop_walk [OF walk refl n0]) (use Sn in auto)
  also have "?n + 1 - (S - 0) = Suc (?n - S)" using Sn by simp
  finally have run: "hm_bucket hf (=) m key = hm_bucket_loop (Suc (?n - S)) (=) m key ?hx (?p S)" .
  have dist: "cdist ?n ?h (?p S) = S" by (rule cdist_unique [OF h Sn])
  show thesis
  proof (cases "hm_live m (?p S)")
    case True
    then have key: "fst (hm_table m ! ?p S) = key" using stop by simp
    then have "hm_slot m ! ?p S = ?hx" using ok True x by (auto simp: hm_entries_ok_def)
    then have "hm_bucket hf (=) m key = Some \<lparr>res_ref = Some (?p S), inserted = False, res_hashx = ?hx\<rparr>"
      using run key hashx_nonzero by simp
    then show thesis using that [of "?p S" False] x True key by blast
  next
    case False
    have "fst (hm_table m ! i) \<noteq> key" if i: "i < ?n" "hm_live m i" for i
    proof
      assume key: "fst (hm_table m ! i) = key"
      then have path: "run ?n (hm_live m) ?h i" using ok i by (auto simp: hm_entries_ok_def)
      have "\<not> S \<le> cdist ?n ?h i" using path False by (auto simp: run_def)
      then show False using walk [of "cdist ?n ?h i"] cdist_walk [OF h i(1)] key by simp
    qed
    then have none: "hm_map m key = None" by (simp add: hm_map_None)
    have "hm_bucket hf (=) m key = Some \<lparr>res_ref = Some (?p S), inserted = True, res_hashx = ?hx\<rparr>"
      using run False by (simp add: hm_live_def)
    then show thesis
      by (rule that) (use x False none walk in \<open>simp_all add: dist\<close>)
  qed
qed


section \<open>Writing a bucket\<close>

lemma hm_write_new:
  assumes ok: "hm_entries_ok hf m" and x: "x < bucket_count m" "\<not> hm_live m x"
    and none: "hm_map m key = None"
    and path: "\<forall>d < cdist (bucket_count m) (hm_home hf (bucket_count m) key) x.
         hm_live m ((hm_home hf (bucket_count m) key + d) mod bucket_count m)"
    and m': "bucket_count m' = bucket_count m" "hm_slot m' = (hm_slot m)[x := hm_hashx (hf key)]"
      "hm_table m' = (hm_table m)[x := (key, v)]"
  shows "hm_entries_ok hf m'" and "hm_map m' = (hm_map m)(key \<mapsto> v)"
    and "card {i. i < bucket_count m \<and> hm_live m' i} = Suc (card {i. i < bucket_count m \<and> hm_live m i})"
proof -
  let ?n = "bucket_count m" and ?home = "hm_home hf (bucket_count m)"
  have n0: "0 < ?n" using x(1) by simp
  have len: "length (hm_slot m) = ?n + 1" "length (hm_table m) = ?n" "hm_slot m ! ?n = 0xff"
    and inj: "keys_inj ?n (hm_live m) ((!) (hm_table m))"
    using ok by (simp_all add: hm_entries_ok_def)
  have live: "hm_live m' i \<longleftrightarrow> i = x \<or> hm_live m i" if "i < ?n" for i
    using that x(1) len(1) hashx_nonzero by (auto simp: hm_live_def m'(2) nth_list_update)
  have other: "hm_table m' ! i = hm_table m ! i" if "i \<noteq> x" for i using that by (simp add: m'(3))
  have own: "hm_table m' ! x = (key, v)" using x(1) len(2) by (simp add: m'(3))
  have fresh: "fst (hm_table m ! j) \<noteq> key" if "j < ?n" "hm_live m j" for j
    using none that by (simp add: hm_map_None)
  note put = entries_put [OF inj x(1), of "hm_live m'" "(!) (hm_table m')" key v]
  have inj': "keys_inj ?n (hm_live m') ((!) (hm_table m'))"
    by (rule put(1)) (use live x own other fresh in auto)
  show "hm_map m' = (hm_map m)(key \<mapsto> v)"
    unfolding hm_map_def m'(1) by (rule put(2)) (use live x own other fresh in auto)
  show "card {i. i < ?n \<and> hm_live m' i} = Suc (card {i. i < ?n \<and> hm_live m i})"
    by (rule card_live_insert [of x]) (use live x in auto)
  have up: "run ?n (hm_live m') h i" if "run ?n (hm_live m) h i" for h i
    by (rule run_mono [OF that]) (use live n0 in auto)
  have new: "run ?n (hm_live m') (?home key) x"
    unfolding run_def
  proof (intro allI impI)
    fix d assume d: "d \<le> cdist ?n (?home key) x"
    show "hm_live m' ((?home key + d) mod ?n)"
    proof (cases "d = cdist ?n (?home key) x")
      case True
      then show ?thesis using cdist_walk [OF home_less [OF n0, of hf key] x(1)] live x(1) by simp
    next
      case False
      then show ?thesis using path d live n0 by simp
    qed
  qed
  have entry: "hm_slot m' ! i = hm_hashx (hf (fst (hm_table m' ! i))) \<and>
      run ?n (hm_live m') (?home (fst (hm_table m' ! i))) i" if "i < ?n" "hm_live m' i" for i
  proof (cases "i = x")
    case True
    then show ?thesis using own new x(1) len(1) by (simp add: m'(2))
  next
    case False
    then have "hm_live m i" using live that by simp
    then show ?thesis using ok False that(1) up other by (simp add: hm_entries_ok_def m'(2))
  qed
  show "hm_entries_ok hf m'"
    using len inj' entry x(1) by (simp add: hm_entries_ok_def m'(1)) (simp add: m'(2,3))
qed

lemma hm_write_value:
  assumes ok: "hm_entries_ok hf m" and x: "x < bucket_count m" "hm_live m x" "fst (hm_table m ! x) = key"
    and m': "bucket_count m' = bucket_count m" "hm_slot m' = hm_slot m"
      "hm_table m' = (hm_table m)[x := (key, v)]"
  shows "hm_entries_ok hf m'" and "hm_map m' = (hm_map m)(key \<mapsto> v)"
proof -
  let ?n = "bucket_count m"
  have len: "length (hm_table m) = ?n" and inj: "keys_inj ?n (hm_live m) ((!) (hm_table m))"
    using ok by (simp_all add: hm_entries_ok_def)
  have live: "hm_live m' = hm_live m" by (rule ext) (simp add: hm_live_def m'(2))
  have fst: "fst (hm_table m' ! i) = fst (hm_table m ! i)" for i
    using x(1,3) len by (cases "i = x") (simp_all add: m'(3))
  have own: "hm_table m' ! x = (key, v)" using x(1) len by (simp add: m'(3))
  note put = entries_put [OF inj x(1), of "hm_live m'" "(!) (hm_table m')" key v]
  have other: "hm_table m' ! j = hm_table m ! j" if "j \<noteq> x" for j using that by (simp add: m'(3))
  have fresh: "fst (hm_table m ! j) \<noteq> key" if "j < ?n" "j \<noteq> x" "hm_live m j" for j
    using keys_injD [OF inj that(1) x(1)] that x by auto
  have inj': "keys_inj ?n (hm_live m') ((!) (hm_table m'))"
    by (rule put(1)) (use live x own other fresh in auto)
  show "hm_map m' = (hm_map m)(key \<mapsto> v)"
    unfolding hm_map_def m'(1) by (rule put(2)) (use live x own other fresh in auto)
  show "hm_entries_ok hf m'"
    using ok inj' by (simp add: hm_entries_ok_def m'(1,2) live fst) (simp add: m'(3))
qed

section \<open>Rehash\<close>

text \<open>The map of the first \<open>i\<close> buckets.\<close>

definition hm_part :: "('k, 'v) hm \<Rightarrow> nat \<Rightarrow> 'k \<Rightarrow> 'v option" where
  "hm_part m i = map_of (entries i (hm_live m) ((!) (hm_table m)))"

lemma map_of_snoc: "k \<notin> fst ` set xs \<Longrightarrow> map_of (xs @ [(k, v)]) = (map_of xs)(k \<mapsto> v)"
  by (induction xs) (auto simp: fun_upd_twist)

lemma hm_rehash_correct:
  assumes inj: "keys_inj (i + c) (hm_live old) ((!) (hm_table old))"
    and "hm_entries_ok hf m" "bucket_count m = 2 ^ k" "k \<le> 63"
    and "card {j. j < bucket_count m \<and> hm_live m j} = card {j. j < i \<and> hm_live old j}"
    and room: "card {j. j < i + c \<and> hm_live old j} < 2 ^ k" and "hm_map m = hm_part old i"
  shows "\<exists>m'. hm_rehash c hf (=) old i m = Some m' \<and> hm_entries_ok hf m' \<and> bucket_count m' = 2 ^ k \<and>
    hm_size m' = hm_size m \<and> hm_map m' = hm_part old (i + c) \<and>
    card {j. j < 2 ^ k \<and> hm_live m' j} = card {j. j < i + c \<and> hm_live old j}"
  using assms
proof (induction c arbitrary: i m)
  case (Suc c)
  have step: "card {j. j < Suc i \<and> hm_live old j}
      = card {j. j < i \<and> hm_live old j} + (if hm_live old i then 1 else 0)"
  proof -
    have "{j. j < Suc i \<and> hm_live old j} = (if hm_live old i then insert i else id) {j. j < i \<and> hm_live old j}"
      by (auto simp: less_Suc_eq)
    then show ?thesis by simp
  qed
  show ?case
  proof (cases "hm_live old i")
    case False
    then have "hm_rehash (Suc c) hf (=) old i m = hm_rehash c hf (=) old (Suc i) m"
      by (simp add: hm_live_def)
    then show ?thesis
      using Suc.IH [of "Suc i" m] Suc.prems False step by (simp add: hm_part_def entries_Suc)
  next
    case True
    obtain key v where kv: "hm_table old ! i = (key, v)" by (cases "hm_table old ! i")
    have "{j. j < Suc i \<and> hm_live old j} \<subseteq> {j. j < i + Suc c \<and> hm_live old j}" by auto
    then have "card {j. j < Suc i \<and> hm_live old j} \<le> card {j. j < i + Suc c \<and> hm_live old j}"
      by (rule card_mono [rotated]) simp
    then have "card {j. j < bucket_count m \<and> hm_live m j} < bucket_count m"
      using Suc.prems(3,5,6) step True by simp
    then obtain e where e: "e < bucket_count m" "\<not> hm_live m e" by (rule exists_free_bucket)
    have fresh: "hm_map m key = None"
    proof -
      have "fst (hm_table old ! j) \<noteq> key" if "j < i" "hm_live old j" for j
        using keys_injD [OF Suc.prems(1), of j i] that True kv by auto
      then show ?thesis by (simp add: Suc.prems(7) hm_part_def map_of_entries_None)
    qed
    obtain x ins where b: "hm_bucket hf (=) m key = Some \<lparr>res_ref = Some x, inserted = ins, res_hashx = hm_hashx (hf key)\<rparr>"
      "x < bucket_count m" "hm_live m x \<longleftrightarrow> \<not> ins" "\<not> ins \<longrightarrow> fst (hm_table m ! x) = key"
      and path: "ins \<longrightarrow> hm_map m key = None \<and>
        (\<forall>d < cdist (bucket_count m) (hm_home hf (bucket_count m) key) x.
           hm_live m ((hm_home hf (bucket_count m) key + d) mod bucket_count m))"
      by (rule hm_bucket_correct [OF Suc.prems(2,3,4) e])
    have ins: ins using b(2-4) fresh hm_map_at [OF Suc.prems(2) b(2)] by auto
    let ?m = "m\<lparr>hm_slot := (hm_slot m)[x := hm_hashx (hf key)], hm_table := (hm_table m)[x := (key, v)]\<rparr>"
    have dead: "\<not> hm_live m x" using b(3) ins by simp
    note put = hm_write_new [OF Suc.prems(2) b(2) dead fresh path [rule_format, OF ins, THEN conjunct2], of ?m v]
    have ok': "hm_entries_ok hf ?m" and map': "hm_map ?m = (hm_map m)(key \<mapsto> v)"
      and card': "card {j. j < bucket_count m \<and> hm_live ?m j} = Suc (card {j. j < bucket_count m \<and> hm_live m j})"
      using put by simp_all
    have part: "hm_part old (Suc i) = (hm_part old i)(key \<mapsto> v)"
    proof -
      have "key \<notin> fst ` set (entries i (hm_live old) ((!) (hm_table old)))"
        using fresh by (simp add: Suc.prems(7) hm_part_def map_of_eq_None_iff)
      then show ?thesis using True kv by (simp add: hm_part_def entries_Suc map_of_snoc del: map_of_append)
    qed
    have "hm_rehash (Suc c) hf (=) old i m = hm_rehash c hf (=) old (Suc i) ?m"
      using True kv b(1) by (simp add: hm_live_def)
    moreover have "card {j. j < bucket_count ?m \<and> hm_live ?m j} = card {j. j < Suc i \<and> hm_live old j}"
      using card' Suc.prems(5) step True by simp
    moreover have "hm_map ?m = hm_part old (Suc i)"
      by (simp only: map' part Suc.prems(7))
    ultimately show ?thesis
      using Suc.IH [of "Suc i" ?m] Suc.prems(1,3,4,6) ok' by simp
  qed
qed simp


section \<open>Growing\<close>

lemma float_of_count_cases:
  assumes "2 ^ 24 \<le> n"
  obtains e q where "float_of_count n = q * 2 ^ e \<or> float_of_count n = (q + 1) * 2 ^ e"
    "q * 2 ^ e \<le> n" "n < (q + 1) * 2 ^ e" "8 * 2 ^ e \<le> n"
proof -
  define e q where "e = floorlog 2 n - 24" and "q = n div 2 ^ e"
  have fl: "float_of_count n = q * 2 ^ e \<or> float_of_count n = (q + 1) * 2 ^ e"
    using assms by (simp add: float_of_count_def e_def q_def Let_def)
  have q: "q * 2 ^ e \<le> n" by (simp add: q_def)
  have "n mod 2 ^ e < 2 ^ e" by simp
  then have "n < q * 2 ^ e + 2 ^ e" unfolding q_def by (metis add_less_cancel_left div_mult_mod_eq)
  then have q1: "n < (q + 1) * 2 ^ e" by simp
  have n: "2 ^ (floorlog 2 n - 1) \<le> n" "n < 2 ^ floorlog 2 n"
    using floorlog_bounds [of n 2] assms by auto
  have "24 < floorlog 2 n"
  proof (rule ccontr)
    assume "\<not> 24 < floorlog 2 n"
    then have "(2::nat) ^ floorlog 2 n \<le> 2 ^ 24" by (intro power_increasing) auto
    then show False using n(2) assms by simp
  qed
  then have "e + 3 \<le> floorlog 2 n - 1" unfolding e_def by simp
  then have "(2::nat) ^ (e + 3) \<le> 2 ^ (floorlog 2 n - 1)" by (intro power_increasing) auto
  then have "8 * 2 ^ e \<le> n" using n(1) by (simp add: power_add)
  then show thesis using that fl q q1 by blast
qed

lemma float_of_count_bounds: "7 * n \<le> 8 * float_of_count n" "float_of_count n \<le> 2 * n"
proof -
  have "7 * n \<le> 8 * float_of_count n \<and> float_of_count n \<le> 2 * n"
  proof (cases "n < 2 ^ 24")
    case True
    then show ?thesis by (simp add: float_of_count_def)
  next
    case False
    then obtain e q where "float_of_count n = q * 2 ^ e \<or> float_of_count n = (q + 1) * 2 ^ e"
      "q * 2 ^ e \<le> n" "n < (q + 1) * 2 ^ e" "8 * 2 ^ e \<le> n"
      using float_of_count_cases [of n] by (metis not_less)
    then show ?thesis by auto
  qed
  then show "7 * n \<le> 8 * float_of_count n" "float_of_count n \<le> 2 * n" by simp_all
qed

lemma float_of_count_power: "float_of_count (2 ^ k) = 2 ^ k"
proof (cases "k < 24")
  case True
  then have "(2::nat) ^ k < 2 ^ 24" by (rule power_strict_increasing) simp
  then show ?thesis by (simp add: float_of_count_def)
next
  case False
  have "floorlog 2 (1 * 2 ^ k :: nat) = floorlog 2 1 + k" by (rule floorlog_power) simp_all
  moreover have "floorlog 2 (1 :: nat) = 1" by (subst compute_floorlog) (simp add: floorlog_eq_zero_iff)
  ultimately have "floorlog 2 (2 ^ k :: nat) = Suc k" by simp
  moreover have "(2::nat) ^ k div 2 ^ (k - 23) * 2 ^ (k - 23) = 2 ^ k" "(2::nat) ^ k mod 2 ^ (k - 23) = 0"
    using False by (simp_all add: le_imp_power_dvd mod_eq_0_iff_dvd)
  moreover have "\<not> (2::nat) ^ k < 2 ^ 24" using False power_increasing [of 24 k "2::nat"] by simp
  ultimately show ?thesis by (simp add: float_of_count_def Let_def del: power_strict_increasing_iff)
qed

lemma hm_limit_power: "hm_limit (2 ^ k) = 7 * 2 ^ k div 8" "2 \<le> k \<Longrightarrow> hm_limit (2 ^ k) < 2 ^ k"
proof -
  show l: "hm_limit (2 ^ k) = 7 * 2 ^ k div 8" by (simp add: hm_limit_def float_of_count_power)
  assume "2 \<le> k"
  have "7 * 2 ^ k < 8 * (2::nat) ^ k" by simp
  then show "hm_limit (2 ^ k) < 2 ^ k" unfolding l by (rule less_mult_imp_div_less [OF less_le_trans]) simp
qed

lemma c_next_pow2_smear:
  "c_next_pow2 x = smear 32 (smear 16 (smear 8 (smear 4 (smear 2 (smear 1 (x - 1)))))) + 1"
  by (simp add: c_next_pow2_def smear_def Let_def)

lemma smear64_bits:
  "bit (smear 32 (smear 16 (smear 8 (smear 4 (smear 2 (smear 1 x)))))) i \<longleftrightarrow> (\<exists>d<64. bit (x :: u64) (i + d))"
proof -
  have s0: "\<And>i. bit x i \<longleftrightarrow> (\<exists>d<2 ^ 0. bit x (i + d))" by simp
  note s2 = smear_step [OF smear_step [OF s0]]
  note s4 = smear_step [OF smear_step [OF s2]]
  note s6 = smear_step [OF smear_step [OF s4]]
  show ?thesis using s6 [of i] by simp
qed

lemma c_next_pow2_power:
  assumes "1 \<le> x" and "x \<le> 2 ^ 63"
  obtains L where "unat (c_next_pow2 (of_nat x)) = 2 ^ L" "x \<le> 2 ^ L" "L = 0 \<or> 2 ^ (L - 1) < x" "L \<le> 63"
proof -
  obtain L where L: "x \<le> 2 ^ L" "L = 0 \<or> 2 ^ (L - 1) < x" using pow2_bracket [OF assms(1)] by blast
  have L63: "L \<le> 63"
  proof (rule ccontr)
    assume "\<not> L \<le> 63"
    then have "(2::nat) ^ 63 \<le> 2 ^ (L - 1)" by (intro power_increasing) auto
    then show False using L(2) assms(2) \<open>\<not> L \<le> 63\<close> by auto
  qed
  have u: "unat (of_nat x - 1 :: u64) = x - 1"
    using assms by (simp add: unat_sub_if_size unat_of_nat word_le_nat_alt word_size)
  let ?y = "smear 32 (smear 16 (smear 8 (smear 4 (smear 2 (smear 1 (of_nat x - 1 :: u64))))))"
  have "bit ?y i \<longleftrightarrow> 2 ^ i \<le> unat (of_nat x - 1 :: u64)" if "i < LENGTH(64)" for i
    unfolding smear64_bits exists_bit_above [symmetric] using bit_offset_less [of "of_nat x - 1 :: u64" i]
    by auto
  then have "?y + 1 = 2 ^ L"
    by (rule filled_word) (use L L63 assms in \<open>auto simp: u\<close>)
  then have "unat (c_next_pow2 (of_nat x)) = 2 ^ L"
    unfolding c_next_pow2_smear using L63 unat_pow2 [where 'a = 64, of L] by simp
  then show thesis using that L L63 by blast
qed

text \<open>A request up to \<open>2 ^ 60\<close> is granted with room to spare.\<close>

lemma hm_newbucks_power:
  assumes "c \<le> 2 ^ 60"
  obtains L where "hm_newbucks c = 2 ^ L" "2 \<le> L" "L \<le> 62" "c + 2 < 2 ^ L" "2 ^ L \<le> max 8 (8 * c)"
proof -
  note fl = float_of_count_bounds [of c]
  have req: "c + 3 \<le> hm_request c + 4" "hm_request c \<le> 16 * c div 7"
    using fl unfolding hm_request_def by (simp_all add: div_le_mono less_eq_div_iff_mult_less_eq)
  have "16 * c div 7 \<le> 16 * 2 ^ 60 div 7" using assms by (intro div_le_mono) simp
  then have "hm_request c + 4 \<le> 2 ^ 63" using req(2) by simp
  with c_next_pow2_power [of "hm_request c + 4"] obtain L where L: "hm_newbucks c = 2 ^ L"
    "hm_request c + 4 \<le> 2 ^ L" "L = 0 \<or> 2 ^ (L - 1) < hm_request c + 4"
    unfolding hm_newbucks_def by (metis add_leD2 le_add2 one_le_numeral order_trans)
  have L2: "2 \<le> L"
  proof (rule ccontr)
    assume "\<not> 2 \<le> L"
    then have "(2::nat) ^ L \<le> 2 ^ 1" by (intro power_increasing) auto
    then show False using L(2) by simp
  qed
  then have half: "2 * 2 ^ (L - 1) = (2::nat) ^ L" by (metis power_eq_if not_numeral_le_zero mult.commute)
  have big: "2 ^ L < 2 * (hm_request c + 4)" using L(3) L2 half by auto
  have L62: "L \<le> 62"
  proof (rule ccontr)
    assume "\<not> L \<le> 62"
    then have "(2::nat) ^ 63 \<le> 2 ^ L" by (intro power_increasing) auto
    then show False using big req(2) assms by simp
  qed
  have "2 ^ L \<le> max 8 (8 * c)"
  proof (cases "c \<le> 2")
    case True
    then have "float_of_count c = c" by (simp add: float_of_count_def)
    then have "hm_request c \<le> 2" using True by (simp add: hm_request_def)
    then have "2 ^ (L - 1) < (2::nat) ^ 3" using L(3) L2 by auto
    then have "L - 1 < 3" by (rule power_less_imp_less_exp [rotated]) simp
    then have "(2::nat) ^ L \<le> 2 ^ 3" by (intro power_increasing) auto
    then show ?thesis by simp
  next
    case False
    then show ?thesis using big req(2) by simp
  qed
  then show thesis using that L L2 L62 req(1) by simp
qed


definition hm_mem_ok :: "('k, 'v) hm_mem \<Rightarrow> bool" where
  "hm_mem_ok mem \<longleftrightarrow> table_ok mem \<and> slot_ok mem"

lemma hm_inv_entries: "hm_inv hf m \<Longrightarrow> keys_inj (bucket_count m) (hm_live m) ((!) (hm_table m)) \<and>
    hm_size m = card {i. i < bucket_count m \<and> hm_live m i}"
  by (auto simp: hm_inv_def hm_init_def hm_entries_ok_def keys_inj_def)

lemma hm_fresh_ok:
  "hm_entries_ok hf (hm_fresh mem s n)" "hm_map (hm_fresh mem s n) = Map.empty"
  "\<And>i. i < n \<Longrightarrow> \<not> hm_live (hm_fresh mem s n) i"
proof -
  show empty: "\<not> hm_live (hm_fresh mem s n) i" if "i < n" for i
    using that by (simp add: hm_live_def hm_fresh_def nth_append del: replicate.simps)
  then show "hm_map (hm_fresh mem s n) = Map.empty"
    by (simp add: hm_map_def fun_eq_iff map_of_entries_None) (simp add: hm_fresh_def)
  have "keys_inj n (hm_live (hm_fresh mem s n)) ((!) (hm_table (hm_fresh mem s n)))"
    using empty by (auto simp: keys_inj_def inj_on_def)
  moreover have "bucket_count (hm_fresh mem s n) = n" by (simp add: hm_fresh_def)
  ultimately show "hm_entries_ok hf (hm_fresh mem s n)"
    using empty by (simp add: hm_entries_ok_def) (simp add: hm_fresh_def del: replicate.simps)
qed

text \<open>A reserve that allocates: the new table has every entry and at least two free buckets.\<close>

lemma hm_reserve_grow:
  assumes inv: "hm_inv hf m" and c: "hm_size m \<le> c" "c \<le> 2 ^ 60"
    and go: "\<not> (c \<noteq> hm_size m \<and> c \<le> bucket_count m)" and mem: "hm_mem_ok mem"
  obtains m' where "hm_reserve hf (=) mem m c = Some (m', True)" "hm_inv hf m'" "hm_map m' = hm_map m"
    "hm_size m' = hm_size m" "c + 2 < bucket_count m'" "bucket_count m' \<le> max 8 (8 * c)"
proof -
  obtain L where L: "hm_newbucks c = 2 ^ L" "2 \<le> L" "L \<le> 62" "c + 2 < 2 ^ L" "2 ^ L \<le> max 8 (8 * c)"
    by (rule hm_newbucks_power [OF c(2)])
  let ?f = "hm_fresh mem (hm_size m) (2 ^ L)"
  have f: "bucket_count ?f = 2 ^ L" "hm_size ?f = hm_size m" by (simp_all add: hm_fresh_def)
  have none: "{j. j < bucket_count ?f \<and> hm_live ?f j} = {}"
    unfolding f(1) using hm_fresh_ok(3) by auto
  have base: "keys_inj (0 + bucket_count m) (hm_live m) ((!) (hm_table m))"
      "card {j. j < 0 + bucket_count m \<and> hm_live m j} < 2 ^ L"
    using hm_inv_entries [OF inv] c(1) L(4) by simp_all
  have zero: "card {j. j < bucket_count ?f \<and> hm_live ?f j} = card {j. j < 0 \<and> hm_live m j}"
    "hm_map ?f = hm_part m 0"
    using none by (simp_all add: hm_fresh_ok(2) hm_part_def entries_def)
  have L63: "L \<le> 63" using L(3) by simp
  obtain m' where m': "hm_rehash (bucket_count m) hf (=) m 0 ?f = Some m'" "hm_entries_ok hf m'"
    "bucket_count m' = 2 ^ L" "hm_size m' = hm_size ?f" "hm_map m' = hm_part m (0 + bucket_count m)"
    "card {j. j < 2 ^ L \<and> hm_live m' j} = card {j. j < 0 + bucket_count m \<and> hm_live m j}"
    using hm_rehash_correct [OF base(1) hm_fresh_ok(1) f(1) L63 zero(1) base(2) zero(2)] by blast
  have "hm_size m' < bucket_count m'" using m'(3,4) f(2) c(1) L(4) by simp
  then have "hm_inv hf m'"
    using m'(2,3,4,6) L(2,3) f(2) hm_inv_entries [OF inv] by (auto simp: hm_inv_def)
  moreover have "hm_reserve hf (=) mem m c = Some (m', True)"
    unfolding hm_reserve_def if_not_P [OF go] using mem m'(1) L(1) by (simp add: hm_mem_ok_def)
  moreover have "hm_map m' = hm_map m" using m'(5) by (simp add: hm_part_def hm_map_def)
  ultimately show thesis using that m'(3,4) f(2) L(4,5) by metis
qed

lemma hm_reserve_correct:
  assumes "hm_inv hf m" and "hm_size m \<le> c" "c \<le> 2 ^ 60"
  shows "\<exists>m' r. hm_reserve hf (=) mem m c = Some (m', r) \<and> hm_inv hf m' \<and> hm_map m' = hm_map m \<and>
    hm_size m' = hm_size m \<and> (r \<or> m' = m) \<and> (hm_mem_ok mem \<longrightarrow> r)"
proof -
  consider "c \<noteq> hm_size m \<and> c \<le> bucket_count m"
    | "\<not> (c \<noteq> hm_size m \<and> c \<le> bucket_count m)" "\<not> hm_mem_ok mem"
    | "\<not> (c \<noteq> hm_size m \<and> c \<le> bucket_count m)" "hm_mem_ok mem" by blast
  then show ?thesis
  proof cases
    case 3
    then show ?thesis using hm_reserve_grow [OF assms 3(1,2)] by metis
  qed (use assms in \<open>auto simp: hm_reserve_def hm_mem_ok_def\<close>)
qed

section \<open>Insertion\<close>

text \<open>Where \<open>_insert_entry_\<close> leads when there is room: to the key's bucket, or to a new one for it.\<close>

definition hm_entry_result where
  "hm_entry_result hf m key m' b \<longleftrightarrow>
    (\<exists>m1 x. hm_inv hf m1 \<and> hm_map m1 = hm_map m \<and> hm_size m1 = hm_size m \<and> res_ref b = Some x \<and>
       x < bucket_count m1 \<and> hm_entries_ok hf m1 \<and> hm_size m1 + 1 < bucket_count m1 \<and>
       bucket_count m1 \<le> max (bucket_count m) (8 * (2 * hm_size m + 2)) \<and>
       (if inserted b
        then hm_map m key = None \<and> \<not> hm_live m1 x \<and>
          (\<forall>d < cdist (bucket_count m1) (hm_home hf (bucket_count m1) key) x.
             hm_live m1 ((hm_home hf (bucket_count m1) key + d) mod bucket_count m1)) \<and>
          m' = m1\<lparr>hm_slot := (hm_slot m1)[x := hm_hashx (hf key)], hm_size := hm_size m1 + 1\<rparr>
        else hm_live m1 x \<and> fst (hm_table m1 ! x) = key \<and> m' = m1))"

lemma hm_room:
  fixes m :: "('k, 'v) hm" and mem :: "('k, 'v) hm_mem"
  assumes inv: "hm_inv hf m" and sz: "hm_size m \<le> 2 ^ 58"
  defines "step \<equiv> (if hm_size m \<ge> hm_limit (bucket_count m)
           then hm_reserve hf (=) mem m (hm_size m * 3 div 2 + 2) else Some (m, True))"
  shows "\<exists>m1 ok. step = Some (m1, ok) \<and> hm_inv hf m1 \<and> hm_map m1 = hm_map m \<and> hm_size m1 = hm_size m \<and>
    (hm_mem_ok mem \<longrightarrow> ok) \<and> (if ok then hm_entries_ok hf m1 \<and> (\<exists>k. bucket_count m1 = 2 ^ k \<and> k \<le> 62) \<and>
       hm_size m1 + 1 < bucket_count m1 \<and>
       bucket_count m1 \<le> max (bucket_count m) (8 * (2 * hm_size m + 2)) else m1 = m)"
proof (cases "hm_size m \<ge> hm_limit (bucket_count m)")
  case False
  have "m \<noteq> hm_init" using False by (auto simp: hm_init_def hm_limit_def float_of_count_def)
  then obtain k where k: "bucket_count m = 2 ^ k" "2 \<le> k" "k \<le> 62" and ok: "hm_entries_ok hf m"
    using inv by (auto simp: hm_inv_def)
  have "hm_size m + 1 < bucket_count m" using False hm_limit_power(2) [OF k(2)] k(1) by simp
  then show ?thesis using False inv ok k by (auto simp: step_def)
next
  case True
  let ?c = "hm_size m * 3 div 2 + 2"
  have c: "hm_size m \<le> ?c" "?c \<le> 2 ^ 60" "?c \<le> 2 * hm_size m + 2" using sz by simp_all
  have go: "\<not> (?c \<noteq> hm_size m \<and> ?c \<le> bucket_count m)"
  proof (cases "m = hm_init")
    case True
    then show ?thesis by (simp add: hm_init_def)
  next
    case False
    then obtain k where k: "bucket_count m = 2 ^ k" "2 \<le> k" using inv by (auto simp: hm_inv_def)
    have "(4::nat) \<le> 2 ^ k" using power_increasing [OF k(2), of "2::nat"] by simp
    moreover have "7 * 2 ^ k div 8 \<le> hm_size m" using True k hm_limit_power(1) [of k] by simp
    moreover have "N < s * 3 div 2 + 2" if "4 \<le> N" "7 * N div 8 \<le> s" for N s :: nat
    proof -
      have "7 * N < 8 * s + 8" using that(2) by linarith
      moreover have "s * 3 < 2 * (s * 3 div 2) + 2" by simp
      ultimately show ?thesis using that(1) by linarith
    qed
    ultimately show ?thesis unfolding k(1) using not_less by blast
  qed
  show ?thesis
  proof (cases "hm_mem_ok mem")
    case False
    then show ?thesis using True go inv by (auto simp: step_def hm_reserve_def hm_mem_ok_def)
  next
    case mem: True
    obtain m1 where m1: "hm_reserve hf (=) mem m ?c = Some (m1, True)" "hm_inv hf m1" "hm_map m1 = hm_map m"
      "hm_size m1 = hm_size m" "?c + 2 < bucket_count m1" "bucket_count m1 \<le> max 8 (8 * ?c)"
      by (rule hm_reserve_grow [OF inv c(1,2) go mem])
    have "m1 \<noteq> hm_init" using m1(5) by (auto simp: hm_init_def)
    then have "\<exists>k. bucket_count m1 = 2 ^ k \<and> k \<le> 62" "hm_entries_ok hf m1"
      using m1(2) by (auto simp: hm_inv_def)
    moreover have "bucket_count m1 \<le> max (bucket_count m) (8 * (2 * hm_size m + 2))"
    proof -
      have "max 8 (8 * ?c) \<le> 8 * (2 * hm_size m + 2)" using c(3) by simp
      then show ?thesis using m1(6) by (metis max.coboundedI2 order_trans)
    qed
    ultimately show ?thesis using m1 c(1) True by (auto simp: step_def)
  qed
qed

lemma hm_insert_entry_correct:
  assumes inv: "hm_inv hf m" and sz: "hm_size m \<le> 2 ^ 58"
  shows "\<exists>m' b. hm_insert_entry hf (=) mem m key = Some (m', b) \<and>
    (if res_ref b = None then \<not> inserted b \<and> m' = m \<and> \<not> hm_mem_ok mem else hm_entry_result hf m key m' b)"
proof -
  obtain m1 ok where room: "(if hm_size m \<ge> hm_limit (bucket_count m)
      then hm_reserve hf (=) mem m (hm_size m * 3 div 2 + 2) else Some (m, True)) = Some (m1, ok)"
    and m1: "hm_inv hf m1" "hm_map m1 = hm_map m" "hm_size m1 = hm_size m" "hm_mem_ok mem \<longrightarrow> ok"
    and big: "if ok then hm_entries_ok hf m1 \<and> (\<exists>k. bucket_count m1 = 2 ^ k \<and> k \<le> 62) \<and>
       hm_size m1 + 1 < bucket_count m1 \<and>
       bucket_count m1 \<le> max (bucket_count m) (8 * (2 * hm_size m + 2)) else m1 = m"
    using hm_room [OF inv sz, of mem] by blast
  show ?thesis
  proof (cases ok)
    case False
    then show ?thesis using room m1(4) big by (auto simp: hm_insert_entry_def no_result_def)
  next
    case True
    then obtain k where k: "bucket_count m1 = 2 ^ k" "k \<le> 63" and ent: "hm_entries_ok hf m1"
      and lt: "hm_size m1 + 1 < bucket_count m1"
        "bucket_count m1 \<le> max (bucket_count m) (8 * (2 * hm_size m + 2))"
      using big by auto
    have "card {i. i < bucket_count m1 \<and> hm_live m1 i} < bucket_count m1"
      using hm_inv_entries [OF m1(1)] lt(1) by simp
    then obtain e where e: "e < bucket_count m1" "\<not> hm_live m1 e" by (rule exists_free_bucket)
    obtain x ins where b: "hm_bucket hf (=) m1 key = Some \<lparr>res_ref = Some x, inserted = ins, res_hashx = hm_hashx (hf key)\<rparr>"
      "x < bucket_count m1" "hm_live m1 x \<longleftrightarrow> \<not> ins" "\<not> ins \<longrightarrow> fst (hm_table m1 ! x) = key"
      "ins \<longrightarrow> hm_map m1 key = None \<and>
        (\<forall>d < cdist (bucket_count m1) (hm_home hf (bucket_count m1) key) x.
           hm_live m1 ((hm_home hf (bucket_count m1) key + d) mod bucket_count m1))"
      by (rule hm_bucket_correct [OF ent k e])
    let ?m' = "if ins then m1\<lparr>hm_slot := (hm_slot m1)[x := hm_hashx (hf key)], hm_size := hm_size m1 + 1\<rparr> else m1"
    let ?b = "\<lparr>res_ref = Some x, inserted = ins, res_hashx = hm_hashx (hf key)\<rparr>"
    have "hm_insert_entry hf (=) mem m key = Some (?m', ?b)"
      using room True b(1) by (simp add: hm_insert_entry_def)
    moreover have "hm_entry_result hf m key ?m' ?b"
      unfolding hm_entry_result_def
      by (rule exI [of _ m1], rule exI [of _ x]) (use m1 ent lt b(2-5) in auto)
    ultimately show ?thesis by fastforce
  qed
qed


lemma hm_entry_new:
  assumes "hm_entry_result hf m key m' b" and "inserted b"
  shows "hm_inv hf (put_value b (\<lambda>_. (key, v)) m')"
    and "hm_map (put_value b (\<lambda>_. (key, v)) m') = (hm_map m)(key \<mapsto> v)"
    and "hm_map m key = None"
    and "bucket_count (put_value b (\<lambda>_. (key, v)) m') \<le> max (bucket_count m) (8 * (2 * hm_size m + 2))"
    and "\<exists>x. res_ref b = Some x \<and> x < bucket_count m' \<and> hm_live m' x \<and>
      hm_table (put_value b (\<lambda>_. (key, v)) m') ! x = (key, v)"
proof -
  obtain m1 x where m1: "hm_inv hf m1" "hm_map m1 = hm_map m" "hm_size m1 = hm_size m"
    and b: "res_ref b = Some x" and x: "x < bucket_count m1" and ent: "hm_entries_ok hf m1"
    and lt: "hm_size m1 + 1 < bucket_count m1" "bucket_count m1 \<le> max (bucket_count m) (8 * (2 * hm_size m + 2))"
    and none: "hm_map m key = None" and dead: "\<not> hm_live m1 x"
    and path: "\<forall>d < cdist (bucket_count m1) (hm_home hf (bucket_count m1) key) x.
             hm_live m1 ((hm_home hf (bucket_count m1) key + d) mod bucket_count m1)"
    and m': "m' = m1\<lparr>hm_slot := (hm_slot m1)[x := hm_hashx (hf key)], hm_size := hm_size m1 + 1\<rparr>"
    using assms unfolding hm_entry_result_def by auto
  let ?m = "put_value b (\<lambda>_. (key, v)) m'"
  have f: "bucket_count ?m = bucket_count m1" "hm_slot ?m = (hm_slot m1)[x := hm_hashx (hf key)]"
    "hm_table ?m = (hm_table m1)[x := (key, v)]" "hm_size ?m = hm_size m1 + 1"
    by (simp_all add: put_value_def b m')
  have none1: "hm_map m1 key = None" using none m1(2) by simp
  note new = hm_write_new [OF ent x dead none1 path f(1-3)]
  have "m1 \<noteq> hm_init" using x by (auto simp: hm_init_def)
  then have k: "\<exists>k. bucket_count m1 = 2 ^ k \<and> 2 \<le> k \<and> k \<le> 62" using m1(1) by (auto simp: hm_inv_def)
  show "hm_inv hf ?m"
    using new(1,3) k lt(1) f hm_inv_entries [OF m1(1)] by (simp add: hm_inv_def)
  show "hm_map ?m = (hm_map m)(key \<mapsto> v)" using new(2) m1(2) by simp
  show "hm_map m key = None" by (rule none)
  show "bucket_count ?m \<le> max (bucket_count m) (8 * (2 * hm_size m + 2))" using lt(2) f(1) by simp
  have "length (hm_table m1) = bucket_count m1" "length (hm_slot m1) = bucket_count m1 + 1"
    using ent by (simp_all add: hm_entries_ok_def)
  moreover from this have "hm_table ?m ! x = (key, v)" unfolding f(3) using x by simp
  ultimately have "hm_table ?m ! x = (key, v)" "hm_live m' x" "x < bucket_count m'"
    using x hashx_nonzero by (simp_all add: m' hm_live_def)
  then show "\<exists>x. res_ref b = Some x \<and> x < bucket_count m' \<and> hm_live m' x \<and> hm_table ?m ! x = (key, v)"
    using b by blast
qed

lemma hm_entry_old:
  assumes "hm_entry_result hf m key m' b" and "\<not> inserted b"
  shows "hm_inv hf m'" and "hm_map m' = hm_map m" and "hm_map m key \<noteq> None"
    and "hm_inv hf (put_value b (\<lambda>kv. (fst kv, v)) m')"
    and "hm_map (put_value b (\<lambda>kv. (fst kv, v)) m') = (hm_map m)(key \<mapsto> v)"
    and "bucket_count m' \<le> max (bucket_count m) (8 * (2 * hm_size m + 2))"
    and "\<exists>x. res_ref b = Some x \<and> x < bucket_count m' \<and> hm_live m' x \<and> fst (hm_table m' ! x) = key"
proof -
  obtain x where m': "hm_inv hf m'" "hm_map m' = hm_map m"
    and b: "res_ref b = Some x" and x: "x < bucket_count m'" "hm_live m' x" "fst (hm_table m' ! x) = key"
    and ent: "hm_entries_ok hf m'" and lt: "bucket_count m' \<le> max (bucket_count m) (8 * (2 * hm_size m + 2))"
    using assms unfolding hm_entry_result_def by auto
  show "hm_inv hf m'" "hm_map m' = hm_map m" by fact+
  show "hm_map m key \<noteq> None" using hm_map_at [OF ent x(1,2)] x(3) m'(2) by simp
  let ?m = "put_value b (\<lambda>kv. (fst kv, v)) m'"
  have f: "bucket_count ?m = bucket_count m'" "hm_slot ?m = hm_slot m'"
    "hm_table ?m = (hm_table m')[x := (key, v)]" "hm_size ?m = hm_size m'"
    by (simp_all add: put_value_def b x(3))
  note upd = hm_write_value [OF ent x f(1-3)]
  have "m' \<noteq> hm_init" using x(1) by (auto simp: hm_init_def)
  then have k: "\<exists>k. bucket_count m' = 2 ^ k \<and> 2 \<le> k \<and> k \<le> 62" "hm_size m' < bucket_count m'"
    using m'(1) by (auto simp: hm_inv_def)
  have live: "hm_live ?m = hm_live m'" by (rule ext) (simp add: hm_live_def f(2))
  show "hm_inv hf ?m"
    using upd(1) k f hm_inv_entries [OF m'(1)] by (simp add: hm_inv_def live)
  show "hm_map ?m = (hm_map m)(key \<mapsto> v)" using upd(2) m'(2) by simp
  show "bucket_count m' \<le> max (bucket_count m) (8 * (2 * hm_size m + 2))" by (rule lt)
  show "\<exists>x. res_ref b = Some x \<and> x < bucket_count m' \<and> hm_live m' x \<and> fst (hm_table m' ! x) = key"
    using b x by blast
qed

lemma put_value_cong: "(\<And>kv. f kv = g kv) \<Longrightarrow> put_value b f m = put_value b g m"
  by (simp add: put_value_def split: option.split)

lemma hm_insert_or_assign_correct:
  assumes inv: "hm_inv hf m" and sz: "hm_size m \<le> 2 ^ 58"
  shows "\<exists>m' b. hm_insert_or_assign hf (=) mem m key v = Some (m', b) \<and> hm_inv hf m' \<and>
    bucket_count m' \<le> max (bucket_count m) (8 * (2 * hm_size m + 2)) \<and>
    (if res_ref b = None then \<not> inserted b \<and> m' = m \<and> \<not> hm_mem_ok mem
     else hm_map m' = (hm_map m)(key \<mapsto> v) \<and> (inserted b \<longleftrightarrow> hm_map m key = None))"
proof -
  obtain m1 b where b: "hm_insert_entry hf (=) mem m key = Some (m1, b)"
    "if res_ref b = None then \<not> inserted b \<and> m1 = m \<and> \<not> hm_mem_ok mem else hm_entry_result hf m key m1 b"
    using hm_insert_entry_correct [OF inv sz] by blast
  let ?m = "put_value b (\<lambda>kv. (if inserted b then key else fst kv, v)) m1"
  have run: "hm_insert_or_assign hf (=) mem m key v = Some (?m, b)"
    by (simp add: hm_insert_or_assign_def b(1))
  consider "res_ref b = None" | "hm_entry_result hf m key m1 b" "res_ref b \<noteq> None" "inserted b"
    | "hm_entry_result hf m key m1 b" "res_ref b \<noteq> None" "\<not> inserted b"
    using b(2) by (auto split: if_splits)
  then show ?thesis
  proof cases
    case 1
    then have "?m = m" "\<not> inserted b" "\<not> hm_mem_ok mem" using b(2) by (simp_all add: put_value_def)
    then show ?thesis using run 1 inv by simp
  next
    case 2
    have "?m = put_value b (\<lambda>_. (key, v)) m1" by (rule put_value_cong) (simp add: 2)
    then show ?thesis using run 2 hm_entry_new(1,2,4) [OF 2(1,3), of v] hm_entry_new(3) [OF 2(1,3)] by simp
  next
    case 3
    have "?m = put_value b (\<lambda>kv. (fst kv, v)) m1" by (rule put_value_cong) (simp add: 3)
    moreover have "bucket_count (put_value b (\<lambda>kv. (fst kv, v)) m1) = bucket_count m1"
      by (simp add: put_value_def split: option.splits)
    ultimately show ?thesis using run 3 hm_entry_old(4,5) [OF 3(1,3), of v] hm_entry_old(3,6) [OF 3(1,3)] by auto
  qed
qed

lemma hm_insert_correct:
  assumes inv: "hm_inv hf m" and sz: "hm_size m \<le> 2 ^ 58"
  shows "\<exists>m' b. hm_insert hf (=) mem m key v = Some (m', b) \<and> hm_inv hf m' \<and>
    (if res_ref b = None then \<not> inserted b \<and> m' = m \<and> \<not> hm_mem_ok mem
     else (inserted b \<longleftrightarrow> hm_map m key = None) \<and>
       hm_map m' = (if hm_map m key = None then (hm_map m)(key \<mapsto> v) else hm_map m))"
proof -
  obtain m1 b where b: "hm_insert_entry hf (=) mem m key = Some (m1, b)"
    "if res_ref b = None then \<not> inserted b \<and> m1 = m \<and> \<not> hm_mem_ok mem else hm_entry_result hf m key m1 b"
    using hm_insert_entry_correct [OF inv sz] by blast
  have run: "hm_insert hf (=) mem m key v = Some (if inserted b then put_value b (\<lambda>_. (key, v)) m1 else m1, b)"
    by (simp add: hm_insert_def b(1))
  consider "res_ref b = None" | "hm_entry_result hf m key m1 b" "res_ref b \<noteq> None" "inserted b"
    | "hm_entry_result hf m key m1 b" "res_ref b \<noteq> None" "\<not> inserted b"
    using b(2) by (auto split: if_splits)
  then show ?thesis
  proof cases
    case 1
    then show ?thesis using run b(2) inv by simp
  next
    case 2
    then show ?thesis using run hm_entry_new(1,2) [OF 2(1,3), of v] hm_entry_new(3) [OF 2(1,3)] by simp
  next
    case 3
    then show ?thesis using run hm_entry_old(1-3) [OF 3(1,3)] by auto
  qed
qed

text \<open>\<open>_emplace_or_assign\<close> does what \<open>_insert_or_assign\<close> does.\<close>

lemma hm_emplace_or_assign_eq: "hm_emplace_or_assign = hm_insert_or_assign"
proof (intro ext)
  fix hf :: "'a \<Rightarrow> u64" and eq mem m and key :: 'a and v :: 'b
  have "(case mb of (m, b) \<Rightarrow>
        (if inserted b then put_value b (\<lambda>kv. (fst kv, v)) (put_value b (\<lambda>kv. (key, snd kv)) m)
         else if res_ref b = None then m else put_value b (\<lambda>kv. (fst kv, v)) m, b))
      = (case mb of (m, b) \<Rightarrow> (put_value b (\<lambda>kv. (if inserted b then key else fst kv, v)) m, b))"
    for mb :: "('a, 'b) hm \<times> hm_result"
  proof -
    obtain m b where mb: "mb = (m, b)" by (cases mb)
    have "x < length xs \<or> \<not> x < length xs" for x and xs :: "('a \<times> 'b) list" by blast
    then show ?thesis
      by (auto simp: mb put_value_def split: option.splits) (metis fst_conv list_update_beyond not_less nth_list_update_eq)
  qed
  then show "hm_emplace_or_assign hf eq mem m key v = hm_insert_or_assign hf eq mem m key v"
    unfolding hm_emplace_or_assign_def hm_insert_or_assign_def by presburger
qed


section \<open>Erasure\<close>

text \<open>The test of the C code: \<open>k\<close> is outside the cyclic interval from \<open>i\<close> (excluded) to \<open>j\<close>.\<close>

lemma outside_interval:
  assumes "i < n" "j < n" "k < n" "i \<noteq> j"
  shows "((j < i) \<noteq> ((k \<le> i) \<noteq> (j < k))) \<longleftrightarrow> cdist n i j \<le> cdist n k j"
  using assms unfolding cdist_def by auto

text \<open>The entries of all buckets but the hole \<open>i\<close>.\<close>

definition hm_without :: "('k, 'v) hm \<Rightarrow> nat \<Rightarrow> ('k \<times> 'v) multiset" where
  "hm_without m i = mset (entries (bucket_count m) (\<lambda>b. hm_live m b \<and> b \<noteq> i) ((!) (hm_table m)))"

text \<open>
  What holds whenever the loop of \<open>_erase_entry\<close> looks at the next bucket: every bucket but the
  hole \<open>i\<close> is reached, and no entry between the hole and \<open>j\<close> is reached through the hole.
\<close>

definition hm_hole :: "('k \<Rightarrow> u64) \<Rightarrow> ('k, 'v) hm \<Rightarrow> nat \<Rightarrow> nat \<Rightarrow> bool" where
  "hm_hole hf m i j \<longleftrightarrow>
     (let n = bucket_count m; home = (\<lambda>b. hm_home hf n (fst (hm_table m ! b))) in
      i < n \<and> j < n \<and> length (hm_slot m) = n + 1 \<and> hm_slot m ! n = 0xff \<and> length (hm_table m) = n \<and>
      (\<forall>b < n. hm_live m b \<longrightarrow> b \<noteq> i \<longrightarrow>
         hm_slot m ! b = hm_hashx (hf (fst (hm_table m ! b))) \<and> run n (hm_live m) (home b) b) \<and>
      run n (hm_live m) i j \<and>
      (\<forall>b < n. b \<noteq> i \<longrightarrow> cdist n i b \<le> cdist n i j \<longrightarrow> cdist n (home b) b < cdist n i b))"

lemma hm_hole_skip:
  assumes hole: "hm_hole hf m i j" and n: "n = bucket_count m"
    and j': "j' = (if j + 1 = n then 0 else j + 1)" "hm_live m j'" "j' \<noteq> i"
    and near: "cdist n (hm_home hf n (fst (hm_table m ! j'))) j' < cdist n i j'"
  shows "hm_hole hf m i j'"
proof -
  have ij: "i < n" "j < n" using hole n by (simp_all add: hm_hole_def Let_def)
  have j'n: "j' < n" using ij j'(1) by auto
  have suc: "cdist n i j' = Suc (cdist n i j)" by (rule cdist_Suc [OF ij j'(1,3)])
  have "run n (hm_live m) i j'"
    unfolding run_def
  proof (intro allI impI)
    fix d assume d: "d \<le> cdist n i j'"
    show "hm_live m ((i + d) mod n)"
    proof (cases "d = cdist n i j'")
      case True
      then show ?thesis using cdist_walk [OF ij(1) j'n] j'(2) by simp
    next
      case False
      then have "d \<le> cdist n i j" using d suc by simp
      then show ?thesis using hole n by (simp add: hm_hole_def Let_def run_def)
    qed
  qed
  moreover have "cdist n (hm_home hf n (fst (hm_table m ! b))) b < cdist n i b"
    if b: "b < n" "b \<noteq> i" "cdist n i b \<le> cdist n i j'" for b
  proof (cases "b = j'")
    case True
    then show ?thesis using near by simp
  next
    case False
    have "cdist n i b \<noteq> cdist n i j'" using False cdist_walk [OF ij(1) b(1)] cdist_walk [OF ij(1) j'n] by metis
    then have "cdist n i b \<le> cdist n i j" using b(3) suc by simp
    then show ?thesis using hole n b by (simp add: hm_hole_def Let_def)
  qed
  ultimately show ?thesis using hole n j'n by (simp add: hm_hole_def Let_def)
qed

text \<open>Moving the entry of bucket \<open>j'\<close> into the hole: the hole is then \<open>j'\<close>.\<close>

lemma hm_hole_move:
  assumes hole: "hm_hole hf m i j" and n: "n = bucket_count m"
    and j': "j' < n" "hm_live m j'" "j' \<noteq> i" and li: "hm_live m i"
    and far: "cdist n i j' \<le> cdist n (hm_home hf n (fst (hm_table m ! j'))) j'"
    and m': "m' = m\<lparr>hm_table := (hm_table m)[i := hm_table m ! j'], hm_slot := (hm_slot m)[i := hm_slot m ! j']\<rparr>"
  shows "hm_hole hf m' j' j'" and "hm_live m' = hm_live m" and "hm_without m' j' = hm_without m i"
proof -
  have i: "i < n" and len: "length (hm_slot m) = n + 1" "hm_slot m ! n = 0xff" "length (hm_table m) = n"
    using hole n by (simp_all add: hm_hole_def Let_def)
  have entry: "hm_slot m ! b = hm_hashx (hf (fst (hm_table m ! b)))"
    "run n (hm_live m) (hm_home hf n (fst (hm_table m ! b))) b" if "b < n" "hm_live m b" "b \<noteq> i" for b
    using hole n that by (simp_all add: hm_hole_def Let_def)
  have n': "bucket_count m' = n" using n m' by simp
  show live: "hm_live m' = hm_live m"
  proof
    fix b
    have "hm_slot m' ! b = (if b = i then hm_slot m ! j' else hm_slot m ! b)"
      using i len by (simp add: m' nth_list_update)
    then show "hm_live m' b = hm_live m b" using j'(2) li by (simp add: hm_live_def)
  qed
  let ?k = "hm_home hf n (fst (hm_table m ! j'))"
  have k: "?k < n" by (rule home_less) (use i in simp)
  have moved: "run n (hm_live m) ?k i"
  proof (rule run_prefix [OF entry(2) [OF j'] k i])
    show "cdist n ?k i \<le> cdist n ?k j'" using cdist_before [OF k i j'(1) far] by simp
  qed
  have tab: "hm_table m' ! b = (if b = i then hm_table m ! j' else hm_table m ! b)"
    and slo: "hm_slot m' ! b = (if b = i then hm_slot m ! j' else hm_slot m ! b)" for b
    using i len by (simp_all add: m' nth_list_update)
  have own: "run n (hm_live m) j' j'" using j'(1,2) by (simp add: run_def)
  have near: "b = j'" if "b < n" "cdist n j' b \<le> 0" for b
    using cdist_eq_0 [OF j'(1) that(1)] that(2) by simp
  have ent: "hm_slot m' ! b = hm_hashx (hf (fst (hm_table m' ! b)))"
    "run n (hm_live m) (hm_home hf n (fst (hm_table m' ! b))) b"
    if "b < n" "hm_live m b" "b \<noteq> j'" for b
    using entry [OF that(1,2)] entry(1) [OF j'] moved by (simp_all add: tab slo)
  have len': "hm_slot m' ! n = 0xff" "length (hm_slot m') = n + 1" "length (hm_table m') = n"
    using len i slo by (simp_all add: m')
  show "hm_hole hf m' j' j'"
    unfolding hm_hole_def Let_def n' live cdist_self
    by (intro conjI allI impI; (fact j'(1) | fact len' | rule ent; assumption | rule own)?) (use near in blast)
  show "hm_without m' j' = hm_without m i"
  proof -
    let ?A = "{b. b < n \<and> hm_live m b \<and> b \<noteq> i \<and> b \<noteq> j'}"
    have fin: "finite ?A" "i \<notin> ?A" "j' \<notin> ?A" by auto
    have "{b. b < n \<and> hm_live m b \<and> b \<noteq> j'} = insert i ?A" using i li j'(3) by auto
    moreover have "{b. b < n \<and> hm_live m b \<and> b \<noteq> i} = insert j' ?A" using j' by auto
    moreover have "image_mset ((!) (hm_table m')) (mset_set ?A) = image_mset ((!) (hm_table m)) (mset_set ?A)"
      by (rule image_mset_cong) (use fin(1) in \<open>auto simp: tab\<close>)
    ultimately show ?thesis
      using fin n by (simp add: hm_without_def mset_entries n' live tab)
  qed
qed


lemma hm_shift_back_step:
  assumes "j' = (if j + 1 = bucket_count m then 0 else j + 1)" "hm_live m j'"
    and "k = fastrange_2 (hf (fst (hm_table m ! j'))) (bucket_count m)"
    and "((j' < i) \<noteq> ((k \<le> i) \<noteq> (j' < k))) \<longleftrightarrow> c"
  shows "hm_shift_back (Suc fuel) hf m i j =
    (if c then hm_shift_back fuel hf
       (m\<lparr>hm_table := (hm_table m)[i := hm_table m ! j'], hm_slot := (hm_slot m)[i := hm_slot m ! j']\<rparr>) j' j'
     else hm_shift_back fuel hf m i j')"
  using assms(2) unfolding hm_shift_back.simps Let_def assms(1) [symmetric] assms(3) [symmetric] assms(4)
  by (simp add: hm_live_def)

lemma hm_shift_back_correct:
  assumes "hm_hole hf m i j" "hm_live m i" "n = bucket_count m" "n = 2 ^ k" "k \<le> 63"
    and "e < n" "\<not> hm_live m e" "cdist n j e \<le> fuel"
  shows "\<exists>m' i' j'. hm_shift_back fuel hf m i j = Some (m', i') \<and> hm_hole hf m' i' j' \<and> hm_live m' = hm_live m \<and>
    hm_live m i' \<and> hm_without m' i' = hm_without m i \<and> bucket_count m' = n \<and> hm_size m' = hm_size m \<and>
    \<not> hm_live m (if j' + 1 = n then 0 else j' + 1)"
  using assms
proof (induction fuel arbitrary: m i j)
  case 0
  have "i < n" "j < n" using 0(1,3) by (simp_all add: hm_hole_def Let_def)
  then have "j = e" using cdist_eq_0 [of j n e] 0 by simp
  moreover have "hm_live m ((i + cdist n i j) mod n)" using 0(1,3) by (simp add: hm_hole_def Let_def run_def)
  ultimately show ?case using cdist_walk [OF \<open>i < n\<close> \<open>j < n\<close>] 0 by simp
next
  case (Suc fuel)
  let ?j = "if j + 1 = n then 0 else j + 1"
  have ij: "i < n" "j < n" using Suc.prems(1,3) by (simp_all add: hm_hole_def Let_def)
  have jn: "?j < n" using ij by auto
  show ?case
  proof (cases "hm_live m ?j")
    case False
    then have "hm_shift_back (Suc fuel) hf m i j = Some (m, i)"
      using Suc.prems(3) by (simp add: hm_live_def Let_def)
    then show ?thesis using Suc.prems False by blast
  next
    case True
    have "hm_live m ((i + cdist n i j) mod n)" using Suc.prems(1,3) by (simp add: hm_hole_def Let_def run_def)
    then have je: "j \<noteq> e" using cdist_walk [OF ij] Suc.prems(7) by auto
    have fuel: "cdist n ?j e \<le> fuel"
      using cdist_Suc_left [OF Suc.prems(6) ij(2) refl je] Suc.prems(8) by simp
    have ji: "?j \<noteq> i"
    proof
      assume "?j = i"
      then have all: "cdist n i j = n - 1" using ij by (auto simp: cdist_def split: if_splits)
      have "hm_live m ((i + cdist n i e) mod n)"
        using Suc.prems(1,3) all cdist_less [OF ij(1) Suc.prems(6)]
        by (simp add: hm_hole_def Let_def run_def)
      then show False using cdist_walk [OF ij(1) Suc.prems(6)] Suc.prems(7) by simp
    qed
    let ?k = "hm_home hf n (fst (hm_table m ! ?j))"
    have k: "?k = fastrange_2 (hf (fst (hm_table m ! ?j))) n"
      using fastrange_mod [OF Suc.prems(5)] Suc.prems(4) by (simp add: hm_home_def)
    have kn: "?k < n" by (rule home_less) (use ij in simp)
    have test: "((?j < i) \<noteq> ((?k \<le> i) \<noteq> (?j < ?k))) \<longleftrightarrow> cdist n i ?j \<le> cdist n ?k ?j"
      by (rule outside_interval) (use ij(1) jn kn ji in auto)
    let ?m = "m\<lparr>hm_table := (hm_table m)[i := hm_table m ! ?j], hm_slot := (hm_slot m)[i := hm_slot m ! ?j]\<rparr>"
    have step: "hm_shift_back (Suc fuel) hf m i j =
        (if cdist n i ?j \<le> cdist n ?k ?j then hm_shift_back fuel hf ?m ?j ?j
         else hm_shift_back fuel hf m i ?j)"
      by (rule hm_shift_back_step [OF _ True _ test]) (simp only: Suc.prems(3), simp only: k [unfolded Suc.prems(3)] Suc.prems(3))
    show ?thesis
    proof (cases "cdist n i ?j \<le> cdist n ?k ?j")
      case False
      have "hm_hole hf m i ?j"
        by (rule hm_hole_skip [OF Suc.prems(1,3) refl True ji]) (use False in simp)
      then show ?thesis using Suc.IH [of m i ?j] Suc.prems fuel step False by simp
    next
      case far: True
      note move = hm_hole_move [OF Suc.prems(1,3) jn True ji Suc.prems(2) far refl]
      have live: "hm_live ?m ?j" "\<not> hm_live ?m e" using move(2) True Suc.prems(7) by simp_all
      have "\<exists>m' i' j'. hm_shift_back fuel hf ?m ?j ?j = Some (m', i') \<and> hm_hole hf m' i' j' \<and>
          hm_live m' = hm_live ?m \<and> hm_live ?m i' \<and> hm_without m' i' = hm_without ?m ?j \<and>
          bucket_count m' = n \<and> hm_size m' = hm_size ?m \<and> \<not> hm_live ?m (if j' + 1 = n then 0 else j' + 1)"
        by (rule Suc.IH [OF move(1) live(1) _ Suc.prems(4-6) live(2) fuel]) (simp add: Suc.prems(3))
      then show ?thesis using step far move(2,3) by simp
    qed
  qed
qed

text \<open>When the next bucket is empty, the hole can be emptied: no entry is reached through it.\<close>

lemma hm_close_hole:
  assumes hole: "hm_hole hf m i j" and n: "n = bucket_count m" and li: "hm_live m i"
    and stop: "\<not> hm_live m (if j + 1 = n then 0 else j + 1)"
    and inj: "keys_inj n (\<lambda>b. hm_live m b \<and> b \<noteq> i) ((!) (hm_table m))"
    and m': "bucket_count m' = n" "hm_slot m' = (hm_slot m)[i := 0]" "hm_table m' = hm_table m"
  shows "hm_entries_ok hf m'" and "\<And>b. b < n \<Longrightarrow> hm_live m' b \<longleftrightarrow> hm_live m b \<and> b \<noteq> i"
proof -
  have ij: "i < n" "j < n" and len: "length (hm_slot m) = n + 1" "hm_slot m ! n = 0xff" "length (hm_table m) = n"
    and lrun: "run n (hm_live m) i j"
    using hole n by (simp_all add: hm_hole_def Let_def)
  show live: "hm_live m' b \<longleftrightarrow> hm_live m b \<and> b \<noteq> i" if "b < n" for b
    using that ij(1) len(1) by (simp add: hm_live_def m'(2) nth_list_update)
  let ?home = "\<lambda>b. hm_home hf n (fst (hm_table m ! b))"
  have entry: "hm_slot m ! b = hm_hashx (hf (fst (hm_table m ! b))) \<and> run n (hm_live m) (?home b) b"
    if "b < n" "hm_live m b" "b \<noteq> i" for b
    using hole n that by (simp add: hm_hole_def Let_def)
  have path: "run n (hm_live m') (?home b) b" if b: "b < n" "hm_live m b" "b \<noteq> i" for b
    unfolding run_def
  proof (intro allI impI)
    fix d assume d: "d \<le> cdist n (?home b) b"
    let ?h = "?home b" and ?p = "(?home b + d) mod n"
    have h: "?h < n" by (rule home_less) (use ij in simp)
    have lrunb: "run n (hm_live m) ?h b" using entry [OF b] by simp
    have lp: "hm_live m ?p" using lrunb d by (simp add: run_def)
    have pn: "?p < n" using ij by simp
    have "?p \<noteq> i"
    proof
      assume p: "?p = i"
      have dn: "d < n" using d cdist_less [OF h b(1)] by simp
      have "cdist n ?h i = d" using cdist_unique [OF h dn] p by simp
      then have ib: "cdist n i b = cdist n ?h b - d" using cdist_between [OF h ij(1) b(1)] d by simp
      then have sub: "run n (hm_live m) i b"
        by (intro run_suffix [OF lrunb h b(1) ij(1)]) simp
      show False
      proof (cases "cdist n i b \<le> cdist n i j")
        case True
        then have "cdist n ?h b < cdist n i b" using hole n b by (simp add: hm_hole_def Let_def)
        then show False using ib by simp
      next
        case False
        let ?j = "if j + 1 = n then 0 else j + 1"
        have "?j \<noteq> i" using stop li by (metis (full_types))
        then have "cdist n i ?j = Suc (cdist n i j)" by (intro cdist_Suc [OF ij refl])
        then have "cdist n i ?j \<le> cdist n i b" using False by simp
        moreover have "?j < n" using ij(2) by auto
        ultimately show False using sub stop cdist_walk [OF ij(1), of ?j] by (auto simp: run_def)
      qed
    qed
    then show "hm_live m' ?p" using live [OF pn] lp by simp
  qed
  have inj': "keys_inj n (hm_live m') ((!) (hm_table m'))"
    using inj live by (auto simp: keys_inj_def inj_on_def m'(3))
  show "hm_entries_ok hf m'"
    unfolding hm_entries_ok_def m'(1)
  proof (intro conjI allI impI)
    fix b assume b: "b < n" "hm_live m' b"
    then have lb: "hm_live m b" "b \<noteq> i" using live by simp_all
    show "hm_slot m' ! b = hm_hashx (hf (fst (hm_table m' ! b)))"
      using entry [OF b(1) lb] lb(2) by (simp add: m'(2,3))
    show "run n (hm_live m') (hm_home hf n (fst (hm_table m' ! b))) b"
      using path [OF b(1) lb] by (simp add: m'(3))
  qed (use len ij inj' in \<open>simp_all add: m'(2,3)\<close>)
qed

lemma hm_erase_entry_correct:
  assumes inv: "hm_inv hf m" and x: "x < bucket_count m" "hm_live m x"
  shows "\<exists>m'. hm_erase_entry hf m x = Some m' \<and> hm_inv hf m' \<and> bucket_count m' = bucket_count m \<and>
    hm_map m' = (hm_map m)(fst (hm_table m ! x) := None) \<and> hm_size m = hm_size m' + 1"
proof -
  let ?n = "bucket_count m"
  have "m \<noteq> hm_init" using x(1) by (auto simp: hm_init_def)
  then obtain k where k: "?n = 2 ^ k" "2 \<le> k" "k \<le> 62" and ent: "hm_entries_ok hf m"
    and size: "hm_size m = card {i. i < ?n \<and> hm_live m i}" "hm_size m < ?n"
    using inv by (auto simp: hm_inv_def)
  have inj: "keys_inj ?n (hm_live m) ((!) (hm_table m))" using ent by (simp add: hm_entries_ok_def)
  have k63: "k \<le> 63" using k(3) by simp
  have "card {i. i < ?n \<and> hm_live m i} < ?n" using size by simp
  then obtain e where e: "e < ?n" "\<not> hm_live m e" by (rule exists_free_bucket)
  have one: "run ?n (hm_live m) x x" using x by (simp add: run_def)
  have near: "b = x" if "b < ?n" "cdist ?n x b \<le> 0" for b
    using cdist_eq_0 [OF x(1) that(1)] that(2) by simp
  have hole: "hm_hole hf m x x"
    using ent x one near unfolding hm_entries_ok_def hm_hole_def Let_def cdist_self by blast
  have fuel: "cdist ?n x e \<le> ?n" using cdist_less [OF x(1) e(1)] by simp
  obtain m1 i j where m1: "hm_shift_back ?n hf m x x = Some (m1, i)" "hm_hole hf m1 i j"
    "hm_live m1 = hm_live m" "hm_live m i" "hm_without m1 i = hm_without m x" "bucket_count m1 = ?n"
    "hm_size m1 = hm_size m" "\<not> hm_live m (if j + 1 = ?n then 0 else j + 1)"
    using hm_shift_back_correct [OF hole x(2) refl k(1) k63 e fuel] by blast
  let ?m = "m1\<lparr>hm_slot := (hm_slot m1)[i := 0], hm_size := hm_size m1 - 1\<rparr>"
  have in': "i < ?n" using m1(2,6) by (simp add: hm_hole_def Let_def)
  let ?cut = "\<lambda>b. hm_live m b \<and> b \<noteq> x"
  have rem: "keys_inj ?n ?cut ((!) (hm_table m))"
      "map_of (entries ?n ?cut ((!) (hm_table m))) = (hm_map m)(fst (hm_table m ! x) := None)"
    unfolding hm_map_def using entries_remove [OF inj x, of ?cut "(!) (hm_table m)"] by simp_all
  have bags: "mset (entries ?n ?cut ((!) (hm_table m)))
      = mset (entries ?n (\<lambda>b. hm_live m b \<and> b \<noteq> i) ((!) (hm_table m1)))"
    using m1(5) unfolding hm_without_def m1(3,6) by simp
  note same = map_of_entries_mset [OF bags rem(1)]
  have n1: "?n = bucket_count m1" using m1(6) by simp
  have closed: "hm_entries_ok hf ?m" "\<And>b. b < ?n \<Longrightarrow> hm_live ?m b \<longleftrightarrow> hm_live m b \<and> b \<noteq> i"
    using hm_close_hole [OF m1(2) n1 _ _ _ _ _ , of ?m] m1(3,4,8) same(2) n1 by simp_all
  have "entries ?n (hm_live ?m) ((!) (hm_table ?m)) = entries ?n (\<lambda>b. hm_live m b \<and> b \<noteq> i) ((!) (hm_table m1))"
    by (rule entries_cong) (use closed(2) in auto)
  then have map: "hm_map ?m = (hm_map m)(fst (hm_table m ! x) := None)"
    using same(1) rem(2) n1 by (simp add: hm_map_def)
  have card: "Suc (card {b. b < ?n \<and> hm_live ?m b}) = card {b. b < ?n \<and> hm_live m b}"
    by (rule card_live_remove [of i]) (use closed(2) in' m1(4) in auto)
  then have "hm_size m = hm_size ?m + 1" "hm_size ?m = card {b. b < ?n \<and> hm_live ?m b}"
    using size m1(7) by simp_all
  moreover from this have "hm_inv hf ?m"
    using closed(1) k size(2) n1 by (simp add: hm_inv_def)
  ultimately show ?thesis
    using m1(1) map n1 by (simp add: hm_erase_entry_def)
qed

end
