(* ===== verification/Hmap_Shim.thy ===== *)
theory Hmap_Shim
  imports Hmap_Correct Benchmark
begin

text \<open>
  \<open>src/shims/stc_hmap/shim.h\<close>: the shim over STC's hash map and the proof that it keeps the whole
  shim contract, iteration included, for each of the three blueprints; then the properties of the
  hash map.
\<close>

section \<open>Lookup, erasure, clearing\<close>

lemma hm_bucket_lookup:
  assumes inv: "hm_inv hf m" and size: "hm_size m \<noteq> 0"
  obtains b where "hm_bucket hf (=) m key = Some b"
    "if inserted b then hm_map m key = None
     else \<exists>x. res_ref b = Some x \<and> x < bucket_count m \<and> hm_live m x \<and> fst (hm_table m ! x) = key \<and>
       hm_map m key = Some (snd (hm_table m ! x))"
proof -
  have "m \<noteq> hm_init" using size by (auto simp: hm_init_def)
  then obtain k where k: "bucket_count m = 2 ^ k" "k \<le> 63" and ent: "hm_entries_ok hf m"
    and "hm_size m = card {i. i < bucket_count m \<and> hm_live m i}" "hm_size m < bucket_count m"
    using inv by (auto simp: hm_inv_def)
  then obtain e where e: "e < bucket_count m" "\<not> hm_live m e"
    using exists_free_bucket [of "bucket_count m" "hm_live m"] by metis
  show thesis
  proof (rule hm_bucket_correct [OF ent k e, of key])
    fix x ins
    assume b: "hm_bucket hf (=) m key = Some \<lparr>res_ref = Some x, inserted = ins, res_hashx = hm_hashx (hf key)\<rparr>"
      "x < bucket_count m" "hm_live m x \<longleftrightarrow> \<not> ins" "\<not> ins \<longrightarrow> fst (hm_table m ! x) = key"
      "ins \<longrightarrow> hm_map m key = None \<and>
        (\<forall>d < cdist (bucket_count m) (hm_home hf (bucket_count m) key) x.
           hm_live m ((hm_home hf (bucket_count m) key + d) mod bucket_count m))"
    show thesis
      by (rule that [OF b(1)]) (use b(2-5) hm_map_at [OF ent b(2)] in auto)
  qed
qed

lemma hm_empty_map: "hm_inv hf m \<Longrightarrow> hm_size m = 0 \<Longrightarrow> hm_map m = Map.empty"
  using hm_inv_entries [of hf m] by (auto simp: hm_map_def fun_eq_iff map_of_entries_None)

lemma hm_get_correct:
  assumes "hm_inv hf m"
  shows "\<exists>i. hm_get hf (=) m key = Some i \<and>
    (case hm_map m key of None \<Rightarrow> i = None
     | Some v \<Rightarrow> \<exists>x. i = Some x \<and> x < bucket_count m \<and> hm_live m x \<and> hm_table m ! x = (key, v))"
proof (cases "hm_size m = 0")
  case True
  then show ?thesis using hm_empty_map [OF assms] by (simp add: hm_get_def)
next
  case False
  obtain b where "hm_bucket hf (=) m key = Some b"
    "if inserted b then hm_map m key = None
     else \<exists>x. res_ref b = Some x \<and> x < bucket_count m \<and> hm_live m x \<and> fst (hm_table m ! x) = key \<and>
       hm_map m key = Some (snd (hm_table m ! x))"
    by (rule hm_bucket_lookup [OF assms False])
  then show ?thesis using False by (auto simp: hm_get_def prod_eq_iff split: if_splits)
qed

lemma hm_contains_correct:
  assumes "hm_inv hf m"
  shows "hm_contains hf (=) m key = Some (hm_map m key \<noteq> None)"
proof (cases "hm_size m = 0")
  case True
  then show ?thesis using hm_empty_map [OF assms] by (simp add: hm_contains_def)
next
  case False
  obtain b where "hm_bucket hf (=) m key = Some b"
    "if inserted b then hm_map m key = None
     else \<exists>x. res_ref b = Some x \<and> x < bucket_count m \<and> hm_live m x \<and> fst (hm_table m ! x) = key \<and>
       hm_map m key = Some (snd (hm_table m ! x))"
    by (rule hm_bucket_lookup [OF assms False])
  then show ?thesis using False by (auto simp: hm_contains_def split: if_splits)
qed

lemma hm_erase_correct:
  assumes "hm_inv hf m"
  shows "\<exists>m'. hm_erase hf (=) m key = Some (m', if hm_map m key = None then 0 else 1) \<and> hm_inv hf m' \<and>
    hm_map m' = (hm_map m)(key := None) \<and> bucket_count m' = bucket_count m \<and>
    hm_size m = hm_size m' + (if hm_map m key = None then 0 else 1)"
proof (cases "hm_size m = 0")
  case True
  then show ?thesis using hm_empty_map [OF assms] assms by (simp add: hm_erase_def fun_upd_idem)
next
  case False
  obtain b where b: "hm_bucket hf (=) m key = Some b"
    "if inserted b then hm_map m key = None
     else \<exists>x. res_ref b = Some x \<and> x < bucket_count m \<and> hm_live m x \<and> fst (hm_table m ! x) = key \<and>
       hm_map m key = Some (snd (hm_table m ! x))"
    by (rule hm_bucket_lookup [OF assms False])
  show ?thesis
  proof (cases "inserted b")
    case True
    then have "hm_map m key = None" using b(2) by simp
    then show ?thesis using True False b(1) assms by (simp add: hm_erase_def fun_upd_idem)
  next
    case ins: False
    then obtain x where x: "res_ref b = Some x" "x < bucket_count m" "hm_live m x"
      "fst (hm_table m ! x) = key" "hm_map m key = Some (snd (hm_table m ! x))" using b(2) by auto
    then show ?thesis
      using hm_erase_entry_correct [OF assms x(2,3)] False ins b(1) by (auto simp: hm_erase_def)
  qed
qed

lemma hm_clear_correct:
  assumes "hm_inv hf m"
  shows "hm_inv hf (hm_clear m)" and "hm_map (hm_clear m) = Map.empty"
    and "bucket_count (hm_clear m) = bucket_count m"
proof -
  have dead: "\<not> hm_live (hm_clear m) i" if "i < bucket_count m" for i
    using that by (simp add: hm_live_def hm_clear_def nth_append)
  show "bucket_count (hm_clear m) = bucket_count m" by (simp add: hm_clear_def)
  then show "hm_map (hm_clear m) = Map.empty"
    using dead by (auto simp: hm_map_def fun_eq_iff map_of_entries_None)
  show "hm_inv hf (hm_clear m)"
  proof (cases "m = hm_init")
    case True
    then show ?thesis by (simp add: hm_clear_def hm_inv_def hm_init_def)
  next
    case False
    then obtain k where k: "bucket_count m = 2 ^ k" "2 \<le> k" "k \<le> 62" and ent: "hm_entries_ok hf m"
      using assms by (auto simp: hm_inv_def)
    have b: "bucket_count (hm_clear m) = bucket_count m" "hm_table (hm_clear m) = hm_table m"
      "hm_size (hm_clear m) = 0" by (simp_all add: hm_clear_def)
    have "keys_inj (bucket_count m) (hm_live (hm_clear m)) ((!) (hm_table m))"
      using dead by (auto simp: keys_inj_def inj_on_def)
    moreover have "length (hm_slot (hm_clear m)) = bucket_count m + 1"
      "hm_slot (hm_clear m) ! bucket_count m = 0xff"
      using ent by (simp_all add: hm_clear_def hm_entries_ok_def nth_append)
    ultimately have "hm_entries_ok hf (hm_clear m)"
      using ent dead by (simp add: hm_entries_ok_def b)
    moreover have "{i. i < bucket_count m \<and> hm_live (hm_clear m) i} = {}" using dead by auto
    ultimately show ?thesis using k by (simp add: hm_inv_def b)
  qed
qed

section \<open>Iteration\<close>

definition hm_order :: "('k, 'v) hm \<Rightarrow> nat list" where
  "hm_order m = filter (hm_live m) [0..<bucket_count m]"

lemma hm_scan_result:
  assumes "hm_slot m ! n \<noteq> 0" "i \<le> n" "n - i < fuel"
  shows "hm_scan fuel m i = Some (case filter (hm_live m) [i..<n] of [] \<Rightarrow> n | j # _ \<Rightarrow> j)"
  using assms(2,3)
proof (induction fuel arbitrary: i)
  case (Suc fuel)
  show ?case
  proof (cases "i = n")
    case True
    then show ?thesis using assms(1) by simp
  next
    case False
    then have "[i..<n] = i # [Suc i..<n]" using Suc.prems(1) by (simp add: upt_conv_Cons)
    then show ?thesis using Suc.IH [of "Suc i"] Suc.prems False by (simp add: hm_live_def)
  qed
qed simp

lemma hm_sentinel: "hm_inv hf m \<Longrightarrow> hm_slot m \<noteq> [] \<Longrightarrow> hm_slot m ! bucket_count m \<noteq> 0"
  by (auto simp: hm_inv_def hm_init_def hm_entries_ok_def)

lemma hm_begin_result:
  assumes "hm_inv hf m"
  shows "hm_begin m = Some (case hm_order m of [] \<Rightarrow> None | i # _ \<Rightarrow> Some i)"
proof (cases "hm_slot m = []")
  case True
  then have "bucket_count m = 0" using assms by (auto simp: hm_inv_def hm_entries_ok_def hm_init_def)
  then show ?thesis using True by (simp add: hm_begin_def hm_iter_at_def hm_order_def)
next
  case False
  have scan: "hm_scan (bucket_count m + 1) m 0
      = Some (case hm_order m of [] \<Rightarrow> bucket_count m | j # _ \<Rightarrow> j)"
    unfolding hm_order_def by (rule hm_scan_result [OF hm_sentinel [OF assms False]]) simp_all
  show ?thesis
  proof (cases "hm_order m")
    case Nil
    then show ?thesis using False scan by (simp add: hm_begin_def hm_iter_at_def)
  next
    case (Cons j js)
    then have "j < bucket_count m" using filter_upt_hd [of "hm_live m" 0 "bucket_count m" j js]
      by (simp add: hm_order_def)
    then show ?thesis using False scan Cons by (simp add: hm_begin_def hm_iter_at_def)
  qed
qed

lemma hm_next_result:
  assumes "hm_inv hf m" "j < length (hm_order m)"
  shows "hm_next m (Some (hm_order m ! j))
    = Some (if Suc j < length (hm_order m) then Some (hm_order m ! Suc j) else None)"
proof -
  let ?n = "bucket_count m" and ?i = "hm_order m ! j"
  have "?i \<in> set (hm_order m)" using assms(2) by simp
  then have i: "?i < ?n" by (simp add: hm_order_def)
  then have "hm_slot m \<noteq> []" using assms(1) by (auto simp: hm_inv_def hm_init_def hm_entries_ok_def)
  then have "hm_slot m ! ?n \<noteq> 0" by (rule hm_sentinel [OF assms(1)])
  then have scan: "hm_scan ?n m (Suc ?i) = Some (case filter (hm_live m) [Suc ?i..<?n] of [] \<Rightarrow> ?n | j # _ \<Rightarrow> j)"
    by (rule hm_scan_result) (use i in auto)
  have rest: "filter (hm_live m) [Suc ?i..<?n] = drop (Suc j) (hm_order m)"
    unfolding hm_order_def by (rule filter_upt_after) (use assms(2) in \<open>simp add: hm_order_def\<close>)
  show ?thesis
  proof (cases "Suc j < length (hm_order m)")
    case True
    then have "hm_order m ! Suc j \<in> set (hm_order m)" by simp
    then have "hm_order m ! Suc j < ?n" by (simp add: hm_order_def)
    then show ?thesis using True scan rest by (simp add: hm_next_def hm_iter_at_def Cons_nth_drop_Suc [symmetric])
  next
    case False
    then show ?thesis using scan rest by (simp add: hm_next_def hm_iter_at_def)
  qed
qed

lemma hm_order_keys:
  assumes "hm_inv hf m"
  shows "distinct (map (\<lambda>i. fst (hm_table m ! i)) (hm_order m))"
    and "(\<lambda>i. fst (hm_table m ! i)) ` set (hm_order m) = dom (hm_map m)"
proof -
  let ?l = "entries (bucket_count m) (hm_live m) ((!) (hm_table m))"
  have keys: "map (\<lambda>i. fst (hm_table m ! i)) (hm_order m) = map fst ?l"
    by (simp add: hm_order_def entries_def)
  show "distinct (map (\<lambda>i. fst (hm_table m ! i)) (hm_order m))"
    unfolding keys distinct_entries using hm_inv_entries [OF assms] by simp
  have "(\<lambda>i. fst (hm_table m ! i)) ` set (hm_order m) = set (map fst ?l)"
    using arg_cong [OF keys, of set] by simp
  then show "(\<lambda>i. fst (hm_table m ! i)) ` set (hm_order m) = dom (hm_map m)"
    by (simp add: hm_map_def dom_map_of_conv_image_fst)
qed

text \<open>The keys in iteration order, and the position of an iterator.\<close>

definition hm_keys :: "('k, 'v) hm \<Rightarrow> 'k list" where
  "hm_keys m = map (\<lambda>i. fst (hm_table m ! i)) (hm_order m)"

definition hm_at :: "('k, 'v) hm \<Rightarrow> nat option \<Rightarrow> nat \<Rightarrow> bool" where
  "hm_at m i j \<longleftrightarrow> j < length (hm_order m) \<and> i = Some (hm_order m ! j)"

section \<open>The shim and its contract\<close>

definition hm_shim_ops ::
  "('k \<Rightarrow> u64) \<Rightarrow> ('k \<Rightarrow> 'k \<Rightarrow> bool) \<Rightarrow> (('k, 'v) hm \<Rightarrow> ('k, 'v) hm_mem) \<Rightarrow> 'v
     \<Rightarrow> (('k, 'v) hm, 'k, 'v, nat option) shim_ops" where
  "hm_shim_ops hf eq mem dflt =
    \<lparr>create_table = hm_init,
     sh_insert = (\<lambda>m key. map_option fst (hm_insert_or_assign hf eq (mem m) m key dflt)),
     sh_erase = (\<lambda>m key. map_option fst (hm_erase hf eq m key)),
     sh_find = hm_get hf eq,
     begin_itr = hm_begin,
     is_itr_valid = (\<lambda>m itr. itr \<noteq> None),
     increment_itr = hm_next,
     get_key_from_itr = (\<lambda>m itr. fst (hm_table m ! the itr)),
     get_value_from_itr = (\<lambda>m itr. snd (hm_table m ! the itr))\<rparr>"

lemma hm_size_card: "hm_inv hf m \<Longrightarrow> hm_size m = card (dom (hm_map m))"
proof -
  assume inv: "hm_inv hf m"
  let ?l = "entries (bucket_count m) (hm_live m) ((!) (hm_table m))"
  have "dom (hm_map m) = set (map fst ?l)" by (simp add: hm_map_def dom_map_of_conv_image_fst)
  moreover have "distinct (map fst ?l)" unfolding distinct_entries using hm_inv_entries [OF inv] by simp
  ultimately show ?thesis
    using hm_inv_entries [OF inv] distinct_card [of "map fst ?l"] by (simp add: length_entries)
qed

lemma hm_shim_keeps_contract:
  assumes mem: "\<And>m. hm_mem_ok (mem m)"
  shows "iterable_shim (hm_shim_ops hf (=) mem dflt) (hm_inv hf) hm_map dflt (2 ^ 40) hm_keys hm_at"
proof (unfold_locales, goal_cases)
  case 1
  then show ?case by (simp add: hm_shim_ops_def hm_inv_init)
next
  case 2
  then show ?case by (simp add: hm_shim_ops_def hm_map_init)
next
  case (3 t key)
  have "hm_size t \<le> 2 ^ 58" using 3 hm_size_card [OF 3(1)] by simp
  from hm_insert_or_assign_correct [OF 3(1) this, of "mem t" key dflt] show ?case
    using mem [of t] by (auto simp: hm_shim_ops_def split: if_splits)
next
  case (4 t key)
  then show ?case using hm_erase_correct [of hf t key] by (auto simp: hm_shim_ops_def)
next
  case (5 t key)
  then show ?case
    using hm_get_correct [of hf t key] by (auto simp: hm_shim_ops_def split: option.splits)
next
  case (6 t i j)
  then show ?case by (auto simp: hm_shim_ops_def hm_at_def hm_keys_def)
next
  case (7 t)
  then show ?case using hm_order_keys [of hf t] by (simp add: hm_keys_def)
next
  case (8 t)
  then show ?case
    using hm_begin_result [of hf t] by (auto simp: hm_shim_ops_def hm_at_def hm_keys_def split: list.splits)
next
  case (9 t i j)
  then show ?case using hm_next_result [of hf t j] by (auto simp: hm_shim_ops_def hm_at_def hm_keys_def)
next
  case (10 t key i)
  then obtain x where x: "i = Some x" "x < bucket_count t" "hm_live t x"
    using hm_get_correct [of hf t key] by (auto simp: hm_shim_ops_def split: option.splits)
  then have "x \<in> set (hm_order t)" by (simp add: hm_order_def)
  then show ?case using x(1) by (auto simp: hm_at_def in_set_conv_nth)
qed

definition hm_good_mem :: "'k \<Rightarrow> 'v \<Rightarrow> ('k, 'v) hm_mem" where
  "hm_good_mem fk fv = \<lparr>table_ok = True, slot_ok = True, fresh_value = (fk, fv)\<rparr>"

lemma hm_good_mem_ok [simp]: "hm_mem_ok (hm_good_mem fk fv)"
  by (simp add: hm_mem_ok_def hm_good_mem_def)

interpretation hm_uint32: iterable_shim
  "hm_shim_ops hash_key_uint32 cmpr_keys_uint32 (\<lambda>m. hm_good_mem fk fv) dflt" "hm_inv hash_key_uint32"
  hm_map dflt "2 ^ 40" hm_keys hm_at for fk and fv dflt :: u32
  unfolding bp_uint32.cmpr_is_eq by (rule hm_shim_keeps_contract) simp

interpretation hm_uint64: iterable_shim
  "hm_shim_ops hash_key_uint64 cmpr_keys_uint64 (\<lambda>m. hm_good_mem fk fv) dflt" "hm_inv hash_key_uint64"
  hm_map dflt "2 ^ 40" hm_keys hm_at for fk and fv dflt :: "u8 list"
  unfolding bp_uint64.cmpr_is_eq by (rule hm_shim_keeps_contract) simp

interpretation hm_cstring: iterable_shim
  "hm_shim_ops hash_key_cstring cmpr_keys_cstring (\<lambda>m. hm_good_mem fk fv) dflt" "hm_inv hash_key_cstring"
  hm_map dflt "2 ^ 40" hm_keys hm_at for fk and fv dflt :: u64
  unfolding bp_cstring.cmpr_is_eq by (rule hm_shim_keeps_contract) simp


section \<open>Comparison and cloning\<close>

lemma hm_eq_loop_result:
  assumes inv: "hm_inv hf m" "hm_inv hf other" and "length (hm_order m) - j < fuel" "j \<le> length (hm_order m)"
  shows "hm_eq_loop fuel hf (=) m other (if j < length (hm_order m) then Some (hm_order m ! j) else None)
    = Some (\<forall>i \<in> set (drop j (hm_order m)). hm_map other (fst (hm_table m ! i)) \<noteq> None)"
  using assms(3,4)
proof (induction fuel arbitrary: j)
  case (Suc fuel)
  let ?o = "hm_order m"
  show ?case
  proof (cases "j < length ?o")
    case True
    have "hm_eq_loop fuel hf (=) m other (if Suc j < length ?o then Some (?o ! Suc j) else None)
        = Some (\<forall>i \<in> set (drop (Suc j) ?o). hm_map other (fst (hm_table m ! i)) \<noteq> None)"
      using Suc.prems True by (intro Suc.IH) auto
    then show ?thesis
      using True hm_contains_correct [OF inv(2), of "fst (hm_table m ! (?o ! j))"]
        hm_next_result [OF inv(1) True] Cons_nth_drop_Suc [OF True, symmetric]
      by simp
  next
    case False
    then show ?thesis by simp
  qed
qed simp

lemma hm_eq_correct:
  assumes inv: "hm_inv hf m" "hm_inv hf other"
  shows "hm_eq hf (=) m other = Some (dom (hm_map m) = dom (hm_map other))"
proof (cases "hm_size m = hm_size other")
  case False
  then show ?thesis using hm_size_card [OF inv(1)] hm_size_card [OF inv(2)] by (auto simp: hm_eq_def)
next
  case True
  let ?o = "hm_order m"
  have "length ?o \<le> length [0..<bucket_count m]" unfolding hm_order_def by (rule length_filter_le)
  then have "hm_eq_loop (bucket_count m + 1) hf (=) m other (if 0 < length ?o then Some (?o ! 0) else None)
      = Some (\<forall>i \<in> set (drop 0 ?o). hm_map other (fst (hm_table m ! i)) \<noteq> None)"
    by (intro hm_eq_loop_result [OF inv]) simp_all
  moreover have "hm_begin m = Some (if 0 < length ?o then Some (?o ! 0) else None)"
    using hm_begin_result [OF inv(1)] by (simp split: list.splits)
  ultimately have "hm_eq hf (=) m other
      = Some (\<forall>k \<in> (\<lambda>i. fst (hm_table m ! i)) ` set ?o. hm_map other k \<noteq> None)"
    using True by (simp add: hm_eq_def)
  also have "(\<forall>k \<in> (\<lambda>i. fst (hm_table m ! i)) ` set ?o. hm_map other k \<noteq> None)
      \<longleftrightarrow> dom (hm_map m) \<subseteq> dom (hm_map other)"
    unfolding hm_order_keys(2) [OF inv(1)] by auto
  also have "\<dots> \<longleftrightarrow> dom (hm_map m) = dom (hm_map other)"
  proof
    assume sub: "dom (hm_map m) \<subseteq> dom (hm_map other)"
    have "finite (dom (hm_map other))" by (simp add: hm_map_def finite_dom_map_of)
    moreover have "card (dom (hm_map m)) = card (dom (hm_map other))"
      using True hm_size_card [OF inv(1)] hm_size_card [OF inv(2)] by simp
    ultimately show "dom (hm_map m) = dom (hm_map other)" using sub card_subset_eq by blast
  qed simp
  finally show ?thesis .
qed

lemma hm_clone_correct:
  assumes inv: "hm_inv hf m" and mem: "hm_mem_ok mem"
  shows "\<exists>m'. hm_clone mem m = Some m' \<and> hm_inv hf m' \<and> hm_map m' = hm_map m"
proof (cases "bucket_count m = 0")
  case True
  then show ?thesis using inv by (simp add: hm_clone_def)
next
  case False
  then have ent: "hm_entries_ok hf m" and "m \<noteq> hm_init" using inv by (auto simp: hm_inv_def hm_init_def)
  let ?t = "map (\<lambda>i. if hm_slot m ! i \<noteq> 0 then hm_table m ! i else fresh_value mem) [0..<bucket_count m]"
  let ?m = "m\<lparr>hm_table := ?t\<rparr>"
  have live: "hm_live ?m = hm_live m" by (rule ext) (simp add: hm_live_def)
  have same: "hm_table ?m ! i = hm_table m ! i" if "i < bucket_count m" "hm_live m i" for i
    using that by (simp add: hm_live_def)
  have e: "entries (bucket_count m) (hm_live m) ((!) ?t) = entries (bucket_count m) (hm_live m) ((!) (hm_table m))"
    by (rule entries_cong) (use same in auto)
  have inj: "keys_inj (bucket_count m) (hm_live m) ((!) ?t)"
    using hm_inv_entries [OF inv] unfolding distinct_entries [symmetric] e by simp
  have b: "bucket_count ?m = bucket_count m" "hm_slot ?m = hm_slot m" "hm_size ?m = hm_size m"
    "hm_table ?m = ?t" by simp_all
  have "length ?t = bucket_count m" by simp
  then have "hm_entries_ok hf ?m"
    using ent same inj unfolding hm_entries_ok_def live b by simp
  then have "hm_inv hf ?m" using inv \<open>m \<noteq> hm_init\<close> unfolding hm_inv_def live b by blast
  moreover have "hm_map ?m = hm_map m" using e by (simp add: hm_map_def live)
  moreover have "hm_clone mem m = Some ?m" using False mem by (simp add: hm_clone_def hm_mem_ok_def)
  ultimately show ?thesis by blast
qed

section \<open>An example table\<close>

definition hm_example_ops :: "((u32, u32) hm, u32, u32, nat option) shim_ops" where
  "hm_example_ops = hm_shim_ops hash_key_uint32 cmpr_keys_uint32 (\<lambda>m. hm_good_mem 0 0) 9"

definition hm_example :: "(u32, u32) hm" where
  "hm_example = the (run_shim hm_example_ops [Insert 1, Insert 2, Insert 3, Erase 2] hm_init)"

lemma hm_example_inv: "hm_inv hash_key_uint32 hm_example"
  and hm_example_map: "hm_map hm_example = [1 \<mapsto> 9, 3 \<mapsto> 9]"
proof -
  have "\<exists>t. run_shim hm_example_ops [Insert 1, Insert 2, Insert 3, Erase 2] hm_init = Some t \<and>
      hm_inv hash_key_uint32 t \<and> hm_map t = run_map 9 [Insert 1, Insert 2, Insert 3, Erase 2] (hm_map hm_init)"
    unfolding hm_example_ops_def
    by (rule hm_uint32.history_simulated) (simp_all add: hm_map_init hm_inv_init)
  then show "hm_inv hash_key_uint32 hm_example" "hm_map hm_example = [1 \<mapsto> 9, 3 \<mapsto> 9]"
    by (auto simp: hm_example_def hm_map_init fun_eq_iff)
qed

lemma hm_example_size: "hm_size hm_example = 2"
proof -
  have "dom (hm_map hm_example) = {1, 3}" by (simp add: hm_example_map insert_commute)
  then show ?thesis using hm_size_card [OF hm_example_inv] by simp
qed

section \<open>Properties\<close>

text \<open>C4: STC's hash map behind its shim implements a map: after any sequence of up to \<open>2 ^ 40\<close>
  insertions and erasures of 32-bit keys, starting from a new table and with allocations that
  succeed, every call has returned, and \<open>find\<close> gives a valid iterator exactly to the keys the same
  sequence leaves in the map, with the value the shim stored.\<close>

theorem stc_shim_implements_map:
  fixes fv dflt :: u32
  assumes "length calls \<le> 2 ^ 40"
  shows "\<exists>m itr.
    run_shim (hm_shim_ops hash_key_uint32 cmpr_keys_uint32 (\<lambda>m. hm_good_mem fk fv) dflt) calls hm_init = Some m \<and>
    hm_get hash_key_uint32 cmpr_keys_uint32 m key = Some itr \<and>
    (itr \<noteq> None \<longleftrightarrow> run_map dflt calls Map.empty key \<noteq> None) \<and>
    (itr \<noteq> None \<longrightarrow> fst (hm_table m ! the itr) = key \<and>
      run_map dflt calls Map.empty key = Some (snd (hm_table m ! the itr)))"
  using hm_uint32.history_lookup [OF assms, where fk = fk and fv = fv and dflt = dflt and key = key]
  by (simp add: hm_shim_ops_def)

theorem stc_shim_implements_map_witness:
  "\<exists>m itr.
    run_shim (hm_shim_ops hash_key_uint32 cmpr_keys_uint32 (\<lambda>m. hm_good_mem 0 0) (7 :: u32))
      [Insert 5, Insert 6, Erase 5] hm_init = Some m \<and>
    hm_get hash_key_uint32 cmpr_keys_uint32 m 6 = Some itr \<and> itr \<noteq> None \<and>
    snd (hm_table m ! the itr) = 7"
  using stc_shim_implements_map [of "[Insert 5, Insert 6, Erase 5]" 0 0 7 6] by auto

text \<open>C20: \<open>insert_or_assign\<close> with any allocator. It returns; if it gives no reference an allocation has
  failed and the table is untouched; otherwise the map is updated at the key and nowhere else, and
  the result says whether the key is new. \<open>emplace_or_assign\<close> is the same operation.\<close>

theorem stc_insert_or_assign_any_allocator:
  assumes "hm_inv hf m" and "hm_size m \<le> 2 ^ 58"
  shows "\<exists>m' b. hm_insert_or_assign hf (=) mem m key v = Some (m', b) \<and> hm_inv hf m' \<and>
    hm_emplace_or_assign hf (=) mem m key v = Some (m', b) \<and>
    (if res_ref b = None then \<not> (table_ok mem \<and> slot_ok mem) \<and> m' = m \<and> \<not> inserted b
     else hm_map m' = (hm_map m)(key \<mapsto> v) \<and> (inserted b \<longleftrightarrow> hm_map m key = None))"
proof -
  obtain m' b where "hm_insert_or_assign hf (=) mem m key v = Some (m', b)" "hm_inv hf m'"
    "if res_ref b = None then \<not> inserted b \<and> m' = m \<and> \<not> hm_mem_ok mem
     else hm_map m' = (hm_map m)(key \<mapsto> v) \<and> (inserted b \<longleftrightarrow> hm_map m key = None)"
    using hm_insert_or_assign_correct [OF assms, of mem key v] by blast
  then show ?thesis
    unfolding hm_emplace_or_assign_eq hm_mem_ok_def by (intro exI [of _ m'] exI [of _ b]) (simp split: if_splits)
qed

theorem stc_insert_or_assign_any_allocator_witness:
  "\<exists>m' b. hm_insert_or_assign hash_key_uint32 (=) (hm_good_mem 0 0) hm_example 3 5 = Some (m', b) \<and>
    \<not> inserted b \<and> hm_map m' = [1 \<mapsto> 9, 3 \<mapsto> 5]"
proof -
  have "\<exists>m' b. hm_insert_or_assign hash_key_uint32 (=) (hm_good_mem 0 0) hm_example 3 5 = Some (m', b) \<and>
      hm_inv hash_key_uint32 m' \<and>
      hm_emplace_or_assign hash_key_uint32 (=) (hm_good_mem 0 0) hm_example 3 5 = Some (m', b) \<and>
      (if res_ref b = None then \<not> (table_ok (hm_good_mem 0 0 :: (u32, u32) hm_mem) \<and>
          slot_ok (hm_good_mem 0 0 :: (u32, u32) hm_mem)) \<and> m' = hm_example \<and> \<not> inserted b
       else hm_map m' = (hm_map hm_example)(3 \<mapsto> 5) \<and> (inserted b \<longleftrightarrow> hm_map hm_example 3 = None))"
    by (rule stc_insert_or_assign_any_allocator [OF hm_example_inv]) (simp add: hm_example_size)
  then show ?thesis by (auto simp: hm_example_map hm_good_mem_def split: if_splits)
qed

text \<open>C9: \<open>erase\<close> returns 1 and removes the key when it is in the map, returns 0 and changes nothing
  in the map otherwise; the entries it shifts back stay reachable, and no tombstone is left: the
  number of buckets in use is the number of keys.\<close>

theorem stc_erase_removes:
  assumes "hm_inv hf m"
  shows "\<exists>m'. hm_erase hf (=) m key = Some (m', if hm_map m key = None then 0 else 1) \<and> hm_inv hf m' \<and>
    hm_map m' = (hm_map m)(key := None) \<and>
    card {i. i < bucket_count m' \<and> hm_slot m' ! i \<noteq> 0} = card (dom (hm_map m'))"
proof -
  obtain m' where m': "hm_erase hf (=) m key = Some (m', if hm_map m key = None then 0 else 1)" "hm_inv hf m'"
    "hm_map m' = (hm_map m)(key := None)"
    using hm_erase_correct [OF assms] by blast
  have "card {i. i < bucket_count m' \<and> hm_slot m' ! i \<noteq> 0} = card (dom (hm_map m'))"
    using hm_size_card [OF m'(2)] hm_inv_entries [OF m'(2)] by (simp add: hm_live_def)
  then show ?thesis using m' by blast
qed

theorem stc_erase_removes_witness:
  "\<exists>m'. hm_erase hash_key_uint32 (=) hm_example 3 = Some (m', 1) \<and> hm_map m' = [1 \<mapsto> 9]"
  using stc_erase_removes [OF hm_example_inv, of 3] by (auto simp: hm_example_map fun_upd_twist)

text \<open>\<open>reserve\<close> (and with it \<open>with_capacity\<close> and \<open>shrink_to_fit\<close>) never loses an entry: with any
  allocator and for any capacity from the size to \<open>2 ^ 60\<close> it returns, keeps the invariant and the
  map, and on failure leaves the table as it was; a new table has more buckets than the capacity
  asked for.\<close>

theorem stc_reserve_keeps_entries:
  assumes "hm_inv hf m" and "hm_size m \<le> c" and "c \<le> 2 ^ 60"
  shows "\<exists>m' ok. hm_reserve hf (=) mem m c = Some (m', ok) \<and> hm_inv hf m' \<and> hm_map m' = hm_map m \<and>
    (ok \<longrightarrow> c \<le> bucket_count m') \<and> (\<not> ok \<longrightarrow> m' = m)"
proof (cases "c \<noteq> hm_size m \<and> c \<le> bucket_count m")
  case True
  then have "hm_reserve hf (=) mem m c = Some (m, True)" by (simp add: hm_reserve_def)
  then show ?thesis using assms(1) True by blast
next
  case False
  show ?thesis
  proof (cases "hm_mem_ok mem")
    case True
    obtain m' where "hm_reserve hf (=) mem m c = Some (m', True)" "hm_inv hf m'" "hm_map m' = hm_map m"
      "c + 2 < bucket_count m'"
      by (rule hm_reserve_grow [OF assms False True])
    then show ?thesis by fastforce
  next
    case mem: False
    have "hm_reserve hf (=) mem m c = Some (m, False)"
      unfolding hm_reserve_def if_not_P [OF False] using mem by (simp add: hm_mem_ok_def)
    then show ?thesis using assms(1) by blast
  qed
qed

theorem stc_reserve_keeps_entries_witness:
  "\<exists>m' ok. hm_reserve hash_key_uint32 (=) (hm_good_mem 0 0) hm_example 1000 = Some (m', ok) \<and>
    hm_map m' = [1 \<mapsto> 9, 3 \<mapsto> 9]"
  using stc_reserve_keeps_entries [OF hm_example_inv, of 1000 "hm_good_mem 0 0"]
  by (auto simp: hm_example_size hm_example_map)

text \<open>Iteration with \<open>begin\<close> and \<open>next\<close> visits each key of the map exactly once and then reaches
  the end: there is a list of buckets with pairwise different keys, all keys of the map, along which
  \<open>next\<close> steps.\<close>

theorem stc_iteration_visits_each_key:
  assumes "hm_inv hf m"
  shows "\<exists>bs. distinct (map (\<lambda>i. fst (hm_table m ! i)) bs) \<and>
    (\<lambda>i. fst (hm_table m ! i)) ` set bs = dom (hm_map m) \<and>
    hm_begin m = Some (case bs of [] \<Rightarrow> None | i # _ \<Rightarrow> Some i) \<and>
    (\<forall>j < length bs. hm_next m (Some (bs ! j)) = Some (if Suc j < length bs then Some (bs ! Suc j) else None))"
  using hm_order_keys [OF assms] hm_begin_result [OF assms] hm_next_result [OF assms] by blast

theorem stc_iteration_visits_each_key_witness:
  "\<exists>bs. (\<lambda>i. fst (hm_table hm_example ! i)) ` set bs = {1, 3} \<and>
    hm_begin hm_example = Some (case bs of [] \<Rightarrow> None | i # _ \<Rightarrow> Some i)"
proof -
  have "dom (hm_map hm_example) = {1, 3}" by (simp add: hm_example_map insert_commute)
  then show ?thesis using stc_iteration_visits_each_key [OF hm_example_inv] by metis
qed

text \<open>\<open>eq\<close> of two maps terminates and compares their key sets only: maps that hold different
  values for the same keys are equal for it.\<close>

theorem stc_eq_compares_keys:
  assumes "hm_inv hf m" and "hm_inv hf other"
  shows "hm_eq hf (=) m other = Some (dom (hm_map m) = dom (hm_map other))"
  by (rule hm_eq_correct [OF assms])

theorem stc_eq_compares_keys_witness:
  "hm_eq hash_key_uint32 (=) hm_example hm_init = Some False"
  using stc_eq_compares_keys [OF hm_example_inv hm_inv_init] by (simp add: hm_map_init hm_example_map)

text \<open>C40: \<open>clone\<close> copies the map when both allocations succeed. When the allocation of the values
  fails, the clone of a nonempty map claims the size of the original but has no buckets, and every
  lookup in it leaves its null arrays.\<close>

theorem stc_clone_copies_or_breaks:
  assumes "hm_inv hf m" and "hm_size m \<noteq> 0" and "slot_ok mem"
  shows "\<exists>m'. hm_clone mem m = Some m' \<and>
    (if table_ok mem then hm_inv hf m' \<and> hm_map m' = hm_map m
     else hm_size m' = hm_size m \<and> bucket_count m' = 0 \<and> hm_table m' = [] \<and> hm_get hf (=) m' key = None)"
proof (cases "table_ok mem")
  case True
  then have "hm_mem_ok mem" using assms(3) by (simp add: hm_mem_ok_def)
  then show ?thesis using hm_clone_correct [OF assms(1)] True by simp
next
  case False
  have "bucket_count m \<noteq> 0" using assms(1,2) by (auto simp: hm_inv_def hm_init_def)
  then show ?thesis
    using False assms(2,3) by (simp add: hm_clone_def hm_get_def hm_bucket_def)
qed

theorem stc_clone_copies_or_breaks_witness:
  "\<exists>m'. hm_clone ((hm_good_mem 0 0)\<lparr>table_ok := False\<rparr>) hm_example = Some m' \<and>
    hm_size m' = 2 \<and> hm_get hash_key_uint32 (=) m' 1 = None"
  using stc_clone_copies_or_breaks [OF hm_example_inv, of "(hm_good_mem 0 0)\<lparr>table_ok := False\<rparr>" 1]
  by (auto simp: hm_example_size hm_good_mem_def)

end
