(* ===== verification/Verstable.thy ===== *)
theory Verstable
  imports Prelude
begin

text \<open>
  Verstable, \<open>src/shims/verstable/verstable.h\<close>, instantiated as the shim does: no context, no
  destructors, a maximum load of 0.875. Keys that share a home bucket form a chain through the
  buckets, ordered by quadratic displacement; each bucket has a 16-bit metadatum with four bits of
  the hash code, the flag that the bucket starts a chain, and the displacement of the next key.
  \<open>hf\<close> is \<open>HASH_FN\<close>, \<open>eq\<close> is \<open>CMPR_FN\<close>. Pointers into the arrays are indices. A result \<open>None\<close> of an
  operation as a whole means that the C code does not return (or, in the loops that double the bucket
  count, that the count exceeds \<open>size_t\<close>).
\<close>

section \<open>Metadata\<close>

definition VT_EMPTY :: u16 where "VT_EMPTY = 0x0000"
definition VT_HASH_FRAG_MASK :: u16 where "VT_HASH_FRAG_MASK = 0xF000"
definition VT_IN_HOME_BUCKET_MASK :: u16 where "VT_IN_HOME_BUCKET_MASK = 0x0800"
definition VT_DISPLACEMENT_MASK :: u16 where "VT_DISPLACEMENT_MASK = 0x07FF"
definition VT_MIN_NONZERO_BUCKET_COUNT :: nat where "VT_MIN_NONZERO_BUCKET_COUNT = 8"

definition vt_hashfrag :: "u64 \<Rightarrow> u16" where
  "vt_hashfrag hash = ucast (drop_bit 48 hash AND ucast VT_HASH_FRAG_MASK)"

text \<open>The argument is a \<open>uint16_t\<close> widened to \<open>size_t\<close>, so nothing overflows.\<close>

definition vt_quadratic :: "nat \<Rightarrow> nat" where
  "vt_quadratic displacement = (displacement * displacement + displacement) div 2"

text \<open>The displacement field of a metadatum, and a metadatum with that field replaced.\<close>

definition vt_disp :: "u16 \<Rightarrow> nat" where
  "vt_disp md = unat (md AND VT_DISPLACEMENT_MASK)"

definition vt_set_disp :: "u16 \<Rightarrow> u16 \<Rightarrow> u16" where
  "vt_set_disp md disp = (md AND NOT VT_DISPLACEMENT_MASK) OR disp"

section \<open>The left-most nonzero metadatum of four\<close>

text \<open>\<open>__builtin_ctzll\<close> of a nonzero word, by testing bits upwards.\<close>

fun ctz_from :: "nat \<Rightarrow> u64 \<Rightarrow> nat \<Rightarrow> nat" where
  "ctz_from 0 val i = i"
| "ctz_from (Suc fuel) val i = (if bit val i then i else ctz_from fuel val (i + 1))"

text \<open>The compiler-intrinsic version on a little-endian machine.\<close>

definition vt_first_nonzero_uint16 :: "u64 \<Rightarrow> nat" where
  "vt_first_nonzero_uint16 val = ctz_from 64 val 0 div 16"

text \<open>
  The portable version, which copies halves and quarters of the word out of memory: \<open>quarter i\<close> is
  the 16-bit field \<open>i\<close> in memory order.
\<close>

definition vt_first_nonzero_portable :: "u64 \<Rightarrow> nat" where
  "vt_first_nonzero_portable val =
    (let result = 0;
         half = (ucast val :: u32);
         result = (if half = 0 then result + 2 else result);
         quarter = (ucast (drop_bit (16 * result) val) :: u16)
     in if quarter = 0 then result + 1 else result)"

section \<open>Default hash functions\<close>

definition vt_hash_integer :: "u64 \<Rightarrow> u64" where
  "vt_hash_integer key =
    (let key = key XOR drop_bit 23 key; key = key * 0x2127599bf4325c37; key = key XOR drop_bit 47 key
     in key)"

fun vt_hash_string_loop :: "u64 \<Rightarrow> u8 list \<Rightarrow> u64" where
  "vt_hash_string_loop hash [] = hash"
| "vt_hash_string_loop hash (c # cs) =
    (if c = 0 then hash else vt_hash_string_loop ((ucast c XOR hash) * 0x100000001b3) cs)"

definition vt_hash_string :: "u8 list \<Rightarrow> u64" where
  "vt_hash_string key = vt_hash_string_loop 0xcbf29ce484222325 key"

section \<open>The table\<close>

text \<open>
  \<open>metadata\<close> has \<open>bucket_count + 4\<close> elements, the first after the buckets being the iteration
  stopper; without buckets it is the placeholder.
\<close>

record ('k, 'v) vt =
  key_count :: nat
  buckets_mask :: nat
  buckets :: "('k \<times> 'v) list"
  metadata :: "u16 list"

text \<open>
  An iterator has the index of its bucket and, when known, its home bucket (\<open>SIZE_MAX\<close> is \<open>None\<close>);
  the end iterator of null pointers is \<open>None\<close>.
\<close>

record vt_itr =
  itr_bucket :: nat
  home_bucket :: "nat option"

text \<open>Whether \<open>MALLOC_FN\<close> succeeds for a bucket count, and what a fresh bucket holds.\<close>

record ('k, 'v) vt_mem =
  alloc_ok :: "nat \<Rightarrow> bool"
  fresh_bucket :: "'k \<times> 'v"

definition vt_init :: "('k, 'v) vt" where
  "vt_init = \<lparr>key_count = 0, buckets_mask = 0, buckets = [], metadata = [VT_EMPTY]\<rparr>"

definition vt_bucket_count :: "('k, 'v) vt \<Rightarrow> nat" where
  "vt_bucket_count t = buckets_mask t + (if buckets_mask t \<noteq> 0 then 1 else 0)"

definition vt_is_end :: "('k, 'v) vt \<Rightarrow> vt_itr option \<Rightarrow> bool" where
  "vt_is_end t itr =
    (case itr of None \<Rightarrow> True | Some itr \<Rightarrow> itr_bucket itr = buckets_mask t + 1)"

definition vt_end_itr :: "vt_itr option" where
  "vt_end_itr = None"

definition vt_home :: "('k \<Rightarrow> u64) \<Rightarrow> ('k, 'v) vt \<Rightarrow> 'k \<Rightarrow> nat" where
  "vt_home hf t key = unat (hf key AND of_nat (buckets_mask t))"

text \<open>\<open>( home_bucket + vt_quadratic( displacement ) ) & buckets_mask\<close>\<close>

definition vt_position :: "('k, 'v) vt \<Rightarrow> nat \<Rightarrow> nat \<Rightarrow> nat" where
  "vt_position t home displacement = (home + vt_quadratic displacement) AND buckets_mask t"

text \<open>\<open>key_count + 1 > bucket_count * MAX_LOAD\<close> with \<open>MAX_LOAD\<close> 0.875; exact for counts below \<open>2 ^ 50\<close>.\<close>

definition vt_overloaded :: "('k, 'v) vt \<Rightarrow> bool" where
  "vt_overloaded t \<longleftrightarrow> 7 * vt_bucket_count t < 8 * (key_count t + 1)"

section \<open>Chains\<close>

text \<open>The loop ends after at most \<open>VT_DISPLACEMENT_MASK\<close> steps, as the displacement is counted up.\<close>

fun vt_find_first_empty_loop :: "nat \<Rightarrow> ('k, 'v) vt \<Rightarrow> nat \<Rightarrow> nat \<Rightarrow> nat \<Rightarrow> (nat \<times> nat) option" where
  "vt_find_first_empty_loop 0 t home displacement linear = None"
| "vt_find_first_empty_loop (Suc fuel) t home displacement linear =
    (let vacant = (home + linear) AND buckets_mask t
     in if metadata t ! vacant = VT_EMPTY then Some (vacant, displacement)
        else (let displacement = displacement + 1
              in if displacement = unat VT_DISPLACEMENT_MASK then None
                 else vt_find_first_empty_loop fuel t home displacement (linear + displacement)))"

text \<open>The empty bucket and its displacement; \<open>None\<close> is the result \<open>false\<close>.\<close>

definition vt_find_first_empty :: "('k, 'v) vt \<Rightarrow> nat \<Rightarrow> (nat \<times> nat) option" where
  "vt_find_first_empty t home = vt_find_first_empty_loop (unat VT_DISPLACEMENT_MASK) t home 1 1"

fun vt_find_insert_location_in_chain :: "nat \<Rightarrow> ('k, 'v) vt \<Rightarrow> nat \<Rightarrow> nat \<Rightarrow> nat \<Rightarrow> nat option" where
  "vt_find_insert_location_in_chain 0 t home displacement_to_empty candidate = None"
| "vt_find_insert_location_in_chain (Suc fuel) t home displacement_to_empty candidate =
    (let displacement = vt_disp (metadata t ! candidate)
     in if displacement > displacement_to_empty then Some candidate
        else vt_find_insert_location_in_chain fuel t home displacement_to_empty
               (vt_position t home displacement))"

text \<open>The previous key in the chain of \<open>bucket\<close>.\<close>

fun vt_find_prev :: "nat \<Rightarrow> ('k, 'v) vt \<Rightarrow> nat \<Rightarrow> nat \<Rightarrow> nat \<Rightarrow> nat option" where
  "vt_find_prev 0 t home bucket prev = None"
| "vt_find_prev (Suc fuel) t home bucket prev =
    (let next = vt_position t home (vt_disp (metadata t ! prev))
     in if next = bucket then Some prev else vt_find_prev fuel t home bucket next)"

text \<open>A chain has fewer keys than there are displacements, so its loops get that much fuel.\<close>

definition vt_fuel :: nat where
  "vt_fuel = unat VT_DISPLACEMENT_MASK + 1"

text \<open>The result \<open>False\<close> leaves the key disconnected from its chain.\<close>

definition vt_evict :: "('k \<Rightarrow> u64) \<Rightarrow> ('k, 'v) vt \<Rightarrow> nat \<Rightarrow> (('k, 'v) vt \<times> bool) option" where
  "vt_evict hf t bucket =
    (let home = vt_home hf t (fst (buckets t ! bucket))
     in case vt_find_prev vt_fuel t home bucket home of
          None \<Rightarrow> None
        | Some prev \<Rightarrow>
            (let t = t\<lparr>metadata := (metadata t)[prev :=
                         vt_set_disp (metadata t ! prev) (metadata t ! bucket AND VT_DISPLACEMENT_MASK)]\<rparr>
             in case vt_find_first_empty t home of
                  None \<Rightarrow> Some (t, False)
                | Some (vacant, displacement) \<Rightarrow>
                    (case vt_find_insert_location_in_chain vt_fuel t home displacement home of
                       None \<Rightarrow> None
                     | Some prev \<Rightarrow>
                         (let t = t\<lparr>buckets := (buckets t)[vacant := buckets t ! bucket]\<rparr>;
                              t = t\<lparr>metadata := (metadata t)[vacant :=
                                     (metadata t ! bucket AND VT_HASH_FRAG_MASK) OR
                                     (metadata t ! prev AND VT_DISPLACEMENT_MASK)]\<rparr>;
                              t = t\<lparr>metadata := (metadata t)[prev :=
                                     vt_set_disp (metadata t ! prev) (of_nat displacement)]\<rparr>
                          in Some (t, True)))))"

section \<open>Lookup\<close>

text \<open>The traversal of a chain that \<open>_insert_raw\<close> and \<open>_get\<close> share; the result \<open>Some None\<close>: not found.\<close>

fun vt_search_chain :: "nat \<Rightarrow> ('k \<Rightarrow> 'k \<Rightarrow> bool) \<Rightarrow> ('k, 'v) vt \<Rightarrow> 'k \<Rightarrow> u16 \<Rightarrow> nat \<Rightarrow> nat \<Rightarrow> nat option option" where
  "vt_search_chain 0 eq t key hashfrag home bucket = None"
| "vt_search_chain (Suc fuel) eq t key hashfrag home bucket =
    (if metadata t ! bucket AND VT_HASH_FRAG_MASK = hashfrag \<and> eq (fst (buckets t ! bucket)) key
     then Some (Some bucket)
     else (let displacement = vt_disp (metadata t ! bucket)
           in if displacement = unat VT_DISPLACEMENT_MASK then Some None
              else vt_search_chain fuel eq t key hashfrag home (vt_position t home displacement)))"

definition vt_itr_at :: "nat \<Rightarrow> nat \<Rightarrow> vt_itr option" where
  "vt_itr_at bucket home = Some \<lparr>itr_bucket = bucket, home_bucket = Some home\<rparr>"

definition vt_get :: "('k \<Rightarrow> u64) \<Rightarrow> ('k \<Rightarrow> 'k \<Rightarrow> bool) \<Rightarrow> ('k, 'v) vt \<Rightarrow> 'k \<Rightarrow> vt_itr option option" where
  "vt_get hf eq t key =
    (let home = vt_home hf t key
     in if metadata t ! home AND VT_IN_HOME_BUCKET_MASK = 0 then Some vt_end_itr
        else map_option (\<lambda>found. case found of None \<Rightarrow> vt_end_itr | Some bucket \<Rightarrow> vt_itr_at bucket home)
               (vt_search_chain vt_fuel eq t key (vt_hashfrag (hf key)) home home))"

section \<open>Insertion\<close>

definition vt_insert_raw :: "('k \<Rightarrow> u64) \<Rightarrow> ('k \<Rightarrow> 'k \<Rightarrow> bool) \<Rightarrow> ('k, 'v) vt \<Rightarrow> 'k \<Rightarrow> 'v \<Rightarrow> bool \<Rightarrow> bool
    \<Rightarrow> (('k, 'v) vt \<times> vt_itr option) option" where
  "vt_insert_raw hf eq t key val unique replace =
    (let hashfrag = vt_hashfrag (hf key); home = vt_home hf t key
     in if metadata t ! home AND VT_IN_HOME_BUCKET_MASK = 0
        then (if vt_overloaded t then Some (t, vt_end_itr)
              else (case (if metadata t ! home \<noteq> VT_EMPTY then vt_evict hf t home else Some (t, True)) of
                      None \<Rightarrow> None
                    | Some (t, vacated) \<Rightarrow>
                        if \<not> vacated then Some (t, vt_end_itr)
                        else Some (t\<lparr>buckets := (buckets t)[home := (key, val)],
                                     metadata := (metadata t)[home :=
                                       hashfrag OR VT_IN_HOME_BUCKET_MASK OR VT_DISPLACEMENT_MASK],
                                     key_count := key_count t + 1\<rparr>,
                                   vt_itr_at home home)))
        else (case (if \<not> unique then vt_search_chain vt_fuel eq t key hashfrag home home else Some None) of
                None \<Rightarrow> None
              | Some (Some bucket) \<Rightarrow>
                  Some (if replace then t\<lparr>buckets := (buckets t)[bucket := (key, val)]\<rparr> else t,
                        vt_itr_at bucket home)
              | Some None \<Rightarrow>
                  if vt_overloaded t then Some (t, vt_end_itr)
                  else (case vt_find_first_empty t home of
                          None \<Rightarrow> Some (t, vt_end_itr)
                        | Some (vacant, displacement) \<Rightarrow>
                            (case vt_find_insert_location_in_chain vt_fuel t home displacement home of
                               None \<Rightarrow> None
                             | Some prev \<Rightarrow>
                                 (let t = t\<lparr>buckets := (buckets t)[vacant := (key, val)]\<rparr>;
                                      t = t\<lparr>metadata := (metadata t)[vacant :=
                                             hashfrag OR (metadata t ! prev AND VT_DISPLACEMENT_MASK)]\<rparr>;
                                      t = t\<lparr>metadata := (metadata t)[prev :=
                                             vt_set_disp (metadata t ! prev) (of_nat displacement)]\<rparr>;
                                      t = t\<lparr>key_count := key_count t + 1\<rparr>
                                  in Some (t, vt_itr_at vacant home))))))"


text \<open>The \<open>for\<close> loop of \<open>_rehash\<close>: \<open>c\<close> buckets of the old table from \<open>bucket\<close> on go into \<open>new\<close>.\<close>

fun vt_reinsert :: "nat \<Rightarrow> ('k \<Rightarrow> u64) \<Rightarrow> ('k \<Rightarrow> 'k \<Rightarrow> bool) \<Rightarrow> ('k, 'v) vt \<Rightarrow> nat \<Rightarrow> ('k, 'v) vt \<Rightarrow> ('k, 'v) vt option" where
  "vt_reinsert 0 hf eq t bucket new = Some new"
| "vt_reinsert (Suc c) hf eq t bucket new =
    (if metadata t ! bucket \<noteq> VT_EMPTY
     then (case vt_insert_raw hf eq new (fst (buckets t ! bucket)) (snd (buckets t ! bucket)) True False of
             None \<Rightarrow> None
           | Some (new, itr) \<Rightarrow>
               if vt_is_end new itr then Some new else vt_reinsert c hf eq t (bucket + 1) new)
     else vt_reinsert c hf eq t (bucket + 1) new)"

definition vt_new_table :: "('k, 'v) vt_mem \<Rightarrow> nat \<Rightarrow> ('k, 'v) vt" where
  "vt_new_table mem n =
    \<lparr>key_count = 0, buckets_mask = n - 1, buckets = replicate n (fresh_bucket mem),
     metadata = (replicate (n + 4) 0)[n := 0x01]\<rparr>"

text \<open>Each retry doubles the bucket count, so no more than 64 of them fit in \<open>size_t\<close>.\<close>

fun vt_rehash :: "nat \<Rightarrow> ('k \<Rightarrow> u64) \<Rightarrow> ('k \<Rightarrow> 'k \<Rightarrow> bool) \<Rightarrow> ('k, 'v) vt_mem \<Rightarrow> ('k, 'v) vt \<Rightarrow> nat \<Rightarrow> (('k, 'v) vt \<times> bool) option" where
  "vt_rehash 0 hf eq mem t n = None"
| "vt_rehash (Suc fuel) hf eq mem t n =
    (if \<not> alloc_ok mem n then Some (t, False)
     else (case vt_reinsert (vt_bucket_count t) hf eq t 0 (vt_new_table mem n) of
             None \<Rightarrow> None
           | Some new \<Rightarrow>
               if key_count new < key_count t then vt_rehash fuel hf eq mem t (n * 2)
               else Some (new, True)))"

text \<open>The loop that \<open>_insert\<close> (\<open>replace\<close>) and \<open>_get_or_insert\<close> (not \<open>replace\<close>) share.\<close>

fun vt_insert_loop :: "nat \<Rightarrow> ('k \<Rightarrow> u64) \<Rightarrow> ('k \<Rightarrow> 'k \<Rightarrow> bool) \<Rightarrow> ('k, 'v) vt_mem \<Rightarrow> ('k, 'v) vt \<Rightarrow> 'k \<Rightarrow> 'v \<Rightarrow> bool
    \<Rightarrow> (('k, 'v) vt \<times> vt_itr option) option" where
  "vt_insert_loop 0 hf eq mem t key val replace = None"
| "vt_insert_loop (Suc fuel) hf eq mem t key val replace =
    (case vt_insert_raw hf eq t key val False replace of
       None \<Rightarrow> None
     | Some (t, itr) \<Rightarrow>
         if \<not> vt_is_end t itr then Some (t, itr)
         else (case vt_rehash 64 hf eq mem t
                      (if buckets_mask t \<noteq> 0 then vt_bucket_count t * 2 else VT_MIN_NONZERO_BUCKET_COUNT) of
                 None \<Rightarrow> None
               | Some (t, ok) \<Rightarrow>
                   if \<not> ok then Some (t, itr) else vt_insert_loop fuel hf eq mem t key val replace))"

definition vt_insert :: "('k \<Rightarrow> u64) \<Rightarrow> ('k \<Rightarrow> 'k \<Rightarrow> bool) \<Rightarrow> ('k, 'v) vt_mem \<Rightarrow> ('k, 'v) vt \<Rightarrow> 'k \<Rightarrow> 'v
    \<Rightarrow> (('k, 'v) vt \<times> vt_itr option) option" where
  "vt_insert hf eq mem t key val = vt_insert_loop 64 hf eq mem t key val True"

definition vt_get_or_insert :: "('k \<Rightarrow> u64) \<Rightarrow> ('k \<Rightarrow> 'k \<Rightarrow> bool) \<Rightarrow> ('k, 'v) vt_mem \<Rightarrow> ('k, 'v) vt \<Rightarrow> 'k \<Rightarrow> 'v
    \<Rightarrow> (('k, 'v) vt \<times> vt_itr option) option" where
  "vt_get_or_insert hf eq mem t key val = vt_insert_loop 64 hf eq mem t key val False"

section \<open>Erasure\<close>

text \<open>Case 3: from \<open>bucket\<close> on, the penultimate and the last bucket of the chain.\<close>

fun vt_find_last :: "nat \<Rightarrow> ('k, 'v) vt \<Rightarrow> nat \<Rightarrow> nat \<Rightarrow> (nat \<times> nat) option" where
  "vt_find_last 0 t home bucket = None"
| "vt_find_last (Suc fuel) t home bucket =
    (let prev = bucket; bucket = vt_position t home (vt_disp (metadata t ! bucket))
     in if vt_disp (metadata t ! bucket) = unat VT_DISPLACEMENT_MASK then Some (prev, bucket)
        else vt_find_last fuel t home bucket)"

text \<open>The result says whether an iteration has to advance to see the next key.\<close>

definition vt_erase_itr_raw :: "('k \<Rightarrow> u64) \<Rightarrow> ('k, 'v) vt \<Rightarrow> vt_itr \<Rightarrow> (('k, 'v) vt \<times> bool) option" where
  "vt_erase_itr_raw hf t itr =
    (let t = t\<lparr>key_count := key_count t - 1\<rparr>; b = itr_bucket itr; md = metadata t ! b
     in if md AND VT_IN_HOME_BUCKET_MASK \<noteq> 0 \<and> md AND VT_DISPLACEMENT_MASK = VT_DISPLACEMENT_MASK
        then Some (t\<lparr>metadata := (metadata t)[b := VT_EMPTY]\<rparr>, True)
        else (let home = (case home_bucket itr of
                            Some h \<Rightarrow> h
                          | None \<Rightarrow> if md AND VT_IN_HOME_BUCKET_MASK \<noteq> 0 then b
                                    else vt_home hf t (fst (buckets t ! b)))
              in if md AND VT_DISPLACEMENT_MASK = VT_DISPLACEMENT_MASK
                 then (case vt_find_prev vt_fuel t home b home of
                         None \<Rightarrow> None
                       | Some prev \<Rightarrow>
                           (let t = t\<lparr>metadata := (metadata t)[prev := metadata t ! prev OR VT_DISPLACEMENT_MASK]\<rparr>
                            in Some (t\<lparr>metadata := (metadata t)[b := VT_EMPTY]\<rparr>, True)))
                 else (case vt_find_last vt_fuel t home b of
                         None \<Rightarrow> None
                       | Some (prev, lst) \<Rightarrow>
                           (let t = t\<lparr>buckets := (buckets t)[b := buckets t ! lst]\<rparr>;
                                t = t\<lparr>metadata := (metadata t)[b :=
                                       (metadata t ! b AND NOT VT_HASH_FRAG_MASK) OR
                                       (metadata t ! lst AND VT_HASH_FRAG_MASK)]\<rparr>;
                                t = t\<lparr>metadata := (metadata t)[prev := metadata t ! prev OR VT_DISPLACEMENT_MASK]\<rparr>;
                                t = t\<lparr>metadata := (metadata t)[lst := VT_EMPTY]\<rparr>
                            in Some (t, \<not> lst > b)))))"

definition vt_erase :: "('k \<Rightarrow> u64) \<Rightarrow> ('k \<Rightarrow> 'k \<Rightarrow> bool) \<Rightarrow> ('k, 'v) vt \<Rightarrow> 'k \<Rightarrow> (('k, 'v) vt \<times> bool) option" where
  "vt_erase hf eq t key =
    (case vt_get hf eq t key of
       None \<Rightarrow> None
     | Some itr \<Rightarrow>
         if vt_is_end t itr then Some (t, False)
         else map_option (\<lambda>(t, b). (t, True)) (vt_erase_itr_raw hf t (the itr)))"

section \<open>Iteration\<close>

text \<open>\<open>memcpy\<close> of four metadata into a word, on a little-endian machine.\<close>

definition vt_read4 :: "u16 list \<Rightarrow> nat \<Rightarrow> u64" where
  "vt_read4 md i =
    ucast (md ! i) OR push_bit 16 (ucast (md ! (i + 1))) OR push_bit 32 (ucast (md ! (i + 2))) OR
    push_bit 48 (ucast (md ! (i + 3)))"

fun vt_fast_forward :: "nat \<Rightarrow> ('k, 'v) vt \<Rightarrow> nat \<Rightarrow> vt_itr option option" where
  "vt_fast_forward 0 t i = None"
| "vt_fast_forward (Suc fuel) t i =
    (let md = vt_read4 (metadata t) i
     in if md \<noteq> 0
        then Some (Some \<lparr>itr_bucket = i + vt_first_nonzero_uint16 md, home_bucket = None\<rparr>)
        else vt_fast_forward fuel t (i + 4))"

definition vt_next :: "('k, 'v) vt \<Rightarrow> vt_itr option \<Rightarrow> vt_itr option option" where
  "vt_next t itr =
    (case itr of
       None \<Rightarrow> None
     | Some itr \<Rightarrow> vt_fast_forward (vt_bucket_count t) t (itr_bucket itr + 1))"

definition vt_first :: "('k, 'v) vt \<Rightarrow> vt_itr option option" where
  "vt_first t = (if key_count t = 0 then Some vt_end_itr else vt_fast_forward (vt_bucket_count t) t 0)"

definition vt_erase_itr :: "('k \<Rightarrow> u64) \<Rightarrow> ('k, 'v) vt \<Rightarrow> vt_itr \<Rightarrow> (('k, 'v) vt \<times> vt_itr option) option" where
  "vt_erase_itr hf t itr =
    (case vt_erase_itr_raw hf t itr of
       None \<Rightarrow> None
     | Some (t, advance) \<Rightarrow>
         if advance then map_option (Pair t) (vt_next t (Some itr)) else Some (t, Some itr))"

section \<open>Capacity\<close>

text \<open>\<open>while( size > bucket_count * MAX_LOAD ) bucket_count *= 2\<close>\<close>

fun vt_grow :: "nat \<Rightarrow> nat \<Rightarrow> nat \<Rightarrow> nat option" where
  "vt_grow 0 sz n = None"
| "vt_grow (Suc fuel) sz n = (if 7 * n < 8 * sz then vt_grow fuel sz (n * 2) else Some n)"

definition vt_min_bucket_count_for_size :: "nat \<Rightarrow> nat option" where
  "vt_min_bucket_count_for_size sz =
    (if sz = 0 then Some 0 else vt_grow 64 sz VT_MIN_NONZERO_BUCKET_COUNT)"

definition vt_reserve :: "('k \<Rightarrow> u64) \<Rightarrow> ('k \<Rightarrow> 'k \<Rightarrow> bool) \<Rightarrow> ('k, 'v) vt_mem \<Rightarrow> ('k, 'v) vt \<Rightarrow> nat \<Rightarrow> (('k, 'v) vt \<times> bool) option" where
  "vt_reserve hf eq mem t sz =
    (case vt_min_bucket_count_for_size sz of
       None \<Rightarrow> None
     | Some n \<Rightarrow> if n \<le> vt_bucket_count t then Some (t, True) else vt_rehash 64 hf eq mem t n)"

text \<open>Freeing the buckets of an empty table leaves \<open>buckets\<close> dangling; nothing reads it then.\<close>

definition vt_shrink :: "('k \<Rightarrow> u64) \<Rightarrow> ('k \<Rightarrow> 'k \<Rightarrow> bool) \<Rightarrow> ('k, 'v) vt_mem \<Rightarrow> ('k, 'v) vt \<Rightarrow> (('k, 'v) vt \<times> bool) option" where
  "vt_shrink hf eq mem t =
    (case vt_min_bucket_count_for_size (key_count t) of
       None \<Rightarrow> None
     | Some n \<Rightarrow>
         if n = vt_bucket_count t then Some (t, True)
         else if n = 0 then Some (t\<lparr>buckets := [], buckets_mask := 0, metadata := [VT_EMPTY]\<rparr>, True)
         else vt_rehash 64 hf eq mem t n)"

definition vt_clear :: "('k, 'v) vt \<Rightarrow> ('k, 'v) vt" where
  "vt_clear t =
    (if key_count t = 0 then t
     else t\<lparr>metadata := replicate (vt_bucket_count t) VT_EMPTY @ drop (vt_bucket_count t) (metadata t),
            key_count := 0\<rparr>)"

text \<open>A failed allocation leaves the arrays of the new table unset: the result \<open>False\<close> with no table.\<close>

definition vt_init_clone :: "('k, 'v) vt_mem \<Rightarrow> ('k, 'v) vt \<Rightarrow> ('k, 'v) vt option" where
  "vt_init_clone mem source =
    (if buckets_mask source = 0
     then Some \<lparr>key_count = key_count source, buckets_mask = buckets_mask source, buckets = [], metadata = [VT_EMPTY]\<rparr>
     else if \<not> alloc_ok mem (vt_bucket_count source) then None
     else Some \<lparr>key_count = key_count source, buckets_mask = buckets_mask source,
                buckets = buckets source, metadata = metadata source\<rparr>)"

definition vt_cleanup :: "('k, 'v) vt \<Rightarrow> ('k, 'v) vt" where
  "vt_cleanup t = (if buckets_mask t = 0 then t else vt_init)"

end
