(* ===== verification/Verstable_Correct.thy ===== *)
theory Verstable_Correct
  imports Verstable
begin

text \<open>
  The invariant of Verstable and the map a table stands for, and the proofs that lookup, insertion
  with eviction, rehash and erasure keep the chains and act on the map as they should. The key
  comparison is equality.
\<close>

section \<open>Metadata fields\<close>

lemmas vt_masks = VT_EMPTY_def VT_HASH_FRAG_MASK_def VT_IN_HOME_BUCKET_MASK_def VT_DISPLACEMENT_MASK_def

lemma unat_disp_mask: "unat VT_DISPLACEMENT_MASK = 0x7FF"
  by (simp add: VT_DISPLACEMENT_MASK_def)

text \<open>A metadatum put together from its three fields.\<close>

definition vt_md :: "u16 \<Rightarrow> bool \<Rightarrow> nat \<Rightarrow> u16" where
  "vt_md frag first disp = frag OR (if first then VT_IN_HOME_BUCKET_MASK else 0) OR of_nat disp"

lemma mask_disjoint:
  "(f :: u16) AND 0xF000 = f \<Longrightarrow> f AND 0x0800 = 0"
  "(f :: u16) AND 0xF000 = f \<Longrightarrow> f AND 0x07FF = 0"
  "(f :: u16) AND 0xF000 = f \<Longrightarrow> f AND 0xF800 = f"
  "(f :: u16) AND 0xF000 = f \<Longrightarrow> f AND 0x0FFF = 0"
  "(w :: u16) AND 0x07FF = w \<Longrightarrow> w AND 0xF000 = 0"
  "(w :: u16) AND 0x07FF = w \<Longrightarrow> w AND 0x0800 = 0"
  "(w :: u16) AND 0x07FF = w \<Longrightarrow> w AND 0xF800 = 0"
  "(w :: u16) AND 0x07FF = w \<Longrightarrow> w AND 0x0FFF = w"
proof -
  have step: "x AND m = x \<Longrightarrow> x AND k = x AND (m AND k)" for x m k :: u16
    by (metis and.assoc)
  show "(f :: u16) AND 0xF000 = f \<Longrightarrow> f AND 0x0800 = 0" using step [of f "0xF000" "0x0800"] by simp
  show "(f :: u16) AND 0xF000 = f \<Longrightarrow> f AND 0x07FF = 0" using step [of f "0xF000" "0x07FF"] by simp
  show "(f :: u16) AND 0xF000 = f \<Longrightarrow> f AND 0xF800 = f" using step [of f "0xF000" "0xF800"] by simp
  show "(f :: u16) AND 0xF000 = f \<Longrightarrow> f AND 0x0FFF = 0" using step [of f "0xF000" "0x0FFF"] by simp
  show "(w :: u16) AND 0x07FF = w \<Longrightarrow> w AND 0xF000 = 0" using step [of w "0x07FF" "0xF000"] by simp
  show "(w :: u16) AND 0x07FF = w \<Longrightarrow> w AND 0x0800 = 0" using step [of w "0x07FF" "0x0800"] by simp
  show "(w :: u16) AND 0x07FF = w \<Longrightarrow> w AND 0xF800 = 0" using step [of w "0x07FF" "0xF800"] by simp
  show "(w :: u16) AND 0x07FF = w \<Longrightarrow> w AND 0x0FFF = w" using step [of w "0x07FF" "0x0FFF"] by simp
qed

lemma disp_word: "d < 0x800 \<Longrightarrow> (of_nat d :: u16) AND 0x07FF = of_nat d"
  and unat_disp_word: "d < 0x800 \<Longrightarrow> unat (of_nat d :: u16) = d"
proof -
  assume d: "d < 0x800"
  then show u: "unat (of_nat d :: u16) = d" by (simp add: unat_of_nat)
  have "(0x07FF :: u16) = mask 11" by (simp add: mask_eq_decr_exp)
  then have "(of_nat d :: u16) AND 0x07FF = take_bit 11 (of_nat d)" by (simp add: take_bit_eq_mask)
  also have "\<dots> = of_nat d"
    by (rule word_unat_eq_iff [THEN iffD2]) (use d u in \<open>simp add: unsigned_take_bit_eq take_bit_nat_eq_self\<close>)
  finally show "(of_nat d :: u16) AND 0x07FF = of_nat d" .
qed

lemma not_masks: "NOT (0x07FF :: u16) = 0xF800" "NOT (0xF000 :: u16) = 0x0FFF"
  by simp_all

lemma vt_md_fields:
  assumes f: "f AND 0xF000 = f" and d: "d < 0x800"
  shows "vt_md f p d AND 0x07FF = of_nat d" and "vt_disp (vt_md f p d) = d"
    and "vt_md f p d AND 0x0800 = (if p then 0x0800 else 0)" and "vt_md f p d AND 0xF000 = f"
    and "e < 0x800 \<Longrightarrow> vt_set_disp (vt_md f p d) (of_nat e) = vt_md f p e"
    and "f' AND 0xF000 = f' \<Longrightarrow> (vt_md f p d AND NOT VT_HASH_FRAG_MASK) OR f' = vt_md f' p d"
    and "d \<noteq> 0 \<Longrightarrow> vt_md f p d \<noteq> 0"
    and "vt_md f p d OR 0x07FF = vt_md f p 0x07FF"
proof -
  note w = disp_word [OF d]
  note dis = mask_disjoint(1-4) [OF f] mask_disjoint(5-8) [OF w]
  have home: "(if p then VT_IN_HOME_BUCKET_MASK else 0 :: u16) AND 0x07FF = 0"
    "(if p then VT_IN_HOME_BUCKET_MASK else 0 :: u16) AND 0xF000 = 0"
    "(if p then VT_IN_HOME_BUCKET_MASK else 0 :: u16) AND 0x0FFF = (if p then VT_IN_HOME_BUCKET_MASK else 0)"
    "(if p then VT_IN_HOME_BUCKET_MASK else 0 :: u16) AND 0xF800 = (if p then VT_IN_HOME_BUCKET_MASK else 0)"
    by (simp_all add: vt_masks)
  show low: "vt_md f p d AND 0x07FF = of_nat d"
    by (simp add: vt_md_def bit.conj_disj_distrib2 dis w home)
  then show "vt_disp (vt_md f p d) = d"
    by (simp add: vt_disp_def VT_DISPLACEMENT_MASK_def unat_disp_word [OF d])
  show "vt_md f p d AND 0x0800 = (if p then 0x0800 else 0)"
    by (simp add: vt_md_def bit.conj_disj_distrib2 dis vt_masks)
  show "vt_md f p d AND 0xF000 = f"
    by (simp add: vt_md_def bit.conj_disj_distrib2 dis home f)
  show "vt_set_disp (vt_md f p d) (of_nat e) = vt_md f p e" if "e < 0x800"
    unfolding vt_set_disp_def VT_DISPLACEMENT_MASK_def not_masks
    by (simp add: vt_md_def bit.conj_disj_distrib2 dis home or.assoc)
  show "(vt_md f p d AND NOT VT_HASH_FRAG_MASK) OR f' = vt_md f' p d" if "f' AND 0xF000 = f'"
    unfolding VT_HASH_FRAG_MASK_def not_masks
    by (simp add: vt_md_def bit.conj_disj_distrib2 dis home or.assoc or.commute or.left_commute)
  show "vt_md f p d \<noteq> 0" if "d \<noteq> 0"
  proof
    assume "vt_md f p d = 0"
    then have "of_nat d = (0 :: u16)" using low by simp
    then have "unat (of_nat d :: u16) = 0" by simp
    then show False using unat_disp_word [OF d] that by simp
  qed
  have "of_nat d OR (0x07FF :: u16) = 0x07FF" using w by (metis or.commute word_ao_absorbs(2) and.commute word_ao_absorbs(1))
  then show "vt_md f p d OR 0x07FF = vt_md f p 0x07FF"
    by (simp add: vt_md_def or.assoc)
qed

lemma hashfrag_field: "vt_hashfrag h AND 0xF000 = vt_hashfrag h"
proof -
  have "bit (vt_hashfrag h AND 0xF000) i = bit (vt_hashfrag h) i" for i
    by (auto simp: vt_hashfrag_def VT_HASH_FRAG_MASK_def bit_ucast_iff bit_and_iff)
  then show ?thesis by (rule bit_word_eqI)
qed

section \<open>The next displacement in a chain\<close>

definition nxt :: "nat set \<Rightarrow> nat \<Rightarrow> nat" where
  "nxt S d = (if \<exists>e \<in> S. d < e then LEAST e. e \<in> S \<and> d < e else 0x7FF)"

lemma nxt_in: "e \<in> S \<Longrightarrow> d < e \<Longrightarrow> nxt S d \<in> S \<and> d < nxt S d \<and> nxt S d \<le> e"
proof -
  assume e: "e \<in> S" "d < e"
  then have "nxt S d = (LEAST e. e \<in> S \<and> d < e)" by (auto simp: nxt_def)
  then show ?thesis
    using LeastI [of "\<lambda>e. e \<in> S \<and> d < e" e] Least_le [of "\<lambda>e. e \<in> S \<and> d < e" e] e by simp
qed

lemma nxt_end: "(\<And>e. e \<in> S \<Longrightarrow> \<not> d < e) \<Longrightarrow> nxt S d = 0x7FF"
  by (auto simp: nxt_def)

lemma nxt_cases:
  assumes "\<And>e. e \<in> S \<Longrightarrow> e < 0x7FF"
  obtains "nxt S d = 0x7FF" "\<And>e. e \<in> S \<Longrightarrow> e \<le> d" | "nxt S d \<in> S" "d < nxt S d" "nxt S d < 0x7FF"
proof (cases "\<exists>e \<in> S. d < e")
  case True
  then show thesis using nxt_in [of _ S d] assms that(2) by blast
next
  case False
  then show thesis using that(1) nxt_end [of S d] by force
qed

lemma nxt_less: "(\<And>e. e \<in> S \<Longrightarrow> e < 0x7FF) \<Longrightarrow> nxt S d < 0x800"
  by (rule nxt_cases [of S d]) force+

lemma nxt_pos: "(\<And>e. e \<in> S \<Longrightarrow> e < 0x7FF) \<Longrightarrow> 0 < nxt S d"
  by (rule nxt_cases [of S d]) auto

lemma nxt_eqI:
  assumes "x \<in> S" "d < x" "\<And>e. e \<in> S \<Longrightarrow> d < e \<Longrightarrow> x \<le> e"
  shows "nxt S d = x"
  using nxt_in [OF assms(1,2)] assms(3) [of "nxt S d"] by (meson le_antisym)

lemma nxt_cong: "(\<And>e. d < e \<Longrightarrow> e \<in> S \<longleftrightarrow> e \<in> T) \<Longrightarrow> nxt S d = nxt T d"
  unfolding nxt_def by (intro if_cong arg_cong [where f = Least]) auto

lemma nxt_insert:
  assumes x: "p < x" "x < nxt S p"
  shows "nxt (insert x S) p = x" and "nxt (insert x S) x = nxt S p"
    and "e \<in> S \<Longrightarrow> p \<in> S \<Longrightarrow> e \<noteq> p \<Longrightarrow> nxt (insert x S) e = nxt S e"
proof -
  have gap: "nxt S p \<le> e" if "e \<in> S" "p < e" for e using nxt_in [OF that] by simp
  show "nxt (insert x S) p = x"
    by (rule nxt_eqI) (use x gap in fastforce)+
  have "nxt (insert x S) x = nxt S x" by (rule nxt_cong) auto
  also have "nxt S x = nxt S p"
    by (cases "\<exists>e \<in> S. p < e")
      (use x gap nxt_in [of _ S p] in \<open>force intro!: nxt_eqI\<close>, use x in \<open>force simp: nxt_def\<close>)
  finally show "nxt (insert x S) x = nxt S p" .
  show "nxt (insert x S) e = nxt S e" if e: "e \<in> S" "p \<in> S" "e \<noteq> p"
  proof (cases "e < p")
    case True
    then have n: "nxt S e \<in> S" "e < nxt S e" "nxt S e \<le> p" using nxt_in [OF e(2) True] by simp_all
    show ?thesis
    proof (rule nxt_eqI)
      fix y assume "y \<in> insert x S" "e < y"
      then show "nxt S e \<le> y" using n x(1) nxt_in [of y S e] by auto
    qed (use n in auto)
  next
    case False
    then have "x < e" using gap [OF e(1)] e(3) x(2) by simp
    then show ?thesis by (intro nxt_cong) auto
  qed
qed

lemma nxt_remove:
  assumes S: "S \<subseteq> {..<0x7FF}" and x: "x \<in> S" "p \<in> S" "nxt S p = x"
  shows "nxt (S - {x}) p = nxt S x" and "e \<in> S \<Longrightarrow> e \<noteq> p \<Longrightarrow> nxt (S - {x}) e = nxt S e"
proof -
  have px: "p < x"
  proof (rule nxt_cases [of S p])
    assume "nxt S p = 0x7FF"
    then show ?thesis using S x(1,3) by auto
  qed (use S x(3) in auto)
  have gap: "x \<le> e" if "e \<in> S" "p < e" for e using nxt_in [OF that] x(3) by simp
  show "nxt (S - {x}) p = nxt S x"
  proof (cases "\<exists>e \<in> S. x < e")
    case True
    then obtain e where e: "e \<in> S" "x < e" by blast
    note n = nxt_in [OF e]
    show ?thesis
    proof (rule nxt_eqI)
      fix y assume y: "y \<in> S - {x}" "p < y"
      then have "x < y" using gap by (metis Diff_iff insertCI nat_less_le)
      then show "nxt S x \<le> y" using nxt_in [of y S x] y by simp
    qed (use n px in auto)
  next
    case False
    have "nxt (S - {x}) p = 0x7FF"
    proof (rule nxt_end)
      fix e assume "e \<in> S - {x}"
      then show "\<not> p < e" using gap [of e] False by force
    qed
    moreover have "nxt S x = 0x7FF" by (rule nxt_end) (use False in auto)
    ultimately show ?thesis by simp
  qed
  show "nxt (S - {x}) e = nxt S e" if e: "e \<in> S" "e \<noteq> p"
  proof (cases "e < p")
    case True
    then have n: "nxt S e \<in> S" "e < nxt S e" "nxt S e \<le> p" using nxt_in [OF x(2) True] by simp_all
    show ?thesis
    proof (rule nxt_eqI)
      fix y assume "y \<in> S - {x}" "e < y"
      then show "nxt S e \<le> y" using nxt_in [of y S e] by simp
    qed (use n px in auto)
  next
    case False
    then have "x \<le> e" using gap e by simp
    then show ?thesis by (intro nxt_cong) auto
  qed
qed


section \<open>Chains\<close>

text \<open>
  The chains of a table, whatever its arrays: \<open>kf\<close> gives the key and \<open>mf\<close> the metadatum of a
  bucket, \<open>U\<close> is the set of buckets in use and \<open>D\<close> the displacement of a bucket from the home of its
  key. Every metadatum is determined by the keys and \<open>D\<close>: it points to the next larger displacement
  of the same home.
\<close>

definition vt_khome :: "('k \<Rightarrow> u64) \<Rightarrow> nat \<Rightarrow> 'k \<Rightarrow> nat" where
  "vt_khome hf n key = unat (hf key) mod n"

definition vt_chain :: "('k \<Rightarrow> u64) \<Rightarrow> nat \<Rightarrow> (nat \<Rightarrow> 'k) \<Rightarrow> (nat \<Rightarrow> nat) \<Rightarrow> nat set \<Rightarrow> nat \<Rightarrow> nat set" where
  "vt_chain hf n kf D U h = D ` {b \<in> U. vt_khome hf n (kf b) = h}"

definition vt_ok :: "('k \<Rightarrow> u64) \<Rightarrow> nat \<Rightarrow> (nat \<Rightarrow> 'k) \<Rightarrow> (nat \<Rightarrow> u16) \<Rightarrow> (nat \<Rightarrow> nat) \<Rightarrow> nat set \<Rightarrow> bool" where
  "vt_ok hf n kf mf D U \<longleftrightarrow>
     U \<subseteq> {..<n} \<and>
     (\<forall>b \<in> U. D b < 0x7FF \<and> probe n (vt_khome hf n (kf b)) (D b) = b \<and>
        0 \<in> vt_chain hf n kf D U (vt_khome hf n (kf b)) \<and>
        mf b = vt_md (vt_hashfrag (hf (kf b))) (D b = 0)
          (nxt (vt_chain hf n kf D U (vt_khome hf n (kf b))) (D b)))"

lemma vt_khome_less: "0 < n \<Longrightarrow> vt_khome hf n key < n"
  by (simp add: vt_khome_def)

lemma vt_ok_cong:
  assumes "vt_ok hf n kf mf D U" "\<And>b. b \<in> U \<Longrightarrow> kf' b = kf b" "\<And>b. b \<in> U \<Longrightarrow> mf' b = mf b"
  shows "vt_ok hf n kf' mf' D U"
proof -
  have "vt_chain hf n kf' D U h = vt_chain hf n kf D U h" for h
    unfolding vt_chain_def by (rule image_cong) (use assms(2) in auto)
  then show ?thesis using assms unfolding vt_ok_def by simp
qed

lemma vt_okD:
  assumes "vt_ok hf n kf mf D U" "b \<in> U"
  shows "b < n" "D b < 0x7FF" "probe n (vt_khome hf n (kf b)) (D b) = b"
    "0 \<in> vt_chain hf n kf D U (vt_khome hf n (kf b))"
    "mf b = vt_md (vt_hashfrag (hf (kf b))) (D b = 0)
       (nxt (vt_chain hf n kf D U (vt_khome hf n (kf b))) (D b))"
  using assms unfolding vt_ok_def by auto

lemma vt_chain_less: "vt_ok hf n kf mf D U \<Longrightarrow> e \<in> vt_chain hf n kf D U h \<Longrightarrow> e < 0x7FF"
  unfolding vt_ok_def vt_chain_def by auto

lemma vt_chain_in: "b \<in> U \<Longrightarrow> vt_khome hf n (kf b) = h \<Longrightarrow> D b \<in> vt_chain hf n kf D U h"
  unfolding vt_chain_def by auto

text \<open>A displacement in the chain of a home leads to a bucket in use with that home.\<close>

lemma vt_chain_bucket:
  assumes "vt_ok hf n kf mf D U" "e \<in> vt_chain hf n kf D U h"
  shows "probe n h e \<in> U" "vt_khome hf n (kf (probe n h e)) = h" "D (probe n h e) = e"
proof -
  obtain b where b: "b \<in> U" "vt_khome hf n (kf b) = h" "D b = e" using assms(2) by (auto simp: vt_chain_def)
  then have "probe n h e = b" using vt_okD(3) [OF assms(1) b(1)] by simp
  then show "probe n h e \<in> U" "vt_khome hf n (kf (probe n h e)) = h" "D (probe n h e) = e" using b by simp_all
qed

lemma vt_same_bucket:
  assumes "vt_ok hf n kf mf D U" "b \<in> U" "c \<in> U" "vt_khome hf n (kf b) = vt_khome hf n (kf c)" "D b = D c"
  shows "b = c"
  using vt_okD(3) [OF assms(1,2)] vt_okD(3) [OF assms(1,3)] assms(4,5) by argo

text \<open>The fields of a metadatum.\<close>

lemma vt_ok_fields:
  assumes ok: "vt_ok hf n kf mf D U" and b: "b \<in> U" and h: "h = vt_khome hf n (kf b)"
  shows "vt_disp (mf b) = nxt (vt_chain hf n kf D U h) (D b)"
    and "mf b AND VT_DISPLACEMENT_MASK = of_nat (nxt (vt_chain hf n kf D U h) (D b))"
    and "mf b AND VT_IN_HOME_BUCKET_MASK = (if D b = 0 then 0x0800 else 0)"
    and "mf b AND VT_HASH_FRAG_MASK = vt_hashfrag (hf (kf b))"
    and "mf b \<noteq> VT_EMPTY"
    and "nxt (vt_chain hf n kf D U h) (D b) < 0x800"
proof -
  note S = vt_chain_less [OF ok, where h = h]
  have less: "nxt (vt_chain hf n kf D U h) (D b) < 0x800" by (rule nxt_less [OF S])
  have pos: "nxt (vt_chain hf n kf D U h) (D b) \<noteq> 0" using nxt_pos [OF S] by simp
  note f = vt_md_fields [OF hashfrag_field less]
  have m: "mf b = vt_md (vt_hashfrag (hf (kf b))) (D b = 0) (nxt (vt_chain hf n kf D U h) (D b))"
    using vt_okD(5) [OF ok b] h by simp
  show "vt_disp (mf b) = nxt (vt_chain hf n kf D U h) (D b)" unfolding m by (rule f(2))
  show "mf b AND VT_DISPLACEMENT_MASK = of_nat (nxt (vt_chain hf n kf D U h) (D b))"
    unfolding m VT_DISPLACEMENT_MASK_def by (rule f(1))
  show "mf b AND VT_IN_HOME_BUCKET_MASK = (if D b = 0 then 0x0800 else 0)"
    unfolding m VT_IN_HOME_BUCKET_MASK_def by (rule f(3))
  show "mf b AND VT_HASH_FRAG_MASK = vt_hashfrag (hf (kf b))"
    unfolding m VT_HASH_FRAG_MASK_def by (rule f(4))
  show "mf b \<noteq> VT_EMPTY" unfolding m VT_EMPTY_def using f(7) [OF pos] by simp
  show "nxt (vt_chain hf n kf D U h) (D b) < 0x800" by (rule less)
qed

text \<open>The flag of a bucket tells whether its index is the home of some key.\<close>

lemma vt_chain_start:
  assumes ok: "vt_ok hf n kf mf D U" and c: "c \<in> U" and n: "0 < n"
  defines "h \<equiv> vt_khome hf n (kf c)"
  shows "h \<in> U" "vt_khome hf n (kf h) = h" "D h = 0"
proof -
  have "0 \<in> vt_chain hf n kf D U h" using vt_okD(4) [OF ok c] by (simp add: h_def)
  moreover have "probe n h 0 = h" by (rule probe_0) (simp add: h_def vt_khome_less n)
  ultimately show "h \<in> U" "vt_khome hf n (kf h) = h" "D h = 0" using vt_chain_bucket [OF ok] by force+
qed

lemma vt_start_home: "vt_ok hf n kf mf D U \<Longrightarrow> 0 < n \<Longrightarrow> b \<in> U \<Longrightarrow> D b = 0 \<Longrightarrow> vt_khome hf n (kf b) = b"
  using vt_okD(3) [of hf n kf mf D U b] probe_0 [OF vt_khome_less] by metis

section \<open>Walking along a chain\<close>

text \<open>The arrays of a table with \<open>2 ^ k\<close> buckets.\<close>

definition vt_shape :: "('k, 'v) vt \<Rightarrow> nat \<Rightarrow> bool" where
  "vt_shape t n \<longleftrightarrow> buckets_mask t = n - 1 \<and> length (buckets t) = n \<and> length (metadata t) = n + 4 \<and>
     (\<exists>k. n = 2 ^ k \<and> 3 \<le> k \<and> k \<le> 63)"

definition vt_key :: "('k, 'v) vt \<Rightarrow> nat \<Rightarrow> 'k" where
  "vt_key t b = fst (buckets t ! b)"

lemma vt_shape_pos: "vt_shape t n \<Longrightarrow> 8 \<le> n"
proof -
  assume "vt_shape t n"
  then obtain k where k: "n = 2 ^ k" "3 \<le> k" by (auto simp: vt_shape_def)
  have "(2::nat) ^ 3 \<le> 2 ^ k" by (rule power_increasing) (use k in auto)
  then show ?thesis using k by simp
qed

lemma vt_quadratic_tri: "vt_quadratic d = tri d"
  by (simp add: vt_quadratic_def tri_def)

lemma vt_position_probe: "vt_shape t n \<Longrightarrow> vt_position t h d = probe n h d"
  unfolding vt_shape_def vt_position_def probe_def vt_quadratic_tri
  by (elim conjE exE, hypsubst, simp only: nat_and_mask)

lemma vt_home_khome: "vt_shape t n \<Longrightarrow> vt_home hf t key = vt_khome hf n key"
proof -
  assume "vt_shape t n"
  then obtain k where k: "buckets_mask t = 2 ^ k - 1" "n = 2 ^ k" "k \<le> 63" by (auto simp: vt_shape_def)
  have "of_nat (2 ^ k - 1) = (mask k :: u64)" by (simp add: mask_eq_decr_exp of_nat_diff)
  then have "hf key AND of_nat (2 ^ k - 1) = take_bit k (hf key)" by (simp add: take_bit_eq_mask)
  then show ?thesis unfolding vt_home_def vt_khome_def k
    by (simp only: unsigned_take_bit_eq) (simp only: take_bit_eq_mod)
qed

text \<open>One step along the chain.\<close>

lemma vt_step:
  assumes ok: "vt_ok hf n kf mf D U" and b: "b \<in> U" "vt_khome hf n (kf b) = h"
    and x: "x = nxt (vt_chain hf n kf D U h) (D b)" "x \<noteq> 0x7FF"
  shows "probe n h x \<in> U" "vt_khome hf n (kf (probe n h x)) = h" "D (probe n h x) = x" "D b < x"
    "x \<in> vt_chain hf n kf D U h" "x < 0x7FF"
proof -
  have "x \<in> vt_chain hf n kf D U h \<and> D b < x \<and> x < 0x7FF"
    by (rule nxt_cases [of "vt_chain hf n kf D U h" "D b"]) (use vt_chain_less [OF ok] x in auto)
  then show "x \<in> vt_chain hf n kf D U h" "D b < x" "x < 0x7FF" by simp_all
  then show "probe n h x \<in> U" "vt_khome hf n (kf (probe n h x)) = h" "D (probe n h x) = x"
    using vt_chain_bucket [OF ok] by simp_all
qed

lemma vt_search_chain_result:
  assumes ok: "vt_ok hf n (vt_key t) ((!) (metadata t)) D U" and shape: "vt_shape t n"
    and b: "b \<in> U" "vt_khome hf n (vt_key t b) = h" "0x7FF - D b < fuel"
  shows "\<exists>r. vt_search_chain fuel (=) t key (vt_hashfrag (hf key)) h b = Some r \<and>
    (case r of Some c \<Rightarrow> c \<in> U \<and> vt_key t c = key
     | None \<Rightarrow> (\<forall>c \<in> U. vt_khome hf n (vt_key t c) = h \<longrightarrow> D b \<le> D c \<longrightarrow> vt_key t c \<noteq> key))"
  using b
proof (induction fuel arbitrary: b)
  case (Suc fuel)
  note fields = vt_ok_fields [OF ok Suc.prems(1) Suc.prems(2) [symmetric]]
  have k: "fst (buckets t ! b) = vt_key t b" by (simp add: vt_key_def)
  let ?x = "nxt (vt_chain hf n (vt_key t) D U h) (D b)"
  show ?case
  proof (cases "vt_key t b = key")
    case True
    then have "vt_search_chain (Suc fuel) (=) t key (vt_hashfrag (hf key)) h b = Some (Some b)"
      using fields(4) k by simp
    then show ?thesis using Suc.prems(1) True by simp
  next
    case ne: False
    show ?thesis
    proof (cases "?x = 0x7FF")
      case True
      then have "vt_search_chain (Suc fuel) (=) t key (vt_hashfrag (hf key)) h b = Some None"
        using ne fields(1) k by (simp add: unat_disp_mask Let_def)
      moreover have "vt_key t c \<noteq> key" if c: "c \<in> U" "vt_khome hf n (vt_key t c) = h" "D b \<le> D c" for c
      proof (cases "D b < D c")
        case True
        then show ?thesis
          using nxt_in [OF vt_chain_in [where kf = "vt_key t" and D = D, OF c(1,2)] True] vt_okD(2) [OF ok c(1)] \<open>?x = 0x7FF\<close> by simp
      next
        case False
        then have "b = c" using vt_same_bucket [OF ok Suc.prems(1) c(1)] c Suc.prems(2) by simp
        then show ?thesis using ne by simp
      qed
      ultimately show ?thesis by simp
    next
      case False
      note step = vt_step [OF ok Suc.prems(1,2) refl False]
      have run: "vt_search_chain (Suc fuel) (=) t key (vt_hashfrag (hf key)) h b
          = vt_search_chain fuel (=) t key (vt_hashfrag (hf key)) h (probe n h ?x)"
        using ne False fields(1) k vt_position_probe [OF shape]
        by (simp add: unat_disp_mask Let_def)
      have fuel: "0x7FF - D (probe n h ?x) < fuel" using step Suc.prems(3) by simp
      obtain r where r: "vt_search_chain fuel (=) t key (vt_hashfrag (hf key)) h (probe n h ?x) = Some r"
        "case r of Some c \<Rightarrow> c \<in> U \<and> vt_key t c = key
         | None \<Rightarrow> (\<forall>c \<in> U. vt_khome hf n (vt_key t c) = h \<longrightarrow> D (probe n h ?x) \<le> D c \<longrightarrow> vt_key t c \<noteq> key)"
        using Suc.IH [OF step(1,2) fuel] by blast
      have "vt_key t c \<noteq> key" if c: "c \<in> U" "vt_khome hf n (vt_key t c) = h" "D b \<le> D c" and "r = None" for c
      proof (cases "D b < D c")
        case True
        then have "?x \<le> D c" using nxt_in [OF vt_chain_in [where kf = "vt_key t" and D = D, OF c(1,2)] True] by simp
        then show ?thesis using r(2) that step(3) by simp
      next
        case False
        then have "b = c" using vt_same_bucket [OF ok Suc.prems(1) c(1)] c Suc.prems(2) by simp
        then show ?thesis using ne by simp
      qed
      then show ?thesis using run r by (cases r) auto
    qed
  qed
qed simp

lemma vt_find_prev_result:
  assumes ok: "vt_ok hf n (vt_key t) ((!) (metadata t)) D U" and shape: "vt_shape t n"
    and c: "c \<in> U" "vt_khome hf n (vt_key t c) = h"
    and b: "b \<in> U" "vt_khome hf n (vt_key t b) = h" "D b < D c" "0x7FF - D b < fuel"
  shows "\<exists>p. vt_find_prev fuel t h c b = Some p \<and> p \<in> U \<and> vt_khome hf n (vt_key t p) = h \<and>
    nxt (vt_chain hf n (vt_key t) D U h) (D p) = D c"
  using b
proof (induction fuel arbitrary: b)
  case (Suc fuel)
  note fields = vt_ok_fields [OF ok Suc.prems(1) Suc.prems(2) [symmetric]]
  let ?x = "nxt (vt_chain hf n (vt_key t) D U h) (D b)"
  have le: "?x \<le> D c" using nxt_in [OF vt_chain_in [where kf = "vt_key t" and D = D, OF c] Suc.prems(3)] by simp
  then have ne: "?x \<noteq> 0x7FF" using vt_okD(2) [OF ok c(1)] by simp
  note step = vt_step [OF ok Suc.prems(1,2) refl ne]
  show ?case
  proof (cases "probe n h ?x = c")
    case True
    then have "vt_find_prev (Suc fuel) t h c b = Some b"
      using fields(1) vt_position_probe [OF shape] by (simp add: Let_def)
    moreover have "?x = D c" using step(3) True by simp
    ultimately show ?thesis using Suc.prems by auto
  next
    case False
    then have "vt_find_prev (Suc fuel) t h c b = vt_find_prev fuel t h c (probe n h ?x)"
      using fields(1) vt_position_probe [OF shape] by (simp add: Let_def)
    moreover have "?x \<noteq> D c" using False vt_same_bucket [OF ok step(1) c(1)] step(2,3) c(2) by auto
    then have "D (probe n h ?x) < D c" using le step(3) by simp
    moreover have "0x7FF - D (probe n h ?x) < fuel" using step Suc.prems(4) by simp
    ultimately show ?thesis using Suc.IH [OF step(1,2)] by simp
  qed
qed simp

lemma vt_find_location_result:
  assumes ok: "vt_ok hf n (vt_key t) ((!) (metadata t)) D U" and shape: "vt_shape t n"
    and d: "d \<notin> vt_chain hf n (vt_key t) D U h" "d < 0x7FF"
    and b: "b \<in> U" "vt_khome hf n (vt_key t b) = h" "D b < d" "0x7FF - D b < fuel"
  shows "\<exists>p. vt_find_insert_location_in_chain fuel t h d b = Some p \<and> p \<in> U \<and> vt_khome hf n (vt_key t p) = h \<and>
    D p < d \<and> d < nxt (vt_chain hf n (vt_key t) D U h) (D p)"
  using b
proof (induction fuel arbitrary: b)
  case (Suc fuel)
  note fields = vt_ok_fields [OF ok Suc.prems(1) Suc.prems(2) [symmetric]]
  let ?x = "nxt (vt_chain hf n (vt_key t) D U h) (D b)"
  show ?case
  proof (cases "d < ?x")
    case True
    then show ?thesis using fields(1) Suc.prems by (simp add: Let_def)
  next
    case False
    then have ne: "?x \<noteq> 0x7FF" using d(2) by simp
    note step = vt_step [OF ok Suc.prems(1,2) refl ne]
    have run: "vt_find_insert_location_in_chain (Suc fuel) t h d b
        = vt_find_insert_location_in_chain fuel t h d (probe n h ?x)"
      using False fields(1) vt_position_probe [OF shape] by (simp add: Let_def)
    have "D (probe n h ?x) < d" using False step(3,5) d(1) by (metis nat_neq_iff)
    moreover have "0x7FF - D (probe n h ?x) < fuel" using step Suc.prems(4) by simp
    ultimately show ?thesis using Suc.IH [OF step(1,2)] run by simp
  qed
qed simp

lemma vt_find_last_result:
  assumes ok: "vt_ok hf n (vt_key t) ((!) (metadata t)) D U" and shape: "vt_shape t n"
    and b: "b \<in> U" "vt_khome hf n (vt_key t b) = h"
      "nxt (vt_chain hf n (vt_key t) D U h) (D b) \<noteq> 0x7FF" "0x7FF - D b < fuel"
  shows "\<exists>p l. vt_find_last fuel t h b = Some (p, l) \<and> p \<in> U \<and> vt_khome hf n (vt_key t p) = h \<and>
    l \<in> U \<and> vt_khome hf n (vt_key t l) = h \<and> D b < D l \<and>
    nxt (vt_chain hf n (vt_key t) D U h) (D p) = D l \<and> nxt (vt_chain hf n (vt_key t) D U h) (D l) = 0x7FF"
  using b
proof (induction fuel arbitrary: b)
  case (Suc fuel)
  note fields = vt_ok_fields [OF ok Suc.prems(1) Suc.prems(2) [symmetric]]
  let ?x = "nxt (vt_chain hf n (vt_key t) D U h) (D b)"
  note step = vt_step [OF ok Suc.prems(1,2) refl Suc.prems(3)]
  note fields' = vt_ok_fields(1) [OF ok step(1) step(2) [symmetric]]
  have pos: "vt_position t h (vt_disp (metadata t ! b)) = probe n h ?x"
    using fields(1) vt_position_probe [OF shape] by simp
  show ?case
  proof (cases "nxt (vt_chain hf n (vt_key t) D U h) ?x = 0x7FF")
    case True
    then have "vt_find_last (Suc fuel) t h b = Some (b, probe n h ?x)"
      using fields' step(3) pos by (simp add: Let_def unat_disp_mask)
    then show ?thesis using Suc.prems step True by auto
  next
    case False
    then have run: "vt_find_last (Suc fuel) t h b = vt_find_last fuel t h (probe n h ?x)"
      using fields' step(3) pos by (simp add: Let_def unat_disp_mask)
    have "0x7FF - D (probe n h ?x) < fuel" using step Suc.prems(4) by simp
    then show ?thesis using Suc.IH [OF step(1,2)] run False step(3,4) by fastforce
  qed
qed simp

section \<open>Linking and unlinking a bucket\<close>

lemma vt_chain_remove:
  assumes "vt_ok hf n kf mf D U" "c \<in> U"
  shows "vt_chain hf n kf D (U - {c}) h
    = (if h = vt_khome hf n (kf c) then vt_chain hf n kf D U h - {D c} else vt_chain hf n kf D U h)"
proof (cases "h = vt_khome hf n (kf c)")
  case True
  have "D b \<noteq> D c" if "b \<in> U" "b \<noteq> c" "vt_khome hf n (kf b) = h" for b
    using vt_same_bucket [OF assms(1) that(1) assms(2)] that True by auto
  then show ?thesis using True by (auto simp: vt_chain_def)
next
  case False
  then have "{b \<in> U - {c}. vt_khome hf n (kf b) = h} = {b \<in> U. vt_khome hf n (kf b) = h}" by auto
  then show ?thesis using False by (simp add: vt_chain_def)
qed

lemma vt_chain_add:
  assumes "x \<notin> U" "\<And>b. b \<in> U \<Longrightarrow> kf' b = kf b" "kf' x = key"
  shows "vt_chain hf n kf' (D(x := d)) (insert x U) h
    = (if h = vt_khome hf n key then insert d (vt_chain hf n kf D U h) else vt_chain hf n kf D U h)"
proof -
  let ?B = "{b \<in> U. vt_khome hf n (kf b) = h}"
  have "{b \<in> U. vt_khome hf n (kf' b) = h} = ?B" using assms(2) by auto
  then have "{b \<in> insert x U. vt_khome hf n (kf' b) = h} = (if h = vt_khome hf n key then insert x ?B else ?B)"
    using assms(3) by auto
  moreover have "(D(x := d)) ` ?B = D ` ?B" by (rule image_cong) (use assms(1) in auto)
  ultimately show ?thesis
    unfolding vt_chain_def by (cases "h = vt_khome hf n key") (simp_all only: if_True if_False image_insert fun_upd_same simp_thms)
qed

lemma vt_unlink:
  assumes ok: "vt_ok hf n kf mf D U" and c: "c \<in> U" "D c \<noteq> 0" "h = vt_khome hf n (kf c)"
    and p: "p \<in> U" "vt_khome hf n (kf p) = h" "nxt (vt_chain hf n kf D U h) (D p) = D c"
    and mf': "mf' p = vt_set_disp (mf p) (mf c AND VT_DISPLACEMENT_MASK)"
      "\<And>b. b \<in> U \<Longrightarrow> b \<noteq> c \<Longrightarrow> b \<noteq> p \<Longrightarrow> mf' b = mf b"
  shows "vt_ok hf n kf mf' D (U - {c})"
proof -
  let ?S = "vt_chain hf n kf D U h"
  note S = vt_chain_less [OF ok, where h = h]
  have mem: "D c \<in> ?S" "D p \<in> ?S" using vt_chain_in [where kf = kf and D = D] c p by auto
  have "?S \<subseteq> {..<0x7FF}" using S by auto
  note rem = nxt_remove [OF this mem p(3)]
  have less: "nxt ?S e < 0x800" for e by (rule nxt_less [OF S])
  have mfp: "mf' p = vt_md (vt_hashfrag (hf (kf p))) (D p = 0) (nxt (?S - {D c}) (D p))"
  proof -
    have "mf p = vt_md (vt_hashfrag (hf (kf p))) (D p = 0) (nxt ?S (D p))"
      using vt_okD(5) [OF ok p(1)] p(2) by simp
    moreover have "mf c AND VT_DISPLACEMENT_MASK = of_nat (nxt ?S (D c))"
      using vt_ok_fields(2) [OF ok c(1,3)] .
    ultimately show ?thesis
      unfolding mf'(1) by (simp only: vt_md_fields(5) [OF hashfrag_field less less] rem(1))
  qed
  show ?thesis
    unfolding vt_ok_def
  proof (intro conjI ballI)
    show "U - {c} \<subseteq> {..<n}" using ok by (auto simp: vt_ok_def)
    fix b assume b: "b \<in> U - {c}"
    then have bU: "b \<in> U" by simp
    note D = vt_okD [OF ok bU]
    show "D b < 0x7FF" by (rule D(2))
    show "probe n (vt_khome hf n (kf b)) (D b) = b" by (rule D(3))
    show "0 \<in> vt_chain hf n kf D (U - {c}) (vt_khome hf n (kf b))"
      using D(4) c(2,3) by (auto simp: vt_chain_remove [OF ok c(1)])
    show "mf' b = vt_md (vt_hashfrag (hf (kf b))) (D b = 0)
        (nxt (vt_chain hf n kf D (U - {c}) (vt_khome hf n (kf b))) (D b))"
    proof (cases "b = p")
      case True
      then show ?thesis using mfp p(2) c(3) by (simp add: vt_chain_remove [OF ok c(1)])
    next
      case False
      have keep: "mf' b = mf b" using mf'(2) [OF bU] b False by simp
      show ?thesis
      proof (cases "vt_khome hf n (kf b) = h")
        case True
        then have "D b \<noteq> D p" using vt_same_bucket [OF ok bU p(1)] p(2) False by auto
        then have "nxt (?S - {D c}) (D b) = nxt ?S (D b)"
          using rem(2) vt_chain_in [where kf = kf and D = D, OF bU True] by simp
        then show ?thesis using keep D(5) True c(3) by (simp add: vt_chain_remove [OF ok c(1)])
      next
        case False
        then show ?thesis using keep D(5) c(3) by (simp add: vt_chain_remove [OF ok c(1)])
      qed
    qed
  qed
qed

text \<open>The end-of-chain variant of the metadata update, used by erasure.\<close>

lemma vt_set_end:
  assumes ok: "vt_ok hf n kf mf D U" and c: "c \<in> U" "h = vt_khome hf n (kf c)"
    "nxt (vt_chain hf n kf D U h) (D c) = 0x7FF" and p: "p \<in> U"
  shows "mf p OR VT_DISPLACEMENT_MASK = vt_set_disp (mf p) (mf c AND VT_DISPLACEMENT_MASK)"
proof -
  let ?S = "vt_chain hf n kf D U (vt_khome hf n (kf p))"
  have less: "nxt ?S (D p) < 0x800" by (rule nxt_less [OF vt_chain_less [OF ok]])
  have "mf c AND VT_DISPLACEMENT_MASK = of_nat 0x7FF"
    using vt_ok_fields(2) [OF ok c(1,2)] c(3) by simp
  moreover have "mf p = vt_md (vt_hashfrag (hf (kf p))) (D p = 0) (nxt ?S (D p))"
    using vt_okD(5) [OF ok p] .
  ultimately show ?thesis
    using vt_md_fields(5) [OF hashfrag_field less, where e = "0x7FF" and h1 = "hf (kf p)" and p = "D p = 0"]
      vt_md_fields(8) [OF hashfrag_field less, where h1 = "hf (kf p)" and p = "D p = 0"]
    by (simp add: VT_DISPLACEMENT_MASK_def)
qed

lemma vt_link:
  assumes ok: "vt_ok hf n kf mf D U" and x: "x \<notin> U" "x < n" "probe n h d = x"
    and d: "d < 0x7FF" and h: "h = vt_khome hf n key"
    and p: "p \<in> U" "vt_khome hf n (kf p) = h" "D p < d" "d < nxt (vt_chain hf n kf D U h) (D p)"
    and kf': "kf' x = key" "\<And>b. b \<in> U \<Longrightarrow> kf' b = kf b"
    and mf': "mf' x = vt_hashfrag (hf key) OR (mf p AND VT_DISPLACEMENT_MASK)"
      "mf' p = vt_set_disp (mf p) (of_nat d)" "\<And>b. b \<in> U \<Longrightarrow> b \<noteq> p \<Longrightarrow> mf' b = mf b"
  shows "vt_ok hf n kf' mf' (D(x := d)) (insert x U)"
proof -
  let ?S = "vt_chain hf n kf D U h" and ?D = "D(x := d)"
  note S = vt_chain_less [OF ok, where h = h]
  have Dp: "D p \<in> ?S" using vt_chain_in [where kf = kf and D = D] p by auto
  note ins = nxt_insert [OF p(3,4)]
  have less: "nxt ?S e < 0x800" for e by (rule nxt_less [OF S])
  have dless: "d < 0x800" using d by simp
  have add: "vt_chain hf n kf' ?D (insert x U) g
    = (if g = vt_khome hf n key then insert d (vt_chain hf n kf D U g) else vt_chain hf n kf D U g)" for g
    by (rule vt_chain_add) (use x kf' in auto)
  have mfp: "mf p = vt_md (vt_hashfrag (hf (kf p))) (D p = 0) (nxt ?S (D p))"
    using vt_okD(5) [OF ok p(1)] p(2) by simp
  have zero: "0 \<in> ?S" using vt_okD(4) [OF ok p(1)] p(2) by simp
  show ?thesis
    unfolding vt_ok_def
  proof (intro conjI ballI)
    show "insert x U \<subseteq> {..<n}" using ok x by (auto simp: vt_ok_def)
    fix b assume b: "b \<in> insert x U"
    show "?D b < 0x7FF" using b d vt_okD(2) [OF ok] by auto
    show "probe n (vt_khome hf n (kf' b)) (?D b) = b"
      using b x kf' h vt_okD(3) [OF ok] by auto
    show "0 \<in> vt_chain hf n kf' ?D (insert x U) (vt_khome hf n (kf' b))"
      using b zero h kf' vt_okD(4) [OF ok] unfolding add by auto
    show "mf' b = vt_md (vt_hashfrag (hf (kf' b))) (?D b = 0)
        (nxt (vt_chain hf n kf' ?D (insert x U) (vt_khome hf n (kf' b))) (?D b))"
    proof (cases "b = x")
      case True
      have "mf p AND VT_DISPLACEMENT_MASK = of_nat (nxt ?S (D p))"
        using vt_ok_fields(2) [OF ok p(1) p(2) [symmetric]] .
      then have "mf' x = vt_md (vt_hashfrag (hf key)) False (nxt (insert d ?S) d)"
        unfolding mf'(1) ins(2) by (simp add: vt_md_def)
      then show ?thesis using True kf'(1) h p(3) by (simp add: add)
    next
      case False
      then have bU: "b \<in> U" using b by simp
      show ?thesis
      proof (cases "b = p")
        case True
        have "mf' p = vt_md (vt_hashfrag (hf (kf p))) (D p = 0) (nxt (insert d ?S) (D p))"
          unfolding mf'(2) mfp ins(1) by (rule vt_md_fields(5) [OF hashfrag_field less dless])
        then show ?thesis using True False kf'(2) [OF p(1)] p(2) h by (simp add: add)
      next
        case np: False
        have keep: "mf' b = mf b" by (rule mf'(3) [OF bU np])
        show ?thesis
        proof (cases "vt_khome hf n (kf b) = h")
          case True
          then have "D b \<noteq> D p" using vt_same_bucket [OF ok bU p(1)] p(2) np by auto
          then have "nxt (insert d ?S) (D b) = nxt ?S (D b)"
            using ins(3) vt_chain_in [where kf = kf and D = D, OF bU True] Dp by simp
          then show ?thesis using keep vt_okD(5) [OF ok bU] True False kf'(2) [OF bU] h by (simp add: add)
        next
          case nh: False
          then show ?thesis using keep vt_okD(5) [OF ok bU] False kf'(2) [OF bU] h by (simp add: add)
        qed
      qed
    qed
  qed
qed

lemma vt_start:
  assumes ok: "vt_ok hf n kf mf D U" and h: "h \<notin> U" "h < n" "h = vt_khome hf n key"
    and kf': "kf' h = key" "\<And>b. b \<in> U \<Longrightarrow> kf' b = kf b"
    and mf': "mf' h = vt_hashfrag (hf key) OR VT_IN_HOME_BUCKET_MASK OR VT_DISPLACEMENT_MASK"
      "\<And>b. b \<in> U \<Longrightarrow> mf' b = mf b"
  shows "vt_ok hf n kf' mf' (D(h := 0)) (insert h U)"
proof -
  let ?D = "D(h := 0)"
  have nohome: "vt_khome hf n (kf b) \<noteq> h" if "b \<in> U" for b
    using vt_chain_start(1) [OF ok that] h by auto
  then have empty: "vt_chain hf n kf D U h = {}" by (auto simp: vt_chain_def)
  have add: "vt_chain hf n kf' ?D (insert h U) g
    = (if g = vt_khome hf n key then insert 0 (vt_chain hf n kf D U g) else vt_chain hf n kf D U g)" for g
    by (rule vt_chain_add) (use h kf' in auto)
  show ?thesis
    unfolding vt_ok_def
  proof (intro conjI ballI)
    show "insert h U \<subseteq> {..<n}" using ok h by (auto simp: vt_ok_def)
    fix b assume b: "b \<in> insert h U"
    show "?D b < 0x7FF" using b vt_okD(2) [OF ok] by auto
    show "probe n (vt_khome hf n (kf' b)) (?D b) = b"
      using b h kf' vt_okD(3) [OF ok] probe_0 [OF h(2)] by auto
    show "0 \<in> vt_chain hf n kf' ?D (insert h U) (vt_khome hf n (kf' b))"
      using b kf' vt_okD(4) [OF ok] unfolding add by auto
    show "mf' b = vt_md (vt_hashfrag (hf (kf' b))) (?D b = 0)
        (nxt (vt_chain hf n kf' ?D (insert h U) (vt_khome hf n (kf' b))) (?D b))"
    proof (cases "b = h")
      case True
      have "nxt {0} 0 = 0x7FF" by (rule nxt_end) simp
      then have "mf' h = vt_md (vt_hashfrag (hf key)) True (nxt {0} 0)"
        unfolding mf'(1) by (simp add: vt_md_def VT_DISPLACEMENT_MASK_def or.assoc)
      moreover have "vt_chain hf n kf' ?D (insert h U) h = {0}" unfolding add using empty h(3) by simp
      ultimately show ?thesis using True kf'(1) by (simp add: h(3) [symmetric])
    next
      case False
      then have bU: "b \<in> U" using b by simp
      show ?thesis
        unfolding add using mf'(2) [OF bU] vt_okD(5) [OF ok bU] nohome [OF bU] kf'(2) [OF bU] h(3) False
        by simp
    qed
  qed
qed

text \<open>A bucket takes over the key, and the hash fragment, of another bucket of its chain.\<close>

lemma vt_replace_key:
  assumes ok: "vt_ok hf n kf mf D U" and b: "b \<in> U" "vt_khome hf n key = vt_khome hf n (kf b)"
    and kf': "kf' b = key" "\<And>c. c \<in> U \<Longrightarrow> c \<noteq> b \<Longrightarrow> kf' c = kf c"
    and mf': "mf' b = (mf b AND NOT VT_HASH_FRAG_MASK) OR vt_hashfrag (hf key)"
      "\<And>c. c \<in> U \<Longrightarrow> c \<noteq> b \<Longrightarrow> mf' c = mf c"
  shows "vt_ok hf n kf' mf' D U"
proof -
  have home: "vt_khome hf n (kf' c) = vt_khome hf n (kf c)" if "c \<in> U" for c
    using that b kf' by (cases "c = b") auto
  then have chain: "vt_chain hf n kf' D U h = vt_chain hf n kf D U h" for h
    unfolding vt_chain_def by (intro arg_cong [where f = "image D"]) auto
  show ?thesis
    unfolding vt_ok_def chain
  proof (intro conjI ballI)
    show "U \<subseteq> {..<n}" using ok by (auto simp: vt_ok_def)
    fix c assume c: "c \<in> U"
    note D = vt_okD [OF ok c]
    show "D c < 0x7FF" by (rule D(2))
    show "probe n (vt_khome hf n (kf' c)) (D c) = c" using D(3) home [OF c] by simp
    show "0 \<in> vt_chain hf n kf D U (vt_khome hf n (kf' c))" using D(4) home [OF c] by simp
    show "mf' c = vt_md (vt_hashfrag (hf (kf' c))) (D c = 0)
        (nxt (vt_chain hf n kf D U (vt_khome hf n (kf' c))) (D c))"
    proof (cases "c = b")
      case True
      have less: "nxt (vt_chain hf n kf D U (vt_khome hf n (kf b))) (D b) < 0x800"
        by (rule nxt_less [OF vt_chain_less [OF ok]])
      show ?thesis
        using mf'(1) D(5) True kf'(1) b(2) vt_md_fields(6) [OF hashfrag_field less hashfrag_field] by simp
    next
      case False
      then show ?thesis using mf'(2) [OF c] D(5) kf'(2) [OF c] by simp
    qed
  qed
qed

text \<open>The last key of a chain that starts and ends in one bucket.\<close>

lemma vt_unlink_single:
  assumes ok: "vt_ok hf n kf mf D U" and c: "c \<in> U" "D c = 0"
    "nxt (vt_chain hf n kf D U (vt_khome hf n (kf c))) 0 = 0x7FF"
    and mf': "\<And>b. b \<in> U \<Longrightarrow> b \<noteq> c \<Longrightarrow> mf' b = mf b"
  shows "vt_ok hf n kf mf' D (U - {c})"
proof -
  have alone: "vt_khome hf n (kf b) \<noteq> vt_khome hf n (kf c)" if b: "b \<in> U" "b \<noteq> c" for b
  proof
    assume h: "vt_khome hf n (kf b) = vt_khome hf n (kf c)"
    then have "D b \<noteq> 0" using vt_same_bucket [OF ok b(1) c(1)] c(2) b(2) by auto
    then have "nxt (vt_chain hf n kf D U (vt_khome hf n (kf c))) 0 \<le> D b"
      using nxt_in [OF vt_chain_in [where kf = kf and D = D, OF b(1) h], of 0] by simp
    then show False using c(3) vt_okD(2) [OF ok b(1)] by simp
  qed
  show ?thesis
    unfolding vt_ok_def
    using vt_okD [OF ok] mf' alone ok
    by (auto simp: vt_chain_remove [OF ok c(1)] vt_ok_def)
qed

end
