(* ===== verification/Verstable_Ops.thy ===== *)
theory Verstable_Ops
  imports Verstable_Correct
begin

text \<open>
  What the operations of Verstable do to a table that satisfies its invariant, and to the map it
  stands for.
\<close>

section \<open>The invariant\<close>

definition vt_live :: "('k, 'v) vt \<Rightarrow> nat \<Rightarrow> bool" where
  "vt_live t b \<longleftrightarrow> metadata t ! b \<noteq> VT_EMPTY"

definition vt_used :: "('k, 'v) vt \<Rightarrow> nat \<Rightarrow> nat set" where
  "vt_used t n = {b. b < n \<and> vt_live t b}"

definition vt_chains :: "('k \<Rightarrow> u64) \<Rightarrow> ('k, 'v) vt \<Rightarrow> nat \<Rightarrow> (nat \<Rightarrow> nat) \<Rightarrow> nat set \<Rightarrow> bool" where
  "vt_chains hf t n D U \<longleftrightarrow> vt_ok hf n (vt_key t) ((!) (metadata t)) D U"

text \<open>
  The part of the invariant that a failed eviction keeps: the arrays have their sizes, no key
  occurs twice and the keys are counted.
\<close>

definition vt_entries_ok :: "('k, 'v) vt \<Rightarrow> nat \<Rightarrow> bool" where
  "vt_entries_ok t n \<longleftrightarrow> vt_shape t n \<and> metadata t ! n = 1 \<and> keys_inj n (vt_live t) ((!) (buckets t)) \<and>
     key_count t = card (vt_used t n) \<and> 8 * key_count t \<le> 7 * n"

definition vt_table :: "('k \<Rightarrow> u64) \<Rightarrow> ('k, 'v) vt \<Rightarrow> nat \<Rightarrow> bool" where
  "vt_table hf t n \<longleftrightarrow> vt_entries_ok t n \<and> (\<exists>D. vt_chains hf t n D (vt_used t n))"

definition vt_inv :: "('k \<Rightarrow> u64) \<Rightarrow> ('k, 'v) vt \<Rightarrow> bool" where
  "vt_inv hf t \<longleftrightarrow> t = vt_init \<or> (\<exists>n. vt_table hf t n)"

definition vt_map :: "('k, 'v) vt \<Rightarrow> 'k \<Rightarrow> 'v option" where
  "vt_map t = map_of (entries (vt_bucket_count t) (vt_live t) ((!) (buckets t)))"

lemma finite_vt_used [simp]: "finite (vt_used t n)"
  by (simp add: vt_used_def)

lemma vt_shape_count: "vt_shape t n \<Longrightarrow> vt_bucket_count t = n"
  using vt_shape_pos [of t n] by (auto simp: vt_shape_def vt_bucket_count_def)

lemma vt_map_entries: "vt_shape t n \<Longrightarrow> vt_map t = map_of (entries n (vt_live t) ((!) (buckets t)))"
  by (simp add: vt_map_def vt_shape_count)

lemma vt_map_init [simp]: "vt_map vt_init = Map.empty"
  by (simp add: vt_map_def vt_init_def entries_def vt_bucket_count_def)

lemma vt_inv_init [simp]: "vt_inv hf vt_init"
  by (simp add: vt_inv_def)

lemma vt_map_at:
  assumes "vt_entries_ok t n" "b < n" "vt_live t b" "buckets t ! b = (key, v)"
  shows "vt_map t key = Some v"
proof -
  have "vt_shape t n" "keys_inj n (vt_live t) ((!) (buckets t))" using assms(1) by (auto simp: vt_entries_ok_def)
  then show ?thesis using map_of_entries_at [of n "vt_live t" "(!) (buckets t)" b] assms(2-4) by (simp add: vt_map_entries)
qed

lemma vt_map_None:
  "vt_shape t n \<Longrightarrow> vt_map t key = None \<longleftrightarrow> (\<forall>b \<in> vt_used t n. vt_key t b \<noteq> key)"
  by (auto simp: vt_map_entries map_of_entries_None vt_used_def vt_key_def)

text \<open>The first bucket of a chain and the flag in its metadatum.\<close>

lemma vt_home_flag:
  assumes "vt_chains hf t n D (vt_used t n)" "0 < n" "h < n"
  shows "metadata t ! h AND VT_IN_HOME_BUCKET_MASK = 0 \<longleftrightarrow> (h \<in> vt_used t n \<longrightarrow> D h \<noteq> 0)"
proof (cases "h \<in> vt_used t n")
  case True
  then show ?thesis using vt_ok_fields(3) [OF assms(1) [unfolded vt_chains_def] True refl] by simp
next
  case False
  then have "metadata t ! h = 0" using assms(3) by (simp add: vt_used_def vt_live_def VT_EMPTY_def)
  then show ?thesis using False by simp
qed

lemma vt_chain_no_start:
  assumes "vt_chains hf t n D U" "0 < n" "h \<in> U \<longrightarrow> D h \<noteq> 0" "b \<in> U"
  shows "vt_khome hf n (vt_key t b) \<noteq> h"
  using vt_chain_start [OF assms(1) [unfolded vt_chains_def] assms(4,2)] assms(3) by auto

section \<open>Empty buckets\<close>

lemma vt_find_first_empty_loop_result:
  assumes "vt_shape t n" "0x7FF - d \<le> fuel" "0 < d" "d < 0x7FF" "lin = tri d"
  shows "case vt_find_first_empty_loop fuel t h d lin of
      None \<Rightarrow> \<forall>e. d \<le> e \<longrightarrow> e < 0x7FF \<longrightarrow> vt_live t (probe n h e)
    | Some (x, e) \<Rightarrow> d \<le> e \<and> e < 0x7FF \<and> x = probe n h e \<and> \<not> vt_live t x"
  using assms(2-)
proof (induction fuel arbitrary: d lin)
  case (Suc fuel)
  have x: "(h + lin) AND buckets_mask t = probe n h d"
    using vt_position_probe [OF assms(1), of h d] Suc.prems by (simp add: vt_position_def vt_quadratic_tri)
  show ?case
  proof (cases "vt_live t (probe n h d)")
    case False
    then show ?thesis using x Suc.prems by (simp add: vt_live_def)
  next
    case True
    show ?thesis
    proof (cases "d + 1 = 0x7FF")
      case end_reached: True
      then have "vt_live t (probe n h e)" if "d \<le> e" "e < 0x7FF" for e
        using that True by (metis Suc_eq_plus1 le_antisym less_Suc_eq_le)
      then show ?thesis using x True end_reached by (simp add: vt_live_def unat_disp_mask Let_def)
    next
      case False
      have run: "vt_find_first_empty_loop (Suc fuel) t h d lin
          = vt_find_first_empty_loop fuel t h (d + 1) (lin + (d + 1))"
        using x True False by (simp add: vt_live_def unat_disp_mask Let_def)
      have IH: "case vt_find_first_empty_loop fuel t h (d + 1) (lin + (d + 1)) of
          None \<Rightarrow> \<forall>e. d + 1 \<le> e \<longrightarrow> e < 0x7FF \<longrightarrow> vt_live t (probe n h e)
        | Some (x, e) \<Rightarrow> d + 1 \<le> e \<and> e < 0x7FF \<and> x = probe n h e \<and> \<not> vt_live t x"
        by (rule Suc.IH) (use Suc.prems False in \<open>auto simp: tri_Suc\<close>)
      have "vt_live t (probe n h e)" if "d \<le> e" "\<forall>e. d + 1 \<le> e \<longrightarrow> e < 0x7FF \<longrightarrow> vt_live t (probe n h e)" "e < 0x7FF" for e
        using that True by (cases "e = d") auto
      then show ?thesis using IH unfolding run by (auto split: option.splits)
    qed
  qed
qed simp

lemma vt_find_first_empty_result:
  assumes "vt_shape t n"
  shows "case vt_find_first_empty t h of
      None \<Rightarrow> \<forall>e. 0 < e \<longrightarrow> e < 0x7FF \<longrightarrow> vt_live t (probe n h e)
    | Some (x, e) \<Rightarrow> 0 < e \<and> e < 0x7FF \<and> x = probe n h e \<and> x < n \<and> \<not> vt_live t x"
proof -
  have "0 < n" using vt_shape_pos [OF assms] by simp
  then show ?thesis
    using vt_find_first_empty_loop_result [OF assms, of 1 "0x7FF" 1 h]
    by (auto simp: vt_find_first_empty_def unat_disp_mask tri_def probe_less split: option.splits)
qed

text \<open>
  Below the maximum load, and with at most 2046 keys, a chain can always be extended: the buckets
  at displacements 1 to 2046 are distinct, or all of the table.
\<close>

lemma vt_find_first_empty_succeeds:
  assumes shape: "vt_shape t n" and h: "h < n" "vt_live t h"
    and load: "8 * card (vt_used t n) \<le> 7 * n" "card (vt_used t n) < 0x7FF"
  shows "vt_find_first_empty t h \<noteq> None"
proof
  assume "vt_find_first_empty t h = None"
  then have all: "vt_live t (probe n h e)" if "0 < e" "e < 0x7FF" for e
    using vt_find_first_empty_result [OF shape, of h] that by simp
  obtain k where k: "n = 2 ^ k" using shape by (auto simp: vt_shape_def)
  have n0: "0 < n" by (simp add: k)
  let ?E = "{..<min n 0x7FF}"
  have "inj_on (probe n h) ?E"
    by (rule inj_onI) (use probe_inj [of _ k _ h] in \<open>auto simp: k\<close>)
  then have "card (probe n h ` ?E) = min n 0x7FF" by (simp add: card_image)
  moreover have "probe n h ` ?E \<subseteq> vt_used t n"
  proof
    fix x assume "x \<in> probe n h ` ?E"
    then obtain e where e: "e < 0x7FF" "x = probe n h e" by auto
    have "vt_live t x" using e all h probe_0 [OF h(1)] by (cases "e = 0") auto
    then show "x \<in> vt_used t n" using e probe_less [OF n0] by (simp add: vt_used_def)
  qed
  ultimately have "min n 0x7FF \<le> card (vt_used t n)" by (metis finite_vt_used card_mono)
  then show False using load n0 by (simp add: min_def split: if_splits)
qed

section \<open>Eviction\<close>

lemma vt_shape_update:
  "vt_shape t n \<Longrightarrow> vt_shape (t\<lparr>metadata := (metadata t)[i := md]\<rparr>) n"
  "vt_shape t n \<Longrightarrow> vt_shape (t\<lparr>buckets := (buckets t)[i := kv]\<rparr>) n"
  "vt_shape t n \<Longrightarrow> vt_shape (t\<lparr>key_count := c\<rparr>) n"
  by (auto simp: vt_shape_def)

lemma vt_fuel_enough: "0x7FF - d < vt_fuel"
  by (simp add: vt_fuel_def unat_disp_mask)

lemma vt_chains_live: "vt_chains hf t n D U \<Longrightarrow> b \<in> U \<Longrightarrow> b < n \<and> vt_live t b"
  using vt_ok_fields(5) [of hf n "vt_key t" "(!) (metadata t)" D U b] vt_okD(1) [of hf n "vt_key t" "(!) (metadata t)" D U b]
  by (simp add: vt_chains_def vt_live_def)

text \<open>A free bucket is not in the chain.\<close>

lemma vt_free_displacement:
  assumes "vt_chains hf t n D U" "\<not> vt_live t (probe n h d)"
  shows "d \<notin> vt_chain hf n (vt_key t) D U h"
  using vt_chain_bucket(1) [OF assms(1) [unfolded vt_chains_def]] vt_chains_live [OF assms(1)] assms(2) by blast

text \<open>Taking a bucket out of the middle of its chain, the first half of the eviction.\<close>

lemma vt_disconnect:
  assumes ch: "vt_chains hf t n D U" and shape: "vt_shape t n"
    and c: "c \<in> U" "D c \<noteq> 0" "h = vt_khome hf n (vt_key t c)"
    and p: "p \<in> U" "vt_khome hf n (vt_key t p) = h" "nxt (vt_chain hf n (vt_key t) D U h) (D p) = D c"
    and t': "t' = t\<lparr>metadata := (metadata t)[p := vt_set_disp (metadata t ! p) (metadata t ! c AND VT_DISPLACEMENT_MASK)]\<rparr>"
  shows "vt_chains hf t' n D (U - {c})" "vt_shape t' n" "\<And>b. vt_live t' b \<longleftrightarrow> vt_live t b" "p \<noteq> c" "p < n"
proof -
  note ok = ch [unfolded vt_chains_def]
  have S: "e \<in> vt_chain hf n (vt_key t) D U h \<Longrightarrow> e < 0x7FF" for e by (rule vt_chain_less [OF ok])
  show pc: "p \<noteq> c"
  proof
    assume "p = c"
    then show False using nxt_cases [of "vt_chain hf n (vt_key t) D U h" "D p", OF S] p(3) vt_okD(2) [OF ok c(1)] by force
  qed
  show "p < n" using vt_okD(1) [OF ok p(1)] .
  then have len: "p < length (metadata t)" using shape by (simp add: vt_shape_def)
  show shape': "vt_shape t' n" using shape by (simp add: t' vt_shape_def)
  have key: "vt_key t' = vt_key t" by (simp add: t' vt_key_def fun_eq_iff)
  show ch': "vt_chains hf t' n D (U - {c})"
    unfolding vt_chains_def key
    by (rule vt_unlink [OF ok c p]) (use len in \<open>simp_all add: t'\<close>)
  show "vt_live t' b \<longleftrightarrow> vt_live t b" for b
  proof (cases "b = p")
    case True
    then show ?thesis using vt_chains_live [OF ch' , of b] vt_chains_live [OF ch, of b] p(1) pc by simp
  next
    case False
    then show ?thesis by (simp add: vt_live_def t')
  qed
qed

text \<open>
  Writing a key into a free bucket and linking it behind \<open>p\<close>, shared by eviction and insertion:
  \<open>frag\<close> is the hash fragment as the caller computes it.
\<close>

definition vt_connect :: "('k, 'v) vt \<Rightarrow> nat \<Rightarrow> nat \<Rightarrow> nat \<Rightarrow> 'k \<times> 'v \<Rightarrow> u16 \<Rightarrow> ('k, 'v) vt" where
  "vt_connect t x d p kv frag =
    (let t = t\<lparr>buckets := (buckets t)[x := kv]\<rparr>;
         t = t\<lparr>metadata := (metadata t)[x := frag OR (metadata t ! p AND VT_DISPLACEMENT_MASK)]\<rparr>
     in t\<lparr>metadata := (metadata t)[p := vt_set_disp (metadata t ! p) (of_nat d)]\<rparr>)"

lemma vt_connect_result:
  assumes ch: "vt_chains hf t n D U" and shape: "vt_shape t n"
    and x: "x = probe n h d" "\<not> vt_live t x" "d < 0x7FF" and h: "h = vt_khome hf n (fst kv)"
    and p: "p \<in> U" "vt_khome hf n (vt_key t p) = h" "D p < d" "d < nxt (vt_chain hf n (vt_key t) D U h) (D p)"
  shows "vt_chains hf (vt_connect t x d p kv (vt_hashfrag (hf (fst kv)))) n (D(x := d)) (insert x U)" (is ?c)
    and "vt_shape (vt_connect t x d p kv (vt_hashfrag (hf (fst kv)))) n"
    and "b < n \<Longrightarrow> vt_live (vt_connect t x d p kv (vt_hashfrag (hf (fst kv)))) b \<longleftrightarrow> b = x \<or> vt_live t b"
    and "x < n" "p \<noteq> x"
proof -
  let ?t = "vt_connect t x d p kv (vt_hashfrag (hf (fst kv)))"
  note ok = ch [unfolded vt_chains_def]
  show xn: "x < n" using vt_shape_pos [OF shape] by (simp add: x probe_less)
  have xU: "x \<notin> U" using vt_chains_live [OF ch] x(2) by blast
  then show px: "p \<noteq> x" using p(1) by auto
  have pn: "p < n" using vt_okD(1) [OF ok p(1)] .
  have len: "x < length (metadata t)" "p < length (metadata t)" "x < length (buckets t)"
    using shape xn pn by (simp_all add: vt_shape_def)
  show "vt_shape ?t n" using shape by (simp add: vt_connect_def vt_shape_def Let_def)
  have key: "vt_key ?t x = fst kv" "b \<in> U \<Longrightarrow> vt_key ?t b = vt_key t b" for b
    using len xU by (auto simp: vt_connect_def vt_key_def Let_def nth_list_update)
  show c: ?c
    unfolding vt_chains_def
    by (rule vt_link [OF ok xU xn x(1) [symmetric] x(3) h p key])
      (use len px xU in \<open>auto simp: vt_connect_def Let_def nth_list_update\<close>)
  show "vt_live ?t b \<longleftrightarrow> b = x \<or> vt_live t b" if "b < n"
  proof (cases "b \<in> insert x U")
    case True
    then show ?thesis using vt_chains_live [OF c True] vt_chains_live [OF ch, of b] by auto
  next
    case False
    then have "b \<noteq> p" "b \<noteq> x" using p(1) by auto
    then show ?thesis by (simp add: vt_live_def vt_connect_def Let_def)
  qed
qed


lemma vt_evict_result:
  assumes ch: "vt_chains hf t n D (vt_used t n)" and shape: "vt_shape t n"
    and h: "h \<in> vt_used t n" "D h \<noteq> 0"
  obtains t' r where "vt_evict hf t h = Some (t', r)" "vt_shape t' n" "key_count t' = key_count t"
    "metadata t' ! n = metadata t ! n"
    "if r then \<exists>x D'. x < n \<and> \<not> vt_live t x \<and> buckets t' = (buckets t)[x := buckets t ! h] \<and>
        (\<forall>b < n. vt_live t' b \<longleftrightarrow> b = x \<or> vt_live t b) \<and> vt_chains hf t' n D' (insert x (vt_used t n - {h}))
      else buckets t' = buckets t \<and> (\<forall>b < n. vt_live t' b \<longleftrightarrow> vt_live t b) \<and>
        \<not> (8 * card (vt_used t n) \<le> 7 * n \<and> card (vt_used t n) < 0x7FF)"
proof -
  let ?U = "vt_used t n" and ?g = "vt_khome hf n (vt_key t h)"
  note ok = ch [unfolded vt_chains_def]
  have n0: "0 < n" using vt_shape_pos [OF shape] by simp
  have home: "vt_home hf t (fst (buckets t ! h)) = ?g"
    using vt_home_khome [OF shape] by (simp add: vt_key_def)
  note start = vt_chain_start [OF ok h(1) n0]
  have gh: "?g \<noteq> h" using start(3) h(2) by metis
  have gn: "?g < n" by (rule vt_khome_less [OF n0])
  obtain p where p: "vt_find_prev vt_fuel t ?g h ?g = Some p" "p \<in> ?U" "vt_khome hf n (vt_key t p) = ?g"
    "nxt (vt_chain hf n (vt_key t) D ?U ?g) (D p) = D h"
    using vt_find_prev_result [OF ok shape h(1) refl start(1,2) _ vt_fuel_enough] start(3) h(2) by auto
  define t1 where "t1 = t\<lparr>metadata := (metadata t)[p := vt_set_disp (metadata t ! p) (metadata t ! h AND VT_DISPLACEMENT_MASK)]\<rparr>"
  note dis = vt_disconnect [OF ch shape h refl p(2-4) t1_def]
  have used1: "vt_used t1 n = ?U" by (simp add: vt_used_def dis(3))
  have same: "buckets t1 = buckets t" "key_count t1 = key_count t" "metadata t1 ! n = metadata t ! n"
    using dis(5) by (simp_all add: t1_def)
  have key1: "vt_key t1 = vt_key t" by (simp add: vt_key_def fun_eq_iff same)
  have run: "vt_evict hf t h = (case vt_find_first_empty t1 ?g of
       None \<Rightarrow> Some (t1, False)
     | Some (vacant, displacement) \<Rightarrow>
         (case vt_find_insert_location_in_chain vt_fuel t1 ?g displacement ?g of
            None \<Rightarrow> None
          | Some q \<Rightarrow> Some (vt_connect t1 vacant displacement q (buckets t1 ! h) (metadata t1 ! h AND VT_HASH_FRAG_MASK), True)))"
    if "\<And>x q. vt_find_first_empty t1 ?g = Some (x, q) \<Longrightarrow> x \<noteq> h"
    unfolding vt_evict_def home p(1) Let_def option.case t1_def [symmetric] vt_connect_def
    using that by (auto split: option.splits intro!: arg_cong [where f = Some])
  show thesis
  proof (cases "vt_find_first_empty t1 ?g")
    case None
    have "\<not> (8 * card ?U \<le> 7 * n \<and> card ?U < 0x7FF)"
      using vt_find_first_empty_succeeds [OF dis(2) gn] None dis(3) start(1) by (auto simp: used1 vt_used_def)
    then show thesis using that [of t1 False] run None dis(2,3) same by simp
  next
    case (Some xd)
    obtain x d where xd: "vt_find_first_empty t1 ?g = Some (x, d)" using Some by (cases xd) auto
    have x: "0 < d" "d < 0x7FF" "x = probe n ?g d" "x < n" "\<not> vt_live t1 x"
      using vt_find_first_empty_result [OF dis(2), of ?g] xd by auto
    have xh: "x \<noteq> h" using x(5) h(1) dis(3) by (auto simp: vt_used_def)
    have g1: "?g \<in> ?U - {h}" "vt_khome hf n (vt_key t1 ?g) = ?g" using start gh by (simp_all add: key1)
    have "d \<notin> vt_chain hf n (vt_key t1) D (?U - {h}) ?g"
      by (rule vt_free_displacement [OF dis(1)]) (use x in simp)
    then obtain q where q: "vt_find_insert_location_in_chain vt_fuel t1 ?g d ?g = Some q" "q \<in> ?U - {h}"
      "vt_khome hf n (vt_key t1 q) = ?g" "D q < d" "d < nxt (vt_chain hf n (vt_key t1) D (?U - {h}) ?g) (D q)"
      using vt_find_location_result [OF dis(1) [unfolded vt_chains_def] dis(2) _ x(2) g1 _ vt_fuel_enough]
        start(3) x(1) by auto
    have kh: "?g = vt_khome hf n (fst (buckets t1 ! h))" by (simp add: same vt_key_def)
    note con = vt_connect_result [OF dis(1,2) x(3,5,2) kh q(2-5)]
    have frag: "metadata t1 ! h AND VT_HASH_FRAG_MASK = vt_hashfrag (hf (fst (buckets t1 ! h)))"
      using vt_ok_fields(4) [OF ok h(1) refl] dis(4) by (simp add: t1_def same vt_key_def)
    let ?t = "vt_connect t1 x d q (buckets t1 ! h) (vt_hashfrag (hf (fst (buckets t1 ! h))))"
    have "vt_evict hf t h = Some (?t, True)" using run xd xh q(1) frag by simp
    moreover have "q < n" using q(2) by (simp add: vt_used_def)
    then have "buckets ?t = (buckets t)[x := buckets t ! h]" "key_count ?t = key_count t" "metadata ?t ! n = metadata t ! n"
      using x(4) by (simp_all add: vt_connect_def Let_def same)
    moreover have "\<forall>b < n. vt_live ?t b \<longleftrightarrow> b = x \<or> vt_live t b" using con(3) dis(3) by simp
    ultimately show thesis using that [of ?t True] con(1,2) x(4,5) dis(3) by auto
  qed
qed


section \<open>Entries\<close>

text \<open>An entry moves from bucket \<open>i\<close> to bucket \<open>x\<close>.\<close>

lemma entries_move:
  assumes inj: "keys_inj n live f" and i: "i < n" "live i" "\<not> live' i" and x: "x < n" "\<not> live x" "live' x" "f' x = f i"
    and other: "\<And>j. j < n \<Longrightarrow> j \<noteq> i \<Longrightarrow> j \<noteq> x \<Longrightarrow> (live' j \<longleftrightarrow> live j) \<and> (live j \<longrightarrow> f' j = f j)"
  shows "keys_inj n live' f'" (is ?inj)
    and "map_of (entries n live' f') = map_of (entries n live f)"
proof -
  show ?inj
    using inj i x other unfolding keys_inj_def inj_on_def by (simp, metis)
  show "map_of (entries n live' f') = map_of (entries n live f)"
  proof (rule map_eqI)
    fix k w
    have "(\<exists>j<n. live' j \<and> f' j = (k, w)) \<longleftrightarrow> (\<exists>j<n. live j \<and> f j = (k, w))"
      using i x other by metis
    then show "map_of (entries n live' f') k = Some w \<longleftrightarrow> map_of (entries n live f) k = Some w"
      by (simp add: map_of_entries_Some [OF inj] map_of_entries_Some [OF \<open>?inj\<close>])
  qed
qed

lemma vt_entries_same:
  assumes ok: "vt_entries_ok t n" and t': "vt_shape t' n" "key_count t' = key_count t" "metadata t' ! n = metadata t ! n"
    "buckets t' = buckets t" "\<forall>b < n. vt_live t' b \<longleftrightarrow> vt_live t b"
  shows "vt_entries_ok t' n" "vt_map t' = vt_map t"
proof -
  have shape: "vt_shape t n" and inj: "keys_inj n (vt_live t) ((!) (buckets t))" using ok by (simp_all add: vt_entries_ok_def)
  have "entries n (vt_live t') ((!) (buckets t')) = entries n (vt_live t) ((!) (buckets t))"
    by (rule entries_cong) (use t' in auto)
  then show "vt_map t' = vt_map t" by (simp add: vt_map_entries [OF shape] vt_map_entries [OF t'(1)])
  have "{i. i < n \<and> vt_live t' i} = {i. i < n \<and> vt_live t i}" using t'(5) by auto
  then show "vt_entries_ok t' n"
    using ok t' by (simp add: vt_entries_ok_def keys_inj_def vt_used_def)
qed

text \<open>A new key \<open>key\<close> in the bucket \<open>i\<close>, free in \<open>t\<close> (possibly after a move, so only as described by \<open>live\<close> and \<open>f\<close>).\<close>

lemma vt_entries_add:
  assumes ok: "vt_entries_ok t n" and load: "8 * (key_count t + 1) \<le> 7 * n"
    and inj: "keys_inj n live f" and map: "map_of (entries n live f) = vt_map t" and card: "card {b. b < n \<and> live b} = key_count t"
    and none: "vt_map t key = None"
    and t': "vt_shape t' n" "key_count t' = key_count t + 1" "metadata t' ! n = metadata t ! n"
    and i: "i < n" "\<not> live i" "vt_live t' i" "buckets t' ! i = (key, val)"
    and other: "\<And>j. j < n \<Longrightarrow> j \<noteq> i \<Longrightarrow> (vt_live t' j \<longleftrightarrow> live j) \<and> (live j \<longrightarrow> buckets t' ! j = f j)"
  shows "vt_entries_ok t' n" "vt_map t' = (vt_map t)(key \<mapsto> val)"
proof -
  have fresh: "fst (f j) \<noteq> key" if "j < n" "live j" for j
  proof
    assume "fst (f j) = key"
    then have "map_of (entries n live f) key = Some (snd (f j))" using map_of_entries_at [OF inj that] by simp
    then show False using map none by simp
  qed
  have put: "keys_inj n (vt_live t') ((!) (buckets t'))"
    "map_of (entries n (vt_live t') ((!) (buckets t'))) = (map_of (entries n live f))(key \<mapsto> val)"
    by (rule entries_put [OF inj, of i]; use i other fresh in auto)+
  show "vt_map t' = (vt_map t)(key \<mapsto> val)" using put(2) map by (simp add: vt_map_entries [OF t'(1)])
  have "card {b. b < n \<and> vt_live t' b} = Suc (card {b. b < n \<and> live b})"
    by (rule card_live_insert [of i]) (use i other in auto)
  then show "vt_entries_ok t' n" using ok put(1) load t' card by (simp add: vt_entries_ok_def vt_used_def)
qed


section \<open>Insertion\<close>

lemma vt_tableD:
  assumes "vt_table hf t n"
  shows "vt_entries_ok t n" "vt_shape t n" "keys_inj n (vt_live t) ((!) (buckets t))" "8 \<le> n"
    "key_count t = card (vt_used t n)" "8 * card (vt_used t n) \<le> 7 * n"
    "vt_overloaded t \<longleftrightarrow> \<not> 8 * (key_count t + 1) \<le> 7 * n" "metadata t ! n = 1" "vt_bucket_count t = n"
  using assms vt_shape_pos [of t n] by (auto simp: vt_table_def vt_entries_ok_def vt_overloaded_def vt_shape_count)

lemma vt_search_result:
  assumes tbl: "vt_table hf t n" and flag: "metadata t ! vt_khome hf n key AND VT_IN_HOME_BUCKET_MASK \<noteq> 0"
  shows "\<exists>r. vt_search_chain vt_fuel (=) t key (vt_hashfrag (hf key)) (vt_khome hf n key) (vt_khome hf n key) = Some r \<and>
    (case r of Some c \<Rightarrow> c \<in> vt_used t n \<and> vt_key t c = key \<and> vt_map t key = Some (snd (buckets t ! c)) | None \<Rightarrow> vt_map t key = None)"
proof -
  let ?U = "vt_used t n" and ?h = "vt_khome hf n key"
  note T = vt_tableD [OF tbl]
  obtain D where ch: "vt_chains hf t n D ?U" using tbl by (auto simp: vt_table_def)
  note ok = ch [unfolded vt_chains_def]
  have n0: "0 < n" and hn: "?h < n" using T(4) vt_khome_less [of n hf key] by simp_all
  have h: "?h \<in> ?U" "D ?h = 0" using flag vt_home_flag [OF ch n0 hn] by auto
  obtain r where r: "vt_search_chain vt_fuel (=) t key (vt_hashfrag (hf key)) ?h ?h = Some r"
    "case r of Some c \<Rightarrow> c \<in> ?U \<and> vt_key t c = key
     | None \<Rightarrow> (\<forall>c \<in> ?U. vt_khome hf n (vt_key t c) = ?h \<longrightarrow> D ?h \<le> D c \<longrightarrow> vt_key t c \<noteq> key)"
    using vt_search_chain_result [OF ok T(2) h(1) vt_start_home [OF ok n0 h] vt_fuel_enough, of key] by blast
  show ?thesis
  proof (cases r)
    case None
    then have "vt_map t key = None" using r(2) h(2) by (auto simp: vt_map_None [OF T(2)])
    then show ?thesis using r(1) None by simp
  next
    case (Some c)
    then have "c \<in> ?U" "vt_key t c = key" using r(2) by auto
    moreover from this have "vt_map t key = Some (snd (buckets t ! c))"
      by (intro vt_map_at [OF T(1)]) (auto simp: vt_used_def vt_key_def prod_eq_iff)
    ultimately show ?thesis using r(1) Some by simp
  qed
qed

text \<open>A new key at its home bucket, free or freed by an eviction.\<close>

lemma vt_put_home:
  assumes ok: "vt_entries_ok t n" and load: "8 * (key_count t + 1) \<le> 7 * n"
    and ch: "vt_chains hf t1 n D U" and shape: "vt_shape t1 n" and h: "h = vt_khome hf n key" "h < n" "h \<notin> U"
    and t1: "key_count t1 = key_count t" "metadata t1 ! n = metadata t ! n" "\<And>b. b < n \<Longrightarrow> b \<noteq> h \<Longrightarrow> vt_live t1 b \<longleftrightarrow> b \<in> U"
    and inj: "keys_inj n (\<lambda>b. b \<in> U) ((!) (buckets t1))"
    and map: "map_of (entries n (\<lambda>b. b \<in> U) ((!) (buckets t1))) = vt_map t" and card: "card U = key_count t"
    and none: "vt_map t key = None"
    and t': "t' = t1\<lparr>buckets := (buckets t1)[h := (key, val)],
      metadata := (metadata t1)[h := vt_hashfrag (hf key) OR VT_IN_HOME_BUCKET_MASK OR VT_DISPLACEMENT_MASK],
      key_count := key_count t1 + 1\<rparr>"
  shows "vt_table hf t' n" "vt_map t' = (vt_map t)(key \<mapsto> val)" "vt_live t' h" "buckets t' ! h = (key, val)"
proof -
  have sub: "U \<subseteq> {..<n}" using ch by (auto simp: vt_chains_def vt_ok_def)
  have len: "h < length (metadata t1)" "h < length (buckets t1)" using shape h(2) by (simp_all add: vt_shape_def)
  have ch': "vt_chains hf t' n (D(h := 0)) (insert h U)"
    unfolding vt_chains_def
    by (rule vt_start [OF ch [unfolded vt_chains_def] h(3,2,1)])
      (use len h(3) in \<open>auto simp: t' vt_key_def nth_list_update\<close>)
  show at: "buckets t' ! h = (key, val)" using len by (simp add: t')
  show live: "vt_live t' h" using vt_chains_live [OF ch'] by simp
  have shape': "vt_shape t' n" using shape by (simp add: t' vt_shape_def)
  have eq: "{b. b < n \<and> b \<in> U} = U" using sub by auto
  have other: "(vt_live t' j \<longleftrightarrow> j \<in> U) \<and> (j \<in> U \<longrightarrow> buckets t' ! j = buckets t1 ! j)" if "j < n" "j \<noteq> h" for j
    using t1(3) [OF that] that by (simp add: t' vt_live_def)
  note add = vt_entries_add [OF ok load inj map _ none shape', of h val]
  have E: "vt_entries_ok t' n" and M: "vt_map t' = (vt_map t)(key \<mapsto> val)"
    by (rule add; use t1 h card eq other live at in \<open>simp add: t'\<close>)+
  show "vt_map t' = (vt_map t)(key \<mapsto> val)" by (rule M)
  have "vt_used t' n = insert h U" using other live sub h(2) by (auto simp: vt_used_def)
  then show "vt_table hf t' n" using E ch' by (auto simp: vt_table_def)
qed


text \<open>The whole operation: the outcome without an iterator is the one that asks for a rehash.\<close>

definition vt_inserted :: "('k \<Rightarrow> u64) \<Rightarrow> nat \<Rightarrow> ('k, 'v) vt \<Rightarrow> 'k \<Rightarrow> 'v \<Rightarrow> bool \<Rightarrow> ('k, 'v) vt \<Rightarrow> vt_itr \<Rightarrow> bool" where
  "vt_inserted hf n t key val replace t' i \<longleftrightarrow>
     vt_table hf t' n \<and>
     vt_map t' = (if vt_map t key \<noteq> None \<and> \<not> replace then vt_map t else (vt_map t)(key \<mapsto> val)) \<and>
     key_count t' = key_count t + (if vt_map t key = None then 1 else 0) \<and>
     home_bucket i = Some (vt_khome hf n key) \<and> itr_bucket i < n \<and> vt_live t' (itr_bucket i) \<and>
     fst (buckets t' ! itr_bucket i) = key"

lemma vt_insert_home:
  assumes tbl: "vt_table hf t n" and flag: "metadata t ! vt_khome hf n key AND VT_IN_HOME_BUCKET_MASK = 0"
  shows "vt_map t key = None" and
    "\<exists>t' itr. vt_insert_raw hf (=) t key val unique replace = Some (t', itr) \<and>
      (case itr of None \<Rightarrow> vt_entries_ok t' n \<and> vt_map t' = vt_map t \<and> key_count t' = key_count t \<and>
         \<not> (8 * (key_count t + 1) \<le> 7 * n \<and> key_count t < 0x7FF)
       | Some i \<Rightarrow> vt_inserted hf n t key val replace t' i)"
proof -
  let ?U = "vt_used t n" and ?h = "vt_khome hf n key"
  note T = vt_tableD [OF tbl]
  obtain D where ch: "vt_chains hf t n D ?U" using tbl by (auto simp: vt_table_def)
  have n0: "0 < n" and hn: "?h < n" using T(4) vt_khome_less [of n hf key] by simp_all
  have home: "vt_home hf t key = ?h" by (rule vt_home_khome [OF T(2)])
  have nostart: "?h \<in> ?U \<longrightarrow> D ?h \<noteq> 0" using flag vt_home_flag [OF ch n0 hn] by simp
  show none: "vt_map t key = None"
    using vt_chain_no_start [OF ch n0 nostart] by (auto simp: vt_map_None [OF T(2)])
  let ?put = "\<lambda>t. t\<lparr>buckets := (buckets t)[?h := (key, val)],
    metadata := (metadata t)[?h := vt_hashfrag (hf key) OR VT_IN_HOME_BUCKET_MASK OR VT_DISPLACEMENT_MASK],
    key_count := key_count t + 1\<rparr>"
  have done_at: "vt_inserted hf n t key val replace (?put t1) \<lparr>itr_bucket = ?h, home_bucket = Some ?h\<rparr>"
    if "vt_table hf (?put t1) n" "vt_map (?put t1) = (vt_map t)(key \<mapsto> val)" "vt_live (?put t1) ?h"
      "buckets (?put t1) ! ?h = (key, val)" "key_count t1 = key_count t" for t1
    unfolding vt_inserted_def using that none hn by simp
  show "\<exists>t' itr. vt_insert_raw hf (=) t key val unique replace = Some (t', itr) \<and>
      (case itr of None \<Rightarrow> vt_entries_ok t' n \<and> vt_map t' = vt_map t \<and> key_count t' = key_count t \<and>
         \<not> (8 * (key_count t + 1) \<le> 7 * n \<and> key_count t < 0x7FF)
       | Some i \<Rightarrow> vt_inserted hf n t key val replace t' i)"
  proof (cases "vt_overloaded t")
    case True
    then show ?thesis using T(1,7) flag home by (simp add: vt_insert_raw_def Let_def vt_end_itr_def)
  next
    case False
    then have load: "8 * (key_count t + 1) \<le> 7 * n" using T(7) by simp
    show ?thesis
    proof (cases "metadata t ! ?h = VT_EMPTY")
      case True
      then have hU: "?h \<notin> ?U" by (simp add: vt_used_def vt_live_def)
      have ent: "entries n (\<lambda>b. b \<in> ?U) f = entries n (vt_live t) f" for f :: "nat \<Rightarrow> 'a \<times> 'b"
        by (rule entries_cong) (auto simp: vt_used_def)
      have inj: "keys_inj n (\<lambda>b. b \<in> ?U) ((!) (buckets t))"
        using T(3) unfolding distinct_entries [symmetric] ent .
      have mapU: "map_of (entries n (\<lambda>b. b \<in> ?U) ((!) (buckets t))) = vt_map t"
        by (simp only: ent vt_map_entries [OF T(2)])
      have live: "vt_live t b \<longleftrightarrow> b \<in> ?U" if "b < n" "b \<noteq> ?h" for b using that by (simp add: vt_used_def)
      note put = vt_put_home [OF T(1) load ch T(2) refl hn hU refl refl live inj mapU T(5) [symmetric] none refl, of val]
      have "vt_insert_raw hf (=) t key val unique replace
          = Some (?put t, Some \<lparr>itr_bucket = ?h, home_bucket = Some ?h\<rparr>)"
        using True False flag home by (simp add: vt_insert_raw_def Let_def vt_itr_at_def)
      moreover have "vt_inserted hf n t key val replace (?put t) \<lparr>itr_bucket = ?h, home_bucket = Some ?h\<rparr>"
        by (rule done_at) (use put in simp_all)
      ultimately show ?thesis by simp
    next
      case occupied: False
      then have h: "?h \<in> ?U" "D ?h \<noteq> 0" using hn nostart by (simp_all add: vt_used_def vt_live_def)
      obtain t1 r where e: "vt_evict hf t ?h = Some (t1, r)" "vt_shape t1 n" "key_count t1 = key_count t"
        "metadata t1 ! n = metadata t ! n"
        "if r then \<exists>x D'. x < n \<and> \<not> vt_live t x \<and> buckets t1 = (buckets t)[x := buckets t ! ?h] \<and>
            (\<forall>b < n. vt_live t1 b \<longleftrightarrow> b = x \<or> vt_live t b) \<and> vt_chains hf t1 n D' (insert x (?U - {?h}))
          else buckets t1 = buckets t \<and> (\<forall>b < n. vt_live t1 b \<longleftrightarrow> vt_live t b) \<and>
            \<not> (8 * card ?U \<le> 7 * n \<and> card ?U < 0x7FF)"
        by (rule vt_evict_result [OF ch T(2) h])
      show ?thesis
      proof (cases r)
        case False
        then have "vt_entries_ok t1 n" "vt_map t1 = vt_map t"
          using vt_entries_same [OF T(1) e(2-4)] e(5) by simp_all
        then show ?thesis using e(1,3) e(5) False T(5) T(6) \<open>\<not> vt_overloaded t\<close> flag home occupied
          by (simp add: vt_insert_raw_def Let_def vt_end_itr_def)
      next
        case True
        then obtain x D' where x: "x < n" "\<not> vt_live t x" "buckets t1 = (buckets t)[x := buckets t ! ?h]"
          "\<forall>b < n. vt_live t1 b \<longleftrightarrow> b = x \<or> vt_live t b" "vt_chains hf t1 n D' (insert x (?U - {?h}))"
          using e(5) by auto
        let ?V = "insert x (?U - {?h})"
        have xh: "x \<noteq> ?h" and xU: "x \<notin> ?U" using x(2) h(1) by (auto simp: vt_used_def)
        have hV: "?h \<notin> ?V" using xh by simp
        have len: "length (buckets t) = n" using T(2) by (simp add: vt_shape_def)
        have move: "keys_inj n (\<lambda>b. b \<in> ?V) ((!) (buckets t1))"
          "map_of (entries n (\<lambda>b. b \<in> ?V) ((!) (buckets t1))) = map_of (entries n (vt_live t) ((!) (buckets t)))"
          by (rule entries_move [OF T(3), of ?h _ x];
              use x h xh len hn in \<open>simp add: vt_used_def\<close>)+
        have card: "card ?V = key_count t" using xU h(1) T(5) by (simp add: card_Diff_singleton) (metis Suc_pred card_gt_0_iff empty_iff finite_vt_used)
        have live: "vt_live t1 b \<longleftrightarrow> b \<in> ?V" if "b < n" "b \<noteq> ?h" for b
          using x(4) that by (auto simp: vt_used_def)
        have mapV: "map_of (entries n (\<lambda>b. b \<in> ?V) ((!) (buckets t1))) = vt_map t"
          by (simp only: move(2) vt_map_entries [OF T(2)])
        note put = vt_put_home [OF T(1) load x(5) e(2) refl hn hV e(3,4) live move(1) mapV card none refl, of val]
        have "vt_insert_raw hf (=) t key val unique replace
            = Some (?put t1, Some \<lparr>itr_bucket = ?h, home_bucket = Some ?h\<rparr>)"
          using True e(1) \<open>\<not> vt_overloaded t\<close> flag home occupied by (simp add: vt_insert_raw_def Let_def vt_itr_at_def)
        moreover have "vt_inserted hf n t key val replace (?put t1) \<lparr>itr_bucket = ?h, home_bucket = Some ?h\<rparr>"
          by (rule done_at) (use put e(3) in simp_all)
        ultimately show ?thesis by simp
      qed
    qed
  qed
qed


text \<open>The key comes behind others of its home: replace its value, or link a free bucket into the chain.\<close>

lemma vt_replace_value:
  assumes tbl: "vt_table hf t n" and b: "b \<in> vt_used t n" "vt_key t b = key"
  shows "vt_table hf (t\<lparr>buckets := (buckets t)[b := (key, val)]\<rparr>) n"
    and "vt_map (t\<lparr>buckets := (buckets t)[b := (key, val)]\<rparr>) = (vt_map t)(key \<mapsto> val)"
proof -
  let ?t = "t\<lparr>buckets := (buckets t)[b := (key, val)]\<rparr>"
  note T = vt_tableD [OF tbl]
  obtain D where ch: "vt_chains hf t n D (vt_used t n)" using tbl by (auto simp: vt_table_def)
  have bn: "b < n" "vt_live t b" using b(1) by (simp_all add: vt_used_def)
  have len: "b < length (buckets t)" using T(2) bn by (simp add: vt_shape_def)
  have shape: "vt_shape ?t n" using T(2) by (simp add: vt_shape_def)
  have live: "vt_live ?t = vt_live t" by (simp add: vt_live_def fun_eq_iff)
  have used: "vt_used ?t n = vt_used t n" by (simp add: vt_used_def live)
  have key: "vt_key ?t = vt_key t" using len b(2) by (auto simp: vt_key_def fun_eq_iff nth_list_update)
  have own: "fst (buckets t ! b) = key" using b(2) by (simp add: vt_key_def)
  have put: "keys_inj n (vt_live t) ((!) (buckets ?t))"
    "map_of (entries n (vt_live t) ((!) (buckets ?t))) = (map_of (entries n (vt_live t) ((!) (buckets t))))(key \<mapsto> val)"
    by (rule entries_put [OF T(3), of b]; use bn len own keys_injD [OF T(3)] in \<open>auto\<close>)+
  show "vt_map ?t = (vt_map t)(key \<mapsto> val)"
    unfolding vt_map_entries [OF shape] vt_map_entries [OF T(2)] live by (rule put(2))
  have "vt_entries_ok ?t n" using T(1) put(1) shape by (simp add: vt_entries_ok_def used live)
  moreover have "vt_chains hf ?t n D (vt_used ?t n)" using ch unfolding vt_chains_def used key by simp
  ultimately show "vt_table hf ?t n" by (auto simp: vt_table_def)
qed

lemma vt_insert_chain:
  assumes tbl: "vt_table hf t n" and flag: "metadata t ! vt_khome hf n key AND VT_IN_HOME_BUCKET_MASK \<noteq> 0"
    and none: "vt_map t key = None" and load: "8 * (key_count t + 1) \<le> 7 * n"
    and x: "vt_find_first_empty t (vt_khome hf n key) = Some (x, d)"
  shows "\<exists>p. vt_find_insert_location_in_chain vt_fuel t (vt_khome hf n key) d (vt_khome hf n key) = Some p \<and>
    (\<forall>t'. t' = (vt_connect t x d p (key, val) (vt_hashfrag (hf key)))\<lparr>key_count := key_count t + 1\<rparr> \<longrightarrow>
      x < n \<and> vt_table hf t' n \<and> vt_map t' = (vt_map t)(key \<mapsto> val) \<and> vt_live t' x \<and> buckets t' ! x = (key, val))"
proof -
  let ?U = "vt_used t n" and ?h = "vt_khome hf n key"
  note T = vt_tableD [OF tbl]
  obtain D where ch: "vt_chains hf t n D ?U" using tbl by (auto simp: vt_table_def)
  note ok = ch [unfolded vt_chains_def]
  have n0: "0 < n" and hn: "?h < n" using T(4) vt_khome_less [of n hf key] by simp_all
  have h: "?h \<in> ?U" "D ?h = 0" using flag vt_home_flag [OF ch n0 hn] by auto
  have kh: "vt_khome hf n (vt_key t ?h) = ?h" by (rule vt_start_home [OF ok n0 h])
  have xd: "0 < d" "d < 0x7FF" "x = probe n ?h d" "x < n" "\<not> vt_live t x"
    using vt_find_first_empty_result [OF T(2), of ?h] x by auto
  have "d \<notin> vt_chain hf n (vt_key t) D ?U ?h" by (rule vt_free_displacement [OF ch]) (use xd in simp)
  then obtain p where p: "vt_find_insert_location_in_chain vt_fuel t ?h d ?h = Some p" "p \<in> ?U"
    "vt_khome hf n (vt_key t p) = ?h" "D p < d" "d < nxt (vt_chain hf n (vt_key t) D ?U ?h) (D p)"
    using vt_find_location_result [OF ok T(2) _ xd(2) h(1) kh _ vt_fuel_enough] h(2) xd(1) by auto
  let ?c = "vt_connect t x d p (key, val) (vt_hashfrag (hf key))"
  let ?t = "?c\<lparr>key_count := key_count t + 1\<rparr>"
  have home: "?h = vt_khome hf n (fst (key, val))" by simp
  note con = vt_connect_result [OF ch T(2) xd(3,5,2) home p(2-5), unfolded fst_conv]
  have pn: "p < n" using p(2) by (simp add: vt_used_def)
  have len: "length (buckets t) = n" using T(2) by (simp add: vt_shape_def)
  have b: "buckets ?t = (buckets t)[x := (key, val)]" "metadata ?t ! n = metadata t ! n"
    using xd(4) pn by (simp_all add: vt_connect_def Let_def)
  have live: "vt_live ?t b \<longleftrightarrow> b = x \<or> vt_live t b" if "b < n" for b
    using con(3) [OF that] by (simp add: vt_live_def)
  have shape: "vt_shape ?t n" using con(2) by (simp add: vt_shape_def)
  have card: "card {b. b < n \<and> vt_live t b} = key_count t" using T(5) by (simp add: vt_used_def)
  have at: "buckets ?t ! x = (key, val)" "vt_live ?t x" using b(1) len xd(4) live by simp_all
  have E: "vt_entries_ok ?t n" and M: "vt_map ?t = (vt_map t)(key \<mapsto> val)"
    by (rule vt_entries_add [OF T(1) load T(3) vt_map_entries [OF T(2), symmetric] card none shape _ b(2) xd(4,5)];
      use at live b(1) in simp)+
  have used: "vt_used ?t n = insert x ?U" using live xd(4) by (auto simp: vt_used_def)
  have "vt_chains hf ?t n (D(x := d)) (vt_used ?t n)"
    using con(1) unfolding used by (simp add: vt_chains_def vt_key_def [abs_def])
  then have "vt_table hf ?t n" using E by (auto simp: vt_table_def)
  then show ?thesis using p(1) M at xd(4) by blast
qed

lemma vt_insert_raw_result:
  assumes tbl: "vt_table hf t n" and unique: "unique \<longrightarrow> vt_map t key = None"
  shows "\<exists>t' itr. vt_insert_raw hf (=) t key val unique replace = Some (t', itr) \<and>
      (case itr of None \<Rightarrow> vt_entries_ok t' n \<and> vt_map t' = vt_map t \<and> key_count t' = key_count t \<and> vt_map t key = None \<and>
         \<not> (8 * (key_count t + 1) \<le> 7 * n \<and> key_count t < 0x7FF)
       | Some i \<Rightarrow> vt_inserted hf n t key val replace t' i)"
proof (cases "metadata t ! vt_khome hf n key AND VT_IN_HOME_BUCKET_MASK = 0")
  case True
  obtain t' itr where r: "vt_insert_raw hf (=) t key val unique replace = Some (t', itr)"
    "case itr of None \<Rightarrow> vt_entries_ok t' n \<and> vt_map t' = vt_map t \<and> key_count t' = key_count t \<and>
         \<not> (8 * (key_count t + 1) \<le> 7 * n \<and> key_count t < 0x7FF)
       | Some i \<Rightarrow> vt_inserted hf n t key val replace t' i"
    using vt_insert_home(2) [OF tbl True] by blast
  show ?thesis
    by (intro exI [of _ t'] exI [of _ itr]) (use r vt_insert_home(1) [OF tbl True] in \<open>cases itr; simp\<close>)
next
  case flag: False
  let ?h = "vt_khome hf n key"
  note T = vt_tableD [OF tbl]
  have home: "vt_home hf t key = ?h" by (rule vt_home_khome [OF T(2)])
  obtain D where ch: "vt_chains hf t n D (vt_used t n)" using tbl by (auto simp: vt_table_def)
  have n0: "0 < n" and hn: "?h < n" using T(4) vt_khome_less [of n hf key] by simp_all
  have h: "vt_live t ?h" using flag vt_home_flag [OF ch n0 hn] by (auto simp: vt_used_def)
  obtain r where r: "(if \<not> unique then vt_search_chain vt_fuel (=) t key (vt_hashfrag (hf key)) ?h ?h else Some None) = Some r"
    "case r of Some c \<Rightarrow> c \<in> vt_used t n \<and> vt_key t c = key \<and> vt_map t key = Some (snd (buckets t ! c)) | None \<Rightarrow> vt_map t key = None"
    using vt_search_result [OF tbl flag] unique by (cases unique) auto
  show ?thesis
  proof (cases r)
    case (Some b)
    then have b: "b \<in> vt_used t n" "vt_key t b = key" "vt_map t key \<noteq> None" using r(2) by auto
    let ?t = "if replace then t\<lparr>buckets := (buckets t)[b := (key, val)]\<rparr> else t"
    have run: "vt_insert_raw hf (=) t key val unique replace = Some (?t, Some \<lparr>itr_bucket = b, home_bucket = Some ?h\<rparr>)"
      using flag home r(1) Some by (simp add: vt_insert_raw_def Let_def vt_itr_at_def)
    have bn: "b < n" "vt_live t b" "fst (buckets t ! b) = key" using b by (simp_all add: vt_used_def vt_key_def)
    have "vt_inserted hf n t key val replace ?t \<lparr>itr_bucket = b, home_bucket = Some ?h\<rparr>"
      using vt_replace_value [OF tbl b(1,2), of val] tbl b(3) bn T(2)
      by (simp add: vt_inserted_def vt_live_def vt_shape_def)
    then show ?thesis using run by (intro exI [of _ ?t] exI [of _ "Some _"]) simp
  next
    case None
    then have none: "vt_map t key = None" using r(2) by simp
    show ?thesis
    proof (cases "vt_overloaded t")
      case True
      then show ?thesis using flag home r(1) None none T(1,7) by (simp add: vt_insert_raw_def Let_def vt_end_itr_def)
    next
      case load: False
      then have load': "8 * (key_count t + 1) \<le> 7 * n" using T(7) by simp
      show ?thesis
      proof (cases "vt_find_first_empty t ?h")
        case no_room: None
        then have "\<not> key_count t < 0x7FF"
          using vt_find_first_empty_succeeds [OF T(2) hn h T(6)] T(5) by auto
        then show ?thesis using flag home r(1) None none T(1) load no_room
          by (simp add: vt_insert_raw_def Let_def vt_end_itr_def)
      next
        case (Some xd)
        obtain x d where xd: "vt_find_first_empty t ?h = Some (x, d)" using Some by (cases xd) auto
        obtain p where p: "vt_find_insert_location_in_chain vt_fuel t ?h d ?h = Some p"
          "\<forall>t'. t' = (vt_connect t x d p (key, val) (vt_hashfrag (hf key)))\<lparr>key_count := key_count t + 1\<rparr> \<longrightarrow>
            x < n \<and> vt_table hf t' n \<and> vt_map t' = (vt_map t)(key \<mapsto> val) \<and> vt_live t' x \<and> buckets t' ! x = (key, val)"
          using vt_insert_chain [OF tbl flag none load' xd] by blast
        let ?t = "(vt_connect t x d p (key, val) (vt_hashfrag (hf key)))\<lparr>key_count := key_count t + 1\<rparr>"
        have run: "vt_insert_raw hf (=) t key val unique replace = Some (?t, Some \<lparr>itr_bucket = x, home_bucket = Some ?h\<rparr>)"
          using flag home r(1) None load xd p(1) by (simp add: vt_insert_raw_def Let_def vt_itr_at_def vt_connect_def)
        have "vt_inserted hf n t key val replace ?t \<lparr>itr_bucket = x, home_bucket = Some ?h\<rparr>"
          using p(2) [rule_format, OF refl] none by (simp add: vt_inserted_def)
        then show ?thesis using run by (intro exI [of _ ?t] exI [of _ "Some _"]) simp
      qed
    qed
  qed
qed

end
