(* ===== verification/Verstable_Table.thy ===== *)
theory Verstable_Table
  imports Verstable_Ops
begin

text \<open>
  Lookup, rehash, insertion with its retry loop, and erasure in Verstable, whole: what each does to the
  map a table stands for, for every outcome of the allocations.
\<close>

section \<open>Lookup\<close>

lemma vt_get_table:
  assumes tbl: "vt_table hf t n"
  shows "\<exists>itr. vt_get hf (=) t key = Some itr \<and>
    (case vt_map t key of None \<Rightarrow> itr = None
     | Some v \<Rightarrow> \<exists>b. itr = Some \<lparr>itr_bucket = b, home_bucket = Some (vt_khome hf n key)\<rparr> \<and> b < n \<and> vt_live t b \<and>
         buckets t ! b = (key, v))"
proof -
  let ?h = "vt_khome hf n key"
  note T = vt_tableD [OF tbl]
  have home: "vt_home hf t key = ?h" by (rule vt_home_khome [OF T(2)])
  show ?thesis
  proof (cases "metadata t ! ?h AND VT_IN_HOME_BUCKET_MASK = 0")
    case True
    then show ?thesis using vt_insert_home(1) [OF tbl True] home by (simp add: vt_get_def vt_end_itr_def)
  next
    case False
    obtain r where r: "vt_search_chain vt_fuel (=) t key (vt_hashfrag (hf key)) ?h ?h = Some r"
      "case r of Some c \<Rightarrow> c \<in> vt_used t n \<and> vt_key t c = key \<and> vt_map t key = Some (snd (buckets t ! c)) | None \<Rightarrow> vt_map t key = None"
      using vt_search_result [OF tbl False] by blast
    then show ?thesis using False home
      by (cases r) (auto simp: vt_get_def vt_end_itr_def vt_itr_at_def vt_used_def vt_key_def prod_eq_iff)
  qed
qed

lemma vt_get_init: "vt_get hf (=) vt_init key = Some None"
  by (simp add: vt_get_def vt_home_def vt_init_def VT_EMPTY_def vt_end_itr_def)

lemma vt_get_result:
  assumes "vt_inv hf t"
  shows "\<exists>itr. vt_get hf (=) t key = Some itr \<and>
    (case vt_map t key of None \<Rightarrow> itr = None
     | Some v \<Rightarrow> \<exists>b. itr = Some \<lparr>itr_bucket = b, home_bucket = Some (vt_khome hf (vt_bucket_count t) key)\<rparr> \<and>
         b < vt_bucket_count t \<and> vt_live t b \<and> buckets t ! b = (key, v))"
proof (cases "t = vt_init")
  case True
  then show ?thesis using vt_get_init [of hf key] by simp
next
  case False
  then obtain n where tbl: "vt_table hf t n" using assms by (auto simp: vt_inv_def)
  show ?thesis using vt_get_table [OF tbl, of key] unfolding vt_tableD(9) [OF tbl] .
qed

lemma vt_table_not_end:
  "vt_table hf t n \<Longrightarrow> itr_bucket i < n \<Longrightarrow> \<not> vt_is_end t (Some i)"
  using vt_tableD(2,4) [of hf t n] by (auto simp: vt_is_end_def vt_shape_def)

section \<open>Rehash\<close>

lemma map_of_entries_Suc:
  assumes "keys_inj (Suc i) live f" "live i"
  shows "map_of (entries (Suc i) live f) = (map_of (entries i live f))(fst (f i) \<mapsto> snd (f i))"
    and "map_of (entries i live f) (fst (f i)) = None"
proof -
  show none: "map_of (entries i live f) (fst (f i)) = None"
    using keys_injD [OF assms(1)] assms(2) by (auto simp: map_of_entries_None) (metis less_Suc_eq nat_neq_iff)
  show "map_of (entries (Suc i) live f) = (map_of (entries i live f))(fst (f i) \<mapsto> snd (f i))"
    using assms(2) none by (cases "f i") (auto simp: entries_Suc map_add_def fun_eq_iff split: option.splits)
qed

lemma keys_inj_mono: "keys_inj n live f \<Longrightarrow> m \<le> n \<Longrightarrow> keys_inj m live f"
  by (auto simp: keys_inj_def intro: inj_on_subset)

lemma card_live_Suc: "card {j. j < Suc i \<and> live j} = card {j. j < i \<and> live j} + (if live i then 1 else 0)"
proof -
  have "{j. j < Suc i \<and> live j} = (if live i then insert i {j. j < i \<and> live j} else {j. j < i \<and> live j})"
    by (auto simp: less_Suc_eq)
  then show ?thesis by simp
qed

lemma card_live_mono: "i \<le> m \<Longrightarrow> card {j. j < (i::nat) \<and> live j} \<le> card {j. j < m \<and> live j}"
  by (rule card_mono) auto

text \<open>The keys of the old buckets \<open>bucket\<close> to \<open>bucket + c\<close> go into the new table, or it reports fewer keys.\<close>

lemma vt_reinsert_result:
  assumes "keys_inj (i + c) (vt_live t) ((!) (buckets t))" and "vt_table hf new n"
    and "vt_map new = map_of (entries i (vt_live t) ((!) (buckets t)))" and "key_count new = card {j. j < i \<and> vt_live t j}"
  shows "\<exists>new'. vt_reinsert c hf (=) t i new = Some new' \<and>
    (key_count new' < card {j. j < i + c \<and> vt_live t j} \<and>
       \<not> (8 * card {j. j < i + c \<and> vt_live t j} \<le> 7 * n \<and> card {j. j < i + c \<and> vt_live t j} \<le> 0x7FF) \<or>
     vt_table hf new' n \<and> vt_map new' = map_of (entries (i + c) (vt_live t) ((!) (buckets t))) \<and>
       key_count new' = card {j. j < i + c \<and> vt_live t j})"
  using assms
proof (induction c arbitrary: i new)
  case (Suc c)
  show ?case
  proof (cases "vt_live t i")
    case False
    then have run: "vt_reinsert (Suc c) hf (=) t i new = vt_reinsert c hf (=) t (Suc i) new"
      by (simp add: vt_live_def)
    have next_state: "vt_map new = map_of (entries (Suc i) (vt_live t) ((!) (buckets t)))"
      "key_count new = card {j. j < Suc i \<and> vt_live t j}"
      using Suc.prems(3,4) False by (simp_all add: entries_Suc card_live_Suc)
    show ?thesis using Suc.IH [OF _ Suc.prems(2) next_state] Suc.prems(1) unfolding run by simp
  next
    case True
    let ?key = "fst (buckets t ! i)" and ?val = "snd (buckets t ! i)"
    have inj: "keys_inj (Suc i) (vt_live t) ((!) (buckets t))" by (rule keys_inj_mono [OF Suc.prems(1)]) simp
    note Suc_i = map_of_entries_Suc [OF inj True]
    have none: "vt_map new ?key = None" using Suc_i(2) Suc.prems(3) by simp
    obtain new1 itr where ins: "vt_insert_raw hf (=) new ?key ?val True False = Some (new1, itr)"
      "case itr of None \<Rightarrow> vt_entries_ok new1 n \<and> vt_map new1 = vt_map new \<and> key_count new1 = key_count new \<and> vt_map new ?key = None \<and>
         \<not> (8 * (key_count new + 1) \<le> 7 * n \<and> key_count new < 0x7FF)
       | Some i \<Rightarrow> vt_inserted hf n new ?key ?val False new1 i"
      using vt_insert_raw_result [OF Suc.prems(2), of True ?key ?val False] none by blast
    have count: "key_count new + 1 \<le> card {j. j < i + Suc c \<and> vt_live t j}"
      using card_live_mono [of "Suc i" "i + Suc c" "vt_live t"] Suc.prems(4) True by (simp add: card_live_Suc)
    show ?thesis
    proof (cases itr)
      case None
      then have "vt_reinsert (Suc c) hf (=) t i new = Some new1"
        using ins(1) True by (simp add: vt_live_def vt_is_end_def)
      then show ?thesis using ins(2) None count by (intro exI [of _ new1]) auto
    next
      case (Some b)
      then have I: "vt_table hf new1 n" "vt_map new1 = (vt_map new)(?key \<mapsto> ?val)" "key_count new1 = Suc (key_count new)"
        "itr_bucket b < n" using ins(2) none by (simp_all add: vt_inserted_def)
      have "\<not> vt_is_end new1 itr" using vt_table_not_end [OF I(1,4)] Some by simp
      then have run: "vt_reinsert (Suc c) hf (=) t i new = vt_reinsert c hf (=) t (Suc i) new1"
        using ins(1) True by (simp add: vt_live_def)
      have next_state: "vt_map new1 = map_of (entries (Suc i) (vt_live t) ((!) (buckets t)))"
        "key_count new1 = card {j. j < Suc i \<and> vt_live t j}"
        using I Suc_i(1) Suc.prems(3,4) True by (simp_all add: card_live_Suc)
      show ?thesis using Suc.IH [OF _ I(1) next_state] Suc.prems(1) unfolding run by simp
    qed
  qed
qed simp

lemma vt_new_table_ok:
  assumes "n = 2 ^ k" "3 \<le> k" "k \<le> 63"
  shows "vt_table hf (vt_new_table mem n) n" "vt_map (vt_new_table mem n) = Map.empty" "key_count (vt_new_table mem n) = 0"
proof -
  have n1: "1 \<le> n" using assms(1) by simp
  let ?t = "vt_new_table mem n"
  have shape: "vt_shape ?t n" using assms by (auto simp: vt_shape_def vt_new_table_def)
  have dead: "\<not> vt_live ?t b" if "b < n" for b
    using that by (simp add: vt_live_def vt_new_table_def VT_EMPTY_def)
  then have used: "vt_used ?t n = {}" by (auto simp: vt_used_def)
  have "vt_chains hf ?t n (\<lambda>_. 0) {}" by (simp add: vt_chains_def vt_ok_def)
  moreover have "keys_inj n (vt_live ?t) ((!) (buckets ?t))" using dead by (auto simp: keys_inj_def inj_on_def)
  ultimately show "vt_table hf ?t n"
    using shape used by (auto simp: vt_table_def vt_entries_ok_def vt_new_table_def)
  show "vt_map ?t = Map.empty" using dead by (auto simp: vt_map_entries [OF shape] map_of_entries_None fun_eq_iff)
  show "key_count ?t = 0" by (simp add: vt_new_table_def)
qed

text \<open>
  What \<open>malloc\<close> can give: a bucket and its metadatum take at least ten bytes, so no more than
  \<open>2 ^ 60\<close> of them (a power of two) fit in the address space.
\<close>

definition vt_mem_ok :: "('k, 'v) vt_mem \<Rightarrow> bool" where
  "vt_mem_ok mem \<longleftrightarrow> (\<forall>n. alloc_ok mem n \<longrightarrow> n \<le> 2 ^ 60)"

text \<open>What a rehash needs of the old table.\<close>

definition vt_content_ok :: "('k, 'v) vt \<Rightarrow> bool" where
  "vt_content_ok t \<longleftrightarrow> keys_inj (vt_bucket_count t) (vt_live t) ((!) (buckets t)) \<and>
     key_count t = card {j. j < vt_bucket_count t \<and> vt_live t j}"

lemma vt_content_entries: "vt_entries_ok t n \<Longrightarrow> vt_content_ok t"
  by (auto simp: vt_entries_ok_def vt_content_ok_def vt_shape_count vt_used_def)

lemma vt_content_init: "vt_content_ok vt_init"
  by (simp add: vt_content_ok_def vt_init_def vt_bucket_count_def keys_inj_def)

lemma vt_content_inv: "vt_inv hf t \<Longrightarrow> vt_content_ok t"
  unfolding vt_inv_def using vt_content_init by (elim disjE exE) (auto intro: vt_content_entries vt_tableD(1))

lemma vt_rehash_result:
  assumes t: "vt_content_ok t" and mem: "vt_mem_ok mem"
    and n: "n = 2 ^ k" "3 \<le> k" "2 ^ 61 < 2 ^ fuel * n" "1 \<le> fuel"
  shows "\<exists>t' ok. vt_rehash fuel hf (=) mem t n = Some (t', ok) \<and>
    (if ok then \<exists>n'. n \<le> n' \<and> n' \<le> 2 ^ 60 \<and> vt_table hf t' n' \<and> vt_map t' = vt_map t \<and> key_count t' = key_count t
     else t' = t \<and> (\<exists>n'. \<not> alloc_ok mem n' \<and> (8 * key_count t \<le> 7 * n \<longrightarrow> key_count t \<le> 0x7FF \<longrightarrow> n' = n)))"
  using n
proof (induction fuel arbitrary: n k)
  case (Suc fuel)
  show ?case
  proof (cases "alloc_ok mem n")
    case False
    then show ?thesis by auto
  next
    case True
    then have n60: "n \<le> 2 ^ 60" using mem by (simp add: vt_mem_ok_def)
    have "k \<le> 60"
    proof (rule ccontr)
      assume "\<not> k \<le> 60"
      then have "(2::nat) ^ 61 \<le> 2 ^ k" by (intro power_increasing) auto
      then show False using n60 Suc.prems(1) by simp
    qed
    then have k63: "k \<le> 63" by simp
    note new = vt_new_table_ok(1) [OF Suc.prems(1,2) k63, where mem = mem and hf = hf]
      vt_new_table_ok(2,3) [OF Suc.prems(1,2) k63, where mem = mem]
    let ?m = "vt_bucket_count t"
    have inj: "keys_inj (0 + ?m) (vt_live t) ((!) (buckets t))" and count: "key_count t = card {j. j < ?m \<and> vt_live t j}"
      using t by (simp_all add: vt_content_ok_def)
    have zero: "vt_map (vt_new_table mem n) = map_of (entries 0 (vt_live t) ((!) (buckets t)))"
      "key_count (vt_new_table mem n) = card {j. j < 0 \<and> vt_live t j}"
      using new(2,3) by (simp_all add: entries_def)
    obtain t' where r: "vt_reinsert ?m hf (=) t 0 (vt_new_table mem n) = Some t'"
      "key_count t' < key_count t \<and> \<not> (8 * key_count t \<le> 7 * n \<and> key_count t \<le> 0x7FF) \<or>
       vt_table hf t' n \<and> vt_map t' = vt_map t \<and> key_count t' = key_count t"
      using vt_reinsert_result [OF inj new(1) zero] unfolding vt_map_def count by auto
    show ?thesis
    proof (cases "key_count t' < key_count t")
      case False
      then have ok: "vt_table hf t' n" "vt_map t' = vt_map t" "key_count t' = key_count t" using r(2) by auto
      have run: "vt_rehash (Suc fuel) hf (=) mem t n = Some (t', True)"
        using False True r(1) by simp
      show ?thesis unfolding run using ok n60 by (intro exI [of _ t'] exI [of _ True]) auto
    next
      case again: True
      have run: "vt_rehash (Suc fuel) hf (=) mem t n = vt_rehash fuel hf (=) mem t (n * 2)"
        using again True r(1) by simp
      have "fuel \<noteq> 0"
      proof
        assume "fuel = 0"
        then show False using Suc.prems(3) n60 by simp
      qed
      then have "1 \<le> fuel" by simp
      moreover have "n * 2 = 2 ^ Suc k" "2 ^ 61 < 2 ^ fuel * (n * 2)" "3 \<le> Suc k" using Suc.prems(1-3) by simp_all
      ultimately obtain t2 ok where IH: "vt_rehash fuel hf (=) mem t (n * 2) = Some (t2, ok)"
        "if ok then \<exists>n'. n * 2 \<le> n' \<and> n' \<le> 2 ^ 60 \<and> vt_table hf t2 n' \<and> vt_map t2 = vt_map t \<and> key_count t2 = key_count t
         else t2 = t \<and> (\<exists>n'. \<not> alloc_ok mem n' \<and> (8 * key_count t \<le> 7 * (n * 2) \<longrightarrow> key_count t \<le> 0x7FF \<longrightarrow> n' = n * 2))"
        using Suc.IH [of "n * 2" "Suc k"] by blast
      have "\<not> (8 * key_count t \<le> 7 * n \<and> key_count t \<le> 0x7FF)" using r(2) again by auto
      note room = this
      show ?thesis
      proof (cases ok)
        case True
        then obtain n' where n': "n * 2 \<le> n'" "n' \<le> 2 ^ 60" "vt_table hf t2 n'" "vt_map t2 = vt_map t" "key_count t2 = key_count t"
          using IH(2) by auto
        then have "n \<le> n'" by simp
        then show ?thesis unfolding run IH(1) using True n'(2-5) by auto
      next
        case False
        then show ?thesis unfolding run IH(1) using IH(2) room by auto
      qed
    qed
  qed
qed simp


section \<open>Insertion\<close>

text \<open>Without buckets the table asks for a rehash.\<close>

lemma vt_insert_raw_init: "vt_insert_raw hf (=) vt_init key val False replace = Some (vt_init, None)"
  by (simp add: vt_insert_raw_def vt_home_def vt_init_def VT_EMPTY_def vt_end_itr_def vt_overloaded_def vt_bucket_count_def Let_def)

definition vt_request :: "('k, 'v) vt \<Rightarrow> nat" where
  "vt_request t = (if buckets_mask t \<noteq> 0 then vt_bucket_count t * 2 else VT_MIN_NONZERO_BUCKET_COUNT)"

text \<open>What the two operations give when there is room, and when an allocation fails.\<close>

lemma vt_insert_round:
  assumes inv: "vt_inv hf t"
  shows "\<exists>t' itr. vt_insert_raw hf (=) t key val False replace = Some (t', itr) \<and>
    (case itr of
       Some i \<Rightarrow> (\<exists>n. vt_inserted hf n t key val replace t' i)
     | None \<Rightarrow> vt_content_ok t' \<and> vt_map t' = vt_map t \<and> key_count t' = key_count t \<and> vt_map t key = None \<and>
         vt_request t' = vt_request t \<and> (key_count t < 0x7FF \<longrightarrow> vt_request t < 2 ^ 13 \<and> 8 * (key_count t + 1) \<le> 7 * vt_request t)) \<and>
    (\<exists>k. vt_request t = 2 ^ k \<and> 3 \<le> k) \<and> (itr = None \<longrightarrow> 8 * key_count t \<le> 7 * vt_request t)"
proof (cases "t = vt_init")
  case True
  have req: "vt_request t = 8" "key_count t = 0" using True by (simp_all add: vt_request_def vt_init_def VT_MIN_NONZERO_BUCKET_COUNT_def)
  have "\<exists>k. vt_request t = 2 ^ k \<and> 3 \<le> k" unfolding req by (rule exI [of _ 3]) simp
  then show ?thesis using True req vt_content_init
    by (intro exI [of _ vt_init] exI [of _ None]) (simp add: vt_insert_raw_init)
next
  case False
  then obtain n where tbl: "vt_table hf t n" using inv by (auto simp: vt_inv_def)
  note T = vt_tableD [OF tbl]
  have mask: "buckets_mask t' \<noteq> 0 \<and> vt_bucket_count t' = n" if "vt_shape t' n" for t' :: "('a, 'b) vt"
    using that vt_shape_pos [OF that] by (auto simp: vt_shape_def vt_bucket_count_def)
  have req: "vt_request t' = 2 * n" if "vt_shape t' n" for t' :: "('a, 'b) vt"
    using mask [OF that] by (simp add: vt_request_def)
  obtain k where k: "n = 2 ^ k" "3 \<le> k" using T(2) by (auto simp: vt_shape_def)
  have pow: "\<exists>k. vt_request t = 2 ^ k \<and> 3 \<le> k"
    by (rule exI [of _ "Suc k"]) (use k req [OF T(2)] in simp)
  obtain t' itr where r: "vt_insert_raw hf (=) t key val False replace = Some (t', itr)"
    "case itr of None \<Rightarrow> vt_entries_ok t' n \<and> vt_map t' = vt_map t \<and> key_count t' = key_count t \<and> vt_map t key = None \<and>
         \<not> (8 * (key_count t + 1) \<le> 7 * n \<and> key_count t < 0x7FF)
       | Some i \<Rightarrow> vt_inserted hf n t key val replace t' i"
    using vt_insert_raw_result [OF tbl, of False key val replace] by blast
  show ?thesis
  proof (cases itr)
    case None
    then have e: "vt_entries_ok t' n" "vt_map t' = vt_map t" "key_count t' = key_count t" "vt_map t key = None"
      "\<not> (8 * (key_count t + 1) \<le> 7 * n \<and> key_count t < 0x7FF)" using r(2) by auto
    have "vt_shape t' n" using e(1) by (simp add: vt_entries_ok_def)
    then have "vt_request t' = vt_request t" using req T(2) by simp
    moreover have "vt_content_ok t'" by (rule vt_content_entries [OF e(1)])
    moreover have "8 * (key_count t + 1) \<le> 7 * vt_request t" using T(4,5,6) req [OF T(2)] by simp
    moreover have "key_count t < 0x7FF \<longrightarrow> vt_request t < 2 ^ 13"
    proof
      assume "key_count t < 0x7FF"
      then have "7 * n < 8 * (key_count t + 1)" "key_count t < 0x7FF" using e(5) by auto
      then show "vt_request t < 2 ^ 13" using req [OF T(2)] by simp
    qed
    ultimately show ?thesis
      using e(2-4) pow None by (intro exI [of _ t'] exI [of _ itr]) (simp add: r(1))
  next
    case (Some i)
    then show ?thesis using r pow by (intro exI [of _ t'] exI [of _ itr]) auto
  qed
qed

lemma vt_insert_loop_result:
  assumes inv: "vt_inv hf t" and mem: "vt_mem_ok mem" and fuel: "2 ^ 61 < 2 ^ fuel * vt_request t" "1 \<le> fuel"
  shows "\<exists>t' itr. vt_insert_loop fuel hf (=) mem t key val replace = Some (t', itr) \<and>
    (case itr of
       Some i \<Rightarrow> \<exists>n. vt_inserted hf n t key val replace t' i
     | None \<Rightarrow> vt_content_ok t' \<and> vt_map t' = vt_map t \<and> key_count t' = key_count t \<and> vt_map t key = None \<and>
         (\<exists>n. \<not> alloc_ok mem n \<and> (key_count t < 0x7FF \<longrightarrow> n < 2 ^ 13)))"
  using inv fuel
proof (induction fuel arbitrary: t)
  case (Suc fuel)
  obtain t1 itr where raw: "vt_insert_raw hf (=) t key val False replace = Some (t1, itr)"
    "case itr of
       Some i \<Rightarrow> (\<exists>n. vt_inserted hf n t key val replace t1 i)
     | None \<Rightarrow> vt_content_ok t1 \<and> vt_map t1 = vt_map t \<and> key_count t1 = key_count t \<and> vt_map t key = None \<and>
         vt_request t1 = vt_request t \<and> (key_count t < 0x7FF \<longrightarrow> vt_request t < 2 ^ 13 \<and> 8 * (key_count t + 1) \<le> 7 * vt_request t)"
    "\<exists>k. vt_request t = 2 ^ k \<and> 3 \<le> k" "itr = None \<longrightarrow> 8 * key_count t \<le> 7 * vt_request t"
    using vt_insert_round [OF Suc.prems(1), of key val replace] by blast
  show ?case
  proof (cases itr)
    case (Some i)
    then obtain n where I: "vt_inserted hf n t key val replace t1 i" using raw(2) by auto
    then have "\<not> vt_is_end t1 itr"
      using vt_table_not_end [of hf t1 n i] Some by (simp add: vt_inserted_def)
    then have "vt_insert_loop (Suc fuel) hf (=) mem t key val replace = Some (t1, Some i)"
      using raw(1) Some by simp
    then show ?thesis using I by auto
  next
    case None
    then have R: "vt_content_ok t1" "vt_map t1 = vt_map t" "key_count t1 = key_count t" "vt_map t key = None"
      "vt_request t1 = vt_request t" "key_count t < 0x7FF \<longrightarrow> vt_request t < 2 ^ 13" "8 * key_count t \<le> 7 * vt_request t"
      using raw(2,4) by auto
    obtain k where k: "vt_request t = 2 ^ k" "3 \<le> k" using raw(3) by blast
    have "(2::nat) ^ 61 < 2 ^ 64 * 2 ^ k" by (rule less_le_trans [of _ "2 ^ 64 * 1"]) simp_all
    then have "2 ^ 61 < 2 ^ 64 * vt_request t" by (simp only: k(1))
    from vt_rehash_result [OF R(1) mem k this, where hf = hf] obtain t2 ok where
      reh: "vt_rehash 64 hf (=) mem t1 (vt_request t) = Some (t2, ok)"
      "if ok then \<exists>n'. vt_request t \<le> n' \<and> n' \<le> 2 ^ 60 \<and> vt_table hf t2 n' \<and> vt_map t2 = vt_map t1 \<and> key_count t2 = key_count t1
       else t2 = t1 \<and> (\<exists>n'. \<not> alloc_ok mem n' \<and> (8 * key_count t1 \<le> 7 * vt_request t \<longrightarrow> key_count t1 \<le> 0x7FF \<longrightarrow> n' = vt_request t))"
      by (metis one_le_numeral)
    have step: "vt_insert_loop (Suc fuel) hf (=) mem t key val replace
      = (if \<not> ok then Some (t2, None) else vt_insert_loop fuel hf (=) mem t2 key val replace)"
      using raw(1) None reh(1) R(5) by (simp add: vt_is_end_def vt_request_def)
    show ?thesis
    proof (cases ok)
      case False
      then obtain n' where "t2 = t1" "\<not> alloc_ok mem n'" "key_count t < 0x7FF \<longrightarrow> n' < 2 ^ 13"
        using reh(2) R(3,6,7) by auto
      then show ?thesis using step False R(1-4) by auto
    next
      case True
      then obtain n' where n': "vt_request t \<le> n'" "n' \<le> 2 ^ 60" "vt_table hf t2 n'" "vt_map t2 = vt_map t" "key_count t2 = key_count t"
        using reh(2) R(2,3) by auto
      have inv2: "vt_inv hf t2" using n'(3) by (auto simp: vt_inv_def)
      have req2: "vt_request t2 = 2 * n'"
        using vt_tableD(2,4,9) [OF n'(3)] by (auto simp: vt_request_def vt_shape_def)
      have "fuel \<noteq> 0" using Suc.prems(2) n'(1,2) by (cases fuel) auto
      then have fuel: "1 \<le> fuel" by simp
      have "2 ^ Suc fuel * vt_request t \<le> 2 ^ Suc fuel * n'" by (rule mult_le_mono2) (rule n'(1))
      then have "2 ^ 61 < 2 ^ Suc fuel * n'" using Suc.prems(2) by linarith
      then have enough: "2 ^ 61 < 2 ^ fuel * vt_request t2" by (simp add: req2)
      have same: "vt_inserted hf n t2 key val replace = vt_inserted hf n t key val replace" for n
        by (simp add: vt_inserted_def fun_eq_iff n'(4,5))
      have step': "vt_insert_loop (Suc fuel) hf (=) mem t key val replace = vt_insert_loop fuel hf (=) mem t2 key val replace"
        unfolding step by (simp only: True not_True_eq_False if_False)
      show ?thesis
        using Suc.IH [OF inv2 enough fuel] unfolding step' n'(4,5) same .
    qed
  qed
qed simp

text \<open>The fuel of the two operations is enough.\<close>

lemma vt_request_fuel: "vt_inv hf t \<Longrightarrow> 2 ^ 61 < 2 ^ 64 * vt_request t"
proof -
  assume "vt_inv hf t"
  then have "0 < vt_request t"
    using vt_insert_round [of hf t undefined undefined False] by auto
  then have "2 ^ 64 * 1 \<le> 2 ^ 64 * vt_request t" by (intro mult_le_mono) auto
  then show ?thesis by simp
qed

lemma vt_insert_result:
  assumes "vt_inv hf t" "vt_mem_ok mem"
  shows "\<exists>t' itr. vt_insert hf (=) mem t key val = Some (t', itr) \<and>
    (case itr of
       Some i \<Rightarrow> \<exists>n. vt_inserted hf n t key val True t' i
     | None \<Rightarrow> vt_content_ok t' \<and> vt_map t' = vt_map t \<and> key_count t' = key_count t \<and> vt_map t key = None \<and>
         (\<exists>n. \<not> alloc_ok mem n \<and> (key_count t < 0x7FF \<longrightarrow> n < 2 ^ 13)))"
  unfolding vt_insert_def by (rule vt_insert_loop_result [OF assms vt_request_fuel [OF assms(1)]]) simp

lemma vt_get_or_insert_result:
  assumes "vt_inv hf t" "vt_mem_ok mem"
  shows "\<exists>t' itr. vt_get_or_insert hf (=) mem t key val = Some (t', itr) \<and>
    (case itr of
       Some i \<Rightarrow> \<exists>n. vt_inserted hf n t key val False t' i
     | None \<Rightarrow> vt_content_ok t' \<and> vt_map t' = vt_map t \<and> key_count t' = key_count t \<and> vt_map t key = None \<and>
         (\<exists>n. \<not> alloc_ok mem n \<and> (key_count t < 0x7FF \<longrightarrow> n < 2 ^ 13)))"
  unfolding vt_get_or_insert_def by (rule vt_insert_loop_result [OF assms vt_request_fuel [OF assms(1)]]) simp


section \<open>Erasure\<close>

text \<open>The entry of bucket \<open>b\<close> goes, that of \<open>l\<close> (possibly the same bucket) moves to \<open>b\<close>.\<close>

lemma vt_entries_erase:
  assumes ok: "vt_entries_ok t n" and b: "b \<in> vt_used t n" and l: "l \<in> vt_used t n"
    and t': "vt_shape t' n" "key_count t' = key_count t - 1" "metadata t' ! n = metadata t ! n"
      "buckets t' = (buckets t)[b := buckets t ! l]"
      "\<forall>j < n. vt_live t' j \<longleftrightarrow> vt_live t j \<and> j \<noteq> l"
  shows "vt_entries_ok t' n" "vt_map t' = (vt_map t)(vt_key t b := None)" "key_count t = Suc (key_count t')"
    "vt_used t' n = vt_used t n - {l}"
proof -
  have shape: "vt_shape t n" and inj: "keys_inj n (vt_live t) ((!) (buckets t))"
    and count: "key_count t = card (vt_used t n)" using ok by (simp_all add: vt_entries_ok_def)
  have bl: "b < n" "vt_live t b" "l < n" "vt_live t l" using b l by (simp_all add: vt_used_def)
  have len: "length (buckets t) = n" using shape by (simp add: vt_shape_def)
  let ?live = "\<lambda>j. vt_live t j \<and> j \<noteq> b"
  have rem: "keys_inj n ?live ((!) (buckets t))"
    "map_of (entries n ?live ((!) (buckets t))) = (map_of (entries n (vt_live t) ((!) (buckets t))))(fst (buckets t ! b) := None)"
    by (rule entries_remove [OF inj, of b]; use bl in auto)+
  have "keys_inj n (vt_live t') ((!) (buckets t')) \<and>
    map_of (entries n (vt_live t') ((!) (buckets t'))) = map_of (entries n ?live ((!) (buckets t)))"
  proof (cases "l = b")
    case True
    have same: "entries n (vt_live t') ((!) (buckets t')) = entries n ?live ((!) (buckets t))"
      by (rule entries_cong) (use t'(4,5) True in auto)
    then show ?thesis using rem(1) unfolding distinct_entries [symmetric] by simp
  next
    case False
    show ?thesis
      by (intro conjI entries_move [OF rem(1), of l _ b]) (use bl t'(4,5) False len in auto)
  qed
  then show m: "vt_map t' = (vt_map t)(vt_key t b := None)"
    using rem(2) unfolding vt_map_entries [OF shape] vt_map_entries [OF t'(1)] by (simp add: vt_key_def)
  show used: "vt_used t' n = vt_used t n - {l}" using t'(5) by (auto simp: vt_used_def)
  have "card (vt_used t n) = Suc (card (vt_used t n - {l}))" using card_Suc_Diff1 [OF finite_vt_used l] by simp
  then show c: "key_count t = Suc (key_count t')" using count t'(2) by simp
  show "vt_entries_ok t' n"
    using \<open>keys_inj n (vt_live t') _ \<and> _\<close> ok c count t'(1,3) \<open>card _ = Suc _\<close> by (simp add: vt_entries_ok_def used)
qed

lemma vt_find_key_count:
  "vt_find_prev fuel (t\<lparr>key_count := c\<rparr>) h b p = vt_find_prev fuel t h b p"
  "vt_find_last fuel (t\<lparr>key_count := c\<rparr>) h p = vt_find_last fuel t h p"
  by (induction fuel arbitrary: p) (simp_all add: vt_position_def Let_def)

text \<open>The operation once the home bucket is known.\<close>

lemma vt_erase_itr_raw_home:
  assumes "(case home_bucket itr of Some h \<Rightarrow> h
      | None \<Rightarrow> if metadata (t\<lparr>key_count := key_count t - 1\<rparr>) ! itr_bucket itr AND VT_IN_HOME_BUCKET_MASK \<noteq> 0 then itr_bucket itr
          else vt_home hf (t\<lparr>key_count := key_count t - 1\<rparr>) (fst (buckets (t\<lparr>key_count := key_count t - 1\<rparr>) ! itr_bucket itr))) = h"
  shows "vt_erase_itr_raw hf t itr =
    (let t = t\<lparr>key_count := key_count t - 1\<rparr>; b = itr_bucket itr; md = metadata t ! b
     in if md AND VT_IN_HOME_BUCKET_MASK \<noteq> 0 \<and> md AND VT_DISPLACEMENT_MASK = VT_DISPLACEMENT_MASK
        then Some (t\<lparr>metadata := (metadata t)[b := VT_EMPTY]\<rparr>, True)
        else if md AND VT_DISPLACEMENT_MASK = VT_DISPLACEMENT_MASK
        then (case vt_find_prev vt_fuel t h b h of
                None \<Rightarrow> None
              | Some prev \<Rightarrow> Some (t\<lparr>metadata := (metadata t)[prev := metadata t ! prev OR VT_DISPLACEMENT_MASK, b := VT_EMPTY]\<rparr>, True))
        else (case vt_find_last vt_fuel t h b of
                None \<Rightarrow> None
              | Some (prev, lst) \<Rightarrow>
                  (let t = t\<lparr>buckets := (buckets t)[b := buckets t ! lst], metadata := (metadata t)[b :=
                         (metadata t ! b AND NOT VT_HASH_FRAG_MASK) OR (metadata t ! lst AND VT_HASH_FRAG_MASK)]\<rparr>
                   in Some (t\<lparr>metadata := (metadata t)[prev := metadata t ! prev OR VT_DISPLACEMENT_MASK, lst := VT_EMPTY]\<rparr>, \<not> lst > b))))"
  unfolding vt_erase_itr_raw_def Let_def assms by (auto split: option.splits)

lemma vt_chain_homes:
  "(\<And>c. c \<in> U \<Longrightarrow> vt_khome hf n (kf' c) = vt_khome hf n (kf c)) \<Longrightarrow> vt_chain hf n kf' D U h = vt_chain hf n kf D U h"
  unfolding vt_chain_def by (intro arg_cong [where f = "image D"]) auto

lemma vt_key_fields: "vt_key (t\<lparr>metadata := m\<rparr>) = vt_key t" "vt_key (t\<lparr>key_count := c\<rparr>) = vt_key t"
  by (simp_all add: vt_key_def fun_eq_iff)

text \<open>The three cases, on the metadata and keys alone.\<close>

lemma vt_erase_chains:
  assumes tbl: "vt_table hf t n" and b: "b \<in> vt_used t n"
    and itr: "itr_bucket itr = b" "home_bucket itr = None \<or> home_bucket itr = Some (vt_khome hf n (vt_key t b))"
  shows "\<exists>t' l D. vt_erase_itr_raw hf t itr = Some (t', \<not> b < l) \<and> l \<in> vt_used t n \<and>
    vt_shape t' n \<and> key_count t' = key_count t - 1 \<and> metadata t' ! n = metadata t ! n \<and>
    buckets t' = (buckets t)[b := buckets t ! l] \<and> (\<forall>j < n. vt_live t' j \<longleftrightarrow> vt_live t j \<and> j \<noteq> l) \<and>
    vt_chains hf t' n D (vt_used t n - {l})"
proof -
  let ?U = "vt_used t n" and ?h = "vt_khome hf n (vt_key t b)" and ?t = "t\<lparr>key_count := key_count t - 1\<rparr>"
  note T = vt_tableD [OF tbl]
  obtain D where ch: "vt_chains hf t n D ?U" using tbl by (auto simp: vt_table_def)
  note ok = ch [unfolded vt_chains_def]
  let ?S = "vt_chain hf n (vt_key t) D ?U ?h"
  have bn: "b < n" using b by (simp add: vt_used_def)
  have n0: "0 < n" using T(4) by simp
  note fields = vt_ok_fields [OF ok b refl]
  have S: "e \<in> ?S \<Longrightarrow> e < 0x7FF" for e by (rule vt_chain_less [OF ok])
  have last_iff: "metadata t ! b AND VT_DISPLACEMENT_MASK = VT_DISPLACEMENT_MASK \<longleftrightarrow> nxt ?S (D b) = 0x7FF"
  proof
    assume "metadata t ! b AND VT_DISPLACEMENT_MASK = VT_DISPLACEMENT_MASK"
    then have "unat (metadata t ! b AND VT_DISPLACEMENT_MASK) = 0x7FF" by (simp add: unat_disp_mask)
    then show "nxt ?S (D b) = 0x7FF" using fields(1) by (simp add: vt_disp_def)
  qed (use fields(2) in \<open>simp add: VT_DISPLACEMENT_MASK_def\<close>)
  have flag_iff: "metadata t ! b AND VT_IN_HOME_BUCKET_MASK \<noteq> 0 \<longleftrightarrow> D b = 0" using fields(3) by simp
  have len: "length (buckets t) = n" "length (metadata t) = n + 4" using T(2) by (simp_all add: vt_shape_def)
  have home: "vt_home hf ?t (fst (buckets ?t ! b)) = ?h"
    using vt_home_khome [OF T(2), of hf "vt_key t b"] by (simp add: vt_home_def vt_key_def)
  have "(case home_bucket itr of Some h \<Rightarrow> h
      | None \<Rightarrow> if metadata ?t ! itr_bucket itr AND VT_IN_HOME_BUCKET_MASK \<noteq> 0 then itr_bucket itr
          else vt_home hf ?t (fst (buckets ?t ! itr_bucket itr))) = ?h"
    unfolding itr(1) home using itr(2) flag_iff vt_start_home [OF ok n0 b] by (auto split: option.splits)
  note run = vt_erase_itr_raw_home [OF this]
  note start = vt_chain_start [OF ok b n0]
  consider (single) "D b = 0" "nxt ?S (D b) = 0x7FF" | (final) "D b \<noteq> 0" "nxt ?S (D b) = 0x7FF" | (inner) "nxt ?S (D b) \<noteq> 0x7FF"
    by blast
  then show ?thesis
  proof cases
    case single
    let ?t' = "?t\<lparr>metadata := (metadata t)[b := VT_EMPTY]\<rparr>"
    have "vt_erase_itr_raw hf t itr = Some (?t', \<not> b < b)"
      using single last_iff flag_iff itr(1) unfolding run by (simp add: Let_def)
    moreover have "vt_chains hf ?t' n D (?U - {b})"
      unfolding vt_chains_def vt_key_fields by (rule vt_unlink_single [OF ok b]) (use single len bn in simp_all)
    moreover have "vt_shape ?t' n" using T(2) by (simp add: vt_shape_def)
    moreover have "\<forall>j < n. vt_live ?t' j \<longleftrightarrow> vt_live t j \<and> j \<noteq> b" using bn len by (auto simp: vt_live_def nth_list_update)
    ultimately show ?thesis using b bn by (intro exI [of _ ?t'] exI [of _ b] exI [of _ D]) simp
  next
    case final
    obtain p where p: "vt_find_prev vt_fuel t ?h b ?h = Some p" "p \<in> ?U" "vt_khome hf n (vt_key t p) = ?h" "nxt ?S (D p) = D b"
      using vt_find_prev_result [OF ok T(2) b refl start(1,2) _ vt_fuel_enough] start(3) final(1) by auto
    have pn: "p < n" using p(2) by (simp add: vt_used_def)
    have pb: "p \<noteq> b"
    proof
      assume "p = b"
      then show False using p(4) final(2) vt_okD(2) [OF ok b] by simp
    qed
    let ?t' = "?t\<lparr>metadata := (metadata t)[p := metadata t ! p OR VT_DISPLACEMENT_MASK, b := VT_EMPTY]\<rparr>"
    have "vt_erase_itr_raw hf t itr = Some (?t', \<not> b < b)"
      using final last_iff flag_iff itr(1) p(1) unfolding run by (simp add: Let_def vt_find_key_count)
    moreover have ch': "vt_chains hf ?t' n D (?U - {b})"
      unfolding vt_chains_def vt_key_fields
      by (rule vt_unlink [OF ok b final(1) refl p(2)])
        (use p(3,4) len bn pn pb vt_set_end [OF ok b refl final(2) p(2)] in simp_all)
    moreover have "vt_shape ?t' n" using T(2) by (simp add: vt_shape_def)
    moreover have "vt_live ?t' j \<longleftrightarrow> vt_live t j \<and> j \<noteq> b" if "j < n" for j
    proof (cases "j = p")
      case True
      then show ?thesis using vt_chains_live [OF ch', of p] p(2) pb by (simp add: vt_used_def)
    next
      case False
      then show ?thesis by (cases "j = b") (use that len in \<open>auto simp: vt_live_def\<close>)
    qed
    ultimately show ?thesis using b bn pn by (intro exI [of _ ?t'] exI [of _ b] exI [of _ D]) simp
  next
    case inner
    then obtain p l where pl: "vt_find_last vt_fuel t ?h b = Some (p, l)" "p \<in> ?U" "vt_khome hf n (vt_key t p) = ?h"
      "l \<in> ?U" "vt_khome hf n (vt_key t l) = ?h" "D b < D l" "nxt ?S (D p) = D l" "nxt ?S (D l) = 0x7FF"
      using vt_find_last_result [OF ok T(2) b refl inner vt_fuel_enough] by blast
    have n: "l < n" "p < n" "l \<noteq> b" using pl(2,4,6) by (auto simp: vt_used_def)
    have pl_ne: "p \<noteq> l"
    proof
      assume "p = l"
      then show False using pl(7,8) vt_okD(2) [OF ok pl(4)] by simp
    qed
    define t1 where "t1 = ?t\<lparr>buckets := (buckets t)[b := buckets t ! l], metadata := (metadata t)[b :=
      (metadata t ! b AND NOT VT_HASH_FRAG_MASK) OR (metadata t ! l AND VT_HASH_FRAG_MASK)]\<rparr>"
    have key1: "vt_key t1 j = (if j = b then vt_key t l else vt_key t j)" for j
      using len bn by (simp add: t1_def vt_key_def nth_list_update)
    have fl: "metadata t ! l AND VT_HASH_FRAG_MASK = vt_hashfrag (hf (vt_key t l))"
      using vt_ok_fields(4) [OF ok pl(4) refl] .
    have ch1: "vt_chains hf t1 n D ?U"
      unfolding vt_chains_def
      by (rule vt_replace_key [OF ok b pl(5)], simp add: key1, simp add: key1)
        (use len bn in \<open>simp_all add: fl t1_def\<close>)
    have homes: "vt_khome hf n (vt_key t1 c) = vt_khome hf n (vt_key t c)" for c using pl(5) by (simp add: key1)
    have chain1: "vt_chain hf n (vt_key t1) D ?U ?h = ?S" by (rule vt_chain_homes) (rule homes)
    note ok1 = ch1 [unfolded vt_chains_def]
    have h1: "vt_khome hf n (vt_key t1 l) = ?h" "vt_khome hf n (vt_key t1 p) = ?h" using homes pl(3,5) by simp_all
    have set_end: "metadata t1 ! p OR VT_DISPLACEMENT_MASK = vt_set_disp (metadata t1 ! p) (metadata t1 ! l AND VT_DISPLACEMENT_MASK)"
      by (rule vt_set_end [OF ok1 pl(4) h1(1) [symmetric] _ pl(2)]) (use chain1 pl(8) in simp)
    let ?t' = "t1\<lparr>metadata := (metadata t1)[p := metadata t1 ! p OR VT_DISPLACEMENT_MASK, l := VT_EMPTY]\<rparr>"
    have len1: "length (metadata t1) = n + 4" using len by (simp add: t1_def)
    have ch': "vt_chains hf ?t' n D (?U - {l})"
      unfolding vt_chains_def vt_key_fields
      by (rule vt_unlink [OF ok1 pl(4) _ h1(1) [symmetric] pl(2) h1(2)])
        (use set_end chain1 pl(6,7) len1 n pl_ne in simp_all)
    moreover have "vt_erase_itr_raw hf t itr = Some (?t', \<not> b < l)"
      using inner last_iff itr(1) pl(1) n(3) len bn unfolding run by (simp add: Let_def vt_find_key_count t1_def)
    moreover have "vt_shape ?t' n" using T(2) by (simp add: vt_shape_def t1_def)
    moreover have "vt_live ?t' j \<longleftrightarrow> vt_live t j \<and> j \<noteq> l" if "j < n" for j
    proof (cases "j \<in> {p, b}")
      case True
      then have "j \<in> ?U - {l}" using pl(2) b pl_ne n(3) by auto
      then show ?thesis using vt_chains_live [OF ch', of j] by (simp add: vt_used_def)
    next
      case False
      then show ?thesis by (cases "j = l") (use that len1 in \<open>auto simp: vt_live_def t1_def\<close>)
    qed
    moreover have "buckets ?t' = (buckets t)[b := buckets t ! l]" "key_count ?t' = key_count t - 1" "metadata ?t' ! n = metadata t ! n"
      using n bn by (simp_all add: t1_def)
    ultimately show ?thesis using pl(4) by blast
  qed
qed


lemma vt_erase_itr_raw_result:
  assumes tbl: "vt_table hf t n" and b: "b < n" "vt_live t b"
    and itr: "itr_bucket itr = b" "home_bucket itr = None \<or> home_bucket itr = Some (vt_khome hf n (vt_key t b))"
  shows "\<exists>t' l. vt_erase_itr_raw hf t itr = Some (t', \<not> b < l) \<and> l \<in> vt_used t n \<and>
    vt_table hf t' n \<and> vt_map t' = (vt_map t)(vt_key t b := None) \<and> key_count t = Suc (key_count t') \<and>
    buckets t' = (buckets t)[b := buckets t ! l] \<and> (\<forall>j < n. vt_live t' j \<longleftrightarrow> vt_live t j \<and> j \<noteq> l)"
proof -
  have bU: "b \<in> vt_used t n" using b by (simp add: vt_used_def)
  obtain t' l D where r: "vt_erase_itr_raw hf t itr = Some (t', \<not> b < l)" "l \<in> vt_used t n"
    "vt_shape t' n" "key_count t' = key_count t - 1" "metadata t' ! n = metadata t ! n"
    "buckets t' = (buckets t)[b := buckets t ! l]" "\<forall>j < n. vt_live t' j \<longleftrightarrow> vt_live t j \<and> j \<noteq> l"
    "vt_chains hf t' n D (vt_used t n - {l})"
    using vt_erase_chains [OF tbl bU itr] by blast
  note e = vt_entries_erase [OF vt_tableD(1) [OF tbl] bU r(2-7)]
  have "vt_table hf t' n" using e(1) r(8) unfolding vt_table_def e(4) by blast
  then show ?thesis using r e(2,3) by blast
qed

lemma vt_erase_result:
  assumes inv: "vt_inv hf t"
  shows "\<exists>t'. vt_erase hf (=) t key = Some (t', vt_map t key \<noteq> None) \<and> vt_inv hf t' \<and>
    vt_map t' = (vt_map t)(key := None) \<and> key_count t = key_count t' + (if vt_map t key = None then 0 else 1)"
proof (cases "vt_map t key")
  case None
  then have "vt_get hf (=) t key = Some None" using vt_get_result [OF inv, of key] by auto
  then have "vt_erase hf (=) t key = Some (t, False)" by (simp add: vt_erase_def vt_is_end_def)
  then show ?thesis using inv None by (simp add: fun_upd_idem)
next
  case (Some v)
  then have "t \<noteq> vt_init" by auto
  then obtain n where tbl: "vt_table hf t n" using inv by (auto simp: vt_inv_def)
  let ?i = "\<lambda>b. \<lparr>itr_bucket = b, home_bucket = Some (vt_khome hf n key)\<rparr>"
  obtain b where b: "vt_get hf (=) t key = Some (Some (?i b))" "b < n" "vt_live t b" "buckets t ! b = (key, v)"
    using vt_get_table [OF tbl, of key] Some by auto
  have key: "vt_key t b = key" using b(4) by (simp add: vt_key_def)
  obtain t' l where r: "vt_erase_itr_raw hf t (?i b) = Some (t', \<not> b < l)" "vt_table hf t' n"
    "vt_map t' = (vt_map t)(key := None)" "key_count t = Suc (key_count t')"
    using vt_erase_itr_raw_result [OF tbl b(2,3), of "?i b"] key by auto
  have "\<not> vt_is_end t (Some (?i b))" by (rule vt_table_not_end [OF tbl]) (use b(2) in simp)
  then have "vt_erase hf (=) t key = Some (t', True)" using b(1) r(1) by (simp add: vt_erase_def)
  moreover have "vt_inv hf t'" using r(2) by (auto simp: vt_inv_def)
  ultimately show ?thesis using r(3,4) Some by simp
qed

end
