(* ===== verification/Verstable_Shim.thy ===== *)
theory Verstable_Shim
  imports Verstable_Table Benchmark
begin

text \<open>
  Iteration over a Verstable table, \<open>src/shims/verstable/shim.h\<close> and the proof that the shim keeps the
  whole contract for each of the three blueprints; then the properties of Verstable.
\<close>

section \<open>The left-most nonzero metadatum\<close>

definition field16 :: "u64 \<Rightarrow> nat \<Rightarrow> u16" where
  "field16 val g = ucast (drop_bit (16 * g) val)"

text \<open>\<open>f\<close> is the index of the first of the four 16-bit fields that is not zero.\<close>

definition first_field :: "u64 \<Rightarrow> nat \<Rightarrow> bool" where
  "first_field val f \<longleftrightarrow> f < 4 \<and> field16 val f \<noteq> 0 \<and> (\<forall>g < f. field16 val g = 0)"

lemma bit_field16: "bit (field16 val g) i \<longleftrightarrow> i < 16 \<and> bit val (16 * g + i)"
  by (auto simp: field16_def bit_ucast_iff bit_drop_bit_eq)

lemma ctz_from_result:
  assumes "bit val (i + d)" "d < fuel"
  shows "bit val (ctz_from fuel val i) \<and> i \<le> ctz_from fuel val i \<and> (\<forall>j. i \<le> j \<longrightarrow> j < ctz_from fuel val i \<longrightarrow> \<not> bit val j)"
  using assms
proof (induction fuel arbitrary: i d)
  case (Suc fuel)
  show ?case
  proof (cases "bit val i")
    case False
    then obtain d' where d: "d = Suc d'" using Suc.prems(1) by (cases d) auto
    then have "bit val (Suc i + d')" "d' < fuel" using Suc.prems by simp_all
    from Suc.IH [OF this] show ?thesis
      using False by (simp, metis Suc_leI le_neq_implies_less)
  qed simp
qed simp

lemma first_nonzero_field:
  assumes "val \<noteq> 0"
  shows "first_field val (vt_first_nonzero_uint16 val)"
proof -
  obtain d where "bit val d" using assms by (auto simp: bit_eq_iff)
  moreover from this have "d < 64" using bit_imp_le_length by fastforce
  ultimately have c: "bit val (ctz_from 64 val 0)" "\<And>j. j < ctz_from 64 val 0 \<Longrightarrow> \<not> bit val j"
    using ctz_from_result [of val 0 d 64] by auto
  let ?c = "ctz_from 64 val 0"
  have c64: "?c < 64" using bit_imp_le_length [OF c(1)] by simp
  have "bit (field16 val (?c div 16)) (?c mod 16)" using c(1) by (simp add: bit_field16)
  then have "field16 val (?c div 16) \<noteq> 0" by auto
  moreover have "field16 val g = 0" if "g < ?c div 16" for g
  proof (rule bit_word_eqI)
    fix i assume "i < LENGTH(16)"
    then have "i < 16" by simp
    then have "16 * g + i < ?c" using that by linarith
    then show "bit (field16 val g) i \<longleftrightarrow> bit 0 i" using c(2) by (simp add: bit_field16)
  qed
  ultimately show ?thesis using c64 by (simp add: first_field_def vt_first_nonzero_uint16_def)
qed

lemma first_field_unique: "first_field val f \<Longrightarrow> first_field val g \<Longrightarrow> f = g"
  by (simp add: first_field_def) (metis nat_neq_iff)

lemma portable_field:
  assumes "val \<noteq> 0"
  shows "first_field val (vt_first_nonzero_portable val)"
proof -
  have half: "(ucast val :: u32) = 0 \<longleftrightarrow> field16 val 0 = 0 \<and> field16 val 1 = 0"
  proof
    assume h: "(ucast val :: u32) = 0"
    have b: "\<not> bit val i" if "i < 32" for i
      using that arg_cong [OF h, of "\<lambda>w. bit w i"] by (simp add: bit_ucast_iff)
    show "field16 val 0 = 0 \<and> field16 val 1 = 0"
      by (intro conjI bit_word_eqI) (use b in \<open>auto simp: bit_field16\<close>)
  next
    assume f: "field16 val 0 = 0 \<and> field16 val 1 = 0"
    show "(ucast val :: u32) = 0"
    proof (rule bit_word_eqI)
      fix i assume i: "i < LENGTH(32)"
      show "bit (ucast val :: u32) i \<longleftrightarrow> bit 0 i"
      proof (cases "i < 16")
        case True
        then show ?thesis using f bit_field16 [of val 0 i] by (simp add: bit_ucast_iff)
      next
        case False
        then have "16 * 1 + (i - 16) = i" "i - 16 < 16" using i by simp_all
        then show ?thesis using f bit_field16 [of val 1 "i - 16"] by (simp add: bit_ucast_iff)
      qed
    qed
  qed
  have f: "first_field val (vt_first_nonzero_uint16 val)" by (rule first_nonzero_field [OF assms])
  have quarter: "(ucast (drop_bit (16 * g) val) :: u16) = field16 val g" for g by (simp add: field16_def)
  define r where "r = (if (ucast val :: u32) = 0 then 2 else 0 :: nat)"
  have port: "vt_first_nonzero_portable val = (if field16 val r = 0 then r + 1 else r)"
    unfolding vt_first_nonzero_portable_def Let_def r_def by (simp add: field16_def)
  have "\<exists>g < 4. field16 val g \<noteq> 0" using f by (auto simp: first_field_def)
  then have "field16 val 0 \<noteq> 0 \<or> field16 val 1 \<noteq> 0 \<or> field16 val 2 \<noteq> 0 \<or> field16 val 3 \<noteq> 0"
    by (auto simp: numeral_eq_Suc less_Suc_eq)
  then show ?thesis
    unfolding port r_def half first_field_def
    by (auto simp: numeral_eq_Suc less_Suc_eq)
qed

section \<open>Iteration\<close>

lemma field_read4:
  "g < 4 \<Longrightarrow> field16 (vt_read4 md i) g = md ! (i + g)"
proof -
  assume g: "g < 4"
  show ?thesis
  proof (rule bit_word_eqI)
    fix b assume b: "b < LENGTH(16)"
    have "g = 0 \<or> g = 1 \<or> g = 2 \<or> g = 3" using g by auto
    then show "bit (field16 (vt_read4 md i) g) b \<longleftrightarrow> bit (md ! (i + g)) b"
      using b by (auto simp: bit_field16 vt_read4_def bit_or_iff bit_push_bit_iff bit_ucast_iff
          dest: bit_imp_le_length)
  qed
qed

lemma read4_zero: "vt_read4 md i = 0 \<longleftrightarrow> (\<forall>g < 4. md ! (i + g) = 0)"
proof
  assume "vt_read4 md i = 0"
  then show "\<forall>g < 4. md ! (i + g) = 0" using field_read4 [of _ md i] by (auto simp: field16_def)
next
  assume z: "\<forall>g < 4. md ! (i + g) = 0"
  have m: "md ! i = 0" "md ! (i + 1) = 0" "md ! (i + 2) = 0" "md ! (i + 3) = 0"
    using z [rule_format, of 0] z [rule_format, of 1] z [rule_format, of 2] z [rule_format, of 3] by simp_all
  show "vt_read4 md i = 0" unfolding vt_read4_def m by simp
qed

lemma filter_skip: "(\<And>j. i \<le> j \<Longrightarrow> j < i + d \<Longrightarrow> \<not> P j) \<Longrightarrow> i + d \<le> n \<Longrightarrow> filter P [i..<n] = filter P [i + d..<n]"
proof -
  assume no: "\<And>j. i \<le> j \<Longrightarrow> j < i + d \<Longrightarrow> \<not> P j" and n: "i + d \<le> n"
  then obtain e where e: "n = i + d + e" using le_Suc_ex by blast
  have "[i..<n] = [i..<i + d] @ [i + d..<n]" unfolding e by (rule upt_add_eq_append) simp
  moreover have "filter P [i..<i + d] = []" using no by (simp add: filter_empty_conv)
  ultimately show ?thesis by simp
qed

lemma vt_fast_forward_result:
  assumes stop: "metadata t ! n = 1" and "i \<le> n" "n - i < 4 * fuel"
  shows "vt_fast_forward fuel t i = Some (Some \<lparr>itr_bucket = (case filter (vt_live t) [i..<n] of [] \<Rightarrow> n | j # _ \<Rightarrow> j), home_bucket = None\<rparr>)"
  using assms(2,3)
proof (induction fuel arbitrary: i)
  case (Suc fuel)
  let ?md = "vt_read4 (metadata t) i"
  show ?case
  proof (cases "?md = 0")
    case False
    define f where "f = vt_first_nonzero_uint16 ?md"
    have "first_field ?md f" unfolding f_def by (rule first_nonzero_field [OF False])
    then have f: "f < 4" "metadata t ! (i + f) \<noteq> 0" "\<And>g. g < f \<Longrightarrow> metadata t ! (i + g) = 0"
      using field_read4 [of _ "metadata t" i] by (auto simp: first_field_def)
    have le: "i + f \<le> n"
    proof (rule ccontr)
      assume "\<not> i + f \<le> n"
      then have "n - i < f" using Suc.prems(1) by linarith
      then show False using f(3) stop Suc.prems(1) by fastforce
    qed
    have none: "\<not> vt_live t j" if "i \<le> j" "j < i + f" for j
      using f(3) [of "j - i"] that by (simp add: vt_live_def VT_EMPTY_def)
    have skip: "filter (vt_live t) [i..<n] = filter (vt_live t) [i + f..<n]" by (rule filter_skip [OF none le])
    have "(case filter (vt_live t) [i + f..<n] of [] \<Rightarrow> n | j # _ \<Rightarrow> j) = i + f"
    proof (cases "i + f = n")
      case False
      then have "[i + f..<n] = (i + f) # [Suc (i + f)..<n]" using le by (simp add: upt_conv_Cons)
      moreover have "vt_live t (i + f)" using f(2) by (simp add: vt_live_def VT_EMPTY_def)
      ultimately show ?thesis by simp
    qed simp
    then show ?thesis using False unfolding skip by (simp add: f_def [symmetric])
  next
    case True
    then have z: "metadata t ! (i + g) = 0" if "g < 4" for g using that by (simp add: read4_zero)
    have le: "i + 4 \<le> n"
    proof (rule ccontr)
      assume "\<not> i + 4 \<le> n"
      then have "n - i < 4" by simp
      then show False using z [of "n - i"] stop Suc.prems(1) by simp
    qed
    have none: "\<not> vt_live t j" if "i \<le> j" "j < i + 4" for j
      using z [of "j - i"] that by (simp add: vt_live_def VT_EMPTY_def)
    have "filter (vt_live t) [i..<n] = filter (vt_live t) [i + 4..<n]" by (rule filter_skip [OF none le])
    then show ?thesis using True Suc.IH [of "i + 4"] Suc.prems(2) le by simp
  qed
qed simp

definition vt_order :: "('k, 'v) vt \<Rightarrow> nat list" where
  "vt_order t = filter (vt_live t) [0..<vt_bucket_count t]"

definition vt_keys :: "('k, 'v) vt \<Rightarrow> 'k list" where
  "vt_keys t = map (vt_key t) (vt_order t)"

definition vt_at :: "('k, 'v) vt \<Rightarrow> vt_itr option \<Rightarrow> nat \<Rightarrow> bool" where
  "vt_at t itr j \<longleftrightarrow> j < length (vt_order t) \<and> (\<exists>i. itr = Some i \<and> itr_bucket i = vt_order t ! j)"


lemma vt_first_result:
  assumes "vt_inv hf t"
  shows "\<exists>i. vt_first t = Some i \<and> (if vt_order t = [] then vt_is_end t i else vt_at t i 0)"
proof (cases "t = vt_init")
  case True
  then show ?thesis by (simp add: vt_first_def vt_init_def vt_end_itr_def vt_is_end_def vt_order_def vt_bucket_count_def)
next
  case False
  then obtain n where tbl: "vt_table hf t n" using assms by (auto simp: vt_inv_def)
  note T = vt_tableD [OF tbl]
  have set_order: "set (vt_order t) = vt_used t n" by (auto simp: vt_order_def T(9) vt_used_def)
  show ?thesis
  proof (cases "key_count t = 0")
    case True
    then have "vt_order t = []" using T(5) set_order by simp
    then show ?thesis using True by (simp add: vt_first_def vt_end_itr_def vt_is_end_def)
  next
    case ne: False
    then have "vt_order t \<noteq> []" using T(5) set_order by auto
    then obtain j js where cons: "vt_order t = j # js" by (cases "vt_order t") auto
    have "vt_fast_forward n t 0 = Some (Some \<lparr>itr_bucket = j, home_bucket = None\<rparr>)"
      using vt_fast_forward_result [OF T(8), of 0 n] T(4) cons by (simp add: vt_order_def T(9))
    then show ?thesis using ne cons by (simp add: vt_first_def T(9) vt_at_def)
  qed
qed

lemma vt_next_result:
  assumes "vt_inv hf t" "vt_at t itr j"
  shows "\<exists>i. vt_next t itr = Some i \<and> (if Suc j < length (vt_order t) then vt_at t i (Suc j) else vt_is_end t i)"
proof -
  have "t \<noteq> vt_init" using assms(2) by (auto simp: vt_at_def vt_order_def vt_init_def vt_bucket_count_def)
  then obtain n where tbl: "vt_table hf t n" using assms by (auto simp: vt_inv_def)
  note T = vt_tableD [OF tbl]
  obtain i where i: "itr = Some i" "itr_bucket i = vt_order t ! j" "j < length (vt_order t)"
    using assms(2) by (auto simp: vt_at_def)
  have "itr_bucket i \<in> set (vt_order t)" using i(2,3) by simp
  then have bn: "itr_bucket i < n" by (simp add: vt_order_def T(9))
  have rest: "filter (vt_live t) [Suc (itr_bucket i)..<n] = drop (Suc j) (vt_order t)"
    unfolding i(2) using i(3) by (simp add: vt_order_def T(9) filter_upt_after)
  have mask: "buckets_mask t + 1 = n" using T(2,4) by (simp add: vt_shape_def)
  have ff: "vt_fast_forward n t (Suc (itr_bucket i))
    = Some (Some \<lparr>itr_bucket = (case drop (Suc j) (vt_order t) of [] \<Rightarrow> n | j # _ \<Rightarrow> j), home_bucket = None\<rparr>)"
    using vt_fast_forward_result [OF T(8), of "Suc (itr_bucket i)" n] bn rest by simp
  show ?thesis
  proof (cases "Suc j < length (vt_order t)")
    case True
    then have "drop (Suc j) (vt_order t) = vt_order t ! Suc j # drop (Suc (Suc j)) (vt_order t)"
      by (simp add: Cons_nth_drop_Suc)
    then show ?thesis using ff True i(1) by (simp add: vt_next_def T(9) vt_at_def)
  next
    case False
    then show ?thesis using ff i(1) mask by (simp add: vt_next_def T(9) vt_is_end_def)
  qed
qed

lemma vt_order_keys:
  assumes "vt_inv hf t"
  shows "distinct (vt_keys t)" and "set (vt_keys t) = dom (vt_map t)"
proof -
  let ?l = "entries (vt_bucket_count t) (vt_live t) ((!) (buckets t))"
  have keys: "vt_keys t = map fst ?l"
    by (simp add: vt_keys_def vt_order_def entries_def vt_key_def)
  show "distinct (vt_keys t)"
    unfolding keys distinct_entries using vt_content_inv [OF assms] by (simp add: vt_content_ok_def)
  show "set (vt_keys t) = dom (vt_map t)"
    unfolding keys by (simp add: vt_map_def dom_map_of_conv_image_fst)
qed

lemma vt_at_live:
  assumes "vt_inv hf t" "vt_at t itr j"
  obtains n i where "vt_table hf t n" "itr = Some i" "itr_bucket i < n" "vt_live t (itr_bucket i)"
    "vt_key t (itr_bucket i) = vt_keys t ! j"
proof -
  have "t \<noteq> vt_init" using assms(2) by (auto simp: vt_at_def vt_order_def vt_init_def vt_bucket_count_def)
  then obtain n where tbl: "vt_table hf t n" using assms by (auto simp: vt_inv_def)
  obtain i where i: "itr = Some i" "itr_bucket i = vt_order t ! j" "j < length (vt_order t)"
    using assms(2) by (auto simp: vt_at_def)
  then have "itr_bucket i \<in> set (vt_order t)" by simp
  then show thesis using that [OF tbl i(1)] i by (simp add: vt_order_def vt_tableD(9) [OF tbl] vt_keys_def)
qed

section \<open>The shim and its contract\<close>

definition vt_shim_ops ::
  "('k \<Rightarrow> u64) \<Rightarrow> ('k \<Rightarrow> 'k \<Rightarrow> bool) \<Rightarrow> ('k, 'v) vt_mem \<Rightarrow> 'v
     \<Rightarrow> (('k, 'v) vt, 'k, 'v, vt_itr option) shim_ops" where
  "vt_shim_ops hf eq mem dflt =
    \<lparr>create_table = vt_init,
     sh_insert = (\<lambda>t key. map_option fst (vt_insert hf eq mem t key dflt)),
     sh_erase = (\<lambda>t key. map_option fst (vt_erase hf eq t key)),
     sh_find = vt_get hf eq,
     begin_itr = vt_first,
     is_itr_valid = (\<lambda>t itr. \<not> vt_is_end t itr),
     increment_itr = vt_next,
     get_key_from_itr = (\<lambda>t itr. fst (buckets t ! itr_bucket (the itr))),
     get_value_from_itr = (\<lambda>t itr. snd (buckets t ! itr_bucket (the itr)))\<rparr>"

lemma vt_key_count_card: "vt_inv hf t \<Longrightarrow> key_count t = card (dom (vt_map t))"
proof -
  assume inv: "vt_inv hf t"
  have "length (vt_keys t) = key_count t"
    using vt_content_inv [OF inv] unfolding vt_content_ok_def vt_keys_def vt_order_def
    by (metis length_entries length_map entries_def)
  then show ?thesis using vt_order_keys [OF inv] distinct_card [of "vt_keys t"] by simp
qed

definition vt_good_mem :: "'k \<Rightarrow> 'v \<Rightarrow> ('k, 'v) vt_mem" where
  "vt_good_mem fk fv = \<lparr>alloc_ok = (\<lambda>n. n \<le> 2 ^ 60), fresh_bucket = (fk, fv)\<rparr>"

lemma vt_good_mem_ok: "vt_mem_ok (vt_good_mem fk fv)"
  by (simp add: vt_mem_ok_def vt_good_mem_def)

text \<open>
  With an allocator that gives what fits in the address space, insertion always succeeds up to 2047
  keys, whatever their hash codes; beyond that a long enough chain of equal hash codes could make it
  run out of memory.
\<close>

lemma vt_insert_small:
  assumes inv: "vt_inv hf t" and small: "card (dom (vt_map t)) < 0x7FF"
  shows "\<exists>t' i n. vt_insert hf (=) (vt_good_mem fk fv) t key val = Some (t', Some i) \<and>
    vt_inserted hf n t key val True t' i"
proof -
  obtain t' itr where r: "vt_insert hf (=) (vt_good_mem fk fv) t key val = Some (t', itr)"
    "case itr of
       Some i \<Rightarrow> \<exists>n. vt_inserted hf n t key val True t' i
     | None \<Rightarrow> vt_content_ok t' \<and> vt_map t' = vt_map t \<and> key_count t' = key_count t \<and> vt_map t key = None \<and>
         (\<exists>n. \<not> alloc_ok (vt_good_mem fk fv) n \<and> (key_count t < 0x7FF \<longrightarrow> n < 2 ^ 13))"
    using vt_insert_result [OF inv vt_good_mem_ok, of fk fv key val] by blast
  have "itr \<noteq> None"
  proof
    assume "itr = None"
    then obtain n where "\<not> n \<le> (2::nat) ^ 60" "n < 2 ^ 13"
      using r(2) small vt_key_count_card [OF inv] by (auto simp: vt_good_mem_def)
    then show False by simp
  qed
  then show ?thesis using r by auto
qed

lemma vt_shim_keeps_contract:
  "iterable_shim (vt_shim_ops hf (=) (vt_good_mem fk fv) dflt) (vt_inv hf) vt_map dflt 0x7FF vt_keys vt_at"
proof (unfold_locales, goal_cases)
  case 1
  then show ?case by (simp add: vt_shim_ops_def)
next
  case 2
  then show ?case by (simp add: vt_shim_ops_def)
next
  case (3 t key)
  then show ?case
    using vt_insert_small [OF 3, of fk fv key dflt] by (auto simp: vt_shim_ops_def vt_inserted_def vt_inv_def)
next
  case (4 t key)
  then show ?case using vt_erase_result [OF 4, of key] by (auto simp: vt_shim_ops_def)
next
  case (5 t key)
  show ?case
  proof (cases "t = vt_init")
    case True
    then show ?thesis by (simp add: vt_shim_ops_def vt_get_init vt_is_end_def)
  next
    case False
    then obtain n where tbl: "vt_table hf t n" using 5 by (auto simp: vt_inv_def)
    obtain itr where itr: "vt_get hf (=) t key = Some itr"
      "case vt_map t key of None \<Rightarrow> itr = None
       | Some v \<Rightarrow> \<exists>b. itr = Some \<lparr>itr_bucket = b, home_bucket = Some (vt_khome hf n key)\<rparr> \<and> b < n \<and> vt_live t b \<and>
           buckets t ! b = (key, v)"
      using vt_get_table [OF tbl, of key] by blast
    show ?thesis
    proof (cases "vt_map t key")
      case None
      then show ?thesis using itr by (simp add: vt_shim_ops_def vt_is_end_def)
    next
      case (Some v)
      then obtain b where b: "itr = Some \<lparr>itr_bucket = b, home_bucket = Some (vt_khome hf n key)\<rparr>" "b < n" "buckets t ! b = (key, v)"
        using itr(2) by auto
      then have "\<not> vt_is_end t itr" using vt_table_not_end [OF tbl] by simp
      then show ?thesis using itr(1) b Some by (simp add: vt_shim_ops_def)
    qed
  qed
next
  case (6 t i j)
  obtain n b where b: "vt_table hf t n" "i = Some b" "itr_bucket b < n" "vt_key t (itr_bucket b) = vt_keys t ! j"
    by (rule vt_at_live [OF 6])
  then show ?case
    using 6(2) vt_table_not_end [OF b(1,3)] by (simp add: vt_shim_ops_def vt_at_def vt_keys_def vt_key_def)
next
  case (7 t)
  then show ?case using vt_order_keys [OF 7] by simp
next
  case (8 t)
  then show ?case using vt_first_result [OF 8] by (cases "vt_order t = []") (simp_all add: vt_shim_ops_def vt_keys_def)
next
  case (9 t i j)
  then show ?case using vt_next_result [OF 9] by (cases "Suc j < length (vt_order t)") (simp_all add: vt_shim_ops_def vt_keys_def)
next
  case (10 t key i)
  then have "vt_map t key \<noteq> None" using vt_get_result [OF 10(1), of key]
    by (auto simp: vt_shim_ops_def vt_is_end_def split: option.splits)
  then obtain b where "i = Some b" "itr_bucket b < vt_bucket_count t" "vt_live t (itr_bucket b)"
    using vt_get_result [OF 10(1), of key] 10(2) by (auto simp: vt_shim_ops_def split: option.splits)
  moreover from this have "itr_bucket b \<in> set (vt_order t)" by (simp add: vt_order_def)
  ultimately show ?case by (auto simp: vt_at_def in_set_conv_nth)
qed

interpretation vt_uint32: iterable_shim
  "vt_shim_ops hash_key_uint32 cmpr_keys_uint32 (vt_good_mem fk fv) dflt" "vt_inv hash_key_uint32"
  vt_map dflt "0x7FF" vt_keys vt_at for fk and fv dflt :: u32
  unfolding bp_uint32.cmpr_is_eq by (rule vt_shim_keeps_contract)

interpretation vt_uint64: iterable_shim
  "vt_shim_ops hash_key_uint64 cmpr_keys_uint64 (vt_good_mem fk fv) dflt" "vt_inv hash_key_uint64"
  vt_map dflt "0x7FF" vt_keys vt_at for fk and fv dflt :: "u8 list"
  unfolding bp_uint64.cmpr_is_eq by (rule vt_shim_keeps_contract)

interpretation vt_cstring: iterable_shim
  "vt_shim_ops hash_key_cstring cmpr_keys_cstring (vt_good_mem fk fv) dflt" "vt_inv hash_key_cstring"
  vt_map dflt "0x7FF" vt_keys vt_at for fk and fv dflt :: u64
  unfolding bp_cstring.cmpr_is_eq by (rule vt_shim_keeps_contract)


section \<open>Capacity\<close>

lemma vt_grow_result:
  assumes "8 * sz \<le> 7 * (2 ^ fuel * n)" "n = 2 ^ k"
  shows "\<exists>m j. vt_grow (Suc fuel) sz n = Some m \<and> n \<le> m \<and> m = 2 ^ j \<and> k \<le> j \<and> 8 * sz \<le> 7 * m"
  using assms
proof (induction fuel arbitrary: n k)
  case 0
  then show ?case by auto
next
  case (Suc fuel)
  show ?case
  proof (cases "7 * n < 8 * sz")
    case True
    have "8 * sz \<le> 7 * (2 ^ fuel * (n * 2))" "n * 2 = 2 ^ Suc k" using Suc.prems by (simp_all add: mult_ac)
    from Suc.IH [OF this] obtain m j where m: "vt_grow (Suc fuel) sz (n * 2) = Some m" "n * 2 \<le> m" "m = 2 ^ j"
      "Suc k \<le> j" "8 * sz \<le> 7 * m" by blast
    have "vt_grow (Suc (Suc fuel)) sz n = vt_grow (Suc fuel) sz (n * 2)" using True by (subst vt_grow.simps) simp
    then show ?thesis using m by (intro exI [of _ m] exI [of _ j]) simp
  next
    case False
    then have "vt_grow (Suc (Suc fuel)) sz n = Some n" by (subst vt_grow.simps) simp
    then show ?thesis using False Suc.prems(2) by auto
  qed
qed

lemma vt_min_bucket_count_result:
  assumes "sz \<le> 2 ^ 60"
  shows "\<exists>m. vt_min_bucket_count_for_size sz = Some m \<and> 8 * sz \<le> 7 * m \<and> (if sz = 0 then m = 0 else \<exists>j. m = 2 ^ j \<and> 3 \<le> j)"
proof (cases "sz = 0")
  case False
  have "8 * sz \<le> 7 * (2 ^ 63 * 8)" using assms by simp
  from vt_grow_result [OF this, of 3] show ?thesis
    using False by (auto simp: vt_min_bucket_count_for_size_def VT_MIN_NONZERO_BUCKET_COUNT_def simp del: vt_grow.simps)
qed (simp add: vt_min_bucket_count_for_size_def)

lemma vt_rehash_inv:
  assumes "vt_inv hf t" "vt_mem_ok mem" "n = 2 ^ k" "3 \<le> k"
  shows "\<exists>t' ok. vt_rehash 64 hf (=) mem t n = Some (t', ok) \<and> vt_inv hf t' \<and> vt_map t' = vt_map t \<and>
    (if ok then n \<le> vt_bucket_count t' else t' = t)"
proof -
  have "(2::nat) ^ 61 < 2 ^ 64 * 1" by simp
  also have "\<dots> \<le> 2 ^ 64 * n" by (rule mult_le_mono2) (simp add: assms(3))
  finally obtain t' ok where r: "vt_rehash 64 hf (=) mem t n = Some (t', ok)"
    "if ok then \<exists>n'. n \<le> n' \<and> n' \<le> 2 ^ 60 \<and> vt_table hf t' n' \<and> vt_map t' = vt_map t \<and> key_count t' = key_count t
     else t' = t \<and> (\<exists>n'. \<not> alloc_ok mem n' \<and> (8 * key_count t \<le> 7 * n \<longrightarrow> key_count t \<le> 0x7FF \<longrightarrow> n' = n))"
    using vt_rehash_result [OF vt_content_inv [OF assms(1)] assms(2-4), of 64] by fastforce
  show ?thesis
  proof (cases ok)
    case True
    then obtain n' where "n \<le> n'" "vt_table hf t' n'" "vt_map t' = vt_map t" using r(2) by auto
    then show ?thesis using r(1) True vt_tableD(9) [of hf t' n'] by (auto simp: vt_inv_def)
  next
    case False
    then show ?thesis using r assms(1) by auto
  qed
qed

lemma vt_reserve_result:
  assumes "vt_inv hf t" "vt_mem_ok mem" "sz \<le> 2 ^ 60"
  shows "\<exists>t' ok. vt_reserve hf (=) mem t sz = Some (t', ok) \<and> vt_inv hf t' \<and> vt_map t' = vt_map t \<and>
    (if ok then 8 * sz \<le> 7 * vt_bucket_count t' else t' = t)"
proof -
  obtain m where m: "vt_min_bucket_count_for_size sz = Some m" "8 * sz \<le> 7 * m"
    "if sz = 0 then m = 0 else \<exists>j. m = 2 ^ j \<and> 3 \<le> j"
    using vt_min_bucket_count_result [OF assms(3)] by blast
  show ?thesis
  proof (cases "m \<le> vt_bucket_count t")
    case True
    then show ?thesis using m(1,2) assms(1) by (intro exI [of _ t] exI [of _ True]) (simp add: vt_reserve_def)
  next
    case False
    then obtain j where "m = 2 ^ j" "3 \<le> j" using m(3) by (auto split: if_splits)
    from vt_rehash_inv [OF assms(1,2) this] obtain t' ok where
      "vt_rehash 64 hf (=) mem t m = Some (t', ok)" "vt_inv hf t'" "vt_map t' = vt_map t"
      "if ok then m \<le> vt_bucket_count t' else t' = t" by blast
    then show ?thesis using False m(1,2)
      by (intro exI [of _ t'] exI [of _ ok]) (auto simp: vt_reserve_def)
  qed
qed

lemma vt_shrink_result:
  assumes inv: "vt_inv hf t" and mem: "vt_mem_ok mem" and size: "key_count t \<le> 2 ^ 60"
  shows "\<exists>t' ok. vt_shrink hf (=) mem t = Some (t', ok) \<and> vt_inv hf t' \<and> vt_map t' = vt_map t \<and>
    (key_count t = 0 \<longrightarrow> t' = vt_init) \<and> (\<not> ok \<longrightarrow> t' = t)"
proof -
  obtain m where m: "vt_min_bucket_count_for_size (key_count t) = Some m" "8 * key_count t \<le> 7 * m"
    "if key_count t = 0 then m = 0 else \<exists>j. m = 2 ^ j \<and> 3 \<le> j"
    using vt_min_bucket_count_result [OF size] by blast
  have none: "vt_map t = Map.empty" if "key_count t = 0"
  proof -
    have "finite (dom (vt_map t))" by (simp add: vt_map_def finite_dom_map_of)
    then have "dom (vt_map t) = {}" using vt_key_count_card [OF inv] that by simp
    then show ?thesis by simp
  qed
  show ?thesis
  proof (cases "key_count t = 0")
    case empty: True
    show ?thesis
    proof (cases "vt_bucket_count t = 0")
      case True
      then have "\<not> vt_table hf t n" for n using vt_tableD(4,9) [of hf t n] by auto
      then have "t = vt_init" using inv by (auto simp: vt_inv_def)
      then show ?thesis using m empty True inv by (intro exI [of _ t] exI [of _ True]) (simp add: vt_shrink_def)
    next
      case False
      have "t\<lparr>buckets := [], buckets_mask := 0, metadata := [VT_EMPTY]\<rparr> = vt_init"
        using empty by (simp add: vt_init_def)
      then show ?thesis using m empty False none
        by (intro exI [of _ vt_init] exI [of _ True]) (simp add: vt_shrink_def)
    qed
  next
    case False
    then obtain j where j: "m = 2 ^ j" "3 \<le> j" using m(3) by (auto split: if_splits)
    show ?thesis
    proof (cases "m = vt_bucket_count t")
      case True
      then show ?thesis using m(1) False inv by (intro exI [of _ t] exI [of _ True]) (simp add: vt_shrink_def)
    next
      case ne: False
      from vt_rehash_inv [OF inv mem j] obtain t' ok where
        "vt_rehash 64 hf (=) mem t m = Some (t', ok)" "vt_inv hf t'" "vt_map t' = vt_map t"
        "if ok then m \<le> vt_bucket_count t' else t' = t" by blast
      then show ?thesis using False ne m(1) j(1)
        by (intro exI [of _ t'] exI [of _ ok]) (auto simp: vt_shrink_def)
    qed
  qed
qed

lemma vt_clear_result:
  assumes inv: "vt_inv hf t"
  shows "vt_inv hf (vt_clear t)" "vt_map (vt_clear t) = Map.empty" "vt_bucket_count (vt_clear t) = vt_bucket_count t"
proof -
  show "vt_bucket_count (vt_clear t) = vt_bucket_count t" by (simp add: vt_clear_def vt_bucket_count_def)
  show "vt_inv hf (vt_clear t)" "vt_map (vt_clear t) = Map.empty"
  proof -
    have "vt_inv hf (vt_clear t) \<and> vt_map (vt_clear t) = Map.empty"
    proof (cases "key_count t = 0")
      case True
      have "finite (dom (vt_map t))" by (simp add: vt_map_def finite_dom_map_of)
      then have "dom (vt_map t) = {}" using vt_key_count_card [OF inv] True by simp
      then show ?thesis using True inv by (simp add: vt_clear_def)
    next
      case False
      then have "t \<noteq> vt_init" by (auto simp: vt_init_def)
      then obtain n where tbl: "vt_table hf t n" using inv by (auto simp: vt_inv_def)
      note T = vt_tableD [OF tbl]
      let ?t = "vt_clear t"
      have md: "metadata ?t = replicate n VT_EMPTY @ drop n (metadata t)" and fields: "key_count ?t = 0"
        "buckets ?t = buckets t" "buckets_mask ?t = buckets_mask t" using False by (simp_all add: vt_clear_def T(9))
      have shape: "vt_shape ?t n" using T(2) by (auto simp: vt_shape_def md fields)
      have dead: "\<not> vt_live ?t b" if "b < n" for b using that by (simp add: vt_live_def md nth_append)
      then have used: "vt_used ?t n = {}" by (auto simp: vt_used_def)
      have stop: "metadata ?t ! n = 1" using T(2,8) by (simp add: md nth_append vt_shape_def)
      have "vt_chains hf ?t n (\<lambda>_. 0) {}" by (simp add: vt_chains_def vt_ok_def)
      moreover have "keys_inj n (vt_live ?t) ((!) (buckets ?t))" using dead by (auto simp: keys_inj_def inj_on_def)
      ultimately have "vt_table hf ?t n"
        using shape used stop fields by (auto simp: vt_table_def vt_entries_ok_def)
      moreover have "vt_map ?t = Map.empty" using dead by (auto simp: vt_map_entries [OF shape] map_of_entries_None fun_eq_iff)
      ultimately show ?thesis by (auto simp: vt_inv_def)
    qed
    then show "vt_inv hf (vt_clear t)" "vt_map (vt_clear t) = Map.empty" by simp_all
  qed
qed


text \<open>What \<open>get\<close> answers for every key of a table: exactly the entries of the map \<open>m\<close>.\<close>

definition vt_finds :: "('k \<Rightarrow> u64) \<Rightarrow> ('k, 'v) vt \<Rightarrow> ('k \<Rightarrow> 'v option) \<Rightarrow> bool" where
  "vt_finds hf t m \<longleftrightarrow> (\<forall>key. \<exists>itr. vt_get hf (=) t key = Some itr \<and>
     (case m key of None \<Rightarrow> itr = None | Some v \<Rightarrow> \<exists>i. itr = Some i \<and> buckets t ! itr_bucket i = (key, v)))"

lemma vt_inv_finds: "vt_inv hf t \<Longrightarrow> vt_finds hf t (vt_map t)"
  unfolding vt_finds_def
proof
  fix key
  assume "vt_inv hf t"
  from vt_get_result [OF this, of key] show "\<exists>itr. vt_get hf (=) t key = Some itr \<and>
     (case vt_map t key of None \<Rightarrow> itr = None | Some v \<Rightarrow> \<exists>i. itr = Some i \<and> buckets t ! itr_bucket i = (key, v))"
    by (auto split: option.splits)
qed

section \<open>A failed eviction\<close>

text \<open>
  When no bucket within the displacement limit is free, \<open>_evict\<close> has already disconnected the key: in
  the table it leaves, \<open>get\<close> does not find it any more, and finds every other key. Only the rehash that
  follows brings the key back; when its allocation fails the key stays lost.
\<close>

lemma vt_failed_evict_loses_key:
  assumes tbl: "vt_table hf t n" and h: "h < n" "vt_live t h" "metadata t ! h AND VT_IN_HOME_BUCKET_MASK = 0"
    and run: "vt_evict hf t h = Some (t', False)"
  shows "vt_map t (vt_key t h) \<noteq> None" and "vt_finds hf t' ((vt_map t)(vt_key t h := None))"
proof -
  let ?U = "vt_used t n" and ?k = "vt_key t h" and ?g = "vt_khome hf n (vt_key t h)"
  note T = vt_tableD [OF tbl]
  obtain D where ch: "vt_chains hf t n D ?U" using tbl by (auto simp: vt_table_def)
  note ok = ch [unfolded vt_chains_def]
  have n0: "0 < n" using T(4) by simp
  have hU: "h \<in> ?U" using h(1,2) by (simp add: vt_used_def)
  have Dh: "D h \<noteq> 0" using vt_home_flag [OF ch n0 h(1)] h(3) hU by simp
  note start = vt_chain_start [OF ok hU n0]
  have "vt_map t ?k = Some (snd (buckets t ! h))"
    by (rule vt_map_at [OF T(1) h(1,2)]) (simp add: vt_key_def)
  then show "vt_map t ?k \<noteq> None" by simp
  obtain p where p: "vt_find_prev vt_fuel t ?g h ?g = Some p" "p \<in> ?U" "vt_khome hf n (vt_key t p) = ?g"
    "nxt (vt_chain hf n (vt_key t) D ?U ?g) (D p) = D h"
    using vt_find_prev_result [OF ok T(2) hU refl start(1,2) _ vt_fuel_enough] start(3) Dh by auto
  define t1 where "t1 = t\<lparr>metadata := (metadata t)[p := vt_set_disp (metadata t ! p) (metadata t ! h AND VT_DISPLACEMENT_MASK)]\<rparr>"
  note dis = vt_disconnect [OF ch T(2) hU Dh refl p(2-4) t1_def]
  have home: "vt_home hf t (fst (buckets t ! h)) = ?g" using vt_home_khome [OF T(2)] by (simp add: vt_key_def)
  have t': "t' = t1"
    using run unfolding vt_evict_def home p(1) Let_def option.case t1_def [symmetric]
    by (auto split: option.splits)
  have key1: "vt_key t1 = vt_key t" and bkt1: "buckets t1 = buckets t" by (simp_all add: t1_def vt_key_def fun_eq_iff)
  have ok1: "vt_ok hf n (vt_key t1) ((!) (metadata t1)) D (?U - {h})" using dis(1) by (simp add: vt_chains_def)
  show "vt_finds hf t' ((vt_map t)(?k := None))"
    unfolding vt_finds_def
  proof
    fix key
    let ?h = "vt_khome hf n key"
    have hn: "?h < n" by (rule vt_khome_less [OF n0])
    have home1: "vt_home hf t1 key = ?h" by (rule vt_home_khome [OF dis(2)])
    have at: "vt_map t key = Some v \<longleftrightarrow> (\<exists>b \<in> ?U. vt_key t b = key \<and> snd (buckets t ! b) = v)" for v
    proof
      assume v: "vt_map t key = Some v"
      then obtain b where b: "b \<in> ?U" "vt_key t b = key" using vt_map_None [OF T(2), of key] by auto
      then have "vt_map t key = Some (snd (buckets t ! b))"
        by (intro vt_map_at [OF T(1)]) (auto simp: vt_used_def vt_key_def prod_eq_iff)
      then show "\<exists>b \<in> ?U. vt_key t b = key \<and> snd (buckets t ! b) = v" using b v by auto
    next
      assume "\<exists>b \<in> ?U. vt_key t b = key \<and> snd (buckets t ! b) = v"
      then show "vt_map t key = Some v"
        by (elim bexE, intro vt_map_at [OF T(1)]) (auto simp: vt_used_def vt_key_def prod_eq_iff)
    qed
    show "\<exists>itr. vt_get hf (=) t' key = Some itr \<and> (case ((vt_map t)(?k := None)) key of None \<Rightarrow> itr = None
        | Some v \<Rightarrow> \<exists>i. itr = Some i \<and> buckets t' ! itr_bucket i = (key, v))"
    proof (cases "?h \<in> ?U - {h} \<and> D ?h = 0")
      case True
      then have g: "?h \<in> ?U - {h}" "D ?h = 0" by simp_all
      have flag: "metadata t1 ! ?h AND VT_IN_HOME_BUCKET_MASK \<noteq> 0"
        using vt_ok_fields(3) [OF ok1 g(1) refl] g(2) by simp
      obtain r where r: "vt_search_chain vt_fuel (=) t1 key (vt_hashfrag (hf key)) ?h ?h = Some r"
        "case r of Some c \<Rightarrow> c \<in> ?U - {h} \<and> vt_key t1 c = key
         | None \<Rightarrow> (\<forall>c \<in> ?U - {h}. vt_khome hf n (vt_key t1 c) = ?h \<longrightarrow> D ?h \<le> D c \<longrightarrow> vt_key t1 c \<noteq> key)"
        using vt_search_chain_result [OF ok1 dis(2) g(1) vt_start_home [OF ok1 n0 g] vt_fuel_enough, of key] by blast
      have get: "vt_get hf (=) t' key = Some (case r of None \<Rightarrow> None | Some c \<Rightarrow> vt_itr_at c ?h)"
        using flag r(1) by (simp add: t' vt_get_def home1 vt_end_itr_def)
      show ?thesis
      proof (cases r)
        case None
        then have "vt_key t c \<noteq> key" if "c \<in> ?U" "c \<noteq> h" for c using that r(2) g(2) by (auto simp: key1)
        then have "((vt_map t)(?k := None)) key = None"
          using at by (cases "vt_map t key") auto
        then show ?thesis using get None by simp
      next
        case (Some c)
        then have c: "c \<in> ?U" "c \<noteq> h" "vt_key t c = key" using r(2) by (auto simp: key1)
        have "key \<noteq> ?k" using keys_injD [OF T(3), of c h] c h(1,2) by (auto simp: vt_used_def vt_key_def)
        moreover have "vt_map t key = Some (snd (buckets t ! c))" using at c by blast
        moreover have "buckets t' ! c = (key, snd (buckets t ! c))" using c(3) by (simp add: t' bkt1 vt_key_def prod_eq_iff)
        ultimately show ?thesis using get Some by (simp add: vt_itr_at_def)
      qed
    next
      case False
      have out: "?h \<in> ?U \<longrightarrow> D ?h \<noteq> 0" using False Dh by auto
      have "metadata t1 ! ?h AND VT_IN_HOME_BUCKET_MASK = 0"
      proof (cases "?h \<in> ?U - {h}")
        case True
        then show ?thesis using vt_ok_fields(3) [OF ok1 True refl] out by simp
      next
        case no: False
        have "p \<in> ?U - {h}" using p(2) dis(4) by simp
        then have "?h \<noteq> p" using no by auto
        then have "metadata t1 ! ?h = metadata t ! ?h" by (simp add: t1_def)
        then show ?thesis using vt_home_flag [OF ch n0 hn] out by simp
      qed
      moreover have "vt_map t key = None"
        unfolding vt_map_None [OF T(2)] using vt_chain_no_start [OF ch n0 out] by auto
      ultimately show ?thesis by (simp add: t' vt_get_def home1 vt_end_itr_def)
    qed
  qed
qed

text \<open>An insertion that fails has left its table as it was, but for a failed eviction.\<close>

lemma vt_insert_raw_fails:
  assumes "vt_insert_raw hf eq t key val unique replace = Some (t', None)"
  shows "t' = t \<or> metadata t ! vt_home hf t key AND VT_IN_HOME_BUCKET_MASK = 0 \<and>
    metadata t ! vt_home hf t key \<noteq> VT_EMPTY \<and> vt_evict hf t (vt_home hf t key) = Some (t', False)"
  using assms unfolding vt_insert_raw_def Let_def vt_itr_at_def vt_end_itr_def
  by (auto split: if_splits option.splits prod.splits)

lemma vt_insert_loop_fails:
  assumes "vt_insert_loop fuel hf (=) mem t key val replace = Some (t', None)" "vt_inv hf t" "vt_mem_ok mem"
  shows "\<exists>t0. vt_inv hf t0 \<and> vt_map t0 = vt_map t \<and> vt_insert_raw hf (=) t0 key val False replace = Some (t', None)"
  using assms(1,2)
proof (induction fuel arbitrary: t)
  case (Suc fuel)
  obtain t1 itr where raw: "vt_insert_raw hf (=) t key val False replace = Some (t1, itr)"
    "case itr of
       Some i \<Rightarrow> (\<exists>n. vt_inserted hf n t key val replace t1 i)
     | None \<Rightarrow> vt_content_ok t1 \<and> vt_map t1 = vt_map t \<and> key_count t1 = key_count t \<and> vt_map t key = None \<and>
         vt_request t1 = vt_request t \<and> (key_count t < 0x7FF \<longrightarrow> vt_request t < 2 ^ 13 \<and> 8 * (key_count t + 1) \<le> 7 * vt_request t)"
    "\<exists>k. vt_request t = 2 ^ k \<and> 3 \<le> k"
    using vt_insert_round [OF Suc.prems(2), of key val replace] by blast
  have "itr = None"
  proof (rule ccontr)
    assume "itr \<noteq> None"
    then obtain i n where "itr = Some i" "vt_inserted hf n t key val replace t1 i" using raw(2) by auto
    then have "\<not> vt_is_end t1 itr" using vt_table_not_end [of hf t1 n i] by (simp add: vt_inserted_def)
    then show False using raw(1) Suc.prems(1) \<open>itr \<noteq> None\<close> by simp
  qed
  then have R: "vt_content_ok t1" "vt_map t1 = vt_map t" "vt_request t1 = vt_request t" using raw(2) by auto
  obtain k where k: "vt_request t = 2 ^ k" "3 \<le> k" using raw(3) by blast
  have "(2::nat) ^ 61 < 2 ^ 64 * 2 ^ k" by (rule less_le_trans [of _ "2 ^ 64 * 1"]) simp_all
  then have "2 ^ 61 < 2 ^ 64 * vt_request t" by (simp only: k(1))
  from vt_rehash_result [OF R(1) assms(3) k this, where hf = hf] obtain t2 ok where
    reh: "vt_rehash 64 hf (=) mem t1 (vt_request t) = Some (t2, ok)"
    "if ok then \<exists>n'. vt_table hf t2 n' \<and> vt_map t2 = vt_map t1 else t2 = t1"
    by (metis (lifting) one_le_numeral)
  have step: "vt_insert_loop (Suc fuel) hf (=) mem t key val replace
    = (if \<not> ok then Some (t2, None) else vt_insert_loop fuel hf (=) mem t2 key val replace)"
    using raw(1) \<open>itr = None\<close> reh(1) R(3) by (simp add: vt_is_end_def vt_request_def)
  show ?case
  proof (cases ok)
    case False
    then have "t' = t1" using step Suc.prems(1) reh(2) by simp
    then show ?thesis using raw(1) \<open>itr = None\<close> Suc.prems(2) by blast
  next
    case True
    then obtain n' where n': "vt_table hf t2 n'" "vt_map t2 = vt_map t" using reh(2) R(2) by auto
    have "vt_inv hf t2" using n'(1) by (auto simp: vt_inv_def)
    moreover have "vt_insert_loop fuel hf (=) mem t2 key val replace = Some (t', None)"
      using step Suc.prems(1) True by simp
    ultimately show ?thesis using Suc.IH n'(2) by metis
  qed
qed simp

text \<open>So lookups then see all entries, or all but one that an eviction has disconnected.\<close>

lemma vt_failed_insert:
  assumes "vt_insert_loop fuel hf (=) mem t key val replace = Some (t', None)" "vt_inv hf t" "vt_mem_ok mem"
  shows "vt_inv hf t' \<and> vt_finds hf t' (vt_map t) \<or>
    (\<exists>lost. vt_map t lost \<noteq> None \<and> vt_finds hf t' ((vt_map t)(lost := None)))"
proof -
  obtain t0 where t0: "vt_inv hf t0" "vt_map t0 = vt_map t" "vt_insert_raw hf (=) t0 key val False replace = Some (t', None)"
    using vt_insert_loop_fails [OF assms] by blast
  show ?thesis
  proof (cases "t' = t0")
    case True
    have "vt_map t' = vt_map t" using True t0(2) by simp
    then show ?thesis using vt_inv_finds [of hf t'] t0(1) True by simp
  next
    case False
    then have ev: "metadata t0 ! vt_home hf t0 key AND VT_IN_HOME_BUCKET_MASK = 0" "metadata t0 ! vt_home hf t0 key \<noteq> VT_EMPTY"
      "vt_evict hf t0 (vt_home hf t0 key) = Some (t', False)" using vt_insert_raw_fails [OF t0(3)] by simp_all
    have "t0 \<noteq> vt_init"
    proof
      assume "t0 = vt_init"
      then show False using t0(3) False by (simp add: vt_insert_raw_init)
    qed
    then obtain n where tbl: "vt_table hf t0 n" using t0(1) by (auto simp: vt_inv_def)
    note T = vt_tableD [OF tbl]
    have "vt_home hf t0 key < n" unfolding vt_home_khome [OF T(2)] using T(4) by (intro vt_khome_less) simp
    then have "vt_map t0 (vt_key t0 (vt_home hf t0 key)) \<noteq> None"
      "vt_finds hf t' ((vt_map t0)(vt_key t0 (vt_home hf t0 key) := None))"
      using vt_failed_evict_loses_key [OF tbl _ _ ev(1,3)] ev(2) by (simp_all add: vt_live_def)
    then show ?thesis unfolding t0(2) by blast
  qed
qed

section \<open>An example table\<close>

text \<open>
  Keys 0 and 8 share bucket 0 of the eight buckets under the identity as hash function, and the
  insertion of 1 evicts the second of them from bucket 1.
\<close>

definition vt_id_hash :: "u32 \<Rightarrow> u64" where
  "vt_id_hash key = ucast key"

definition vt_example :: "(u32, u32) vt" where
  "vt_example = \<lparr>key_count = 3, buckets_mask = 7,
     buckets = [(0, 7), (1, 7), (0, 0), (8, 7), (0, 0), (0, 0), (0, 0), (0, 0)],
     metadata = [0x0802, 0x0FFF, 0, 0x07FF, 0, 0, 0, 0, 1, 0, 0, 0]\<rparr>"

lemma vt_example_run:
  "run_shim (vt_shim_ops vt_id_hash (=) (vt_good_mem 0 (0 :: u32)) 7) [Insert 0, Insert 8, Insert 1] vt_init = Some vt_example"
  by code_simp

lemmas vt_shim_histories = shim.history_simulated [OF iterable_shim.axioms(1) [OF vt_shim_keeps_contract]]
lemma vt_shim_lookups:
  assumes "length calls \<le> 0x7FF"
  shows "\<exists>t i. run_shim (vt_shim_ops hf (=) (vt_good_mem fk fv) dflt) calls (create_table (vt_shim_ops hf (=) (vt_good_mem fk fv) dflt)) = Some t \<and>
    sh_find (vt_shim_ops hf (=) (vt_good_mem fk fv) dflt) t key = Some i \<and>
    (is_itr_valid (vt_shim_ops hf (=) (vt_good_mem fk fv) dflt) t i \<longleftrightarrow> run_map dflt calls Map.empty key \<noteq> None) \<and>
    (is_itr_valid (vt_shim_ops hf (=) (vt_good_mem fk fv) dflt) t i \<longrightarrow>
      get_key_from_itr (vt_shim_ops hf (=) (vt_good_mem fk fv) dflt) t i = key \<and>
      run_map dflt calls Map.empty key = Some (get_value_from_itr (vt_shim_ops hf (=) (vt_good_mem fk fv) dflt) t i))"
  by (rule shim.history_lookup [OF iterable_shim.axioms(1) [OF vt_shim_keeps_contract] assms])

lemma vt_example_inv: "vt_inv vt_id_hash vt_example" and vt_example_map: "vt_map vt_example = [0 \<mapsto> 7, 8 \<mapsto> 7, 1 \<mapsto> 7]"
proof -
  let ?calls = "[Insert 0, Insert 8, Insert 1] :: u32 shim_call list"
  have "vt_inv vt_id_hash vt_example \<and> vt_map vt_example = run_map 7 ?calls (vt_map vt_init)"
    using vt_shim_histories [of vt_id_hash vt_init ?calls 0 0 "7 :: u32"] unfolding vt_example_run by simp
  then show "vt_inv vt_id_hash vt_example" and "vt_map vt_example = [0 \<mapsto> 7, 8 \<mapsto> 7, 1 \<mapsto> 7]" by simp_all
qed

lemma vt_example_table: "vt_table vt_id_hash vt_example 8"
proof -
  have "vt_example \<noteq> vt_init" by (simp add: vt_example_def vt_init_def)
  then obtain n where tbl: "vt_table vt_id_hash vt_example n" using vt_example_inv by (auto simp: vt_inv_def)
  have "n = 8" using vt_tableD(9) [OF tbl] by (simp add: vt_bucket_count_def vt_example_def)
  then show ?thesis using tbl by simp
qed

section \<open>Properties\<close>

text \<open>C5: Verstable behind its shim implements a map, for every type of keys and values, every hash function
  and every default value, with equality as comparison: after any sequence of up to 2047 insertions and
  erasures, starting from a new table and with an allocator that gives what fits in the address space,
  every call has returned, and \<open>find\<close> gives an iterator that is not the end exactly for the keys the
  same sequence leaves in the map, with the value the shim stored. The bound is what the displacement
  limit of a chain guarantees whatever the hash codes are, also when all of them are equal.\<close>

theorem verstable_shim_implements_map:
  assumes "length calls \<le> 2047"
  shows "\<exists>t itr.
    run_shim (vt_shim_ops hf (=) (vt_good_mem fk fv) dflt) calls vt_init = Some t \<and>
    vt_get hf (=) t key = Some itr \<and>
    (\<not> vt_is_end t itr \<longleftrightarrow> run_map dflt calls Map.empty key \<noteq> None) \<and>
    (\<not> vt_is_end t itr \<longrightarrow> fst (buckets t ! itr_bucket (the itr)) = key \<and>
       run_map dflt calls Map.empty key = Some (snd (buckets t ! itr_bucket (the itr))))"
proof -
  have "length calls \<le> 0x7FF" using assms by simp
  from vt_shim_lookups [OF this, of hf fk fv dflt key] show ?thesis by (simp add: vt_shim_ops_def)
qed

theorem verstable_shim_implements_map_witness:
  "\<exists>t itr.
    run_shim (vt_shim_ops hash_key_cstring cmpr_keys_cstring (vt_good_mem (mk_cstr []) 0) (7 :: u64))
      [Insert (mk_cstr [97]), Insert (mk_cstr [98]), Erase (mk_cstr [97])] vt_init = Some t \<and>
    vt_get hash_key_cstring cmpr_keys_cstring t (mk_cstr [98]) = Some itr \<and> \<not> vt_is_end t itr"
proof -
  have "mk_cstr [98] \<noteq> mk_cstr [97]" by (subst mk_cstr_inj) simp_all
  then show ?thesis
    using verstable_shim_implements_map [of "[Insert (mk_cstr [97]), Insert (mk_cstr [98]), Erase (mk_cstr [97])]"
        hash_key_cstring "mk_cstr []" 0 7 "mk_cstr [98]"] by (auto simp: bp_cstring.cmpr_is_eq)
qed

text \<open>C10: \<open>insert\<close> and \<open>get_or_insert\<close> terminate on every table and with every allocator that gives
  no more than \<open>2 ^ 60\<close> buckets: the loop of rehashes, each of which may itself double the bucket
  count several times, ends. The result is an iterator to the key in a table that satisfies the
  invariant, with the map updated (or, by \<open>get_or_insert\<close>, an existing value kept); or no iterator,
  and then an allocation failed, the arrays still hold every entry, and either the invariant holds and
  \<open>get\<close> sees all entries, or a failed eviction has disconnected one key and \<open>get\<close> sees all entries
  but that one.\<close>

theorem verstable_insert_terminates:
  assumes "vt_inv hf t" and "vt_mem_ok mem"
    and "op = (if replace then vt_insert else vt_get_or_insert)"
  shows "\<exists>t' itr. op hf (=) mem t key val = Some (t', itr) \<and>
    (case itr of
       Some i \<Rightarrow> vt_inv hf t' \<and> itr_bucket i < vt_bucket_count t' \<and> fst (buckets t' ! itr_bucket i) = key \<and>
         vt_map t' = (if vt_map t key \<noteq> None \<and> \<not> replace then vt_map t else (vt_map t)(key \<mapsto> val))
     | None \<Rightarrow> vt_map t' = vt_map t \<and> vt_map t key = None \<and> (\<exists>n. \<not> alloc_ok mem n) \<and>
         (vt_inv hf t' \<and> vt_finds hf t' (vt_map t) \<or>
          (\<exists>lost. vt_map t lost \<noteq> None \<and> vt_finds hf t' ((vt_map t)(lost := None)))))"
proof -
  have loop: "op hf (=) mem t key val = vt_insert_loop 64 hf (=) mem t key val replace"
    by (simp add: assms(3) vt_insert_def vt_get_or_insert_def)
  have one: "1 \<le> (64 :: nat)" by simp
  obtain t' itr where r: "vt_insert_loop 64 hf (=) mem t key val replace = Some (t', itr)"
    "case itr of
       Some i \<Rightarrow> \<exists>n. vt_inserted hf n t key val replace t' i
     | None \<Rightarrow> vt_content_ok t' \<and> vt_map t' = vt_map t \<and> key_count t' = key_count t \<and> vt_map t key = None \<and>
         (\<exists>n. \<not> alloc_ok mem n \<and> (key_count t < 0x7FF \<longrightarrow> n < 2 ^ 13))"
    using vt_insert_loop_result [OF assms(1,2) vt_request_fuel [OF assms(1)] one, of key val replace] by blast
  show ?thesis
  proof (cases itr)
    case None
    then show ?thesis
      using r vt_failed_insert [OF _ assms(1,2), of 64 key val replace t'] unfolding loop
      by (intro exI [of _ t'] exI [of _ itr]) auto
  next
    case (Some i)
    then obtain n where i: "vt_inserted hf n t key val replace t' i" using r(2) by auto
    then have tbl: "vt_table hf t' n" by (simp add: vt_inserted_def)
    then have "vt_inv hf t'" by (auto simp: vt_inv_def)
    then show ?thesis using r(1) Some i unfolding loop
      by (intro exI [of _ t'] exI [of _ itr]) (simp add: vt_inserted_def vt_tableD(9) [OF tbl])
  qed
qed

theorem verstable_insert_terminates_witness:
  "\<exists>t' itr. vt_insert hash_key_uint32 (=) ((vt_good_mem 0 (0 :: u32))\<lparr>alloc_ok := (\<lambda>_. False)\<rparr>) vt_init 5 7 = Some (t', itr) \<and>
    vt_map t' 6 = None"
proof -
  have "vt_mem_ok ((vt_good_mem 0 (0 :: u32))\<lparr>alloc_ok := (\<lambda>_. False)\<rparr> :: (u32, u32) vt_mem)" by (simp add: vt_mem_ok_def)
  from verstable_insert_terminates [OF vt_inv_init this, of vt_insert True hash_key_uint32 5 7]
  show ?thesis by (auto split: option.splits)
qed

text \<open>C11: erasing through an iterator while iterating, with the home bucket known or not, removes the
  key and no other, and \<open>erase_itr\<close> loses no key still to be visited and repeats none: the keys in the
  buckets from the iterator it returns on are exactly those that were in the buckets after the erased
  one.\<close>

theorem verstable_erase_itr_keeps_unvisited:
  assumes "vt_table hf t n" and "itr_bucket i < n" and "vt_live t (itr_bucket i)"
    and "home_bucket i = None \<or> home_bucket i = Some (vt_home hf t (vt_key t (itr_bucket i)))"
  shows "\<exists>t' i'. vt_erase_itr hf t i = Some (t', Some i') \<and> vt_table hf t' n \<and>
    vt_map t' = (vt_map t)(vt_key t (itr_bucket i) := None) \<and> key_count t = Suc (key_count t') \<and>
    vt_key t' ` {b. itr_bucket i' \<le> b \<and> b < n \<and> vt_live t' b} = vt_key t ` {b. itr_bucket i < b \<and> b < n \<and> vt_live t b}"
proof -
  let ?b = "itr_bucket i"
  note T = vt_tableD [OF assms(1)]
  obtain t' l where r: "vt_erase_itr_raw hf t i = Some (t', \<not> ?b < l)" "l \<in> vt_used t n" "vt_table hf t' n"
    "vt_map t' = (vt_map t)(vt_key t ?b := None)" "key_count t = Suc (key_count t')"
    "buckets t' = (buckets t)[?b := buckets t ! l]" "\<forall>j < n. vt_live t' j \<longleftrightarrow> vt_live t j \<and> j \<noteq> l"
    using vt_erase_itr_raw_result [OF assms(1-3) refl] assms(4) vt_home_khome [OF T(2)] by auto
  have len: "length (buckets t) = n" using T(2) by (simp add: vt_shape_def)
  have key: "vt_key t' j = (if j = ?b then vt_key t l else vt_key t j)" for j
    using len assms(2) by (simp add: vt_key_def r(6) nth_list_update)
  show ?thesis
  proof (cases "?b < l")
    case True
    have "vt_erase_itr hf t i = Some (t', Some i)" using r(1) True by (simp add: vt_erase_itr_def)
    moreover have "vt_key t' ` {b. ?b \<le> b \<and> b < n \<and> vt_live t' b} = vt_key t ` {b. ?b < b \<and> b < n \<and> vt_live t b}"
    proof -
      let ?R = "{b. ?b < b \<and> b < n \<and> vt_live t b} - {l}"
      have A: "{b. ?b \<le> b \<and> b < n \<and> vt_live t' b} = insert ?b ?R"
        using r(2,7) True assms(2,3) by (auto simp: vt_used_def)
      have B: "insert l ?R = {b. ?b < b \<and> b < n \<and> vt_live t b}"
        by (rule insert_Diff) (use r(2) True in \<open>simp add: vt_used_def\<close>)
      have "vt_key t' ` ?R = vt_key t ` ?R" by (rule image_cong) (auto simp: key)
      moreover have "vt_key t' ?b = vt_key t l" by (simp add: key)
      ultimately have "vt_key t' ` insert ?b ?R = vt_key t ` insert l ?R" by (simp only: image_insert)
      then show ?thesis unfolding A B .
    qed
    ultimately show ?thesis using r(3-5) by blast
  next
    case False
    note T' = vt_tableD [OF r(3)]
    define c where "c = (case filter (vt_live t') [Suc ?b..<n] of [] \<Rightarrow> n | j # _ \<Rightarrow> j)"
    have "vt_fast_forward n t' (Suc ?b) = Some (Some \<lparr>itr_bucket = c, home_bucket = None\<rparr>)"
      unfolding c_def by (rule vt_fast_forward_result [OF T'(8)]) (use assms(2) in auto)
    then have "vt_erase_itr hf t i = Some (t', Some \<lparr>itr_bucket = c, home_bucket = None\<rparr>)"
      using r(1) False by (simp add: vt_erase_itr_def vt_next_def T'(9))
    moreover have "{b. c \<le> b \<and> b < n \<and> vt_live t' b} = {b. ?b < b \<and> b < n \<and> vt_live t b}"
    proof -
      have "{b. c \<le> b \<and> b < n \<and> vt_live t' b} = {b. Suc ?b \<le> b \<and> b < n \<and> vt_live t' b}"
      proof (cases "filter (vt_live t') [Suc ?b..<n]")
        case Nil
        then have "\<not> vt_live t' b" if "Suc ?b \<le> b" "b < n" for b using that by (simp add: filter_empty_conv)
        then show ?thesis using Nil by (auto simp: c_def)
      next
        case (Cons j js)
        have set_eq: "{b. Suc ?b \<le> b \<and> b < n \<and> vt_live t' b} = insert j (set js)"
          using arg_cong [OF Cons, of set] by auto
        have "sorted (j # js)" unfolding Cons [symmetric] by (intro sorted_wrt_filter) simp
        then have least: "\<And>b. b \<in> insert j (set js) \<Longrightarrow> j \<le> b" by auto
        have cj: "c = j" using Cons by (simp add: c_def)
        have "Suc ?b \<le> j" using filter_upt_hd [OF Cons] by simp
        then show ?thesis using least unfolding cj set_eq [symmetric] by auto
      qed
      then show ?thesis using r(7) False by auto
    qed
    moreover have "vt_key t' ` {b. ?b < b \<and> b < n \<and> vt_live t b} = vt_key t ` {b. ?b < b \<and> b < n \<and> vt_live t b}"
      by (rule image_cong) (auto simp: key)
    ultimately show ?thesis using r(3-5) by (intro exI [of _ t'] exI [of _ "\<lparr>itr_bucket = c, home_bucket = None\<rparr>"]) simp
  qed
qed


theorem verstable_erase_itr_keeps_unvisited_witness:
  "\<exists>t' i'. vt_erase_itr vt_id_hash vt_example \<lparr>itr_bucket = 0, home_bucket = None\<rparr> = Some (t', Some i') \<and>
    vt_map t' = [8 \<mapsto> 7, 1 \<mapsto> 7] \<and>
    vt_key t' ` {b. itr_bucket i' \<le> b \<and> b < 8 \<and> vt_live t' b} = vt_key vt_example ` {b. 0 < b \<and> b < 8 \<and> vt_live vt_example b}"
proof -
  have "vt_live vt_example 0" "vt_key vt_example 0 = 0"
    by (simp_all add: vt_live_def vt_key_def vt_example_def VT_EMPTY_def)
  moreover have "(vt_map vt_example)(0 := None) = [8 \<mapsto> 7, 1 \<mapsto> 7]" unfolding vt_example_map by (simp add: fun_eq_iff)
  ultimately show ?thesis
    using verstable_erase_itr_keeps_unvisited [OF vt_example_table, of "\<lparr>itr_bucket = 0, home_bucket = None\<rparr>"] by auto
qed

text \<open>The version of \<open>vt_first_nonzero_uint16\<close> for compilers without intrinsics gives the same
  result as the one that counts trailing zeros: for every word that is not 0, the index of its first
  16-bit field that is not 0.\<close>

theorem verstable_first_nonzero_equivalence:
  assumes "val \<noteq> 0"
  shows "vt_first_nonzero_portable val = vt_first_nonzero_uint16 val \<and>
    vt_first_nonzero_uint16 val < 4 \<and> ucast (drop_bit (16 * vt_first_nonzero_uint16 val) val) \<noteq> (0 :: u16) \<and>
    (\<forall>g < vt_first_nonzero_uint16 val. ucast (drop_bit (16 * g) val) = (0 :: u16))"
  using first_field_unique [OF portable_field [OF assms] first_nonzero_field [OF assms]] first_nonzero_field [OF assms]
  by (simp add: first_field_def field16_def)

theorem verstable_first_nonzero_equivalence_witness:
  "vt_first_nonzero_portable 0x0802000000000000 = vt_first_nonzero_uint16 0x0802000000000000"
  using verstable_first_nonzero_equivalence [of "0x0802000000000000"] by simp

text \<open>\<open>reserve\<close> and \<open>shrink\<close> terminate, keep the invariant and every entry with any allocator, and
  leave the table alone when they fail; a \<open>reserve\<close> that succeeds makes enough buckets for the size, a
  \<open>shrink\<close> of an empty table frees its buckets.\<close>

theorem verstable_resize_keeps_entries:
  assumes "vt_inv hf t" and "vt_mem_ok mem" and "sz \<le> 2 ^ 60" and "key_count t \<le> 2 ^ 60"
  shows "(\<exists>t' ok. vt_reserve hf (=) mem t sz = Some (t', ok) \<and> vt_inv hf t' \<and> vt_map t' = vt_map t \<and>
      (if ok then 8 * sz \<le> 7 * vt_bucket_count t' else t' = t)) \<and>
    (\<exists>t' ok. vt_shrink hf (=) mem t = Some (t', ok) \<and> vt_inv hf t' \<and> vt_map t' = vt_map t \<and>
      (key_count t = 0 \<longrightarrow> t' = vt_init) \<and> (\<not> ok \<longrightarrow> t' = t))"
  using vt_reserve_result [OF assms(1-3)] vt_shrink_result [OF assms(1,2,4)] by (rule conjI)

theorem verstable_resize_keeps_entries_witness:
  "\<exists>t' ok. vt_reserve vt_id_hash (=) (vt_good_mem 0 (0 :: u32)) vt_example 100 = Some (t', ok) \<and>
    vt_map t' = [0 \<mapsto> 7, 8 \<mapsto> 7, 1 \<mapsto> 7]"
proof -
  have "key_count vt_example \<le> 2 ^ 60" by (simp add: vt_example_def)
  then show ?thesis
    using verstable_resize_keeps_entries [OF vt_example_inv vt_good_mem_ok, of 100 0 0] unfolding vt_example_map by auto
qed

text \<open>\<open>get\<close> finds exactly the keys of the map, and \<open>erase\<close> removes the key and nothing else and
  says whether it was there; \<open>clear\<close> empties the table and keeps its buckets.\<close>

theorem verstable_get_erase_clear:
  assumes "vt_inv hf t"
  shows "(\<exists>itr. vt_get hf (=) t key = Some itr \<and>
      (case vt_map t key of None \<Rightarrow> itr = vt_end_itr
       | Some v \<Rightarrow> \<exists>b. itr = vt_itr_at b (vt_home hf t key) \<and> b < vt_bucket_count t \<and> buckets t ! b = (key, v))) \<and>
    (\<exists>t'. vt_erase hf (=) t key = Some (t', vt_map t key \<noteq> None) \<and> vt_inv hf t' \<and> vt_map t' = (vt_map t)(key := None)) \<and>
    vt_inv hf (vt_clear t) \<and> vt_map (vt_clear t) = Map.empty \<and> vt_bucket_count (vt_clear t) = vt_bucket_count t"
proof (intro conjI vt_clear_result [OF assms])
  have home: "vt_home hf t key = vt_khome hf (vt_bucket_count t) key" if "t \<noteq> vt_init"
  proof -
    obtain n where "vt_table hf t n" using assms \<open>t \<noteq> vt_init\<close> by (auto simp: vt_inv_def)
    then show ?thesis using vt_home_khome [of t n hf key] vt_tableD(2,9) [of hf t n] by simp
  qed
  show "\<exists>itr. vt_get hf (=) t key = Some itr \<and>
      (case vt_map t key of None \<Rightarrow> itr = vt_end_itr
       | Some v \<Rightarrow> \<exists>b. itr = vt_itr_at b (vt_home hf t key) \<and> b < vt_bucket_count t \<and> buckets t ! b = (key, v))"
  proof (cases "t = vt_init")
    case True
    then show ?thesis by (simp add: vt_get_init vt_end_itr_def)
  next
    case False
    show ?thesis
      using vt_get_result [OF assms, of key] home [OF False] by (auto simp: vt_end_itr_def vt_itr_at_def split: option.splits)
  qed
  show "\<exists>t'. vt_erase hf (=) t key = Some (t', vt_map t key \<noteq> None) \<and> vt_inv hf t' \<and> vt_map t' = (vt_map t)(key := None)"
    using vt_erase_result [OF assms, of key] by blast
qed

theorem verstable_get_erase_clear_witness:
  "\<exists>t'. vt_erase vt_id_hash (=) vt_example 8 = Some (t', True) \<and> vt_map t' = [0 \<mapsto> 7, 1 \<mapsto> 7]"
proof -
  have "[0 \<mapsto> 7, 8 \<mapsto> 7, 1 \<mapsto> 7](8 := None) = [0 \<mapsto> 7, (1 :: u32) \<mapsto> (7 :: u32)]" by (simp add: fun_eq_iff)
  then show ?thesis
    using verstable_get_erase_clear [OF vt_example_inv, of 8] unfolding vt_example_map by auto
qed

end
