(* ===== verification/Utf8_Tables.thy ===== *)
theory Utf8_Tables
  imports Prelude
begin

text \<open>
  The tables of STC's UTF-8 code, \<open>src/shims/stc_hmap/stc/priv/utf8_tab.c\<close> and \<open>utf8_prv.c\<close>: the
  decoder automaton, the case mappings and the general categories and scripts. Code points in the
  tables are 16-bit numbers.
\<close>

section \<open>The decoder automaton\<close>

text \<open>The types of the 256 bytes, then twelve successors for each of the nine states 0, 12, ..., 96.\<close>

definition utf8_byte_types :: "u8 list" where
  "utf8_byte_types = [
    0, 0, 0, 0, 0, 0, 0, 0, 0, 0, 0, 0, 0, 0, 0, 0, 0, 0, 0, 0, 0, 0, 0, 0, 0, 0, 0, 0, 0, 0, 0, 0,
    0, 0, 0, 0, 0, 0, 0, 0, 0, 0, 0, 0, 0, 0, 0, 0, 0, 0, 0, 0, 0, 0, 0, 0, 0, 0, 0, 0, 0, 0, 0, 0,
    0, 0, 0, 0, 0, 0, 0, 0, 0, 0, 0, 0, 0, 0, 0, 0, 0, 0, 0, 0, 0, 0, 0, 0, 0, 0, 0, 0, 0, 0, 0, 0,
    0, 0, 0, 0, 0, 0, 0, 0, 0, 0, 0, 0, 0, 0, 0, 0, 0, 0, 0, 0, 0, 0, 0, 0, 0, 0, 0, 0, 0, 0, 0, 0,
    1, 1, 1, 1, 1, 1, 1, 1, 1, 1, 1, 1, 1, 1, 1, 1, 9, 9, 9, 9, 9, 9, 9, 9, 9, 9, 9, 9, 9, 9, 9, 9,
    7, 7, 7, 7, 7, 7, 7, 7, 7, 7, 7, 7, 7, 7, 7, 7, 7, 7, 7, 7, 7, 7, 7, 7, 7, 7, 7, 7, 7, 7, 7, 7,
    8, 8, 2, 2, 2, 2, 2, 2, 2, 2, 2, 2, 2, 2, 2, 2, 2, 2, 2, 2, 2, 2, 2, 2, 2, 2, 2, 2, 2, 2, 2, 2,
    10, 3, 3, 3, 3, 3, 3, 3, 3, 3, 3, 3, 3, 4, 3, 3, 11, 6, 6, 6, 5, 8, 8, 8, 8, 8, 8, 8, 8, 8, 8, 8]"

definition utf8_transitions :: "u8 list" where
  "utf8_transitions = [
    0, 12, 24, 36, 60, 96, 84, 12, 12, 12, 48, 72, 12, 12, 12, 12, 12, 12, 12, 12, 12, 12, 12, 12,
    12, 0, 12, 12, 12, 12, 12, 0, 12, 0, 12, 12, 12, 24, 12, 12, 12, 12, 12, 24, 12, 24, 12, 12,
    12, 12, 12, 12, 12, 12, 12, 24, 12, 12, 12, 12, 12, 24, 12, 12, 12, 12, 12, 12, 12, 24, 12, 12,
    12, 12, 12, 12, 12, 12, 12, 36, 12, 36, 12, 12, 12, 36, 12, 12, 12, 12, 12, 36, 12, 36, 12, 12,
    12, 36, 12, 12, 12, 12, 12, 12, 12, 12, 12, 12]"

definition utf8_dtab :: "u8 list" where
  "utf8_dtab = utf8_byte_types @ utf8_transitions"

section \<open>Case mappings\<close>

text \<open>
  \<open>struct CaseMapping\<close>: the code points from \<open>map_c1\<close> to \<open>map_c2\<close> map to those that end at \<open>map_m2\<close>;
  a distance of one marks alternating upper and lower case.
\<close>

record CaseMapping =
  map_c1 :: nat
  map_c2 :: nat
  map_m2 :: nat

definition CM :: "nat \<Rightarrow> nat \<Rightarrow> nat \<Rightarrow> CaseMapping" where
  "CM c1 c2 m2 = \<lparr>map_c1 = c1, map_c2 = c2, map_m2 = m2\<rparr>"

definition casemappings_latin :: "CaseMapping list" where
  "casemappings_latin = [
    CM 0x0041 0x005A 0x007A, CM 0x00B5 0x00B5 0x03BC, CM 0x00C0 0x00D6 0x00F6,
    CM 0x00D8 0x00DE 0x00FE, CM 0x0100 0x012E 0x012F, CM 0x0132 0x0136 0x0137,
    CM 0x0139 0x0147 0x0148, CM 0x014A 0x0176 0x0177, CM 0x0178 0x0178 0x00FF,
    CM 0x0179 0x017D 0x017E, CM 0x017F 0x017F 0x0073, CM 0x0181 0x0181 0x0253,
    CM 0x0182 0x0184 0x0185, CM 0x0186 0x0186 0x0254, CM 0x0187 0x0187 0x0188,
    CM 0x0189 0x018A 0x0257, CM 0x018B 0x018B 0x018C, CM 0x018E 0x018E 0x01DD,
    CM 0x018F 0x018F 0x0259, CM 0x0190 0x0190 0x025B, CM 0x0191 0x0191 0x0192,
    CM 0x0193 0x0193 0x0260, CM 0x0194 0x0194 0x0263, CM 0x0196 0x0196 0x0269,
    CM 0x0197 0x0197 0x0268, CM 0x0198 0x0198 0x0199, CM 0x019C 0x019C 0x026F,
    CM 0x019D 0x019D 0x0272, CM 0x019F 0x019F 0x0275, CM 0x01A0 0x01A4 0x01A5,
    CM 0x01A6 0x01A6 0x0280, CM 0x01A7 0x01A7 0x01A8, CM 0x01A9 0x01A9 0x0283,
    CM 0x01AC 0x01AC 0x01AD, CM 0x01AE 0x01AE 0x0288, CM 0x01AF 0x01AF 0x01B0,
    CM 0x01B1 0x01B2 0x028B, CM 0x01B3 0x01B5 0x01B6, CM 0x01B7 0x01B7 0x0292,
    CM 0x01B8 0x01B8 0x01B9, CM 0x01BC 0x01BC 0x01BD, CM 0x01C4 0x01C4 0x01C6,
    CM 0x01C5 0x01C5 0x01C6, CM 0x01C7 0x01C7 0x01C9, CM 0x01C8 0x01C8 0x01C9,
    CM 0x01CA 0x01CA 0x01CC, CM 0x01CB 0x01DB 0x01DC, CM 0x01DE 0x01EE 0x01EF,
    CM 0x01F1 0x01F1 0x01F3, CM 0x01F2 0x01F4 0x01F5, CM 0x01F6 0x01F6 0x0195,
    CM 0x01F7 0x01F7 0x01BF, CM 0x01F8 0x021E 0x021F, CM 0x0220 0x0220 0x019E,
    CM 0x0222 0x0232 0x0233, CM 0x023A 0x023A 0x2C65, CM 0x023B 0x023B 0x023C,
    CM 0x023D 0x023D 0x019A, CM 0x023E 0x023E 0x2C66, CM 0x0241 0x0241 0x0242,
    CM 0x0243 0x0243 0x0180, CM 0x0244 0x0244 0x0289, CM 0x0245 0x0245 0x028C,
    CM 0x0246 0x024E 0x024F, CM 0x0345 0x0345 0x03B9]"

definition casemappings_greek_on :: "CaseMapping list" where
  "casemappings_greek_on = [
    CM 0x0370 0x0372 0x0373, CM 0x0376 0x0376 0x0377, CM 0x037F 0x037F 0x03F3,
    CM 0x0386 0x0386 0x03AC, CM 0x0388 0x038A 0x03AF, CM 0x038C 0x038C 0x03CC,
    CM 0x038E 0x038F 0x03CE, CM 0x0391 0x03A1 0x03C1, CM 0x03A3 0x03AB 0x03CB,
    CM 0x03C2 0x03C2 0x03C3, CM 0x03CF 0x03CF 0x03D7, CM 0x03D0 0x03D0 0x03B2,
    CM 0x03D1 0x03D1 0x03B8, CM 0x03D5 0x03D5 0x03C6, CM 0x03D6 0x03D6 0x03C0,
    CM 0x03D8 0x03EE 0x03EF, CM 0x03F0 0x03F0 0x03BA, CM 0x03F1 0x03F1 0x03C1,
    CM 0x03F4 0x03F4 0x03B8, CM 0x03F5 0x03F5 0x03B5, CM 0x03F7 0x03F7 0x03F8,
    CM 0x03F9 0x03F9 0x03F2, CM 0x03FA 0x03FA 0x03FB, CM 0x03FD 0x03FF 0x037D,
    CM 0x0400 0x040F 0x045F, CM 0x0410 0x042F 0x044F, CM 0x0460 0x0480 0x0481,
    CM 0x048A 0x04BE 0x04BF, CM 0x04C0 0x04C0 0x04CF, CM 0x04C1 0x04CD 0x04CE,
    CM 0x04D0 0x052E 0x052F, CM 0x0531 0x0556 0x0586, CM 0x10A0 0x10C5 0x2D25,
    CM 0x10C7 0x10C7 0x2D27, CM 0x10CD 0x10CD 0x2D2D, CM 0x13F8 0x13FD 0x13F5,
    CM 0x1C80 0x1C80 0x0432, CM 0x1C81 0x1C81 0x0434, CM 0x1C82 0x1C82 0x043E,
    CM 0x1C83 0x1C84 0x0442, CM 0x1C85 0x1C85 0x0442, CM 0x1C86 0x1C86 0x044A,
    CM 0x1C87 0x1C87 0x0463, CM 0x1C88 0x1C88 0xA64B, CM 0x1C90 0x1CBA 0x10FA,
    CM 0x1CBD 0x1CBF 0x10FF, CM 0x1E00 0x1E94 0x1E95, CM 0x1E9B 0x1E9B 0x1E61,
    CM 0x1E9E 0x1E9E 0x00DF, CM 0x1EA0 0x1EFE 0x1EFF, CM 0x1F08 0x1F0F 0x1F07,
    CM 0x1F18 0x1F1D 0x1F15, CM 0x1F28 0x1F2F 0x1F27, CM 0x1F38 0x1F3F 0x1F37,
    CM 0x1F48 0x1F4D 0x1F45, CM 0x1F59 0x1F5F 0x1F57, CM 0x1F68 0x1F6F 0x1F67,
    CM 0x1F88 0x1F8F 0x1F87, CM 0x1F98 0x1F9F 0x1F97, CM 0x1FA8 0x1FAF 0x1FA7,
    CM 0x1FB8 0x1FB9 0x1FB1, CM 0x1FBA 0x1FBB 0x1F71, CM 0x1FBC 0x1FBC 0x1FB3,
    CM 0x1FBE 0x1FBE 0x03B9, CM 0x1FC8 0x1FCB 0x1F75, CM 0x1FCC 0x1FCC 0x1FC3,
    CM 0x1FD8 0x1FD9 0x1FD1, CM 0x1FDA 0x1FDB 0x1F77, CM 0x1FE8 0x1FE9 0x1FE1,
    CM 0x1FEA 0x1FEB 0x1F7B, CM 0x1FEC 0x1FEC 0x1FE5, CM 0x1FF8 0x1FF9 0x1F79,
    CM 0x1FFA 0x1FFB 0x1F7D, CM 0x1FFC 0x1FFC 0x1FF3, CM 0x2126 0x2126 0x03C9,
    CM 0x212A 0x212A 0x006B, CM 0x212B 0x212B 0x00E5, CM 0x2132 0x2132 0x214E,
    CM 0x2160 0x216F 0x217F, CM 0x2183 0x2183 0x2184, CM 0x24B6 0x24CF 0x24E9,
    CM 0x2C00 0x2C2F 0x2C5F, CM 0x2C60 0x2C60 0x2C61, CM 0x2C62 0x2C62 0x026B,
    CM 0x2C63 0x2C63 0x1D7D, CM 0x2C64 0x2C64 0x027D, CM 0x2C67 0x2C6B 0x2C6C,
    CM 0x2C6D 0x2C6D 0x0251, CM 0x2C6E 0x2C6E 0x0271, CM 0x2C6F 0x2C6F 0x0250,
    CM 0x2C70 0x2C70 0x0252, CM 0x2C72 0x2C72 0x2C73, CM 0x2C75 0x2C75 0x2C76,
    CM 0x2C7E 0x2C7F 0x0240, CM 0x2C80 0x2CE2 0x2CE3, CM 0x2CEB 0x2CED 0x2CEE,
    CM 0x2CF2 0x2CF2 0x2CF3, CM 0xA640 0xA66C 0xA66D, CM 0xA680 0xA69A 0xA69B,
    CM 0xA722 0xA72E 0xA72F, CM 0xA732 0xA76E 0xA76F, CM 0xA779 0xA77B 0xA77C,
    CM 0xA77D 0xA77D 0x1D79, CM 0xA77E 0xA786 0xA787, CM 0xA78B 0xA78B 0xA78C,
    CM 0xA78D 0xA78D 0x0265, CM 0xA790 0xA792 0xA793, CM 0xA796 0xA7A8 0xA7A9,
    CM 0xA7AA 0xA7AA 0x0266, CM 0xA7AB 0xA7AB 0x025C, CM 0xA7AC 0xA7AC 0x0261,
    CM 0xA7AD 0xA7AD 0x026C, CM 0xA7AE 0xA7AE 0x026A, CM 0xA7B0 0xA7B0 0x029E,
    CM 0xA7B1 0xA7B1 0x0287, CM 0xA7B2 0xA7B2 0x029D, CM 0xA7B3 0xA7B3 0xAB53,
    CM 0xA7B4 0xA7C2 0xA7C3, CM 0xA7C4 0xA7C4 0xA794, CM 0xA7C5 0xA7C5 0x0282,
    CM 0xA7C6 0xA7C6 0x1D8E, CM 0xA7C7 0xA7C9 0xA7CA, CM 0xA7D0 0xA7D0 0xA7D1,
    CM 0xA7D6 0xA7D8 0xA7D9, CM 0xA7F5 0xA7F5 0xA7F6, CM 0xAB70 0xABBF 0x13EF,
    CM 0xFF21 0xFF3A 0xFF5A]"

definition casemappings_extra :: "CaseMapping list" where
  "casemappings_extra = [
    CM 0x0130 0x0130 0x0069, CM 0x01CD 0x01DB 0x01DC, CM 0x01F4 0x01F4 0x01F5,
    CM 0x13A0 0x13EF 0xABBF, CM 0x13F0 0x13F5 0x13FD, CM 0x039C 0x039C 0x00B5,
    CM 0x0049 0x0049 0x0131, CM 0x0053 0x0053 0x017F, CM 0x03A3 0x03A3 0x03C2,
    CM 0x0392 0x0392 0x03D0, CM 0x0398 0x0398 0x03D1, CM 0x03A6 0x03A6 0x03D5,
    CM 0x03A0 0x03A0 0x03D6, CM 0x039A 0x039A 0x03F0, CM 0x03A1 0x03A1 0x03F1,
    CM 0x0395 0x0395 0x03F5, CM 0x0412 0x0412 0x1C80, CM 0x0414 0x0414 0x1C81,
    CM 0x041E 0x041E 0x1C82, CM 0x0421 0x0422 0x1C84, CM 0x0422 0x0422 0x1C85,
    CM 0x042A 0x042A 0x1C86, CM 0x0462 0x0462 0x1C87, CM 0xA64A 0xA64A 0x1C88,
    CM 0x1E60 0x1E60 0x1E9B, CM 0x0399 0x0399 0x1FBE]"

definition casemappings :: "CaseMapping list" where
  "casemappings = casemappings_latin @ casemappings_greek_on @ casemappings_extra"

definition casefold_len :: nat where "casefold_len = 192"

definition upcase_ind :: "nat list" where
  "upcase_ind = [
    0, 2, 3, 4, 192, 5, 6, 7, 8, 9, 11, 12, 13, 14, 15, 16, 17, 18, 19, 20, 21, 22, 23, 24, 25, 26,
    27, 28, 29, 30, 31, 32, 33, 34, 35, 36, 37, 38, 39, 40, 41, 43, 45, 193, 47, 48, 194, 50, 51,
    52, 53, 54, 55, 56, 57, 58, 59, 60, 61, 62, 63, 65, 66, 67, 68, 69, 70, 71, 72, 73, 75, 80, 83,
    85, 86, 87, 88, 89, 90, 91, 92, 93, 94, 95, 96, 97, 98, 99, 195, 196, 109, 110, 111, 113, 114,
    115, 116, 117, 118, 119, 120, 121, 125, 126, 129, 131, 132, 133, 134, 135, 136, 137, 139, 140,
    141, 142, 144, 146, 147, 148, 149, 150, 151, 152, 153, 154, 155, 156, 157, 158, 159, 160, 161,
    162, 163, 164, 165, 166, 167, 168, 169, 170, 171, 172, 173, 174, 175, 176, 177, 178, 179, 180,
    181, 182, 183, 184, 185, 186, 187, 188, 189, 191]"

definition lowcase_ind :: "nat list" where
  "lowcase_ind = [
    0, 197, 113, 2, 3, 8, 4, 198, 5, 6, 7, 9, 199, 60, 12, 14, 16, 20, 50, 25, 57, 53, 29, 31, 33,
    35, 37, 39, 40, 51, 41, 43, 45, 193, 17, 47, 48, 194, 52, 54, 56, 158, 59, 63, 154, 152, 155,
    11, 13, 15, 18, 19, 174, 21, 175, 22, 170, 173, 24, 23, 177, 148, 176, 26, 153, 27, 28, 150,
    30, 184, 32, 179, 34, 61, 36, 62, 38, 180, 178, 65, 66, 88, 68, 69, 72, 200, 73, 70, 71, 201,
    202, 203, 204, 75, 80, 205, 206, 86, 67, 207, 85, 87, 90, 89, 91, 92, 94, 93, 95, 96, 109, 110,
    196, 208, 209, 210, 211, 212, 213, 214, 215, 167, 149, 185, 111, 216, 114, 115, 116, 117, 118,
    119, 120, 121, 126, 129, 132, 136, 134, 137, 122, 123, 124, 125, 127, 217, 130, 131, 133, 135,
    138, 142, 144, 146, 147, 55, 58, 151, 156, 157, 159, 160, 161, 97, 98, 99, 162, 163, 164, 165,
    166, 168, 169, 171, 183, 172, 182, 186, 187, 188, 189, 181, 195, 191]"

section \<open>Categories and scripts\<close>

text \<open>Pairs of the first and the last code point of a range.\<close>

definition Cc_range16 :: "(nat \<times> nat) list" where
  "Cc_range16 = [
    (0, 31), (127, 159)]"

definition Lt_range16 :: "(nat \<times> nat) list" where
  "Lt_range16 = [
    (453, 453), (456, 456), (459, 459), (498, 498), (8072, 8079), (8088, 8095), (8104, 8111),
    (8124, 8124), (8140, 8140), (8188, 8188)]"

definition Nd_range16 :: "(nat \<times> nat) list" where
  "Nd_range16 = [
    (48, 57), (1632, 1641), (1776, 1785), (1984, 1993), (2406, 2415), (2534, 2543), (2662, 2671),
    (2790, 2799), (2918, 2927), (3046, 3055), (3174, 3183), (3302, 3311), (3430, 3439),
    (3558, 3567), (3664, 3673), (3792, 3801), (3872, 3881), (4160, 4169), (4240, 4249),
    (6112, 6121), (6160, 6169), (6470, 6479), (6608, 6617), (6784, 6793), (6800, 6809),
    (6992, 7001), (7088, 7097), (7232, 7241), (7248, 7257), (42528, 42537), (43216, 43225),
    (43264, 43273), (43472, 43481), (43504, 43513), (43600, 43609), (44016, 44025), (65296, 65305)]"

definition Nl_range16 :: "(nat \<times> nat) list" where
  "Nl_range16 = [
    (5870, 5872), (8544, 8578), (8581, 8584), (12295, 12295), (12321, 12329), (12344, 12346),
    (42726, 42735)]"

definition Pc_range16 :: "(nat \<times> nat) list" where
  "Pc_range16 = [
    (95, 95), (8255, 8256), (8276, 8276), (65075, 65076), (65101, 65103), (65343, 65343)]"

definition Pd_range16 :: "(nat \<times> nat) list" where
  "Pd_range16 = [
    (45, 45), (1418, 1418), (1470, 1470), (5120, 5120), (6150, 6150), (8208, 8213), (11799, 11799),
    (11802, 11802), (11834, 11835), (11840, 11840), (11869, 11869), (12316, 12316), (12336, 12336),
    (12448, 12448), (65073, 65074), (65112, 65112), (65123, 65123), (65293, 65293)]"

definition Pf_range16 :: "(nat \<times> nat) list" where
  "Pf_range16 = [
    (187, 187), (8217, 8217), (8221, 8221), (8250, 8250), (11779, 11779), (11781, 11781),
    (11786, 11786), (11789, 11789), (11805, 11805), (11809, 11809)]"

definition Pi_range16 :: "(nat \<times> nat) list" where
  "Pi_range16 = [
    (171, 171), (8216, 8216), (8219, 8220), (8223, 8223), (8249, 8249), (11778, 11778),
    (11780, 11780), (11785, 11785), (11788, 11788), (11804, 11804), (11808, 11808)]"

definition Sc_range16 :: "(nat \<times> nat) list" where
  "Sc_range16 = [
    (36, 36), (162, 165), (1423, 1423), (1547, 1547), (2046, 2047), (2546, 2547), (2555, 2555),
    (2801, 2801), (3065, 3065), (3647, 3647), (6107, 6107), (8352, 8384), (43064, 43064),
    (65020, 65020), (65129, 65129), (65284, 65284), (65504, 65505), (65509, 65510)]"

definition Zl_range16 :: "(nat \<times> nat) list" where
  "Zl_range16 = [
    (8232, 8232)]"

definition Zp_range16 :: "(nat \<times> nat) list" where
  "Zp_range16 = [
    (8233, 8233)]"

definition Zs_range16 :: "(nat \<times> nat) list" where
  "Zs_range16 = [
    (32, 32), (160, 160), (5760, 5760), (8192, 8202), (8239, 8239), (8287, 8287), (12288, 12288)]"

definition Arabic_range16 :: "(nat \<times> nat) list" where
  "Arabic_range16 = [
    (1536, 1540), (1542, 1547), (1549, 1562), (1564, 1566), (1568, 1599), (1601, 1610),
    (1622, 1647), (1649, 1756), (1758, 1791), (1872, 1919), (2160, 2190), (2192, 2193),
    (2200, 2273), (2275, 2303), (64336, 64450), (64467, 64829), (64832, 64911), (64914, 64967),
    (64975, 64975), (65008, 65023), (65136, 65140), (65142, 65276)]"

definition Cyrillic_range16 :: "(nat \<times> nat) list" where
  "Cyrillic_range16 = [
    (1024, 1156), (1159, 1327), (7296, 7304), (7467, 7467), (7544, 7544), (11744, 11775),
    (42560, 42655), (65070, 65071)]"

definition Devanagari_range16 :: "(nat \<times> nat) list" where
  "Devanagari_range16 = [
    (2304, 2384), (2389, 2403), (2406, 2431), (43232, 43263)]"

definition Greek_range16 :: "(nat \<times> nat) list" where
  "Greek_range16 = [
    (880, 883), (885, 887), (890, 893), (895, 895), (900, 900), (902, 902), (904, 906), (908, 908),
    (910, 929), (931, 993), (1008, 1023), (7462, 7466), (7517, 7521), (7526, 7530), (7615, 7615),
    (7936, 7957), (7960, 7965), (7968, 8005), (8008, 8013), (8016, 8023), (8025, 8025),
    (8027, 8027), (8029, 8029), (8031, 8061), (8064, 8116), (8118, 8132), (8134, 8147),
    (8150, 8155), (8157, 8175), (8178, 8180), (8182, 8190), (8486, 8486), (43877, 43877)]"

definition Han_range16 :: "(nat \<times> nat) list" where
  "Han_range16 = [
    (11904, 11929), (11931, 12019), (12032, 12245), (12293, 12293), (12295, 12295), (12321, 12329),
    (12344, 12347), (13312, 19903), (19968, 40959), (63744, 64109), (64112, 64217)]"

definition Latin_range16 :: "(nat \<times> nat) list" where
  "Latin_range16 = [
    (65, 90), (97, 122), (170, 170), (186, 186), (192, 214), (216, 246), (248, 696), (736, 740),
    (7424, 7461), (7468, 7516), (7522, 7525), (7531, 7543), (7545, 7614), (7680, 7935),
    (8305, 8305), (8319, 8319), (8336, 8348), (8490, 8491), (8498, 8498), (8526, 8526),
    (8544, 8584), (11360, 11391), (42786, 42887), (42891, 42954), (42960, 42961), (42963, 42963),
    (42965, 42969), (42994, 43007), (43824, 43866), (43868, 43876), (43878, 43881), (64256, 64262),
    (65313, 65338), (65345, 65370)]"

datatype utf8_group =
    U8G_Cc | U8G_Lt | U8G_Nd | U8G_Nl | U8G_Pc | U8G_Pd | U8G_Pf | U8G_Pi
  | U8G_Sc | U8G_Zl | U8G_Zp | U8G_Zs | U8G_Arabic | U8G_Cyrillic | U8G_Devanagari | U8G_Greek | U8G_Han | U8G_Latin

fun utf8_unicode_groups :: "utf8_group \<Rightarrow> (nat \<times> nat) list" where
  "utf8_unicode_groups U8G_Cc = Cc_range16"
| "utf8_unicode_groups U8G_Lt = Lt_range16"
| "utf8_unicode_groups U8G_Nd = Nd_range16"
| "utf8_unicode_groups U8G_Nl = Nl_range16"
| "utf8_unicode_groups U8G_Pc = Pc_range16"
| "utf8_unicode_groups U8G_Pd = Pd_range16"
| "utf8_unicode_groups U8G_Pf = Pf_range16"
| "utf8_unicode_groups U8G_Pi = Pi_range16"
| "utf8_unicode_groups U8G_Sc = Sc_range16"
| "utf8_unicode_groups U8G_Zl = Zl_range16"
| "utf8_unicode_groups U8G_Zp = Zp_range16"
| "utf8_unicode_groups U8G_Zs = Zs_range16"
| "utf8_unicode_groups U8G_Arabic = Arabic_range16"
| "utf8_unicode_groups U8G_Cyrillic = Cyrillic_range16"
| "utf8_unicode_groups U8G_Devanagari = Devanagari_range16"
| "utf8_unicode_groups U8G_Greek = Greek_range16"
| "utf8_unicode_groups U8G_Han = Han_range16"
| "utf8_unicode_groups U8G_Latin = Latin_range16"

end
