(* ===== verification/Utf8.thy ===== *)
theory Utf8
  imports Utf8_Tables
begin

text \<open>
  STC's UTF-8 functions, \<open>src/shims/stc_hmap/stc/priv/utf8_prv.h\<close> and \<open>utf8_prv.c\<close>. A \<open>const char *\<close> is
  the list of the bytes from the pointer to the end of the object it points into; a function that
  reads past that end gives \<open>None\<close>. Code points are numbers (\<open>uint32_t\<close>; nothing comes near the bound)
  except where bits are put together. The character classes of \<open>ctype.h\<close> are those of the C locale.
\<close>

section \<open>Encoding and decoding\<close>

text \<open>The bytes written to \<open>out\<close>; their number is the function's result.\<close>

definition utf8_encode :: "u32 \<Rightarrow> u8 list" where
  "utf8_encode c =
    (if c < 0x80 then [ucast c]
     else if c < 0x0800
     then [ucast ((drop_bit 6 c AND 0x1F) OR 0xC0),
           ucast ((c AND 0x3F) OR 0x80)]
     else if c < 0x010000
     then (if c < 0xD800 \<or> c \<ge> 0xE000
           then [ucast ((drop_bit 12 c AND 0x0F) OR 0xE0),
                 ucast ((drop_bit 6 c AND 0x3F) OR 0x80),
                 ucast ((c AND 0x3F) OR 0x80)]
           else [])
     else if c < 0x110000
     then [ucast ((drop_bit 18 c AND 0x07) OR 0xF0),
           ucast ((drop_bit 12 c AND 0x3F) OR 0x80),
           ucast ((drop_bit 6 c AND 0x3F) OR 0x80),
           ucast ((c AND 0x3F) OR 0x80)]
     else [])"

record utf8_decode_t =
  state :: u32
  codep :: u32

definition utf8_start :: utf8_decode_t where
  "utf8_start = \<lparr>state = 0, codep = 0\<rparr>"

definition utf8_decode :: "utf8_decode_t \<Rightarrow> u8 \<Rightarrow> utf8_decode_t" where
  "utf8_decode d byte =
    (let type = utf8_dtab ! unat byte;
         codep = (if state d \<noteq> 0 then (ucast byte AND 0x3f) OR push_bit 6 (codep d)
                  else drop_bit (unat type) 0xff AND ucast byte)
     in \<lparr>state = ucast (utf8_dtab ! (256 + unat (state d) + unat type)), codep = codep\<rparr>)"

text \<open>\<open>do { utf8_decode( &d, *s++ ); } while( d.state );\<close>: the code point and what follows it.\<close>

fun utf8_next :: "utf8_decode_t \<Rightarrow> u8 list \<Rightarrow> (utf8_decode_t \<times> u8 list) option" where
  "utf8_next d [] = None"
| "utf8_next d (b # s) =
    (let d = utf8_decode d b in if state d \<noteq> 0 then utf8_next d s else Some (d, s))"

definition utf8_peek :: "u8 list \<Rightarrow> u32 option" where
  "utf8_peek s = map_option (\<lambda>(d, _). codep d) (utf8_next utf8_start s)"

text \<open>A byte that is not a continuation byte: the condition \<open>( *s & 0xC0 ) != 0x80\<close>.\<close>

definition utf8_is_lead :: "u8 \<Rightarrow> bool" where
  "utf8_is_lead b \<longleftrightarrow> b AND 0xC0 \<noteq> 0x80"

text \<open>
  Here the pointer moves both ways, so it is a position in the whole object \<open>mem\<close>; \<open>fuel\<close> bounds the
  steps, of which there are no more than bytes in the object.
\<close>

fun utf8_move :: "nat \<Rightarrow> u8 list \<Rightarrow> int \<Rightarrow> int \<Rightarrow> int \<Rightarrow> int option" where
  "utf8_move 0 mem s pos inc = None"
| "utf8_move (Suc fuel) mem s pos inc =
    (if pos = 0 then Some s
     else (let s = s + inc
           in if s < 0 \<or> int (length mem) \<le> s then None
              else utf8_move fuel mem s (pos + (if utf8_is_lead (mem ! nat s) then 1 else 0)) inc))"

definition utf8_peek_off :: "u8 list \<Rightarrow> int \<Rightarrow> int \<Rightarrow> u32 option" where
  "utf8_peek_off mem s pos =
    (let inc = -1; (pos, inc) = (if pos > 0 then (-pos, 1) else (pos, inc))
     in case utf8_move (length mem + 1) mem s pos inc of
          None \<Rightarrow> None
        | Some s \<Rightarrow> utf8_peek (drop (nat s) mem))"

section \<open>Validity, sizes and positions\<close>

text \<open>The operands of \<open>&\<close> are both evaluated: the byte is read even when \<open>nbytes\<close> is 0.\<close>

fun utf8_valid_loop :: "utf8_decode_t \<Rightarrow> u8 list \<Rightarrow> nat \<Rightarrow> utf8_decode_t option" where
  "utf8_valid_loop d [] nbytes = None"
| "utf8_valid_loop d (b # s) nbytes =
    (if nbytes \<noteq> 0 \<and> b \<noteq> 0 then utf8_valid_loop (utf8_decode d b) s (nbytes - 1) else Some d)"

definition utf8_valid_n :: "u8 list \<Rightarrow> nat \<Rightarrow> bool option" where
  "utf8_valid_n s nbytes = map_option (\<lambda>d. state d = 0) (utf8_valid_loop utf8_start s nbytes)"

definition utf8_valid :: "u8 list \<Rightarrow> bool option" where
  "utf8_valid s = utf8_valid_n s (2 ^ 63 - 1)"

definition utf8_chr_size :: "u8 \<Rightarrow> nat" where
  "utf8_chr_size b = (if b < 0x80 then 1 else if b < 0xE0 then 2 else if b < 0xF0 then 3 else 4)"

fun utf8_size_n :: "u8 list \<Rightarrow> nat \<Rightarrow> nat option" where
  "utf8_size_n [] nbytes = None"
| "utf8_size_n (b # s) nbytes =
    (if nbytes \<noteq> 0 \<and> b \<noteq> 0
     then (case s of
             [] \<Rightarrow> None
           | c # _ \<Rightarrow> map_option (\<lambda>size. size + (if utf8_is_lead c then 1 else 0)) (utf8_size_n s (nbytes - 1)))
     else Some 0)"

fun utf8_size :: "u8 list \<Rightarrow> nat option" where
  "utf8_size [] = None"
| "utf8_size (b # s) =
    (if b \<noteq> 0
     then (case s of
             [] \<Rightarrow> None
           | c # _ \<Rightarrow> map_option (\<lambda>size. size + (if utf8_is_lead c then 1 else 0)) (utf8_size s))
     else Some 0)"

text \<open>The string from the code point with the given index on.\<close>

fun utf8_at :: "u8 list \<Rightarrow> nat \<Rightarrow> u8 list option" where
  "utf8_at [] index = None"
| "utf8_at (b # s) index =
    (if index > 0 \<and> b \<noteq> 0
     then (case s of [] \<Rightarrow> None | c # _ \<Rightarrow> utf8_at s (if utf8_is_lead c then index - 1 else index))
     else Some (b # s))"

definition utf8_pos :: "u8 list \<Rightarrow> nat \<Rightarrow> nat option" where
  "utf8_pos s index = map_option (\<lambda>r. length s - length r) (utf8_at s index)"

section \<open>Case\<close>

text \<open>
  The loop shared by \<open>utf8_casefold\<close> (over the first entries of the table) and \<open>utf8_tolower\<close> (over
  those of an index array), with the code point as signed number while the distance is added.
\<close>

fun case_search_up :: "CaseMapping list \<Rightarrow> nat \<Rightarrow> nat" where
  "case_search_up [] c = c"
| "case_search_up (entry # es) c =
    (if c \<le> map_c2 entry
     then (if c < map_c1 entry then c
           else (let d = int (map_m2 entry) - int (map_c2 entry)
                 in if d = 1 then c + (if map_c2 entry mod 2 = c mod 2 then 1 else 0)
                    else nat (int c + d)))
     else case_search_up es c)"

definition utf8_casefold :: "nat \<Rightarrow> nat" where
  "utf8_casefold c = case_search_up (take casefold_len casemappings) c"

definition utf8_tolower :: "nat \<Rightarrow> nat" where
  "utf8_tolower c = case_search_up (map ((!) casemappings) upcase_ind) c"

fun case_search_down :: "CaseMapping list \<Rightarrow> nat \<Rightarrow> nat" where
  "case_search_down [] c = c"
| "case_search_down (entry # es) c =
    (if c \<le> map_m2 entry
     then (let d = int (map_m2 entry) - int (map_c2 entry)
           in if int c < int (map_c1 entry) + d then c
              else if d = 1 then c - (if map_m2 entry mod 2 = c mod 2 then 1 else 0)
              else nat (int c - d))
     else case_search_down es c)"

definition utf8_toupper :: "nat \<Rightarrow> nat" where
  "utf8_toupper c = case_search_down (map ((!) casemappings) lowcase_ind) c"

definition utf8_isupper :: "nat \<Rightarrow> bool" where
  "utf8_isupper c \<longleftrightarrow> utf8_tolower c \<noteq> c"

definition utf8_islower :: "nat \<Rightarrow> bool" where
  "utf8_islower c \<longleftrightarrow> utf8_toupper c \<noteq> c"

text \<open>The conversion \<open>(int)\<close> of a wider signed value, which keeps its low 32 bits.\<close>

definition c_int :: "int \<Rightarrow> int" where
  "c_int z = sint (word_of_int z :: 32 word)"

text \<open>
  Each round decodes one code point of either view; a view is its bytes (with those that follow it in
  memory) and its size. \<open>fuel\<close> bounds the rounds, each of which takes a byte at least.
\<close>

fun utf8_icmp_loop :: "nat \<Rightarrow> u8 list \<Rightarrow> nat \<Rightarrow> u8 list \<Rightarrow> nat \<Rightarrow> nat \<Rightarrow> nat \<Rightarrow> int option" where
  "utf8_icmp_loop 0 buf1 size1 buf2 size2 j1 j2 = None"
| "utf8_icmp_loop (Suc fuel) buf1 size1 buf2 size2 j1 j2 =
    (if j1 < size1 \<and> j2 < size2
     then (case utf8_next utf8_start (drop j1 buf1) of
             None \<Rightarrow> None
           | Some (d1, s1) \<Rightarrow>
               (case utf8_next utf8_start (drop j2 buf2) of
                  None \<Rightarrow> None
                | Some (d2, s2) \<Rightarrow>
                    (let j1 = length buf1 - length s1; j2 = length buf2 - length s2;
                         c = int (utf8_casefold (unat (codep d1))) - int (utf8_casefold (unat (codep d2)))
                     in if c \<noteq> 0 \<or> buf2 ! (j2 - 1) = 0 then Some c
                        else utf8_icmp_loop fuel buf1 size1 buf2 size2 j1 j2)))
     else Some (c_int (int size1 - int size2)))"

definition utf8_icmp_sv :: "u8 list \<Rightarrow> nat \<Rightarrow> u8 list \<Rightarrow> nat \<Rightarrow> int option" where
  "utf8_icmp_sv buf1 size1 buf2 size2 = utf8_icmp_loop (length buf1 + 1) buf1 size1 buf2 size2 0 0"

definition utf8_icmp :: "u8 list \<Rightarrow> u8 list \<Rightarrow> int option" where
  "utf8_icmp s1 s2 = utf8_icmp_sv s1 (2 ^ 63 - 1) s2 (2 ^ 63 - 1)"

section \<open>Character classes\<close>

fun utf8_search_ranges :: "(nat \<times> nat) list \<Rightarrow> nat \<Rightarrow> bool" where
  "utf8_search_ranges [] c = False"
| "utf8_search_ranges ((lo, hi) # rs) c = (if c < lo then False else if c \<le> hi then True else utf8_search_ranges rs c)"

definition utf8_isgroup :: "utf8_group \<Rightarrow> nat \<Rightarrow> bool" where
  "utf8_isgroup g c = utf8_search_ranges (utf8_unicode_groups g) c"

definition ascii_isalpha :: "nat \<Rightarrow> bool" where
  "ascii_isalpha c \<longleftrightarrow> 65 \<le> c \<and> c \<le> 90 \<or> 97 \<le> c \<and> c \<le> 122"

definition ascii_isalnum :: "nat \<Rightarrow> bool" where
  "ascii_isalnum c \<longleftrightarrow> ascii_isalpha c \<or> 48 \<le> c \<and> c \<le> 57"

definition ascii_isspace :: "nat \<Rightarrow> bool" where
  "ascii_isspace c \<longleftrightarrow> c = 32 \<or> 9 \<le> c \<and> c \<le> 13"

definition utf8_isalpha :: "nat \<Rightarrow> bool" where
  "utf8_isalpha c =
    (if c < 128 then ascii_isalpha c
     else list_ex (\<lambda>g. utf8_isgroup g c)
       [U8G_Latin, U8G_Nl, U8G_Greek, U8G_Cyrillic, U8G_Han, U8G_Devanagari, U8G_Arabic])"

definition utf8_iscased :: "nat \<Rightarrow> bool" where
  "utf8_iscased c =
    (if c < 128 then ascii_isalpha c else utf8_islower c \<or> utf8_isupper c \<or> utf8_isgroup U8G_Lt c)"

definition utf8_isword :: "nat \<Rightarrow> bool" where
  "utf8_isword c =
    (if c < 128 then ascii_isalnum c \<or> c = 95
     else utf8_isalpha c \<or> utf8_isgroup U8G_Nd c \<or> utf8_isgroup U8G_Pc c)"

definition utf8_isalnum :: "nat \<Rightarrow> bool" where
  "utf8_isalnum c = (if c < 128 then ascii_isalnum c else utf8_isalpha c \<or> utf8_isgroup U8G_Nd c)"

definition utf8_isblank :: "nat \<Rightarrow> bool" where
  "utf8_isblank c = (if c < 128 then c = 32 \<or> c = 9 else utf8_isgroup U8G_Zs c)"

definition utf8_isspace :: "nat \<Rightarrow> bool" where
  "utf8_isspace c = (if c < 128 then ascii_isspace c else c = 8232 \<or> c = 8233 \<or> utf8_isgroup U8G_Zs c)"

end
