(* ===== verification/Utf8_Correct.thy ===== *)
theory Utf8_Correct
  imports Utf8
begin

text \<open>
  Correctness of STC's UTF-8 code: the encoder and the table-driven decoder against the definition of
  the encoding (the byte ranges of well-formed sequences and the base-64 digits of a code point), the
  validity test, and the functions that count, locate and compare code points.
\<close>

section \<open>The encoder\<close>

lemma or_add_nat: "(x::nat) < 2 ^ k \<Longrightarrow> x OR (m * 2 ^ k) = x + m * 2 ^ k"
proof -
  assume x: "x < 2 ^ k"
  have "take_bit k x AND push_bit k m = 0"
    by (rule bit_eqI) (auto simp: bit_and_iff bit_take_bit_iff bit_push_bit_iff)
  then have "x AND m * 2 ^ k = 0" using x by (simp add: push_bit_eq_mult take_bit_nat_eq_self)
  then show ?thesis by (simp add: disjunctive_add_eq_or)
qed

definition utf8_scalar :: "u32 \<Rightarrow> bool" where
  "utf8_scalar c \<longleftrightarrow> c < 0x110000 \<and> (c < 0xD800 \<or> 0xE000 \<le> c)"

definition utf8_bytes :: "nat \<Rightarrow> nat list" where
  "utf8_bytes c =
    (if c < 0x80 then [c]
     else if c < 0x800 then [0xC0 + c div 0x40, 0x80 + c mod 0x40]
     else if c < 0x10000 then [0xE0 + c div 0x1000, 0x80 + c div 0x40 mod 0x40, 0x80 + c mod 0x40]
     else [0xF0 + c div 0x40000, 0x80 + c div 0x1000 mod 0x40, 0x80 + c div 0x40 mod 0x40, 0x80 + c mod 0x40])"

lemma unat_pack:
  assumes "a = 2 ^ j - 1" "t = m * 2 ^ j" "t + 2 ^ j \<le> 256"
  shows "unat (ucast ((drop_bit s (c::u32) AND of_nat a) OR of_nat t) :: u8) = t + unat c div 2 ^ s mod 2 ^ j"
proof -
  have "(0::nat) < 2 ^ j" by simp
  then have small: "a < 256" "t < 256" using assms by linarith+
  let ?v = "unat c div 2 ^ s mod 2 ^ j"
  have "unat ((drop_bit s (c::u32) AND of_nat a) OR of_nat t) = (unat c div 2 ^ s AND a) OR t"
    unfolding unsigned_or_eq unsigned_and_eq unat_drop_bit_eq
    using small by (simp add: drop_bit_eq_div unat_of_nat)
  also have "\<dots> = ?v OR m * 2 ^ j"
    unfolding assms(1,2) nat_and_mask ..
  also have "\<dots> = t + ?v" using or_add_nat [of ?v j m] assms(2) by simp
  finally have "unat ((drop_bit s (c::u32) AND of_nat a) OR of_nat t) = t + ?v" .
  moreover have "?v < 2 ^ j" by simp
  then have "t + ?v < 256" using assms(3) by linarith
  ultimately show ?thesis by (simp add: unsigned_ucast_eq take_bit_eq_mod)
qed

lemmas unat_packs =
  unat_pack [of 63 6 128 2, simplified] unat_pack [of 31 5 192 6, simplified]
  unat_pack [of 15 4 224 14, simplified] unat_pack [of 7 3 240 30, simplified]
  unat_pack [of 63 6 128 2 0, simplified]
lemma unat_ascii: "unat (c::u32) < 128 \<Longrightarrow> unat (ucast c :: u8) = unat c"
  by (simp add: unsigned_ucast_eq take_bit_eq_mod)

lemma unat_shift: "unat (drop_bit s (c::u32)) = unat c div 2 ^ s"
  unfolding unat_drop_bit_eq by (simp add: drop_bit_eq_div)

lemma utf8_encode_bytes: "utf8_scalar c \<Longrightarrow> map unat (utf8_encode c) = utf8_bytes (unat c)"
  by (auto simp: utf8_scalar_def utf8_encode_def utf8_bytes_def word_less_nat_alt word_le_nat_alt unat_packs unat_ascii unat_shift)

section \<open>The decoder automaton\<close>

definition utf8_type :: "nat \<Rightarrow> u8" where
  "utf8_type b =
    (if b < 0x80 then 0 else if b < 0x90 then 1 else if b < 0xA0 then 9 else if b < 0xC0 then 7
     else if b < 0xC2 then 8 else if b < 0xE0 then 2 else if b = 0xE0 then 10
     else if b = 0xED then 4 else if b < 0xF0 then 3 else if b = 0xF0 then 11
     else if b < 0xF4 then 6 else if b = 0xF4 then 5 else 8)"

lemma byte_types: "utf8_byte_types = map utf8_type [0..<256]"
  by code_simp

lemma nth_byte_types: "utf8_dtab ! unat (b::u8) = utf8_type (unat b)"
proof -
  have "unat b < 2 ^ LENGTH(8)" by (rule unsigned_less)
  then show ?thesis by (simp add: utf8_dtab_def nth_append byte_types)
qed

lemma nth_transitions: "utf8_dtab ! (256 + n) = utf8_transitions ! n"
  using nth_append_length_plus [of utf8_byte_types utf8_transitions n] by (simp add: utf8_dtab_def byte_types)

text \<open>The successor of a state, by the value of the byte.\<close>
definition utf8_succ :: "u32 \<Rightarrow> nat \<Rightarrow> u32" where
  "utf8_succ s b =
    (if s = 0 then
       (if b < 0x80 then 0 else if b < 0xC2 then 12 else if b < 0xE0 then 24 else if b = 0xE0 then 48
        else if b = 0xED then 60 else if b < 0xF0 then 36 else if b = 0xF0 then 72
        else if b < 0xF4 then 84 else if b = 0xF4 then 96 else 12)
     else if s = 24 then (if 0x80 \<le> b \<and> b < 0xC0 then 0 else 12)
     else if s = 36 then (if 0x80 \<le> b \<and> b < 0xC0 then 24 else 12)
     else if s = 48 then (if 0xA0 \<le> b \<and> b < 0xC0 then 24 else 12)
     else if s = 60 then (if 0x80 \<le> b \<and> b < 0xA0 then 24 else 12)
     else if s = 72 then (if 0x90 \<le> b \<and> b < 0xC0 then 36 else 12)
     else if s = 84 then (if 0x80 \<le> b \<and> b < 0xC0 then 36 else 12)
     else if s = 96 then (if 0x80 \<le> b \<and> b < 0x90 then 36 else 12)
     else 12)"

definition utf8_states :: "u32 set" where "utf8_states = {0, 12, 24, 36, 48, 60, 72, 84, 96}"

lemma state_decode:
  assumes "state d \<in> utf8_states"
  shows "state (utf8_decode d b) = utf8_succ (state d) (unat b)"
proof -
  have "state (utf8_decode d b) = ucast (utf8_transitions ! (unat (state d) + unat (utf8_type (unat b))))"
    by (simp add: utf8_decode_def Let_def nth_byte_types add.assoc nth_transitions)
  also have "\<dots> = utf8_succ (state d) (unat b)"
    using assms unfolding utf8_states_def 
    apply (elim insertE emptyE)
    apply (simp_all add: utf8_succ_def utf8_type_def utf8_transitions_def)
  done
  finally show ?thesis .
qed

lemma unat_u8_less: "unat (b::u8) < 256"
proof -
  have "unat b < 2 ^ LENGTH(8)" by (rule unsigned_less)
  then show ?thesis by simp
qed

lemma unat_ucast_up: "unat (ucast (b::u8) :: u32) = unat b"
  using unat_u8_less [of b] by (simp add: unsigned_ucast_eq take_bit_nat_eq_self)

lemma codep_first:
  assumes "state d = 0" "unat b < 0x80 \<or> 0xC2 \<le> unat b \<and> unat b \<le> 0xF4"
  shows "unat (codep (utf8_decode d b)) =
    (if unat b < 0x80 then unat b else if unat b < 0xE0 then unat b - 0xC0
     else if unat b < 0xF0 then unat b - 0xE0 else unat b - 0xF0)"
proof -
  have codep: "codep (utf8_decode d b) = drop_bit (unat (utf8_type (unat b))) 0xff AND ucast b"
    using assms(1) by (simp add: utf8_decode_def Let_def nth_byte_types)
  have mask: "unat ((2 ^ k - 1 :: u32) AND ucast b) = unat b mod 2 ^ k" if "k \<le> 8" for k
  proof -
    have "(2 ^ k - 1 :: u32) AND ucast b = take_bit k (ucast b)"
      by (simp add: take_bit_eq_mask mask_eq_exp_minus_1 and.commute)
    then show ?thesis by (simp only: unsigned_take_bit_eq unat_ucast_up) (simp add: take_bit_eq_mod)
  qed
  have sub: "x mod n = x - m * n" if "m * n \<le> x" "x < m * n + n" for x m n :: nat
  proof -
    have "x = (x - m * n) + m * n" "x - m * n < n" using that by auto
    then show ?thesis by (metis mod_less mod_mult_self1)
  qed
  consider "unat b < 0x80" | "0xC2 \<le> unat b" "unat b < 0xE0" | "unat b = 0xE0"
    | "unat b = 0xED" | "0xE0 < unat b" "unat b < 0xF0" "unat b \<noteq> 0xED" | "unat b = 0xF0"
    | "0xF0 < unat b" "unat b < 0xF4" | "unat b = 0xF4"
    using assms(2) by linarith
  then show ?thesis
  proof cases
    case 1 then show ?thesis using mask [of 8] by (simp add: codep utf8_type_def)
  next
    case 2 then show ?thesis using mask [of 6] sub [of 3 64 "unat b"] by (simp add: codep utf8_type_def)
  next
    case 3 then show ?thesis by (simp add: codep utf8_type_def)
  next
    case 4 then show ?thesis using mask [of 4] by (simp add: codep utf8_type_def)
  next
    case 5 then show ?thesis using mask [of 5] sub [of 7 32 "unat b"] by (simp add: codep utf8_type_def)
  next
    case 6 then show ?thesis by (simp add: codep utf8_type_def)
  next
    case 7 then show ?thesis using mask [of 2] sub [of 60 4 "unat b"] by (simp add: codep utf8_type_def)
  next
    case 8 then show ?thesis using mask [of 3] by (simp add: codep utf8_type_def)
  qed
qed

lemma codep_next:
  assumes "state d \<noteq> 0" "0x80 \<le> unat b" "unat b < 0xC0" "unat (codep d) < 2 ^ 26"
  shows "unat (codep (utf8_decode d b)) = unat (codep d) * 64 + (unat b - 0x80)"
proof -
  have "codep (utf8_decode d b) = (ucast b AND 0x3f) OR push_bit 6 (codep d)"
    using assms(1) by (simp add: utf8_decode_def Let_def)
  moreover have "unat (ucast b AND 0x3f :: u32) = unat b mod 64"
    using nat_and_mask [of "unat b" 6] by (simp add: unsigned_and_eq unat_ucast_up)
  moreover have "unat (push_bit 6 (codep d)) = unat (codep d) * 2 ^ 6"
  proof -
    have "unat (codep d) * unat (64 :: u32) < 2 ^ LENGTH(32)" using assms(4) by simp
    then have "unat (codep d * 64) = unat (codep d) * unat (64 :: u32)" by (simp only: unat_mult_lem)
    then show ?thesis by (simp add: push_bit_eq_mult)
  qed
  ultimately have "unat (codep (utf8_decode d b)) = unat b mod 64 + unat (codep d) * 2 ^ 6"
    using or_add_nat [of "unat b mod 64" 6 "unat (codep d)"] by (simp add: unsigned_or_eq)
  moreover have "unat b mod 64 = unat b - 0x80" proof -
    have "unat b = (unat b - 0x80) + 2 * 64" "unat b - 0x80 < 64" using assms(2,3) by auto
    then show ?thesis by (metis mod_less mod_mult_self1)
  qed
  ultimately show ?thesis by simp
qed

section \<open>Well-formed sequences\<close>

fun utf8_wf :: "nat list \<Rightarrow> bool" where
  "utf8_wf [b0] \<longleftrightarrow> b0 < 0x80"
| "utf8_wf [b0, b1] \<longleftrightarrow> 0xC2 \<le> b0 \<and> b0 < 0xE0 \<and> 0x80 \<le> b1 \<and> b1 < 0xC0"
| "utf8_wf [b0, b1, b2] \<longleftrightarrow> 0xE0 \<le> b0 \<and> b0 < 0xF0 \<and>
    (if b0 = 0xE0 then 0xA0 else 0x80) \<le> b1 \<and> b1 < (if b0 = 0xED then 0xA0 else 0xC0) \<and>
    0x80 \<le> b2 \<and> b2 < 0xC0"
| "utf8_wf [b0, b1, b2, b3] \<longleftrightarrow> 0xF0 \<le> b0 \<and> b0 < 0xF5 \<and>
    (if b0 = 0xF0 then 0x90 else 0x80) \<le> b1 \<and> b1 < (if b0 = 0xF4 then 0x90 else 0xC0) \<and>
    0x80 \<le> b2 \<and> b2 < 0xC0 \<and> 0x80 \<le> b3 \<and> b3 < 0xC0"
| "utf8_wf _ \<longleftrightarrow> False"

fun utf8_value :: "nat list \<Rightarrow> nat" where
  "utf8_value [b0] = b0"
| "utf8_value [b0, b1] = (b0 - 0xC0) * 64 + (b1 - 0x80)"
| "utf8_value [b0, b1, b2] = ((b0 - 0xE0) * 64 + (b1 - 0x80)) * 64 + (b2 - 0x80)"
| "utf8_value [b0, b1, b2, b3] =
    (((b0 - 0xF0) * 64 + (b1 - 0x80)) * 64 + (b2 - 0x80)) * 64 + (b3 - 0x80)"
| "utf8_value _ = 0"

abbreviation scalar_nat :: "nat \<Rightarrow> bool" where
  "scalar_nat n \<equiv> n < 0x110000 \<and> (n < 0xD800 \<or> 0xE000 \<le> n)"

lemma utf8_wf_cases:
  assumes "utf8_wf bs"
  obtains b0 where "bs = [b0]" | b0 b1 where "bs = [b0, b1]" | b0 b1 b2 where "bs = [b0, b1, b2]"
    | b0 b1 b2 b3 where "bs = [b0, b1, b2, b3]"
  using assms by (cases bs rule: utf8_wf.cases) auto


text \<open>Code points by their base-64 digits.\<close>

lemma digits64:
  obtains a b c d where "n = ((a * 64 + b) * 64 + c) * 64 + d" "b < 64" "c < 64" "d < (64::nat)"
proof -
  have "n = ((n div 64 div 64 div 64 * 64 + n div 64 div 64 mod 64) * 64 + n div 64 mod 64) * 64 + n mod 64"
    by (simp only: div_mult_mod_eq)
  then show thesis by (rule that) simp_all
qed

lemma digits_div:
  assumes "n = ((a * 64 + b) * 64 + c) * 64 + d" "b < 64" "c < 64" "d < (64::nat)"
  shows "n div 64 = (a * 64 + b) * 64 + c" "n div 4096 = a * 64 + b" "n div 262144 = a"
    "n mod 64 = d" "n div 64 mod 64 = c" "n div 4096 mod 64 = b"
proof -
  have div: "(x * 64 + y) div 64 = x" "(x * 64 + y) mod 64 = y" if "y < 64" for x y :: nat
    using that by simp_all
  have "n div 4096 = n div 64 div 64" "n div 262144 = n div 64 div 64 div 64"
    by (simp_all flip: div_mult2_eq)
  then show "n div 64 = (a * 64 + b) * 64 + c" "n div 4096 = a * 64 + b" "n div 262144 = a"
    "n mod 64 = d" "n div 64 mod 64 = c" "n div 4096 mod 64 = b"
    using assms by (simp_all only: div)
qed

lemma bytes_wf: "scalar_nat n \<Longrightarrow> utf8_wf (utf8_bytes n) \<and> utf8_value (utf8_bytes n) = n"
proof -
  assume n: "scalar_nat n"
  obtain a b c d where dig: "n = ((a * 64 + b) * 64 + c) * 64 + d" "b < 64" "c < 64" "d < 64"
    by (rule digits64 [of n])
  note divs = digits_div [OF dig]
  have len: "utf8_bytes n = (if n < 0x80 then [n] else if n < 0x800 then [0xC0 + c, 0x80 + d]
      else if n < 0x10000 then [0xE0 + b, 0x80 + c, 0x80 + d]
      else [0xF0 + a, 0x80 + b, 0x80 + c, 0x80 + d])"
    unfolding utf8_bytes_def divs(4-6) unfolding divs(1-3) using dig by auto
  show ?thesis
    unfolding len using dig n by auto
qed

lemma wf_bytes:
  assumes "utf8_wf bs"
  shows "scalar_nat (utf8_value bs) \<and> utf8_bytes (utf8_value bs) = bs"
  using assms
proof (cases rule: utf8_wf_cases)
  case (1 b0)
  then show ?thesis using assms by (simp add: utf8_bytes_def)
next
  case (2 b0 b1)
  define c where "c = b0 - 0xC0"
  define d where "d = b1 - 0x80"
  have b: "b0 = 0xC0 + c" "b1 = 0x80 + d" "2 \<le> c" "c < 32" "d < 64"
    using assms 2 by (auto simp: c_def d_def)
  have dig: "c * 64 + d = ((0 * 64 + 0) * 64 + c) * 64 + d" by simp
  then show ?thesis using b digits_div [OF dig] by (simp add: 2 utf8_bytes_def)
next
  case (3 b0 b1 b2)
  define b where "b = b0 - 0xE0"
  define c where "c = b1 - 0x80"
  define d where "d = b2 - 0x80"
  have bs: "b0 = 0xE0 + b" "b1 = 0x80 + c" "b2 = 0x80 + d" "b < 16" "c < 64" "d < 64"
    and lo: "b = 0 \<Longrightarrow> 32 \<le> c" and sur: "b = 13 \<Longrightarrow> c < 32"
    using assms 3 by (auto simp: b_def c_def d_def split: if_splits)
  define n where "n = (b * 64 + c) * 64 + d"
  have dig: "n = ((0 * 64 + b) * 64 + c) * 64 + d" by (simp add: n_def)
  have divs: "n div 4096 = b" "n div 64 mod 64 = c" "n mod 64 = d"
    using digits_div [OF dig] bs by simp_all
  have "0x800 \<le> n" using lo by (cases "b = 0") (auto simp: n_def)
  moreover have "n < 0xD800 \<or> 0xE000 \<le> n"
    using sur bs by (cases "b = 13") (auto simp: n_def)
  moreover have "n < 0x10000" using bs by (simp add: n_def)
  moreover have "utf8_value bs = n" unfolding 3 bs(1-3) by (simp add: n_def)
  ultimately show ?thesis by (simp add: utf8_bytes_def divs) (simp add: 3 bs(1-3))
next
  case (4 b0 b1 b2 b3)
  define a where "a = b0 - 0xF0"
  define b where "b = b1 - 0x80"
  define c where "c = b2 - 0x80"
  define d where "d = b3 - 0x80"
  have bs: "b0 = 0xF0 + a" "b1 = 0x80 + b" "b2 = 0x80 + c" "b3 = 0x80 + d" "a < 5" "b < 64" "c < 64" "d < 64"
    and lo: "a = 0 \<Longrightarrow> 16 \<le> b" and hi: "a = 4 \<Longrightarrow> b < 16"
    using assms 4 by (auto simp: a_def b_def c_def d_def split: if_splits)
  define n where "n = ((a * 64 + b) * 64 + c) * 64 + d"
  have divs: "n div 262144 = a" "n div 4096 mod 64 = b" "n div 64 mod 64 = c" "n mod 64 = d"
    using digits_div [OF n_def] bs by simp_all
  have "0x10000 \<le> n" using lo by (cases "a = 0") (auto simp: n_def)
  moreover have "n < 0x110000" using hi bs by (cases "a = 4") (auto simp: n_def)
  moreover have "utf8_value bs = n" unfolding 4 bs(1-4) by (simp add: n_def)
  ultimately show ?thesis by (simp add: utf8_bytes_def divs) (simp add: 4 bs(1-4))
qed

abbreviation run_decoder :: "utf8_decode_t \<Rightarrow> u8 list \<Rightarrow> utf8_decode_t" where
  "run_decoder \<equiv> foldl utf8_decode"

lemma utf8_succ_closed: "utf8_succ s b \<in> utf8_states"
  by (simp add: utf8_succ_def utf8_states_def)

lemma state_run: "state d \<in> utf8_states \<Longrightarrow> state (run_decoder d bs) = foldl utf8_succ (state d) (map unat bs)"
  by (induction bs arbitrary: d) (simp_all add: state_decode utf8_succ_closed)

lemma run_next: "utf8_next d s = Some (e, r) \<Longrightarrow> \<exists>bs. s = bs @ r \<and> bs \<noteq> [] \<and> run_decoder d bs = e"
proof (induction d s rule: utf8_next.induct)
  case (2 d b s)
  show ?case
  proof (cases "state (utf8_decode d b) = 0")
    case True
    then show ?thesis using 2(2) by (intro exI [of _ "[b]"]) simp
  next
    case False
    then obtain bs where "s = bs @ r" "bs \<noteq> []" "run_decoder (utf8_decode d b) bs = e"
      using 2 by (auto simp: Let_def)
    then show ?thesis by (intro exI [of _ "b # bs"]) simp
  qed
qed simp

lemma utf8_next_wf:
  assumes "state d = 0" "utf8_wf (map unat bs)"
  shows "\<exists>e. utf8_next d (bs @ rest) = Some (e, rest) \<and> state e = 0 \<and> unat (codep e) = utf8_value (map unat bs)"
  using assms(2)
proof (cases rule: utf8_wf_cases)
  case (1 b0)
  then obtain c0 where bs: "bs = [c0]" "unat c0 < 0x80" using assms(2) by auto
  have "state (utf8_decode d c0) = 0"
    using bs assms(1) by (simp add: state_decode utf8_succ_def utf8_states_def)
  then show ?thesis using bs codep_first [of d c0] assms(1) by simp
next
  case (2 b0 b1)
  then obtain c0 c1 where bs: "bs = [c0, c1]" by auto
  note wf = assms(2) [unfolded bs, simplified]
  let ?d0 = "utf8_decode d c0" let ?d1 = "utf8_decode ?d0 c1"
  have s0: "state ?d0 = 24" and p0: "unat (codep ?d0) = unat c0 - 0xC0"
    using wf assms(1) codep_first [of d c0] by (auto simp: state_decode utf8_succ_def utf8_states_def)
  have s1: "state ?d1 = 0" and p1: "unat (codep ?d1) = (unat c0 - 0xC0) * 64 + (unat c1 - 0x80)"
    using wf s0 p0 codep_next [of ?d0 c1] by (auto simp: state_decode utf8_succ_def utf8_states_def)
  then show ?thesis by (simp add: bs s0)
next
  case (3 b0 b1 b2)
  then obtain c0 c1 c2 where bs: "bs = [c0, c1, c2]" by auto
  note wf = assms(2) [unfolded bs, simplified]
  let ?d0 = "utf8_decode d c0" let ?d1 = "utf8_decode ?d0 c1" let ?d2 = "utf8_decode ?d1 c2"
  have s0: "state ?d0 = (if unat c0 = 0xE0 then 48 else if unat c0 = 0xED then 60 else 36)"
    and p0: "unat (codep ?d0) = unat c0 - 0xE0"
    using wf assms(1) codep_first [of d c0] by (auto simp: state_decode utf8_succ_def utf8_states_def)
  have s1: "state ?d1 = 24" and p1: "unat (codep ?d1) = (unat c0 - 0xE0) * 64 + (unat c1 - 0x80)"
    using wf s0 p0 codep_next [of ?d0 c1]
    by (auto simp: state_decode utf8_succ_def utf8_states_def split: if_splits)
  have "unat c0 - 0xE0 < 16" "unat c1 - 0x80 < 64" using wf by (auto split: if_splits)
  then have "unat (codep ?d1) < 2 ^ 26" unfolding p1 by simp
  then have s2: "state ?d2 = 0" and p2: "unat (codep ?d2) = utf8_value (map unat bs)"
    using wf s1 p1 codep_next [of ?d1 c2] by (auto simp: bs state_decode utf8_succ_def utf8_states_def)
  then show ?thesis by (simp add: bs s0 s1)
next
  case (4 b0 b1 b2 b3)
  then obtain c0 c1 c2 c3 where bs: "bs = [c0, c1, c2, c3]" by auto
  note wf = assms(2) [unfolded bs, simplified]
  let ?d0 = "utf8_decode d c0" let ?d1 = "utf8_decode ?d0 c1" let ?d2 = "utf8_decode ?d1 c2"
  let ?d3 = "utf8_decode ?d2 c3"
  have s0: "state ?d0 = (if unat c0 = 0xF0 then 72 else if unat c0 = 0xF4 then 96 else 84)"
    and p0: "unat (codep ?d0) = unat c0 - 0xF0"
    using wf assms(1) codep_first [of d c0] by (auto simp: state_decode utf8_succ_def utf8_states_def)
  have s1: "state ?d1 = 36" and p1: "unat (codep ?d1) = (unat c0 - 0xF0) * 64 + (unat c1 - 0x80)"
    using wf s0 p0 codep_next [of ?d0 c1]
    by (auto simp: state_decode utf8_succ_def utf8_states_def split: if_splits)
  have "unat c0 - 0xF0 < 16" "unat c1 - 0x80 < 64" "unat c2 - 0x80 < 64" using wf by (auto split: if_splits)
  then have "unat (codep ?d1) < 2 ^ 26" "((unat c0 - 0xF0) * 64 + (unat c1 - 0x80)) * 64 + (unat c2 - 0x80) < 2 ^ 26"
    unfolding p1 by simp_all
  note small = this
  then have s2: "state ?d2 = 24" and p2: "unat (codep ?d2) = ((unat c0 - 0xF0) * 64 + (unat c1 - 0x80)) * 64 + (unat c2 - 0x80)"
    using wf s1 p1 codep_next [of ?d1 c2] by (auto simp: state_decode utf8_succ_def utf8_states_def)
  have s3: "state ?d3 = 0" and p3: "unat (codep ?d3) = utf8_value (map unat bs)"
    using wf s2 p2 small(2) codep_next [of ?d2 c3] by (auto simp: bs state_decode utf8_succ_def utf8_states_def)
  then show ?thesis by (simp add: bs s0 s1 s2)
qed

text \<open>An accepted string begins with a well-formed sequence.\<close>

lemma run_reject: "foldl utf8_succ 12 bs = 12"
  by (induction bs) (simp_all add: utf8_succ_def)

lemma run_cont:
  assumes "foldl utf8_succ s bs = 0" "s \<noteq> 0"
  obtains b q where "bs = b # q" "utf8_succ s b \<noteq> 12" "foldl utf8_succ (utf8_succ s b) q = 0"
proof (cases bs)
  case Nil
  then show ?thesis using assms by simp
next
  case (Cons b q)
  then have "foldl utf8_succ (utf8_succ s b) q = 0" using assms(1) by simp
  then show ?thesis using Cons run_reject [of q] that [of b q] by (cases "utf8_succ s b = 12") auto
qed

lemma run_24:
  assumes "foldl utf8_succ 24 bs = 0"
  obtains b q where "bs = b # q" "0x80 \<le> b" "b < 0xC0" "foldl utf8_succ 0 q = 0"
proof -
  obtain b q where "bs = b # q" "utf8_succ 24 b \<noteq> 12" "foldl utf8_succ (utf8_succ 24 b) q = 0"
    using assms by (rule run_cont) simp
  then show thesis using that [of b q] by (auto simp: utf8_succ_def split: if_splits)
qed

lemma run_36:
  assumes "foldl utf8_succ 36 bs = 0"
  obtains b b' q where "bs = b # b' # q" "0x80 \<le> b" "b < 0xC0" "0x80 \<le> b'" "b' < 0xC0" "foldl utf8_succ 0 q = 0"
proof -
  obtain b q where q: "bs = b # q" "utf8_succ 36 b \<noteq> 12" "foldl utf8_succ (utf8_succ 36 b) q = 0"
    using assms by (rule run_cont) simp
  then have "0x80 \<le> b" "b < 0xC0" "foldl utf8_succ 24 q = 0" by (auto simp: utf8_succ_def split: if_splits)
  then show thesis using that [of b] q(1) by (metis run_24)
qed

lemma run_first:
  assumes "foldl utf8_succ 0 bs = 0" "bs \<noteq> []"
  shows "\<exists>p q. bs = p @ q \<and> utf8_wf p \<and> foldl utf8_succ 0 q = 0"
proof -
  obtain b0 q where bs: "bs = b0 # q" using assms(2) by (cases bs) auto
  have run: "foldl utf8_succ (utf8_succ 0 b0) q = 0" using assms(1) bs by simp
  consider "b0 < 0x80" | "0xC2 \<le> b0" "b0 < 0xE0" | "0xE0 \<le> b0" "b0 < 0xF0"
    | "0xF0 \<le> b0" "b0 < 0xF5" | "0x80 \<le> b0 \<and> b0 < 0xC2 \<or> 0xF5 \<le> b0"
    by linarith
  then show ?thesis
  proof cases
    case 1
    then show ?thesis using run by (intro exI [of _ "[b0]"] exI [of _ q]) (auto simp: bs utf8_succ_def)
  next
    case 2
    then have "foldl utf8_succ 24 q = 0" using run by (simp add: utf8_succ_def)
    then obtain b1 q1 where "q = b1 # q1" "0x80 \<le> b1" "b1 < 0xC0" "foldl utf8_succ 0 q1 = 0" by (rule run_24)
    then show ?thesis using 2 by (intro exI [of _ "[b0, b1]"] exI [of _ q1]) (auto simp: bs)
  next
    case 3
    define s where "s = utf8_succ 0 b0"
    have s: "s = (if b0 = 0xE0 then 48 else if b0 = 0xED then 60 else 36)" using 3 by (auto simp: s_def utf8_succ_def)
    then have "s \<noteq> 0" by auto
    obtain b1 q1 where q: "q = b1 # q1" and b1: "utf8_succ s b1 \<noteq> 12" and r: "foldl utf8_succ (utf8_succ s b1) q1 = 0"
      using run [folded s_def] by (rule run_cont) (simp_all add: \<open>s \<noteq> 0\<close>)
    have "(if b0 = 0xE0 then 0xA0 else 0x80) \<le> b1" "b1 < (if b0 = 0xED then 0xA0 else 0xC0)" "utf8_succ s b1 = 24"
      using b1 s by (auto simp: utf8_succ_def split: if_splits)
    moreover obtain b2 q2 where "q1 = b2 # q2" "0x80 \<le> b2" "b2 < 0xC0" "foldl utf8_succ 0 q2 = 0"
      using r \<open>utf8_succ s b1 = 24\<close> run_24 by metis
    ultimately show ?thesis using 3 by (intro exI [of _ "[b0, b1, b2]"] exI [of _ q2]) (auto simp: bs q)
  next
    case 4
    define s where "s = utf8_succ 0 b0"
    have s: "s = (if b0 = 0xF0 then 72 else if b0 = 0xF4 then 96 else 84)" using 4 by (auto simp: s_def utf8_succ_def)
    then have "s \<noteq> 0" by auto
    obtain b1 q1 where q: "q = b1 # q1" and b1: "utf8_succ s b1 \<noteq> 12" and r: "foldl utf8_succ (utf8_succ s b1) q1 = 0"
      using run [folded s_def] by (rule run_cont) (simp_all add: \<open>s \<noteq> 0\<close>)
    have "(if b0 = 0xF0 then 0x90 else 0x80) \<le> b1" "b1 < (if b0 = 0xF4 then 0x90 else 0xC0)" "utf8_succ s b1 = 36"
      using b1 s by (auto simp: utf8_succ_def split: if_splits)
    moreover obtain b2 b3 q2 where "q1 = b2 # b3 # q2" "0x80 \<le> b2" "b2 < 0xC0" "0x80 \<le> b3" "b3 < 0xC0" "foldl utf8_succ 0 q2 = 0"
      using r \<open>utf8_succ s b1 = 36\<close> run_36 by metis
    ultimately show ?thesis using 4 by (intro exI [of _ "[b0, b1, b2, b3]"] exI [of _ q2]) (auto simp: bs q)
  next
    case 5
    then have "utf8_succ 0 b0 = 12" by (auto simp: utf8_succ_def)
    then show ?thesis using run run_reject [of q] by simp
  qed
qed

section \<open>Encoded strings\<close>

abbreviation utf8_text :: "u32 list \<Rightarrow> u8 list" where
  "utf8_text cs \<equiv> concat (map utf8_encode cs)"

lemma scalar_unat: "utf8_scalar c \<longleftrightarrow> scalar_nat (unat c)"
  by (auto simp: utf8_scalar_def word_less_nat_alt word_le_nat_alt)

lemma encode_wf: "utf8_scalar c \<Longrightarrow> utf8_wf (map unat (utf8_encode c)) \<and> utf8_value (map unat (utf8_encode c)) = unat c"
  using bytes_wf [of "unat c"] by (simp add: utf8_encode_bytes scalar_unat)

lemma wf_encode:
  assumes "utf8_wf (map unat bs)"
  shows "\<exists>c. utf8_scalar c \<and> utf8_encode c = bs"
proof -
  define n where "n = utf8_value (map unat bs)"
  have n: "scalar_nat n" and bytes: "utf8_bytes n = map unat bs" using wf_bytes [OF assms] by (simp_all add: n_def)
  have un: "unat (of_nat n :: u32) = n" using n by (simp add: unat_of_nat)
  then have c: "utf8_scalar (of_nat n)" using n by (simp add: scalar_unat)
  have "map unat (utf8_encode (of_nat n)) = map unat bs" using utf8_encode_bytes [OF c] un bytes by simp
  then have "utf8_encode (of_nat n) = bs" by (rule map_injective) (simp add: inj_def word_unat_eq_iff)
  with c show ?thesis by blast
qed

lemma next_encode:
  assumes "utf8_scalar c" "state d = 0"
  shows "utf8_next d (utf8_encode c @ rest) = Some (\<lparr>state = 0, codep = c\<rparr>, rest)"
proof -
  obtain e where e: "utf8_next d (utf8_encode c @ rest) = Some (e, rest)" "state e = 0" "unat (codep e) = unat c"
    using utf8_next_wf [OF assms(2), of "utf8_encode c" rest] encode_wf [OF assms(1)] by auto
  have "e = \<lparr>state = 0, codep = c\<rparr>" using e(2,3) by (intro utf8_decode_t.equality) (simp_all add: word_unat_eq_iff)
  with e(1) show ?thesis by simp
qed

lemma size_encode: "utf8_scalar c \<Longrightarrow> utf8_chr_size (hd (utf8_encode c)) = length (utf8_encode c)"
proof -
  assume "utf8_scalar c"
  then have wf: "utf8_wf (map unat (utf8_encode c))" using encode_wf by blast
  then show ?thesis
    by (cases rule: utf8_wf_cases) (use wf in \<open>auto simp: utf8_chr_size_def word_less_nat_alt\<close>)
qed

text \<open>C32: decoding is the inverse of encoding: for every Unicode scalar value (no surrogate, below
  U+110000) the table-driven decoder reads the code point back from the bytes \<open>utf8_encode\<close> wrote, stops
  right behind them in its start state whatever follows, and \<open>utf8_chr_size\<close> finds the length of the
  sequence in its first byte.\<close>

theorem utf8_encode_decode:
  assumes "utf8_scalar c"
  shows "utf8_next \<lparr>state = 0, codep = x\<rparr> (utf8_encode c @ rest) = Some (\<lparr>state = 0, codep = c\<rparr>, rest) \<and>
    utf8_peek (utf8_encode c @ rest) = Some c \<and> utf8_chr_size (hd (utf8_encode c)) = length (utf8_encode c)"
  using next_encode [OF assms, of "\<lparr>state = 0, codep = x\<rparr>"] next_encode [OF assms, of utf8_start] size_encode [OF assms]
  by (simp add: utf8_peek_def utf8_start_def)

theorem utf8_encode_decode_witness:
  "utf8_peek (utf8_encode 0x20AC @ [0x41, 0]) = Some 0x20AC"
  using utf8_encode_decode [where c = "0x20AC" and rest = "[0x41, 0]"] by (simp add: utf8_scalar_def)

section \<open>Validity\<close>

lemma run_text: "\<forall>c \<in> set cs. utf8_scalar c \<Longrightarrow> state d = 0 \<Longrightarrow> state (run_decoder d (utf8_text cs)) = 0"
proof (induction cs arbitrary: d)
  case (Cons c cs)
  have "utf8_next d (utf8_encode c @ []) = Some (\<lparr>state = 0, codep = c\<rparr>, [])"
    using Cons.prems by (intro next_encode) simp_all
  then have "run_decoder d (utf8_encode c) = \<lparr>state = 0, codep = c\<rparr>" using run_next by fastforce
  then show ?case using Cons by simp
qed simp

lemma accepted_text:
  "foldl utf8_succ 0 (map unat bs) = 0 \<Longrightarrow> \<exists>cs. (\<forall>c \<in> set cs. utf8_scalar c) \<and> bs = utf8_text cs"
proof (induction bs rule: length_induct)
  case (1 bs)
  show ?case
  proof (cases "bs = []")
    case False
    then obtain p q where pq: "map unat bs = p @ q" "utf8_wf p" "foldl utf8_succ 0 q = 0"
      using run_first [OF 1(2)] by auto
    then obtain bp bq where b: "bs = bp @ bq" "p = map unat bp" "q = map unat bq"
      by (auto simp: map_eq_append_conv)
    obtain c where c: "utf8_scalar c" "utf8_encode c = bp" using wf_encode pq(2) b(2) by blast
    have "length bq < length bs" using pq(2) b by (cases bp) auto
    then obtain cs where "\<forall>c \<in> set cs. utf8_scalar c" "bq = utf8_text cs" using 1(1) pq(3) b(3) by blast
    then show ?thesis using c b(1) by (intro exI [of _ "c # cs"]) auto
  qed (auto intro: exI [of _ "[]"])
qed

lemma accepted_iff:
  "state (run_decoder utf8_start bs) = 0 \<longleftrightarrow> (\<exists>cs. (\<forall>c \<in> set cs. utf8_scalar c) \<and> bs = utf8_text cs)"
  using accepted_text [of bs] run_text [of _ utf8_start]
  by (auto simp: state_run utf8_start_def utf8_states_def)

lemma valid_loop: "0 \<notin> set bs \<Longrightarrow> n = length bs \<or> length bs \<le> n \<and> b = 0 \<Longrightarrow>
    utf8_valid_loop d (bs @ b # rest) n = Some (run_decoder d bs)"
proof (induction bs arbitrary: d n)
  case (Cons a bs)
  have "utf8_valid_loop (utf8_decode d a) (bs @ b # rest) (n - 1) = Some (run_decoder (utf8_decode d a) bs)"
    by (rule Cons.IH) (use Cons.prems in auto)
  then show ?case using Cons.prems by auto
qed auto

text \<open>C33: \<open>utf8_valid_n\<close> on a view without zero bytes and \<open>utf8_valid\<close> on a zero-terminated string accept
  exactly the encodings of sequences of Unicode scalar values: no overlong form, no surrogate, nothing
  from U+110000 on, no truncated and no stray continuation byte passes, and every encoded string does.\<close>

theorem utf8_valid_iff:
  assumes "0 \<notin> set bs" "length bs < 2 ^ 63"
  shows "utf8_valid_n (bs @ b # rest) (length bs) =
      Some (\<exists>cs. (\<forall>c \<in> set cs. utf8_scalar c) \<and> bs = utf8_text cs) \<and>
    utf8_valid (bs @ 0 # rest) = Some (\<exists>cs. (\<forall>c \<in> set cs. utf8_scalar c) \<and> bs = utf8_text cs)"
  using assms by (simp add: utf8_valid_def utf8_valid_n_def valid_loop accepted_iff)

theorem utf8_valid_iff_witness:
  "\<not> (\<exists>cs. (\<forall>c \<in> set cs. utf8_scalar c) \<and> [0xED, 0xA0, 0x80] = utf8_text cs)"
proof -
  have "state (run_decoder utf8_start [0xED, 0xA0, 0x80]) \<noteq> 0"
    by (simp add: state_run state_decode utf8_start_def utf8_states_def utf8_succ_def)
  then have "utf8_valid_n ([0xED, 0xA0, 0x80] @ 0 # []) (length [0xED, 0xA0, 0x80 :: u8]) = Some False"
    using valid_loop [of "[0xED, 0xA0, 0x80]" 3 0 utf8_start "[]"] by (simp add: utf8_valid_n_def)
  then show ?thesis
    using utf8_valid_iff [where bs = "[0xED, 0xA0, 0x80]" and b = 0 and rest = "[]"] by simp
qed

section \<open>Counting and locating code points\<close>

lemma is_lead_nat: "n < 256 \<Longrightarrow> n AND 192 = n div 64 * (64::nat)"
proof -
  assume n: "n < 256"
  have "n AND 192 = push_bit 6 (drop_bit 6 (take_bit 8 n))"
  proof (rule bit_eqI)
    fix i
    have "push_bit 6 (mask 2 :: nat) = 192" by (simp add: mask_eq_exp_minus_1)
    moreover have "bit (push_bit 6 (mask 2 :: nat)) i \<longleftrightarrow> 6 \<le> i \<and> i < 8"
      by (auto simp: bit_push_bit_iff bit_mask_iff)
    ultimately have "bit (192::nat) i \<longleftrightarrow> 6 \<le> i \<and> i < 8" by simp
    then show "bit (n AND 192) i \<longleftrightarrow> bit (push_bit 6 (drop_bit 6 (take_bit 8 n))) i"
      by (auto simp: bit_and_iff bit_push_bit_iff bit_drop_bit_eq bit_take_bit_iff)
  qed
  also have "take_bit 8 n = n" using n by (simp add: take_bit_nat_eq_self)
  finally show ?thesis by (simp add: push_bit_eq_mult drop_bit_eq_div)
qed

lemma is_lead_iff: "utf8_is_lead b \<longleftrightarrow> unat b < 0x80 \<or> 0xC0 \<le> unat b"
proof -
  have "utf8_is_lead b \<longleftrightarrow> unat (b AND 0xC0) \<noteq> unat (0x80 :: u8)"
    unfolding utf8_is_lead_def by (simp only: word_unat_eq_iff)
  also have "\<dots> \<longleftrightarrow> unat b AND 192 \<noteq> 128" by (simp add: unsigned_and_eq)
  also have "\<dots> \<longleftrightarrow> unat b < 128 \<or> 192 \<le> unat b"
    using is_lead_nat [OF unat_u8_less [of b]] by (simp, linarith)
  finally show ?thesis .
qed

lemma encode_split:
  assumes "utf8_scalar c" "c \<noteq> 0"
  obtains b bs where "utf8_encode c = b # bs" "utf8_is_lead b" "0 \<notin> set (b # bs)" "\<forall>x \<in> set bs. \<not> utf8_is_lead x"
proof -
  have wf: "utf8_wf (map unat (utf8_encode c))" and v: "utf8_value (map unat (utf8_encode c)) = unat c"
    using encode_wf [OF assms(1)] by auto
  have c: "unat c \<noteq> 0" using assms(2) by (simp add: unat_eq_0)
  have nz: "x \<noteq> 0 \<longleftrightarrow> unat x \<noteq> 0" for x :: u8 by (simp add: unat_eq_0)
  show thesis
    using wf
    by (cases rule: utf8_wf_cases)
      (use wf v c in \<open>auto simp: is_lead_iff nz split: if_splits intro!: that\<close>)
qed

text \<open>What begins with a code point, the terminator included, begins with a byte that is counted.\<close>

definition starts_lead :: "u8 list \<Rightarrow> bool" where
  "starts_lead s \<longleftrightarrow> s \<noteq> [] \<and> utf8_is_lead (hd s)"

lemma is_lead_0 [simp]: "utf8_is_lead 0"
  by (simp add: is_lead_iff)

lemma text_starts_lead: "\<forall>c \<in> set cs. utf8_scalar c \<and> c \<noteq> 0 \<Longrightarrow> starts_lead (utf8_text cs @ 0 # rest)"
proof (cases cs)
  case (Cons c cs')
  assume "\<forall>c \<in> set cs. utf8_scalar c \<and> c \<noteq> 0"
  then have "utf8_scalar c" "c \<noteq> 0" using Cons by auto
  then obtain b bs where "utf8_encode c = b # bs" "utf8_is_lead b" by (rule encode_split)
  then show ?thesis by (simp add: starts_lead_def Cons)
qed (simp add: starts_lead_def)

lemma size_step:
  "b \<noteq> 0 \<Longrightarrow> utf8_size (b # x # s) = map_option (\<lambda>n. n + (if utf8_is_lead x then 1 else 0)) (utf8_size (x # s))"
  by (simp only: utf8_size.simps(2) [of b] list.case if_True simp_thms not_False_eq_True)

lemma at_step: "b \<noteq> 0 \<Longrightarrow> utf8_at (b # x # s) (Suc i) = utf8_at (x # s) (if utf8_is_lead x then i else Suc i)"
  by (simp only: utf8_at.simps(2) [of b] list.case if_True simp_thms not_False_eq_True zero_less_Suc diff_Suc_1)

lemma over_char:
  assumes "0 \<notin> set (b # bs)" "\<forall>x \<in> set bs. \<not> utf8_is_lead x" "starts_lead s"
  shows "utf8_size (b # bs @ s) = map_option Suc (utf8_size s) \<and> utf8_at (b # bs @ s) (Suc i) = utf8_at s i"
  using assms(1,2)
proof (induction bs arbitrary: b)
  case Nil
  obtain x t where s: "s = x # t" "utf8_is_lead x" using assms(3) by (cases s) (auto simp: starts_lead_def)
  have "b \<noteq> 0" using Nil by simp
  moreover have S: "(\<lambda>n. n + 1) = Suc" by auto
  ultimately show ?case using s(2) unfolding append_Nil s(1)
    by (simp only: size_step at_step if_True S simp_thms)
next
  case (Cons x bs)
  then have b: "b \<noteq> 0" "\<not> utf8_is_lead x" by auto
  have "utf8_size (x # bs @ s) = map_option Suc (utf8_size s) \<and> utf8_at (x # bs @ s) (Suc i) = utf8_at s i"
    by (rule Cons.IH) (use Cons.prems in auto)
  then show ?case unfolding append_Cons size_step [OF b(1)] at_step [OF b(1)]
    by (simp add: b(2) option.map_comp o_def del: utf8_size.simps utf8_at.simps)
qed

text \<open>On the zero-terminated encoding of a sequence of nonzero scalar values \<open>utf8_size\<close> returns their
  number, \<open>utf8_at\<close> the string from the code point with the given index on (the terminator when the
  index is too large), \<open>utf8_pos\<close> the number of bytes before it.\<close>

lemma utf8_size_at:
  assumes "\<forall>c \<in> set cs. utf8_scalar c \<and> c \<noteq> 0"
  shows "utf8_size (utf8_text cs @ 0 # rest) = Some (length cs) \<and>
    utf8_at (utf8_text cs @ 0 # rest) i = Some (utf8_text (drop i cs) @ 0 # rest) \<and>
    utf8_pos (utf8_text cs @ 0 # rest) i = Some (length (utf8_text (take i cs)))"
proof -
  have size: "utf8_size (utf8_text cs @ 0 # rest) = Some (length cs)"
    using assms
  proof (induction cs)
    case (Cons c cs)
    then have "utf8_scalar c" "c \<noteq> 0" by auto
    then obtain b bs where "utf8_encode c = b # bs" "utf8_is_lead b" "0 \<notin> set (b # bs)" "\<forall>x \<in> set bs. \<not> utf8_is_lead x"
      by (rule encode_split)
    then show ?case using Cons over_char [of b bs] text_starts_lead [of cs rest] by simp
  qed simp
  have at: "utf8_at (utf8_text cs @ 0 # rest) i = Some (utf8_text (drop i cs) @ 0 # rest)"
    using assms
  proof (induction cs arbitrary: i)
    case (Cons c cs)
    then have "utf8_scalar c" "c \<noteq> 0" by auto
    then obtain b bs where bs: "utf8_encode c = b # bs" "utf8_is_lead b" "0 \<notin> set (b # bs)" "\<forall>x \<in> set bs. \<not> utf8_is_lead x"
      by (rule encode_split)
    then show ?case using Cons over_char [of b bs] text_starts_lead [of cs rest]
      by (cases i) (simp_all del: utf8_size.simps)
  qed simp
  have "length (utf8_text cs) = length (utf8_text (take i cs)) + length (utf8_text (drop i cs))"
    by (metis append_take_drop_id concat_append length_append map_append)
  then show ?thesis using size at by (simp add: utf8_pos_def)
qed

section \<open>Case-insensitive comparison\<close>

text \<open>The difference of the first folded code points that differ.\<close>

fun fold_diff :: "u32 list \<Rightarrow> u32 list \<Rightarrow> int option" where
  "fold_diff (a # as) (b # bs) =
    (let d = int (utf8_casefold (unat a)) - int (utf8_casefold (unat b))
     in if d \<noteq> 0 then Some d else fold_diff as bs)"
| "fold_diff _ _ = None"

lemma c_int_mod: "c_int z = (z + 2 ^ 31) mod 2 ^ 32 - 2 ^ 31"
  by (simp add: c_int_def sint_sbintrunc' signed_take_bit_eq_take_bit_shift take_bit_eq_mod)

lemma icmp_loop_text:
  assumes "\<forall>c \<in> set as. utf8_scalar c \<and> c \<noteq> 0" "\<forall>c \<in> set bs. utf8_scalar c \<and> c \<noteq> 0"
    and "length as < fuel"
  shows "utf8_icmp_loop fuel (p @ utf8_text as @ r) (length p + length (utf8_text as))
      (q @ utf8_text bs @ t) (length q + length (utf8_text bs)) (length p) (length q) =
    Some (case fold_diff as bs of Some d \<Rightarrow> d
      | None \<Rightarrow> c_int (int (length p + length (utf8_text as)) - int (length q + length (utf8_text bs))))"
  using assms
proof (induction fuel arbitrary: as bs p q)
  case (Suc fuel)
  have pos: "utf8_scalar c \<Longrightarrow> c \<noteq> 0 \<Longrightarrow> utf8_encode c \<noteq> []" for c by (metis encode_split list.discI)
  show ?case
  proof (cases "as = [] \<or> bs = []")
    case True
    then show ?thesis by auto
  next
    case False
    then obtain a as' b bs' where ab: "as = a # as'" "bs = b # bs'" by (meson neq_Nil_conv)
    then have a: "utf8_scalar a" "a \<noteq> 0" and b: "utf8_scalar b" "b \<noteq> 0" using Suc.prems by auto
    obtain x xs where ea: "utf8_encode a = x # xs" "0 \<notin> set (x # xs)" using a by (rule encode_split)
    obtain y ys where eb: "utf8_encode b = y # ys" "0 \<notin> set (y # ys)" using b by (rule encode_split)
    have na: "utf8_next utf8_start (utf8_encode a @ z) = Some (\<lparr>state = 0, codep = a\<rparr>, z)" for z
      using a by (intro next_encode) (simp_all add: utf8_start_def)
    have nb: "utf8_next utf8_start (utf8_encode b @ z) = Some (\<lparr>state = 0, codep = b\<rparr>, z)" for z
      using b by (intro next_encode) (simp_all add: utf8_start_def)
    have last_b: "(q @ utf8_encode b @ z) ! (length q + length (utf8_encode b) - 1) \<noteq> 0" for z
    proof -
      have "(q @ utf8_encode b @ z) ! (length q + length (utf8_encode b) - 1) = (y # ys) ! length ys"
        by (simp add: nth_append eb nth_Cons split: nat.split)
      then show ?thesis using eb(2) by (metis length_Cons lessI nth_mem)
    qed
    let ?p = "p @ utf8_encode a" and ?q = "q @ utf8_encode b"
    have IH: "utf8_icmp_loop fuel (?p @ utf8_text as' @ r) (length ?p + length (utf8_text as'))
        (?q @ utf8_text bs' @ t) (length ?q + length (utf8_text bs')) (length ?p) (length ?q) =
      Some (case fold_diff as' bs' of Some d \<Rightarrow> d
        | None \<Rightarrow> c_int (int (length ?p + length (utf8_text as')) - int (length ?q + length (utf8_text bs'))))"
      using Suc.prems ab by (intro Suc.IH) auto
    have "length p < length p + length (utf8_text as)" "length q < length q + length (utf8_text bs)"
      using pos [OF a] pos [OF b] by (simp_all add: ab)
    then show ?thesis
      using IH last_b [of "utf8_text bs' @ t"]
      unfolding ab utf8_icmp_loop.simps(2) by (auto simp: na nb Let_def add.assoc split: option.split)
  qed
qed simp

text \<open>C38: comparing two encoded strings of nonzero scalar values without regard to case returns the
  difference of the first case-folded code points that differ; when one folds to a prefix of the other,
  or both fold to the same, it returns the difference of the sizes in bytes, converted to \<open>int\<close>: this is the
  difference itself when it is between \<open>-2 ^ 31\<close> and \<open>2 ^ 31 - 1\<close>, and 0 for sizes that differ by \<open>2 ^ 32\<close>.\<close>

theorem utf8_icmp_text:
  assumes "\<forall>c \<in> set as. utf8_scalar c \<and> c \<noteq> 0" "\<forall>c \<in> set bs. utf8_scalar c \<and> c \<noteq> 0"
  shows "utf8_icmp_sv (utf8_text as @ r) (length (utf8_text as)) (utf8_text bs @ t) (length (utf8_text bs)) =
    Some (case fold_diff as bs of Some d \<Rightarrow> d | None \<Rightarrow>
      (int (length (utf8_text as)) - int (length (utf8_text bs)) + 2 ^ 31) mod 2 ^ 32 - 2 ^ 31)"
proof -
  have "length as \<le> length (utf8_text as)"
    using assms(1)
  proof (induction as)
    case (Cons c cs)
    then have "utf8_scalar c" "c \<noteq> 0" by auto
    then obtain b bs where "utf8_encode c = b # bs" by (rule encode_split)
    then show ?case using Cons by simp
  qed simp
  then show ?thesis
    using icmp_loop_text [OF assms, of "length (utf8_text as @ r) + 1" "[]" r "[]" t]
    by (simp add: utf8_icmp_sv_def c_int_mod del: utf8_icmp_loop.simps cong: option.case_cong)
qed

text \<open>
  The Kelvin sign U+212A folds to the letter k, so the two strings differ in case only; their sizes
  differ, and the comparison says 2 instead of 0.
\<close>

theorem utf8_icmp_text_witness:
  "utf8_icmp_sv (utf8_encode 0x212A @ [0]) 3 (utf8_encode 0x6B @ [0]) 1 = Some 2 \<and>
    utf8_casefold 0x212A = utf8_casefold 0x6B"
proof -
  have fold: "utf8_casefold 0x212A = 0x6B" "utf8_casefold 0x6B = 0x6B"
    by (simp_all add: utf8_casefold_def casefold_len_def casemappings_def casemappings_latin_def
        casemappings_greek_on_def casemappings_extra_def CM_def)
  have "length (utf8_text [0x212A]) = 3" "length (utf8_text [0x6B]) = 1" by (simp_all add: utf8_encode_def)
  then show ?thesis
    using utf8_icmp_text [of "[0x212A]" "[0x6B]" "[0]" "[0]"] fold by (simp add: utf8_scalar_def)
qed

end
