(* ===== verification/Utf8_Case.thy ===== *)
theory Utf8_Case
  imports Utf8
begin

text \<open>
  The case mappings and the character classes of STC's UTF-8 code: the three case searches are stable
  (a result is its own image), they agree with \<open>ctype.h\<close> on ASCII, and the early exit of the range
  search is right because the tables are sorted. Stability is a check on the tables, which the lemmas
  of the first section make linear in the table for each entry.
\<close>

section \<open>Stable tables\<close>

text \<open>
  \<open>f i\<close> is the i-th of \<open>N\<close> entries. \<open>fixed_up f n i lo hi\<close>: the search through the \<open>n\<close> entries from \<open>i\<close>
  on maps no code point of the interval; \<open>stable_up f N n i\<close>: what these entries map to is not mapped by
  the whole table.
\<close>

fun fixed_up :: "(nat \<Rightarrow> CaseMapping) \<Rightarrow> nat \<Rightarrow> nat \<Rightarrow> nat \<Rightarrow> nat \<Rightarrow> bool" where
  "fixed_up f 0 i lo hi = True"
| "fixed_up f (Suc n) i lo hi =
    (if hi < map_c1 (f i) then True
     else if map_c2 (f i) < lo then fixed_up f n (i + 1) lo hi
     else map_m2 (f i) = map_c2 (f i) + 1 \<and> lo = hi \<and> hi mod 2 \<noteq> map_c2 (f i) mod 2)"

fun stable_up :: "(nat \<Rightarrow> CaseMapping) \<Rightarrow> nat \<Rightarrow> nat \<Rightarrow> nat \<Rightarrow> bool" where
  "stable_up f N 0 i = True"
| "stable_up f N (Suc n) i =
    ((map_c1 (f i) \<le> map_c2 (f i) \<and>
     (if map_m2 (f i) = map_c2 (f i) + 1 then fixed_up f n (i + 1) (map_m2 (f i)) (map_m2 (f i))
      else map_c2 (f i) \<le> map_c1 (f i) + map_m2 (f i) \<and>
        fixed_up f N 0 (map_c1 (f i) + map_m2 (f i) - map_c2 (f i)) (map_m2 (f i)))) \<and>
     stable_up f N n (i + 1))"

text \<open>The same for the search downwards; the entries are in the order of their last targets.\<close>

fun fixed_down :: "(nat \<Rightarrow> CaseMapping) \<Rightarrow> nat \<Rightarrow> nat \<Rightarrow> nat \<Rightarrow> nat \<Rightarrow> bool" where
  "fixed_down f 0 i lo hi = True"
| "fixed_down f (Suc n) i lo hi =
    (if map_m2 (f i) < lo then fixed_down f n (i + 1) lo hi
     else if hi + map_c2 (f i) < map_c1 (f i) + map_m2 (f i) then True
     else map_m2 (f i) = map_c2 (f i) + 1 \<and> lo = hi \<and> hi mod 2 \<noteq> map_m2 (f i) mod 2)"

fun stable_down :: "(nat \<Rightarrow> CaseMapping) \<Rightarrow> nat \<Rightarrow> nat \<Rightarrow> nat \<Rightarrow> nat \<Rightarrow> bool" where
  "stable_down f N before 0 i = True"
| "stable_down f N before (Suc n) i =
    ((map_c1 (f i) \<le> map_c2 (f i) \<and> before \<le> map_m2 (f i) + 1 \<and>
     (if map_m2 (f i) = map_c2 (f i) + 1 then before \<le> map_c1 (f i)
      else fixed_down f N 0 (map_c1 (f i)) (map_c2 (f i)))) \<and>
     stable_down f N (map_m2 (f i) + 1) n (i + 1))"

lemma stable_up_ordered: "stable_up f N n i \<Longrightarrow> i \<le> k \<Longrightarrow> k < i + n \<Longrightarrow> map_c1 (f k) \<le> map_c2 (f k)"
proof (induction n arbitrary: i)
  case (Suc n)
  then show ?case using Suc.IH [of "Suc i"] by (cases "k = i") auto
qed simp

lemma stable_down_ordered:
  "stable_down f N before n i \<Longrightarrow> i \<le> k \<Longrightarrow> k < i + n \<Longrightarrow> map_c1 (f k) \<le> map_c2 (f k)"
proof (induction n arbitrary: i before)
  case (Suc n)
  then show ?case using Suc.IH [of _ "Suc i"] by (cases "k = i") auto
qed simp

lemma search_up_skip:
  "i \<le> j \<Longrightarrow> j \<le> N \<Longrightarrow> (\<And>k. i \<le> k \<Longrightarrow> k < j \<Longrightarrow> map_c2 (f k) < t) \<Longrightarrow>
    case_search_up (map f [i..<N]) t = case_search_up (map f [j..<N]) t"
proof (induction "j - i" arbitrary: i)
  case (Suc d)
  then have e: "\<not> t \<le> map_c2 (f i)" and up: "[i..<N] = i # [Suc i..<N]"
    by (auto simp: upt_conv_Cons not_le)
  have "case_search_up (map f [Suc i..<N]) t = case_search_up (map f [j..<N]) t"
    by (rule Suc.hyps(1)) (use Suc.prems Suc.hyps(2) in auto)
  then show ?case using e by (simp add: up)
qed simp

lemma search_down_skip:
  "i \<le> j \<Longrightarrow> j \<le> N \<Longrightarrow> (\<And>k. i \<le> k \<Longrightarrow> k < j \<Longrightarrow> map_m2 (f k) < t) \<Longrightarrow>
    case_search_down (map f [i..<N]) t = case_search_down (map f [j..<N]) t"
proof (induction "j - i" arbitrary: i)
  case (Suc d)
  then have e: "\<not> t \<le> map_m2 (f i)" and up: "[i..<N] = i # [Suc i..<N]"
    by (auto simp: upt_conv_Cons not_le)
  have "case_search_down (map f [Suc i..<N]) t = case_search_down (map f [j..<N]) t"
    by (rule Suc.hyps(1)) (use Suc.prems Suc.hyps(2) in auto)
  then show ?case using e by (simp add: up)
qed simp

lemma fixed_up_sound:
  assumes "fixed_up f n i lo hi" "i + n = N" "lo \<le> t" "t \<le> hi"
    "\<And>k. i \<le> k \<Longrightarrow> k < N \<Longrightarrow> map_c1 (f k) \<le> map_c2 (f k)"
  shows "case_search_up (map f [i..<N]) t = t"
  using assms
proof (induction n arbitrary: i)
  case (Suc n)
  then have up: "[i..<N] = i # [Suc i..<N]" and le: "map_c1 (f i) \<le> map_c2 (f i)"
    by (auto simp: upt_conv_Cons)
  have "fixed_up f n (Suc i) lo hi \<Longrightarrow> case_search_up (map f [Suc i..<N]) t = t"
    using Suc.IH [of "Suc i"] Suc.prems by simp
  then show ?case
    using Suc.prems(1,3,4) le unfolding up by (auto simp: Let_def split: if_splits)
qed simp

lemma fixed_down_sound:
  assumes "fixed_down f n i lo hi" "i + n = N" "lo \<le> t" "t \<le> hi"
    "\<And>k. i \<le> k \<Longrightarrow> k < N \<Longrightarrow> map_c1 (f k) \<le> map_c2 (f k)"
  shows "case_search_down (map f [i..<N]) t = t"
  using assms
proof (induction n arbitrary: i)
  case (Suc n)
  then have up: "[i..<N] = i # [Suc i..<N]" and le: "map_c1 (f i) \<le> map_c2 (f i)"
    by (auto simp: upt_conv_Cons)
  have "fixed_down f n (Suc i) lo hi \<Longrightarrow> case_search_down (map f [Suc i..<N]) t = t"
    using Suc.IH [of "Suc i"] Suc.prems by simp
  then show ?case
    using Suc.prems(1,3,4) le unfolding up by (auto simp: Let_def split: if_splits)
qed simp

lemma case_search_up_stable:
  assumes "stable_up f N n i" "i + n = N" "\<And>k. k < i \<Longrightarrow> map_c2 (f k) < c"
    "\<And>k. k < N \<Longrightarrow> map_c1 (f k) \<le> map_c2 (f k)"
  shows "case_search_up (map f [0..<N]) (case_search_up (map f [i..<N]) c) = case_search_up (map f [i..<N]) c"
  using assms
proof (induction n arbitrary: i)
  case 0
  then show ?case using search_up_skip [of 0 i N f c] by simp
next
  case (Suc n)
  let ?e = "f i" and ?S = "case_search_up (map f [0..<N])"
  have up: "[i..<N] = i # [Suc i..<N]" and le: "map_c1 ?e \<le> map_c2 ?e"
    using Suc.prems by (auto simp: upt_conv_Cons)
  have skip: "?S t = case_search_up (map f [i..<N]) t" if "c \<le> t" for t
    by (rule search_up_skip) (use Suc.prems that in force)+
  consider "map_c2 ?e < c" | "c < map_c1 ?e" | "map_c1 ?e \<le> c" "c \<le> map_c2 ?e" by linarith
  then show ?case
  proof cases
    case 1
    then show ?thesis using Suc.IH [of "Suc i"] Suc.prems by (auto simp: up less_Suc_eq)
  next
    case 2
    then show ?thesis using skip [of c] le by (simp add: up)
  next
    case 3
    show ?thesis
    proof (cases "map_m2 ?e = map_c2 ?e + 1")
      case True
      define t where "t = c + (if map_c2 ?e mod 2 = c mod 2 then 1 else 0)"
      have t: "case_search_up (map f [i..<N]) c = t" using 3 True by (simp add: up t_def)
      have "case_search_up (map f [i..<N]) t = t"
      proof (cases "t \<le> map_c2 ?e")
        case True
        moreover have "t mod 2 \<noteq> map_c2 ?e mod 2" unfolding t_def by presburger
        ultimately show ?thesis using 3 \<open>map_m2 ?e = map_c2 ?e + 1\<close> by (simp add: up t_def)
      next
        case False
        then have "t = map_m2 ?e" using 3 True by (auto simp: t_def split: if_splits)
        moreover have "fixed_up f n (Suc i) (map_m2 ?e) (map_m2 ?e)" using Suc.prems(1) True by simp
        ultimately have "case_search_up (map f [Suc i..<N]) t = t"
          using Suc.prems(2,4) by (intro fixed_up_sound [where n = n and lo = t and hi = t]) auto
        then show ?thesis using False by (simp add: up)
      qed
      then show ?thesis using t skip [of t] by (simp add: t_def)
    next
      case False
      define t where "t = c + map_m2 ?e - map_c2 ?e"
      have fx: "fixed_up f N 0 (map_c1 ?e + map_m2 ?e - map_c2 ?e) (map_m2 ?e)"
        and pos: "map_c2 ?e \<le> map_c1 ?e + map_m2 ?e"
        using Suc.prems(1) False by auto
      have "case_search_up (map f [i..<N]) c = t"
        using 3 False pos by (auto simp: up t_def Let_def)
      moreover have "?S t = t"
        using 3 pos Suc.prems(4) by (intro fixed_up_sound [OF fx]) (auto simp: t_def)
      ultimately show ?thesis by simp
    qed
  qed
qed

lemma case_search_down_stable:
  assumes "stable_down f N before n i" "i + n = N" "\<And>k. k < i \<Longrightarrow> map_m2 (f k) < before"
    "\<And>k. k < i \<Longrightarrow> map_m2 (f k) < c"
    "\<And>k. k < N \<Longrightarrow> map_c1 (f k) \<le> map_c2 (f k)"
  shows "case_search_down (map f [0..<N]) (case_search_down (map f [i..<N]) c) = case_search_down (map f [i..<N]) c"
  using assms
proof (induction n arbitrary: i before)
  case 0
  then show ?case using search_down_skip [of 0 i N f c] by simp
next
  case (Suc n)
  let ?e = "f i" and ?S = "case_search_down (map f [0..<N])"
  have up: "[i..<N] = i # [Suc i..<N]" and le: "map_c1 ?e \<le> map_c2 ?e"
    using Suc.prems by (auto simp: upt_conv_Cons)
  have skip: "?S t = case_search_down (map f [i..<N]) t" if "c \<le> t \<or> before \<le> t" for t
    by (rule search_down_skip) (use Suc.prems that in force)+
  consider "map_m2 ?e < c" | "c \<le> map_m2 ?e" "c + map_c2 ?e < map_c1 ?e + map_m2 ?e"
    | "c \<le> map_m2 ?e" "map_c1 ?e + map_m2 ?e \<le> c + map_c2 ?e" by linarith
  then show ?case
  proof cases
    case 1
    have pre: "map_m2 (f k) < map_m2 ?e + 1" if "k < Suc i" for k
      using that Suc.prems(1) Suc.prems(3) [of k] by (cases "k = i") auto
    have less: "map_m2 (f k) < c" if "k < Suc i" for k
      using that 1 Suc.prems(4) [of k] by (cases "k = i") auto
    have st: "stable_down f N (map_m2 ?e + 1) n (Suc i)"
      using Suc.prems(1) by simp
    have N: "Suc i + n = N" using Suc.prems(2) by linarith
    have "?S (case_search_down (map f [Suc i..<N]) c) = case_search_down (map f [Suc i..<N]) c"
      by (rule Suc.IH [OF st N pre less Suc.prems(5)])
    then show ?thesis using 1 by (simp add: up)
  next
    case 2
    then show ?thesis using skip [of c] le by (simp add: up Let_def)
  next
    case 3
    show ?thesis
    proof (cases "map_m2 ?e = map_c2 ?e + 1")
      case True
      define t where "t = c - (if map_m2 ?e mod 2 = c mod 2 then 1 else 0)"
      have t: "case_search_down (map f [i..<N]) c = t" using 3 True by (simp add: up t_def)
      have c: "map_c1 ?e + 1 \<le> c" using 3 True by simp
      have "x mod 2 \<noteq> Suc x mod 2" for x :: nat by presburger
      then have "(c - 1) mod 2 \<noteq> c mod 2" using c by (cases c) auto
      then have "t mod 2 \<noteq> map_m2 ?e mod 2" by (simp add: t_def)
      moreover have "map_c1 ?e \<le> t" "t \<le> map_m2 ?e" using c 3(1) by (auto simp: t_def)
      moreover have "int (map_m2 ?e) - int (map_c2 ?e) = 1" using True by simp
      ultimately have "case_search_down (map f [i..<N]) t = t" by (auto simp: up Let_def)
      moreover have "before \<le> t" using Suc.prems(1) True \<open>map_c1 ?e \<le> t\<close> by simp
      ultimately show ?thesis using t skip [of t] by simp
    next
      case False
      define t where "t = c + map_c2 ?e - map_m2 ?e"
      have fx: "fixed_down f N 0 (map_c1 ?e) (map_c2 ?e)"
        using Suc.prems(1) False by auto
      have "case_search_down (map f [i..<N]) c = t"
        using 3 False by (auto simp: up t_def Let_def)
      moreover have "?S t = t"
        using 3 Suc.prems(5) by (intro fixed_down_sound [OF fx]) (auto simp: t_def)
      ultimately show ?thesis by simp
    qed
  qed
qed

section \<open>The tables are stable\<close>

text \<open>The searches at numerals, for the simplifier.\<close>

lemma fixed_up_num: "fixed_up f (numeral n) i lo hi = 
    (if hi < map_c1 (f i) then True
     else if map_c2 (f i) < lo then fixed_up f (pred_numeral n) (i + 1) lo hi
     else map_m2 (f i) = map_c2 (f i) + 1 \<and> lo = hi \<and> hi mod 2 \<noteq> map_c2 (f i) mod 2)"
  by (simp add: numeral_eq_Suc)

lemma fixed_down_num: "fixed_down f (numeral n) i lo hi = 
    (if map_m2 (f i) < lo then fixed_down f (pred_numeral n) (i + 1) lo hi
     else if hi + map_c2 (f i) < map_c1 (f i) + map_m2 (f i) then True
     else map_m2 (f i) = map_c2 (f i) + 1 \<and> lo = hi \<and> hi mod 2 \<noteq> map_m2 (f i) mod 2)"
  by (simp add: numeral_eq_Suc)

lemma stable_up_num:
  "stable_up f N (numeral n) i =
    ((map_c1 (f i) \<le> map_c2 (f i) \<and>
     (if map_m2 (f i) = map_c2 (f i) + 1 then fixed_up f (pred_numeral n) (i + 1) (map_m2 (f i)) (map_m2 (f i))
      else map_c2 (f i) \<le> map_c1 (f i) + map_m2 (f i) \<and>
        fixed_up f N 0 (map_c1 (f i) + map_m2 (f i) - map_c2 (f i)) (map_m2 (f i)))) \<and>
     stable_up f N (pred_numeral n) (i + 1))"
  by (simp add: numeral_eq_Suc)

lemma stable_down_num:
  "stable_down f N before (numeral n) i =
    ((map_c1 (f i) \<le> map_c2 (f i) \<and> before \<le> map_m2 (f i) + 1 \<and>
     (if map_m2 (f i) = map_c2 (f i) + 1 then before \<le> map_c1 (f i)
      else fixed_down f N 0 (map_c1 (f i)) (map_c2 (f i)))) \<and>
     stable_down f N (map_m2 (f i) + 1) (pred_numeral n) (i + 1))"
  by (simp add: numeral_eq_Suc)

lemma one_simps:
  "fixed_up f 1 i lo hi = fixed_up f (Suc 0) i lo hi" "fixed_down f 1 i lo hi = fixed_down f (Suc 0) i lo hi"
  "stable_up f N 1 i = stable_up f N (Suc 0) i" "stable_down f N b 1 i = stable_down f N b (Suc 0) i"
  by simp_all

lemma CM_simps [simp]: "map_c1 (CM a b c) = a" "map_c2 (CM a b c) = b" "map_m2 (CM a b c) = c"
  by (simp_all add: CM_def)

lemmas casemapping_defs = casemappings_def casemappings_latin_def casemappings_greek_on_def casemappings_extra_def
definition fold_entry :: "nat \<Rightarrow> CaseMapping" where "fold_entry k = casemappings ! k"
definition up_entry :: "nat \<Rightarrow> CaseMapping" where "up_entry k = casemappings ! (upcase_ind ! k)"
definition down_entry :: "nat \<Rightarrow> CaseMapping" where "down_entry k = casemappings ! (lowcase_ind ! k)"
lemma fold_entry_simps:
  "fold_entry 0 = CM 0x0041 0x005A 0x007A" "fold_entry 1 = CM 0x00B5 0x00B5 0x03BC"
  "fold_entry 2 = CM 0x00C0 0x00D6 0x00F6" "fold_entry 3 = CM 0x00D8 0x00DE 0x00FE"
  "fold_entry 4 = CM 0x0100 0x012E 0x012F" "fold_entry 5 = CM 0x0132 0x0136 0x0137"
  "fold_entry 6 = CM 0x0139 0x0147 0x0148" "fold_entry 7 = CM 0x014A 0x0176 0x0177"
  "fold_entry 8 = CM 0x0178 0x0178 0x00FF" "fold_entry 9 = CM 0x0179 0x017D 0x017E"
  "fold_entry 10 = CM 0x017F 0x017F 0x0073" "fold_entry 11 = CM 0x0181 0x0181 0x0253"
  "fold_entry 12 = CM 0x0182 0x0184 0x0185" "fold_entry 13 = CM 0x0186 0x0186 0x0254"
  "fold_entry 14 = CM 0x0187 0x0187 0x0188" "fold_entry 15 = CM 0x0189 0x018A 0x0257"
  "fold_entry 16 = CM 0x018B 0x018B 0x018C" "fold_entry 17 = CM 0x018E 0x018E 0x01DD"
  "fold_entry 18 = CM 0x018F 0x018F 0x0259" "fold_entry 19 = CM 0x0190 0x0190 0x025B"
  "fold_entry 20 = CM 0x0191 0x0191 0x0192" "fold_entry 21 = CM 0x0193 0x0193 0x0260"
  "fold_entry 22 = CM 0x0194 0x0194 0x0263" "fold_entry 23 = CM 0x0196 0x0196 0x0269"
  "fold_entry 24 = CM 0x0197 0x0197 0x0268" "fold_entry 25 = CM 0x0198 0x0198 0x0199"
  "fold_entry 26 = CM 0x019C 0x019C 0x026F" "fold_entry 27 = CM 0x019D 0x019D 0x0272"
  "fold_entry 28 = CM 0x019F 0x019F 0x0275" "fold_entry 29 = CM 0x01A0 0x01A4 0x01A5"
  "fold_entry 30 = CM 0x01A6 0x01A6 0x0280" "fold_entry 31 = CM 0x01A7 0x01A7 0x01A8"
  "fold_entry 32 = CM 0x01A9 0x01A9 0x0283" "fold_entry 33 = CM 0x01AC 0x01AC 0x01AD"
  "fold_entry 34 = CM 0x01AE 0x01AE 0x0288" "fold_entry 35 = CM 0x01AF 0x01AF 0x01B0"
  "fold_entry 36 = CM 0x01B1 0x01B2 0x028B" "fold_entry 37 = CM 0x01B3 0x01B5 0x01B6"
  "fold_entry 38 = CM 0x01B7 0x01B7 0x0292" "fold_entry 39 = CM 0x01B8 0x01B8 0x01B9"
  "fold_entry 40 = CM 0x01BC 0x01BC 0x01BD" "fold_entry 41 = CM 0x01C4 0x01C4 0x01C6"
  "fold_entry 42 = CM 0x01C5 0x01C5 0x01C6" "fold_entry 43 = CM 0x01C7 0x01C7 0x01C9"
  "fold_entry 44 = CM 0x01C8 0x01C8 0x01C9" "fold_entry 45 = CM 0x01CA 0x01CA 0x01CC"
  "fold_entry 46 = CM 0x01CB 0x01DB 0x01DC" "fold_entry 47 = CM 0x01DE 0x01EE 0x01EF"
  "fold_entry 48 = CM 0x01F1 0x01F1 0x01F3" "fold_entry 49 = CM 0x01F2 0x01F4 0x01F5"
  "fold_entry 50 = CM 0x01F6 0x01F6 0x0195" "fold_entry 51 = CM 0x01F7 0x01F7 0x01BF"
  "fold_entry 52 = CM 0x01F8 0x021E 0x021F" "fold_entry 53 = CM 0x0220 0x0220 0x019E"
  "fold_entry 54 = CM 0x0222 0x0232 0x0233" "fold_entry 55 = CM 0x023A 0x023A 0x2C65"
  "fold_entry 56 = CM 0x023B 0x023B 0x023C" "fold_entry 57 = CM 0x023D 0x023D 0x019A"
  "fold_entry 58 = CM 0x023E 0x023E 0x2C66" "fold_entry 59 = CM 0x0241 0x0241 0x0242"
  "fold_entry 60 = CM 0x0243 0x0243 0x0180" "fold_entry 61 = CM 0x0244 0x0244 0x0289"
  "fold_entry 62 = CM 0x0245 0x0245 0x028C" "fold_entry 63 = CM 0x0246 0x024E 0x024F"
  "fold_entry 64 = CM 0x0345 0x0345 0x03B9" "fold_entry 65 = CM 0x0370 0x0372 0x0373"
  "fold_entry 66 = CM 0x0376 0x0376 0x0377" "fold_entry 67 = CM 0x037F 0x037F 0x03F3"
  "fold_entry 68 = CM 0x0386 0x0386 0x03AC" "fold_entry 69 = CM 0x0388 0x038A 0x03AF"
  "fold_entry 70 = CM 0x038C 0x038C 0x03CC" "fold_entry 71 = CM 0x038E 0x038F 0x03CE"
  "fold_entry 72 = CM 0x0391 0x03A1 0x03C1" "fold_entry 73 = CM 0x03A3 0x03AB 0x03CB"
  "fold_entry 74 = CM 0x03C2 0x03C2 0x03C3" "fold_entry 75 = CM 0x03CF 0x03CF 0x03D7"
  "fold_entry 76 = CM 0x03D0 0x03D0 0x03B2" "fold_entry 77 = CM 0x03D1 0x03D1 0x03B8"
  "fold_entry 78 = CM 0x03D5 0x03D5 0x03C6" "fold_entry 79 = CM 0x03D6 0x03D6 0x03C0"
  "fold_entry 80 = CM 0x03D8 0x03EE 0x03EF" "fold_entry 81 = CM 0x03F0 0x03F0 0x03BA"
  "fold_entry 82 = CM 0x03F1 0x03F1 0x03C1" "fold_entry 83 = CM 0x03F4 0x03F4 0x03B8"
  "fold_entry 84 = CM 0x03F5 0x03F5 0x03B5" "fold_entry 85 = CM 0x03F7 0x03F7 0x03F8"
  "fold_entry 86 = CM 0x03F9 0x03F9 0x03F2" "fold_entry 87 = CM 0x03FA 0x03FA 0x03FB"
  "fold_entry 88 = CM 0x03FD 0x03FF 0x037D" "fold_entry 89 = CM 0x0400 0x040F 0x045F"
  "fold_entry 90 = CM 0x0410 0x042F 0x044F" "fold_entry 91 = CM 0x0460 0x0480 0x0481"
  "fold_entry 92 = CM 0x048A 0x04BE 0x04BF" "fold_entry 93 = CM 0x04C0 0x04C0 0x04CF"
  "fold_entry 94 = CM 0x04C1 0x04CD 0x04CE" "fold_entry 95 = CM 0x04D0 0x052E 0x052F"
  "fold_entry 96 = CM 0x0531 0x0556 0x0586" "fold_entry 97 = CM 0x10A0 0x10C5 0x2D25"
  "fold_entry 98 = CM 0x10C7 0x10C7 0x2D27" "fold_entry 99 = CM 0x10CD 0x10CD 0x2D2D"
  "fold_entry 100 = CM 0x13F8 0x13FD 0x13F5" "fold_entry 101 = CM 0x1C80 0x1C80 0x0432"
  "fold_entry 102 = CM 0x1C81 0x1C81 0x0434" "fold_entry 103 = CM 0x1C82 0x1C82 0x043E"
  "fold_entry 104 = CM 0x1C83 0x1C84 0x0442" "fold_entry 105 = CM 0x1C85 0x1C85 0x0442"
  "fold_entry 106 = CM 0x1C86 0x1C86 0x044A" "fold_entry 107 = CM 0x1C87 0x1C87 0x0463"
  "fold_entry 108 = CM 0x1C88 0x1C88 0xA64B" "fold_entry 109 = CM 0x1C90 0x1CBA 0x10FA"
  "fold_entry 110 = CM 0x1CBD 0x1CBF 0x10FF" "fold_entry 111 = CM 0x1E00 0x1E94 0x1E95"
  "fold_entry 112 = CM 0x1E9B 0x1E9B 0x1E61" "fold_entry 113 = CM 0x1E9E 0x1E9E 0x00DF"
  "fold_entry 114 = CM 0x1EA0 0x1EFE 0x1EFF" "fold_entry 115 = CM 0x1F08 0x1F0F 0x1F07"
  "fold_entry 116 = CM 0x1F18 0x1F1D 0x1F15" "fold_entry 117 = CM 0x1F28 0x1F2F 0x1F27"
  "fold_entry 118 = CM 0x1F38 0x1F3F 0x1F37" "fold_entry 119 = CM 0x1F48 0x1F4D 0x1F45"
  "fold_entry 120 = CM 0x1F59 0x1F5F 0x1F57" "fold_entry 121 = CM 0x1F68 0x1F6F 0x1F67"
  "fold_entry 122 = CM 0x1F88 0x1F8F 0x1F87" "fold_entry 123 = CM 0x1F98 0x1F9F 0x1F97"
  "fold_entry 124 = CM 0x1FA8 0x1FAF 0x1FA7" "fold_entry 125 = CM 0x1FB8 0x1FB9 0x1FB1"
  "fold_entry 126 = CM 0x1FBA 0x1FBB 0x1F71" "fold_entry 127 = CM 0x1FBC 0x1FBC 0x1FB3"
  "fold_entry 128 = CM 0x1FBE 0x1FBE 0x03B9" "fold_entry 129 = CM 0x1FC8 0x1FCB 0x1F75"
  "fold_entry 130 = CM 0x1FCC 0x1FCC 0x1FC3" "fold_entry 131 = CM 0x1FD8 0x1FD9 0x1FD1"
  "fold_entry 132 = CM 0x1FDA 0x1FDB 0x1F77" "fold_entry 133 = CM 0x1FE8 0x1FE9 0x1FE1"
  "fold_entry 134 = CM 0x1FEA 0x1FEB 0x1F7B" "fold_entry 135 = CM 0x1FEC 0x1FEC 0x1FE5"
  "fold_entry 136 = CM 0x1FF8 0x1FF9 0x1F79" "fold_entry 137 = CM 0x1FFA 0x1FFB 0x1F7D"
  "fold_entry 138 = CM 0x1FFC 0x1FFC 0x1FF3" "fold_entry 139 = CM 0x2126 0x2126 0x03C9"
  "fold_entry 140 = CM 0x212A 0x212A 0x006B" "fold_entry 141 = CM 0x212B 0x212B 0x00E5"
  "fold_entry 142 = CM 0x2132 0x2132 0x214E" "fold_entry 143 = CM 0x2160 0x216F 0x217F"
  "fold_entry 144 = CM 0x2183 0x2183 0x2184" "fold_entry 145 = CM 0x24B6 0x24CF 0x24E9"
  "fold_entry 146 = CM 0x2C00 0x2C2F 0x2C5F" "fold_entry 147 = CM 0x2C60 0x2C60 0x2C61"
  "fold_entry 148 = CM 0x2C62 0x2C62 0x026B" "fold_entry 149 = CM 0x2C63 0x2C63 0x1D7D"
  "fold_entry 150 = CM 0x2C64 0x2C64 0x027D" "fold_entry 151 = CM 0x2C67 0x2C6B 0x2C6C"
  "fold_entry 152 = CM 0x2C6D 0x2C6D 0x0251" "fold_entry 153 = CM 0x2C6E 0x2C6E 0x0271"
  "fold_entry 154 = CM 0x2C6F 0x2C6F 0x0250" "fold_entry 155 = CM 0x2C70 0x2C70 0x0252"
  "fold_entry 156 = CM 0x2C72 0x2C72 0x2C73" "fold_entry 157 = CM 0x2C75 0x2C75 0x2C76"
  "fold_entry 158 = CM 0x2C7E 0x2C7F 0x0240" "fold_entry 159 = CM 0x2C80 0x2CE2 0x2CE3"
  "fold_entry 160 = CM 0x2CEB 0x2CED 0x2CEE" "fold_entry 161 = CM 0x2CF2 0x2CF2 0x2CF3"
  "fold_entry 162 = CM 0xA640 0xA66C 0xA66D" "fold_entry 163 = CM 0xA680 0xA69A 0xA69B"
  "fold_entry 164 = CM 0xA722 0xA72E 0xA72F" "fold_entry 165 = CM 0xA732 0xA76E 0xA76F"
  "fold_entry 166 = CM 0xA779 0xA77B 0xA77C" "fold_entry 167 = CM 0xA77D 0xA77D 0x1D79"
  "fold_entry 168 = CM 0xA77E 0xA786 0xA787" "fold_entry 169 = CM 0xA78B 0xA78B 0xA78C"
  "fold_entry 170 = CM 0xA78D 0xA78D 0x0265" "fold_entry 171 = CM 0xA790 0xA792 0xA793"
  "fold_entry 172 = CM 0xA796 0xA7A8 0xA7A9" "fold_entry 173 = CM 0xA7AA 0xA7AA 0x0266"
  "fold_entry 174 = CM 0xA7AB 0xA7AB 0x025C" "fold_entry 175 = CM 0xA7AC 0xA7AC 0x0261"
  "fold_entry 176 = CM 0xA7AD 0xA7AD 0x026C" "fold_entry 177 = CM 0xA7AE 0xA7AE 0x026A"
  "fold_entry 178 = CM 0xA7B0 0xA7B0 0x029E" "fold_entry 179 = CM 0xA7B1 0xA7B1 0x0287"
  "fold_entry 180 = CM 0xA7B2 0xA7B2 0x029D" "fold_entry 181 = CM 0xA7B3 0xA7B3 0xAB53"
  "fold_entry 182 = CM 0xA7B4 0xA7C2 0xA7C3" "fold_entry 183 = CM 0xA7C4 0xA7C4 0xA794"
  "fold_entry 184 = CM 0xA7C5 0xA7C5 0x0282" "fold_entry 185 = CM 0xA7C6 0xA7C6 0x1D8E"
  "fold_entry 186 = CM 0xA7C7 0xA7C9 0xA7CA" "fold_entry 187 = CM 0xA7D0 0xA7D0 0xA7D1"
  "fold_entry 188 = CM 0xA7D6 0xA7D8 0xA7D9" "fold_entry 189 = CM 0xA7F5 0xA7F5 0xA7F6"
  "fold_entry 190 = CM 0xAB70 0xABBF 0x13EF" "fold_entry 191 = CM 0xFF21 0xFF3A 0xFF5A"
  by (simp_all add: fold_entry_def casemapping_defs)

lemma up_entry_simps:
  "up_entry 0 = CM 0x0041 0x005A 0x007A" "up_entry 1 = CM 0x00C0 0x00D6 0x00F6"
  "up_entry 2 = CM 0x00D8 0x00DE 0x00FE" "up_entry 3 = CM 0x0100 0x012E 0x012F"
  "up_entry 4 = CM 0x0130 0x0130 0x0069" "up_entry 5 = CM 0x0132 0x0136 0x0137"
  "up_entry 6 = CM 0x0139 0x0147 0x0148" "up_entry 7 = CM 0x014A 0x0176 0x0177"
  "up_entry 8 = CM 0x0178 0x0178 0x00FF" "up_entry 9 = CM 0x0179 0x017D 0x017E"
  "up_entry 10 = CM 0x0181 0x0181 0x0253" "up_entry 11 = CM 0x0182 0x0184 0x0185"
  "up_entry 12 = CM 0x0186 0x0186 0x0254" "up_entry 13 = CM 0x0187 0x0187 0x0188"
  "up_entry 14 = CM 0x0189 0x018A 0x0257" "up_entry 15 = CM 0x018B 0x018B 0x018C"
  "up_entry 16 = CM 0x018E 0x018E 0x01DD" "up_entry 17 = CM 0x018F 0x018F 0x0259"
  "up_entry 18 = CM 0x0190 0x0190 0x025B" "up_entry 19 = CM 0x0191 0x0191 0x0192"
  "up_entry 20 = CM 0x0193 0x0193 0x0260" "up_entry 21 = CM 0x0194 0x0194 0x0263"
  "up_entry 22 = CM 0x0196 0x0196 0x0269" "up_entry 23 = CM 0x0197 0x0197 0x0268"
  "up_entry 24 = CM 0x0198 0x0198 0x0199" "up_entry 25 = CM 0x019C 0x019C 0x026F"
  "up_entry 26 = CM 0x019D 0x019D 0x0272" "up_entry 27 = CM 0x019F 0x019F 0x0275"
  "up_entry 28 = CM 0x01A0 0x01A4 0x01A5" "up_entry 29 = CM 0x01A6 0x01A6 0x0280"
  "up_entry 30 = CM 0x01A7 0x01A7 0x01A8" "up_entry 31 = CM 0x01A9 0x01A9 0x0283"
  "up_entry 32 = CM 0x01AC 0x01AC 0x01AD" "up_entry 33 = CM 0x01AE 0x01AE 0x0288"
  "up_entry 34 = CM 0x01AF 0x01AF 0x01B0" "up_entry 35 = CM 0x01B1 0x01B2 0x028B"
  "up_entry 36 = CM 0x01B3 0x01B5 0x01B6" "up_entry 37 = CM 0x01B7 0x01B7 0x0292"
  "up_entry 38 = CM 0x01B8 0x01B8 0x01B9" "up_entry 39 = CM 0x01BC 0x01BC 0x01BD"
  "up_entry 40 = CM 0x01C4 0x01C4 0x01C6" "up_entry 41 = CM 0x01C7 0x01C7 0x01C9"
  "up_entry 42 = CM 0x01CA 0x01CA 0x01CC" "up_entry 43 = CM 0x01CD 0x01DB 0x01DC"
  "up_entry 44 = CM 0x01DE 0x01EE 0x01EF" "up_entry 45 = CM 0x01F1 0x01F1 0x01F3"
  "up_entry 46 = CM 0x01F4 0x01F4 0x01F5" "up_entry 47 = CM 0x01F6 0x01F6 0x0195"
  "up_entry 48 = CM 0x01F7 0x01F7 0x01BF" "up_entry 49 = CM 0x01F8 0x021E 0x021F"
  "up_entry 50 = CM 0x0220 0x0220 0x019E" "up_entry 51 = CM 0x0222 0x0232 0x0233"
  "up_entry 52 = CM 0x023A 0x023A 0x2C65" "up_entry 53 = CM 0x023B 0x023B 0x023C"
  "up_entry 54 = CM 0x023D 0x023D 0x019A" "up_entry 55 = CM 0x023E 0x023E 0x2C66"
  "up_entry 56 = CM 0x0241 0x0241 0x0242" "up_entry 57 = CM 0x0243 0x0243 0x0180"
  "up_entry 58 = CM 0x0244 0x0244 0x0289" "up_entry 59 = CM 0x0245 0x0245 0x028C"
  "up_entry 60 = CM 0x0246 0x024E 0x024F" "up_entry 61 = CM 0x0370 0x0372 0x0373"
  "up_entry 62 = CM 0x0376 0x0376 0x0377" "up_entry 63 = CM 0x037F 0x037F 0x03F3"
  "up_entry 64 = CM 0x0386 0x0386 0x03AC" "up_entry 65 = CM 0x0388 0x038A 0x03AF"
  "up_entry 66 = CM 0x038C 0x038C 0x03CC" "up_entry 67 = CM 0x038E 0x038F 0x03CE"
  "up_entry 68 = CM 0x0391 0x03A1 0x03C1" "up_entry 69 = CM 0x03A3 0x03AB 0x03CB"
  "up_entry 70 = CM 0x03CF 0x03CF 0x03D7" "up_entry 71 = CM 0x03D8 0x03EE 0x03EF"
  "up_entry 72 = CM 0x03F4 0x03F4 0x03B8" "up_entry 73 = CM 0x03F7 0x03F7 0x03F8"
  "up_entry 74 = CM 0x03F9 0x03F9 0x03F2" "up_entry 75 = CM 0x03FA 0x03FA 0x03FB"
  "up_entry 76 = CM 0x03FD 0x03FF 0x037D" "up_entry 77 = CM 0x0400 0x040F 0x045F"
  "up_entry 78 = CM 0x0410 0x042F 0x044F" "up_entry 79 = CM 0x0460 0x0480 0x0481"
  "up_entry 80 = CM 0x048A 0x04BE 0x04BF" "up_entry 81 = CM 0x04C0 0x04C0 0x04CF"
  "up_entry 82 = CM 0x04C1 0x04CD 0x04CE" "up_entry 83 = CM 0x04D0 0x052E 0x052F"
  "up_entry 84 = CM 0x0531 0x0556 0x0586" "up_entry 85 = CM 0x10A0 0x10C5 0x2D25"
  "up_entry 86 = CM 0x10C7 0x10C7 0x2D27" "up_entry 87 = CM 0x10CD 0x10CD 0x2D2D"
  "up_entry 88 = CM 0x13A0 0x13EF 0xABBF" "up_entry 89 = CM 0x13F0 0x13F5 0x13FD"
  "up_entry 90 = CM 0x1C90 0x1CBA 0x10FA" "up_entry 91 = CM 0x1CBD 0x1CBF 0x10FF"
  "up_entry 92 = CM 0x1E00 0x1E94 0x1E95" "up_entry 93 = CM 0x1E9E 0x1E9E 0x00DF"
  "up_entry 94 = CM 0x1EA0 0x1EFE 0x1EFF" "up_entry 95 = CM 0x1F08 0x1F0F 0x1F07"
  "up_entry 96 = CM 0x1F18 0x1F1D 0x1F15" "up_entry 97 = CM 0x1F28 0x1F2F 0x1F27"
  "up_entry 98 = CM 0x1F38 0x1F3F 0x1F37" "up_entry 99 = CM 0x1F48 0x1F4D 0x1F45"
  "up_entry 100 = CM 0x1F59 0x1F5F 0x1F57" "up_entry 101 = CM 0x1F68 0x1F6F 0x1F67"
  "up_entry 102 = CM 0x1FB8 0x1FB9 0x1FB1" "up_entry 103 = CM 0x1FBA 0x1FBB 0x1F71"
  "up_entry 104 = CM 0x1FC8 0x1FCB 0x1F75" "up_entry 105 = CM 0x1FD8 0x1FD9 0x1FD1"
  "up_entry 106 = CM 0x1FDA 0x1FDB 0x1F77" "up_entry 107 = CM 0x1FE8 0x1FE9 0x1FE1"
  "up_entry 108 = CM 0x1FEA 0x1FEB 0x1F7B" "up_entry 109 = CM 0x1FEC 0x1FEC 0x1FE5"
  "up_entry 110 = CM 0x1FF8 0x1FF9 0x1F79" "up_entry 111 = CM 0x1FFA 0x1FFB 0x1F7D"
  "up_entry 112 = CM 0x2126 0x2126 0x03C9" "up_entry 113 = CM 0x212A 0x212A 0x006B"
  "up_entry 114 = CM 0x212B 0x212B 0x00E5" "up_entry 115 = CM 0x2132 0x2132 0x214E"
  "up_entry 116 = CM 0x2183 0x2183 0x2184" "up_entry 117 = CM 0x2C00 0x2C2F 0x2C5F"
  "up_entry 118 = CM 0x2C60 0x2C60 0x2C61" "up_entry 119 = CM 0x2C62 0x2C62 0x026B"
  "up_entry 120 = CM 0x2C63 0x2C63 0x1D7D" "up_entry 121 = CM 0x2C64 0x2C64 0x027D"
  "up_entry 122 = CM 0x2C67 0x2C6B 0x2C6C" "up_entry 123 = CM 0x2C6D 0x2C6D 0x0251"
  "up_entry 124 = CM 0x2C6E 0x2C6E 0x0271" "up_entry 125 = CM 0x2C6F 0x2C6F 0x0250"
  "up_entry 126 = CM 0x2C70 0x2C70 0x0252" "up_entry 127 = CM 0x2C72 0x2C72 0x2C73"
  "up_entry 128 = CM 0x2C75 0x2C75 0x2C76" "up_entry 129 = CM 0x2C7E 0x2C7F 0x0240"
  "up_entry 130 = CM 0x2C80 0x2CE2 0x2CE3" "up_entry 131 = CM 0x2CEB 0x2CED 0x2CEE"
  "up_entry 132 = CM 0x2CF2 0x2CF2 0x2CF3" "up_entry 133 = CM 0xA640 0xA66C 0xA66D"
  "up_entry 134 = CM 0xA680 0xA69A 0xA69B" "up_entry 135 = CM 0xA722 0xA72E 0xA72F"
  "up_entry 136 = CM 0xA732 0xA76E 0xA76F" "up_entry 137 = CM 0xA779 0xA77B 0xA77C"
  "up_entry 138 = CM 0xA77D 0xA77D 0x1D79" "up_entry 139 = CM 0xA77E 0xA786 0xA787"
  "up_entry 140 = CM 0xA78B 0xA78B 0xA78C" "up_entry 141 = CM 0xA78D 0xA78D 0x0265"
  "up_entry 142 = CM 0xA790 0xA792 0xA793" "up_entry 143 = CM 0xA796 0xA7A8 0xA7A9"
  "up_entry 144 = CM 0xA7AA 0xA7AA 0x0266" "up_entry 145 = CM 0xA7AB 0xA7AB 0x025C"
  "up_entry 146 = CM 0xA7AC 0xA7AC 0x0261" "up_entry 147 = CM 0xA7AD 0xA7AD 0x026C"
  "up_entry 148 = CM 0xA7AE 0xA7AE 0x026A" "up_entry 149 = CM 0xA7B0 0xA7B0 0x029E"
  "up_entry 150 = CM 0xA7B1 0xA7B1 0x0287" "up_entry 151 = CM 0xA7B2 0xA7B2 0x029D"
  "up_entry 152 = CM 0xA7B3 0xA7B3 0xAB53" "up_entry 153 = CM 0xA7B4 0xA7C2 0xA7C3"
  "up_entry 154 = CM 0xA7C4 0xA7C4 0xA794" "up_entry 155 = CM 0xA7C5 0xA7C5 0x0282"
  "up_entry 156 = CM 0xA7C6 0xA7C6 0x1D8E" "up_entry 157 = CM 0xA7C7 0xA7C9 0xA7CA"
  "up_entry 158 = CM 0xA7D0 0xA7D0 0xA7D1" "up_entry 159 = CM 0xA7D6 0xA7D8 0xA7D9"
  "up_entry 160 = CM 0xA7F5 0xA7F5 0xA7F6" "up_entry 161 = CM 0xFF21 0xFF3A 0xFF5A"
  by (simp_all add: up_entry_def upcase_ind_def casemapping_defs)

lemma down_entry_simps:
  "down_entry 0 = CM 0x0041 0x005A 0x007A" "down_entry 1 = CM 0x039C 0x039C 0x00B5"
  "down_entry 2 = CM 0x1E9E 0x1E9E 0x00DF" "down_entry 3 = CM 0x00C0 0x00D6 0x00F6"
  "down_entry 4 = CM 0x00D8 0x00DE 0x00FE" "down_entry 5 = CM 0x0178 0x0178 0x00FF"
  "down_entry 6 = CM 0x0100 0x012E 0x012F" "down_entry 7 = CM 0x0049 0x0049 0x0131"
  "down_entry 8 = CM 0x0132 0x0136 0x0137" "down_entry 9 = CM 0x0139 0x0147 0x0148"
  "down_entry 10 = CM 0x014A 0x0176 0x0177" "down_entry 11 = CM 0x0179 0x017D 0x017E"
  "down_entry 12 = CM 0x0053 0x0053 0x017F" "down_entry 13 = CM 0x0243 0x0243 0x0180"
  "down_entry 14 = CM 0x0182 0x0184 0x0185" "down_entry 15 = CM 0x0187 0x0187 0x0188"
  "down_entry 16 = CM 0x018B 0x018B 0x018C" "down_entry 17 = CM 0x0191 0x0191 0x0192"
  "down_entry 18 = CM 0x01F6 0x01F6 0x0195" "down_entry 19 = CM 0x0198 0x0198 0x0199"
  "down_entry 20 = CM 0x023D 0x023D 0x019A" "down_entry 21 = CM 0x0220 0x0220 0x019E"
  "down_entry 22 = CM 0x01A0 0x01A4 0x01A5" "down_entry 23 = CM 0x01A7 0x01A7 0x01A8"
  "down_entry 24 = CM 0x01AC 0x01AC 0x01AD" "down_entry 25 = CM 0x01AF 0x01AF 0x01B0"
  "down_entry 26 = CM 0x01B3 0x01B5 0x01B6" "down_entry 27 = CM 0x01B8 0x01B8 0x01B9"
  "down_entry 28 = CM 0x01BC 0x01BC 0x01BD" "down_entry 29 = CM 0x01F7 0x01F7 0x01BF"
  "down_entry 30 = CM 0x01C4 0x01C4 0x01C6" "down_entry 31 = CM 0x01C7 0x01C7 0x01C9"
  "down_entry 32 = CM 0x01CA 0x01CA 0x01CC" "down_entry 33 = CM 0x01CD 0x01DB 0x01DC"
  "down_entry 34 = CM 0x018E 0x018E 0x01DD" "down_entry 35 = CM 0x01DE 0x01EE 0x01EF"
  "down_entry 36 = CM 0x01F1 0x01F1 0x01F3" "down_entry 37 = CM 0x01F4 0x01F4 0x01F5"
  "down_entry 38 = CM 0x01F8 0x021E 0x021F" "down_entry 39 = CM 0x0222 0x0232 0x0233"
  "down_entry 40 = CM 0x023B 0x023B 0x023C" "down_entry 41 = CM 0x2C7E 0x2C7F 0x0240"
  "down_entry 42 = CM 0x0241 0x0241 0x0242" "down_entry 43 = CM 0x0246 0x024E 0x024F"
  "down_entry 44 = CM 0x2C6F 0x2C6F 0x0250" "down_entry 45 = CM 0x2C6D 0x2C6D 0x0251"
  "down_entry 46 = CM 0x2C70 0x2C70 0x0252" "down_entry 47 = CM 0x0181 0x0181 0x0253"
  "down_entry 48 = CM 0x0186 0x0186 0x0254" "down_entry 49 = CM 0x0189 0x018A 0x0257"
  "down_entry 50 = CM 0x018F 0x018F 0x0259" "down_entry 51 = CM 0x0190 0x0190 0x025B"
  "down_entry 52 = CM 0xA7AB 0xA7AB 0x025C" "down_entry 53 = CM 0x0193 0x0193 0x0260"
  "down_entry 54 = CM 0xA7AC 0xA7AC 0x0261" "down_entry 55 = CM 0x0194 0x0194 0x0263"
  "down_entry 56 = CM 0xA78D 0xA78D 0x0265" "down_entry 57 = CM 0xA7AA 0xA7AA 0x0266"
  "down_entry 58 = CM 0x0197 0x0197 0x0268" "down_entry 59 = CM 0x0196 0x0196 0x0269"
  "down_entry 60 = CM 0xA7AE 0xA7AE 0x026A" "down_entry 61 = CM 0x2C62 0x2C62 0x026B"
  "down_entry 62 = CM 0xA7AD 0xA7AD 0x026C" "down_entry 63 = CM 0x019C 0x019C 0x026F"
  "down_entry 64 = CM 0x2C6E 0x2C6E 0x0271" "down_entry 65 = CM 0x019D 0x019D 0x0272"
  "down_entry 66 = CM 0x019F 0x019F 0x0275" "down_entry 67 = CM 0x2C64 0x2C64 0x027D"
  "down_entry 68 = CM 0x01A6 0x01A6 0x0280" "down_entry 69 = CM 0xA7C5 0xA7C5 0x0282"
  "down_entry 70 = CM 0x01A9 0x01A9 0x0283" "down_entry 71 = CM 0xA7B1 0xA7B1 0x0287"
  "down_entry 72 = CM 0x01AE 0x01AE 0x0288" "down_entry 73 = CM 0x0244 0x0244 0x0289"
  "down_entry 74 = CM 0x01B1 0x01B2 0x028B" "down_entry 75 = CM 0x0245 0x0245 0x028C"
  "down_entry 76 = CM 0x01B7 0x01B7 0x0292" "down_entry 77 = CM 0xA7B2 0xA7B2 0x029D"
  "down_entry 78 = CM 0xA7B0 0xA7B0 0x029E" "down_entry 79 = CM 0x0370 0x0372 0x0373"
  "down_entry 80 = CM 0x0376 0x0376 0x0377" "down_entry 81 = CM 0x03FD 0x03FF 0x037D"
  "down_entry 82 = CM 0x0386 0x0386 0x03AC" "down_entry 83 = CM 0x0388 0x038A 0x03AF"
  "down_entry 84 = CM 0x0391 0x03A1 0x03C1" "down_entry 85 = CM 0x03A3 0x03A3 0x03C2"
  "down_entry 86 = CM 0x03A3 0x03AB 0x03CB" "down_entry 87 = CM 0x038C 0x038C 0x03CC"
  "down_entry 88 = CM 0x038E 0x038F 0x03CE" "down_entry 89 = CM 0x0392 0x0392 0x03D0"
  "down_entry 90 = CM 0x0398 0x0398 0x03D1" "down_entry 91 = CM 0x03A6 0x03A6 0x03D5"
  "down_entry 92 = CM 0x03A0 0x03A0 0x03D6" "down_entry 93 = CM 0x03CF 0x03CF 0x03D7"
  "down_entry 94 = CM 0x03D8 0x03EE 0x03EF" "down_entry 95 = CM 0x039A 0x039A 0x03F0"
  "down_entry 96 = CM 0x03A1 0x03A1 0x03F1" "down_entry 97 = CM 0x03F9 0x03F9 0x03F2"
  "down_entry 98 = CM 0x037F 0x037F 0x03F3" "down_entry 99 = CM 0x0395 0x0395 0x03F5"
  "down_entry 100 = CM 0x03F7 0x03F7 0x03F8" "down_entry 101 = CM 0x03FA 0x03FA 0x03FB"
  "down_entry 102 = CM 0x0410 0x042F 0x044F" "down_entry 103 = CM 0x0400 0x040F 0x045F"
  "down_entry 104 = CM 0x0460 0x0480 0x0481" "down_entry 105 = CM 0x048A 0x04BE 0x04BF"
  "down_entry 106 = CM 0x04C1 0x04CD 0x04CE" "down_entry 107 = CM 0x04C0 0x04C0 0x04CF"
  "down_entry 108 = CM 0x04D0 0x052E 0x052F" "down_entry 109 = CM 0x0531 0x0556 0x0586"
  "down_entry 110 = CM 0x1C90 0x1CBA 0x10FA" "down_entry 111 = CM 0x1CBD 0x1CBF 0x10FF"
  "down_entry 112 = CM 0x13F0 0x13F5 0x13FD" "down_entry 113 = CM 0x0412 0x0412 0x1C80"
  "down_entry 114 = CM 0x0414 0x0414 0x1C81" "down_entry 115 = CM 0x041E 0x041E 0x1C82"
  "down_entry 116 = CM 0x0421 0x0422 0x1C84" "down_entry 117 = CM 0x0422 0x0422 0x1C85"
  "down_entry 118 = CM 0x042A 0x042A 0x1C86" "down_entry 119 = CM 0x0462 0x0462 0x1C87"
  "down_entry 120 = CM 0xA64A 0xA64A 0x1C88" "down_entry 121 = CM 0xA77D 0xA77D 0x1D79"
  "down_entry 122 = CM 0x2C63 0x2C63 0x1D7D" "down_entry 123 = CM 0xA7C6 0xA7C6 0x1D8E"
  "down_entry 124 = CM 0x1E00 0x1E94 0x1E95" "down_entry 125 = CM 0x1E60 0x1E60 0x1E9B"
  "down_entry 126 = CM 0x1EA0 0x1EFE 0x1EFF" "down_entry 127 = CM 0x1F08 0x1F0F 0x1F07"
  "down_entry 128 = CM 0x1F18 0x1F1D 0x1F15" "down_entry 129 = CM 0x1F28 0x1F2F 0x1F27"
  "down_entry 130 = CM 0x1F38 0x1F3F 0x1F37" "down_entry 131 = CM 0x1F48 0x1F4D 0x1F45"
  "down_entry 132 = CM 0x1F59 0x1F5F 0x1F57" "down_entry 133 = CM 0x1F68 0x1F6F 0x1F67"
  "down_entry 134 = CM 0x1FBA 0x1FBB 0x1F71" "down_entry 135 = CM 0x1FC8 0x1FCB 0x1F75"
  "down_entry 136 = CM 0x1FDA 0x1FDB 0x1F77" "down_entry 137 = CM 0x1FF8 0x1FF9 0x1F79"
  "down_entry 138 = CM 0x1FEA 0x1FEB 0x1F7B" "down_entry 139 = CM 0x1FFA 0x1FFB 0x1F7D"
  "down_entry 140 = CM 0x1F88 0x1F8F 0x1F87" "down_entry 141 = CM 0x1F98 0x1F9F 0x1F97"
  "down_entry 142 = CM 0x1FA8 0x1FAF 0x1FA7" "down_entry 143 = CM 0x1FB8 0x1FB9 0x1FB1"
  "down_entry 144 = CM 0x1FBC 0x1FBC 0x1FB3" "down_entry 145 = CM 0x0399 0x0399 0x1FBE"
  "down_entry 146 = CM 0x1FCC 0x1FCC 0x1FC3" "down_entry 147 = CM 0x1FD8 0x1FD9 0x1FD1"
  "down_entry 148 = CM 0x1FE8 0x1FE9 0x1FE1" "down_entry 149 = CM 0x1FEC 0x1FEC 0x1FE5"
  "down_entry 150 = CM 0x1FFC 0x1FFC 0x1FF3" "down_entry 151 = CM 0x2132 0x2132 0x214E"
  "down_entry 152 = CM 0x2183 0x2183 0x2184" "down_entry 153 = CM 0x2C00 0x2C2F 0x2C5F"
  "down_entry 154 = CM 0x2C60 0x2C60 0x2C61" "down_entry 155 = CM 0x023A 0x023A 0x2C65"
  "down_entry 156 = CM 0x023E 0x023E 0x2C66" "down_entry 157 = CM 0x2C67 0x2C6B 0x2C6C"
  "down_entry 158 = CM 0x2C72 0x2C72 0x2C73" "down_entry 159 = CM 0x2C75 0x2C75 0x2C76"
  "down_entry 160 = CM 0x2C80 0x2CE2 0x2CE3" "down_entry 161 = CM 0x2CEB 0x2CED 0x2CEE"
  "down_entry 162 = CM 0x2CF2 0x2CF2 0x2CF3" "down_entry 163 = CM 0x10A0 0x10C5 0x2D25"
  "down_entry 164 = CM 0x10C7 0x10C7 0x2D27" "down_entry 165 = CM 0x10CD 0x10CD 0x2D2D"
  "down_entry 166 = CM 0xA640 0xA66C 0xA66D" "down_entry 167 = CM 0xA680 0xA69A 0xA69B"
  "down_entry 168 = CM 0xA722 0xA72E 0xA72F" "down_entry 169 = CM 0xA732 0xA76E 0xA76F"
  "down_entry 170 = CM 0xA779 0xA77B 0xA77C" "down_entry 171 = CM 0xA77E 0xA786 0xA787"
  "down_entry 172 = CM 0xA78B 0xA78B 0xA78C" "down_entry 173 = CM 0xA790 0xA792 0xA793"
  "down_entry 174 = CM 0xA7C4 0xA7C4 0xA794" "down_entry 175 = CM 0xA796 0xA7A8 0xA7A9"
  "down_entry 176 = CM 0xA7B4 0xA7C2 0xA7C3" "down_entry 177 = CM 0xA7C7 0xA7C9 0xA7CA"
  "down_entry 178 = CM 0xA7D0 0xA7D0 0xA7D1" "down_entry 179 = CM 0xA7D6 0xA7D8 0xA7D9"
  "down_entry 180 = CM 0xA7F5 0xA7F5 0xA7F6" "down_entry 181 = CM 0xA7B3 0xA7B3 0xAB53"
  "down_entry 182 = CM 0x13A0 0x13EF 0xABBF" "down_entry 183 = CM 0xFF21 0xFF3A 0xFF5A"
  by (simp_all add: down_entry_def lowcase_ind_def casemapping_defs)

lemma stable_fold: "stable_up fold_entry 192 192 0"
  by (simp add: fixed_up_num stable_up_num one_simps fold_entry_simps del: One_nat_def)

lemma stable_upcase: "stable_up up_entry 162 162 0"
  by (simp add: fixed_up_num stable_up_num one_simps up_entry_simps del: One_nat_def)

lemma stable_lowcase: "stable_down down_entry 184 0 184 0"
  by (simp add: fixed_down_num stable_down_num one_simps down_entry_simps del: One_nat_def)

lemma fold_table: "take casefold_len casemappings = map fold_entry [0..<192]"
proof -
  have "192 \<le> length casemappings" by (simp add: casemapping_defs)
  then show ?thesis by (intro nth_equalityI) (auto simp: casefold_len_def fold_entry_def)
qed

lemma map_as_upt: "map f xs = map (\<lambda>k. f (xs ! k)) [0..<length xs]"
  by (rule nth_equalityI) auto

lemma up_table: "map ((!) casemappings) upcase_ind = map up_entry [0..<162]"
proof -
  have "length upcase_ind = 162" by (simp add: upcase_ind_def)
  then show ?thesis unfolding map_as_upt [of _ upcase_ind] by (simp only: up_entry_def [abs_def])
qed

lemma down_table: "map ((!) casemappings) lowcase_ind = map down_entry [0..<184]"
proof -
  have "length lowcase_ind = 184" by (simp add: lowcase_ind_def)
  then show ?thesis unfolding map_as_upt [of _ lowcase_ind] by (simp only: down_entry_def [abs_def])
qed

text \<open>C37: case folding, lower-casing and upper-casing are idempotent on every code point: no target
  of a mapping is the source of another one of the same table, so what \<open>utf8_tolower\<close> returns is never
  upper case and what \<open>utf8_toupper\<close> returns is never lower case for the library's own tests.\<close>

theorem utf8_case_idempotent:
  "utf8_casefold (utf8_casefold c) = utf8_casefold c \<and>
   utf8_tolower (utf8_tolower c) = utf8_tolower c \<and>
   utf8_toupper (utf8_toupper c) = utf8_toupper c"
  unfolding utf8_casefold_def utf8_tolower_def utf8_toupper_def fold_table up_table down_table
proof (intro conjI)
  show "case_search_up (map fold_entry [0..<192]) (case_search_up (map fold_entry [0..<192]) c) =
      case_search_up (map fold_entry [0..<192]) c"
    by (rule case_search_up_stable [OF stable_fold]) (use stable_up_ordered [OF stable_fold] in simp_all)
  show "case_search_up (map up_entry [0..<162]) (case_search_up (map up_entry [0..<162]) c) =
      case_search_up (map up_entry [0..<162]) c"
    by (rule case_search_up_stable [OF stable_upcase]) (use stable_up_ordered [OF stable_upcase] in simp_all)
  show "case_search_down (map down_entry [0..<184]) (case_search_down (map down_entry [0..<184]) c) =
      case_search_down (map down_entry [0..<184]) c"
    by (rule case_search_down_stable [OF stable_lowcase]) (use stable_down_ordered [OF stable_lowcase] in simp_all)
qed

section \<open>Sorted ranges\<close>

fun ranges_sorted :: "(nat \<times> nat) list \<Rightarrow> bool" where
  "ranges_sorted ((lo, hi) # (lo', hi') # rs) \<longleftrightarrow> lo \<le> hi \<and> hi < lo' \<and> ranges_sorted ((lo', hi') # rs)"
| "ranges_sorted rs \<longleftrightarrow> True"

lemma ranges_sorted_after: "ranges_sorted ((lo, hi) # rs) \<Longrightarrow> (lo', hi') \<in> set rs \<Longrightarrow> hi < lo'"
proof (induction rs arbitrary: lo hi)
  case (Cons r rs)
  obtain l h where r: "r = (l, h)" by fastforce
  then have "hi < l" "ranges_sorted ((l, h) # rs)" "rs \<noteq> [] \<Longrightarrow> l \<le> h"
    using Cons.prems(1) by (auto simp: neq_Nil_conv)
  then show ?case using Cons.IH [of l h] Cons.prems(2) by (cases rs) (auto simp: r)
qed simp

lemma search_ranges_iff:
  "ranges_sorted rs \<Longrightarrow> utf8_search_ranges rs c \<longleftrightarrow> (\<exists>(lo, hi) \<in> set rs. lo \<le> c \<and> c \<le> hi)"
proof (induction rs)
  case (Cons r rs)
  obtain lo hi where r: "r = (lo, hi)" by fastforce
  have "ranges_sorted rs" using Cons.prems by (cases rs) (auto simp: r)
  note IH = Cons.IH [OF this]
  show ?case
  proof (cases "c < lo")
    case True
    have "\<not> (\<exists>(lo', hi') \<in> set rs. lo' \<le> c \<and> c \<le> hi')" if "lo \<le> hi"
      using True that ranges_sorted_after [OF Cons.prems [unfolded r]] by fastforce
    moreover have "lo \<le> hi \<or> rs = []"
      using Cons.prems by (cases rs) (auto simp: r)
    ultimately show ?thesis using True by (auto simp: r)
  next
    case False
    then show ?thesis using IH by (auto simp: r)
  qed
qed simp

lemmas range_tables = Cc_range16_def Lt_range16_def Nd_range16_def Nl_range16_def Pc_range16_def Pd_range16_def
  Pf_range16_def Pi_range16_def Sc_range16_def Zl_range16_def Zp_range16_def Zs_range16_def Arabic_range16_def
  Cyrillic_range16_def Devanagari_range16_def Greek_range16_def Han_range16_def Latin_range16_def

lemma groups_sorted: "ranges_sorted (utf8_unicode_groups g)"
  by (cases g) (simp_all add: range_tables)

text \<open>A code point is in a general category or a script exactly when one of the table's ranges
  contains it; leaving the search at the first range that begins after the code point loses nothing.\<close>

theorem utf8_isgroup_iff:
  "utf8_isgroup g c \<longleftrightarrow> (\<exists>(lo, hi) \<in> set (utf8_unicode_groups g). lo \<le> c \<and> c \<le> hi)"
  unfolding utf8_isgroup_def by (rule search_ranges_iff [OF groups_sorted])

end
