(* ===== verification/Uthash.thy ===== *)
theory Uthash
  imports Prelude
begin

text \<open>
  uthash, \<open>src/shims/uthash/uthash.h\<close>, as the shim compiles it: no Bloom filter, no debugging output and
  \<open>HASH_NONFATAL_OOM\<close> 0. An element is a C structure that contains its key, its value and the hash handle
  \<open>hh\<close>; elements live in a store from addresses to elements, and an element and its handle have the same
  address here (\<open>hho\<close> is constant, \<open>ELMT_FROM_HH\<close> and \<open>HH_FROM_ELMT\<close> are the identity). All elements of a
  hash point to one \<open>UT_hash_table\<close>, which is a field of the state instead of a field \<open>tbl\<close> of each element.
  The counters are 32-bit unsigned integers.
\<close>

section \<open>State\<close>

type_synonym ptr = nat

text \<open>
  How a macro can fail to give a result: it follows a pointer to no live object, it calls
  \<open>uthash_fatal\<close>, which exits, or a loop does not end.
\<close>

datatype ut_error = Bad_Pointer | Fatal_OOM | Diverges

text \<open>The fields of an element and of its \<open>UT_hash_handle\<close>; the handle's \<open>key\<close> points to \<open>el_key\<close>.\<close>

record ('k, 'v) ut_elem =
  el_key :: 'k
  el_value :: 'v
  app_prev :: ptr
  app_next :: ptr
  hh_prev :: ptr
  hh_next :: ptr
  keylen :: nat
  hashv :: u32

record ut_bucket =
  hh_head :: ptr
  count :: nat
  expand_mult :: nat

record ut_table =
  buckets :: "ut_bucket list"
  num_buckets :: nat
  log2_num_buckets :: nat
  num_items :: nat
  tail :: ptr
  ideal_chain_maxlen :: nat
  nonideal_items :: nat
  ineff_expands :: nat
  noexpand :: bool

text \<open>\<open>tbl\<close> is \<open>None\<close> while the hash is empty: the table is allocated by the first addition and freed by the
  deletion of the last element. \<open>head\<close> is 0 (\<open>NULL\<close>) then.\<close>

record ('k, 'v) ut =
  head :: ptr
  tbl :: "ut_table option"
  store :: "ptr \<Rightarrow> ('k, 'v) ut_elem option"

text \<open>
  The allocator: whether \<open>malloc\<close> of a number of bytes succeeds for tables and buckets; the address it
  returns for a new element, given those in use, and what the new memory holds.
\<close>

record ('k, 'v) ut_mem =
  m_malloc :: "nat \<Rightarrow> bool"
  m_elem :: "ptr set \<Rightarrow> ptr"
  m_junk :: "('k, 'v) ut_elem"

definition HASH_INITIAL_NUM_BUCKETS :: nat where "HASH_INITIAL_NUM_BUCKETS = 32"
definition HASH_INITIAL_NUM_BUCKETS_LOG2 :: nat where "HASH_INITIAL_NUM_BUCKETS_LOG2 = 5"
definition HASH_BKT_CAPACITY_THRESH :: nat where "HASH_BKT_CAPACITY_THRESH = 10"

text \<open>\<open>sizeof(UT_hash_table)\<close> and \<open>sizeof(UT_hash_bucket)\<close> on a 64-bit platform.\<close>

definition sizeof_table :: nat where "sizeof_table = 64"
definition sizeof_bucket :: nat where "sizeof_bucket = 16"

section \<open>Access to memory\<close>

fun bnd :: "ut_error + 'a \<Rightarrow> ('a \<Rightarrow> ut_error + 'b) \<Rightarrow> ut_error + 'b" where
  "bnd (Inl e) f = Inl e"
| "bnd (Inr x) f = f x"

definition load :: "('k, 'v) ut \<Rightarrow> ptr \<Rightarrow> ut_error + ('k, 'v) ut_elem" where
  "load s p = (case store s p of None \<Rightarrow> Inl Bad_Pointer | Some e \<Rightarrow> Inr e)"

definition modify :: "('k, 'v) ut \<Rightarrow> ptr \<Rightarrow> (('k, 'v) ut_elem \<Rightarrow> ('k, 'v) ut_elem) \<Rightarrow> ut_error + ('k, 'v) ut" where
  "modify s p f = (case store s p of
     None \<Rightarrow> Inl Bad_Pointer
   | Some e \<Rightarrow> Inr (s\<lparr>store := (store s)(p \<mapsto> f e)\<rparr>))"

definition load_tbl :: "('k, 'v) ut \<Rightarrow> ut_error + ut_table" where
  "load_tbl s = (case tbl s of None \<Rightarrow> Inl Bad_Pointer | Some t \<Rightarrow> Inr t)"

definition load_bkt :: "ut_bucket list \<Rightarrow> nat \<Rightarrow> ut_error + ut_bucket" where
  "load_bkt bs b = (if b < length bs then Inr (bs ! b) else Inl Bad_Pointer)"

section \<open>Lookup\<close>

definition HASH_TO_BKT :: "u32 \<Rightarrow> nat \<Rightarrow> nat" where
  "HASH_TO_BKT hv num_bkts = unat (hv AND (of_nat num_bkts - 1))"

text \<open>
  \<open>cmpr\<close> is the blueprint's comparison, of which \<open>HASH_KEYCMP\<close> is the negation. A chain without a cycle
  has at most \<open>num_items\<close> elements, which is the fuel of the loops along chains.
\<close>

fun find_in_bkt_loop ::
    "('k \<Rightarrow> 'k \<Rightarrow> bool) \<Rightarrow> nat \<Rightarrow> ('k, 'v) ut \<Rightarrow> ptr \<Rightarrow> 'k \<Rightarrow> nat \<Rightarrow> u32 \<Rightarrow> ut_error + ptr" where
  "find_in_bkt_loop cmpr 0 s out key klen hv = Inl Diverges"
| "find_in_bkt_loop cmpr (Suc fuel) s out key klen hv =
    (if out = 0 then Inr 0
     else bnd (load s out) (\<lambda>e.
       if hashv e = hv \<and> keylen e = klen \<and> cmpr (el_key e) key then Inr out
       else find_in_bkt_loop cmpr fuel s (hh_next e) key klen hv))"

definition HASH_FIND_IN_BKT where
  "HASH_FIND_IN_BKT cmpr s t bkt key klen hv = find_in_bkt_loop cmpr (num_items t + 1) s (hh_head bkt) key klen hv"

definition HASH_FIND_BYHASHVALUE ::
    "('k \<Rightarrow> 'k \<Rightarrow> bool) \<Rightarrow> ('k, 'v) ut \<Rightarrow> 'k \<Rightarrow> nat \<Rightarrow> u32 \<Rightarrow> ut_error + ptr" where
  "HASH_FIND_BYHASHVALUE cmpr s key klen hv =
    (if head s = 0 then Inr 0
     else bnd (load_tbl s) (\<lambda>t.
       bnd (load_bkt (buckets t) (HASH_TO_BKT hv (num_buckets t))) (\<lambda>bkt.
         HASH_FIND_IN_BKT cmpr s t bkt key klen hv)))"

section \<open>Adding an element\<close>

definition HASH_MAKE_TABLE :: "('k, 'v) ut_mem \<Rightarrow> ('k, 'v) ut \<Rightarrow> ptr \<Rightarrow> ut_error + ('k, 'v) ut" where
  "HASH_MAKE_TABLE mem s add =
    (if \<not> m_malloc mem sizeof_table then Inl Fatal_OOM
     else if \<not> m_malloc mem (HASH_INITIAL_NUM_BUCKETS * sizeof_bucket) then Inl Fatal_OOM
     else Inr (s\<lparr>tbl := Some \<lparr>
       buckets = replicate HASH_INITIAL_NUM_BUCKETS \<lparr>hh_head = 0, count = 0, expand_mult = 0\<rparr>,
       num_buckets = HASH_INITIAL_NUM_BUCKETS, log2_num_buckets = HASH_INITIAL_NUM_BUCKETS_LOG2,
       num_items = 0, tail = add, ideal_chain_maxlen = 0, nonideal_items = 0, ineff_expands = 0,
       noexpand = False\<rparr>\<rparr>))"

definition HASH_APPEND_LIST :: "('k, 'v) ut \<Rightarrow> ptr \<Rightarrow> ut_error + ('k, 'v) ut" where
  "HASH_APPEND_LIST s add =
    bnd (load_tbl s) (\<lambda>t.
      bnd (modify s add (\<lambda>e. e\<lparr>app_next := 0, app_prev := tail t\<rparr>)) (\<lambda>s.
        bnd (modify s (tail t) (\<lambda>e. e\<lparr>app_next := add\<rparr>)) (\<lambda>s.
          Inr (s\<lparr>tbl := Some (t\<lparr>tail := add\<rparr>)\<rparr>))))"

text \<open>The counters of a bucket that receives an element during the expansion.\<close>

definition expand_count :: "nat \<Rightarrow> ut_bucket \<Rightarrow> ut_bucket" where
  "expand_count ideal bkt =
    (let bkt = bkt\<lparr>count := wrap32 (count bkt + 1)\<rparr>
     in if ideal < count bkt \<and> wrap32 (expand_mult bkt * ideal) < count bkt
        then bkt\<lparr>expand_mult := wrap32 (expand_mult bkt + 1)\<rparr> else bkt)"

text \<open>
  \<open>HASH_EXPAND_BUCKETS\<close>: the inner loop moves the elements of an old chain, each to the front of its new
  bucket; \<open>nbs\<close> are the new buckets and \<open>ni\<close> is \<open>nonideal_items\<close>. The fuel allows for one element more than
  \<open>num_items\<close>, because \<open>HASH_SELECT\<close> counts an element after it has added it.
\<close>

fun expand_chain ::
    "nat \<Rightarrow> nat \<Rightarrow> nat \<Rightarrow> ('k, 'v) ut \<Rightarrow> ut_bucket list \<Rightarrow> nat \<Rightarrow> ptr \<Rightarrow> ut_error + (('k, 'v) ut \<times> ut_bucket list \<times> nat)" where
  "expand_chain 0 num ideal s nbs ni thh = Inl Diverges"
| "expand_chain (Suc fuel) num ideal s nbs ni thh =
    (if thh = 0 then Inr (s, nbs, ni)
     else bnd (load s thh) (\<lambda>e.
       let hh_nxt = hh_next e; b = HASH_TO_BKT (hashv e) num
       in bnd (load_bkt nbs b) (\<lambda>newbkt.
         let newbkt = expand_count ideal newbkt;
             ni = (if ideal < count newbkt then wrap32 (ni + 1) else ni)
         in bnd (modify s thh (\<lambda>e. e\<lparr>hh_prev := 0, hh_next := hh_head newbkt\<rparr>)) (\<lambda>s.
              bnd (if hh_head newbkt \<noteq> 0 then modify s (hh_head newbkt) (\<lambda>e. e\<lparr>hh_prev := thh\<rparr>) else Inr s) (\<lambda>s.
                expand_chain fuel num ideal s (nbs[b := newbkt\<lparr>hh_head := thh\<rparr>]) ni hh_nxt)))))"

fun expand_all ::
    "nat \<Rightarrow> nat \<Rightarrow> nat \<Rightarrow> ('k, 'v) ut \<Rightarrow> ut_bucket list \<Rightarrow> nat \<Rightarrow> ut_bucket list \<Rightarrow> ut_error + (('k, 'v) ut \<times> ut_bucket list \<times> nat)" where
  "expand_all fuel num ideal s nbs ni [] = Inr (s, nbs, ni)"
| "expand_all fuel num ideal s nbs ni (bkt # old) =
    bnd (expand_chain fuel num ideal s nbs ni (hh_head bkt)) (\<lambda>(s, nbs, ni).
      expand_all fuel num ideal s nbs ni old)"

definition HASH_EXPAND_BUCKETS :: "('k, 'v) ut_mem \<Rightarrow> ('k, 'v) ut \<Rightarrow> ut_error + ('k, 'v) ut" where
  "HASH_EXPAND_BUCKETS mem s =
    bnd (load_tbl s) (\<lambda>t.
      let num = wrap32 (num_buckets t * 2)
      in if \<not> m_malloc mem (wrap64 (wrap64 (sizeof_bucket * num_buckets t) * 2)) then Inl Fatal_OOM
         else (let ideal = wrap32 (num_items t div 2 ^ (log2_num_buckets t + 1) +
                     (if num_items t AND wrap32 (num + (2 ^ 32 - 1)) \<noteq> 0 then 1 else 0));
                   new_buckets = replicate (num_buckets t * 2) \<lparr>hh_head = 0, count = 0, expand_mult = 0\<rparr>
               in bnd (expand_all (num_items t + 2) num ideal s new_buckets 0 (take (num_buckets t) (buckets t)))
                    (\<lambda>(s, nbs, ni).
                      let ineff = (if num_items t div 2 < ni then wrap32 (ineff_expands t + 1) else 0)
                      in Inr (s\<lparr>tbl := Some (t\<lparr>buckets := nbs, num_buckets := num,
                           log2_num_buckets := wrap32 (log2_num_buckets t + 1), ideal_chain_maxlen := ideal,
                           nonideal_items := ni, ineff_expands := ineff,
                           noexpand := noexpand t \<or> 1 < ineff\<rparr>)\<rparr>))))"

definition HASH_ADD_TO_BKT :: "('k, 'v) ut_mem \<Rightarrow> ('k, 'v) ut \<Rightarrow> nat \<Rightarrow> ptr \<Rightarrow> ut_error + ('k, 'v) ut" where
  "HASH_ADD_TO_BKT mem s b addhh =
    bnd (load_tbl s) (\<lambda>t.
      bnd (load_bkt (buckets t) b) (\<lambda>bkt.
        let bkt = bkt\<lparr>count := wrap32 (count bkt + 1)\<rparr>
        in bnd (modify s addhh (\<lambda>e. e\<lparr>hh_next := hh_head bkt, hh_prev := 0\<rparr>)) (\<lambda>s.
             bnd (if hh_head bkt \<noteq> 0 then modify s (hh_head bkt) (\<lambda>e. e\<lparr>hh_prev := addhh\<rparr>) else Inr s) (\<lambda>s.
               let bkt = bkt\<lparr>hh_head := addhh\<rparr>;
                   s = s\<lparr>tbl := Some (t\<lparr>buckets := (buckets t)[b := bkt]\<rparr>)\<rparr>
               in if wrap32 (wrap32 (expand_mult bkt + 1) * HASH_BKT_CAPACITY_THRESH) \<le> count bkt \<and> \<not> noexpand t
                  then HASH_EXPAND_BUCKETS mem s
                  else Inr s))))"

definition HASH_ADD_TO_TABLE :: "('k, 'v) ut_mem \<Rightarrow> ('k, 'v) ut \<Rightarrow> u32 \<Rightarrow> ptr \<Rightarrow> ut_error + ('k, 'v) ut" where
  "HASH_ADD_TO_TABLE mem s hv add =
    bnd (load_tbl s) (\<lambda>t.
      HASH_ADD_TO_BKT mem (s\<lparr>tbl := Some (t\<lparr>num_items := wrap32 (num_items t + 1)\<rparr>)\<rparr>)
        (HASH_TO_BKT hv (num_buckets t)) add)"

text \<open>\<open>add\<close> is an element of the store, its key set by the caller.\<close>

definition HASH_ADD_KEYPTR_BYHASHVALUE ::
    "('k, 'v) ut_mem \<Rightarrow> ('k, 'v) ut \<Rightarrow> nat \<Rightarrow> u32 \<Rightarrow> ptr \<Rightarrow> ut_error + ('k, 'v) ut" where
  "HASH_ADD_KEYPTR_BYHASHVALUE mem s klen hv add =
    bnd (modify s add (\<lambda>e. e\<lparr>hashv := hv, keylen := klen\<rparr>)) (\<lambda>s.
      bnd (if head s = 0
           then bnd (modify s add (\<lambda>e. e\<lparr>app_next := 0, app_prev := 0\<rparr>)) (\<lambda>s.
                  bnd (HASH_MAKE_TABLE mem s add) (\<lambda>s. Inr (s\<lparr>head := add\<rparr>)))
           else HASH_APPEND_LIST s add) (\<lambda>s.
        HASH_ADD_TO_TABLE mem s hv add))"

section \<open>Deleting an element\<close>

definition HASH_DEL_IN_BKT :: "('k, 'v) ut \<Rightarrow> nat \<Rightarrow> ptr \<Rightarrow> ut_error + ('k, 'v) ut" where
  "HASH_DEL_IN_BKT s b delhh =
    bnd (load_tbl s) (\<lambda>t.
      bnd (load_bkt (buckets t) b) (\<lambda>bkt.
        bnd (load s delhh) (\<lambda>d.
          let bkt = bkt\<lparr>count := wrap32 (count bkt + (2 ^ 32 - 1))\<rparr>;
              bkt = (if hh_head bkt = delhh then bkt\<lparr>hh_head := hh_next d\<rparr> else bkt)
          in bnd (if hh_prev d \<noteq> 0 then modify s (hh_prev d) (\<lambda>e. e\<lparr>hh_next := hh_next d\<rparr>) else Inr s) (\<lambda>s.
               bnd (if hh_next d \<noteq> 0 then modify s (hh_next d) (\<lambda>e. e\<lparr>hh_prev := hh_prev d\<rparr>) else Inr s) (\<lambda>s.
                 Inr (s\<lparr>tbl := Some (t\<lparr>buckets := (buckets t)[b := bkt]\<rparr>)\<rparr>))))))"

definition HASH_DELETE_HH :: "('k, 'v) ut \<Rightarrow> ptr \<Rightarrow> ut_error + ('k, 'v) ut" where
  "HASH_DELETE_HH s del =
    bnd (load s del) (\<lambda>d.
      if app_prev d = 0 \<and> app_next d = 0 then Inr (s\<lparr>tbl := None, head := 0\<rparr>)
      else bnd (load_tbl s) (\<lambda>t.
        let t = (if del = tail t then t\<lparr>tail := app_prev d\<rparr> else t)
        in bnd (if app_prev d \<noteq> 0 then modify s (app_prev d) (\<lambda>e. e\<lparr>app_next := app_next d\<rparr>)
                else Inr (s\<lparr>head := app_next d\<rparr>)) (\<lambda>s.
             bnd (if app_next d \<noteq> 0 then modify s (app_next d) (\<lambda>e. e\<lparr>app_prev := app_prev d\<rparr>) else Inr s) (\<lambda>s.
               bnd (HASH_DEL_IN_BKT (s\<lparr>tbl := Some t\<rparr>) (HASH_TO_BKT (hashv d) (num_buckets t)) del) (\<lambda>s.
                 bnd (load_tbl s) (\<lambda>t.
                   Inr (s\<lparr>tbl := Some (t\<lparr>num_items := wrap32 (num_items t + (2 ^ 32 - 1))\<rparr>)\<rparr>)))))))"

definition HASH_CLEAR :: "('k, 'v) ut \<Rightarrow> ('k, 'v) ut" where
  "HASH_CLEAR s = (if head s \<noteq> 0 then s\<lparr>tbl := None, head := 0\<rparr> else s)"

definition HASH_CNT :: "('k, 'v) ut \<Rightarrow> ut_error + nat" where
  "HASH_CNT s = (if head s \<noteq> 0 then bnd (load_tbl s) (\<lambda>t. Inr (num_items t)) else Inr 0)"

text \<open>\<open>HASH_OVERHEAD\<close>, with 56 bytes for a handle.\<close>

definition HASH_OVERHEAD :: "('k, 'v) ut \<Rightarrow> ut_error + nat" where
  "HASH_OVERHEAD s =
    (if head s \<noteq> 0
     then bnd (load_tbl s) (\<lambda>t. Inr (wrap64 (num_items t * 56 + num_buckets t * sizeof_bucket + sizeof_table)))
     else Inr 0)"

text \<open>\<open>free(p)\<close>.\<close>

definition free_elem :: "('k, 'v) ut \<Rightarrow> ptr \<Rightarrow> ('k, 'v) ut" where
  "free_elem s p = s\<lparr>store := (store s)(p := None)\<rparr>"

section \<open>The integrity check\<close>

text \<open>
  \<open>HASH_FSCK\<close>, which \<open>HASH_DEBUG\<close> enables: the chain from \<open>thh\<close> has consistent back pointers; the result is
  its length, \<open>None\<close> where the check reports an error.
\<close>

fun fsck_chain :: "nat \<Rightarrow> ('k, 'v) ut \<Rightarrow> ptr \<Rightarrow> ptr \<Rightarrow> ut_error + nat option" where
  "fsck_chain 0 s prev thh = Inl Diverges"
| "fsck_chain (Suc fuel) s prev thh =
    (if thh = 0 then Inr (Some 0)
     else bnd (load s thh) (\<lambda>e.
       if prev \<noteq> hh_prev e then Inr None
       else bnd (fsck_chain fuel s thh (hh_next e)) (\<lambda>c. Inr (map_option Suc c))))"

fun fsck_buckets :: "nat \<Rightarrow> ('k, 'v) ut \<Rightarrow> ut_bucket list \<Rightarrow> ut_error + nat option" where
  "fsck_buckets fuel s [] = Inr (Some 0)"
| "fsck_buckets fuel s (bkt # bs) =
    bnd (fsck_chain fuel s 0 (hh_head bkt)) (\<lambda>c.
      if c \<noteq> Some (count bkt) then Inr None
      else bnd (fsck_buckets fuel s bs) (\<lambda>n. Inr (map_option (\<lambda>n. n + count bkt) n)))"

fun fsck_app :: "nat \<Rightarrow> ('k, 'v) ut \<Rightarrow> ptr \<Rightarrow> ptr \<Rightarrow> ut_error + nat option" where
  "fsck_app 0 s prev thh = Inl Diverges"
| "fsck_app (Suc fuel) s prev thh =
    (if thh = 0 then Inr (Some 0)
     else bnd (load s thh) (\<lambda>e.
       if prev \<noteq> app_prev e then Inr None
       else bnd (fsck_app fuel s thh (app_next e)) (\<lambda>c. Inr (map_option Suc c))))"

definition HASH_FSCK :: "('k, 'v) ut \<Rightarrow> ut_error + bool" where
  "HASH_FSCK s =
    (if head s = 0 then Inr True
     else bnd (load_tbl s) (\<lambda>t.
       bnd (fsck_buckets (num_items t + 1) s (take (num_buckets t) (buckets t))) (\<lambda>c.
         if c \<noteq> Some (num_items t) then Inr False
         else bnd (fsck_app (num_items t + 1) s 0 (head s)) (\<lambda>c. Inr (c = Some (num_items t))))))"

end
