(* ===== verification/Uthash_Correct.thy ===== *)
theory Uthash_Correct
  imports Uthash
begin

text \<open>
  Correctness of the uthash macros: segments of doubly linked lists, the bucket chains as a partition of
  the elements, lookup, addition with bucket expansion, deletion and the integrity check.
\<close>

section \<open>Doubly linked segments\<close>

definition hd_or :: "ptr list \<Rightarrow> ptr \<Rightarrow> ptr" where
  "hd_or xs q = (case xs of [] \<Rightarrow> q | x # _ \<Rightarrow> x)"

definition last_or :: "ptr list \<Rightarrow> ptr \<Rightarrow> ptr" where
  "last_or xs p = (if xs = [] then p else last xs)"

lemma hd_or_simps [simp]: "hd_or [] q = q" "hd_or (x # xs) q = x"
  by (simp_all add: hd_or_def)

lemma last_or_simps [simp]: "last_or [] p = p" "last_or (x # xs) p = last_or xs x"
  by (simp_all add: last_or_def)

lemma hd_or_append: "hd_or (xs @ ys) q = hd_or xs (hd_or ys q)"
  by (cases xs) simp_all

lemma last_or_append: "last_or (xs @ ys) p = last_or ys (last_or xs p)"
  by (induction xs arbitrary: p) simp_all

lemma last_or_last: "xs \<noteq> [] \<Longrightarrow> last_or xs p = last xs"
  by (simp add: last_or_def)

text \<open>
  The list \<open>xs\<close> with next pointers \<open>nx\<close> and back pointers \<open>pv\<close>: what precedes it is \<open>p\<close>, what follows
  it \<open>q\<close>; \<open>nseg\<close> is about the next pointers only.
\<close>

fun nseg :: "(ptr \<Rightarrow> ptr) \<Rightarrow> ptr list \<Rightarrow> ptr \<Rightarrow> bool" where
  "nseg nx [] q \<longleftrightarrow> True"
| "nseg nx (x # xs) q \<longleftrightarrow> x \<noteq> 0 \<and> nx x = hd_or xs q \<and> nseg nx xs q"

fun lseg :: "(ptr \<Rightarrow> ptr) \<Rightarrow> (ptr \<Rightarrow> ptr) \<Rightarrow> ptr \<Rightarrow> ptr list \<Rightarrow> ptr \<Rightarrow> bool" where
  "lseg nx pv p [] q \<longleftrightarrow> True"
| "lseg nx pv p (x # xs) q \<longleftrightarrow> x \<noteq> 0 \<and> nx x = hd_or xs q \<and> pv x = p \<and> lseg nx pv x xs q"

lemma lseg_nseg: "lseg nx pv p xs q \<Longrightarrow> nseg nx xs q"
  by (induction xs arbitrary: p) auto

lemma nseg_nonzero: "nseg nx xs q \<Longrightarrow> 0 \<notin> set xs"
  by (induction xs) auto

lemma nseg_cong: "(\<And>x. x \<in> set xs \<Longrightarrow> nx' x = nx x) \<Longrightarrow> nseg nx' xs q = nseg nx xs q"
  by (induction xs) auto

lemma lseg_cong:
  "(\<And>x. x \<in> set xs \<Longrightarrow> nx' x = nx x) \<Longrightarrow> (\<And>x. x \<in> set xs \<Longrightarrow> pv' x = pv x) \<Longrightarrow>
    lseg nx' pv' p xs q = lseg nx pv p xs q"
  by (induction xs arbitrary: p) auto

lemma lseg_append:
  "lseg nx pv p (xs @ ys) q \<longleftrightarrow> lseg nx pv p xs (hd_or ys q) \<and> lseg nx pv (last_or xs p) ys q"
  by (induction xs arbitrary: p) (auto simp: hd_or_append)

text \<open>What the three changes of a list do to its pointers.\<close>

lemma lseg_push:
  assumes "lseg nx pv 0 xs 0" "x \<noteq> 0" "x \<notin> set xs" "distinct xs"
    and "\<And>y. nx' y = (if y = x then hd_or xs 0 else nx y)"
    and "\<And>y. pv' y = (if y = x then 0 else if y = hd_or xs 0 \<and> xs \<noteq> [] then x else pv y)"
  shows "lseg nx' pv' 0 (x # xs) 0"
proof (cases xs)
  case (Cons y ys)
  have "lseg nx' pv' y ys 0 = lseg nx pv y ys 0"
    using assms(3-6) Cons by (intro lseg_cong) auto
  then show ?thesis using assms Cons by auto
qed (use assms in auto)

lemma lseg_snoc:
  assumes "lseg nx pv 0 xs 0" "x \<noteq> 0" "x \<notin> set xs" "distinct xs" "xs \<noteq> []"
    and "\<And>y. nx' y = (if y = last xs then x else if y = x then 0 else nx y)"
    and "\<And>y. pv' y = (if y = x then last xs else pv y)"
  shows "lseg nx' pv' 0 (xs @ [x]) 0"
proof -
  obtain ys z where xs: "xs = ys @ [z]" using assms(5) by (cases xs rule: rev_cases) auto
  have "lseg nx' pv' 0 ys z = lseg nx pv 0 ys z"
    using assms(3,4,6,7) by (intro lseg_cong) (auto simp: xs)
  then show ?thesis using assms by (auto simp: xs lseg_append)
qed

lemma lseg_remove:
  assumes "lseg nx pv 0 (ys @ x # zs) 0" "distinct (ys @ x # zs)"
    and "\<And>y. nx' y = (if ys \<noteq> [] \<and> y = last ys then hd_or zs 0 else nx y)"
    and "\<And>y. pv' y = (if zs \<noteq> [] \<and> y = hd_or zs 0 then last_or ys 0 else pv y)"
  shows "lseg nx' pv' 0 (ys @ zs) 0"
proof -
  have ys: "lseg nx' pv' 0 ys (hd_or zs 0)"
  proof (cases ys rule: rev_cases)
    case (snoc us u)
    have "lseg nx' pv' 0 us u = lseg nx pv 0 us u"
      using assms(2-4) by (intro lseg_cong) (cases zs, auto simp: snoc)+
    then show ?thesis using assms by (cases zs) (auto simp: snoc lseg_append)
  qed simp
  have zs: "lseg nx' pv' (last_or ys 0) zs 0"
  proof (cases zs)
    case (Cons v vs)
    have "lseg nx' pv' v vs 0 = lseg nx pv v vs 0"
      using assms(2-4) by (intro lseg_cong) (cases ys rule: rev_cases, auto simp: Cons)+
    then show ?thesis using assms by (cases ys rule: rev_cases) (auto simp: Cons lseg_append)
  qed simp
  show ?thesis using ys zs by (simp add: lseg_append)
qed

lemma lseg_at:
  "lseg nx pv 0 (ys @ x # zs) 0 \<Longrightarrow> nx x = hd_or zs 0 \<and> pv x = last_or ys 0 \<and> x \<noteq> 0"
  by (simp add: lseg_append)

lemma lseg_zero: "lseg nx pv p xs q \<Longrightarrow> 0 \<notin> set xs"
  using lseg_nseg nseg_nonzero by blast

lemma hd_or_0: "0 \<notin> set xs \<Longrightarrow> hd_or xs 0 = 0 \<longleftrightarrow> xs = []"
  by (cases xs) auto

lemma last_or_0: "0 \<notin> set xs \<Longrightarrow> last_or xs 0 = 0 \<longleftrightarrow> xs = []"
  by (metis last_in_set last_or_def)

section \<open>Memory\<close>

definition el :: "('k, 'v) ut \<Rightarrow> ptr \<Rightarrow> ('k, 'v) ut_elem" where
  "el s p = the (store s p)"

abbreviation live :: "('k, 'v) ut \<Rightarrow> ptr set" where
  "live s \<equiv> dom (store s)"

lemma load_live: "p \<in> live s \<Longrightarrow> load s p = Inr (el s p)"
  by (auto simp: load_def el_def)

lemma load_store: "store s p = Some e \<Longrightarrow> load s p = Inr e"
  by (simp add: load_def)

lemma modify_live: "p \<in> live s \<Longrightarrow> modify s p f = Inr (s\<lparr>store := (store s)(p \<mapsto> f (el s p))\<rparr>)"
  by (auto simp: modify_def el_def)

lemma el_store [simp]: "el (s\<lparr>store := st\<rparr>) p = the (st p)"
  by (simp add: el_def)

lemma el_tbl [simp]: "el (s\<lparr>tbl := t\<rparr>) p = el s p" "el (s\<lparr>head := h\<rparr>) p = el s p"
  by (simp_all add: el_def)


text \<open>Two states whose elements differ in the links of their bucket chains only.\<close>

definition same_app :: "('k, 'v) ut \<Rightarrow> ('k, 'v) ut \<Rightarrow> bool" where
  "same_app s s' \<longleftrightarrow> live s' = live s \<and> head s' = head s \<and>
    (\<forall>p. el_key (el s' p) = el_key (el s p) \<and> el_value (el s' p) = el_value (el s p) \<and>
      app_prev (el s' p) = app_prev (el s p) \<and> app_next (el s' p) = app_next (el s p) \<and>
      hashv (el s' p) = hashv (el s p) \<and> keylen (el s' p) = keylen (el s p))"

lemma same_app_refl: "same_app s s"
  by (simp add: same_app_def)

lemma same_app_trans: "same_app s s' \<Longrightarrow> same_app s' s'' \<Longrightarrow> same_app s s''"
  by (simp add: same_app_def)

definition link_front :: "('k, 'v) ut \<Rightarrow> ptr \<Rightarrow> ptr \<Rightarrow> ('k, 'v) ut" where
  "link_front s x h = (let st = (store s)(x \<mapsto> (el s x)\<lparr>hh_prev := 0, hh_next := h\<rparr>)
     in s\<lparr>store := (if h \<noteq> 0 then st(h \<mapsto> (el s h)\<lparr>hh_prev := x\<rparr>) else st)\<rparr>)"

lemma link_front:
  assumes "x \<in> live s" "h = 0 \<or> h \<in> live s" "h \<noteq> x"
  shows "bnd (modify s x (\<lambda>e. e\<lparr>hh_prev := 0, hh_next := h\<rparr>)) (\<lambda>s.
      bnd (if h \<noteq> 0 then modify s h (\<lambda>e. e\<lparr>hh_prev := x\<rparr>) else Inr s) F) = F (link_front s x h)"
proof (cases "h = 0")
  case False
  then have "h \<in> live s" using assms by simp
  then show ?thesis using assms False
    by (simp add: modify_live link_front_def Let_def el_def)
qed (use assms in \<open>simp add: modify_live link_front_def\<close>)

lemma link_front_fields:
  assumes "x \<in> live s" "h = 0 \<or> h \<in> live s" "h \<noteq> x"
  shows "same_app s (link_front s x h)"
    and "hh_next (el (link_front s x h) y) = (if y = x then h else hh_next (el s y))"
    and "hh_prev (el (link_front s x h) y) =
      (if y = x then 0 else if h \<noteq> 0 \<and> y = h then x else hh_prev (el s y))"
    and "tbl (link_front s x h) = tbl s"
  using assms by (auto simp: same_app_def link_front_def Let_def el_def split: if_splits)

section \<open>Bucket chains\<close>

definition bkt_ok :: "('k, 'v) ut \<Rightarrow> ut_bucket \<Rightarrow> ptr list \<Rightarrow> bool" where
  "bkt_ok s bkt c \<longleftrightarrow> hh_head bkt = hd_or c 0 \<and> count bkt = length c \<and> distinct c \<and>
    lseg (\<lambda>p. hh_next (el s p)) (\<lambda>p. hh_prev (el s p)) 0 c 0"

text \<open>\<open>ch b\<close> is the chain of bucket \<open>b\<close>; the chains partition the elements \<open>P\<close> by their hash values.\<close>

definition chains_ok :: "('k, 'v) ut \<Rightarrow> nat \<Rightarrow> ut_bucket list \<Rightarrow> (nat \<Rightarrow> ptr list) \<Rightarrow> ptr set \<Rightarrow> bool" where
  "chains_ok s k bs ch P \<longleftrightarrow> length bs = 2 ^ k \<and>
    (\<forall>b < 2 ^ k. bkt_ok s (bs ! b) (ch b) \<and> set (ch b) = {p \<in> P. unat (hashv (el s p)) mod 2 ^ k = b})"

lemma chains_okD:
  assumes "chains_ok s k bs ch P" "b < 2 ^ k"
  shows "hh_head (bs ! b) = hd_or (ch b) 0" "count (bs ! b) = length (ch b)" "distinct (ch b)"
    "lseg (\<lambda>p. hh_next (el s p)) (\<lambda>p. hh_prev (el s p)) 0 (ch b) 0"
    "set (ch b) = {p \<in> P. unat (hashv (el s p)) mod 2 ^ k = b}" "length bs = 2 ^ k"
  using assms by (auto simp: chains_ok_def bkt_ok_def)

lemma to_bkt: "k \<le> 31 \<Longrightarrow> HASH_TO_BKT hv (2 ^ k) = unat hv mod 2 ^ k"
proof -
  assume "k \<le> 31"
  have "hv AND (of_nat (2 ^ k) - 1) = take_bit k hv"
    by (simp add: take_bit_eq_mask mask_eq_exp_minus_1)
  then show ?thesis
    unfolding HASH_TO_BKT_def by (simp only: unsigned_take_bit_eq) (simp add: take_bit_eq_mod)
qed

lemma length_chain:
  assumes "chains_ok s k bs ch P" "b < 2 ^ k" "finite P"
  shows "length (ch b) \<le> card P"
proof -
  have "length (ch b) = card (set (ch b))" using chains_okD(3) [OF assms(1,2)] by (simp add: distinct_card)
  also have "\<dots> \<le> card P" unfolding chains_okD(5) [OF assms(1,2)] by (rule card_mono [OF assms(3)]) auto
  finally show ?thesis .
qed

text \<open>Linking an element at the front of its bucket, the step that addition and expansion share.\<close>

lemma chains_push:
  assumes ok: "chains_ok s k bs ch P" and x: "x \<in> live s" "x \<notin> P" "x \<noteq> 0" and P: "P \<subseteq> live s"
    and b: "b = unat (hashv (el s x)) mod 2 ^ k"
    and bkt: "hh_head bkt = x" "count bkt = Suc (length (ch b))"
  shows "chains_ok (link_front s x (hh_head (bs ! b))) k (bs[b := bkt]) (ch(b := x # ch b)) (insert x P)"
proof -
  define h where "h = hd_or (ch b) 0"
  define s' where "s' = link_front s x h"
  have bk: "b < 2 ^ k" by (simp add: b)
  note B = chains_okD [OF ok bk]
  have hb: "hh_head (bs ! b) = h" using B(1) by (simp add: h_def)
  have z: "0 \<notin> set (ch b)" using lseg_zero [OF B(4)] .
  have h0: "h \<noteq> 0 \<longleftrightarrow> ch b \<noteq> []" using hd_or_0 [OF z] by (simp add: h_def)
  have hin: "h \<noteq> 0 \<Longrightarrow> h \<in> set (ch b)" using h0 by (cases "ch b") (simp_all add: h_def)
  then have h: "h = 0 \<or> h \<in> live s" using B(5) P by auto
  have xb: "x \<notin> set (ch b)" using B(5) x(2) by auto
  then have "h \<noteq> x" using hin x(3) by auto
  note f = link_front_fields [OF x(1) h this, folded s'_def]
  have hv: "hashv (el s' p) = hashv (el s p)" for p using f(1) by (simp add: same_app_def)
  have new: "bkt_ok s' bkt (x # ch b)"
    unfolding bkt_ok_def
  proof (intro conjI)
    show "lseg (\<lambda>p. hh_next (el s' p)) (\<lambda>p. hh_prev (el s' p)) 0 (x # ch b) 0"
      by (rule lseg_push [OF B(4) x(3) xb B(3)]) (use h0 in \<open>auto simp: f h_def [symmetric]\<close>)
  qed (use bkt xb B(3) in auto)
  have other: "bkt_ok s' (bs ! c) (ch c)" if c: "c < 2 ^ k" "c \<noteq> b" for c :: nat
  proof -
    note C = chains_okD [OF ok c(1)]
    have "y \<noteq> x \<and> \<not> (h \<noteq> 0 \<and> y = h)" if "y \<in> set (ch c)" for y
      using that C(5) B(5) hin x(2) c(2) by auto
    then have "lseg (\<lambda>p. hh_next (el s' p)) (\<lambda>p. hh_prev (el s' p)) 0 (ch c) 0"
      using C(4) by (subst lseg_cong [where nx = "\<lambda>p. hh_next (el s p)" and pv = "\<lambda>p. hh_prev (el s p)"]) (auto simp: f)
    then show ?thesis using C by (simp add: bkt_ok_def)
  qed
  show ?thesis
    unfolding hb s'_def [symmetric] chains_ok_def
  proof (intro conjI allI impI)
    show "length (bs[b := bkt]) = 2 ^ k" using B(6) by simp
    fix c :: nat assume c: "c < 2 ^ k"
    show "bkt_ok s' (bs[b := bkt] ! c) ((ch(b := x # ch b)) c)"
      using new other c B(6) by (cases "c = b") simp_all
    show "set ((ch(b := x # ch b)) c) = {p \<in> insert x P. unat (hashv (el s' p)) mod 2 ^ k = c}"
      using chains_okD(5) [OF ok c] b by (auto simp: hv)
  qed
qed

section \<open>Lookup\<close>

lemma find_loop_result:
  assumes "nseg (\<lambda>p. hh_next (el s p)) c 0" "set c \<subseteq> live s" "length c < fuel"
  shows "find_in_bkt_loop cmpr fuel s (hd_or c 0) key klen hv =
    Inr (case find (\<lambda>p. hashv (el s p) = hv \<and> keylen (el s p) = klen \<and> cmpr (el_key (el s p)) key) c of
           None \<Rightarrow> 0 | Some p \<Rightarrow> p)"
  using assms
proof (induction c arbitrary: fuel)
  case Nil
  then show ?case by (cases fuel) auto
next
  case (Cons x c)
  obtain f where f: "fuel = Suc f" using Cons.prems(3) by (cases fuel) auto
  have "find_in_bkt_loop cmpr f s (hd_or c 0) key klen hv =
    Inr (case find (\<lambda>p. hashv (el s p) = hv \<and> keylen (el s p) = klen \<and> cmpr (el_key (el s p)) key) c of
           None \<Rightarrow> 0 | Some p \<Rightarrow> p)"
    using Cons f by simp
  then show ?case using Cons.prems f by (simp add: load_live)
qed

section \<open>Bucket expansion\<close>

lemma chain_hashes: "same_app s s' \<Longrightarrow> hashv (el s' p) = hashv (el s p)"
  by (simp add: same_app_def)

lemma expand_chain_result:
  assumes "nseg (\<lambda>p. hh_next (el s p)) rem 0" "distinct rem" "set rem \<subseteq> live s" "P \<subseteq> live s" "set rem \<inter> P = {}"
    "chains_ok s k nbs ch P" "k \<le> 31" "length rem < fuel" "finite P" "card P + length rem < 2 ^ 32"
  shows "\<exists>s' nbs' ni' ch'. expand_chain fuel (2 ^ k) ideal s nbs ni (hd_or rem 0) = Inr (s', nbs', ni') \<and>
    same_app s s' \<and> tbl s' = tbl s \<and> chains_ok s' k nbs' ch' (P \<union> set rem) \<and>
    (\<forall>p. p \<notin> P \<union> set rem \<longrightarrow> hh_next (el s' p) = hh_next (el s p))"
  using assms(1-6,8-10)
proof (induction rem arbitrary: fuel s nbs ni P ch)
  case Nil
  then show ?case by (cases fuel) (auto simp: same_app_refl)
next
  case (Cons x rem)
  obtain f where f: "fuel = Suc f" using Cons.prems(7) by (cases fuel) auto
  define b where "b = unat (hashv (el s x)) mod 2 ^ k"
  have bk: "b < 2 ^ k" by (simp add: b_def)
  note B = chains_okD [OF Cons.prems(6) bk]
  define h where "h = hd_or (ch b) 0"
  have x: "x \<in> live s" "x \<notin> P" "x \<noteq> 0" using Cons.prems by auto
  have hin: "h \<noteq> 0 \<Longrightarrow> h \<in> P" using B(5) by (cases "ch b") (auto simp: h_def)
  have h: "h = 0 \<or> h \<in> live s" "h \<noteq> x" using hin x Cons.prems(4) by auto
  define s1 where "s1 = link_front s x h"
  note F = link_front_fields [OF x(1) h, folded s1_def]
  have len: "length (ch b) + 1 < 2 ^ 32" using length_chain [OF Cons.prems(6) bk Cons.prems(8)] Cons.prems(9) by simp
  define nb where "nb = expand_count ideal (nbs ! b)"
  have nb: "hh_head nb = h" "count nb = Suc (length (ch b))"
    using len by (simp_all add: nb_def expand_count_def Let_def B(1,2) h_def)
  have step: "expand_chain fuel (2 ^ k) ideal s nbs ni x =
      expand_chain f (2 ^ k) ideal s1 (nbs[b := nb\<lparr>hh_head := x\<rparr>]) (if ideal < count nb then wrap32 (ni + 1) else ni) (hd_or rem 0)"
  proof -
    have "HASH_TO_BKT (hashv (el s x)) (2 ^ k) = b" by (simp add: to_bkt [OF assms(7)] b_def)
    moreover have "load_bkt nbs b = Inr (nbs ! b)" using B(6) bk by (simp add: load_bkt_def)
    moreover have "hh_next (el s x) = hd_or rem 0" using Cons.prems(1) by simp
    moreover have "hh_head (expand_count ideal (nbs ! b)) = h" using nb(1) by (simp add: nb_def)
    ultimately show ?thesis
      using x(3) unfolding f expand_chain.simps
      by (simp only: load_live [OF x(1)] Let_def bnd.simps if_False link_front [OF x(1) h] nb_def [symmetric] s1_def simp_thms)
  qed
  have ok1: "chains_ok s1 k (nbs[b := nb\<lparr>hh_head := x\<rparr>]) (ch(b := x # ch b)) (insert x P)"
    unfolding s1_def h_def B(1) [symmetric]
    by (rule chains_push [OF Cons.prems(6) x Cons.prems(4) b_def]) (simp_all add: nb)
  have live1: "live s1 = live s" using F(1) by (simp add: same_app_def)
  have same: "hh_next (el s1 p) = hh_next (el s p)" if "p \<noteq> x" for p using F(2) that by simp
  have ns1: "nseg (\<lambda>p. hh_next (el s1 p)) rem 0"
    using Cons.prems(1,2) by (subst nseg_cong [where nx = "\<lambda>p. hh_next (el s p)"]) (auto simp: F(2))
  have "\<exists>s' nbs' ni' ch'. expand_chain f (2 ^ k) ideal s1 (nbs[b := nb\<lparr>hh_head := x\<rparr>])
        (if ideal < count nb then wrap32 (ni + 1) else ni) (hd_or rem 0) = Inr (s', nbs', ni') \<and>
      same_app s1 s' \<and> tbl s' = tbl s1 \<and> chains_ok s' k nbs' ch' (insert x P \<union> set rem) \<and>
      (\<forall>p. p \<notin> insert x P \<union> set rem \<longrightarrow> hh_next (el s' p) = hh_next (el s1 p))"
    by (rule Cons.IH [OF ns1 _ _ _ _ ok1]) (use Cons.prems f live1 in auto)
  then obtain s' nbs' ni' ch' where R: "expand_chain fuel (2 ^ k) ideal s nbs ni x = Inr (s', nbs', ni')"
    "same_app s1 s'" "tbl s' = tbl s1" "chains_ok s' k nbs' ch' (insert x P \<union> set rem)"
    "\<forall>p. p \<notin> insert x P \<union> set rem \<longrightarrow> hh_next (el s' p) = hh_next (el s1 p)"
    unfolding step by blast
  have "insert x P \<union> set rem = P \<union> set (x # rem)" by auto
  then show ?case
    using R same_app_trans [OF F(1) R(2)] same F(4) by (intro exI [of _ s'] exI [of _ nbs'] exI [of _ ni'] exI [of _ ch']) auto
qed

lemma expand_all_result:
  assumes "list_all2 (\<lambda>bkt c. hh_head bkt = hd_or c 0 \<and> nseg (\<lambda>p. hh_next (el s p)) c 0 \<and> length c < fuel) bs cs"
    "distinct (concat cs)" "set (concat cs) \<subseteq> live s" "P \<subseteq> live s" "set (concat cs) \<inter> P = {}"
    "chains_ok s k nbs ch P" "k \<le> 31" "finite P" "card P + length (concat cs) < 2 ^ 32"
  shows "\<exists>s' nbs' ni' ch'. expand_all fuel (2 ^ k) ideal s nbs ni bs = Inr (s', nbs', ni') \<and>
    same_app s s' \<and> tbl s' = tbl s \<and> chains_ok s' k nbs' ch' (P \<union> set (concat cs))"
  using assms(1-6,8,9)
proof (induction bs arbitrary: s nbs ni P ch cs)
  case Nil
  then show ?case by (auto simp: same_app_refl)
next
  case (Cons bkt bs)
  then obtain c cs' where cs: "cs = c # cs'" by (cases cs) auto
  note P = Cons.prems [unfolded cs]
  have "\<exists>s' nbs' ni' ch'. expand_chain fuel (2 ^ k) ideal s nbs ni (hd_or c 0) = Inr (s', nbs', ni') \<and>
      same_app s s' \<and> tbl s' = tbl s \<and> chains_ok s' k nbs' ch' (P \<union> set c) \<and>
      (\<forall>p. p \<notin> P \<union> set c \<longrightarrow> hh_next (el s' p) = hh_next (el s p))"
    by (rule expand_chain_result [OF _ _ _ P(4) _ P(6) assms(7) _ P(7)]) (use P in auto)
  then obtain s1 nbs1 ni1 ch1 where R: "expand_chain fuel (2 ^ k) ideal s nbs ni (hd_or c 0) = Inr (s1, nbs1, ni1)"
    "same_app s s1" "tbl s1 = tbl s" "chains_ok s1 k nbs1 ch1 (P \<union> set c)"
    "\<forall>p. p \<notin> P \<union> set c \<longrightarrow> hh_next (el s1 p) = hh_next (el s p)" by blast
  have live1: "live s1 = live s" using R(2) by (simp add: same_app_def)
  have "nseg (\<lambda>p. hh_next (el s1 p)) c' 0" if "c' \<in> set cs'" "nseg (\<lambda>p. hh_next (el s p)) c' 0" for c'
  proof -
    have "hh_next (el s1 p) = hh_next (el s p)" if "p \<in> set c'" for p
    proof -
      have "p \<in> set (concat cs')" using that \<open>c' \<in> set cs'\<close> by auto
      then have "p \<notin> P \<union> set c" using P(2,5) by auto
      then show ?thesis using R(5) by blast
    qed
    then show ?thesis using that(2) by (subst nseg_cong [where nx = "\<lambda>p. hh_next (el s p)"]) auto
  qed
  then have l2: "list_all2 (\<lambda>bkt c. hh_head bkt = hd_or c 0 \<and> nseg (\<lambda>p. hh_next (el s1 p)) c 0 \<and> length c < fuel) bs cs'"
    using P(1) by (auto elim!: list.rel_mono_strong)
  have card: "card (P \<union> set c) + length (concat cs') < 2 ^ 32"
  proof -
    have "card (P \<union> set c) \<le> card P + length c" using card_Un_le [of P "set c"] card_length [of c] by linarith
    then show ?thesis using P(8) by simp
  qed
  have "\<exists>s' nbs' ni' ch'. expand_all fuel (2 ^ k) ideal s1 nbs1 ni1 bs = Inr (s', nbs', ni') \<and>
      same_app s1 s' \<and> tbl s' = tbl s1 \<and> chains_ok s' k nbs' ch' ((P \<union> set c) \<union> set (concat cs'))"
    by (rule Cons.IH [OF l2 _ _ _ _ R(4) _ card]) (use P live1 in auto)
  then obtain s' nbs' ni' ch' where R': "expand_all fuel (2 ^ k) ideal s1 nbs1 ni1 bs = Inr (s', nbs', ni')"
    "same_app s1 s'" "tbl s' = tbl s1" "chains_ok s' k nbs' ch' ((P \<union> set c) \<union> set (concat cs'))" by blast
  have "hh_head bkt = hd_or c 0" using P(1) by simp
  moreover have "(P \<union> set c) \<union> set (concat cs') = P \<union> set (concat cs)" by (auto simp: cs)
  ultimately show ?case
    using R R' same_app_trans [OF R(2) R'(2)]
    by (intro exI [of _ s'] exI [of _ nbs'] exI [of _ ni'] exI [of _ ch']) simp
qed

section \<open>The table\<close>

definition ut_buckets_ok :: "('k, 'v) ut \<Rightarrow> ptr set \<Rightarrow> ut_table \<Rightarrow> bool" where
  "ut_buckets_ok s P t \<longleftrightarrow> (\<exists>k ch. k \<le> 31 \<and> num_buckets t = 2 ^ k \<and> log2_num_buckets t = k \<and>
    chains_ok s k (buckets t) ch P)"

definition ut_table_ok :: "('k, 'v) ut \<Rightarrow> ptr list \<Rightarrow> ut_table \<Rightarrow> bool" where
  "ut_table_ok s xs t \<longleftrightarrow> (\<exists>k ch. k \<le> 31 \<and> num_buckets t = 2 ^ k \<and> log2_num_buckets t = k \<and>
    num_items t = length xs \<and> tail t = last xs \<and> chains_ok s k (buckets t) ch (set xs))"

lemma ut_table_ok_buckets:
  "ut_table_ok s xs t \<longleftrightarrow> ut_buckets_ok s (set xs) t \<and> num_items t = length xs \<and> tail t = last xs"
  by (auto simp: ut_table_ok_def ut_buckets_ok_def)

text \<open>Allocations stay below 64 GiB; a larger one would make \<open>num_buckets\<close> wrap around. An element is in
  fresh memory, or \<open>malloc\<close> gives 0, \<open>NULL\<close>, for it.\<close>

definition ut_mem_ok :: "('k, 'v) ut_mem \<Rightarrow> bool" where
  "ut_mem_ok mem \<longleftrightarrow> (\<forall>n. m_malloc mem n \<longrightarrow> n < 2 ^ 36) \<and> (\<forall>P. finite P \<longrightarrow> m_elem mem P \<notin> P)"

lemma chains_partition:
  assumes ok: "chains_ok s k bs ch P"
  defines "cs \<equiv> map ch [0..<2 ^ k]"
  shows "distinct (concat cs)" "set (concat cs) = P"
proof -
  note C = chains_okD [OF ok]
  have "distinct (concat (map ch [0..<n])) \<and>
      set (concat (map ch [0..<n])) = {p \<in> P. unat (hashv (el s p)) mod 2 ^ k < n}" if "n \<le> 2 ^ k" for n
    using that
  proof (induction n)
    case (Suc n)
    then show ?case using C(3) [of n] C(5) [of n] by (auto simp: less_Suc_eq)
  qed simp
  from this [of "2 ^ k"] show "distinct (concat cs)" "set (concat cs) = P" by (simp_all add: cs_def)
qed

lemma expand_buckets_result:
  assumes t: "tbl s = Some t" and ok: "ut_buckets_ok s P t" and P: "P \<subseteq> live s" "finite P" "card P < 2 ^ 32"
    and items: "card P \<le> num_items t + 1" and mem: "ut_mem_ok mem"
  shows "HASH_EXPAND_BUCKETS mem s = Inl Fatal_OOM \<or> (\<exists>s' t'. HASH_EXPAND_BUCKETS mem s = Inr s' \<and>
    same_app s s' \<and> tbl s' = Some t' \<and> ut_buckets_ok s' P t' \<and> num_items t' = num_items t \<and> tail t' = tail t)"
proof -
  obtain k ch where k: "k \<le> 31" "num_buckets t = 2 ^ k" "log2_num_buckets t = k"
    "chains_ok s k (buckets t) ch P" using ok by (auto simp: ut_buckets_ok_def)
  have "(2::nat) ^ k \<le> 2 ^ 31" by (rule power_increasing) (use k(1) in auto)
  then have small: "wrap64 (wrap64 (sizeof_bucket * num_buckets t) * 2) = 2 ^ k * 32"
    by (simp add: k(2) sizeof_bucket_def)
  show ?thesis
  proof (cases "m_malloc mem (2 ^ k * 32)")
    case False
    then show ?thesis
      by (simp only: HASH_EXPAND_BUCKETS_def Let_def load_tbl_def t option.case bnd.simps small if_True simp_thms)
  next
    case True
    then have "(2::nat) ^ k * 32 < 2 ^ 36" using mem by (simp add: ut_mem_ok_def)
    then have "(2::nat) ^ (k + 5) < 2 ^ 36" by (simp add: power_add)
    then have k1: "k + 1 \<le> 31" by (simp only: power_strict_increasing_iff one_less_numeral_iff semiring_norm)
    then have "(2::nat) ^ (k + 1) \<le> 2 ^ 31" by (intro power_increasing) auto
    then have num: "wrap32 (num_buckets t * 2) = 2 ^ (k + 1)" by (simp add: k(2))
    define nb0 where "nb0 = replicate (num_buckets t * 2) \<lparr>hh_head = 0, count = 0, expand_mult = 0\<rparr>"
    define cs where "cs = map ch [0..<2 ^ k]"
    note C = chains_okD [OF k(4)]
    note part = chains_partition [OF k(4), folded cs_def]
    have lencs: "length (concat cs) = card P"
      using part distinct_card [of "concat cs"] by simp
    have "length bs \<le> length (concat cs)" if "bs \<in> set cs" for bs
      using that by (auto simp: length_concat intro: member_le_sum_list)
    moreover have "length (buckets t) = 2 ^ k" using C(6) [of 0] by simp
    ultimately have l2: "list_all2 (\<lambda>bkt c. hh_head bkt = hd_or c 0 \<and> nseg (\<lambda>p. hh_next (el s p)) c 0 \<and>
        length c < num_items t + 2) (take (num_buckets t) (buckets t)) cs"
      using C(1) lseg_nseg [OF C(4)] lencs items by (fastforce simp: list_all2_conv_all_nth cs_def k(2))
    have new: "chains_ok s (k + 1) nb0 (\<lambda>_. []) {}"
      by (auto simp: chains_ok_def bkt_ok_def nb0_def k(2))
    let ?ideal = "wrap32 (num_items t div 2 ^ (log2_num_buckets t + 1) +
                     (if num_items t AND wrap32 (2 ^ (k + 1) + (2 ^ 32 - 1)) \<noteq> 0 then 1 else 0))"
    have "\<exists>s' nbs' ni' ch'. expand_all (num_items t + 2) (2 ^ (k + 1)) ?ideal s nb0 0 (take (num_buckets t) (buckets t)) =
        Inr (s', nbs', ni') \<and> same_app s s' \<and> tbl s' = tbl s \<and> chains_ok s' (k + 1) nbs' ch' ({} \<union> set (concat cs))"
      by (rule expand_all_result [OF l2 part(1) _ _ _ new k1]) (use part(2) P lencs in auto)
    then obtain s' nbs' ni' ch' where R: "expand_all (num_items t + 2) (2 ^ (k + 1)) ?ideal s nb0 0 (take (num_buckets t) (buckets t)) =
        Inr (s', nbs', ni')" "same_app s s'" "chains_ok s' (k + 1) nbs' ch' P"
      by (simp only: part(2) Un_empty_left) blast
    define ineff where "ineff = (if num_items t div 2 < ni' then wrap32 (ineff_expands t + 1) else 0)"
    define t' where "t' = t\<lparr>buckets := nbs', num_buckets := 2 ^ (k + 1), log2_num_buckets := wrap32 (log2_num_buckets t + 1),
      ideal_chain_maxlen := ?ideal, nonideal_items := ni', ineff_expands := ineff, noexpand := noexpand t \<or> 1 < ineff\<rparr>"
    have exp: "HASH_EXPAND_BUCKETS mem s = Inr (s'\<lparr>tbl := Some t'\<rparr>)"
      using True R(1)
      by (simp only: HASH_EXPAND_BUCKETS_def Let_def load_tbl_def t option.case bnd.simps small if_False simp_thms
          num nb0_def [symmetric] prod.case t'_def ineff_def)
    have "ut_buckets_ok (s'\<lparr>tbl := Some t'\<rparr>) P t'"
      unfolding ut_buckets_ok_def using R(3) k k1
      by (intro exI [of _ "k + 1"] exI [of _ ch']) (auto simp: t'_def chains_ok_def bkt_ok_def)
    moreover have "same_app s (s'\<lparr>tbl := Some t'\<rparr>)" using R(2) by (simp add: same_app_def)
    ultimately show ?thesis using exp by (auto simp: t'_def)
  qed
qed

lemma add_to_bkt_result:
  assumes t: "tbl s = Some t" and bok: "ut_buckets_ok s P t" and items: "card P \<le> num_items t"
    and x: "x \<in> live s" "x \<notin> P" "x \<noteq> 0" and P: "P \<subseteq> live s" "finite P" "card P + 1 < 2 ^ 32"
    and hv: "hv = hashv (el s x)" and mem: "ut_mem_ok mem"
  defines "b \<equiv> HASH_TO_BKT hv (num_buckets t)"
  shows "HASH_ADD_TO_BKT mem s b x = Inl Fatal_OOM \<or> (\<exists>s' t'. HASH_ADD_TO_BKT mem s b x = Inr s' \<and>
    same_app s s' \<and> tbl s' = Some t' \<and> ut_buckets_ok s' (insert x P) t' \<and> num_items t' = num_items t \<and> tail t' = tail t)"
proof -
  obtain k ch where k: "k \<le> 31" "num_buckets t = 2 ^ k" "log2_num_buckets t = k"
    and ok: "chains_ok s k (buckets t) ch P" using bok by (auto simp: ut_buckets_ok_def)
  have b: "b = unat (hashv (el s x)) mod 2 ^ k" by (simp add: b_def hv k(2) to_bkt [OF k(1)])
  have bk: "b < 2 ^ k" by (simp add: b)
  note B = chains_okD [OF ok bk]
  define bkt where "bkt = (buckets t ! b)\<lparr>count := wrap32 (count (buckets t ! b) + 1), hh_head := x\<rparr>"
  define h where "h = hd_or (ch b) 0"
  have hin: "h \<noteq> 0 \<Longrightarrow> h \<in> P" using B(5) by (cases "ch b") (auto simp: h_def)
  then have h: "h = 0 \<or> h \<in> live s" "h \<noteq> x" using x P(1) by auto
  define s1 where "s1 = (link_front s x h)\<lparr>tbl := Some (t\<lparr>buckets := (buckets t)[b := bkt]\<rparr>)\<rparr>"
  let ?t1 = "t\<lparr>buckets := (buckets t)[b := bkt]\<rparr>"
  have len: "length (ch b) + 1 < 2 ^ 32"
    using length_chain [OF ok bk P(2)] P(3) by simp
  have com: "(\<lambda>e. e\<lparr>hh_next := h, hh_prev := 0\<rparr>) = (\<lambda>e::('a, 'b) ut_elem. e\<lparr>hh_prev := 0, hh_next := h\<rparr>)" by auto
  have add: "HASH_ADD_TO_BKT mem s b x =
      (if wrap32 (wrap32 (expand_mult bkt + 1) * HASH_BKT_CAPACITY_THRESH) \<le> count bkt \<and> \<not> noexpand t
       then HASH_EXPAND_BUCKETS mem s1 else Inr s1)"
  proof -
    have "load_bkt (buckets t) b = Inr (buckets t ! b)" using B(6) bk by (simp add: load_bkt_def)
    moreover have "hh_head ((buckets t ! b)\<lparr>count := c\<rparr>) = h" for c using B(1) by (simp add: h_def)
    ultimately show ?thesis
      unfolding HASH_ADD_TO_BKT_def load_tbl_def t
      by (simp only: option.case bnd.simps Let_def com link_front [OF x(1) h] bkt_def [symmetric] s1_def [symmetric])
  qed
  have "chains_ok (link_front s x (hh_head (buckets t ! b))) k ((buckets t)[b := bkt]) (ch(b := x # ch b)) (insert x P)"
    by (rule chains_push [OF ok x P(1) b]) (use len in \<open>simp_all add: bkt_def B(2)\<close>)
  then have ok1: "chains_ok s1 k (buckets ?t1) (ch(b := x # ch b)) (insert x P)"
    by (simp add: s1_def B(1) h_def chains_ok_def bkt_ok_def)
  have t1: "tbl s1 = Some ?t1" by (simp add: s1_def)
  have tok: "ut_buckets_ok s1 (insert x P) ?t1"
    unfolding ut_buckets_ok_def
    using k ok1 by (intro exI [of _ k] exI [of _ "ch(b := x # ch b)"]) simp
  have same: "same_app s s1"
    using link_front_fields(1) [OF x(1) h] by (simp add: s1_def same_app_def)
  then have live1: "live s1 = live s" by (simp add: same_app_def)
  show ?thesis
  proof (cases "wrap32 (wrap32 (expand_mult bkt + 1) * HASH_BKT_CAPACITY_THRESH) \<le> count bkt \<and> \<not> noexpand t")
    case True
    then have "HASH_ADD_TO_BKT mem s b x = HASH_EXPAND_BUCKETS mem s1" using add by simp
    moreover have "HASH_EXPAND_BUCKETS mem s1 = Inl Fatal_OOM \<or> (\<exists>s' t'. HASH_EXPAND_BUCKETS mem s1 = Inr s' \<and>
        same_app s1 s' \<and> tbl s' = Some t' \<and> ut_buckets_ok s' (insert x P) t' \<and> num_items t' = num_items ?t1 \<and> tail t' = tail ?t1)"
      by (rule expand_buckets_result [OF t1 tok _ _ _ _ mem]) (use x P items live1 in auto)
    ultimately show ?thesis using same_app_trans [OF same] by auto
  next
    case False
    then show ?thesis using add same t1 tok by auto
  qed
qed

section \<open>The invariant\<close>

text \<open>
  \<open>xs\<close> are the elements in the order of their addition. They are all that is allocated; their keys
  differ; their handles hold the hash value and the length of the key.
\<close>

definition app_ok :: "('k, 'v) ut \<Rightarrow> ptr list \<Rightarrow> bool" where
  "app_ok s xs \<longleftrightarrow> distinct xs \<and> head s = hd_or xs 0 \<and>
    lseg (\<lambda>p. app_next (el s p)) (\<lambda>p. app_prev (el s p)) 0 xs 0"

definition keys_ok :: "('k \<Rightarrow> u32) \<Rightarrow> nat \<Rightarrow> ('k, 'v) ut \<Rightarrow> ptr list \<Rightarrow> bool" where
  "keys_ok hf klen s xs \<longleftrightarrow> inj_on (\<lambda>p. el_key (el s p)) (set xs) \<and>
    (\<forall>p \<in> set xs. hashv (el s p) = hf (el_key (el s p)) \<and> keylen (el s p) = klen)"

definition ut_inv :: "('k \<Rightarrow> u32) \<Rightarrow> nat \<Rightarrow> ('k, 'v) ut \<Rightarrow> ptr list \<Rightarrow> bool" where
  "ut_inv hf klen s xs \<longleftrightarrow> live s = set xs \<and> app_ok s xs \<and> keys_ok hf klen s xs \<and> length xs < 2 ^ 32 \<and>
    (case tbl s of None \<Rightarrow> xs = [] | Some t \<Rightarrow> xs \<noteq> [] \<and> ut_table_ok s xs t)"

text \<open>The same for a store that may hold other objects too.\<close>

definition ut_linked :: "('k \<Rightarrow> u32) \<Rightarrow> nat \<Rightarrow> ('k, 'v) ut \<Rightarrow> ptr list \<Rightarrow> bool" where
  "ut_linked hf klen s xs \<longleftrightarrow> set xs \<subseteq> live s \<and> app_ok s xs \<and> keys_ok hf klen s xs \<and> length xs < 2 ^ 32 \<and>
    (case tbl s of None \<Rightarrow> xs = [] | Some t \<Rightarrow> xs \<noteq> [] \<and> ut_table_ok s xs t)"

lemma ut_inv_linked: "ut_inv hf klen s xs \<longleftrightarrow> ut_linked hf klen s xs \<and> live s = set xs"
  by (auto simp: ut_inv_def ut_linked_def)

text \<open>Same keys and values.\<close>

definition same_content :: "('k, 'v) ut \<Rightarrow> ('k, 'v) ut \<Rightarrow> bool" where
  "same_content s s' \<longleftrightarrow> (\<forall>p. el_key (el s' p) = el_key (el s p) \<and> el_value (el s' p) = el_value (el s p))"

lemma app_ok_same: "same_app s s' \<Longrightarrow> app_ok s' xs = app_ok s xs"
  by (simp add: same_app_def app_ok_def)

lemma keys_ok_same: "same_app s s' \<Longrightarrow> keys_ok hf klen s' xs = keys_ok hf klen s xs"
  by (simp add: same_app_def keys_ok_def)

lemma chains_ok_cong:
  assumes "chains_ok s k bs ch P"
    and "\<And>p. p \<in> P \<Longrightarrow> hh_next (el s' p) = hh_next (el s p) \<and> hh_prev (el s' p) = hh_prev (el s p) \<and>
      hashv (el s' p) = hashv (el s p)"
  shows "chains_ok s' k bs ch P"
  unfolding chains_ok_def
proof (intro conjI allI impI)
  show "length bs = 2 ^ k" using chains_okD(6) [OF assms(1), of 0] by simp
  fix b :: nat assume "b < 2 ^ k"
  note B = chains_okD [OF assms(1) this]
  have "lseg (\<lambda>p. hh_next (el s' p)) (\<lambda>p. hh_prev (el s' p)) 0 (ch b) 0"
    using B(4,5) assms(2) by (subst lseg_cong [where nx = "\<lambda>p. hh_next (el s p)" and pv = "\<lambda>p. hh_prev (el s p)"]) auto
  then show "bkt_ok s' (bs ! b) (ch b)" using B by (simp add: bkt_ok_def)
  show "set (ch b) = {p \<in> P. unat (hashv (el s' p)) mod 2 ^ k = b}" using B(5) assms(2) by auto
qed

lemma keys_ok_insert:
  assumes "keys_ok hf klen s xs" "set ys = insert x (set xs)" "x \<notin> set xs"
    and "\<And>p. p \<in> set xs \<Longrightarrow> el_key (el s' p) = el_key (el s p) \<and> hashv (el s' p) = hashv (el s p) \<and> keylen (el s' p) = keylen (el s p)"
    and "hashv (el s' x) = hf (el_key (el s' x))" "keylen (el s' x) = klen"
    and "el_key (el s' x) \<notin> (\<lambda>p. el_key (el s p)) ` set xs"
  shows "keys_ok hf klen s' ys"
proof -
  have "inj_on (\<lambda>p. el_key (el s' p)) (set xs)"
    using assms(1) by (subst inj_on_cong [where g = "\<lambda>p. el_key (el s p)"]) (simp_all add: assms(4) keys_ok_def)
  moreover have "el_key (el s' x) \<notin> (\<lambda>p. el_key (el s' p)) ` set xs"
    using assms(7) by (subst image_cong [OF refl, where g = "\<lambda>p. el_key (el s p)"]) (simp_all add: assms(4))
  ultimately have "inj_on (\<lambda>p. el_key (el s' p)) (set ys)" using assms(2,3) by (simp add: inj_on_insert)
  then show ?thesis using assms by (simp add: keys_ok_def)
qed

lemma ut_linked_cong:
  assumes "ut_linked hf klen s xs" "head s' = head s" "tbl s' = tbl s" "set xs \<subseteq> live s'"
    and e: "\<And>p. p \<in> set xs \<Longrightarrow> el s' p = el s p"
  shows "ut_linked hf klen s' xs"
proof -
  note L = assms(1) [unfolded ut_linked_def]
  have "lseg (\<lambda>p. app_next (el s' p)) (\<lambda>p. app_prev (el s' p)) 0 xs 0 =
      lseg (\<lambda>p. app_next (el s p)) (\<lambda>p. app_prev (el s p)) 0 xs 0" by (intro lseg_cong) (simp_all add: e)
  then have "app_ok s' xs" using L assms(2) by (simp add: app_ok_def)
  moreover have "inj_on (\<lambda>p. el_key (el s' p)) (set xs) = inj_on (\<lambda>p. el_key (el s p)) (set xs)"
    by (intro inj_on_cong) (simp add: e)
  then have "keys_ok hf klen s' xs" using L e by (simp add: keys_ok_def)
  moreover have "ut_table_ok s' xs t" if "ut_table_ok s xs t" for t
    using that chains_ok_cong [where s = s and s' = s' and P = "set xs"] e unfolding ut_table_ok_def by metis
  ultimately show ?thesis using L assms(3,4) by (auto simp: ut_linked_def split: option.splits)
qed

lemma ut_linked_nonzero: "ut_linked hf klen s xs \<Longrightarrow> 0 \<notin> set xs"
  by (auto simp: ut_linked_def app_ok_def dest: lseg_zero)

lemma ut_linked_head: "ut_linked hf klen s xs \<Longrightarrow> head s = 0 \<longleftrightarrow> xs = []"
  using ut_linked_nonzero [of hf klen s xs] hd_or_0 [of xs] by (auto simp: ut_linked_def app_ok_def)

lemma ut_inv_nonzero: "ut_inv hf klen s xs \<Longrightarrow> 0 \<notin> set xs"
  by (auto simp: ut_inv_def app_ok_def dest: lseg_zero)

lemma ut_inv_head: "ut_inv hf klen s xs \<Longrightarrow> head s = 0 \<longleftrightarrow> xs = []"
  using ut_inv_nonzero [of hf klen s xs] hd_or_0 [of xs] by (auto simp: ut_inv_def app_ok_def)

section \<open>Addition\<close>

lemma ut_field_order:
  "s\<lparr>store := a, head := c\<rparr> = s\<lparr>head := c, store := a\<rparr>"
  "s\<lparr>tbl := b, head := c\<rparr> = s\<lparr>head := c, tbl := b\<rparr>"
  "s\<lparr>store := a, tbl := b\<rparr> = s\<lparr>tbl := b, store := a\<rparr>"
  by simp_all

text \<open>The element \<open>x\<close> is linked into the list \<open>ys\<close>; the other elements \<open>xs\<close> are in their chains already.\<close>

lemma add_to_table_result:
  assumes t: "tbl s = Some t" and bok: "ut_buckets_ok s (set xs) t" and items: "num_items t = length xs" "tail t = last ys"
    and ys: "set ys = insert x (set xs)" "length ys = length xs + 1" "length ys < 2 ^ 32" and x: "x \<notin> set xs" "x \<noteq> 0"
    and sub: "set ys \<subseteq> live s" and app: "app_ok s ys" and keys: "keys_ok hf klen s ys"
    and hv: "hv = hashv (el s x)" and mem: "ut_mem_ok mem"
  shows "HASH_ADD_TO_TABLE mem s hv x = Inl Fatal_OOM \<or> (\<exists>s'. HASH_ADD_TO_TABLE mem s hv x = Inr s' \<and>
    ut_linked hf klen s' ys \<and> live s' = live s \<and> same_content s s')"
proof -
  define t2 where "t2 = t\<lparr>num_items := length ys\<rparr>"
  define s2 where "s2 = s\<lparr>tbl := Some t2\<rparr>"
  have card: "card (set xs) \<le> length xs" by (rule card_length)
  have t2: "num_items t2 = length ys" "tail t2 = last ys" "num_buckets t2 = num_buckets t" "ut_buckets_ok s2 (set xs) t2"
    using bok items by (simp_all add: t2_def s2_def ut_buckets_ok_def chains_ok_def bkt_ok_def)
  have eq: "HASH_ADD_TO_TABLE mem s hv x = HASH_ADD_TO_BKT mem s2 (HASH_TO_BKT hv (num_buckets t2)) x"
    using ys(2,3) by (simp add: HASH_ADD_TO_TABLE_def load_tbl_def t items s2_def t2_def)
  have "HASH_ADD_TO_TABLE mem s hv x = Inl Fatal_OOM \<or> (\<exists>s' t'. HASH_ADD_TO_TABLE mem s hv x = Inr s' \<and>
      same_app s2 s' \<and> tbl s' = Some t' \<and> ut_buckets_ok s' (insert x (set xs)) t' \<and> num_items t' = num_items t2 \<and> tail t' = tail t2)"
    unfolding eq by (rule add_to_bkt_result [OF _ t2(4)]) (use x ys card sub hv mem in \<open>auto simp: t2_def s2_def\<close>)
  then show ?thesis
  proof
    assume "\<exists>s' t'. HASH_ADD_TO_TABLE mem s hv x = Inr s' \<and> same_app s2 s' \<and> tbl s' = Some t' \<and>
      ut_buckets_ok s' (insert x (set xs)) t' \<and> num_items t' = num_items t2 \<and> tail t' = tail t2"
    then obtain s' t' where R: "HASH_ADD_TO_TABLE mem s hv x = Inr s'" "same_app s2 s'" "tbl s' = Some t'" "ut_table_ok s' ys t'"
      by (auto simp: ut_table_ok_buckets ys(1) t2(1,2))
    have same: "same_app s s'" using R(2) by (simp add: same_app_def s2_def)
    have "ut_linked hf klen s' ys"
      using R(3,4) ys sub app keys same by (auto simp: ut_linked_def app_ok_same [OF same] keys_ok_same [OF same] same_app_def)
    then show ?thesis using R(1) same by (auto simp: same_app_def same_content_def)
  qed simp
qed

text \<open>The empty table, and the table of \<open>xs\<close> with another end of the list.\<close>

lemma fresh_table_ok:
  "ut_buckets_ok s {} \<lparr>buckets = replicate HASH_INITIAL_NUM_BUCKETS \<lparr>hh_head = 0, count = 0, expand_mult = 0\<rparr>,
    num_buckets = HASH_INITIAL_NUM_BUCKETS, log2_num_buckets = HASH_INITIAL_NUM_BUCKETS_LOG2,
    num_items = 0, tail = x, ideal_chain_maxlen = 0, nonideal_items = 0, ineff_expands = 0, noexpand = False\<rparr>"
  unfolding ut_buckets_ok_def by (intro exI [of _ 5] exI [of _ "\<lambda>_. []"])
    (auto simp: HASH_INITIAL_NUM_BUCKETS_def HASH_INITIAL_NUM_BUCKETS_LOG2_def chains_ok_def bkt_ok_def)

lemma buckets_ok_cong:
  assumes "ut_buckets_ok s P t" "buckets t' = buckets t" "num_buckets t' = num_buckets t" "log2_num_buckets t' = log2_num_buckets t"
    and "\<And>p. p \<in> P \<Longrightarrow> hh_next (el s' p) = hh_next (el s p) \<and> hh_prev (el s' p) = hh_prev (el s p) \<and> hashv (el s' p) = hashv (el s p)"
  shows "ut_buckets_ok s' P t'"
  using assms(1-4) chains_ok_cong [OF _ assms(5)] unfolding ut_buckets_ok_def by metis

text \<open>The first element of a hash.\<close>

definition ut_first :: "('k, 'v) ut \<Rightarrow> nat \<Rightarrow> u32 \<Rightarrow> ptr \<Rightarrow> ('k, 'v) ut" where
  "ut_first s klen hv x = s\<lparr>head := x, tbl := Some \<lparr>
     buckets = replicate HASH_INITIAL_NUM_BUCKETS \<lparr>hh_head = 0, count = 0, expand_mult = 0\<rparr>,
     num_buckets = HASH_INITIAL_NUM_BUCKETS, log2_num_buckets = HASH_INITIAL_NUM_BUCKETS_LOG2,
     num_items = 0, tail = x, ideal_chain_maxlen = 0, nonideal_items = 0, ineff_expands = 0, noexpand = False\<rparr>,
     store := (store s)(x \<mapsto> (el s x)\<lparr>hashv := hv, keylen := klen, app_next := 0, app_prev := 0\<rparr>)\<rparr>"

lemma add_first_result:
  assumes x: "x \<in> live s" "x \<noteq> 0" and hv: "hv = hf (el_key (el s x))" and mem: "ut_mem_ok mem"
  shows "HASH_ADD_TO_TABLE mem (ut_first s klen hv x) hv x = Inl Fatal_OOM \<or>
    (\<exists>s'. HASH_ADD_TO_TABLE mem (ut_first s klen hv x) hv x = Inr s' \<and>
      ut_linked hf klen s' [x] \<and> live s' = live s \<and> same_content s s')"
proof -
  let ?s = "ut_first s klen hv x"
  have e: "el ?s p = (if p = x then (el s x)\<lparr>hashv := hv, keylen := klen, app_next := 0, app_prev := 0\<rparr> else el s p)" for p
    by (simp add: ut_first_def el_def)
  have "HASH_ADD_TO_TABLE mem ?s hv x = Inl Fatal_OOM \<or> (\<exists>s'. HASH_ADD_TO_TABLE mem ?s hv x = Inr s' \<and>
      ut_linked hf klen s' [x] \<and> live s' = live ?s \<and> same_content ?s s')"
    by (rule add_to_table_result [where xs = "[]" and x = x, OF _ _ _ _ _ _ _ _ x(2) _ _ _ _ mem])
      (use x hv fresh_table_ok in \<open>auto simp: e app_ok_def keys_ok_def\<close>, auto simp: ut_first_def)
  moreover have "live ?s = live s" using x(1) by (auto simp: ut_first_def)
  moreover have "same_content s ?s" by (auto simp: same_content_def e)
  ultimately show ?thesis by (auto simp: same_content_def)
qed

lemma hash_add_linked:
  assumes inv: "ut_linked hf klen s xs" and x: "x \<noteq> 0" "x \<notin> set xs" "x \<in> live s" and hv: "hv = hf (el_key (el s x))"
    and new: "el_key (el s x) \<notin> (\<lambda>p. el_key (el s p)) ` set xs"
    and len: "length xs + 1 < 2 ^ 32" and mem: "ut_mem_ok mem"
  shows "HASH_ADD_KEYPTR_BYHASHVALUE mem s klen hv x = Inl Fatal_OOM \<or>
    (\<exists>s'. HASH_ADD_KEYPTR_BYHASHVALUE mem s klen hv x = Inr s' \<and> ut_linked hf klen s' (xs @ [x]) \<and>
      live s' = live s \<and> same_content s s')"
proof (cases "xs = []")
  case True
  then have h: "head s = 0" using ut_linked_head [OF inv] by simp
  then have "HASH_ADD_KEYPTR_BYHASHVALUE mem s klen hv x =
      (if m_malloc mem sizeof_table \<and> m_malloc mem (HASH_INITIAL_NUM_BUCKETS * sizeof_bucket)
       then HASH_ADD_TO_TABLE mem (ut_first s klen hv x) hv x else Inl Fatal_OOM)"
    using x by (simp add: HASH_ADD_KEYPTR_BYHASHVALUE_def modify_live HASH_MAKE_TABLE_def ut_first_def ut_field_order)
  then show ?thesis using add_first_result [where hf = hf and s = s and klen = klen, OF x(3,1) hv mem] True by (auto split: if_splits)
next
  case False
  note I = inv [unfolded ut_linked_def]
  obtain t where t: "tbl s = Some t" "ut_table_ok s xs t" using I False by (auto split: option.splits)
  have l: "last xs \<in> live s" "last xs \<noteq> x" "last xs \<in> set xs" using I x(2) last_in_set [OF False] by (blast, auto)
  define e' where "e' = (el s x)\<lparr>hashv := hv, keylen := klen, app_next := 0, app_prev := last xs\<rparr>"
  define s2 where "s2 = s\<lparr>tbl := Some (t\<lparr>tail := x\<rparr>), store := (store s)(x \<mapsto> e', last xs \<mapsto> (el s (last xs))\<lparr>app_next := x\<rparr>)\<rparr>"
  have el2: "el s2 p = (if p = x then e' else if p = last xs then (el s p)\<lparr>app_next := x\<rparr> else el s p)" for p
    using l by (auto simp: s2_def el_def)
  have live2: "live s2 = live s" using l x by (auto simp: s2_def)
  have add: "HASH_ADD_KEYPTR_BYHASHVALUE mem s klen hv x = HASH_ADD_TO_TABLE mem s2 hv x"
    using False ut_linked_head [OF inv] l t x
    by (simp add: HASH_ADD_KEYPTR_BYHASHVALUE_def modify_live HASH_APPEND_LIST_def load_tbl_def ut_table_ok_buckets
        el_def s2_def e'_def ut_field_order)
  have "lseg (\<lambda>p. app_next (el s2 p)) (\<lambda>p. app_prev (el s2 p)) 0 (xs @ [x]) 0"
    by (rule lseg_snoc [where nx = "\<lambda>p. app_next (el s p)" and pv = "\<lambda>p. app_prev (el s p)"])
      (use I x False l in \<open>auto simp: app_ok_def el2 e'_def\<close>)
  then have app: "app_ok s2 (xs @ [x])" using I x False by (cases xs) (simp_all add: app_ok_def s2_def)
  have keys: "keys_ok hf klen s2 (xs @ [x])"
    by (rule keys_ok_insert [of hf klen s xs]) (use I x hv new in \<open>auto simp: el2 e'_def\<close>)
  have bok: "ut_buckets_ok s2 (set xs) (t\<lparr>tail := x\<rparr>)"
    by (rule buckets_ok_cong [of s]) (use t x in \<open>auto simp: ut_table_ok_buckets el2\<close>)
  have "HASH_ADD_TO_TABLE mem s2 hv x = Inl Fatal_OOM \<or> (\<exists>s'. HASH_ADD_TO_TABLE mem s2 hv x = Inr s' \<and>
      ut_linked hf klen s' (xs @ [x]) \<and> live s' = live s2 \<and> same_content s2 s')"
    by (rule add_to_table_result [OF _ bok _ _ _ _ _ x(2,1) _ app keys _ mem])
      (use I len x t in \<open>auto simp: live2 el2 e'_def ut_table_ok_buckets\<close>, auto simp: s2_def)
  moreover have "same_content s s2" by (auto simp: same_content_def el2 e'_def)
  ultimately show ?thesis using add live2 by (auto simp: same_content_def)
qed

lemma hash_add_result:
  assumes inv: "ut_inv hf klen s0 xs" and s: "s = s0\<lparr>store := (store s0)(x \<mapsto> e)\<rparr>"
    and x: "x \<noteq> 0" "x \<notin> set xs" and hv: "hv = hf (el_key e)"
    and new: "el_key e \<notin> (\<lambda>p. el_key (el s0 p)) ` set xs"
    and len: "length xs + 1 < 2 ^ 32" and mem: "ut_mem_ok mem"
  shows "HASH_ADD_KEYPTR_BYHASHVALUE mem s klen hv x = Inl Fatal_OOM \<or>
    (\<exists>s'. HASH_ADD_KEYPTR_BYHASHVALUE mem s klen hv x = Inr s' \<and> ut_inv hf klen s' (xs @ [x]) \<and> same_content s s')"
proof -
  have els: "el s p = (if p = x then e else el s0 p)" for p by (simp add: s el_def)
  have live: "live s = insert x (set xs)" using inv by (simp add: ut_inv_linked s)
  have "ut_linked hf klen s xs"
  proof (rule ut_linked_cong [of hf klen s0])
    show "ut_linked hf klen s0 xs" using inv by (simp only: ut_inv_linked)
    show "el s p = el s0 p" if "p \<in> set xs" for p using that x(2) by (auto simp: els)
    show "set xs \<subseteq> live s" unfolding live by (rule subset_insertI)
  qed (simp_all add: s)
  moreover have "(\<lambda>p. el_key (el s p)) ` set xs = (\<lambda>p. el_key (el s0 p)) ` set xs"
    by (rule image_cong [OF refl]) (use x(2) in \<open>auto simp: els\<close>)
  then have "el_key (el s x) \<notin> (\<lambda>p. el_key (el s p)) ` set xs" using new by (simp only: els if_True) simp
  moreover have "hv = hf (el_key (el s x))" "x \<in> live s" by (simp_all add: els hv live)
  ultimately have "HASH_ADD_KEYPTR_BYHASHVALUE mem s klen hv x = Inl Fatal_OOM \<or>
      (\<exists>s'. HASH_ADD_KEYPTR_BYHASHVALUE mem s klen hv x = Inr s' \<and> ut_linked hf klen s' (xs @ [x]) \<and>
        live s' = live s \<and> same_content s s')"
    using hash_add_linked [OF _ x] len mem by blast
  then show ?thesis by (simp add: ut_inv_linked live)
qed

section \<open>Finding an element\<close>

definition ut_map :: "('k, 'v) ut \<Rightarrow> ptr list \<Rightarrow> 'k \<Rightarrow> 'v option" where
  "ut_map s xs = map_of (map (\<lambda>p. (el_key (el s p), el_value (el s p))) xs)"

lemma map_of_inj:
  "inj_on f (set xs) \<Longrightarrow> map_of (map (\<lambda>p. (f p, g p)) xs) key = Some v \<longleftrightarrow> (\<exists>p \<in> set xs. f p = key \<and> g p = v)"
proof (induction xs)
  case (Cons x xs)
  then have IH: "map_of (map (\<lambda>p. (f p, g p)) xs) key = Some v \<longleftrightarrow> (\<exists>p \<in> set xs. f p = key \<and> g p = v)" by simp
  have "p = x" if "p \<in> set xs" "f p = f x" for p using that Cons.prems by (auto simp: inj_on_def)
  then show ?case by (simp add: IH) blast
qed simp

lemma ut_map_Some:
  "keys_ok hf klen s xs \<Longrightarrow> ut_map s xs key = Some v \<longleftrightarrow> (\<exists>p \<in> set xs. el_key (el s p) = key \<and> el_value (el s p) = v)"
  unfolding ut_map_def keys_ok_def by (rule map_of_inj) simp

lemma ut_map_None: "ut_map s xs key = None \<longleftrightarrow> key \<notin> (\<lambda>p. el_key (el s p)) ` set xs"
  by (auto simp: ut_map_def map_of_eq_None_iff image_iff)

lemma ut_map_at: "keys_ok hf klen s xs \<Longrightarrow> p \<in> set xs \<Longrightarrow> ut_map s xs (el_key (el s p)) = Some (el_value (el s p))"
  using ut_map_Some [of hf klen s xs] by auto

lemma hash_find_buckets:
  assumes h: "head s \<noteq> 0" and t: "tbl s = Some t" and bok: "ut_buckets_ok s P t"
    and P: "P \<subseteq> live s" "finite P" "card P \<le> num_items t" "0 \<notin> P"
    and keys: "\<And>p. p \<in> P \<Longrightarrow> hashv (el s p) = hf (el_key (el s p)) \<and> keylen (el s p) = klen"
  shows "\<exists>p. HASH_FIND_BYHASHVALUE (=) s key klen (hf key) = Inr p \<and>
    (if p = 0 then key \<notin> (\<lambda>p. el_key (el s p)) ` P else p \<in> P \<and> el_key (el s p) = key)"
proof -
  obtain k ch where k: "k \<le> 31" "num_buckets t = 2 ^ k" "chains_ok s k (buckets t) ch P"
    using bok by (auto simp: ut_buckets_ok_def)
  define b where "b = unat (hf key) mod 2 ^ k"
  have bk: "b < 2 ^ k" by (simp add: b_def)
  note B = chains_okD [OF k(3) bk]
  let ?P = "\<lambda>p. hashv (el s p) = hf key \<and> keylen (el s p) = klen \<and> el_key (el s p) = key"
  have len: "length (ch b) < num_items t + 1" using length_chain [OF k(3) bk P(2)] P(3) by simp
  have "HASH_FIND_BYHASHVALUE (=) s key klen (hf key) =
      find_in_bkt_loop (=) (num_items t + 1) s (hd_or (ch b) 0) key klen (hf key)"
    using h bk B(6)
    by (simp add: HASH_FIND_BYHASHVALUE_def load_tbl_def t k(2) to_bkt [OF k(1)] load_bkt_def b_def [symmetric]
        HASH_FIND_IN_BKT_def B(1) del: find_in_bkt_loop.simps)
  also have "\<dots> = Inr (case find ?P (ch b) of None \<Rightarrow> 0 | Some p \<Rightarrow> p)"
    by (rule find_loop_result [OF lseg_nseg [OF B(4)] _ len]) (use B(5) P in auto)
  finally have find: "HASH_FIND_BYHASHVALUE (=) s key klen (hf key) = Inr (case find ?P (ch b) of None \<Rightarrow> 0 | Some p \<Rightarrow> p)" .
  show ?thesis
  proof (cases "find ?P (ch b)")
    case None
    have "el_key (el s p) \<noteq> key" if p: "p \<in> P" for p
    proof
      assume key: "el_key (el s p) = key"
      then have "?P p" using keys [OF p] by simp
      then have "p \<in> set (ch b)" using B(5) p by (simp add: b_def)
      then show False using None \<open>?P p\<close> by (auto simp: find_None_iff)
    qed
    then show ?thesis using find None by auto
  next
    case (Some p)
    then have "p \<in> set (ch b)" "el_key (el s p) = key"
      by (auto simp: find_Some_iff)
    moreover have "p \<in> P" using calculation(1) B(5) by auto
    ultimately show ?thesis using find Some P(4) by (auto intro: exI [of _ p])
  qed
qed

lemma hash_find_linked:
  assumes inv: "ut_linked hf klen s xs"
  shows "\<exists>p. HASH_FIND_BYHASHVALUE (=) s key klen (hf key) = Inr p \<and>
    (if p = 0 then ut_map s xs key = None else p \<in> set xs \<and> el_key (el s p) = key)"
proof (cases "xs = []")
  case True
  then show ?thesis using ut_linked_head [OF inv] by (simp add: HASH_FIND_BYHASHVALUE_def ut_map_def)
next
  case False
  note I = inv [unfolded ut_linked_def]
  obtain t where t: "tbl s = Some t" "ut_buckets_ok s (set xs) t" "num_items t = length xs"
    using I False by (auto simp: ut_table_ok_buckets split: option.splits)
  show ?thesis
    unfolding ut_map_None
    by (rule hash_find_buckets [OF _ t(1,2)])
      (use I t(3) False card_length [of xs] ut_linked_nonzero [OF inv] ut_linked_head [OF inv] in \<open>auto simp: keys_ok_def\<close>)
qed

lemma hash_find_result:
  "ut_inv hf klen s xs \<Longrightarrow> \<exists>p. HASH_FIND_BYHASHVALUE (=) s key klen (hf key) = Inr p \<and>
    (if p = 0 then ut_map s xs key = None else p \<in> set xs \<and> el_key (el s p) = key)"
  by (rule hash_find_linked) (simp only: ut_inv_linked)

section \<open>Deletion\<close>

lemma chains_remove:
  assumes ok: "chains_ok s k bs ch P" and b: "b < 2 ^ k" and split: "ch b = us @ x # vs"
    and nx: "\<And>y. hh_next (el s' y) = (if us \<noteq> [] \<and> y = last us then hd_or vs 0 else hh_next (el s y))"
    and pv: "\<And>y. hh_prev (el s' y) = (if vs \<noteq> [] \<and> y = hd_or vs 0 then last_or us 0 else hh_prev (el s y))"
    and hv: "\<And>y. hashv (el s' y) = hashv (el s y)"
    and bkt: "hh_head bkt = hd_or (us @ vs) 0" "count bkt = length (us @ vs)"
  shows "chains_ok s' k (bs[b := bkt]) (ch(b := us @ vs)) (P - {x})"
proof -
  note B = chains_okD [OF ok b]
  have new: "bkt_ok s' bkt (us @ vs)"
    unfolding bkt_ok_def
    using lseg_remove [OF B(4) [unfolded split] B(3) [unfolded split] nx pv] bkt B(3) by (simp add: split)
  have setb: "set (us @ vs) = set (ch b) - {x}" using B(3) by (auto simp: split)
  have other: "bkt_ok s' (bs ! c) (ch c)" if c: "c < 2 ^ k" "c \<noteq> b" for c :: nat
  proof -
    note C = chains_okD [OF ok c(1)]
    have disj: "y \<notin> set (ch b)" if "y \<in> set (ch c)" for y using that C(5) B(5) c(2) by auto
    have "\<not> (us \<noteq> [] \<and> y = last us) \<and> \<not> (vs \<noteq> [] \<and> y = hd_or vs 0)" if "y \<in> set (ch c)" for y
      using disj [OF that] by (cases vs) (auto simp: split)
    then have "lseg (\<lambda>p. hh_next (el s' p)) (\<lambda>p. hh_prev (el s' p)) 0 (ch c) 0"
      using C(4) by (subst lseg_cong [where nx = "\<lambda>p. hh_next (el s p)" and pv = "\<lambda>p. hh_prev (el s p)"]) (auto simp: nx pv)
    then show ?thesis using C by (simp add: bkt_ok_def)
  qed
  show ?thesis
    unfolding chains_ok_def
  proof (intro conjI allI impI)
    show "length (bs[b := bkt]) = 2 ^ k" using B(6) by simp
    fix c :: nat assume c: "c < 2 ^ k"
    show "bkt_ok s' (bs[b := bkt] ! c) ((ch(b := us @ vs)) c)"
      using new other c B(6) by (cases "c = b") simp_all
    show "set ((ch(b := us @ vs)) c) = {p \<in> P - {x}. unat (hashv (el s' p)) mod 2 ^ k = c}"
      using chains_okD(5) [OF ok c] setb B(5) by (auto simp: hv split)
  qed
qed

lemma chains_okD6: "chains_ok s k bs ch P \<Longrightarrow> length bs = 2 ^ k"
  by (simp add: chains_ok_def)

text \<open>The two updates that take an element out of its chain.\<close>

lemma del_in_bkt_result:
  assumes t: "tbl s = Some t" and ok: "chains_ok s k (buckets t) ch P" and b: "b < 2 ^ k"
    and split: "ch b = us @ x # vs" and P: "P \<subseteq> live s" "finite P" "card P < 2 ^ 32"
  shows "\<exists>s' bs'. HASH_DEL_IN_BKT s b x = Inr s' \<and> same_app s s' \<and> tbl s' = Some (t\<lparr>buckets := bs'\<rparr>) \<and>
    chains_ok s' k bs' (ch(b := us @ vs)) (P - {x})"
proof -
  note B = chains_okD [OF ok b]
  have z: "0 \<notin> set (us @ x # vs)" using lseg_zero [OF B(4)] by (simp add: split)
  have x: "hh_next (el s x) = hd_or vs 0" "hh_prev (el s x) = last_or us 0"
    using lseg_at [OF B(4) [unfolded split]] by auto
  have sub: "set (us @ x # vs) \<subseteq> live s" using B(5) P(1) by (auto simp: split)
  have d: "distinct (us @ x # vs)" using B(3) by (simp add: split)
  define st1 where "st1 = (if us = [] then store s else (store s)(last us \<mapsto> (el s (last us))\<lparr>hh_next := hd_or vs 0\<rparr>))"
  define st2 where "st2 = (if vs = [] then st1 else st1(hd_or vs 0 \<mapsto> (the (st1 (hd_or vs 0)))\<lparr>hh_prev := last_or us 0\<rparr>))"
  define bkt where "bkt = (let bkt = (buckets t ! b)\<lparr>count := wrap32 (count (buckets t ! b) + (2 ^ 32 - 1))\<rparr>
     in if hh_head bkt = x then bkt\<lparr>hh_head := hh_next (el s x)\<rparr> else bkt)"
  define s' where "s' = s\<lparr>store := st2, tbl := Some (t\<lparr>buckets := (buckets t)[b := bkt]\<rparr>)\<rparr>"
  have lu: "us \<noteq> [] \<Longrightarrow> last us \<in> live s \<and> last us \<noteq> 0" using sub z by (metis Un_iff last_in_set set_append subsetD)
  have hv: "vs \<noteq> [] \<Longrightarrow> hd_or vs 0 \<in> live s \<and> hd_or vs 0 \<noteq> 0" using sub z by (cases vs) auto
  have diff: "vs \<noteq> [] \<Longrightarrow> us \<noteq> [] \<Longrightarrow> hd_or vs 0 \<noteq> last us" using d by (cases vs) (auto dest: last_in_set)
  have m1: "(if hh_prev (el s x) \<noteq> 0 then modify s (hh_prev (el s x)) (\<lambda>e. e\<lparr>hh_next := hh_next (el s x)\<rparr>) else Inr s) =
      Inr (s\<lparr>store := st1\<rparr>)"
    using lu by (auto simp: x st1_def last_or_def modify_live)
  have m2: "(if hh_next (el s x) \<noteq> 0 then modify (s\<lparr>store := st1\<rparr>) (hh_next (el s x)) (\<lambda>e. e\<lparr>hh_prev := hh_prev (el s x)\<rparr>)
      else Inr (s\<lparr>store := st1\<rparr>)) = Inr (s\<lparr>store := st2\<rparr>)"
    using hv lu by (auto simp: x st2_def modify_def st1_def split: option.splits)
  have run: "HASH_DEL_IN_BKT s b x = Inr s'"
  proof -
    have "load_bkt (buckets t) b = Inr (buckets t ! b)" using B(6) b by (simp add: load_bkt_def)
    moreover have "load s x = Inr (el s x)" using sub by (intro load_live) auto
    ultimately show ?thesis
      unfolding HASH_DEL_IN_BKT_def load_tbl_def t
      by (simp only: option.case bnd.simps Let_def m1 m2) (simp add: s'_def bkt_def Let_def)
  qed
  have el': "el s' y = (if vs \<noteq> [] \<and> y = hd_or vs 0 then (el s y)\<lparr>hh_prev := last_or us 0\<rparr>
      else if us \<noteq> [] \<and> y = last us then (el s y)\<lparr>hh_next := hd_or vs 0\<rparr> else el s y)" for y
    using diff by (auto simp: s'_def st2_def st1_def el_def)
  have "chains_ok s' k ((buckets t)[b := bkt]) (ch(b := us @ vs)) (P - {x})"
  proof (rule chains_remove [OF ok b split])
    have len: "length (us @ x # vs) \<le> card P" using length_chain [OF ok b P(2)] by (simp add: split)
    have "count (buckets t ! b) + (2 ^ 32 - 1) = length (us @ vs) + 2 ^ 32" using B(2) by (simp add: split)
    moreover have "length (us @ vs) < 2 ^ 32" using len P(3) by simp
    ultimately have "wrap32 (count (buckets t ! b) + (2 ^ 32 - 1)) = length (us @ vs)" by (simp add: wrap32_def)
    then show "count bkt = length (us @ vs)" by (simp add: bkt_def Let_def)
    have "x \<notin> set us" using d by simp
    then show "hh_head bkt = hd_or (us @ vs) 0" using B(1) by (cases us) (auto simp: bkt_def Let_def x split)
  qed (use diff in \<open>auto simp: el'\<close>)
  moreover have "live s' = live s" using lu hv by (auto simp: s'_def st2_def st1_def split: if_splits)
  then have "same_app s s'" by (auto simp: same_app_def el') (simp add: s'_def)
  ultimately show ?thesis using run by (auto simp: s'_def)
qed

lemma free_elem_simps [simp]:
  "head (free_elem s p) = head s" "tbl (free_elem s p) = tbl s" "live (free_elem s p) = live s - {p}"
  "q \<noteq> p \<Longrightarrow> el (free_elem s p) q = el s q"
  by (auto simp: free_elem_def el_def split: if_splits)

text \<open>Deleting any element leaves the other elements in their order.\<close>

lemma hash_delete_linked:
  assumes inv: "ut_linked hf klen s (ys @ x # zs)"
  shows "\<exists>s'. HASH_DELETE_HH s x = Inr s' \<and> ut_linked hf klen s' (ys @ zs) \<and> live s' = live s \<and>
    same_content s s' \<and> app_next (el s' x) = app_next (el s x)"
proof -
  let ?xs = "ys @ x # zs"
  note I = inv [unfolded ut_linked_def app_ok_def]
  have seg: "lseg (\<lambda>p. app_next (el s p)) (\<lambda>p. app_prev (el s p)) 0 ?xs 0" and d: "distinct ?xs" using I by auto
  have z: "0 \<notin> set ?xs" using lseg_zero [OF seg] .
  have x: "app_next (el s x) = hd_or zs 0" "app_prev (el s x) = last_or ys 0" "x \<in> live s"
    using lseg_at [OF seg] I by auto
  have prev0: "app_prev (el s x) = 0 \<longleftrightarrow> ys = []" and next0: "app_next (el s x) = 0 \<longleftrightarrow> zs = []"
    using last_or_0 [of ys] hd_or_0 [of zs] z x by auto
  obtain t k ch where t: "tbl s = Some t" "k \<le> 31" "num_buckets t = 2 ^ k" "log2_num_buckets t = k"
    "num_items t = length ?xs" "tail t = last ?xs" "chains_ok s k (buckets t) ch (set ?xs)"
    using I by (auto simp: ut_table_ok_def split: option.splits)
  show ?thesis
  proof (cases "ys = [] \<and> zs = []")
    case True
    then have "HASH_DELETE_HH s x = Inr (s\<lparr>tbl := None, head := 0\<rparr>)"
      using prev0 next0 by (simp add: HASH_DELETE_HH_def load_live [OF x(3)])
    moreover have "ut_linked hf klen (s\<lparr>tbl := None, head := 0\<rparr>) (ys @ zs)"
      using True by (simp add: ut_linked_def app_ok_def keys_ok_def)
    ultimately show ?thesis by (auto simp: same_content_def)
  next
    case False
    define b where "b = unat (hashv (el s x)) mod 2 ^ k"
    have bk: "b < 2 ^ k" by (simp add: b_def)
    note B = chains_okD [OF t(7) bk]
    have "x \<in> set (ch b)" using B(5) by (simp add: b_def)
    then obtain us vs where split: "ch b = us @ x # vs" by (meson split_list)
    define t1 where "t1 = (if x = tail t then t\<lparr>tail := app_prev (el s x)\<rparr> else t)"
    define st1 where "st1 = (if ys = [] then store s else (store s)(last ys \<mapsto> (el s (last ys))\<lparr>app_next := hd_or zs 0\<rparr>))"
    define st2 where "st2 = (if zs = [] then st1 else st1(hd_or zs 0 \<mapsto> (the (st1 (hd_or zs 0)))\<lparr>app_prev := last_or ys 0\<rparr>))"
    define hd2 where "hd2 = (if ys = [] then hd_or zs 0 else head s)"
    define s2 where "s2 = s\<lparr>head := hd2, tbl := Some t1, store := st2\<rparr>"
    have ly: "ys \<noteq> [] \<Longrightarrow> last ys \<in> live s \<and> last ys \<noteq> 0" using I z by (cases ys rule: rev_cases) auto
    have hz: "zs \<noteq> [] \<Longrightarrow> hd_or zs 0 \<in> live s \<and> hd_or zs 0 \<noteq> 0" using I z by (cases zs) auto
    have diff: "zs \<noteq> [] \<Longrightarrow> ys \<noteq> [] \<Longrightarrow> hd_or zs 0 \<noteq> last ys" using d by (cases zs) (auto dest: last_in_set)
    have m1: "(if app_prev (el s x) \<noteq> 0 then modify s (app_prev (el s x)) (\<lambda>e. e\<lparr>app_next := app_next (el s x)\<rparr>)
        else Inr (s\<lparr>head := app_next (el s x)\<rparr>)) = Inr (s\<lparr>head := hd2, store := st1\<rparr>)"
      using ly by (auto simp: prev0 x(1,2) hd2_def st1_def last_or_def modify_live)
    have m2: "(if app_next (el s x) \<noteq> 0
        then modify (s\<lparr>head := hd2, store := st1\<rparr>) (app_next (el s x)) (\<lambda>e. e\<lparr>app_prev := app_prev (el s x)\<rparr>)
        else Inr (s\<lparr>head := hd2, store := st1\<rparr>)) = Inr (s\<lparr>head := hd2, store := st2\<rparr>)"
      using hz ly by (auto simp: next0 x(1,2) st2_def modify_def st1_def split: option.splits)
    have run: "HASH_DELETE_HH s x = bnd (HASH_DEL_IN_BKT s2 b x) (\<lambda>s. bnd (load_tbl s) (\<lambda>t.
        Inr (s\<lparr>tbl := Some (t\<lparr>num_items := wrap32 (num_items t + (2 ^ 32 - 1))\<rparr>)\<rparr>)))"
    proof -
      have "\<not> (app_prev (el s x) = 0 \<and> app_next (el s x) = 0)" using False prev0 next0 by blast
      moreover have "num_buckets t1 = 2 ^ k" using t(3) by (simp add: t1_def)
      moreover have "HASH_TO_BKT (hashv (el s x)) (2 ^ k) = b" by (simp add: to_bkt [OF t(2)] b_def)
      moreover have "s\<lparr>head := hd2, store := st2, tbl := Some t1\<rparr> = s2" by (simp add: s2_def)
      ultimately show ?thesis
        unfolding HASH_DELETE_HH_def load_live [OF x(3)] load_tbl_def t(1)
        by (simp only: option.case bnd.simps if_False simp_thms Let_def t1_def [symmetric] m1 m2)
    qed
    have el2: "el s2 y = (if zs \<noteq> [] \<and> y = hd_or zs 0 then (el s y)\<lparr>app_prev := last_or ys 0\<rparr>
        else if ys \<noteq> [] \<and> y = last ys then (el s y)\<lparr>app_next := hd_or zs 0\<rparr> else el s y)" for y
      using diff by (auto simp: s2_def st2_def st1_def el_def)
    have live2: "live s2 = live s" using ly hz by (auto simp: s2_def st2_def st1_def split: if_splits)
    have ok2: "chains_ok s2 k (buckets t1) ch (set ?xs)"
    proof -
      have "buckets t1 = buckets t" by (simp add: t1_def)
      moreover have "chains_ok s2 k (buckets t) ch (set ?xs)"
        by (rule chains_ok_cong [OF t(7)]) (simp add: el2)
      ultimately show ?thesis by simp
    qed
    have "card (set ?xs) < 2 ^ 32" using I d by (simp only: distinct_card)
    then have "\<exists>s' bs'. HASH_DEL_IN_BKT s2 b x = Inr s' \<and> same_app s2 s' \<and> tbl s' = Some (t1\<lparr>buckets := bs'\<rparr>) \<and>
        chains_ok s' k bs' (ch(b := us @ vs)) (set ?xs - {x})"
      by (intro del_in_bkt_result [OF _ ok2 bk split]) (use live2 I in \<open>auto simp: s2_def\<close>)
    then obtain s3 bs3 where R: "HASH_DEL_IN_BKT s2 b x = Inr s3" "same_app s2 s3" "tbl s3 = Some (t1\<lparr>buckets := bs3\<rparr>)"
      "chains_ok s3 k bs3 (ch(b := us @ vs)) (set ?xs - {x})" by blast
    define t4 where "t4 = t1\<lparr>buckets := bs3, num_items := wrap32 (num_items t1 + (2 ^ 32 - 1))\<rparr>"
    define s4 where "s4 = s3\<lparr>tbl := Some t4\<rparr>"
    have del: "HASH_DELETE_HH s x = Inr s4"
      unfolding run R(1) by (simp add: load_tbl_def R(3) s4_def t4_def)
    have el4: "el s4 p = el s3 p" for p by (simp add: s4_def)
    have set': "set ?xs - {x} = set (ys @ zs)" using d by auto
    have same: "el_key (el s3 p) = el_key (el s p)" "el_value (el s3 p) = el_value (el s p)"
      "hashv (el s3 p) = hashv (el s p)" "keylen (el s3 p) = keylen (el s p)" for p
      using R(2) by (simp_all add: same_app_def el2)
    have links: "app_next (el s3 y) = (if ys \<noteq> [] \<and> y = last ys then hd_or zs 0 else app_next (el s y))"
      "app_prev (el s3 y) = (if zs \<noteq> [] \<and> y = hd_or zs 0 then last_or ys 0 else app_prev (el s y))" for y
      using R(2) diff by (auto simp: same_app_def el2)
    have "lseg (\<lambda>p. app_next (el s4 p)) (\<lambda>p. app_prev (el s4 p)) 0 (ys @ zs) 0"
      unfolding el4 by (rule lseg_remove [OF seg d links])
    moreover have "head s4 = hd_or (ys @ zs) 0"
      using R(2) I by (cases ys) (simp_all add: s4_def same_app_def s2_def hd2_def)
    ultimately have app: "app_ok s4 (ys @ zs)" using d by (simp add: app_ok_def)
    have keys: "keys_ok hf klen s4 (ys @ zs)"
      unfolding keys_ok_def
    proof (intro conjI ballI)
      have "inj_on (\<lambda>p. el_key (el s p)) (set (ys @ zs))"
        using I by (auto simp: keys_ok_def inj_on_def)
      then show "inj_on (\<lambda>p. el_key (el s4 p)) (set (ys @ zs))"
        by (subst inj_on_cong [where g = "\<lambda>p. el_key (el s p)"]) (simp_all add: el4 same)
      fix p assume p: "p \<in> set (ys @ zs)"
      then have "hashv (el s p) = hf (el_key (el s p)) \<and> keylen (el s p) = klen" using I by (auto simp: keys_ok_def)
      then show "hashv (el s4 p) = hf (el_key (el s4 p))" "keylen (el s4 p) = klen" by (simp_all add: el4 same)
    qed
    have "ut_table_ok s4 (ys @ zs) t4"
      unfolding ut_table_ok_def
    proof (intro exI conjI)
      have "num_items t1 + (2 ^ 32 - 1) = length (ys @ zs) + 2 ^ 32" by (simp add: t1_def t(5))
      then show "num_items t4 = length (ys @ zs)" using I by (simp add: t4_def wrap32_def)
      show "tail t4 = last (ys @ zs)"
        using False t(6) x(2) d by (cases zs rule: rev_cases) (auto simp: t4_def t1_def last_or_def)
      show "chains_ok s4 k (buckets t4) (ch(b := us @ vs)) (set (ys @ zs))"
        using R(4) unfolding set' by (simp add: t4_def s4_def chains_ok_def bkt_ok_def)
    qed (use t in \<open>simp_all add: t4_def t1_def\<close>)
    moreover have "live s4 = live s" using R(2) live2 by (simp add: s4_def same_app_def)
    ultimately have "ut_linked hf klen s4 (ys @ zs)"
      using app keys False I by (simp add: ut_linked_def s4_def)
    moreover have "app_next (el s4 x) = app_next (el s x)" using d by (auto simp: el4 links)
    ultimately show ?thesis using del same \<open>live s4 = live s\<close> by (auto simp: el4 same_content_def)
  qed
qed

lemma ut_linked_free:
  assumes "ut_linked hf klen s xs" "x \<notin> set xs"
  shows "ut_linked hf klen (free_elem s x) xs"
proof (rule ut_linked_cong [OF assms(1)])
  show "el (free_elem s x) p = el s p" if "p \<in> set xs" for p
    using that assms(2) by (intro free_elem_simps) auto
  show "set xs \<subseteq> live (free_elem s x)" using assms by (auto simp: ut_linked_def)
qed simp_all

lemma hash_delete_result:
  assumes inv: "ut_inv hf klen s (ys @ x # zs)"
  shows "\<exists>s'. HASH_DELETE_HH s x = Inr s' \<and> ut_inv hf klen (free_elem s' x) (ys @ zs) \<and>
    (\<forall>p \<in> set (ys @ zs). el_key (el s' p) = el_key (el s p) \<and> el_value (el s' p) = el_value (el s p)) \<and>
    app_next (el s' x) = app_next (el s x)"
proof -
  have L: "ut_linked hf klen s (ys @ x # zs)" "live s = set (ys @ x # zs)" using inv by (simp_all only: ut_inv_linked)
  then have x: "x \<notin> set (ys @ zs)" by (auto simp: ut_linked_def app_ok_def)
  obtain s' where R: "HASH_DELETE_HH s x = Inr s'" "ut_linked hf klen s' (ys @ zs)" "live s' = live s" "same_content s s'"
    "app_next (el s' x) = app_next (el s x)" using hash_delete_linked [OF L(1)] by auto
  have "live (free_elem s' x) = set (ys @ zs)" using R(3) L(2) x by auto
  then have "ut_inv hf klen (free_elem s' x) (ys @ zs)" using ut_linked_free [OF R(2) x] by (simp only: ut_inv_linked)
  then show ?thesis using R by (simp add: same_content_def)
qed

section \<open>The integrity check\<close>

lemma fsck_chain_result:
  assumes "lseg (\<lambda>p. hh_next (el s p)) (\<lambda>p. hh_prev (el s p)) prev c 0" "set c \<subseteq> live s" "length c < fuel"
  shows "fsck_chain fuel s prev (hd_or c 0) = Inr (Some (length c))"
  using assms
proof (induction c arbitrary: fuel prev)
  case Nil
  then show ?case by (cases fuel) auto
next
  case (Cons x c)
  obtain f where f: "fuel = Suc f" using Cons.prems(3) by (cases fuel) auto
  have "fsck_chain f s x (hd_or c 0) = Inr (Some (length c))" using Cons f by simp
  then show ?case using Cons.prems f by (simp add: load_live)
qed

lemma fsck_app_result:
  assumes "lseg (\<lambda>p. app_next (el s p)) (\<lambda>p. app_prev (el s p)) prev c 0" "set c \<subseteq> live s" "length c < fuel"
  shows "fsck_app fuel s prev (hd_or c 0) = Inr (Some (length c))"
  using assms
proof (induction c arbitrary: fuel prev)
  case Nil
  then show ?case by (cases fuel) auto
next
  case (Cons x c)
  obtain f where f: "fuel = Suc f" using Cons.prems(3) by (cases fuel) auto
  have "fsck_app f s x (hd_or c 0) = Inr (Some (length c))" using Cons f by simp
  then show ?case using Cons.prems f by (simp add: load_live)
qed

lemma fsck_buckets_result:
  assumes "list_all2 (\<lambda>bkt c. bkt_ok s bkt c \<and> set c \<subseteq> live s \<and> length c < fuel) bs cs"
  shows "fsck_buckets fuel s bs = Inr (Some (length (concat cs)))"
  using assms
proof (induction bs arbitrary: cs)
  case (Cons bkt bs)
  then obtain c cs' where cs: "cs = c # cs'" by (cases cs) auto
  then have "fsck_chain fuel s 0 (hh_head bkt) = Inr (Some (count bkt))" "count bkt = length c"
    using Cons.prems fsck_chain_result [of s 0 c fuel] by (auto simp: bkt_ok_def)
  then show ?case using Cons by (auto simp: cs)
qed simp

lemma fsck_table_result:
  assumes bok: "ut_buckets_ok s P t" and P: "finite P" "P \<subseteq> live s" and n: "num_items t = card P"
  shows "fsck_buckets (num_items t + 1) s (take (num_buckets t) (buckets t)) = Inr (Some (num_items t))"
proof -
  obtain k ch where t: "num_buckets t = 2 ^ k" "chains_ok s k (buckets t) ch P" using bok by (auto simp: ut_buckets_ok_def)
  define cs where "cs = map ch [0..<2 ^ k]"
  note part = chains_partition [OF t(2), folded cs_def]
  have lencs: "length (concat cs) = num_items t" using part distinct_card [of "concat cs"] n by simp
  have "length (ch b) < num_items t + 1" if "b < 2 ^ k" for b using length_chain [OF t(2) that P(1)] n by simp
  moreover have "length (buckets t) = 2 ^ k" using chains_okD6 [OF t(2)] .
  moreover have "bkt_ok s (buckets t ! b) (ch b) \<and> set (ch b) \<subseteq> live s" if "b < 2 ^ k" for b
    using t(2) that P(2) by (auto simp: chains_ok_def)
  ultimately have l2: "list_all2 (\<lambda>bkt c. bkt_ok s bkt c \<and> set c \<subseteq> live s \<and> length c < num_items t + 1)
      (take (num_buckets t) (buckets t)) cs"
    by (auto simp: list_all2_conv_all_nth cs_def t(1))
  show ?thesis using fsck_buckets_result [OF l2] by (simp only: lencs)
qed

text \<open>The invariant implies what \<open>HASH_FSCK\<close> checks.\<close>

lemma hash_fsck_result:
  assumes inv: "ut_inv hf klen s xs"
  shows "HASH_FSCK s = Inr True"
proof (cases "xs = []")
  case True
  then show ?thesis using ut_inv_head [OF inv] by (simp add: HASH_FSCK_def)
next
  case False
  note I = inv [unfolded ut_inv_def app_ok_def]
  obtain t where t: "tbl s = Some t" "ut_buckets_ok s (set xs) t" "num_items t = length xs"
    using I False by (auto simp: ut_table_ok_buckets split: option.splits)
  have "fsck_buckets (num_items t + 1) s (take (num_buckets t) (buckets t)) = Inr (Some (num_items t))"
    by (rule fsck_table_result [OF t(2)]) (use I t(3) in \<open>auto simp: distinct_card\<close>)
  moreover have "fsck_app (num_items t + 1) s 0 (head s) = Inr (Some (num_items t))"
  proof -
    have "fsck_app (num_items t + 1) s 0 (hd_or xs 0) = Inr (Some (length xs))"
    proof (rule fsck_app_result)
      show "lseg (\<lambda>p. app_next (el s p)) (\<lambda>p. app_prev (el s p)) 0 xs 0" using I by blast
      show "set xs \<subseteq> live s" using I by blast
      show "length xs < num_items t + 1" by (simp add: t(3))
    qed
    moreover have "head s = hd_or xs 0" using I by blast
    ultimately show ?thesis using t(3) by simp
  qed
  ultimately show ?thesis using False ut_inv_head [OF inv] t(1) by (simp add: HASH_FSCK_def load_tbl_def)
qed

end
