(* ===== verification/Uthash_Shim.thy ===== *)
theory Uthash_Shim
  imports Uthash_Correct Benchmark
begin

text \<open>
  \<open>src/shims/uthash/shim.h\<close>: the shim over uthash and the proof that it keeps the contract of a shim that
  may exit, for each of the three blueprints and any allocator; what stops a sequence of calls, and the order of
  the keys that one leaves; then the properties of uthash.
\<close>

section \<open>The shim\<close>

text \<open>\<open>klen\<close> is \<open>sizeof( key )\<close>; \<open>unsigned int hash\<close> cuts the hash code off to 32 bits.\<close>

definition ut_hash :: "('k \<Rightarrow> u64) \<Rightarrow> 'k \<Rightarrow> u32" where
  "ut_hash hk key = ucast (hk key)"

definition ut_find :: "('k \<Rightarrow> u64) \<Rightarrow> ('k \<Rightarrow> 'k \<Rightarrow> bool) \<Rightarrow> nat \<Rightarrow> ('k, 'v) ut \<Rightarrow> 'k \<Rightarrow> ut_error + ptr" where
  "ut_find hk cmpr klen s key = HASH_FIND_BYHASHVALUE cmpr s key klen (ut_hash hk key)"

text \<open>\<open>malloc\<close> of a bucket, and the store of the key through the pointer it returns, unchecked.\<close>

definition ut_new_elem :: "('k, 'v) ut_mem \<Rightarrow> ('k, 'v) ut \<Rightarrow> 'k \<Rightarrow> ut_error + (('k, 'v) ut \<times> ptr)" where
  "ut_new_elem mem s key =
    (let itr = m_elem mem (dom (store s))
     in if itr = 0 then Inl Bad_Pointer
        else Inr (s\<lparr>store := (store s)(itr \<mapsto> (m_junk mem)\<lparr>el_key := key\<rparr>)\<rparr>, itr))"

definition ut_insert ::
    "('k, 'v) ut_mem \<Rightarrow> ('k \<Rightarrow> u64) \<Rightarrow> ('k \<Rightarrow> 'k \<Rightarrow> bool) \<Rightarrow> nat \<Rightarrow> 'v \<Rightarrow> ('k, 'v) ut \<Rightarrow> 'k \<Rightarrow> ut_error + ('k, 'v) ut" where
  "ut_insert mem hk cmpr klen dflt s key =
    bnd (ut_find hk cmpr klen s key) (\<lambda>itr.
      bnd (if itr = 0
           then bnd (ut_new_elem mem s key) (\<lambda>(s, itr).
                  bnd (HASH_ADD_KEYPTR_BYHASHVALUE mem s klen (ut_hash hk key) itr) (\<lambda>s. Inr (s, itr)))
           else Inr (s, itr)) (\<lambda>(s, itr).
        modify s itr (\<lambda>e. e\<lparr>el_value := dflt\<rparr>)))"

definition ut_erase ::
    "('k \<Rightarrow> u64) \<Rightarrow> ('k \<Rightarrow> 'k \<Rightarrow> bool) \<Rightarrow> nat \<Rightarrow> ('k, 'v) ut \<Rightarrow> 'k \<Rightarrow> ut_error + ('k, 'v) ut" where
  "ut_erase hk cmpr klen s key =
    bnd (ut_find hk cmpr klen s key) (\<lambda>itr.
      if itr \<noteq> 0 then bnd (HASH_DELETE_HH s itr) (\<lambda>s. Inr (free_elem s itr)) else Inr s)"

text \<open>\<open>HASH_ITER\<close> with a deletion in its body: the next element is read before the current one is freed.\<close>

fun ut_destroy_loop :: "nat \<Rightarrow> ('k, 'v) ut \<Rightarrow> ptr \<Rightarrow> ptr \<Rightarrow> ut_error + ('k, 'v) ut" where
  "ut_destroy_loop 0 s cur tmp = Inl Diverges"
| "ut_destroy_loop (Suc fuel) s cur tmp =
    (if cur = 0 then Inr s
     else bnd (HASH_DELETE_HH s cur) (\<lambda>s.
       let s = free_elem s cur
       in bnd (if tmp \<noteq> 0 then bnd (load s tmp) (\<lambda>e. Inr (app_next e)) else Inr 0) (\<lambda>tmp'.
            ut_destroy_loop fuel s tmp tmp')))"

definition ut_destroy_table :: "('k, 'v) ut \<Rightarrow> ut_error + ('k, 'v) ut" where
  "ut_destroy_table s =
    bnd (HASH_CNT s) (\<lambda>n.
      bnd (if head s \<noteq> 0 then bnd (load s (head s)) (\<lambda>e. Inr (app_next e)) else Inr 0) (\<lambda>tmp.
        ut_destroy_loop (n + 1) s (head s) tmp))"

definition ut_init :: "('k, 'v) ut" where
  "ut_init = \<lparr>head = 0, tbl = None, store = Map.empty\<rparr>"

definition returned :: "ut_error + 'a \<Rightarrow> 'a option" where
  "returned r = (case r of Inl e \<Rightarrow> None | Inr x \<Rightarrow> Some x)"

text \<open>
  A sequence of calls, with the error that stopped it. \<open>returned\<close> forgets which error it was; the shim's
  operations below use it, and \<open>run_shim_ut_run\<close> connects the two.
\<close>

fun ut_run ::
    "('k, 'v) ut_mem \<Rightarrow> ('k \<Rightarrow> u64) \<Rightarrow> ('k \<Rightarrow> 'k \<Rightarrow> bool) \<Rightarrow> nat \<Rightarrow> 'v \<Rightarrow> 'k shim_call list \<Rightarrow> ('k, 'v) ut
       \<Rightarrow> ut_error + ('k, 'v) ut" where
  "ut_run mem hk cmpr klen dflt [] s = Inr s"
| "ut_run mem hk cmpr klen dflt (Insert k # cs) s =
    bnd (ut_insert mem hk cmpr klen dflt s k) (ut_run mem hk cmpr klen dflt cs)"
| "ut_run mem hk cmpr klen dflt (Erase k # cs) s =
    bnd (ut_erase hk cmpr klen s k) (ut_run mem hk cmpr klen dflt cs)"

definition ut_shim_ops ::
    "('k, 'v) ut_mem \<Rightarrow> ('k \<Rightarrow> u64) \<Rightarrow> ('k \<Rightarrow> 'k \<Rightarrow> bool) \<Rightarrow> nat \<Rightarrow> 'v \<Rightarrow> (('k, 'v) ut, 'k, 'v, ptr) shim_ops" where
  "ut_shim_ops mem hk cmpr klen dflt = \<lparr>
    create_table = ut_init,
    sh_insert = \<lambda>s key. returned (ut_insert mem hk cmpr klen dflt s key),
    sh_erase = \<lambda>s key. returned (ut_erase hk cmpr klen s key),
    sh_find = \<lambda>s key. returned (ut_find hk cmpr klen s key),
    begin_itr = \<lambda>s. Some (head s),
    is_itr_valid = \<lambda>s itr. itr \<noteq> 0,
    increment_itr = \<lambda>s itr. returned (bnd (load s itr) (\<lambda>e. Inr (app_next e))),
    get_key_from_itr = \<lambda>s itr. el_key (the (store s itr)),
    get_value_from_itr = \<lambda>s itr. el_value (the (store s itr))\<rparr>"

lemma run_shim_ut_run:
  "run_shim (ut_shim_ops mem hk cmpr klen dflt) calls s = returned (ut_run mem hk cmpr klen dflt calls s)"
proof (induction calls arbitrary: s)
  case Nil
  then show ?case by (simp add: returned_def)
next
  case (Cons c cs)
  show ?case
  proof (cases c)
    case (Insert k)
    then show ?thesis using Cons by (cases "ut_insert mem hk cmpr klen dflt s k") (simp_all add: ut_shim_ops_def returned_def)
  next
    case (Erase k)
    then show ?thesis using Cons by (cases "ut_erase hk cmpr klen s k") (simp_all add: ut_shim_ops_def returned_def)
  qed
qed

text \<open>The order in which a sequence of calls adds the keys that it leaves.\<close>

fun insertion_order :: "'k shim_call list \<Rightarrow> 'k list \<Rightarrow> 'k list" where
  "insertion_order [] ks = ks"
| "insertion_order (Insert k # cs) ks = insertion_order cs (if k \<in> set ks then ks else ks @ [k])"
| "insertion_order (Erase k # cs) ks = insertion_order cs (filter (\<lambda>x. x \<noteq> k) ks)"

section \<open>The elements in the order of their addition\<close>

fun ut_walk :: "nat \<Rightarrow> ('k, 'v) ut \<Rightarrow> ptr \<Rightarrow> ptr list" where
  "ut_walk 0 s p = []"
| "ut_walk (Suc n) s p = (if p = 0 then [] else p # ut_walk n s (app_next (the (store s p))))"

definition ut_elems :: "('k, 'v) ut \<Rightarrow> ptr list" where
  "ut_elems s = (case tbl s of None \<Rightarrow> [] | Some t \<Rightarrow> ut_walk (num_items t) s (head s))"

definition ut_ok :: "('k \<Rightarrow> u64) \<Rightarrow> nat \<Rightarrow> ('k, 'v) ut \<Rightarrow> bool" where
  "ut_ok hk klen s \<longleftrightarrow> ut_inv (ut_hash hk) klen s (ut_elems s)"

definition ut_content :: "('k, 'v) ut \<Rightarrow> 'k \<Rightarrow> 'v option" where
  "ut_content s = ut_map s (ut_elems s)"

definition ut_keys :: "('k, 'v) ut \<Rightarrow> 'k list" where
  "ut_keys s = map (\<lambda>p. el_key (el s p)) (ut_elems s)"

definition ut_at :: "('k, 'v) ut \<Rightarrow> ptr \<Rightarrow> nat \<Rightarrow> bool" where
  "ut_at s p j \<longleftrightarrow> j < length (ut_elems s) \<and> p = ut_elems s ! j"

lemma ut_walk_seg:
  "lseg (\<lambda>p. app_next (el s p)) pv q xs 0 \<Longrightarrow> ut_walk (length xs) s (hd_or xs 0) = xs"
  by (induction xs arbitrary: q) (auto simp: el_def)

lemma ut_elems_inv: "ut_inv hf klen s xs \<Longrightarrow> ut_elems s = xs"
  by (auto simp: ut_inv_def app_ok_def ut_elems_def ut_table_ok_def ut_walk_seg split: option.splits)

lemma ut_ok_elems: "ut_inv (ut_hash hk) klen s xs \<Longrightarrow> ut_ok hk klen s \<and> ut_content s = ut_map s xs \<and> ut_elems s = xs"
  by (simp add: ut_ok_def ut_content_def ut_elems_inv)

lemma ut_content_dom: "dom (ut_content s) = set (ut_keys s)"
  by (simp add: ut_content_def ut_keys_def ut_map_def dom_map_of_conv_image_fst image_image)

lemma ut_keys_distinct: "ut_ok hk klen s \<Longrightarrow> distinct (ut_keys s)"
  by (simp add: ut_ok_def ut_inv_def app_ok_def keys_ok_def ut_keys_def distinct_map)

lemma ut_init_ok: "ut_inv hf klen ut_init []" "ut_elems ut_init = []"
  by (simp_all add: ut_inv_def ut_init_def app_ok_def keys_ok_def ut_elems_def)

section \<open>The contract\<close>

lemma ut_inv_fields:
  assumes "ut_inv hf klen s xs" "live s' = live s" "head s' = head s" "tbl s' = tbl s"
    and "\<And>p. el s' p = (el s p)\<lparr>el_value := v p\<rparr>"
  shows "ut_inv hf klen s' xs"
proof -
  have "ut_table_ok s' xs t = ut_table_ok s xs t" for t
    by (simp add: ut_table_ok_def chains_ok_def bkt_ok_def assms(5))
  then show ?thesis
    using assms(1) by (auto simp: ut_inv_def app_ok_def keys_ok_def assms(2-5) split: option.splits)
qed

lemma ut_set_value:
  assumes inv: "ut_inv hf klen s xs" and p: "p \<in> set xs"
  shows "\<exists>s'. modify s p (\<lambda>e. e\<lparr>el_value := v\<rparr>) = Inr s' \<and> ut_inv hf klen s' xs \<and>
    ut_map s' xs = (ut_map s xs)(el_key (el s p) \<mapsto> v)"
proof -
  define s' where "s' = s\<lparr>store := (store s)(p \<mapsto> (el s p)\<lparr>el_value := v\<rparr>)\<rparr>"
  have pl: "p \<in> live s" using inv p by (simp add: ut_inv_def)
  have els: "el s' q = (el s q)\<lparr>el_value := (if q = p then v else el_value (el s q))\<rparr>" for q
    by (auto simp: s'_def el_def)
  have inv': "ut_inv hf klen s' xs"
    by (rule ut_inv_fields [OF inv _ _ _ els]) (use pl in \<open>auto simp: s'_def\<close>)
  then have k': "keys_ok hf klen s' xs" and k: "keys_ok hf klen s xs" using inv by (auto simp: ut_inv_def)
  have "ut_map s' xs = (ut_map s xs)(el_key (el s p) \<mapsto> v)"
  proof (rule map_eqI)
    fix x w
    have inj: "q = p" if "q \<in> set xs" "el_key (el s q) = el_key (el s p)" for q
      using k that p by (auto simp: keys_ok_def inj_on_def)
    have other: "x \<noteq> el_key (el s p) \<Longrightarrow> q \<in> set xs \<Longrightarrow> el_key (el s q) = x \<Longrightarrow> q \<noteq> p" for q by blast
    show "ut_map s' xs x = Some w \<longleftrightarrow> ((ut_map s xs)(el_key (el s p) \<mapsto> v)) x = Some w"
    proof (cases "x = el_key (el s p)")
      case True
      then show ?thesis using p inj by (auto simp: ut_map_Some [OF k'] els)
    next
      case False
      have "(\<exists>q \<in> set xs. el_key (el s' q) = x \<and> el_value (el s' q) = w) \<longleftrightarrow>
          (\<exists>q \<in> set xs. el_key (el s q) = x \<and> el_value (el s q) = w)"
        using other [OF False] by (intro bex_cong) (auto simp: els)
      then show ?thesis using False by (simp add: ut_map_Some [OF k'] ut_map_Some [OF k])
    qed
  qed
  then show ?thesis using inv' modify_live [OF pl] by (auto simp: s'_def)
qed

lemma ut_find_result:
  assumes inv: "ut_inv (ut_hash hk) klen s xs"
  shows "\<exists>p. ut_find hk (=) klen s key = Inr p \<and>
    (if p = 0 then ut_map s xs key = None
     else p \<in> set xs \<and> el_key (el s p) = key \<and> ut_map s xs key = Some (el_value (el s p)))"
proof -
  have "keys_ok (ut_hash hk) klen s xs" using inv by (simp add: ut_inv_def)
  then show ?thesis
    using hash_find_result [OF inv, of key] ut_map_at [of "ut_hash hk" klen s xs] unfolding ut_find_def by metis
qed

text \<open>
  When a call can fail: the sizes that the addition of an element may ask \<open>malloc\<close> for, and the two errors,
  a \<open>NULL\<close> for the element, through which the shim writes, and a refused table or bucket array, where uthash exits.
\<close>

definition ut_requests :: "('k, 'v) ut \<Rightarrow> nat set" where
  "ut_requests s = (case tbl s of
     None \<Rightarrow> {sizeof_table, HASH_INITIAL_NUM_BUCKETS * sizeof_bucket}
   | Some t \<Rightarrow> {wrap64 (wrap64 (sizeof_bucket * num_buckets t) * 2)})"

definition ut_insert_fails :: "('k, 'v) ut_mem \<Rightarrow> ('k, 'v) ut \<Rightarrow> ut_error \<Rightarrow> bool" where
  "ut_insert_fails mem s e \<longleftrightarrow>
    (if m_elem mem (dom (store s)) = 0 then e = Bad_Pointer
     else e = Fatal_OOM \<and> (\<exists>n \<in> ut_requests s. \<not> m_malloc mem n))"

lemma bnd_Inl: "bnd r f = Inl e \<longleftrightarrow> r = Inl e \<or> (\<exists>x. r = Inr x \<and> f x = Inl e)"
  by (cases r) auto

lemma bnd_Inr: "bnd r f = Inr y \<longleftrightarrow> (\<exists>x. r = Inr x \<and> f x = Inr y)"
  by (cases r) auto

lemma no_oom:
  "load s p \<noteq> Inl Fatal_OOM" "modify s p g \<noteq> Inl Fatal_OOM" "load_tbl s \<noteq> Inl Fatal_OOM" "load_bkt bs b \<noteq> Inl Fatal_OOM"
  by (simp_all add: load_def modify_def load_tbl_def load_bkt_def split: option.splits)

lemma modify_tbl: "modify s p g = Inr s' \<Longrightarrow> tbl s' = tbl s \<and> head s' = head s"
  by (auto simp: modify_def split: option.splits)

lemma expand_chain_no_oom: "expand_chain fuel num ideal s nbs ni thh \<noteq> Inl Fatal_OOM"
  by (induction fuel num ideal s nbs ni thh rule: expand_chain.induct)
    (auto simp: bnd_Inl no_oom Let_def split: if_splits)

lemma expand_all_no_oom: "expand_all fuel num ideal s nbs ni old \<noteq> Inl Fatal_OOM"
  by (induction old arbitrary: s nbs ni) (auto simp: bnd_Inl expand_chain_no_oom)

lemma expand_buckets_oom:
  assumes "HASH_EXPAND_BUCKETS mem s = Inl Fatal_OOM"
  shows "\<exists>t. tbl s = Some t \<and> \<not> m_malloc mem (wrap64 (wrap64 (sizeof_bucket * num_buckets t) * 2))"
  using assms unfolding HASH_EXPAND_BUCKETS_def
  by (auto simp: bnd_Inl no_oom expand_all_no_oom Let_def load_tbl_def split: if_splits option.splits)

lemma add_to_bkt_oom:
  assumes "HASH_ADD_TO_BKT mem s b add = Inl Fatal_OOM"
  shows "\<exists>t bkt. tbl s = Some t \<and> load_bkt (buckets t) b = Inr bkt \<and>
    wrap32 (wrap32 (expand_mult bkt + 1) * HASH_BKT_CAPACITY_THRESH) \<le> wrap32 (count bkt + 1) \<and>
    \<not> m_malloc mem (wrap64 (wrap64 (sizeof_bucket * num_buckets t) * 2))"
proof -
  obtain t bkt s2 where "load_tbl s = Inr t" "load_bkt (buckets t) b = Inr bkt"
    "wrap32 (wrap32 (expand_mult bkt + 1) * HASH_BKT_CAPACITY_THRESH) \<le> wrap32 (count bkt + 1)"
    "HASH_EXPAND_BUCKETS mem (s2\<lparr>tbl := Some (t\<lparr>buckets := (buckets t)[b := bkt\<lparr>count := wrap32 (count bkt + 1), hh_head := add\<rparr>]\<rparr>)\<rparr>) = Inl Fatal_OOM"
    using assms unfolding HASH_ADD_TO_BKT_def by (auto simp: bnd_Inl no_oom Let_def split: if_splits)
  then show ?thesis using expand_buckets_oom by (fastforce simp: load_tbl_def split: option.splits)
qed

text \<open>The first element does not fill its bucket, so that it needs the table and the 32 buckets only.\<close>

lemma hash_add_oom:
  assumes "HASH_ADD_KEYPTR_BYHASHVALUE mem s klen hv add = Inl Fatal_OOM" "head s = 0 \<longleftrightarrow> tbl s = None"
  shows "\<exists>n \<in> ut_requests s. \<not> m_malloc mem n"
proof (cases "tbl s")
  case (Some t)
  then have h: "head s \<noteq> 0" using assms(2) by simp
  have append_oom: "HASH_APPEND_LIST s1 add \<noteq> Inl Fatal_OOM" for s1 :: "('a, 'b) ut"
    by (auto simp: HASH_APPEND_LIST_def bnd_Inl no_oom)
  obtain s1 where s1: "modify s add (\<lambda>e. e\<lparr>hashv := hv, keylen := klen\<rparr>) = Inr s1"
    using assms(1) no_oom(2) [of s add] unfolding HASH_ADD_KEYPTR_BYHASHVALUE_def
    by (cases "modify s add (\<lambda>e. e\<lparr>hashv := hv, keylen := klen\<rparr>)") auto
  then have "head s1 \<noteq> 0" using h modify_tbl by metis
  then obtain s2 t2 where a: "HASH_APPEND_LIST s1 add = Inr s2"
    "load_tbl s2 = Inr t2" "HASH_ADD_TO_BKT mem (s2\<lparr>tbl := Some (t2\<lparr>num_items := wrap32 (num_items t2 + 1)\<rparr>)\<rparr>)
      (HASH_TO_BKT hv (num_buckets t2)) add = Inl Fatal_OOM"
    using assms(1) unfolding HASH_ADD_KEYPTR_BYHASHVALUE_def s1 HASH_ADD_TO_TABLE_def
    by (auto simp: bnd_Inl no_oom append_oom)
  have "num_buckets t2 = num_buckets t"
    using Some s1 a(1,2) by (auto simp: HASH_APPEND_LIST_def bnd_Inr load_tbl_def dest!: modify_tbl split: option.splits)
  then show ?thesis using add_to_bkt_oom [OF a(3)] by (auto simp: ut_requests_def Some)
next
  case None
  show ?thesis
  proof (rule ccontr)
    assume "\<not> ?thesis"
    then have m: "m_malloc mem sizeof_table" "m_malloc mem (HASH_INITIAL_NUM_BUCKETS * sizeof_bucket)"
      by (simp_all add: ut_requests_def None)
    have make: "HASH_MAKE_TABLE mem s2 add \<noteq> Inl Fatal_OOM" for s2 :: "('a, 'b) ut"
      using m by (simp add: HASH_MAKE_TABLE_def)
    obtain s1 where s1: "modify s add (\<lambda>e. e\<lparr>hashv := hv, keylen := klen\<rparr>) = Inr s1"
      using assms(1) no_oom(2) [of s add] unfolding HASH_ADD_KEYPTR_BYHASHVALUE_def
      by (cases "modify s add (\<lambda>e. e\<lparr>hashv := hv, keylen := klen\<rparr>)") auto
    then have "head s1 = 0" using assms(2) None modify_tbl by metis
    then obtain s2 s3 t where t: "HASH_MAKE_TABLE mem s2 add = Inr s3" "load_tbl (s3\<lparr>head := add\<rparr>) = Inr t"
      "HASH_ADD_TO_BKT mem (s3\<lparr>head := add, tbl := Some (t\<lparr>num_items := wrap32 (num_items t + 1)\<rparr>)\<rparr>)
        (HASH_TO_BKT hv (num_buckets t)) add = Inl Fatal_OOM"
      using assms(1) unfolding HASH_ADD_KEYPTR_BYHASHVALUE_def s1 HASH_ADD_TO_TABLE_def
      by (auto simp: bnd_Inl bnd_Inr no_oom make)
    have "buckets t = replicate HASH_INITIAL_NUM_BUCKETS \<lparr>hh_head = 0, count = 0, expand_mult = 0\<rparr>"
      using t(1,2) m by (auto simp: HASH_MAKE_TABLE_def load_tbl_def)
    then show False using add_to_bkt_oom [OF t(3)]
      by (auto simp: load_bkt_def HASH_BKT_CAPACITY_THRESH_def wrap32_def split: if_splits)
  qed
qed

lemma same_content_map: "same_content s s' \<Longrightarrow> ut_map s' xs = ut_map s xs"
  by (simp add: same_content_def ut_map_def)

text \<open>Insertion, with the order of the elements.\<close>

lemma ut_insert_result:
  assumes inv: "ut_inv (ut_hash hk) klen s xs" and len: "length xs + 1 < 2 ^ 32" and mem: "ut_mem_ok mem"
  shows "(\<exists>e. ut_insert mem hk (=) klen dflt s key = Inl e \<and> ut_map s xs key = None \<and> ut_insert_fails mem s e) \<or>
    (\<exists>s' ys. ut_insert mem hk (=) klen dflt s key = Inr s' \<and> ut_inv (ut_hash hk) klen s' ys \<and>
      ut_map s' ys = (ut_map s xs)(key \<mapsto> dflt) \<and>
      map (\<lambda>p. el_key (el s' p)) ys =
        map (\<lambda>p. el_key (el s p)) xs @ (if ut_map s xs key = None then [key] else []))"
proof -
  obtain p where f: "ut_find hk (=) klen s key = Inr p"
    "if p = 0 then ut_map s xs key = None
     else p \<in> set xs \<and> el_key (el s p) = key \<and> ut_map s xs key = Some (el_value (el s p))"
    using ut_find_result [OF inv] by blast
  have modify_keys: "el_key (el s2 q) = el_key (el s1 q)"
    if "modify s1 r (\<lambda>e. e\<lparr>el_value := dflt\<rparr>) = Inr s2" for s1 s2 :: "('a, 'b) ut" and q r
    using that by (auto simp: modify_def el_def split: option.splits)
  show ?thesis
  proof (cases "p = 0")
    case False
    then have p: "p \<in> set xs" "el_key (el s p) = key" "ut_map s xs key \<noteq> None" using f(2) by auto
    obtain s' where s': "modify s p (\<lambda>e. e\<lparr>el_value := dflt\<rparr>) = Inr s'" "ut_inv (ut_hash hk) klen s' xs"
      "ut_map s' xs = (ut_map s xs)(key \<mapsto> dflt)"
      using ut_set_value [OF inv p(1), of dflt] p(2) by auto
    have "ut_insert mem hk (=) klen dflt s key = Inr s'"
      using False by (simp add: ut_insert_def f(1) s'(1))
    then show ?thesis using s' p(3) modify_keys [OF s'(1)] by (intro disjI2 exI [of _ s'] exI [of _ xs]) simp
  next
    case True
    then have none: "ut_map s xs key = None" using f(2) by simp
    define x where "x = m_elem mem (live s)"
    have live: "live s = set xs" using inv by (simp add: ut_inv_def)
    show ?thesis
    proof (cases "x = 0")
      case True
      have "ut_new_elem mem s key = Inl Bad_Pointer" using True by (simp add: ut_new_elem_def x_def)
      then have "ut_insert mem hk (=) klen dflt s key = Inl Bad_Pointer" by (simp add: ut_insert_def f(1) \<open>p = 0\<close>)
      then show ?thesis using none True by (simp add: ut_insert_fails_def x_def)
    next
      case x0: False
      have x: "x \<noteq> 0" "x \<notin> set xs" using mem x0 by (simp_all add: ut_mem_ok_def x_def live)
      define e where "e = (m_junk mem)\<lparr>el_key := key\<rparr>"
      define s1 where "s1 = s\<lparr>store := (store s)(x \<mapsto> e)\<rparr>"
      have ek: "el_key e = key" by (simp add: e_def)
      have els1: "el s1 q = (if q = x then e else el s q)" for q by (simp add: s1_def el_def)
      have ins: "ut_insert mem hk (=) klen dflt s key =
          bnd (HASH_ADD_KEYPTR_BYHASHVALUE mem s1 klen (ut_hash hk key) x) (\<lambda>s. modify s x (\<lambda>e. e\<lparr>el_value := dflt\<rparr>))"
      proof -
        have "ut_new_elem mem s key = Inr (s1, x)"
          using x(1) by (simp add: ut_new_elem_def x_def [symmetric] s1_def e_def Let_def)
        then have "ut_insert mem hk (=) klen dflt s key =
          bnd (bnd (HASH_ADD_KEYPTR_BYHASHVALUE mem s1 klen (ut_hash hk key) x) (\<lambda>s. Inr (s, x)))
            (\<lambda>(s, itr). modify s itr (\<lambda>e. e\<lparr>el_value := dflt\<rparr>))"
          by (simp add: ut_insert_def f(1) \<open>p = 0\<close>)
        then show ?thesis by (cases "HASH_ADD_KEYPTR_BYHASHVALUE mem s1 klen (ut_hash hk key) x") simp_all
      qed
      have "HASH_ADD_KEYPTR_BYHASHVALUE mem s1 klen (ut_hash hk key) x = Inl Fatal_OOM \<or>
        (\<exists>s'. HASH_ADD_KEYPTR_BYHASHVALUE mem s1 klen (ut_hash hk key) x = Inr s' \<and>
          ut_inv (ut_hash hk) klen s' (xs @ [x]) \<and> same_content s1 s')"
        by (rule hash_add_result [OF inv s1_def x _ _ len mem]) (use none in \<open>simp_all add: ek ut_map_None\<close>)
      then show ?thesis
      proof
        assume oom: "HASH_ADD_KEYPTR_BYHASHVALUE mem s1 klen (ut_hash hk key) x = Inl Fatal_OOM"
        have "head s = 0 \<longleftrightarrow> tbl s = None" using inv ut_inv_head [OF inv] by (auto simp: ut_inv_def split: option.splits)
        then have "\<exists>n \<in> ut_requests s1. \<not> m_malloc mem n" by (intro hash_add_oom [OF oom]) (simp add: s1_def)
        then have "ut_insert_fails mem s Fatal_OOM" using x0 by (simp add: ut_insert_fails_def ut_requests_def s1_def x_def)
        then show ?thesis using oom none by (simp add: ins)
      next
        assume "\<exists>s'. HASH_ADD_KEYPTR_BYHASHVALUE mem s1 klen (ut_hash hk key) x = Inr s' \<and>
          ut_inv (ut_hash hk) klen s' (xs @ [x]) \<and> same_content s1 s'"
        then obtain s2 where s2: "HASH_ADD_KEYPTR_BYHASHVALUE mem s1 klen (ut_hash hk key) x = Inr s2"
          "ut_inv (ut_hash hk) klen s2 (xs @ [x])" "same_content s1 s2" by blast
        have keys2: "el_key (el s2 q) = (if q = x then key else el_key (el s q))" for q
          using s2(3) by (simp add: same_content_def els1 ek)
        obtain s' where s': "modify s2 x (\<lambda>e. e\<lparr>el_value := dflt\<rparr>) = Inr s'" "ut_inv (ut_hash hk) klen s' (xs @ [x])"
          "ut_map s' (xs @ [x]) = (ut_map s2 (xs @ [x]))(key \<mapsto> dflt)"
          using ut_set_value [OF s2(2), of x dflt] keys2 by auto
        have old: "ut_map s2 xs = ut_map s xs"
          using s2(3) x(2) unfolding ut_map_def
          by (intro arg_cong [where f = map_of] map_cong) (auto simp: same_content_def els1)
        have "ut_map s2 (xs @ [x]) = [key \<mapsto> el_value (el s2 x)] ++ ut_map s2 xs"
          using keys2 [of x] by (simp add: ut_map_def)
        then have "(ut_map s2 (xs @ [x]))(key \<mapsto> dflt) = (ut_map s xs)(key \<mapsto> dflt)"
          by (auto simp: fun_eq_iff map_add_def old split: option.splits)
        moreover have "map (\<lambda>p. el_key (el s' p)) (xs @ [x]) = map (\<lambda>p. el_key (el s p)) xs @ [key]"
          using x(2) by (auto simp: modify_keys [OF s'(1)] keys2)
        ultimately show ?thesis
          using s' none s2(1) by (intro disjI2 exI [of _ s'] exI [of _ "xs @ [x]"]) (simp add: ins)
      qed
    qed
  qed
qed

lemma ut_erase_result:
  assumes inv: "ut_inv (ut_hash hk) klen s xs"
  shows "\<exists>s' ys. ut_erase hk (=) klen s key = Inr s' \<and> ut_inv (ut_hash hk) klen s' ys \<and>
    ut_map s' ys = (ut_map s xs)(key := None) \<and>
    map (\<lambda>p. el_key (el s' p)) ys = filter (\<lambda>k. k \<noteq> key) (map (\<lambda>p. el_key (el s p)) xs)"
proof -
  obtain p where f: "ut_find hk (=) klen s key = Inr p"
    "if p = 0 then ut_map s xs key = None
     else p \<in> set xs \<and> el_key (el s p) = key \<and> ut_map s xs key = Some (el_value (el s p))"
    using ut_find_result [OF inv] by blast
  show ?thesis
  proof (cases "p = 0")
    case True
    then have "ut_map s xs key = None" using f(2) by simp
    then have "filter (\<lambda>k. k \<noteq> key) (map (\<lambda>p. el_key (el s p)) xs) = map (\<lambda>p. el_key (el s p)) xs"
      by (auto simp: ut_map_None filter_id_conv)
    then show ?thesis
      using True f inv by (intro exI [of _ s] exI [of _ xs]) (auto simp: ut_erase_def)
  next
    case False
    then have p: "p \<in> set xs" "el_key (el s p) = key" using f(2) by auto
    then obtain ys zs where xs: "xs = ys @ p # zs" by (meson split_list)
    have k: "inj_on (\<lambda>p. el_key (el s p)) (set xs)" "distinct xs" using inv by (auto simp: ut_inv_def keys_ok_def app_ok_def)
    obtain s' where s': "HASH_DELETE_HH s p = Inr s'" "ut_inv (ut_hash hk) klen (free_elem s' p) (ys @ zs)"
      "\<forall>q \<in> set (ys @ zs). el_key (el s' q) = el_key (el s q) \<and> el_value (el s' q) = el_value (el s q)"
      using hash_delete_result [OF inv [unfolded xs]] by blast
    have np: "q \<noteq> p" if "q \<in> set (ys @ zs)" for q using that k(2) by (auto simp: xs)
    have same: "el_key (el (free_elem s' p) q) = el_key (el s q) \<and> el_value (el (free_elem s' p) q) = el_value (el s q)"
      if "q \<in> set (ys @ zs)" for q
      using s'(3) that np [OF that] by simp
    have nk: "el_key (el s q) \<noteq> key" if "q \<in> set (ys @ zs)" for q
      using k(1) np [OF that] that p by (auto simp: xs inj_on_def)
    have "ut_map (free_elem s' p) (ys @ zs) = map_of (map (\<lambda>p. (el_key (el s p), el_value (el s p))) (ys @ zs))"
      unfolding ut_map_def by (intro arg_cong [where f = map_of] map_cong) (simp_all only: same)
    also have "\<dots> = (ut_map s xs)(key := None)"
    proof
      fix k'
      have "map_of (map (\<lambda>p. (el_key (el s p), el_value (el s p))) ys) key = None"
        "map_of (map (\<lambda>p. (el_key (el s p), el_value (el s p))) zs) key = None"
        using nk by (fastforce simp: map_of_eq_None_iff)+
      then show "map_of (map (\<lambda>p. (el_key (el s p), el_value (el s p))) (ys @ zs)) k' = ((ut_map s xs)(key := None)) k'"
        by (auto simp: ut_map_def xs p(2) map_add_def split: option.splits)
    qed
    finally have m: "ut_map (free_elem s' p) (ys @ zs) = (ut_map s xs)(key := None)" .
    have "map (\<lambda>q. el_key (el (free_elem s' p) q)) (ys @ zs) = map (\<lambda>q. el_key (el s q)) (ys @ zs)"
      using same by (intro map_cong) auto
    also have "\<dots> = filter (\<lambda>k. k \<noteq> key) (map (\<lambda>p. el_key (el s p)) xs)"
    proof -
      have "filter (\<lambda>k. k \<noteq> key) (map (\<lambda>q. el_key (el s q)) ys) = map (\<lambda>q. el_key (el s q)) ys"
        "filter (\<lambda>k. k \<noteq> key) (map (\<lambda>q. el_key (el s q)) zs) = map (\<lambda>q. el_key (el s q)) zs"
        using nk by (auto simp: filter_id_conv)
      then show ?thesis by (simp add: xs p(2))
    qed
    finally show ?thesis
      using m s' False f(1) by (intro exI [of _ "free_elem s' p"] exI [of _ "ys @ zs"]) (simp add: ut_erase_def)
  qed
qed

text \<open>\<open>destroy_table\<close> frees every element and the table.\<close>

lemma ut_destroy_loop_result:
  assumes "ut_inv hf klen s xs" "length xs < fuel"
  shows "ut_destroy_loop fuel s (hd_or xs 0) (if xs = [] then 0 else hd_or (tl xs) 0) =
    Inr (s\<lparr>head := 0, tbl := None, store := Map.empty\<rparr>)"
  using assms
proof (induction xs arbitrary: s fuel)
  case Nil
  then show ?case by (cases fuel) (auto simp: ut_inv_def app_ok_def split: option.splits)
next
  case (Cons x xs)
  obtain f where f: "fuel = Suc f" using Cons.prems(2) by (cases fuel) auto
  have z: "0 \<notin> set (x # xs)" by (rule ut_inv_nonzero [OF Cons.prems(1)])
  obtain s1 where s1: "HASH_DELETE_HH s x = Inr s1" "ut_inv hf klen (free_elem s1 x) xs"
    using hash_delete_result [of hf klen s "[]" x xs] Cons.prems(1) by auto
  let ?s = "free_elem s1 x"
  have nx: "(if hd_or xs 0 \<noteq> 0 then bnd (load ?s (hd_or xs 0)) (\<lambda>e. Inr (app_next e)) else Inr 0) =
      Inr (if xs = [] then 0 else hd_or (tl xs) 0)"
  proof (cases xs)
    case (Cons y ys)
    then have "y \<in> live ?s" "app_next (el ?s y) = hd_or ys 0" using s1(2) by (auto simp: ut_inv_def app_ok_def)
    then show ?thesis using z Cons by (simp add: load_live)
  qed simp
  have ext: "?s\<lparr>head := 0, tbl := None, store := Map.empty\<rparr> = s\<lparr>head := 0, tbl := None, store := Map.empty\<rparr>"
    by simp
  have IH: "ut_destroy_loop f ?s (hd_or xs 0) (if xs = [] then 0 else hd_or (tl xs) 0) =
      Inr (s\<lparr>head := 0, tbl := None, store := Map.empty\<rparr>)"
    unfolding ext [symmetric] by (rule Cons.IH [OF s1(2)]) (use Cons.prems(2) f in simp)
  have "x \<noteq> 0" using z by auto
  then show ?case
    by (simp only: f ut_destroy_loop.simps hd_or_simps s1(1) bnd.simps Let_def nx if_False IH list.sel list.distinct simp_thms)
qed

lemma ut_card: "ut_inv hf klen s xs \<Longrightarrow> card (dom (ut_content s)) = length xs"
proof -
  assume inv: "ut_inv hf klen s xs"
  then have "distinct (ut_keys s)" "ut_elems s = xs"
    by (auto simp: ut_elems_inv ut_inv_def app_ok_def keys_ok_def ut_keys_def distinct_map)
  then show ?thesis using distinct_card [of "ut_keys s"] by (simp add: ut_content_dom) (simp add: ut_keys_def)
qed

lemma ut_okE: "ut_ok hk klen s \<Longrightarrow> ut_inv (ut_hash hk) klen s (ut_elems s)"
  by (simp add: ut_ok_def)

lemma ut_at_load:
  assumes "ut_ok hk klen s" "ut_at s p j"
  shows "p \<noteq> 0" "load s p = Inr (el s p)"
    "app_next (el s p) = (if Suc j < length (ut_elems s) then ut_elems s ! Suc j else 0)"
proof -
  note inv = ut_okE [OF assms(1)]
  have j: "j < length (ut_elems s)" "p = ut_elems s ! j" using assms(2) by (auto simp: ut_at_def)
  then have mem: "p \<in> set (ut_elems s)" by simp
  then show "p \<noteq> 0" using ut_inv_nonzero [OF inv] by metis
  show "load s p = Inr (el s p)" using mem inv by (intro load_live) (simp add: ut_inv_def)
  have xs: "ut_elems s = take j (ut_elems s) @ p # drop (Suc j) (ut_elems s)" using j by (simp add: id_take_nth_drop [symmetric])
  have "lseg (\<lambda>p. app_next (el s p)) (\<lambda>p. app_prev (el s p)) 0 (take j (ut_elems s) @ p # drop (Suc j) (ut_elems s)) 0"
    using inv unfolding xs [symmetric] by (simp add: ut_inv_def app_ok_def)
  then have "app_next (el s p) = hd_or (drop (Suc j) (ut_elems s)) 0" by (simp add: lseg_append)
  also have "\<dots> = (if Suc j < length (ut_elems s) then ut_elems s ! Suc j else 0)"
    by (cases "Suc j < length (ut_elems s)") (simp_all add: Cons_nth_drop_Suc [symmetric])
  finally show "app_next (el s p) = (if Suc j < length (ut_elems s) then ut_elems s ! Suc j else 0)" .
qed

lemma ut_shim_keeps_contract:
  assumes mem: "ut_mem_ok mem"
  shows "iterable_exiting_shim (ut_shim_ops mem hk (=) klen dflt) (ut_ok hk klen) ut_content dflt (2 ^ 32 - 1) ut_keys ut_at"
proof
  let ?ops = "ut_shim_ops mem hk (=) klen dflt"
  show "ut_ok hk klen (create_table ?ops)" using ut_init_ok(1) by (simp add: ut_shim_ops_def ut_ok_def ut_init_ok(2))
  show "ut_content (create_table ?ops) = Map.empty" by (simp add: ut_shim_ops_def ut_content_def ut_init_ok(2) ut_map_def)
  fix s :: "('a, 'b) ut" and key
  assume ok: "ut_ok hk klen s"
  note inv = ut_okE [OF ok]
  show "\<exists>s'. sh_erase ?ops s key = Some s' \<and> ut_ok hk klen s' \<and> ut_content s' = (ut_content s)(key := None)"
    using ut_erase_result [OF inv, of key] ut_ok_elems [OF inv] ut_ok_elems
    by (fastforce simp: ut_shim_ops_def returned_def)
  show "\<exists>i. sh_find ?ops s key = Some i \<and> (is_itr_valid ?ops s i \<longleftrightarrow> ut_content s key \<noteq> None) \<and>
      (is_itr_valid ?ops s i \<longrightarrow> get_key_from_itr ?ops s i = key \<and> ut_content s key = Some (get_value_from_itr ?ops s i))"
    using ut_find_result [OF inv, of key] by (auto simp: ut_shim_ops_def returned_def ut_content_def el_def split: if_splits)
  show "distinct (ut_keys s) \<and> set (ut_keys s) = dom (ut_content s)"
    using ut_keys_distinct [OF ok] by (simp add: ut_content_dom)
  show "\<exists>i. begin_itr ?ops s = Some i \<and> (if ut_keys s = [] then \<not> is_itr_valid ?ops s i else ut_at s i 0)"
  proof -
    have "head s = hd_or (ut_elems s) 0" using inv by (simp add: ut_inv_def app_ok_def)
    then show ?thesis by (cases "ut_elems s") (simp_all add: ut_shim_ops_def ut_keys_def ut_at_def)
  qed
  show "sh_insert ?ops s key = None \<or>
      (\<exists>s'. sh_insert ?ops s key = Some s' \<and> ut_ok hk klen s' \<and> ut_content s' = (ut_content s)(key \<mapsto> dflt))"
    if "card (dom (ut_content s)) < 2 ^ 32 - 1"
  proof -
    have "length (ut_elems s) + 1 < 2 ^ 32" using that ut_card [OF inv] by simp
    from ut_insert_result [OF inv this mem, of dflt key] show ?thesis
      using ut_ok_elems [OF inv] ut_ok_elems by (fastforce simp: ut_shim_ops_def returned_def)
  qed
  fix i j
  show "\<exists>j. ut_at s i j" if "sh_find ?ops s key = Some i" "is_itr_valid ?ops s i"
    using ut_find_result [OF inv, of key] that
    by (auto simp: ut_shim_ops_def returned_def ut_at_def in_set_conv_nth split: if_splits)
  assume at: "ut_at s i j"
  then show "j < length (ut_keys s) \<and> is_itr_valid ?ops s i \<and> get_key_from_itr ?ops s i = ut_keys s ! j"
    using ut_at_load(1) [OF ok at] by (auto simp: ut_shim_ops_def ut_at_def ut_keys_def el_def)
  show "\<exists>i'. increment_itr ?ops s i = Some i' \<and>
      (if Suc j < length (ut_keys s) then ut_at s i' (Suc j) else \<not> is_itr_valid ?ops s i')"
    using ut_at_load [OF ok at] by (auto simp: ut_shim_ops_def returned_def ut_keys_def ut_at_def)
qed

definition ut_good_mem :: "('k, 'v) ut_elem \<Rightarrow> ('k, 'v) ut_mem" where
  "ut_good_mem junk = \<lparr>m_malloc = \<lambda>n. n < 2 ^ 36, m_elem = \<lambda>P. Suc (Max (insert 0 P)), m_junk = junk\<rparr>"

lemma ut_good_mem_ok: "ut_mem_ok (ut_good_mem junk)"
proof -
  have "Suc (Max (insert 0 P)) \<notin> P" if "finite P" for P :: "nat set"
  proof
    assume "Suc (Max (insert 0 P)) \<in> P"
    then have "Suc (Max (insert 0 P)) \<le> Max (insert 0 P)" using that by (intro Max_ge) simp_all
    then show False by simp
  qed
  then show ?thesis by (simp add: ut_mem_ok_def ut_good_mem_def)
qed

interpretation ut_uint32: iterable_exiting_shim
  "ut_shim_ops (ut_good_mem junk) hash_key_uint32 cmpr_keys_uint32 4 dflt" "ut_ok hash_key_uint32 4"
  ut_content dflt "2 ^ 32 - 1" ut_keys ut_at for junk and dflt :: u32
  unfolding bp_uint32.cmpr_is_eq by (rule ut_shim_keeps_contract [OF ut_good_mem_ok])

interpretation ut_uint64: iterable_exiting_shim
  "ut_shim_ops (ut_good_mem junk) hash_key_uint64 cmpr_keys_uint64 8 dflt" "ut_ok hash_key_uint64 8"
  ut_content dflt "2 ^ 32 - 1" ut_keys ut_at for junk and dflt :: "u8 list"
  unfolding bp_uint64.cmpr_is_eq by (rule ut_shim_keeps_contract [OF ut_good_mem_ok])

interpretation ut_cstring: iterable_exiting_shim
  "ut_shim_ops (ut_good_mem junk) hash_key_cstring cmpr_keys_cstring 8 dflt" "ut_ok hash_key_cstring 8"
  ut_content dflt "2 ^ 32 - 1" ut_keys ut_at for junk and dflt :: u64
  unfolding bp_cstring.cmpr_is_eq by (rule ut_shim_keeps_contract [OF ut_good_mem_ok])

section \<open>An example table\<close>

definition ut_ex_mem :: "(u32, u32) ut_mem" where
  "ut_ex_mem = ut_good_mem \<lparr>el_key = 0, el_value = 9, app_prev = 9, app_next = 9, hh_prev = 9, hh_next = 9, keylen = 9, hashv = 9\<rparr>"

abbreviation ut_ex_ops :: "((u32, u32) ut, u32, u32, ptr) shim_ops" where
  "ut_ex_ops \<equiv> ut_shim_ops ut_ex_mem hash_key_uint32 cmpr_keys_uint32 4 0"

lemma ut_example_hashes:
  "ut_hash hash_key_uint32 5 = 0xd54c5575"  "ut_hash hash_key_uint32 7 = 0xe468d1dd"
  by code_simp+

lemma ut_example_buckets: "HASH_TO_BKT 0xd54c5575 32 = 21" "HASH_TO_BKT 0xe468d1dd 32 = 29"
  by code_simp+

lemmas ut_run_simps = ut_insert_def ut_find_def HASH_FIND_BYHASHVALUE_def HASH_FIND_IN_BKT_def ut_new_elem_def
  HASH_ADD_KEYPTR_BYHASHVALUE_def HASH_MAKE_TABLE_def HASH_ADD_TO_TABLE_def HASH_ADD_TO_BKT_def HASH_APPEND_LIST_def
  load_tbl_def load_bkt_def load_def modify_def ut_ex_mem_def ut_good_mem_def ut_init_def
  HASH_INITIAL_NUM_BUCKETS_def sizeof_table_def sizeof_bucket_def HASH_INITIAL_NUM_BUCKETS_LOG2_def
  HASH_BKT_CAPACITY_THRESH_def wrap32_def ut_shim_ops_def returned_def bp_uint32.cmpr_is_eq

lemma ut_example_runs: "\<exists>s. run_shim ut_ex_ops [Insert 5, Insert 7] ut_init = Some s"
  by (simp add: ut_run_simps ut_example_hashes ut_example_buckets Let_def)

lemma ut_ex_mem_ok: "ut_mem_ok ut_ex_mem"
  unfolding ut_ex_mem_def by (rule ut_good_mem_ok)

lemmas ut_contract = ut_shim_keeps_contract [THEN iterable_exiting_shim.axioms(1)]

text \<open>A history of calls keeps the invariant, the map and the order of the keys.\<close>

lemma ut_history:
  fixes dflt :: 'v
  assumes "length calls \<le> 2 ^ 32 - 1" "ut_mem_ok mem"
    "run_shim (ut_shim_ops mem hk (=) klen dflt) calls (ut_init :: ('k, 'v) ut) = Some s"
  shows "ut_ok hk klen s" "ut_content s = run_map dflt calls Map.empty"
proof -
  have init: "ut_ok hk klen (ut_init :: ('k, 'v) ut)" "ut_content (ut_init :: ('k, 'v) ut) = Map.empty"
    using ut_init_ok(1) by (simp_all add: ut_ok_def ut_init_ok(2) ut_content_def ut_map_def)
  have "card (dom (ut_content (ut_init :: ('k, 'v) ut))) + length calls \<le> 2 ^ 32 - 1"
    using assms(1) by (simp add: init(2))
  from exiting_shim.history_or_exit [OF ut_contract [OF assms(2), where dflt = dflt] init(1) _ this] assms(3)
  have "ut_ok hk klen s \<and> ut_content s = run_map dflt calls (ut_content (ut_init :: ('k, 'v) ut))" by (simp add: init(2))
  then show "ut_ok hk klen s" "ut_content s = run_map dflt calls Map.empty" by (simp_all add: init(2))
qed

definition ut_example :: "(u32, u32) ut" where
  "ut_example = the (run_shim ut_ex_ops [Insert 5, Insert 7] ut_init)"

lemma ut_example_run: "run_shim ut_ex_ops [Insert 5, Insert 7] ut_init = Some ut_example"
  using ut_example_runs by (auto simp: ut_example_def)

lemma ut_example_ut_run: "ut_run ut_ex_mem hash_key_uint32 (=) 4 0 [Insert 5, Insert 7] ut_init = Inr ut_example"
  using ut_example_run unfolding run_shim_ut_run bp_uint32.cmpr_is_eq
  by (simp add: returned_def split: sum.splits del: ut_run.simps)

lemma ut_example_ok: "ut_ok hash_key_uint32 4 ut_example"
  and ut_example_content: "ut_content ut_example = [5 \<mapsto> 0, 7 \<mapsto> 0]"
  using ut_history [OF _ ut_ex_mem_ok ut_example_run [unfolded bp_uint32.cmpr_is_eq]] by simp_all

lemma ut_example_keys: "ut_keys ut_example = [5, 7]"
proof -
  have "ut_walk 2 s p = (if p = 0 then [] else p # (let q = app_next (the (store s p)) in if q = 0 then [] else [q]))"
    for s :: "(u32, u32) ut" and p by (simp add: numeral_2_eq_2)
  then show ?thesis
    by (simp add: ut_example_def ut_keys_def ut_elems_def el_def ut_run_simps ut_example_hashes ut_example_buckets Let_def)
qed

lemma ut_cnt_result: "ut_inv hf klen s xs \<Longrightarrow> HASH_CNT s = Inr (length xs)"
  using ut_inv_head [of hf klen s xs]
  by (auto simp: HASH_CNT_def ut_inv_def app_ok_def load_tbl_def ut_table_ok_def split: option.splits)

lemma ut_keys_inv: "ut_inv hf klen s xs \<Longrightarrow> map (\<lambda>p. el_key (el s p)) xs = ut_keys s"
  by (simp add: ut_keys_def ut_elems_inv)

text \<open>One insertion, on the keys and the map.\<close>

lemma ut_insert_step:
  assumes "ut_ok hk klen s" "card (dom (ut_content s)) < 2 ^ 32 - 1" "ut_mem_ok mem"
  shows "(\<exists>e. ut_insert mem hk (=) klen dflt s key = Inl e \<and> ut_content s key = None \<and> ut_insert_fails mem s e) \<or>
    (\<exists>s'. ut_insert mem hk (=) klen dflt s key = Inr s' \<and> ut_ok hk klen s' \<and>
      ut_content s' = (ut_content s)(key \<mapsto> dflt) \<and>
      ut_keys s' = ut_keys s @ (if ut_content s key = None then [key] else []))"
proof -
  note inv = ut_okE [OF assms(1)]
  have "length (ut_elems s) + 1 < 2 ^ 32" using assms(2) ut_card [OF inv] by simp
  from ut_insert_result [OF inv this assms(3), of dflt key] show ?thesis
  proof (elim disjE exE conjE)
    fix s' ys
    assume r: "ut_insert mem hk (=) klen dflt s key = Inr s'" "ut_inv (ut_hash hk) klen s' ys"
      "ut_map s' ys = (ut_map s (ut_elems s))(key \<mapsto> dflt)"
      "map (\<lambda>p. el_key (el s' p)) ys =
        map (\<lambda>p. el_key (el s p)) (ut_elems s) @ (if ut_map s (ut_elems s) key = None then [key] else [])"
    show ?thesis
      by (intro disjI2 exI [of _ s'])
        (use r ut_ok_elems [OF r(2)] in \<open>simp add: ut_content_def ut_keys_inv [OF r(2)] ut_keys_inv [OF inv]\<close>)
  qed (simp add: ut_content_def)
qed

lemma ut_erase_step:
  assumes "ut_ok hk klen s"
  shows "\<exists>s'. ut_erase hk (=) klen s key = Inr s' \<and> ut_ok hk klen s' \<and>
    ut_content s' = (ut_content s)(key := None) \<and> ut_keys s' = filter (\<lambda>k. k \<noteq> key) (ut_keys s) \<and>
    card (dom (store s')) = length (ut_keys s')"
proof -
  note inv = ut_okE [OF assms]
  obtain s' ys where r: "ut_erase hk (=) klen s key = Inr s'" "ut_inv (ut_hash hk) klen s' ys"
    "ut_map s' ys = (ut_map s (ut_elems s))(key := None)"
    "map (\<lambda>p. el_key (el s' p)) ys = filter (\<lambda>k. k \<noteq> key) (map (\<lambda>p. el_key (el s p)) (ut_elems s))"
    using ut_erase_result [OF inv] by blast
  have "length (ut_keys s') = length ys" "distinct ys" "live s' = set ys"
    using r(2) ut_keys_inv [OF r(2)] by (simp_all add: ut_inv_def app_ok_def flip: ut_keys_inv [OF r(2)])
  then show ?thesis
    by (intro exI [of _ s'])
      (use r ut_ok_elems [OF r(2)] in \<open>simp add: ut_content_def ut_keys_inv [OF r(2)] ut_keys_inv [OF inv] distinct_card\<close>)
qed

text \<open>
  A history that succeeds leaves the map and the order of its calls; one that fails has been stopped by the
  insertion of a new key with one of the two errors.
\<close>

lemma ut_run_result:
  assumes "ut_ok hk klen s" "card (dom (ut_content s)) + length calls \<le> 2 ^ 32 - 1" "ut_mem_ok mem"
  shows "case ut_run mem hk (=) klen dflt calls s of
      Inr s' \<Rightarrow> ut_ok hk klen s' \<and> ut_content s' = run_map dflt calls (ut_content s) \<and> ut_keys s' = insertion_order calls (ut_keys s)
    | Inl e \<Rightarrow> \<exists>cs k rest s1. calls = cs @ Insert k # rest \<and> ut_run mem hk (=) klen dflt cs s = Inr s1 \<and>
        run_map dflt cs (ut_content s) k = None \<and> ut_insert_fails mem s1 e"
  using assms(1,2)
proof (induction calls arbitrary: s)
  case (Cons c calls)
  have fin: "finite (dom (ut_content s))" by (simp add: ut_content_dom)
  let ?run = "ut_run mem hk (=) klen dflt"
  have step: ?case if s1: "?run [c] s = Inr s1" "ut_ok hk klen s1" "ut_content s1 = run_map dflt [c] (ut_content s)"
    "ut_keys s1 = insertion_order [c] (ut_keys s)" for s1
  proof -
    have "card (dom (ut_content s1)) \<le> Suc (card (dom (ut_content s)))"
      using fin by (cases c) (simp_all add: s1(3) card_insert_if card_Diff1_le le_SucI)
    then have "card (dom (ut_content s1)) + length calls \<le> 2 ^ 32 - 1" using Cons.prems(2) by simp
    note IH = Cons.IH [OF s1(2) this]
    have run: "?run (c # cs) s = ?run cs s1" "run_map dflt (c # cs) (ut_content s) = run_map dflt cs (ut_content s1)"
      "insertion_order (c # cs) (ut_keys s) = insertion_order cs (ut_keys s1)" for cs
      using s1(1,3,4) by (cases c; auto simp: bnd_Inr)+
    show ?case
    proof (cases "?run calls s1")
      case (Inl e)
      then obtain cs k rest s2 where f: "calls = cs @ Insert k # rest" "?run cs s1 = Inr s2"
        "run_map dflt cs (ut_content s1) k = None" "ut_insert_fails mem s2 e" using IH by auto
      show ?thesis unfolding run(1) Inl sum.case
        by (intro exI [of _ "c # cs"] exI [of _ k] exI [of _ rest] exI [of _ s2]) (use f in \<open>simp add: run del: ut_run.simps run_map.simps\<close>)
    next
      case (Inr s2)
      then show ?thesis using IH by (simp add: run del: ut_run.simps run_map.simps insertion_order.simps)
    qed
  qed
  show ?case
  proof (cases c)
    case (Insert k)
    have "card (dom (ut_content s)) < 2 ^ 32 - 1" using Cons.prems(2) by simp
    from ut_insert_step [OF Cons.prems(1) this assms(3), of dflt k] show ?thesis
    proof (elim disjE exE conjE)
      fix e
      assume e: "ut_insert mem hk (=) klen dflt s k = Inl e" "ut_content s k = None" "ut_insert_fails mem s e"
      have "?run (c # calls) s = Inl e" by (simp add: Insert e(1))
      then show ?thesis using e(2,3) unfolding Insert
        by (simp del: ut_run.simps) (intro exI [of _ "[]"], simp)
    next
      fix s1
      assume "ut_insert mem hk (=) klen dflt s k = Inr s1" "ut_ok hk klen s1" "ut_content s1 = (ut_content s)(k \<mapsto> dflt)"
        "ut_keys s1 = ut_keys s @ (if ut_content s k = None then [k] else [])"
      moreover have "ut_content s k = None \<longleftrightarrow> k \<notin> set (ut_keys s)" using ut_content_dom [of s] by (auto simp: domIff)
      ultimately show ?thesis by (intro step) (cases "k \<in> set (ut_keys s)"; simp add: Insert)+
    qed
  next
    case (Erase k)
    obtain s1 where "ut_erase hk (=) klen s k = Inr s1" "ut_ok hk klen s1" "ut_content s1 = (ut_content s)(k := None)"
      "ut_keys s1 = filter (\<lambda>x. x \<noteq> k) (ut_keys s)"
      using ut_erase_step [OF Cons.prems(1)] by blast
    then show ?thesis by (intro step) (simp_all add: Erase)
  qed
qed simp

lemma ut_init_contents:
  "ut_ok hk klen (ut_init :: ('k, 'v) ut)" "ut_content (ut_init :: ('k, 'v) ut) = Map.empty" "ut_keys (ut_init :: ('k, 'v) ut) = []"
  using ut_init_ok(1) by (simp_all add: ut_ok_def ut_init_ok(2) ut_content_def ut_map_def ut_keys_def)

lemma ut_run_new:
  fixes dflt :: 'v
  assumes "length calls \<le> 2 ^ 32 - 1" "ut_mem_ok mem"
  shows "case ut_run mem hk (=) klen dflt calls (ut_init :: ('k, 'v) ut) of
      Inr s' \<Rightarrow> ut_ok hk klen s' \<and> ut_content s' = run_map dflt calls Map.empty \<and> ut_keys s' = insertion_order calls []
    | Inl e \<Rightarrow> \<exists>cs k rest s1. calls = cs @ Insert k # rest \<and> ut_run mem hk (=) klen dflt cs ut_init = Inr s1 \<and>
        run_map dflt cs Map.empty k = None \<and> ut_insert_fails mem s1 e"
  using ut_run_result [OF ut_init_contents(1) _ assms(2), of calls hk klen dflt] assms(1)
  unfolding ut_init_contents(2,3) by simp

lemma ut_iterates:
  assumes "ut_ok hk klen s" "ut_at s p j" and mem: "ut_mem_ok mem"
  shows "iterate_keys (ut_shim_ops mem hk (=) klen dflt) (length (ut_keys s)) s p = Some (rotate j (ut_keys s))"
proof -
  have "map (\<lambda>d. xs ! ((j + d) mod length xs)) [0..<length xs] = rotate j xs" for xs :: "'a list"
    by (rule nth_equalityI) (simp_all add: nth_rotate)
  then show ?thesis
    using iterable_exiting_shim.iterate_keys_cyclic [OF ut_shim_keeps_contract [OF mem] assms(1,2), where cnt = "length (ut_keys s)"] by simp
qed

section \<open>Properties\<close>

text \<open>C6: uthash behind its shim, with any hash function and any allocator that gives out fresh memory or
  \<open>NULL\<close>, from the empty table: a history of less than \<open>2 ^ 32\<close> insertions and erasures never loops. Either
  all its calls return, and then \<open>find\<close> returns the element of exactly the keys that the history leaves in
  the map, with the value the shim stored. Or it is stopped by the insertion of a key that is not in the
  map, after calls that returned, in one of two ways: \<open>malloc\<close> gave \<open>NULL\<close> for the element and the shim
  writes through it (\<open>Bad_Pointer\<close>), or one of the requests that uthash makes at that point was refused and
  uthash exits (\<open>Fatal_OOM\<close>). The comparison is equality, as the \<open>cmpr_keys\<close> of each blueprint is.\<close>

theorem uthash_shim_implements_map:
  assumes "length calls \<le> 2 ^ 32 - 1" "ut_mem_ok mem"
  shows "case ut_run mem hk (=) klen dflt calls ut_init of
      Inr s \<Rightarrow> (\<forall>key. \<exists>p. ut_find hk (=) klen s key = Inr p \<and>
        (if p = 0 then run_map dflt calls Map.empty key = None
         else el_key (el s p) = key \<and> run_map dflt calls Map.empty key = Some (el_value (el s p))))
    | Inl e \<Rightarrow> (\<exists>cs k rest s1. calls = cs @ Insert k # rest \<and> ut_run mem hk (=) klen dflt cs ut_init = Inr s1 \<and>
        run_map dflt cs Map.empty k = None \<and>
        (if m_elem mem (dom (store s1)) = 0 then e = Bad_Pointer
         else e = Fatal_OOM \<and> (\<exists>n \<in> ut_requests s1. \<not> m_malloc mem n)))"
proof (cases "ut_run mem hk (=) klen dflt calls ut_init")
  case (Inl e)
  then show ?thesis using ut_run_new [OF assms, of hk klen dflt] unfolding ut_insert_fails_def by simp
next
  case (Inr s)
  have h: "ut_ok hk klen s" "ut_content s = run_map dflt calls Map.empty"
    using ut_run_new [OF assms, of hk klen dflt] Inr by simp_all
  have "\<exists>p. ut_find hk (=) klen s key = Inr p \<and> (if p = 0 then run_map dflt calls Map.empty key = None
      else el_key (el s p) = key \<and> run_map dflt calls Map.empty key = Some (el_value (el s p)))" for key
  proof -
    obtain p where p: "ut_find hk (=) klen s key = Inr p"
      "if p = 0 then ut_content s key = None
       else p \<in> set (ut_elems s) \<and> el_key (el s p) = key \<and> ut_content s key = Some (el_value (el s p))"
      using ut_find_result [OF ut_okE [OF h(1)], of key] unfolding ut_content_def by blast
    show ?thesis by (rule exI [of _ p]) (use p in \<open>simp add: h(2) split: if_splits\<close>)
  qed
  then show ?thesis by (simp add: Inr)
qed

theorem uthash_shim_implements_map_witness:
  "\<exists>s p. ut_run ut_ex_mem hash_key_uint32 cmpr_keys_uint32 4 (0 :: u32) [Insert 5, Insert 7] ut_init = Inr s \<and>
    ut_find hash_key_uint32 cmpr_keys_uint32 4 s 7 = Inr p \<and> p \<noteq> 0 \<and> el_key (el s p) = 7 \<and> el_value (el s p) = 0"
proof -
  have len: "length [Insert (5 :: u32), Insert 7] \<le> 2 ^ 32 - 1" by simp
  note run = ut_example_ut_run
  have found: "\<forall>key. \<exists>p. ut_find hash_key_uint32 (=) 4 ut_example key = Inr p \<and>
      (if p = 0 then run_map (0 :: u32) [Insert 5, Insert 7] Map.empty key = None
       else el_key (el ut_example p) = key \<and> run_map 0 [Insert 5, Insert 7] Map.empty key = Some (el_value (el ut_example p)))"
    using uthash_shim_implements_map [OF len ut_ex_mem_ok, of hash_key_uint32 4 0] unfolding run sum.case .
  obtain p where "ut_find hash_key_uint32 (=) 4 ut_example 7 = Inr p" "p \<noteq> 0" "el_key (el ut_example p) = 7"
    "el_value (el ut_example p) = 0" using found [rule_format, of 7] by (auto split: if_splits)
  then show ?thesis unfolding bp_uint32.cmpr_is_eq using run by blast
qed

text \<open>C15: \<open>insert\<close> with any allocator that gives out fresh memory or \<open>NULL\<close>, in any state of the table, is
  in one of three cases: it returns, the key has the shim's value, the other keys have theirs, and a new
  key is the last in the order of iteration; or the key is new, \<open>malloc\<close> of the element gave \<open>NULL\<close>, and
  the shim writes through it without a check; or the key is new, the element was allocated, one of the
  requests of uthash was refused, and uthash exits. In particular every loop ends, and with an element
  that is not \<open>NULL\<close> no bad pointer is followed.\<close>

theorem uthash_insert_any_allocator:
  assumes "ut_ok hk klen s" "card (dom (ut_content s)) < 2 ^ 32 - 1" "ut_mem_ok mem"
  shows "case ut_insert mem hk (=) klen dflt s key of
      Inr s' \<Rightarrow> ut_ok hk klen s' \<and> ut_content s' = (ut_content s)(key \<mapsto> dflt) \<and>
        ut_keys s' = ut_keys s @ (if ut_content s key = None then [key] else [])
    | Inl e \<Rightarrow> ut_content s key = None \<and>
        (if m_elem mem (dom (store s)) = 0 then e = Bad_Pointer
         else e = Fatal_OOM \<and> (\<exists>n \<in> ut_requests s. \<not> m_malloc mem n))"
  using ut_insert_step [OF assms, of dflt key] unfolding ut_insert_fails_def by auto

theorem uthash_insert_any_allocator_witness:
  "(ut_insert ut_ex_mem hash_key_uint32 (=) 4 3 ut_example 9 = Inl Fatal_OOM \<or>
    (\<exists>s'. ut_insert ut_ex_mem hash_key_uint32 (=) 4 3 ut_example 9 = Inr s' \<and> ut_keys s' = [5, 7, 9])) \<and>
   (\<exists>s'. ut_insert (ut_ex_mem\<lparr>m_malloc := \<lambda>n. False\<rparr>) hash_key_uint32 (=) 4 3 ut_example 5 = Inr s' \<and> ut_keys s' = [5, 7])"
proof
  have some: "m_elem ut_ex_mem P \<noteq> 0" for P by (simp add: ut_ex_mem_def ut_good_mem_def)
  have "ut_mem_ok (ut_ex_mem\<lparr>m_malloc := \<lambda>n. False\<rparr>)" using ut_ex_mem_ok by (simp add: ut_mem_ok_def)
  from uthash_insert_any_allocator [OF ut_example_ok _ this, where dflt = 3 and key = 5] show
    "\<exists>s'. ut_insert (ut_ex_mem\<lparr>m_malloc := \<lambda>n. False\<rparr>) hash_key_uint32 (=) 4 3 ut_example 5 = Inr s' \<and> ut_keys s' = [5, 7]"
    by (auto simp: ut_example_content ut_example_keys split: sum.splits)
  from uthash_insert_any_allocator [OF ut_example_ok _ ut_ex_mem_ok, where dflt = 3 and key = 9] show
    "ut_insert ut_ex_mem hash_key_uint32 (=) 4 3 ut_example 9 = Inl Fatal_OOM \<or>
      (\<exists>s'. ut_insert ut_ex_mem hash_key_uint32 (=) 4 3 ut_example 9 = Inr s' \<and> ut_keys s' = [5, 7, 9])"
    by (auto simp: ut_example_content ut_example_keys some split: sum.splits)
qed

text \<open>C21: \<open>erase\<close> in any state of the table returns, follows no invalid pointer, removes the key and nothing
  else, and keeps the order of the other keys; the element is freed.\<close>

theorem uthash_erase_keeps_order:
  assumes "ut_ok hk klen s"
  shows "\<exists>s'. ut_erase hk (=) klen s key = Inr s' \<and> ut_ok hk klen s' \<and>
    ut_content s' = (ut_content s)(key := None) \<and> ut_keys s' = filter (\<lambda>k. k \<noteq> key) (ut_keys s) \<and>
    card (dom (store s')) = length (ut_keys s')"
  by (rule ut_erase_step [OF assms])

theorem uthash_erase_keeps_order_witness:
  "\<exists>s'. ut_erase hash_key_uint32 (=) 4 ut_example 5 = Inr s' \<and> ut_keys s' = [7] \<and> ut_content s' = [7 \<mapsto> 0]"
  using uthash_erase_keeps_order [OF ut_example_ok, of 5]
  by (auto simp: ut_example_content ut_example_keys fun_eq_iff)

text \<open>C17: \<open>HASH_FSCK\<close>, the library's own integrity check of the bucket chains, the counts and the list of
  the application, finds no error after any history of calls, and \<open>HASH_COUNT\<close> is the number of keys.\<close>

theorem uthash_fsck_passes:
  assumes "length calls \<le> 2 ^ 32 - 1" "ut_mem_ok mem"
    "run_shim (ut_shim_ops mem hk (=) klen dflt) calls ut_init = Some s"
  shows "HASH_FSCK s = Inr True \<and> HASH_CNT s = Inr (card (dom (run_map dflt calls Map.empty)))"
proof -
  note h = ut_history [OF assms]
  note inv = ut_okE [OF h(1)]
  show ?thesis
    using hash_fsck_result [OF inv] ut_cnt_result [OF inv] ut_card [OF inv] by (simp add: h(2))
qed

theorem uthash_fsck_passes_witness: "HASH_FSCK ut_example = Inr True \<and> HASH_CNT ut_example = Inr 2"
proof -
  have "length [Insert (5 :: u32), Insert 7] \<le> 2 ^ 32 - 1" by simp
  from uthash_fsck_passes [OF this ut_ex_mem_ok ut_example_run [unfolded bp_uint32.cmpr_is_eq]]
  show ?thesis by simp
qed

text \<open>C25: \<open>destroy_table\<close> ends on every table and frees every element and the table itself.\<close>

theorem uthash_destroy_frees_all:
  assumes "ut_ok hk klen s"
  shows "ut_destroy_table s = Inr ut_init"
proof -
  note inv = ut_okE [OF assms]
  let ?xs = "ut_elems s"
  have "ut_destroy_table s =
      ut_destroy_loop (length ?xs + 1) s (hd_or ?xs 0) (if ?xs = [] then 0 else hd_or (tl ?xs) 0)"
  proof (cases ?xs)
    case Nil
    then show ?thesis using ut_inv_head [OF inv] by (simp add: ut_destroy_table_def ut_cnt_result [OF inv])
  next
    case (Cons p ys)
    have "lseg (\<lambda>p. app_next (el s p)) (\<lambda>p. app_prev (el s p)) 0 (p # ys) 0" "head s = p" "p \<in> live s"
      using inv Cons by (auto simp: ut_inv_def app_ok_def)
    then show ?thesis using ut_inv_head [OF inv]
      by (simp add: ut_destroy_table_def ut_cnt_result [OF inv] Cons load_live)
  qed
  also have "\<dots> = Inr (s\<lparr>head := 0, tbl := None, store := Map.empty\<rparr>)"
    by (rule ut_destroy_loop_result [OF inv]) simp
  finally show ?thesis by (simp add: ut_init_def)
qed

theorem uthash_destroy_frees_all_witness: "ut_destroy_table ut_example = Inr ut_init"
  by (rule uthash_destroy_frees_all [OF ut_example_ok])

text \<open>C26: the benchmark's iteration reaches every key in the order of insertion: after any history of calls
  that return, as many steps as there are keys, from the element that \<open>find\<close> returned for any of them,
  visit each key exactly once, in the order in which the history inserted the keys it leaves, and around
  the end of the list to its first element; from \<open>begin_itr\<close> they give that order itself.\<close>

theorem uthash_iteration_in_insertion_order:
  assumes "length calls \<le> 2 ^ 32 - 1" "ut_mem_ok mem"
    "ut_run mem hk (=) klen dflt calls ut_init = Inr s" "key \<in> dom (run_map dflt calls Map.empty)"
  defines "ks \<equiv> insertion_order calls []"
  shows "distinct ks \<and> set ks = dom (run_map dflt calls Map.empty) \<and>
    (\<exists>p j. ut_find hk (=) klen s key = Inr p \<and> j < length ks \<and> ks ! j = key \<and>
      iterate_keys (ut_shim_ops mem hk (=) klen dflt) (length ks) s p = Some (rotate j ks)) \<and>
    iterate_keys (ut_shim_ops mem hk (=) klen dflt) (length ks) s (head s) = Some ks"
proof -
  have h: "ut_ok hk klen s" "ut_content s = run_map dflt calls Map.empty" "ut_keys s = ks"
    using ut_run_new [OF assms(1,2), of hk klen dflt] assms(3) by (simp_all add: ks_def)
  note inv = ut_okE [OF h(1)]
  obtain p where p: "ut_find hk (=) klen s key = Inr p" "p \<in> set (ut_elems s)" "el_key (el s p) = key"
    using ut_find_result [OF inv, of key] assms(4) unfolding h(2) [symmetric] by (auto simp: ut_content_def split: if_splits)
  then obtain j where j: "ut_at s p j" by (auto simp: ut_at_def in_set_conv_nth)
  have "head s = hd_or (ut_elems s) 0" using inv by (simp add: ut_inv_def app_ok_def)
  then have "ut_at s (head s) 0" using p(2) by (cases "ut_elems s") (simp_all add: ut_at_def)
  from ut_iterates [OF h(1) this assms(2), of dflt] have
    "iterate_keys (ut_shim_ops mem hk (=) klen dflt) (length ks) s (head s) = Some ks" by (simp add: h(3))
  moreover have "j < length ks" "ks ! j = key" using j p(3) by (auto simp: h(3) [symmetric] ut_at_def ut_keys_def)
  moreover have "iterate_keys (ut_shim_ops mem hk (=) klen dflt) (length ks) s p = Some (rotate j ks)"
    using ut_iterates [OF h(1) j assms(2), of dflt] by (simp add: h(3))
  ultimately show ?thesis
    using p(1) ut_keys_distinct [OF h(1)] ut_content_dom [of s] unfolding h(2,3) by auto
qed

theorem uthash_iteration_in_insertion_order_witness:
  "\<exists>p. ut_find hash_key_uint32 (=) 4 ut_example 7 = Inr p \<and>
    iterate_keys (ut_shim_ops ut_ex_mem hash_key_uint32 (=) 4 0) 2 ut_example p = Some [7, 5]"
proof -
  have order: "insertion_order [Insert 5, Insert (7 :: u32)] [] = [5, 7]" by simp
  have len: "length [Insert (5 :: u32), Insert 7] \<le> 2 ^ 32 - 1" by simp
  have dom: "(7 :: u32) \<in> dom (run_map (0 :: u32) [Insert 5, Insert 7] Map.empty)" by simp
  obtain p j where p: "ut_find hash_key_uint32 (=) 4 ut_example 7 = Inr p" "j < 2" "[5, 7] ! j = (7 :: u32)"
    "iterate_keys (ut_shim_ops ut_ex_mem hash_key_uint32 (=) 4 0) 2 ut_example p = Some (rotate j [5, 7])"
    using uthash_iteration_in_insertion_order [OF len ut_ex_mem_ok ut_example_ut_run dom]
    unfolding order by (auto simp: numeral_2_eq_2)
  then have "j = 1" by (cases j) auto
  then show ?thesis using p by auto
qed

end
