(* ===== verification/Uthash_Sort.thy ===== *)
theory Uthash_Sort
  imports Uthash_Shim
begin

text \<open>
  \<open>HASH_SRT\<close> of \<open>src/shims/uthash/uthash.h\<close>: the merge sort of the list of the application on its links, the
  proof that each step merges runs of the list as merging lists does, and that the result is a stable
  sort that leaves the table intact.
\<close>

section \<open>Sorting\<close>

text \<open>
  \<open>HASH_SRT\<close>, a bottom-up merge sort of the list in application order. \<open>cmp\<close> is \<open>cmpfcn\<close> on the contents of
  two elements. The loop that steps over the first run: \<open>q\<close> and \<open>psize\<close>, with \<open>c\<close> steps to go.
\<close>

definition next_of :: "('k, 'v) ut \<Rightarrow> ptr \<Rightarrow> ut_error + ptr" where
  "next_of s p = bnd (load s p) (\<lambda>e. Inr (app_next e))"

fun srt_run :: "nat \<Rightarrow> ('k, 'v) ut \<Rightarrow> ptr \<Rightarrow> nat \<Rightarrow> ut_error + (ptr \<times> nat)" where
  "srt_run 0 s q psize = Inr (q, psize)"
| "srt_run (Suc c) s q psize =
    bnd (next_of s q) (\<lambda>q. if q = 0 then Inr (q, psize + 1) else srt_run c s q (psize + 1))"

definition srt_compare :: "('k \<times> 'v \<Rightarrow> 'k \<times> 'v \<Rightarrow> int) \<Rightarrow> ('k, 'v) ut \<Rightarrow> ptr \<Rightarrow> ptr \<Rightarrow> ut_error + int" where
  "srt_compare cmp s p q =
    bnd (load s p) (\<lambda>a. bnd (load s q) (\<lambda>b. Inr (cmp (el_key a, el_value a) (el_key b, el_value b))))"

text \<open>One step of the merge: which element \<open>e\<close> comes next, and the advanced \<open>p\<close>, \<open>psize\<close>, \<open>q\<close>, \<open>qsize\<close>.\<close>

definition srt_pick ::
    "('k \<times> 'v \<Rightarrow> 'k \<times> 'v \<Rightarrow> int) \<Rightarrow> ('k, 'v) ut \<Rightarrow> ptr \<Rightarrow> nat \<Rightarrow> ptr \<Rightarrow> nat
    \<Rightarrow> ut_error + (ptr \<times> ptr \<times> nat \<times> ptr \<times> nat)" where
  "srt_pick cmp s p psize q qsize =
    (if psize = 0 then bnd (next_of s q) (\<lambda>q'. Inr (q, p, psize, q', qsize - 1))
     else if qsize = 0 \<or> q = 0 then bnd (if p \<noteq> 0 then next_of s p else Inr p) (\<lambda>p'. Inr (p, p', psize - 1, q, qsize))
     else bnd (srt_compare cmp s p q) (\<lambda>c.
       if c \<le> 0 then bnd (if p \<noteq> 0 then next_of s p else Inr p) (\<lambda>p'. Inr (p, p', psize - 1, q, qsize))
       else bnd (next_of s q) (\<lambda>q'. Inr (q, p, psize, q', qsize - 1))))"

text \<open>Its second half: \<open>e\<close> is linked behind \<open>tp\<close>; the result has the list's first element.\<close>

definition srt_link :: "('k, 'v) ut \<Rightarrow> ptr \<Rightarrow> ptr \<Rightarrow> ptr \<Rightarrow> ut_error + (('k, 'v) ut \<times> ptr)" where
  "srt_link s lst tp e =
    bnd (if tp \<noteq> 0 then bnd (modify s tp (\<lambda>x. x\<lparr>app_next := e\<rparr>)) (\<lambda>s. Inr (s, lst)) else Inr (s, e)) (\<lambda>(s, lst).
      bnd (if e \<noteq> 0 then modify s e (\<lambda>x. x\<lparr>app_prev := tp\<rparr>) else Inr s) (\<lambda>s. Inr (s, lst)))"

fun srt_merge ::
    "nat \<Rightarrow> ('k \<times> 'v \<Rightarrow> 'k \<times> 'v \<Rightarrow> int) \<Rightarrow> ('k, 'v) ut \<Rightarrow> ptr \<Rightarrow> nat \<Rightarrow> ptr \<Rightarrow> nat \<Rightarrow> ptr \<Rightarrow> ptr
    \<Rightarrow> ut_error + (('k, 'v) ut \<times> ptr \<times> ptr \<times> ptr)" where
  "srt_merge 0 cmp s p psize q qsize lst tp = Inl Diverges"
| "srt_merge (Suc fuel) cmp s p psize q qsize lst tp =
    (if psize \<noteq> 0 \<or> qsize \<noteq> 0 \<and> q \<noteq> 0
     then bnd (srt_pick cmp s p psize q qsize) (\<lambda>(e, p, psize, q, qsize).
            bnd (srt_link s lst tp e) (\<lambda>(s, lst). srt_merge fuel cmp s p psize q qsize lst e))
     else Inr (s, q, lst, tp))"

text \<open>A pass over the list merges its runs of \<open>insize\<close> elements in pairs and counts the merges.\<close>

fun srt_pass ::
    "nat \<Rightarrow> ('k \<times> 'v \<Rightarrow> 'k \<times> 'v \<Rightarrow> int) \<Rightarrow> nat \<Rightarrow> ('k, 'v) ut \<Rightarrow> ptr \<Rightarrow> ptr \<Rightarrow> ptr \<Rightarrow> nat
    \<Rightarrow> ut_error + (('k, 'v) ut \<times> ptr \<times> ptr \<times> nat)" where
  "srt_pass 0 cmp insize s p lst tp nmerges = Inl Diverges"
| "srt_pass (Suc fuel) cmp insize s p lst tp nmerges =
    (if p = 0 then Inr (s, lst, tp, nmerges)
     else bnd (srt_run insize s p 0) (\<lambda>(q, psize).
       bnd (srt_merge (psize + insize + 1) cmp s p psize q insize lst tp) (\<lambda>(s, q, lst, tp).
         srt_pass fuel cmp insize s q lst tp (nmerges + 1))))"

fun srt_rounds ::
    "nat \<Rightarrow> nat \<Rightarrow> ('k \<times> 'v \<Rightarrow> 'k \<times> 'v \<Rightarrow> int) \<Rightarrow> nat \<Rightarrow> ('k, 'v) ut \<Rightarrow> ptr \<Rightarrow> ut_error + ('k, 'v) ut" where
  "srt_rounds 0 n cmp insize s lst = Inl Diverges"
| "srt_rounds (Suc fuel) n cmp insize s lst =
    bnd (srt_pass (n + 1) cmp insize s lst 0 0 0) (\<lambda>(s, lst, tp, nmerges).
      bnd (if tp \<noteq> 0 then modify s tp (\<lambda>x. x\<lparr>app_next := 0\<rparr>) else Inr s) (\<lambda>s.
        if nmerges \<le> 1
        then bnd (load_tbl s) (\<lambda>t. Inr (s\<lparr>tbl := Some (t\<lparr>tail := tp\<rparr>), head := lst\<rparr>))
        else srt_rounds fuel n cmp (wrap32 (insize * 2)) s lst))"

text \<open>There are fewer than \<open>2 ^ 32\<close> elements, and \<open>insize\<close> doubles: 32 rounds are enough.\<close>

definition HASH_SRT :: "('k \<times> 'v \<Rightarrow> 'k \<times> 'v \<Rightarrow> int) \<Rightarrow> ('k, 'v) ut \<Rightarrow> ut_error + ('k, 'v) ut" where
  "HASH_SRT cmp s =
    (if head s \<noteq> 0 then bnd (load_tbl s) (\<lambda>t. srt_rounds 32 (num_items t) cmp 1 s (head s)) else Inr s)"

section \<open>Merging runs of a list\<close>

fun merge_runs :: "('a \<Rightarrow> 'a \<Rightarrow> bool) \<Rightarrow> 'a list \<Rightarrow> 'a list \<Rightarrow> 'a list" where
  "merge_runs le [] ys = ys"
| "merge_runs le xs [] = xs"
| "merge_runs le (x # xs) (y # ys) =
    (if le x y then x # merge_runs le xs (y # ys) else y # merge_runs le (x # xs) ys)"

lemma merge_runs_Nil [simp]: "merge_runs le xs [] = xs"
  by (cases xs) simp_all

function merge_pass :: "('a \<Rightarrow> 'a \<Rightarrow> bool) \<Rightarrow> nat \<Rightarrow> 'a list \<Rightarrow> 'a list" where
  "merge_pass le k xs =
    (if xs = [] \<or> k = 0 then []
     else merge_runs le (take k xs) (take k (drop k xs)) @ merge_pass le k (drop (2 * k) xs))"
  by pat_completeness auto
termination by (relation "measure (\<lambda>(le, k, xs). length xs)") auto

declare merge_pass.simps [simp del]

text \<open>\<open>xs\<close> is a sequence of sorted runs of length \<open>k\<close>, the last one perhaps shorter.\<close>

definition runs_sorted :: "('a \<Rightarrow> 'a \<Rightarrow> bool) \<Rightarrow> nat \<Rightarrow> 'a list \<Rightarrow> bool" where
  "runs_sorted le k xs \<longleftrightarrow> (\<forall>i. sorted_wrt le (take k (drop (i * k) xs)))"

definition preorder_on_list :: "('a \<Rightarrow> 'a \<Rightarrow> bool) \<Rightarrow> bool" where
  "preorder_on_list le \<longleftrightarrow> (\<forall>x y. le x y \<or> le y x) \<and> (\<forall>x y z. le x y \<longrightarrow> le y z \<longrightarrow> le x z)"

lemma mset_merge_runs: "mset (merge_runs le xs ys) = mset xs + mset ys"
  by (induction le xs ys rule: merge_runs.induct) auto

lemma set_merge_runs: "set (merge_runs le xs ys) = set xs \<union> set ys"
  using mset_merge_runs [of le xs ys] by (metis set_mset_mset set_mset_union)

lemma length_merge_runs: "length (merge_runs le xs ys) = length xs + length ys"
  using mset_merge_runs [of le xs ys] by (metis size_mset size_union)

lemma sorted_merge_runs:
  "preorder_on_list le \<Longrightarrow> sorted_wrt le xs \<Longrightarrow> sorted_wrt le ys \<Longrightarrow> sorted_wrt le (merge_runs le xs ys)"
proof (induction le xs ys rule: merge_runs.induct)
  case (3 le x xs y ys)
  have total: "le y x" if "\<not> le x y" using "3.prems"(1) that unfolding preorder_on_list_def by blast
  have trans: "le u v \<Longrightarrow> le v w \<Longrightarrow> le u w" for u v w
    using "3.prems"(1) unfolding preorder_on_list_def by blast
  show ?case
  proof (cases "le x y")
    case True
    have "le x z" if "z \<in> set xs \<union> set (y # ys)" for z
      using that True trans [of x y z] "3.prems"(2,3) by auto
    then show ?thesis using 3 True by (simp add: set_merge_runs)
  next
    case False
    then have "le y z" if "z \<in> set (x # xs) \<union> set ys" for z
      using that total trans [of y x z] "3.prems"(2,3) by auto
    then show ?thesis using 3 False by (simp add: set_merge_runs)
  qed
qed simp_all

text \<open>Elements that compare as equal keep their order: stability.\<close>

lemma filter_merge_runs:
  "preorder_on_list le \<Longrightarrow> \<forall>y z. P y \<longrightarrow> P z \<longrightarrow> le y z \<Longrightarrow> sorted_wrt le xs \<Longrightarrow>
    filter P (merge_runs le xs ys) = filter P xs @ filter P ys"
proof (induction le xs ys rule: merge_runs.induct)
  case (3 le x xs y ys)
  show ?case
  proof (cases "le x y")
    case False
    have "filter P (x # xs) = []" if "P y"
    proof -
      have "\<not> P z" if z: "z \<in> set (x # xs)" for z
      proof
        assume "P z"
        then have "le z y" using \<open>P y\<close> "3.prems"(2) by blast
        moreover have "z = x \<or> le x z" using z "3.prems"(3) by auto
        ultimately have "le x y" using "3.prems"(1) unfolding preorder_on_list_def by blast
        then show False using False by simp
      qed
      then show ?thesis by (simp add: filter_empty_conv)
    qed
    then show ?thesis using 3 False by auto
  qed (use 3 in auto)
qed simp_all

lemma split_two: "take k xs @ take k (drop k xs) @ drop (2 * k) xs = xs"
proof -
  have "drop (2 * k) xs = drop k (drop k xs)" by (simp add: mult_2)
  then show ?thesis by (simp only: append_take_drop_id)
qed

lemma mset_merge_pass: "0 < k \<Longrightarrow> mset (merge_pass le k xs) = mset xs"
proof (induction le k xs rule: merge_pass.induct)
  case (1 le k xs)
  have "mset (take k xs) + mset (take k (drop k xs)) + mset (drop (2 * k) xs) = mset xs"
    using arg_cong [OF split_two [of k xs], of mset] by (simp add: add.assoc)
  then show ?case using 1 by (subst merge_pass.simps) (simp add: mset_merge_runs)
qed

lemma set_merge_pass: "0 < k \<Longrightarrow> set (merge_pass le k xs) = set xs"
  by (metis mset_merge_pass set_mset_mset)

lemma length_merge_pass: "0 < k \<Longrightarrow> length (merge_pass le k xs) = length xs"
  by (metis mset_merge_pass size_mset)

lemma runs_sorted_unfold:
  "runs_sorted le k xs \<longleftrightarrow> sorted_wrt le (take k xs) \<and> runs_sorted le k (drop k xs)"
proof
  assume r: "runs_sorted le k xs"
  have "sorted_wrt le (take k (drop (i * k) (drop k xs)))" for i
    using r [unfolded runs_sorted_def, rule_format, of "Suc i"] by (simp add: add.commute)
  moreover have "sorted_wrt le (take k xs)" using r [unfolded runs_sorted_def, rule_format, of 0] by simp
  ultimately show "sorted_wrt le (take k xs) \<and> runs_sorted le k (drop k xs)" by (simp add: runs_sorted_def)
next
  assume r: "sorted_wrt le (take k xs) \<and> runs_sorted le k (drop k xs)"
  show "runs_sorted le k xs"
    unfolding runs_sorted_def
  proof
    fix i
    show "sorted_wrt le (take k (drop (i * k) xs))"
      using r by (cases i) (simp_all add: runs_sorted_def add.commute)
  qed
qed

lemma runs_sorted_two:
  "runs_sorted le k xs \<Longrightarrow> sorted_wrt le (take k xs) \<and> sorted_wrt le (take k (drop k xs)) \<and> runs_sorted le k (drop (2 * k) xs)"
  using runs_sorted_unfold [of le k xs] runs_sorted_unfold [of le k "drop k xs"] by (simp add: mult_2 add.commute)

lemma runs_sorted_merge_pass:
  "preorder_on_list le \<Longrightarrow> 0 < k \<Longrightarrow> runs_sorted le k xs \<Longrightarrow> runs_sorted le (2 * k) (merge_pass le k xs)"
proof (induction le k xs rule: merge_pass.induct)
  case (1 le k xs)
  show ?case
  proof (cases "xs = []")
    case True
    then show ?thesis by (subst merge_pass.simps) (simp add: runs_sorted_def)
  next
    case False
    let ?m = "merge_runs le (take k xs) (take k (drop k xs))" and ?r = "merge_pass le k (drop (2 * k) xs)"
    note R = runs_sorted_two [OF "1.prems"(3)]
    have len: "length ?m = min (2 * k) (length xs)" by (simp add: length_merge_runs)
    have rest: "?r = []" if "length ?m < 2 * k"
      using that len by (subst merge_pass.simps) simp
    have pass: "merge_pass le k xs = ?m @ ?r" using False "1.prems"(2) by (subst merge_pass.simps) simp
    have "take (2 * k) (merge_pass le k xs) = ?m" "drop (2 * k) (merge_pass le k xs) = ?r"
      using rest len by (cases "length ?m < 2 * k"; simp add: pass)+
    moreover have "sorted_wrt le ?m" using R by (intro sorted_merge_runs [OF "1.prems"(1)]) auto
    moreover have "runs_sorted le (2 * k) ?r" using 1 False R by simp
    ultimately show ?thesis by (subst runs_sorted_unfold) simp
  qed
qed

lemma filter_merge_pass:
  "preorder_on_list le \<Longrightarrow> \<forall>y z. P y \<longrightarrow> P z \<longrightarrow> le y z \<Longrightarrow> 0 < k \<Longrightarrow> runs_sorted le k xs \<Longrightarrow>
    filter P (merge_pass le k xs) = filter P xs"
proof (induction le k xs rule: merge_pass.induct)
  case (1 le k xs)
  note R = runs_sorted_two [OF "1.prems"(4)]
  have "filter P (merge_pass le k xs) = filter P (take k xs) @ filter P (take k (drop k xs)) @ filter P (drop (2 * k) xs)"
    using 1 R filter_merge_runs [OF "1.prems"(1,2)] by (subst merge_pass.simps) simp
  also have "\<dots> = filter P xs" using arg_cong [OF split_two [of k xs], of "filter P"] by simp
  finally show ?case .
qed

text \<open>The number of merges of a pass.\<close>

definition merges :: "nat \<Rightarrow> nat \<Rightarrow> nat" where
  "merges k n = (n + 2 * k - 1) div (2 * k)"

lemma merges_step: "0 < k \<Longrightarrow> 0 < n \<Longrightarrow> merges k n = Suc (merges k (n - 2 * k))"
proof -
  assume k: "0 < k" "0 < n"
  show ?thesis
  proof (cases "n \<le> 2 * k")
    case True
    have eq: "n + 2 * k - 1 = (n - 1) + 2 * k" "n - 1 < 2 * k" using True k by simp_all
    have "merges k n = ((n - 1) + 2 * k) div (2 * k)" by (simp only: merges_def eq(1))
    also have "\<dots> = (n - 1) div (2 * k) + 1" using k by (intro div_add_self2) simp
    finally have "merges k n = (n - 1) div (2 * k) + 1" .
    then show ?thesis using True k eq(2) by (simp add: merges_def)
  next
    case False
    then have "n + 2 * k - 1 = (n - 2 * k + 2 * k - 1) + 2 * k" by simp
    then have "merges k n = ((n - 2 * k + 2 * k - 1) + 2 * k) div (2 * k)" by (simp only: merges_def)
    also have "\<dots> = (n - 2 * k + 2 * k - 1) div (2 * k) + 1" using k by (intro div_add_self2) simp
    finally show ?thesis by (simp add: merges_def)
  qed
qed

lemma merges_0 [simp]: "0 < k \<Longrightarrow> merges k 0 = 0"
  by (simp add: merges_def)

lemma merges_le_1: "0 < k \<Longrightarrow> merges k n \<le> 1 \<longleftrightarrow> n \<le> 2 * k"
proof -
  assume k: "0 < k"
  have "merges k n \<le> 1 \<longleftrightarrow> n + 2 * k - 1 < 2 * (2 * k)"
    using k by (simp add: merges_def less_Suc_eq_le [symmetric] div_less_iff_less_mult)
  then show ?thesis using k by auto
qed


section \<open>The links\<close>

text \<open>Two states whose elements differ in their links in the list of the application only, and those only for elements of \<open>P\<close>.\<close>

definition relinked :: "('k, 'v) ut \<Rightarrow> ('k, 'v) ut \<Rightarrow> ptr set \<Rightarrow> bool" where
  "relinked s s' P \<longleftrightarrow> live s' = live s \<and> head s' = head s \<and> tbl s' = tbl s \<and>
    (\<forall>p. el_key (el s' p) = el_key (el s p) \<and> el_value (el s' p) = el_value (el s p) \<and>
      hh_prev (el s' p) = hh_prev (el s p) \<and> hh_next (el s' p) = hh_next (el s p) \<and>
      hashv (el s' p) = hashv (el s p) \<and> keylen (el s' p) = keylen (el s p)) \<and>
    (\<forall>p. p \<notin> P \<longrightarrow> el s' p = el s p)"

lemma relinked_refl: "relinked s s P"
  by (simp add: relinked_def)

lemma relinked_trans: "relinked s s' P \<Longrightarrow> relinked s' s'' Q \<Longrightarrow> P \<union> Q \<subseteq> R \<Longrightarrow> relinked s s'' R"
  unfolding relinked_def by (simp add: subset_iff) metis

abbreviation content_of :: "('k, 'v) ut \<Rightarrow> ptr \<Rightarrow> 'k \<times> 'v" where
  "content_of s p \<equiv> (el_key (el s p), el_value (el s p))"

lemma relinked_content: "relinked s s' P \<Longrightarrow> content_of s' p = content_of s p"
  by (simp add: relinked_def)

text \<open>The list \<open>xs\<close> that has been built so far; the next pointer of its last element is not yet set.\<close>

abbreviation built :: "('k, 'v) ut \<Rightarrow> ptr list \<Rightarrow> bool" where
  "built s xs \<equiv> \<exists>z. lseg (\<lambda>p. app_next (el s p)) (\<lambda>p. app_prev (el s p)) 0 xs z"

abbreviation remaining :: "('k, 'v) ut \<Rightarrow> ptr list \<Rightarrow> ptr \<Rightarrow> bool" where
  "remaining s xs z \<equiv> nseg (\<lambda>p. app_next (el s p)) xs z"

lemma srt_link_result:
  assumes out: "built s out" "distinct (out @ [e])" "set (out @ [e]) \<subseteq> live s" "e \<noteq> 0"
  shows "\<exists>s'. srt_link s (hd_or out 0) (last_or out 0) e = Inr (s', hd_or (out @ [e]) 0) \<and>
    built s' (out @ [e]) \<and> relinked s s' (insert e (set out)) \<and> app_next (el s' e) = app_next (el s e)"
proof (cases out rule: rev_cases)
  case Nil
  define s' where "s' = s\<lparr>store := (store s)(e \<mapsto> (el s e)\<lparr>app_prev := 0\<rparr>)\<rparr>"
  have el': "el s' p = (if p = e then (el s e)\<lparr>app_prev := 0\<rparr> else el s p)" for p by (simp add: s'_def el_def)
  have "live s' = live s" "head s' = head s" "tbl s' = tbl s" using out(3) by (auto simp: s'_def)
  then have "relinked s s' (insert e (set out))" by (simp add: relinked_def el')
  moreover have "srt_link s (hd_or out 0) (last_or out 0) e = Inr (s', hd_or (out @ [e]) 0)"
    using Nil out(3,4) by (simp add: srt_link_def modify_live s'_def)
  ultimately show ?thesis using Nil out(4) by (auto simp: el')
next
  case (snoc ys y)
  define s' where "s' = s\<lparr>store := (store s)(y \<mapsto> (el s y)\<lparr>app_next := e\<rparr>, e \<mapsto> (el s e)\<lparr>app_prev := y\<rparr>)\<rparr>"
  have ye: "y \<noteq> e" "y \<noteq> 0" "y \<in> live s" "e \<in> live s" using out snoc lseg_zero by (auto simp: lseg_append)
  have el': "el s' p = (if p = e then (el s e)\<lparr>app_prev := y\<rparr> else if p = y then (el s y)\<lparr>app_next := e\<rparr> else el s p)" for p
    by (simp add: s'_def el_def)
  have "live s' = live s" "head s' = head s" "tbl s' = tbl s" using ye by (auto simp: s'_def)
  then have "relinked s s' (insert e (set out))" using snoc by (simp add: relinked_def el')
  moreover have "srt_link s (hd_or out 0) (last_or out 0) e = Inr (s', hd_or (out @ [e]) 0)"
    using ye out(4) by (simp add: srt_link_def modify_live s'_def snoc last_or_append hd_or_append el_def)
  moreover have "built s' (out @ [e])"
  proof -
    obtain z where z: "lseg (\<lambda>p. app_next (el s p)) (\<lambda>p. app_prev (el s p)) 0 (ys @ [y]) z" using out(1) snoc by blast
    have "lseg (\<lambda>p. app_next (el s' p)) (\<lambda>p. app_prev (el s' p)) 0 ys y = lseg (\<lambda>p. app_next (el s p)) (\<lambda>p. app_prev (el s p)) 0 ys y"
      using out(2) snoc by (intro lseg_cong) (auto simp: el')
    then show ?thesis using z ye out(2,4) by (auto simp: snoc lseg_append el' last_or_def)
  qed
  ultimately show ?thesis using ye by (auto simp: el')
qed


lemma next_of_live: "p \<in> live s \<Longrightarrow> next_of s p = Inr (app_next (el s p))"
  by (simp add: next_of_def load_live)

lemma srt_pick_result:
  assumes "distinct (ps @ rs)" "set (ps @ rs) \<subseteq> live s" "remaining s ps z" "remaining s rs 0" "hd_or ps p = p"
    and le: "\<And>a b. le a b \<longleftrightarrow> cmp (content_of s a) (content_of s b) \<le> 0"
    and more: "ps \<noteq> [] \<or> qsize \<noteq> 0 \<and> rs \<noteq> []"
  shows "\<exists>e p' ps' rs' qsize'. srt_pick cmp s p (length ps) (hd_or rs 0) qsize = Inr (e, p', length ps', hd_or rs' 0, qsize') \<and>
    e \<noteq> 0 \<and> insert e (set (ps' @ rs')) = set (ps @ rs) \<and> e \<notin> set (ps' @ rs') \<and> distinct (ps' @ rs') \<and>
    remaining s ps' z \<and> remaining s rs' 0 \<and> hd_or ps' p' = p' \<and> length ps' + qsize' < length ps + qsize \<and>
    merge_runs le ps (take qsize rs) = e # merge_runs le ps' (take qsize' rs') \<and> drop qsize rs = drop qsize' rs'"
proof -
  have first: ?thesis
    if "ps = x # xs" "srt_pick cmp s p (length ps) (hd_or rs 0) qsize =
        bnd (if p \<noteq> 0 then next_of s p else Inr p) (\<lambda>p'. Inr (p, p', length ps - 1, hd_or rs 0, qsize))"
      "merge_runs le ps (take qsize rs) = x # merge_runs le xs (take qsize rs)" for x xs
  proof -
    have x: "p = x" "x \<in> live s" "x \<noteq> 0" "app_next (el s x) = hd_or xs z" using assms(2,3,5) that(1) by auto
    have "srt_pick cmp s p (length ps) (hd_or rs 0) qsize = Inr (x, hd_or xs z, length xs, hd_or rs 0, qsize)"
      using x that(1,2) by (simp add: next_of_live)
    moreover have "hd_or xs (hd_or xs z) = hd_or xs z" by (cases xs) simp_all
    ultimately show ?thesis
      by (intro exI [of _ x] exI [of _ "hd_or xs z"] exI [of _ xs] exI [of _ rs] exI [of _ qsize])
        (use assms that(1,3) x(3) in simp)
  qed
  have second: ?thesis
    if "rs = y # ys" "qsize = Suc q'" "srt_pick cmp s p (length ps) (hd_or rs 0) qsize =
        bnd (next_of s (hd_or rs 0)) (\<lambda>q'. Inr (hd_or rs 0, p, length ps, q', qsize - 1))"
      "merge_runs le ps (take qsize rs) = y # merge_runs le ps (take q' ys)" for y ys q'
  proof -
    have y: "y \<in> live s" "y \<noteq> 0" "app_next (el s y) = hd_or ys 0" using assms(2,4) that(1) by auto
    have "srt_pick cmp s p (length ps) (hd_or rs 0) qsize = Inr (y, p, length ps, hd_or ys 0, q')"
      using y that(1-3) by (simp add: next_of_live)
    then show ?thesis
      by (intro exI [of _ y] exI [of _ p] exI [of _ ps] exI [of _ ys] exI [of _ q'])
        (use assms that(1,2,4) y(2) in simp)
  qed
  have zero: "hd_or rs 0 = 0 \<longleftrightarrow> rs = []" using assms(4) by (cases rs) auto
  show ?thesis
  proof (cases ps)
    case Nil
    then obtain y ys q' where "rs = y # ys" "qsize = Suc q'" using more by (cases rs; cases qsize) auto
    then show ?thesis by (intro second) (simp_all add: Nil srt_pick_def)
  next
    case (Cons x xs)
    show ?thesis
    proof (cases "qsize = 0 \<or> rs = []")
      case True
      then have "take qsize rs = []" by auto
      then show ?thesis using True zero by (intro first [OF Cons]) (auto simp: Cons srt_pick_def)
    next
      case False
      then obtain y ys q' where r: "rs = y # ys" "qsize = Suc q'" by (cases rs; cases qsize) auto
      have px: "p = x" using assms(5) Cons by simp
      have live: "x \<in> live s" "y \<in> live s" "y \<noteq> 0" using assms(2,4) Cons r by auto
      show ?thesis
      proof (cases "le x y")
        case True
        then show ?thesis
          by (intro first [OF Cons]) (use live le [of x y] in \<open>simp_all add: Cons r px srt_pick_def srt_compare_def load_live\<close>)
      next
        case no: False
        then show ?thesis
          by (intro second [OF r]) (use live le [of x y] in \<open>simp_all add: Cons r px srt_pick_def srt_compare_def load_live\<close>)
      qed
    qed
  qed
qed

lemma srt_merge_result:
  assumes "built s out" "distinct (out @ ps @ rs)" "set (out @ ps @ rs) \<subseteq> live s" "remaining s ps z" "remaining s rs 0"
    "hd_or ps p = p" "length ps + qsize < fuel" "\<And>a b. le a b \<longleftrightarrow> cmp (content_of s a) (content_of s b) \<le> 0"
  shows "\<exists>s'. srt_merge fuel cmp s p (length ps) (hd_or rs 0) qsize (hd_or out 0) (last_or out 0) =
      Inr (s', hd_or (drop qsize rs) 0, hd_or (out @ merge_runs le ps (take qsize rs)) 0,
        last_or (out @ merge_runs le ps (take qsize rs)) 0) \<and>
    built s' (out @ merge_runs le ps (take qsize rs)) \<and> relinked s s' (set (out @ merge_runs le ps (take qsize rs)))"
  using assms
proof (induction fuel arbitrary: s out ps rs p qsize)
  case (Suc fuel)
  have zero: "hd_or rs 0 = 0 \<longleftrightarrow> rs = []" using Suc.prems(5) by (cases rs) auto
  show ?case
  proof (cases "ps \<noteq> [] \<or> qsize \<noteq> 0 \<and> rs \<noteq> []")
    case False
    then have "drop qsize rs = rs" "take qsize rs = []" "ps = []" by auto
    then show ?thesis using False zero Suc.prems(1) by (auto simp: relinked_refl)
  next
    case True
    have d: "distinct (ps @ rs)" "set (ps @ rs) \<subseteq> live s" using Suc.prems(2,3) by auto
    obtain e p' ps' rs' q' where e: "srt_pick cmp s p (length ps) (hd_or rs 0) qsize = Inr (e, p', length ps', hd_or rs' 0, q')"
      "e \<noteq> 0" "insert e (set (ps' @ rs')) = set (ps @ rs)" "e \<notin> set (ps' @ rs')" "distinct (ps' @ rs')"
      "remaining s ps' z" "remaining s rs' 0" "hd_or ps' p' = p'" "length ps' + q' < length ps + qsize"
      "merge_runs le ps (take qsize rs) = e # merge_runs le ps' (take q' rs')" "drop qsize rs = drop q' rs'"
      using srt_pick_result [where le = le and cmp = cmp, OF d Suc.prems(4-6,8) True] by blast
    have "e \<in> set (ps @ rs)" using e(3) by blast
    then have parts: "distinct (out @ [e])" "set (out @ [e]) \<subseteq> live s" using Suc.prems(2,3) by auto
    obtain s1 where s1: "srt_link s (hd_or out 0) (last_or out 0) e = Inr (s1, hd_or (out @ [e]) 0)"
      "built s1 (out @ [e])" "relinked s s1 (insert e (set out))"
      using srt_link_result [OF Suc.prems(1) parts e(2)] by blast
    have disj: "distinct ((out @ [e]) @ ps' @ rs')" using Suc.prems(2) e(3-5) by auto
    have same: "app_next (el s1 x) = app_next (el s x)" if "x \<in> set (ps' @ rs')" for x
      using that s1(3) disj by (auto simp: relinked_def)
    have rem: "remaining s1 ps' z" "remaining s1 rs' 0"
      by (rule iffD2 [OF nseg_cong e(6)], rule same, simp) (rule iffD2 [OF nseg_cong e(7)], rule same, simp)
    have lv: "set ((out @ [e]) @ ps' @ rs') \<subseteq> live s1" using Suc.prems(3) e(3) s1(3) by (auto simp: relinked_def)
    have le1: "le a b \<longleftrightarrow> cmp (content_of s1 a) (content_of s1 b) \<le> 0" for a b
      by (simp only: Suc.prems(8) relinked_content [OF s1(3)])
    have "length ps' + q' < fuel" using e(9) Suc.prems(7) by simp
    from Suc.IH [OF s1(2) disj lv rem e(8) this le1]
    obtain s' where s': "srt_merge fuel cmp s1 p' (length ps') (hd_or rs' 0) q' (hd_or (out @ [e]) 0) e =
        Inr (s', hd_or (drop qsize rs) 0, hd_or (out @ merge_runs le ps (take qsize rs)) 0,
          last_or (out @ merge_runs le ps (take qsize rs)) 0)"
      "built s' (out @ merge_runs le ps (take qsize rs))" "relinked s1 s' (set (out @ merge_runs le ps (take qsize rs)))"
      by (auto simp: e(10,11) last_or_append)
    have "relinked s s' (set (out @ merge_runs le ps (take qsize rs)))"
      by (rule relinked_trans [OF s1(3) s'(3)]) (simp add: e(10))
    then show ?thesis using s' True zero by (auto simp: e(1) s1(1))
  qed
qed simp


lemma srt_run_result:
  "remaining s xs 0 \<Longrightarrow> set xs \<subseteq> live s \<Longrightarrow> xs \<noteq> [] \<Longrightarrow>
    srt_run c s (hd_or xs 0) n = Inr (hd_or (drop c xs) 0, n + min c (length xs))"
proof (induction c arbitrary: xs n)
  case (Suc c)
  obtain x ys where xs: "xs = x # ys" using Suc.prems(3) by (cases xs) auto
  have "hd_or ys 0 = 0 \<longleftrightarrow> ys = []" using Suc.prems(1) xs by (cases ys) auto
  then show ?case using Suc.IH [of ys "n + 1"] Suc.prems by (auto simp: xs next_of_live)
qed simp

lemma nseg_append: "nseg nx (xs @ ys) q \<longleftrightarrow> nseg nx xs (hd_or ys q) \<and> nseg nx ys q"
  by (induction xs) (auto simp: hd_or_append)

lemma srt_pass_result:
  assumes "built s out" "distinct (out @ xs)" "set (out @ xs) \<subseteq> live s" "remaining s xs 0" "0 < k"
    "length xs < fuel" "\<And>a b. le a b \<longleftrightarrow> cmp (content_of s a) (content_of s b) \<le> 0"
  shows "\<exists>s'. srt_pass fuel cmp k s (hd_or xs 0) (hd_or out 0) (last_or out 0) n =
      Inr (s', hd_or (out @ merge_pass le k xs) 0, last_or (out @ merge_pass le k xs) 0, n + merges k (length xs)) \<and>
    built s' (out @ merge_pass le k xs) \<and> relinked s s' (set (out @ xs))"
  using assms(1-4,6,7)
proof (induction fuel arbitrary: s out xs n)
  case (Suc fuel)
  have zero: "hd_or xs 0 = 0 \<longleftrightarrow> xs = []" using Suc.prems(4) by (cases xs) auto
  show ?case
  proof (cases "xs = []")
    case True
    then show ?thesis using Suc.prems(1) assms(5) by (auto simp: relinked_refl merge_pass.simps [of le k "[]"])
  next
    case False
    let ?ps = "take k xs" and ?rs = "drop k xs"
    let ?m = "merge_runs le ?ps (take k ?rs)" and ?rest = "drop (2 * k) xs"
    have split: "xs = ?ps @ ?rs" by simp
    have pz: "remaining s ?ps (hd_or ?rs 0)" "remaining s ?rs 0"
      using Suc.prems(4) nseg_append [of _ ?ps ?rs 0] by simp_all
    have p: "hd_or ?ps (hd_or xs 0) = hd_or xs 0" using False assms(5) by (cases xs; cases k) auto
    have run: "srt_run k s (hd_or xs 0) 0 = Inr (hd_or ?rs 0, length ?ps)"
      using srt_run_result [OF Suc.prems(4) _ False, of k 0] Suc.prems(3) by (simp add: min.commute)
    have "length ?ps + k < length ?ps + k + 1" by simp
    moreover have "distinct (out @ ?ps @ ?rs)" "set (out @ ?ps @ ?rs) \<subseteq> live s" using Suc.prems(2,3) by simp_all
    moreover have dd: "drop k ?rs = ?rest" by (simp add: mult_2)
    ultimately obtain s1 where s1: "srt_merge (length ?ps + k + 1) cmp s (hd_or xs 0) (length ?ps) (hd_or ?rs 0) k (hd_or out 0) (last_or out 0) =
        Inr (s1, hd_or ?rest 0, hd_or (out @ ?m) 0, last_or (out @ ?m) 0)"
      "built s1 (out @ ?m)" "relinked s s1 (set (out @ ?m))"
      using srt_merge_result [where le = le and cmp = cmp and s = s and out = out and ps = ?ps and rs = ?rs and qsize = k
        and fuel = "length ?ps + k + 1", OF Suc.prems(1) _ _ pz p _ Suc.prems(6)] unfolding dd by blast
    have mset: "mset (?m @ ?rest) = mset xs"
      using arg_cong [OF split_two [of k xs], of mset] by (simp add: mset_merge_runs add.assoc)
    then have set_m: "set ?m \<union> set ?rest = set xs" by (metis set_append set_mset_mset)
    have "distinct (?m @ ?rest)" using mset Suc.prems(2) by (metis distinct_append mset_eq_imp_distinct_iff)
    then have d1: "distinct ((out @ ?m) @ ?rest)" using Suc.prems(2) set_m by auto
    have lv: "set ((out @ ?m) @ ?rest) \<subseteq> live s1" using Suc.prems(3) s1(3) set_m by (auto simp: relinked_def)
    have same: "app_next (el s1 x) = app_next (el s x)" if "x \<in> set ?rest" for x
      using that s1(3) d1 by (auto simp: relinked_def)
    have "remaining s ?rest 0"
      using Suc.prems(4) nseg_append [of _ "take (2 * k) xs" ?rest 0] by simp
    then have rem: "remaining s1 ?rest 0" by (rule iffD2 [OF nseg_cong, rotated]) (rule same)
    have le1: "le a b \<longleftrightarrow> cmp (content_of s1 a) (content_of s1 b) \<le> 0" for a b
      by (simp only: Suc.prems(6) relinked_content [OF s1(3)])
    have "length ?rest < fuel" using Suc.prems(5) False assms(5) by (cases xs) auto
    from Suc.IH [OF s1(2) d1 lv rem this le1, of "n + 1"]
    obtain s' where s': "srt_pass fuel cmp k s1 (hd_or ?rest 0) (hd_or (out @ ?m) 0) (last_or (out @ ?m) 0) (n + 1) =
        Inr (s', hd_or (out @ ?m @ merge_pass le k ?rest) 0, last_or (out @ ?m @ merge_pass le k ?rest) 0,
          n + 1 + merges k (length ?rest))"
      "built s' (out @ ?m @ merge_pass le k ?rest)" "relinked s1 s' (set ((out @ ?m) @ ?rest))"
      by auto
    have pass: "merge_pass le k xs = ?m @ merge_pass le k ?rest" using False assms(5) by (subst merge_pass.simps) simp
    have "merges k (length xs) = Suc (merges k (length ?rest))"
      using merges_step [of k "length xs"] assms(5) False by simp
    moreover have "relinked s s' (set (out @ xs))"
      by (rule relinked_trans [OF s1(3) s'(3)]) (use set_m in auto)
    moreover have "srt_pass (Suc fuel) cmp k s (hd_or xs 0) (hd_or out 0) (last_or out 0) n =
        srt_pass fuel cmp k s1 (hd_or ?rest 0) (hd_or (out @ ?m) 0) (last_or (out @ ?m) 0) (n + 1)"
      by (simp only: srt_pass.simps run bnd.simps prod.case s1(1) zero False if_False)
    ultimately show ?thesis using s'(1,2) unfolding pass by (intro exI [of _ s']) simp
  qed
qed simp


text \<open>All rounds: the elements in the order of a stable sort; elements that all compare as equal stay in order.\<close>

definition stably_sorted :: "('a \<Rightarrow> 'a \<Rightarrow> bool) \<Rightarrow> 'a list \<Rightarrow> 'a list \<Rightarrow> bool" where
  "stably_sorted le xs ys \<longleftrightarrow> mset ys = mset xs \<and> sorted_wrt le ys \<and>
    (\<forall>P. (\<forall>y z. P y \<longrightarrow> P z \<longrightarrow> le y z) \<longrightarrow> filter P ys = filter P xs)"

lemma runs_sorted_all: "runs_sorted le k xs \<Longrightarrow> length xs \<le> k \<Longrightarrow> sorted_wrt le xs"
  using runs_sorted_unfold [of le k xs] by simp

lemma srt_rounds_result:
  assumes "lseg (\<lambda>p. app_next (el s p)) (\<lambda>p. app_prev (el s p)) 0 xs 0" "distinct xs" "set xs \<subseteq> live s" "xs \<noteq> []"
    "length xs = n" "n < 2 ^ 32" "0 < fuel \<and> n \<le> 2 ^ fuel * k" "0 < k" "k < 2 ^ 32" "tbl s = Some t"
    "preorder_on_list le" "runs_sorted le k xs" "\<And>a b. le a b \<longleftrightarrow> cmp (content_of s a) (content_of s b) \<le> 0"
  shows "\<exists>s' ys. srt_rounds fuel n cmp k s (hd_or xs 0) =
      Inr (s'\<lparr>tbl := Some (t\<lparr>tail := last ys\<rparr>), head := hd_or ys 0\<rparr>) \<and> stably_sorted le xs ys \<and>
    lseg (\<lambda>p. app_next (el s' p)) (\<lambda>p. app_prev (el s' p)) 0 ys 0 \<and> relinked s s' (set xs)"
  using assms(1-5,7-10,12,13)
proof (induction fuel arbitrary: s xs k)
  case (Suc fuel)
  let ?ys = "merge_pass le k xs"
  have rem: "remaining s xs 0" using lseg_nseg [OF Suc.prems(1)] .
  obtain s1 z where s1: "srt_pass (n + 1) cmp k s (hd_or xs 0) 0 0 0 = Inr (s1, hd_or ?ys 0, last_or ?ys 0, merges k n)"
    "lseg (\<lambda>p. app_next (el s1 p)) (\<lambda>p. app_prev (el s1 p)) 0 ?ys z" "relinked s s1 (set xs)"
    using srt_pass_result [where le = le and out = "[]" and n = 0 and fuel = "n + 1", OF _ _ _ rem Suc.prems(7) _ Suc.prems(11)] Suc.prems(2,3,5)
    by auto
  have mset: "mset ?ys = mset xs" by (rule mset_merge_pass [OF Suc.prems(7)])
  have "length ?ys = n" using mset_eq_length [OF mset] Suc.prems(5) by simp
  moreover from this have "?ys \<noteq> []" using Suc.prems(4,5) by auto
  ultimately have ys: "?ys \<noteq> []" "set ?ys = set xs" "distinct ?ys" "length ?ys = n"
    using mset_eq_setD [OF mset] mset_eq_imp_distinct_iff [OF mset] Suc.prems(2) by simp_all
  define l where "l = last ?ys"
  have l: "last_or ?ys 0 = l" "l \<in> set xs" "l \<in> live s1" "l \<noteq> 0"
    using ys Suc.prems(3) s1(3) last_in_set [OF ys(1)] lseg_zero [OF s1(2)]
    by (auto simp: l_def last_or_def relinked_def) (metis neq0_conv)
  define s2 where "s2 = s1\<lparr>store := (store s1)(l \<mapsto> (el s1 l)\<lparr>app_next := 0\<rparr>)\<rparr>"
  have el2: "el s2 p = (if p = l then (el s1 l)\<lparr>app_next := 0\<rparr> else el s1 p)" for p by (simp add: s2_def el_def)
  have s2: "live s2 = live s1" "head s2 = head s1" "tbl s2 = tbl s1" using l(3) by (auto simp: s2_def)
  have re: "relinked s s2 (set xs)" using s1(3) l(2) by (simp add: relinked_def el2 s2)
  have seg: "lseg (\<lambda>p. app_next (el s2 p)) (\<lambda>p. app_prev (el s2 p)) 0 ?ys 0"
  proof -
    obtain us where us: "?ys = us @ [l]" using ys(1) by (metis append_butlast_last_id l_def)
    have "lseg (\<lambda>p. app_next (el s2 p)) (\<lambda>p. app_prev (el s2 p)) 0 us l =
        lseg (\<lambda>p. app_next (el s1 p)) (\<lambda>p. app_prev (el s1 p)) 0 us l"
      using ys(3) us by (intro lseg_cong) (auto simp: el2)
    then show ?thesis using s1(2) by (simp add: us lseg_append el2)
  qed
  have stable: "filter P ?ys = filter P xs" if "\<forall>y z. P y \<longrightarrow> P z \<longrightarrow> le y z" for P
    using filter_merge_pass [OF assms(11) that Suc.prems(7,10)] .
  have runs: "runs_sorted le (2 * k) ?ys" by (rule runs_sorted_merge_pass [OF assms(11) Suc.prems(7,10)])
  have step: "srt_rounds (Suc fuel) n cmp k s (hd_or xs 0) =
      (if n \<le> 2 * k then bnd (load_tbl s2) (\<lambda>t. Inr (s2\<lparr>tbl := Some (t\<lparr>tail := l\<rparr>), head := hd_or ?ys 0\<rparr>))
       else srt_rounds fuel n cmp (wrap32 (k * 2)) s2 (hd_or ?ys 0))"
  proof -
    have m: "modify s1 l (\<lambda>x. x\<lparr>app_next := 0\<rparr>) = Inr s2" by (simp only: modify_live [OF l(3)] s2_def)
    have "srt_rounds (Suc fuel) n cmp k s (hd_or xs 0) =
        bnd (if l \<noteq> 0 then modify s1 l (\<lambda>x. x\<lparr>app_next := 0\<rparr>) else Inr s1) (\<lambda>s.
          if merges k n \<le> 1 then bnd (load_tbl s) (\<lambda>t. Inr (s\<lparr>tbl := Some (t\<lparr>tail := l\<rparr>), head := hd_or ?ys 0\<rparr>))
          else srt_rounds fuel n cmp (wrap32 (k * 2)) s (hd_or ?ys 0))"
      by (simp only: srt_rounds.simps s1(1) bnd.simps prod.case l(1))
    then show ?thesis by (simp only: l(4) not_False_eq_True if_True m bnd.simps merges_le_1 [OF Suc.prems(7)])
  qed
  show ?case
  proof (cases "n \<le> 2 * k")
    case True
    have "sorted_wrt le ?ys" by (rule runs_sorted_all [OF runs]) (simp add: ys(4) True)
    then have "stably_sorted le xs ?ys" using mset stable by (simp add: stably_sorted_def)
    moreover have "tbl s2 = Some t" using re Suc.prems(9) by (simp add: relinked_def)
    ultimately show ?thesis
      using seg re True by (intro exI [of _ s2] exI [of _ ?ys]) (simp add: step load_tbl_def l_def del: srt_rounds.simps)
  next
    case False
    then have w: "wrap32 (k * 2) = 2 * k" "2 * k < 2 ^ 32" using assms(6) by (simp_all add: mult.commute)
    have "2 * k < 2 ^ Suc fuel * k" using False Suc.prems(6) by linarith
    then have fuel: "0 < fuel \<and> n \<le> 2 ^ fuel * (2 * k)" using Suc.prems(6) by (cases fuel) (auto simp: algebra_simps)
    have le2: "le a b \<longleftrightarrow> cmp (content_of s2 a) (content_of s2 b) \<le> 0" for a b
      by (simp only: Suc.prems(11) relinked_content [OF re])
    have lv: "set ?ys \<subseteq> live s2" using ys(2) Suc.prems(3) re by (auto simp: relinked_def)
    have t2: "tbl s2 = Some t" using re Suc.prems(9) by (simp add: relinked_def)
    have k2: "0 < 2 * k" using Suc.prems(7) by simp
    obtain s' zs where z: "srt_rounds fuel n cmp (2 * k) s2 (hd_or ?ys 0) =
        Inr (s'\<lparr>tbl := Some (t\<lparr>tail := last zs\<rparr>), head := hd_or zs 0\<rparr>)" "stably_sorted le ?ys zs"
      "lseg (\<lambda>p. app_next (el s' p)) (\<lambda>p. app_prev (el s' p)) 0 zs 0" "relinked s2 s' (set ?ys)"
      using Suc.IH [OF seg ys(3) lv ys(1,4) fuel k2 w(2) t2 runs le2] by blast
    have "stably_sorted le xs zs" using z(2) mset stable by (simp add: stably_sorted_def)
    moreover have "relinked s s' (set xs)" by (rule relinked_trans [OF re z(4)]) (simp add: ys(2))
    ultimately show ?thesis using z(1,3) False by (intro exI [of _ s'] exI [of _ zs]) (simp add: step w(1) del: srt_rounds.simps)
  qed
qed simp


lemma hash_srt_result:
  assumes inv: "ut_inv hf klen s xs" and pre: "preorder_on_list (\<lambda>a b. cmp a b \<le> 0)"
  defines "le \<equiv> \<lambda>a b. cmp (content_of s a) (content_of s b) \<le> 0"
  shows "\<exists>s' ys. HASH_SRT cmp s = Inr s' \<and> ut_inv hf klen s' ys \<and> stably_sorted le xs ys \<and>
    (\<forall>p. content_of s' p = content_of s p)"
proof (cases "xs = []")
  case True
  then show ?thesis
    using inv ut_inv_head [OF inv] by (intro exI [of _ s] exI [of _ xs]) (simp add: HASH_SRT_def stably_sorted_def)
next
  case False
  note I = inv [unfolded ut_inv_def app_ok_def]
  obtain t where t: "tbl s = Some t" "ut_table_ok s xs t" using I False by (auto split: option.splits)
  have n: "num_items t = length xs" using t(2) by (auto simp: ut_table_ok_def)
  have lele: "preorder_on_list le" using pre unfolding preorder_on_list_def le_def by blast
  have runs: "runs_sorted le 1 xs"
  proof -
    have "sorted_wrt le (take 1 zs)" for zs :: "ptr list" by (cases zs) simp_all
    then show ?thesis by (simp add: runs_sorted_def)
  qed
  have len: "length xs < 2 ^ 32" using I by simp
  have "\<exists>s' ys. srt_rounds 32 (length xs) cmp 1 s (hd_or xs 0) =
      Inr (s'\<lparr>tbl := Some (t\<lparr>tail := last ys\<rparr>), head := hd_or ys 0\<rparr>) \<and> stably_sorted le xs ys \<and>
    lseg (\<lambda>p. app_next (el s' p)) (\<lambda>p. app_prev (el s' p)) 0 ys 0 \<and> relinked s s' (set xs)"
    by (rule srt_rounds_result [OF _ _ _ False refl len _ _ _ t(1) lele runs]) (use I len in \<open>simp_all add: le_def\<close>)
  then obtain s' ys where s': "srt_rounds 32 (length xs) cmp 1 s (hd_or xs 0) =
      Inr (s'\<lparr>tbl := Some (t\<lparr>tail := last ys\<rparr>), head := hd_or ys 0\<rparr>)" "stably_sorted le xs ys"
    "lseg (\<lambda>p. app_next (el s' p)) (\<lambda>p. app_prev (el s' p)) 0 ys 0" "relinked s s' (set xs)" by blast
  let ?s = "s'\<lparr>tbl := Some (t\<lparr>tail := last ys\<rparr>), head := hd_or ys 0\<rparr>"
  have m: "mset ys = mset xs" using s'(2) by (simp add: stably_sorted_def)
  have ys: "set ys = set xs" "length ys = length xs" "distinct ys" "ys \<noteq> []"
    using mset_eq_setD [OF m] mset_eq_length [OF m] mset_eq_imp_distinct_iff [OF m] I False by auto
  have el': "el ?s p = el s' p" for p by simp
  have "head s \<noteq> 0" using ut_inv_head [OF inv] False by simp
  moreover have "head s = hd_or xs 0" using I by simp
  ultimately have "HASH_SRT cmp s = Inr ?s" by (simp add: HASH_SRT_def load_tbl_def t(1) n s'(1) del: One_nat_def)
  moreover have "ut_inv hf klen ?s ys"
  proof -
    have "ut_table_ok ?s ys (t\<lparr>tail := last ys\<rparr>)"
    proof -
      obtain k ch where k: "k \<le> 31" "num_buckets t = 2 ^ k" "log2_num_buckets t = k" "chains_ok s k (buckets t) ch (set xs)"
        using t(2) by (auto simp: ut_table_ok_def)
      have "chains_ok ?s k (buckets t) ch (set xs)"
        by (rule chains_ok_cong [OF k(4)]) (use s'(4) in \<open>simp add: relinked_def\<close>)
      then show ?thesis using k n ys by (auto simp: ut_table_ok_def)
    qed
    moreover have "keys_ok hf klen ?s ys" using I s'(4) ys(1) by (simp add: keys_ok_def relinked_def)
    ultimately show ?thesis using I s'(3,4) ys len by (simp add: ut_inv_def app_ok_def relinked_def)
  qed
  moreover have "content_of ?s p = content_of s p" for p using s'(4) by (simp add: relinked_def)
  ultimately show ?thesis using s'(2) by blast
qed


text \<open>The entries in the order of the list.\<close>

definition ut_entries :: "('k, 'v) ut \<Rightarrow> ('k \<times> 'v) list" where
  "ut_entries s = map (content_of s) (ut_elems s)"

lemma stably_sorted_map:
  assumes "stably_sorted (\<lambda>a b. le (f a) (f b)) xs ys"
  shows "stably_sorted le (map f xs) (map f ys)"
  using assms by (auto simp: stably_sorted_def sorted_wrt_map filter_map comp_def)

lemma ut_content_entries: "ut_inv hf klen s xs \<Longrightarrow> ut_content s = map_of (ut_entries s)"
  by (simp add: ut_content_def ut_map_def ut_entries_def)

lemma ut_entries_distinct: "ut_inv hf klen s xs \<Longrightarrow> distinct (map fst (ut_entries s))"
proof -
  assume inv: "ut_inv hf klen s xs"
  show ?thesis using inv unfolding ut_entries_def ut_elems_inv [OF inv]
    by (simp add: ut_inv_def app_ok_def keys_ok_def distinct_map comp_def)
qed

lemma ut_content_mset:
  assumes "ut_inv hf klen s xs" "ut_inv hf klen s' ys" "mset (ut_entries s') = mset (ut_entries s)"
  shows "ut_content s' = ut_content s"
  unfolding ut_content_entries [OF assms(1)] ut_content_entries [OF assms(2)]
    map_of_inject_set [OF ut_entries_distinct [OF assms(2)] ut_entries_distinct [OF assms(1)]]
  by (rule mset_eq_setD [OF assms(3)])

lemma ut_keys_entries: "ut_keys s = map fst (ut_entries s)"
  by (simp add: ut_keys_def ut_entries_def)

lemma ut_example_entries: "ut_entries ut_example = [(5, 0), (7, 0)]"
proof -
  obtain v w where vw: "ut_entries ut_example = [(5, v), (7, w)]"
    using ut_example_keys unfolding ut_keys_entries by (auto simp: map_eq_Cons_conv)
  have "map_of (ut_entries ut_example) = [5 \<mapsto> 0, 7 \<mapsto> 0]"
    using ut_content_entries [OF ut_okE [OF ut_example_ok]] ut_example_content by simp
  from fun_cong [OF this, of 5] fun_cong [OF this, of 7] show ?thesis by (simp add: vw)
qed

section \<open>Properties\<close>

text \<open>C29: \<open>HASH_SRT\<close> with a comparison function that is a total preorder ends, follows no bad pointer, leaves the table
  intact, and puts the entries in the order of a stable sort: they are sorted, and entries that compare
  as equal stay in their order.\<close>

theorem uthash_sort_is_stable:
  assumes "ut_ok hk klen s" "preorder_on_list (\<lambda>a b. cmp a b \<le> 0)"
  shows "\<exists>s'. HASH_SRT cmp s = Inr s' \<and> ut_ok hk klen s' \<and> ut_content s' = ut_content s \<and>
    stably_sorted (\<lambda>a b. cmp a b \<le> 0) (ut_entries s) (ut_entries s')"
proof -
  note inv = ut_okE [OF assms(1)]
  obtain s' ys where s': "HASH_SRT cmp s = Inr s'" "ut_inv (ut_hash hk) klen s' ys"
    "stably_sorted (\<lambda>a b. cmp (content_of s a) (content_of s b) \<le> 0) (ut_elems s) ys" "\<forall>p. content_of s' p = content_of s p"
    using hash_srt_result [OF inv assms(2)] by blast
  have ent: "ut_entries s' = map (content_of s) ys" using s'(2,4) by (simp add: ut_entries_def ut_elems_inv)
  have st: "stably_sorted (\<lambda>a b. cmp a b \<le> 0) (ut_entries s) (ut_entries s')"
    unfolding ent unfolding ut_entries_def by (rule stably_sorted_map) (use s'(3) in simp)
  then have "ut_content s' = ut_content s"
    by (intro ut_content_mset [OF inv s'(2)]) (simp add: stably_sorted_def)
  then show ?thesis using s'(1) ut_ok_elems [OF s'(2)] st by blast
qed

text \<open>Keys in descending order.\<close>

theorem uthash_sort_is_stable_witness:
  "\<exists>s'. HASH_SRT (\<lambda>a b. int (unat (fst b)) - int (unat (fst a))) ut_example = Inr s' \<and> ut_entries s' = [(7, 0), (5, 0)]"
proof -
  let ?cmp = "\<lambda>(a :: u32 \<times> u32) b :: u32 \<times> u32. int (unat (fst b)) - int (unat (fst a))"
  have "preorder_on_list (\<lambda>a b. ?cmp a b \<le> 0)" by (auto simp: preorder_on_list_def)
  from uthash_sort_is_stable [OF ut_example_ok this]
  obtain s' where s': "HASH_SRT ?cmp ut_example = Inr s'" "ut_ok hash_key_uint32 4 s'"
    "stably_sorted (\<lambda>a b. ?cmp a b \<le> 0) (ut_entries ut_example) (ut_entries s')" by blast
  have m: "mset (ut_entries s') = {#(5, 0), (7, 0)#}" "sorted_wrt (\<lambda>a b. ?cmp a b \<le> 0) (ut_entries s')"
    using s'(3) by (simp_all add: stably_sorted_def ut_example_entries)
  then obtain x y where xy: "ut_entries s' = [x, y]"
    using mset_eq_length [of "ut_entries s'" "[(5, 0), (7, 0)]"] by (auto simp: length_Suc_conv)
  then have "x = (7, 0) \<and> y = (5, 0)" using m by (auto simp: add_eq_conv_ex)
  then show ?thesis using s'(1) xy by blast
qed

end
