(* ===== verification/Uthash_Ordered.thy ===== *)
theory Uthash_Ordered
  imports Uthash_Sort
begin

text \<open>
  Addition in order and replacement in \<open>src/shims/uthash/uthash.h\<close> (\<open>HASH_ADD_KEYPTR_BYHASHVALUE_INORDER\<close>,
  \<open>HASH_REPLACE_BYHASHVALUE\<close> and its variant in order): where the new element comes to stand, that the hash stays
  intact, and what happens to the element that is replaced. The hash values are computed by the callers.
\<close>

section \<open>Addition in order\<close>

text \<open>
  \<open>HASH_AKBI_INNER_LOOP\<close>: the first element from \<open>it\<close> on that \<open>cmpfcn\<close> puts behind \<open>add\<close>, 0 if there is none.
  The list has \<open>num_items\<close> elements, which gives the fuel.
\<close>

fun akbi_loop :: "nat \<Rightarrow> ('k \<times> 'v \<Rightarrow> 'k \<times> 'v \<Rightarrow> int) \<Rightarrow> ('k, 'v) ut \<Rightarrow> ptr \<Rightarrow> ptr \<Rightarrow> ut_error + ptr" where
  "akbi_loop 0 cmp s it add = Inl Diverges"
| "akbi_loop (Suc fuel) cmp s it add =
    bnd (srt_compare cmp s it add) (\<lambda>c.
      if 0 < c then Inr it
      else bnd (next_of s it) (\<lambda>it. if it = 0 then Inr 0 else akbi_loop fuel cmp s it add))"

definition HASH_ADD_KEYPTR_BYHASHVALUE_INORDER ::
    "('k, 'v) ut_mem \<Rightarrow> ('k \<times> 'v \<Rightarrow> 'k \<times> 'v \<Rightarrow> int) \<Rightarrow> ('k, 'v) ut \<Rightarrow> nat \<Rightarrow> u32 \<Rightarrow> ptr \<Rightarrow> ut_error + ('k, 'v) ut" where
  "HASH_ADD_KEYPTR_BYHASHVALUE_INORDER mem cmp s klen hv add =
    bnd (modify s add (\<lambda>e. e\<lparr>hashv := hv, keylen := klen\<rparr>)) (\<lambda>s.
      bnd (if head s = 0
           then bnd (modify s add (\<lambda>e. e\<lparr>app_next := 0, app_prev := 0\<rparr>)) (\<lambda>s.
                  bnd (HASH_MAKE_TABLE mem s add) (\<lambda>s. Inr (s\<lparr>head := add\<rparr>)))
           else bnd (load_tbl s) (\<lambda>t.
                  bnd (akbi_loop (num_items t) cmp s (head s) add) (\<lambda>it.
                    if it \<noteq> 0
                    then bnd (load s it) (\<lambda>i.
                           bnd (modify s add (\<lambda>e. e\<lparr>app_next := it, app_prev := app_prev i\<rparr>)) (\<lambda>s.
                             bnd (if app_prev i \<noteq> 0 then modify s (app_prev i) (\<lambda>e. e\<lparr>app_next := add\<rparr>)
                                  else Inr (s\<lparr>head := add\<rparr>)) (\<lambda>s.
                               modify s it (\<lambda>e. e\<lparr>app_prev := add\<rparr>))))
                    else HASH_APPEND_LIST s add))) (\<lambda>s.
        HASH_ADD_TO_TABLE mem s hv add))"

section \<open>Replacement\<close>

text \<open>\<open>add\<close> and its key are set by the caller, who also owns the replaced element afterwards (0 if none was).\<close>

definition HASH_REPLACE_BYHASHVALUE ::
    "('k, 'v) ut_mem \<Rightarrow> ('k \<Rightarrow> 'k \<Rightarrow> bool) \<Rightarrow> ('k, 'v) ut \<Rightarrow> nat \<Rightarrow> u32 \<Rightarrow> ptr \<Rightarrow> ut_error + (('k, 'v) ut \<times> ptr)" where
  "HASH_REPLACE_BYHASHVALUE mem cmpr s klen hv add =
    bnd (load s add) (\<lambda>a.
      bnd (HASH_FIND_BYHASHVALUE cmpr s (el_key a) klen hv) (\<lambda>replaced.
        bnd (if replaced \<noteq> 0 then HASH_DELETE_HH s replaced else Inr s) (\<lambda>s.
          bnd (HASH_ADD_KEYPTR_BYHASHVALUE mem s klen hv add) (\<lambda>s. Inr (s, replaced)))))"

definition HASH_REPLACE_BYHASHVALUE_INORDER ::
    "('k, 'v) ut_mem \<Rightarrow> ('k \<Rightarrow> 'k \<Rightarrow> bool) \<Rightarrow> ('k \<times> 'v \<Rightarrow> 'k \<times> 'v \<Rightarrow> int) \<Rightarrow> ('k, 'v) ut \<Rightarrow> nat \<Rightarrow> u32 \<Rightarrow> ptr
    \<Rightarrow> ut_error + (('k, 'v) ut \<times> ptr)" where
  "HASH_REPLACE_BYHASHVALUE_INORDER mem cmpr cmp s klen hv add =
    bnd (load s add) (\<lambda>a.
      bnd (HASH_FIND_BYHASHVALUE cmpr s (el_key a) klen hv) (\<lambda>replaced.
        bnd (if replaced \<noteq> 0 then HASH_DELETE_HH s replaced else Inr s) (\<lambda>s.
          bnd (HASH_ADD_KEYPTR_BYHASHVALUE_INORDER mem cmp s klen hv add) (\<lambda>s. Inr (s, replaced)))))"

section \<open>The place of the new element\<close>

definition inorder :: "('a \<Rightarrow> bool) \<Rightarrow> 'a \<Rightarrow> 'a list \<Rightarrow> 'a list" where
  "inorder P x xs = takeWhile P xs @ x # dropWhile P xs"

lemma set_inorder [simp]: "set (inorder P x xs) = insert x (set xs)"
  by (metis inorder_def set_append list.simps(15) takeWhile_dropWhile_id Un_insert_right)

lemma length_inorder [simp]: "length (inorder P x xs) = length xs + 1"
  by (metis (no_types, lifting) inorder_def length_append length_Cons takeWhile_dropWhile_id add_Suc_right Suc_eq_plus1)

lemma last_inorder: "dropWhile P xs \<noteq> [] \<Longrightarrow> last (inorder P x xs) = last xs"
  by (metis inorder_def last_ConsR last_appendR list.distinct(1) takeWhile_dropWhile_id)

lemma lseg_insert:
  assumes "lseg nx pv 0 (ys @ z # zs) 0" "x \<noteq> 0" "x \<notin> set (ys @ z # zs)" "distinct (ys @ z # zs)"
    and "\<And>y. nx' y = (if y = x then z else if ys \<noteq> [] \<and> y = last ys then x else nx y)"
    and "\<And>y. pv' y = (if y = x then last_or ys 0 else if y = z then x else pv y)"
  shows "lseg nx' pv' 0 (ys @ x # z # zs) 0"
proof -
  have "lseg nx' pv' 0 ys x"
  proof (cases ys rule: rev_cases)
    case (snoc us u)
    have "lseg nx' pv' 0 us u = lseg nx pv 0 us u"
      using assms(3-6) by (intro lseg_cong) (auto simp: snoc)
    then show ?thesis using assms by (auto simp: snoc lseg_append)
  qed simp
  moreover have "lseg nx' pv' z zs 0 = lseg nx pv z zs 0"
    using assms(3-6) by (intro lseg_cong) (cases ys rule: rev_cases, auto)+
  ultimately show ?thesis using assms by (auto simp: lseg_append)
qed

lemma srt_compare_live:
  "p \<in> live s \<Longrightarrow> q \<in> live s \<Longrightarrow> srt_compare cmp s p q = Inr (cmp (content_of s p) (content_of s q))"
  by (simp add: srt_compare_def load_live)

lemma akbi_loop_result:
  assumes "lseg (\<lambda>p. app_next (el s p)) pv q (y # ys) 0" "set (y # ys) \<subseteq> live s" "x \<in> live s" "length (y # ys) \<le> fuel"
  shows "akbi_loop fuel cmp s y x =
    Inr (hd_or (dropWhile (\<lambda>p. cmp (content_of s p) (content_of s x) \<le> 0) (y # ys)) 0)"
  using assms
proof (induction ys arbitrary: y q fuel)
  case Nil
  then show ?case by (cases fuel) (auto simp: srt_compare_live next_of_live)
next
  case (Cons z zs)
  obtain f where f: "fuel = Suc f" using Cons.prems(4) by (cases fuel) auto
  have "akbi_loop f cmp s z x = Inr (hd_or (dropWhile (\<lambda>p. cmp (content_of s p) (content_of s x) \<le> 0) (z # zs)) 0)"
    by (rule Cons.IH [of y]) (use Cons.prems f in auto)
  then show ?case using Cons.prems by (auto simp: f srt_compare_live next_of_live)
qed

lemma inorder_search:
  assumes inv: "ut_linked hf klen s xs" and ne: "xs \<noteq> []" and t: "tbl s = Some t" and x: "x \<notin> set xs" "x \<in> live s"
    and s1: "s1 = s\<lparr>store := (store s)(x \<mapsto> (el s x)\<lparr>hashv := hv, keylen := klen\<rparr>)\<rparr>"
    and P: "P = (\<lambda>p. cmp (content_of s p) (content_of s x) \<le> 0)"
  shows "akbi_loop (num_items t) cmp s1 (head s) x = Inr (hd_or (dropWhile P xs) 0)"
proof -
  note I = inv [unfolded ut_linked_def]
  obtain y ys where xs: "xs = y # ys" using ne by (cases xs) auto
  have e: "el s1 p = (if p = x then (el s x)\<lparr>hashv := hv, keylen := klen\<rparr> else el s p)" for p by (simp add: s1 el_def)
  have c: "content_of s1 p = content_of s p" for p by (simp add: e)
  have "lseg (\<lambda>p. app_next (el s1 p)) (\<lambda>p. app_prev (el s1 p)) 0 xs 0 =
      lseg (\<lambda>p. app_next (el s p)) (\<lambda>p. app_prev (el s p)) 0 xs 0" by (rule lseg_cong) (simp_all add: e)
  then have "lseg (\<lambda>p. app_next (el s1 p)) (\<lambda>p. app_prev (el s1 p)) 0 (y # ys) 0" using I by (simp add: app_ok_def xs)
  moreover have "live s1 = live s" using x(2) by (auto simp: s1)
  moreover have "num_items t = length (y # ys)" "head s = y" using I by (simp_all add: t ut_table_ok_buckets app_ok_def xs)
  ultimately show ?thesis
    using akbi_loop_result [of s1 "\<lambda>p. app_prev (el s1 p)" 0 y ys x "num_items t" cmp] I x(2) by (simp only: c P xs)
qed

text \<open>Addition in order puts the element behind the elements that are at most as great.\<close>

lemma inorder_at_end:
  assumes inv: "ut_linked hf klen s xs" and x: "x \<notin> set xs" "x \<in> live s" and P: "P = (\<lambda>p. cmp (content_of s p) (content_of s x) \<le> 0)"
    and all: "dropWhile P xs = []"
  shows "HASH_ADD_KEYPTR_BYHASHVALUE_INORDER mem cmp s klen hv x = HASH_ADD_KEYPTR_BYHASHVALUE mem s klen hv x"
proof (cases "xs = []")
  case True
  then have "head s = 0" using ut_linked_head [OF inv] by simp
  then show ?thesis
    using x by (simp add: HASH_ADD_KEYPTR_BYHASHVALUE_INORDER_def HASH_ADD_KEYPTR_BYHASHVALUE_def modify_live)
next
  case False
  then obtain t where t: "tbl s = Some t" using inv by (auto simp: ut_linked_def split: option.splits)
  show ?thesis
    using x ut_linked_head [OF inv] False inorder_search [where cmp = cmp and P = P and hv = hv, OF inv False t x refl P] all
    by (simp add: HASH_ADD_KEYPTR_BYHASHVALUE_INORDER_def HASH_ADD_KEYPTR_BYHASHVALUE_def modify_live load_tbl_def t)
qed

lemma hash_add_inorder_linked:
  assumes inv: "ut_linked hf klen s xs" and x: "x \<noteq> 0" "x \<notin> set xs" "x \<in> live s" and hv: "hv = hf (el_key (el s x))"
    and new: "el_key (el s x) \<notin> (\<lambda>p. el_key (el s p)) ` set xs"
    and len: "length xs + 1 < 2 ^ 32" and mem: "ut_mem_ok mem" and P: "P = (\<lambda>p. cmp (content_of s p) (content_of s x) \<le> 0)"
  shows "HASH_ADD_KEYPTR_BYHASHVALUE_INORDER mem cmp s klen hv x = Inl Fatal_OOM \<or>
    (\<exists>s'. HASH_ADD_KEYPTR_BYHASHVALUE_INORDER mem cmp s klen hv x = Inr s' \<and> ut_linked hf klen s' (inorder P x xs) \<and>
      live s' = live s \<and> same_content s s')"
proof (cases "dropWhile P xs")
  case Nil
  then have "inorder P x xs = xs @ [x]" by (metis inorder_def takeWhile_dropWhile_id append_Nil2)
  then show ?thesis using hash_add_linked [OF inv x hv new len mem] inorder_at_end [where cmp = cmp and P = P, OF inv x(2,3) P Nil] by simp
next
  case (Cons z zs)
  note I = inv [unfolded ut_linked_def]
  define ys where "ys = takeWhile P xs"
  have xs: "xs = ys @ z # zs" using Cons by (metis ys_def takeWhile_dropWhile_id)
  then have ne: "xs \<noteq> []" by simp
  have ino: "inorder P x xs = ys @ x # z # zs" by (simp add: inorder_def ys_def Cons)
  obtain t where t: "tbl s = Some t" "ut_table_ok s xs t" using I ne by (auto split: option.splits)
  have seg: "lseg (\<lambda>p. app_next (el s p)) (\<lambda>p. app_prev (el s p)) 0 (ys @ z # zs) 0" and d: "distinct (ys @ z # zs)"
    using I by (simp_all add: app_ok_def xs)
  have z: "z \<noteq> 0" "z \<noteq> x" "z \<in> live s" "app_prev (el s z) = last_or ys 0"
    using I x(2) lseg_at [OF seg] by (auto simp: xs)
  have "\<forall>p \<in> set ys. p \<in> live s \<and> p \<noteq> x \<and> p \<noteq> z \<and> p \<noteq> 0"
    using I x(2) d ut_linked_nonzero [OF inv] unfolding xs by fastforce
  then have y: "ys \<noteq> [] \<Longrightarrow> last ys \<in> live s \<and> last ys \<noteq> x \<and> last ys \<noteq> z \<and> last ys \<noteq> 0" using last_in_set by blast
  define e' where "e' = (el s x)\<lparr>hashv := hv, keylen := klen, app_next := z, app_prev := last_or ys 0\<rparr>"
  define st where "st = (let st = (store s)(x \<mapsto> e')
     in if ys = [] then st else st(last ys \<mapsto> (el s (last ys))\<lparr>app_next := x\<rparr>))"
  define s2 where "s2 = s\<lparr>head := (if ys = [] then x else head s), store := st(z \<mapsto> (el s z)\<lparr>app_prev := x\<rparr>)\<rparr>"
  have el2: "el s2 p = (if p = x then e' else if p = z then (el s z)\<lparr>app_prev := x\<rparr>
      else if ys \<noteq> [] \<and> p = last ys then (el s p)\<lparr>app_next := x\<rparr> else el s p)" for p
    using y z by (auto simp: s2_def st_def Let_def el_def)
  have live2: "live s2 = live s" using y z x by (auto simp: s2_def st_def Let_def)
  have add: "HASH_ADD_KEYPTR_BYHASHVALUE_INORDER mem cmp s klen hv x = HASH_ADD_TO_TABLE mem s2 hv x"
  proof -
    have "last_or ys 0 = 0 \<longleftrightarrow> ys = []" using y by (auto simp: last_or_def)
    moreover have "store s z = Some (el s z)" "store s x = Some (el s x)" using z x(3) by (auto simp: el_def)
    moreover have "ys \<noteq> [] \<Longrightarrow> store s (last ys) = Some (el s (last ys))" using y by (auto simp: el_def)
    ultimately show ?thesis
      using ut_linked_head [OF inv] ne x z y inorder_search [where cmp = cmp and P = P and hv = hv, OF inv ne t(1) x(2,3) refl P] Cons
      by (cases "ys = []") (simp_all add: HASH_ADD_KEYPTR_BYHASHVALUE_INORDER_def load_tbl_def t(1) load_def modify_def
          s2_def st_def Let_def e'_def last_or_def ut_field_order)
  qed
  have "lseg (\<lambda>p. app_next (el s2 p)) (\<lambda>p. app_prev (el s2 p)) 0 (ys @ x # z # zs) 0"
    by (rule lseg_insert [OF seg x(1) _ d]) (use x(2) y z in \<open>auto simp: el2 e'_def xs\<close>)
  moreover have "head s = hd_or (ys @ z # zs) 0" using I by (simp only: app_ok_def xs)
  then have "head s2 = hd_or (ys @ x # z # zs) 0" by (cases ys) (simp_all add: s2_def)
  moreover have "distinct (ys @ x # z # zs)" using x(2) d by (auto simp: xs)
  ultimately have app: "app_ok s2 (inorder P x xs)" by (simp only: ino app_ok_def)
  have keys: "keys_ok hf klen s2 (inorder P x xs)"
    by (rule keys_ok_insert [of hf klen s xs]) (use I x hv new in \<open>auto simp: el2 e'_def\<close>)
  have bok: "ut_buckets_ok s2 (set xs) t"
    by (rule buckets_ok_cong [of s]) (use t x in \<open>auto simp: ut_table_ok_buckets el2\<close>)
  have T: "tbl s2 = Some t" "num_items t = length xs" "tail t = last (inorder P x xs)"
    using t Cons by (simp_all add: s2_def ut_table_ok_buckets last_inorder)
  have "HASH_ADD_TO_TABLE mem s2 hv x = Inl Fatal_OOM \<or> (\<exists>s'. HASH_ADD_TO_TABLE mem s2 hv x = Inr s' \<and>
      ut_linked hf klen s' (inorder P x xs) \<and> live s' = live s2 \<and> same_content s2 s')"
    by (rule add_to_table_result [OF _ bok _ _ _ _ _ x(2,1) _ app keys _ mem])
      (use I len x T in \<open>auto simp: live2 el2 e'_def\<close>)
  moreover have "same_content s s2" by (auto simp: same_content_def el2 e'_def)
  ultimately show ?thesis using add live2 by (auto simp: same_content_def)
qed

text \<open>Replacement first takes the element with the same key out, if there is one.\<close>

lemma remove1_split: "distinct (ys @ r # zs) \<Longrightarrow> remove1 r (ys @ r # zs) = ys @ zs"
  by (simp add: remove1_append)

lemma keys_ok_remove: "keys_ok hf klen s xs \<Longrightarrow> distinct xs \<Longrightarrow> r \<in> set xs \<Longrightarrow>
    el_key (el s r) \<notin> (\<lambda>p. el_key (el s p)) ` set (remove1 r xs)"
  by (auto simp: keys_ok_def inj_on_def)

lemma take_out_result:
  assumes inv: "ut_linked hf klen s xs"
  shows "\<exists>r s'. HASH_FIND_BYHASHVALUE (=) s key klen (hf key) = Inr r \<and>
    (if r \<noteq> 0 then HASH_DELETE_HH s r else Inr s) = Inr s' \<and> live s' = live s \<and> same_content s s' \<and>
    ut_linked hf klen s' (remove1 r xs) \<and> key \<notin> (\<lambda>p. el_key (el s p)) ` set (remove1 r xs) \<and>
    (if r = 0 then ut_map s xs key = None else r \<in> set xs \<and> el_key (el s r) = key)"
proof -
  obtain r where r: "HASH_FIND_BYHASHVALUE (=) s key klen (hf key) = Inr r"
    "if r = 0 then ut_map s xs key = None else r \<in> set xs \<and> el_key (el s r) = key"
    using hash_find_linked [OF inv] by blast
  show ?thesis
  proof (cases "r = 0")
    case True
    then have "remove1 r xs = xs" using ut_linked_nonzero [OF inv] by (simp add: remove1_idem)
    then show ?thesis using r inv True by (simp add: ut_map_None same_content_def)
  next
    case False
    then obtain ys zs where xs: "xs = ys @ r # zs" using r(2) by (auto dest: split_list)
    have d: "distinct xs" "keys_ok hf klen s xs" using inv by (simp_all add: ut_linked_def app_ok_def)
    obtain s' where s': "HASH_DELETE_HH s r = Inr s'" "ut_linked hf klen s' (ys @ zs)" "live s' = live s" "same_content s s'"
      using hash_delete_linked [OF inv [unfolded xs]] by blast
    then show ?thesis
      using r False keys_ok_remove [OF d(2,1), of r] remove1_split [OF d(1) [unfolded xs]]
      by (intro exI [of _ r] exI [of _ s']) (simp add: xs)
  qed
qed

text \<open>\<open>add\<close> stands for either addition; \<open>place\<close> says where it puts the element.\<close>

lemma replace_result:
  assumes inv: "ut_linked hf klen s xs" and x: "x \<noteq> 0" "x \<notin> set xs" "x \<in> live s" and hv: "hv = hf (el_key (el s x))"
    and len: "length xs + 1 < 2 ^ 32"
    and add: "\<And>s' ys. ut_linked hf klen s' ys \<Longrightarrow> x \<notin> set ys \<Longrightarrow> x \<in> live s' \<Longrightarrow> same_content s s' \<Longrightarrow>
      el_key (el s x) \<notin> (\<lambda>p. el_key (el s' p)) ` set ys \<Longrightarrow> length ys + 1 < 2 ^ 32 \<Longrightarrow>
      add s' = Inl Fatal_OOM \<or> (\<exists>s''. add s' = Inr s'' \<and> ut_linked hf klen s'' (place ys) \<and> live s'' = live s' \<and> same_content s' s'')"
  defines "rep \<equiv> bnd (load s x) (\<lambda>a. bnd (HASH_FIND_BYHASHVALUE (=) s (el_key a) klen hv) (\<lambda>replaced.
        bnd (if replaced \<noteq> 0 then HASH_DELETE_HH s replaced else Inr s) (\<lambda>s. bnd (add s) (\<lambda>s. Inr (s, replaced)))))"
  shows "rep = Inl Fatal_OOM \<or> (\<exists>s' r. rep = Inr (s', r) \<and> ut_linked hf klen s' (place (remove1 r xs)) \<and>
    live s' = live s \<and> same_content s s' \<and>
    (if r = 0 then ut_map s xs (el_key (el s x)) = None else r \<in> set xs \<and> el_key (el s r) = el_key (el s x)))"
proof -
  obtain r s1 where R: "HASH_FIND_BYHASHVALUE (=) s (el_key (el s x)) klen hv = Inr r"
    "(if r \<noteq> 0 then HASH_DELETE_HH s r else Inr s) = Inr s1" "live s1 = live s" "same_content s s1"
    "ut_linked hf klen s1 (remove1 r xs)" "el_key (el s x) \<notin> (\<lambda>p. el_key (el s p)) ` set (remove1 r xs)"
    "if r = 0 then ut_map s xs (el_key (el s x)) = None else r \<in> set xs \<and> el_key (el s r) = el_key (el s x)"
    using take_out_result [OF inv, of "el_key (el s x)"] unfolding hv by blast
  have "rep = bnd (add s1) (\<lambda>s. Inr (s, r))" by (simp only: rep_def load_live [OF x(3)] bnd.simps R(1,2))
  moreover have "same_content s s2" if "same_content s1 s2" for s2 using R(4) that by (simp add: same_content_def)
  moreover have "add s1 = Inl Fatal_OOM \<or> (\<exists>s''. add s1 = Inr s'' \<and> ut_linked hf klen s'' (place (remove1 r xs)) \<and>
      live s'' = live s1 \<and> same_content s1 s'')"
  proof (rule add [OF R(5) _ _ R(4)])
    show "x \<notin> set (remove1 r xs)" using x(2) notin_set_remove1 by metis
    show "el_key (el s x) \<notin> (\<lambda>p. el_key (el s1 p)) ` set (remove1 r xs)" using R(4,6) by (simp add: same_content_def)
    have "length (remove1 r xs) \<le> length xs" by (simp add: length_remove1)
    then show "length (remove1 r xs) + 1 < 2 ^ 32" using len by simp
  qed (use x(3) R(3) in simp)
  ultimately show ?thesis using R(3,7) by (elim disjE exE conjE) (simp, fastforce)
qed

lemma hash_replace_linked:
  assumes inv: "ut_linked hf klen s xs" and x: "x \<noteq> 0" "x \<notin> set xs" "x \<in> live s" and hv: "hv = hf (el_key (el s x))"
    and len: "length xs + 1 < 2 ^ 32" and mem: "ut_mem_ok mem"
  shows "HASH_REPLACE_BYHASHVALUE mem (=) s klen hv x = Inl Fatal_OOM \<or>
    (\<exists>s' r. HASH_REPLACE_BYHASHVALUE mem (=) s klen hv x = Inr (s', r) \<and> ut_linked hf klen s' (remove1 r xs @ [x]) \<and>
      live s' = live s \<and> same_content s s' \<and>
      (if r = 0 then ut_map s xs (el_key (el s x)) = None else r \<in> set xs \<and> el_key (el s r) = el_key (el s x)))"
  unfolding HASH_REPLACE_BYHASHVALUE_def
proof (rule replace_result [OF inv x hv len, where place = "\<lambda>ys. ys @ [x]"])
  fix s' ys
  assume "ut_linked hf klen s' ys" "x \<notin> set ys" "x \<in> live s'" "same_content s s'"
    "el_key (el s x) \<notin> (\<lambda>p. el_key (el s' p)) ` set ys" "length ys + 1 < 2 ^ 32"
  then show "HASH_ADD_KEYPTR_BYHASHVALUE mem s' klen hv x = Inl Fatal_OOM \<or>
      (\<exists>s''. HASH_ADD_KEYPTR_BYHASHVALUE mem s' klen hv x = Inr s'' \<and> ut_linked hf klen s'' (ys @ [x]) \<and>
        live s'' = live s' \<and> same_content s' s'')"
    by (intro hash_add_linked [OF _ x(1) _ _ _ _ _ mem]) (simp_all add: same_content_def hv)
qed

lemma hash_replace_inorder_linked:
  assumes inv: "ut_linked hf klen s xs" and x: "x \<noteq> 0" "x \<notin> set xs" "x \<in> live s" and hv: "hv = hf (el_key (el s x))"
    and len: "length xs + 1 < 2 ^ 32" and mem: "ut_mem_ok mem" and P: "P = (\<lambda>p. cmp (content_of s p) (content_of s x) \<le> 0)"
  shows "HASH_REPLACE_BYHASHVALUE_INORDER mem (=) cmp s klen hv x = Inl Fatal_OOM \<or>
    (\<exists>s' r. HASH_REPLACE_BYHASHVALUE_INORDER mem (=) cmp s klen hv x = Inr (s', r) \<and>
      ut_linked hf klen s' (inorder P x (remove1 r xs)) \<and> live s' = live s \<and> same_content s s' \<and>
      (if r = 0 then ut_map s xs (el_key (el s x)) = None else r \<in> set xs \<and> el_key (el s r) = el_key (el s x)))"
  unfolding HASH_REPLACE_BYHASHVALUE_INORDER_def
proof (rule replace_result [OF inv x hv len, where place = "inorder P x"])
  fix s' ys
  assume "ut_linked hf klen s' ys" "x \<notin> set ys" "x \<in> live s'" "same_content s s'"
    "el_key (el s x) \<notin> (\<lambda>p. el_key (el s' p)) ` set ys" "length ys + 1 < 2 ^ 32"
  then show "HASH_ADD_KEYPTR_BYHASHVALUE_INORDER mem cmp s' klen hv x = Inl Fatal_OOM \<or>
      (\<exists>s''. HASH_ADD_KEYPTR_BYHASHVALUE_INORDER mem cmp s' klen hv x = Inr s'' \<and> ut_linked hf klen s'' (inorder P x ys) \<and>
        live s'' = live s' \<and> same_content s' s'')"
    by (intro hash_add_inorder_linked [OF _ x(1) _ _ _ _ _ mem]) (simp_all add: same_content_def hv P)
qed

section \<open>The hash after the addition of an element of the caller\<close>

lemma sorted_wrt_insert:
  "sorted_wrt le (ys @ zs) \<Longrightarrow> \<forall>y \<in> set ys. le y x \<Longrightarrow> \<forall>z \<in> set zs. le x z \<Longrightarrow> sorted_wrt le (ys @ x # zs)"
  by (auto simp: sorted_wrt_append)

lemma stably_sorted_inorder:
  assumes le: "preorder_on_list le" and sorted: "sorted_wrt le xs"
  shows "stably_sorted le (xs @ [x]) (inorder (\<lambda>y. le y x) x xs)"
proof -
  let ?P = "\<lambda>y. le y x"
  let ?t = "takeWhile ?P xs" and ?d = "dropWhile ?P xs"
  have xs: "xs = ?t @ ?d" by simp
  have tot: "\<And>a b. le a b \<or> le b a" and trans: "\<And>a b c. le a b \<Longrightarrow> le b c \<Longrightarrow> le a c"
    using le by (auto simp: preorder_on_list_def)
  have t: "\<forall>y \<in> set ?t. le y x" by (auto dest: set_takeWhileD)
  have d: "\<forall>y \<in> set ?d. \<not> le y x"
  proof (cases ?d)
    case (Cons z zs)
    have z: "\<not> le z x" using hd_dropWhile [of ?P xs] Cons by simp
    have "sorted_wrt le (?t @ ?d)" using sorted by simp
    then have "\<forall>y \<in> set zs. le z y" unfolding Cons by (simp add: sorted_wrt_append)
    then show ?thesis using z trans Cons by auto
  qed (simp only: list.set ball_empty)
  have "\<forall>z \<in> set ?d. le x z" using d tot by blast
  then have s: "sorted_wrt le (?t @ x # ?d)" using sorted t by (intro sorted_wrt_insert) simp_all
  have "mset ?t + mset ?d = mset xs" by (metis mset_append takeWhile_dropWhile_id)
  then have "mset (?t @ x # ?d) = mset (xs @ [x])" by simp
  moreover have "filter Q (?t @ x # ?d) = filter Q (xs @ [x])" if Q: "\<forall>y z. Q y \<longrightarrow> Q z \<longrightarrow> le y z" for Q
  proof -
    have e: "filter Q xs = filter Q ?t @ filter Q ?d" by (metis filter_append takeWhile_dropWhile_id)
    show ?thesis
    proof (cases "Q x")
      case True
      then have "\<not> Q y" if "y \<in> set ?d" for y using Q d that by blast
      then have "filter Q ?d = []" by (simp only: filter_empty_conv) blast
      then show ?thesis using True by (simp add: e)
    qed (simp add: e)
  qed
  ultimately show ?thesis using s by (simp add: stably_sorted_def inorder_def)
qed

lemma map_takeWhile_comp: "takeWhile Q (map f xs) = map f (takeWhile (\<lambda>y. Q (f y)) xs)"
  by (induction xs) simp_all

lemma map_dropWhile_comp: "dropWhile Q (map f xs) = map f (dropWhile (\<lambda>y. Q (f y)) xs)"
  by (induction xs) simp_all

lemma map_inorder: "map f (inorder (\<lambda>y. Q (f y)) x xs) = inorder Q (f x) (map f xs)"
  by (simp add: inorder_def map_takeWhile_comp map_dropWhile_comp)

text \<open>The caller's element is in the store and in no list.\<close>

lemma new_elem_linked:
  assumes ok: "ut_ok hk klen s" and x: "store s x = None" and s1_def: "s1 = s\<lparr>store := (store s)(x \<mapsto> e)\<rparr>"
  shows "ut_linked (ut_hash hk) klen s1 (ut_elems s)" "x \<notin> set (ut_elems s)" "x \<in> live s1" "el s1 x = e"
    "live s1 = insert x (set (ut_elems s))" "\<forall>p \<in> set (ut_elems s). el s1 p = el s p"
proof -
  have inv: "ut_linked (ut_hash hk) klen s (ut_elems s)" "live s = set (ut_elems s)"
    using ok by (simp_all only: ut_ok_def ut_inv_linked)
  show nx: "x \<notin> set (ut_elems s)" using x unfolding inv(2) [symmetric] by (simp add: domIff)
  show live: "live s1 = insert x (set (ut_elems s))" using inv(2) by (simp add: s1_def)
  show e: "\<forall>p \<in> set (ut_elems s). el s1 p = el s p" using nx by (auto simp: s1_def el_def)
  show "ut_linked (ut_hash hk) klen s1 (ut_elems s)"
    by (rule ut_linked_cong [OF inv(1)]) (use e in \<open>simp_all add: live subset_insertI\<close>, simp_all add: s1_def)
  show "x \<in> live s1" "el s1 x = e" by (simp_all add: s1_def)
qed

lemma ut_linked_entries:
  "ut_inv hf klen s xs \<Longrightarrow> ut_entries s = map (content_of s) xs"
  by (simp add: ut_entries_def ut_elems_inv)

lemma ut_linked_ok:
  assumes "ut_linked (ut_hash hk) klen s xs" "live s = set xs"
  shows "ut_inv (ut_hash hk) klen s xs" "ut_ok hk klen s"
  using assms ut_ok_elems [of hk klen s xs] by (simp_all add: ut_inv_linked)

lemma remove1_filter_key:
  "distinct (map f xs) \<Longrightarrow> p \<in> set xs \<Longrightarrow> f p = k \<Longrightarrow> remove1 p xs = filter (\<lambda>q. f q \<noteq> k) xs"
proof (induction xs)
  case (Cons y ys)
  show ?case
  proof (cases "y = p")
    case True
    then have "\<forall>q \<in> set ys. f q \<noteq> k" using Cons.prems by (auto simp: image_iff)
    then show ?thesis using True Cons.prems(3) by simp
  next
    case False
    then have "f y \<noteq> k" using Cons.prems by (auto simp: image_iff)
    then show ?thesis using False Cons by simp
  qed
qed simp

lemma map_of_filter_key: "map_of (filter (\<lambda>q. fst q \<noteq> k) xs) x = (if x = k then None else map_of xs x)"
  by (induction xs) auto

section \<open>Properties\<close>

text \<open>C30: addition in order to a hash whose elements are in order, with any comparison that is a preorder: no
  invalid pointer is followed and the loops end; the call exits for lack of memory or adds the key with its value,
  and the elements are in the order of a stable sort of the old ones followed by the new one.\<close>

theorem uthash_inorder_addition_sorts:
  assumes "ut_ok hk klen s" "card (dom (ut_content s)) < 2 ^ 32 - 1" "ut_mem_ok mem"
    "preorder_on_list (\<lambda>a b. cmp a b \<le> 0)" "sorted_wrt (\<lambda>a b. cmp a b \<le> 0) (ut_entries s)"
    "x \<noteq> 0" "store s x = None" "el_key e \<notin> dom (ut_content s)"
  defines "r \<equiv> HASH_ADD_KEYPTR_BYHASHVALUE_INORDER mem cmp (s\<lparr>store := (store s)(x \<mapsto> e)\<rparr>) klen (ut_hash hk (el_key e)) x"
  shows "r = Inl Fatal_OOM \<or> (\<exists>s'. r = Inr s' \<and> ut_ok hk klen s' \<and>
    ut_content s' = (ut_content s)(el_key e \<mapsto> el_value e) \<and>
    stably_sorted (\<lambda>a b. cmp a b \<le> 0) (ut_entries s @ [(el_key e, el_value e)]) (ut_entries s'))"
proof -
  note inv = ut_okE [OF assms(1)]
  let ?s1 = "s\<lparr>store := (store s)(x \<mapsto> e)\<rparr>" and ?xs = "ut_elems s"
  define P where "P = (\<lambda>p. cmp (content_of ?s1 p) (content_of ?s1 x) \<le> 0)"
  note N = new_elem_linked [OF assms(1,7) refl [of ?s1]]
  have len: "length ?xs + 1 < 2 ^ 32" using assms(2) ut_card [OF inv] by simp
  have old: "map (content_of ?s1) ?xs = ut_entries s" using N(6) by (simp add: ut_entries_def)
  have keys: "(\<lambda>p. el_key (el ?s1 p)) ` set ?xs = dom (ut_content s)"
    unfolding ut_content_entries [OF inv] old [symmetric] by (simp add: dom_map_of_conv_image_fst image_image)
  have "r = Inl Fatal_OOM \<or> (\<exists>s'. r = Inr s' \<and> ut_linked (ut_hash hk) klen s' (inorder P x ?xs) \<and>
      live s' = live ?s1 \<and> same_content ?s1 s')"
    unfolding r_def
    by (rule hash_add_inorder_linked [where P = P and cmp = cmp, OF N(1) assms(6) N(2,3) _ _ len assms(3) P_def]) (simp_all only: N(4) keys assms(8) not_False_eq_True)
  then show ?thesis
  proof (elim disjE exE conjE)
    fix s' assume R: "r = Inr s'" "ut_linked (ut_hash hk) klen s' (inorder P x ?xs)" "live s' = live ?s1" "same_content ?s1 s'"
    note ok = ut_linked_ok [OF R(2)] R(3) N(5)
    have inv': "ut_inv (ut_hash hk) klen s' (inorder P x ?xs)" "ut_ok hk klen s'" using ok by simp_all
    have "ut_entries s' = map (content_of ?s1) (inorder P x ?xs)"
      using R(4) by (simp add: ut_linked_entries [OF inv'(1)] same_content_def)
    also have "\<dots> = inorder (\<lambda>y. cmp y (el_key e, el_value e) \<le> 0) (el_key e, el_value e) (ut_entries s)"
      using map_inorder [where f = "content_of ?s1" and Q = "\<lambda>y. cmp y (el_key e, el_value e) \<le> 0"]
      by (simp only: P_def N(4) old)
    finally have st: "stably_sorted (\<lambda>a b. cmp a b \<le> 0) (ut_entries s @ [(el_key e, el_value e)]) (ut_entries s')"
      using stably_sorted_inorder [OF assms(4,5)] by simp
    then have m: "mset (ut_entries s') = mset ((el_key e, el_value e) # ut_entries s)" by (simp add: stably_sorted_def)
    have "distinct (map fst ((el_key e, el_value e) # ut_entries s))"
      using ut_entries_distinct [OF inv] assms(8) by (simp add: ut_content_entries [OF inv] dom_map_of_conv_image_fst)
    then have "map_of (ut_entries s') = map_of ((el_key e, el_value e) # ut_entries s)"
      using map_of_inject_set [OF ut_entries_distinct [OF inv'(1)]] mset_eq_setD [OF m] by blast
    then show ?thesis
      using R(1) inv'(2) st by (simp add: ut_content_entries [OF inv] ut_content_entries [OF inv'(1)])
  qed simp
qed

lemma ut_example_free: "store ut_example 1000 = None"
  by (simp add: ut_example_def ut_run_simps ut_example_hashes ut_example_buckets Let_def)

text \<open>6 goes between 5 and 7.\<close>

theorem uthash_inorder_addition_sorts_witness:
  "let r = HASH_ADD_KEYPTR_BYHASHVALUE_INORDER ut_ex_mem (\<lambda>a b. int (unat (fst a)) - int (unat (fst b)))
      (ut_example\<lparr>store := (store ut_example)(1000 \<mapsto> (m_junk ut_ex_mem)\<lparr>el_key := 6, el_value := 1\<rparr>)\<rparr>) 4
      (ut_hash hash_key_uint32 6) 1000
   in r = Inl Fatal_OOM \<or> (\<exists>s'. r = Inr s' \<and> ut_entries s' = [(5, 0), (6, 1), (7, 0)])"
proof -
  let ?cmp = "\<lambda>(a :: u32 \<times> u32) b :: u32 \<times> u32. int (unat (fst a)) - int (unat (fst b))"
  have p: "preorder_on_list (\<lambda>a b. ?cmp a b \<le> 0)" by (auto simp: preorder_on_list_def)
  have "stably_sorted (\<lambda>a b. ?cmp a b \<le> 0) ([(5, 0), (7, 0)] @ [(6, 1)]) ys \<Longrightarrow> ys = [(5, 0), (6, 1), (7, 0)]" for ys :: "(u32 \<times> u32) list"
  proof -
    assume st: "stably_sorted (\<lambda>a b. ?cmp a b \<le> 0) ([(5, 0), (7, 0)] @ [(6, 1)]) ys"
    then have m: "mset ys = {#(5, 0), (7, 0), (6, 1)#}" "sorted_wrt (\<lambda>a b. ?cmp a b \<le> 0) ys" by (simp_all add: stably_sorted_def)
    then obtain x y z where "ys = [x, y, z]"
      using mset_eq_length [of ys "[(5, 0), (7, 0), (6, 1)]"] by (auto simp: length_Suc_conv)
    then show ?thesis using m by (auto simp: add_eq_conv_ex)
  qed
  then show ?thesis
    using uthash_inorder_addition_sorts [OF ut_example_ok _ ut_ex_mem_ok p, of 1000 "(m_junk ut_ex_mem)\<lparr>el_key := 6, el_value := 1\<rparr>"]
    by (auto simp: ut_example_content ut_example_entries ut_example_free Let_def)
qed

text \<open>\<open>HASH_REPLACE\<close> with any allocator: no invalid pointer is followed and the loops end; the call exits for
  lack of memory, or it returns the old element of the key, \<open>NULL\<close> when there was none, and once the
  caller has freed that element (\<open>free(NULL)\<close> does nothing) the hash is intact, holds the new value and has
  the key at the end of the order.\<close>

theorem uthash_replace_updates:
  assumes "ut_ok hk klen s" "card (dom (ut_content s)) < 2 ^ 32 - 1" "ut_mem_ok mem" "x \<noteq> 0" "store s x = None" "el_key e = key"
  defines "r \<equiv> HASH_REPLACE_BYHASHVALUE mem (=) (s\<lparr>store := (store s)(x \<mapsto> e)\<rparr>) klen (ut_hash hk key) x"
  shows "r = Inl Fatal_OOM \<or> (\<exists>s' p. r = Inr (s', p) \<and> ut_ok hk klen (free_elem s' p) \<and>
    ut_content s key = (if p = 0 then None else Some (el_value (el s' p))) \<and>
    ut_content (free_elem s' p) = (ut_content s)(key \<mapsto> el_value e) \<and>
    ut_keys (free_elem s' p) = filter (\<lambda>k. k \<noteq> key) (ut_keys s) @ [key])"
proof -
  note inv = ut_okE [OF assms(1)]
  let ?s1 = "s\<lparr>store := (store s)(x \<mapsto> e)\<rparr>" and ?xs = "ut_elems s"
  note N = new_elem_linked [OF assms(1,5) refl [of ?s1]]
  have len: "length ?xs + 1 < 2 ^ 32" using assms(2) ut_card [OF inv] by simp
  have "r = Inl Fatal_OOM \<or> (\<exists>s' p. r = Inr (s', p) \<and> ut_linked (ut_hash hk) klen s' (remove1 p ?xs @ [x]) \<and>
      live s' = live ?s1 \<and> same_content ?s1 s' \<and>
      (if p = 0 then ut_map ?s1 ?xs (el_key (el ?s1 x)) = None else p \<in> set ?xs \<and> el_key (el ?s1 p) = el_key (el ?s1 x)))"
    unfolding r_def by (rule hash_replace_linked [OF N(1) assms(4) N(2,3) _ len assms(3)]) (simp only: N(4) assms(6))
  then show ?thesis
  proof (elim disjE exE conjE)
    fix s' p assume R: "r = Inr (s', p)" "ut_linked (ut_hash hk) klen s' (remove1 p ?xs @ [x])" "live s' = live ?s1" "same_content ?s1 s'"
      "if p = 0 then ut_map ?s1 ?xs (el_key (el ?s1 x)) = None else p \<in> set ?xs \<and> el_key (el ?s1 p) = el_key (el ?s1 x)"
    have nz: "0 \<notin> set ?xs" and d: "distinct ?xs" and dk: "distinct (map (\<lambda>q. el_key (el s q)) ?xs)"
      using ut_inv_nonzero [OF inv] inv by (simp_all add: ut_inv_def app_ok_def keys_ok_def distinct_map)
    let ?s = "free_elem s' p" and ?ys = "remove1 p ?xs @ [x]"
    have px: "p \<noteq> x" using R(5) N(2) assms(4) by (auto split: if_splits)
    have p: "p \<notin> set ?ys" using px d by simp
    have "live ?s = set ?ys" using R(3) px nz d unfolding N(5) by (cases "p = 0") (auto simp: remove1_idem)
    then have inv': "ut_inv (ut_hash hk) klen ?s ?ys" "ut_ok hk klen ?s"
      using ut_linked_ok [OF ut_linked_free [OF R(2) p]] by simp_all
    have els: "q \<in> set ?xs \<Longrightarrow> content_of s' q = content_of s q" "content_of s' x = (key, el_value e)" for q
      using R(4) N(4,6) assms(6) by (simp_all add: same_content_def)
    have rem: "remove1 p ?xs = filter (\<lambda>q. el_key (el s q) \<noteq> key) ?xs"
    proof (cases "p = 0")
      case True
      then have "\<forall>q \<in> set ?xs. el_key (el s q) \<noteq> key" using R(5) N(6) by (auto simp: ut_map_None N(4) assms(6) simp del: el_store)
      then show ?thesis using True nz by (simp add: remove1_idem)
    next
      case False
      then have "p \<in> set ?xs" "el_key (el s p) = key" using R(5) bspec [OF N(6), of p] by (simp_all add: N(4) assms(6) del: el_store)
      then show ?thesis by (rule remove1_filter_key [OF dk])
    qed
    have "ut_entries ?s = map (content_of s') ?ys"
      unfolding ut_linked_entries [OF inv'(1)] using p by (intro map_cong refl) (metis free_elem_simps(4))
    also have "\<dots> = map (content_of s) (remove1 p ?xs) @ [(key, el_value e)]"
      using els set_remove1_subset [of p ?xs] by auto
    also have "\<dots> = filter (\<lambda>q. fst q \<noteq> key) (ut_entries s) @ [(key, el_value e)]"
      by (simp add: rem ut_entries_def filter_map comp_def)
    finally have ent: "ut_entries ?s = filter (\<lambda>q. fst q \<noteq> key) (ut_entries s) @ [(key, el_value e)]" .
    have "ut_content s key = (if p = 0 then None else Some (el_value (el s' p)))"
    proof (cases "p = 0")
      case True
      then have "ut_map ?s1 ?xs key = None" using R(5) by (simp only: N(4) assms(6) if_True)
      then show ?thesis using True N(6) by (auto simp: ut_content_def ut_map_None simp del: el_store)
    next
      case False
      then have "p \<in> set ?xs" "el_key (el s p) = key" using R(5) bspec [OF N(6), of p] by (simp_all add: N(4) assms(6) del: el_store)
      then show ?thesis
        using False ut_map_at [of "ut_hash hk" klen s ?xs p] els(1) [of p] inv by (simp add: ut_content_def ut_inv_def)
    qed
    moreover have "ut_content ?s = (ut_content s)(key \<mapsto> el_value e)"
      by (simp add: ut_content_entries [OF inv] ut_content_entries [OF inv'(1)] ent map_of_filter_key map_add_def fun_eq_iff split: option.splits)
    moreover have "ut_keys ?s = filter (\<lambda>k. k \<noteq> key) (ut_keys s) @ [key]"
      by (simp add: ut_keys_entries ent filter_map comp_def)
    ultimately show ?thesis using R(1) inv'(2) by blast
  qed simp
qed

text \<open>The value of 5 becomes 1; the old element is freed.\<close>

theorem uthash_replace_updates_witness:
  "let r = HASH_REPLACE_BYHASHVALUE ut_ex_mem (=)
      (ut_example\<lparr>store := (store ut_example)(1000 \<mapsto> (m_junk ut_ex_mem)\<lparr>el_key := 5, el_value := 1\<rparr>)\<rparr>) 4
      (ut_hash hash_key_uint32 5) 1000
   in r = Inl Fatal_OOM \<or> (\<exists>s' p. r = Inr (s', p) \<and> p \<noteq> 0 \<and> ut_keys (free_elem s' p) = [7, 5] \<and>
     ut_content (free_elem s' p) = [7 \<mapsto> 0, 5 \<mapsto> 1])"
  using uthash_replace_updates [OF ut_example_ok _ ut_ex_mem_ok, of 1000 "(m_junk ut_ex_mem)\<lparr>el_key := 5, el_value := 1\<rparr>" 5]
  by (auto simp: ut_example_content ut_example_keys ut_example_free Let_def split: if_splits)

end
