(* ===== verification/Uthash_Select.thy ===== *)
theory Uthash_Select
  imports Uthash_Sort
begin

text \<open>
  \<open>HASH_SELECT\<close> of \<open>src/shims/uthash/uthash.h\<close>, which adds the elements of one hash that satisfy a condition to
  another hash, through a second handle in each element. The two handles of the elements are two states here,
  whose stores have the same addresses. It is proved what the destination contains, and that \<open>tail\<close>, which
  \<open>HASH_SELECT\<close> does not move, makes a later addition lose elements.
\<close>

section \<open>Selection\<close>

text \<open>
  One selected element, at address \<open>p\<close> with the handle \<open>e\<close> in the source: its handle in the destination takes the
  key and the hash value over, and is linked behind \<open>lst\<close>, the last element selected so far (0 if none).
\<close>

definition select_elem ::
    "('k, 'v) ut_mem \<Rightarrow> ('k, 'v) ut_elem \<Rightarrow> ptr \<Rightarrow> ('k, 'v) ut \<Rightarrow> ptr \<Rightarrow> ut_error + ('k, 'v) ut" where
  "select_elem mem e p dst lst =
    bnd (modify dst p (\<lambda>d. d\<lparr>el_key := el_key e, keylen := keylen e, hashv := hashv e, app_prev := lst, app_next := 0\<rparr>)) (\<lambda>dst.
      bnd (if lst \<noteq> 0 then modify dst lst (\<lambda>d. d\<lparr>app_next := p\<rparr>) else Inr dst) (\<lambda>dst.
        bnd (if head dst = 0 then HASH_MAKE_TABLE mem (dst\<lparr>head := p\<rparr>) p else Inr dst) (\<lambda>dst.
          bnd (load_tbl dst) (\<lambda>t.
            bnd (HASH_ADD_TO_BKT mem dst (HASH_TO_BKT (hashv e) (num_buckets t)) p) (\<lambda>dst.
              bnd (load_tbl dst) (\<lambda>t.
                Inr (dst\<lparr>tbl := Some (t\<lparr>num_items := wrap32 (num_items t + 1)\<rparr>)\<rparr>)))))))"

text \<open>The loop along a chain of the source, and the loop over its buckets.\<close>

fun select_chain ::
    "nat \<Rightarrow> ('k, 'v) ut_mem \<Rightarrow> ('k \<times> 'v \<Rightarrow> bool) \<Rightarrow> ('k, 'v) ut \<Rightarrow> ptr \<Rightarrow> ('k, 'v) ut \<Rightarrow> ptr \<Rightarrow> ut_error + (('k, 'v) ut \<times> ptr)" where
  "select_chain 0 mem cnd src thh dst lst = Inl Diverges"
| "select_chain (Suc fuel) mem cnd src thh dst lst =
    (if thh = 0 then Inr (dst, lst)
     else bnd (load src thh) (\<lambda>e.
       if cnd (el_key e, el_value e)
       then bnd (select_elem mem e thh dst lst) (\<lambda>dst. select_chain fuel mem cnd src (hh_next e) dst thh)
       else select_chain fuel mem cnd src (hh_next e) dst lst))"

fun select_buckets ::
    "nat \<Rightarrow> ('k, 'v) ut_mem \<Rightarrow> ('k \<times> 'v \<Rightarrow> bool) \<Rightarrow> ('k, 'v) ut \<Rightarrow> ut_bucket list \<Rightarrow> ('k, 'v) ut \<Rightarrow> ptr \<Rightarrow> ut_error + (('k, 'v) ut \<times> ptr)" where
  "select_buckets fuel mem cnd src [] dst lst = Inr (dst, lst)"
| "select_buckets fuel mem cnd src (bkt # bs) dst lst =
    bnd (select_chain fuel mem cnd src (hh_head bkt) dst lst) (\<lambda>(dst, lst). select_buckets fuel mem cnd src bs dst lst)"

definition HASH_SELECT ::
    "('k, 'v) ut_mem \<Rightarrow> ('k \<times> 'v \<Rightarrow> bool) \<Rightarrow> ('k, 'v) ut \<Rightarrow> ('k, 'v) ut \<Rightarrow> ut_error + ('k, 'v) ut" where
  "HASH_SELECT mem cnd src dst =
    (if head src \<noteq> 0
     then bnd (load_tbl src) (\<lambda>t.
            bnd (select_buckets (num_items t + 1) mem cnd src (take (num_buckets t) (buckets t)) dst 0) (\<lambda>(dst, lst). Inr dst))
     else Inr dst)"

section \<open>What has been selected\<close>

text \<open>
  The destination after the selection of \<open>zs\<close>, in this order: as \<open>ut_linked\<close>, except that \<open>tail\<close> is the first
  element and not the last one.
\<close>

definition selected :: "('k \<Rightarrow> u32) \<Rightarrow> nat \<Rightarrow> ('k, 'v) ut \<Rightarrow> ptr list \<Rightarrow> bool" where
  "selected hf klen d zs \<longleftrightarrow> set zs \<subseteq> live d \<and> app_ok d zs \<and> keys_ok hf klen d zs \<and> length zs < 2 ^ 32 \<and>
    (case tbl d of None \<Rightarrow> zs = []
     | Some t \<Rightarrow> zs \<noteq> [] \<and> ut_buckets_ok d (set zs) t \<and> num_items t = length zs \<and> tail t = hd zs)"

text \<open>The handles of the source and of the destination are in the same elements.\<close>

definition same_elems :: "('k, 'v) ut \<Rightarrow> ('k, 'v) ut \<Rightarrow> ptr list \<Rightarrow> bool" where
  "same_elems src d xs \<longleftrightarrow> (\<forall>p \<in> set xs. p \<in> live d \<and> el_value (el d p) = el_value (el src p))"

lemma selected_nonzero: "selected hf klen d zs \<Longrightarrow> 0 \<notin> set zs"
  by (auto simp: selected_def app_ok_def dest: lseg_zero)

lemma selected_head: "selected hf klen d zs \<Longrightarrow> head d = 0 \<longleftrightarrow> zs = []"
  using selected_nonzero [of hf klen d zs] hd_or_0 [of zs] by (auto simp: selected_def app_ok_def)

text \<open>The end of a selection: the element \<open>x\<close> is linked, and goes into its chain.\<close>

lemma select_add_result:
  assumes t: "tbl d = Some t" and bok: "ut_buckets_ok d (set zs) t" and items: "num_items t = length zs" "tail t = hd (zs @ [x])"
    and len: "length zs + 1 < 2 ^ 32" and x: "x \<notin> set zs" "x \<noteq> 0" and sub: "set (zs @ [x]) \<subseteq> live d"
    and app: "app_ok d (zs @ [x])" and keys: "keys_ok hf klen d (zs @ [x])" and hv: "hv = hashv (el d x)" and mem: "ut_mem_ok mem"
  defines "r \<equiv> bnd (load_tbl d) (\<lambda>t. bnd (HASH_ADD_TO_BKT mem d (HASH_TO_BKT hv (num_buckets t)) x) (\<lambda>dst.
      bnd (load_tbl dst) (\<lambda>t. Inr (dst\<lparr>tbl := Some (t\<lparr>num_items := wrap32 (num_items t + 1)\<rparr>)\<rparr>))))"
  shows "r = Inl Fatal_OOM \<or> (\<exists>d'. r = Inr d' \<and> selected hf klen d' (zs @ [x]) \<and> live d' = live d \<and> same_content d d')"
proof -
  have "HASH_ADD_TO_BKT mem d (HASH_TO_BKT hv (num_buckets t)) x = Inl Fatal_OOM \<or>
      (\<exists>s' t'. HASH_ADD_TO_BKT mem d (HASH_TO_BKT hv (num_buckets t)) x = Inr s' \<and> same_app d s' \<and> tbl s' = Some t' \<and>
        ut_buckets_ok s' (insert x (set zs)) t' \<and> num_items t' = num_items t \<and> tail t' = tail t)"
    by (rule add_to_bkt_result [OF t bok _ _ x _ _ _ hv mem])
      (use sub len card_length [of zs] in \<open>auto simp: items\<close>)
  then show ?thesis
  proof (elim disjE exE conjE)
    fix s' t' assume R: "HASH_ADD_TO_BKT mem d (HASH_TO_BKT hv (num_buckets t)) x = Inr s'" "same_app d s'" "tbl s' = Some t'"
      "ut_buckets_ok s' (insert x (set zs)) t'" "num_items t' = num_items t" "tail t' = tail t"
    define d' where "d' = s'\<lparr>tbl := Some (t'\<lparr>num_items := length zs + 1\<rparr>)\<rparr>"
    have same: "same_app d d'" using R(2) by (simp add: same_app_def d'_def)
    have "ut_buckets_ok d' (insert x (set zs)) (t'\<lparr>num_items := length zs + 1\<rparr>)"
      by (rule buckets_ok_cong [of s' "insert x (set zs)" t']) (use R(4) in \<open>simp_all add: d'_def\<close>)
    then have "selected hf klen d' (zs @ [x])"
      using sub app keys len same R(5,6) items
      by (simp add: selected_def app_ok_same [OF same] keys_ok_same [OF same]) (simp add: same_app_def d'_def)
    moreover have "r = Inr d'" using R(1,3,5) items len by (simp add: r_def load_tbl_def t d'_def)
    ultimately show ?thesis using same by (auto simp: same_app_def same_content_def)
  qed (simp add: r_def load_tbl_def t)
qed

definition takes :: "('k, 'v) ut \<Rightarrow> ('k, 'v) ut_elem \<Rightarrow> ptr \<Rightarrow> ('k, 'v) ut \<Rightarrow> bool" where
  "takes d e x d' \<longleftrightarrow> live d' = live d \<and>
    (\<forall>p. el_value (el d' p) = el_value (el d p) \<and> el_key (el d' p) = (if p = x then el_key e else el_key (el d p)))"

lemma select_elem_result:
  assumes sel: "selected hf klen d zs" and x: "x \<noteq> 0" "x \<notin> set zs" "x \<in> live d"
    and e: "hashv e = hf (el_key e)" "keylen e = klen" and new: "el_key e \<notin> (\<lambda>p. el_key (el d p)) ` set zs"
    and len: "length zs + 1 < 2 ^ 32" and mem: "ut_mem_ok mem"
  shows "select_elem mem e x d (last_or zs 0) = Inl Fatal_OOM \<or>
    (\<exists>d'. select_elem mem e x d (last_or zs 0) = Inr d' \<and> selected hf klen d' (zs @ [x]) \<and> takes d e x d')"
proof -
  note S = sel [unfolded selected_def]
  define fresh where "fresh = \<lparr>buckets = replicate HASH_INITIAL_NUM_BUCKETS \<lparr>hh_head = 0, count = 0, expand_mult = 0\<rparr>,
     num_buckets = HASH_INITIAL_NUM_BUCKETS, log2_num_buckets = HASH_INITIAL_NUM_BUCKETS_LOG2,
     num_items = 0, tail = x, ideal_chain_maxlen = 0, nonideal_items = 0, ineff_expands = 0, noexpand = False\<rparr>"
  define e' where "e' = (el d x)\<lparr>el_key := el_key e, keylen := keylen e, hashv := hashv e, app_prev := last_or zs 0, app_next := 0\<rparr>"
  define t where "t = (case tbl d of None \<Rightarrow> fresh | Some t \<Rightarrow> t)"
  define st where "st = (if zs = [] then (store d)(x \<mapsto> e')
     else (store d)(x \<mapsto> e', last zs \<mapsto> (el d (last zs))\<lparr>app_next := x\<rparr>))"
  define d2 where "d2 = d\<lparr>head := (if zs = [] then x else head d), tbl := Some t, store := st\<rparr>"
  have l: "zs \<noteq> [] \<Longrightarrow> last zs \<in> live d \<and> last zs \<noteq> x \<and> last zs \<noteq> 0 \<and> last zs \<in> set zs"
    using S x(2) last_in_set [of zs] selected_nonzero [OF sel] by (metis subsetD)
  have el2: "el d2 p = (if p = x then e' else if zs \<noteq> [] \<and> p = last zs then (el d p)\<lparr>app_next := x\<rparr> else el d p)" for p
    using l by (auto simp: d2_def st_def el_def)
  have live2: "live d2 = live d" using l x by (auto simp: d2_def st_def)
  have h: "head d = 0 \<longleftrightarrow> zs = []" "tbl d = None \<longleftrightarrow> zs = []"
    using selected_head [OF sel] S by (auto split: option.splits)
  define B where "B = bnd (load_tbl d2) (\<lambda>t. bnd (HASH_ADD_TO_BKT mem d2 (HASH_TO_BKT (hashv e) (num_buckets t)) x) (\<lambda>dst.
        bnd (load_tbl dst) (\<lambda>t. Inr (dst\<lparr>tbl := Some (t\<lparr>num_items := wrap32 (num_items t + 1)\<rparr>)\<rparr>))))"
  have eq: "select_elem mem e x d (last_or zs 0) = (if m_malloc mem sizeof_table \<and> m_malloc mem (HASH_INITIAL_NUM_BUCKETS * sizeof_bucket) \<or> zs \<noteq> []
      then B else Inl Fatal_OOM)"
  proof (cases "zs = []")
    case True
    then show ?thesis using x h
      by (simp add: B_def select_elem_def modify_live HASH_MAKE_TABLE_def d2_def st_def e'_def t_def fresh_def ut_field_order)
  next
    case False
    then have "store d (last zs) = Some (el d (last zs))" using l by (auto simp: el_def)
    moreover have "d2 = d\<lparr>store := st\<rparr>" using False h(2) by (auto simp: d2_def t_def)
    ultimately show ?thesis using x h l False
      by (simp add: B_def select_elem_def modify_live) (simp add: modify_def st_def e'_def last_or_def)
  qed
  have "B = Inl Fatal_OOM \<or> (\<exists>d'. B = Inr d' \<and> selected hf klen d' (zs @ [x]) \<and> live d' = live d2 \<and> same_content d2 d')"
    unfolding B_def
  proof (rule select_add_result [OF _ _ _ _ len x(2,1) _ _ _ _ mem])
    show "tbl d2 = Some t" by (simp add: d2_def)
    show "set (zs @ [x]) \<subseteq> live d2" using S x(3) by (simp add: live2)
    show "hashv e = hashv (el d2 x)" by (simp add: el2 e'_def)
    show "num_items t = length zs" "tail t = hd (zs @ [x])"
      using S h(2) by (auto simp: t_def fresh_def split: option.splits)
    show "ut_buckets_ok d2 (set zs) t"
    proof (cases "zs = []")
      case True
      then show ?thesis using h(2) fresh_table_ok by (simp add: t_def fresh_def)
    next
      case False
      then obtain t0 where t0: "tbl d = Some t0" using h(2) by auto
      then have "ut_buckets_ok d (set zs) t0" using S by simp
      then show ?thesis by (rule buckets_ok_cong) (use t0 x(2) in \<open>auto simp: t_def el2\<close>)
    qed
    show "keys_ok hf klen d2 (zs @ [x])"
      by (rule keys_ok_insert [of hf klen d zs]) (use S x e new in \<open>auto simp: el2 e'_def\<close>)
    show "app_ok d2 (zs @ [x])"
    proof (cases "zs = []")
      case True
      then show ?thesis using x by (simp add: app_ok_def el2 e'_def) (simp add: d2_def)
    next
      case False
      have "lseg (\<lambda>p. app_next (el d2 p)) (\<lambda>p. app_prev (el d2 p)) 0 (zs @ [x]) 0"
        by (rule lseg_snoc [where nx = "\<lambda>p. app_next (el d p)" and pv = "\<lambda>p. app_prev (el d p)"])
          (use S x False l in \<open>simp_all add: app_ok_def el2 e'_def last_or_last\<close>)
      moreover have "head d2 = hd_or (zs @ [x]) 0" using S False by (cases zs) (simp_all add: app_ok_def d2_def)
      moreover have "distinct (zs @ [x])" using S x(2) by (simp add: app_ok_def)
      ultimately show ?thesis by (simp only: app_ok_def)
    qed
  qed
  moreover have "takes d e x d'" if "live d' = live d2" "same_content d2 d'" for d'
    using that by (auto simp: takes_def same_content_def live2 el2 e'_def)
  ultimately have "B = Inl Fatal_OOM \<or> (\<exists>d'. B = Inr d' \<and> selected hf klen d' (zs @ [x]) \<and> takes d e x d')" by blast
  then show ?thesis unfolding eq by (cases "m_malloc mem sizeof_table \<and> m_malloc mem (HASH_INITIAL_NUM_BUCKETS * sizeof_bucket) \<or> zs \<noteq> []")
    (simp_all only: if_True if_False simp_thms)
qed

section \<open>The loops\<close>

text \<open>Of the elements \<open>xs\<close> of the source, \<open>zs\<close> have been selected.\<close>

definition selecting :: "('k \<Rightarrow> u32) \<Rightarrow> nat \<Rightarrow> ('k, 'v) ut \<Rightarrow> ptr list \<Rightarrow> ('k, 'v) ut \<Rightarrow> ptr list \<Rightarrow> bool" where
  "selecting hf klen src xs d zs \<longleftrightarrow> selected hf klen d zs \<and> set zs \<subseteq> set xs \<and>
    (\<forall>p \<in> set zs. el_key (el d p) = el_key (el src p)) \<and> same_elems src d xs"

lemma select_step_result:
  assumes sel: "selecting hf klen src xs d zs" and src: "keys_ok hf klen src xs" "length xs < 2 ^ 32" "0 \<notin> set xs"
    and x: "x \<in> set xs" "x \<notin> set zs" and mem: "ut_mem_ok mem"
  shows "select_elem mem (el src x) x d (last_or zs 0) = Inl Fatal_OOM \<or>
    (\<exists>d'. select_elem mem (el src x) x d (last_or zs 0) = Inr d' \<and> selecting hf klen src xs d' (zs @ [x]))"
proof -
  note S = sel [unfolded selecting_def]
  have d: "distinct zs" using S by (simp add: selected_def app_ok_def)
  have x0: "x \<noteq> 0" using src(3) x(1) by metis
  have "card (set (x # zs)) \<le> card (set xs)" by (rule card_mono) (use S x in auto)
  then have len: "length zs + 1 < 2 ^ 32" using d x(2) src(2) card_length [of xs] by (simp add: distinct_card)
  have "el_key (el src x) \<noteq> el_key (el d p)" if p: "p \<in> set zs" for p
    using src(1) S x p unfolding keys_ok_def inj_on_def by (metis subsetD)
  then have new: "el_key (el src x) \<notin> (\<lambda>p. el_key (el d p)) ` set zs" by blast
  have "select_elem mem (el src x) x d (last_or zs 0) = Inl Fatal_OOM \<or>
      (\<exists>d'. select_elem mem (el src x) x d (last_or zs 0) = Inr d' \<and> selected hf klen d' (zs @ [x]) \<and> takes d (el src x) x d')"
    by (rule select_elem_result [OF _ x0 x(2) _ _ _ new len mem]) (use S src x in \<open>auto simp: same_elems_def keys_ok_def\<close>)
  moreover have "selecting hf klen src xs d' (zs @ [x])" if "selected hf klen d' (zs @ [x])" "takes d (el src x) x d'" for d'
    using that S x by (auto simp: selecting_def takes_def same_elems_def)
  ultimately show ?thesis by blast
qed

lemma select_chain_result:
  assumes "nseg (\<lambda>p. hh_next (el src p)) c 0" "length c < fuel" "distinct c" "set c \<subseteq> set xs" "set c \<inter> set zs = {}"
    and sel: "selecting hf klen src xs d zs" and src: "keys_ok hf klen src xs" "length xs < 2 ^ 32" "0 \<notin> set xs" "set xs \<subseteq> live src"
    and mem: "ut_mem_ok mem"
  shows "select_chain fuel mem cnd src (hd_or c 0) d (last_or zs 0) = Inl Fatal_OOM \<or>
    (\<exists>d'. select_chain fuel mem cnd src (hd_or c 0) d (last_or zs 0) =
        Inr (d', last_or (zs @ filter (\<lambda>p. cnd (content_of src p)) c) 0) \<and>
      selecting hf klen src xs d' (zs @ filter (\<lambda>p. cnd (content_of src p)) c))"
  using assms(1-6)
proof (induction c arbitrary: fuel d zs)
  case Nil
  then show ?case by (cases fuel) auto
next
  case (Cons x c)
  obtain f where f: "fuel = Suc f" using Cons.prems(2) by (cases fuel) auto
  have x: "x \<noteq> 0" "load src x = Inr (el src x)" "hh_next (el src x) = hd_or c 0" "x \<in> set xs" "x \<notin> set zs"
    using Cons.prems src(4) by (auto intro: load_live)
  show ?case
  proof (cases "cnd (content_of src x)")
    case False
    then show ?thesis
      using Cons.IH [of f zs d] Cons.prems x by (simp add: f)
  next
    case True
    show ?thesis
      using select_step_result [OF Cons.prems(6) src(1-3) x(4,5) mem]
    proof (elim disjE exE conjE)
      assume "select_elem mem (el src x) x d (last_or zs 0) = Inl Fatal_OOM"
      then show ?thesis using True x by (simp add: f)
    next
      fix d' assume R: "select_elem mem (el src x) x d (last_or zs 0) = Inr d'" "selecting hf klen src xs d' (zs @ [x])"
      have "select_chain f mem cnd src (hd_or c 0) d' (last_or (zs @ [x]) 0) = Inl Fatal_OOM \<or>
        (\<exists>d''. select_chain f mem cnd src (hd_or c 0) d' (last_or (zs @ [x]) 0) =
          Inr (d'', last_or ((zs @ [x]) @ filter (\<lambda>p. cnd (content_of src p)) c) 0) \<and>
        selecting hf klen src xs d'' ((zs @ [x]) @ filter (\<lambda>p. cnd (content_of src p)) c))"
        by (rule Cons.IH) (use Cons.prems f R(2) in auto)
      then show ?thesis using True x R(1) by (simp add: f last_or_append)
    qed
  qed
qed

lemma select_buckets_result:
  assumes "list_all2 (\<lambda>bkt c. hh_head bkt = hd_or c 0 \<and> nseg (\<lambda>p. hh_next (el src p)) c 0 \<and> length c < fuel) bs cs"
    "distinct (concat cs)" "set (concat cs) \<subseteq> set xs" "set (concat cs) \<inter> set zs = {}"
    and sel: "selecting hf klen src xs d zs" and src: "keys_ok hf klen src xs" "length xs < 2 ^ 32" "0 \<notin> set xs" "set xs \<subseteq> live src"
    and mem: "ut_mem_ok mem"
  shows "select_buckets fuel mem cnd src bs d (last_or zs 0) = Inl Fatal_OOM \<or>
    (\<exists>d' l. select_buckets fuel mem cnd src bs d (last_or zs 0) = Inr (d', l) \<and>
      selecting hf klen src xs d' (zs @ filter (\<lambda>p. cnd (content_of src p)) (concat cs)))"
  using assms(1-5)
proof (induction bs cs arbitrary: d zs rule: list_all2_induct)
  case (Cons bkt bs c cs)
  let ?f = "filter (\<lambda>p. cnd (content_of src p))"
  have "select_chain fuel mem cnd src (hd_or c 0) d (last_or zs 0) = Inl Fatal_OOM \<or>
      (\<exists>d'. select_chain fuel mem cnd src (hd_or c 0) d (last_or zs 0) = Inr (d', last_or (zs @ ?f c) 0) \<and>
        selecting hf klen src xs d' (zs @ ?f c))"
    by (rule select_chain_result [OF _ _ _ _ _ _ src mem]) (use Cons.hyps Cons.prems in auto)
  then show ?case
  proof (elim disjE exE conjE)
    fix d' assume R: "select_chain fuel mem cnd src (hd_or c 0) d (last_or zs 0) = Inr (d', last_or (zs @ ?f c) 0)"
      "selecting hf klen src xs d' (zs @ ?f c)"
    have "select_buckets fuel mem cnd src bs d' (last_or (zs @ ?f c) 0) = Inl Fatal_OOM \<or>
      (\<exists>d'' l. select_buckets fuel mem cnd src bs d' (last_or (zs @ ?f c) 0) = Inr (d'', l) \<and>
        selecting hf klen src xs d'' ((zs @ ?f c) @ ?f (concat cs)))"
      by (rule Cons.IH) (use Cons.prems R(2) in auto)
    then show ?thesis using R(1) Cons.hyps(1) by simp
  qed (use Cons.hyps(1) in simp)
qed simp

lemma hash_select_result:
  assumes src: "ut_linked hf klen src xs" and dst: "head dst = 0" "tbl dst = None" "same_elems src dst xs" and mem: "ut_mem_ok mem"
  shows "HASH_SELECT mem cnd src dst = Inl Fatal_OOM \<or> (\<exists>d zs. HASH_SELECT mem cnd src dst = Inr d \<and>
    selecting hf klen src xs d zs \<and> set zs = {p \<in> set xs. cnd (content_of src p)})"
proof -
  note I = src [unfolded ut_linked_def]
  have sel0: "selecting hf klen src xs dst []" using dst by (simp add: selecting_def selected_def app_ok_def keys_ok_def)
  show ?thesis
  proof (cases "xs = []")
    case True
    then show ?thesis using sel0 ut_linked_head [OF src] by (auto simp: HASH_SELECT_def)
  next
    case False
    obtain t k ch where t: "tbl src = Some t" "num_buckets t = 2 ^ k" "num_items t = length xs" "chains_ok src k (buckets t) ch (set xs)"
      using I False by (auto simp: ut_table_ok_def split: option.splits)
    define cs where "cs = map ch [0..<2 ^ k]"
    note C = chains_okD [OF t(4)] and part = chains_partition [OF t(4), folded cs_def]
    have "length (ch b) < num_items t + 1" if "b < 2 ^ k" for b
      using length_chain [OF t(4) that] card_length [of xs] by (simp add: t(3))
    then have l2: "list_all2 (\<lambda>bkt c. hh_head bkt = hd_or c 0 \<and> nseg (\<lambda>p. hh_next (el src p)) c 0 \<and>
        length c < num_items t + 1) (take (num_buckets t) (buckets t)) cs"
      using C(1) lseg_nseg [OF C(4)] chains_okD6 [OF t(4)] by (auto simp: list_all2_conv_all_nth cs_def t(2))
    have "select_buckets (num_items t + 1) mem cnd src (take (num_buckets t) (buckets t)) dst (last_or [] 0) = Inl Fatal_OOM \<or>
      (\<exists>d l. select_buckets (num_items t + 1) mem cnd src (take (num_buckets t) (buckets t)) dst (last_or [] 0) = Inr (d, l) \<and>
        selecting hf klen src xs d ([] @ filter (\<lambda>p. cnd (content_of src p)) (concat cs)))"
      by (rule select_buckets_result [OF l2 part(1) _ _ sel0 _ _ _ _ mem])
        (use I part(2) ut_linked_nonzero [OF src] in simp_all)
    then have "select_buckets (num_items t + 1) mem cnd src (take (num_buckets t) (buckets t)) dst 0 = Inl Fatal_OOM \<or>
      (\<exists>d l. select_buckets (num_items t + 1) mem cnd src (take (num_buckets t) (buckets t)) dst 0 = Inr (d, l) \<and>
        selecting hf klen src xs d (filter (\<lambda>p. cnd (content_of src p)) (concat cs)))" by simp
    moreover have "set (filter (\<lambda>p. cnd (content_of src p)) (concat cs)) = {p \<in> set xs. cnd (content_of src p)}"
      using part(2) by auto
    moreover have "HASH_SELECT mem cnd src dst =
        bnd (select_buckets (num_items t + 1) mem cnd src (take (num_buckets t) (buckets t)) dst 0) (\<lambda>(dst, lst). Inr dst)"
      using False ut_linked_head [OF src] by (simp add: HASH_SELECT_def load_tbl_def t(1))
    ultimately show ?thesis by (elim disjE exE conjE) (simp, fastforce)
  qed
qed

section \<open>Addition after a selection\<close>

text \<open>The new element is linked behind the first selected one, which is where \<open>tail\<close> points.\<close>

lemma add_after_select:
  assumes sel: "selected hf klen d (z # zs)" and x: "x \<noteq> 0" "x \<notin> set (z # zs)" "x \<in> live d"
    and len: "length (z # zs) + 1 < 2 ^ 32" and mem: "ut_mem_ok mem"
    and add: "HASH_ADD_KEYPTR_BYHASHVALUE mem d klen hv x = Inr d'"
  shows "\<exists>t. tbl d' = Some t \<and> num_items t = length zs + 2 \<and> ut_buckets_ok d' (insert x (set (z # zs))) t \<and>
    live d' = live d \<and> head d' = z \<and> lseg (\<lambda>p. app_next (el d' p)) (\<lambda>p. app_prev (el d' p)) 0 [z, x] 0"
proof -
  note S = sel [unfolded selected_def]
  obtain t where t: "tbl d = Some t" "ut_buckets_ok d (set (z # zs)) t" "num_items t = length zs + 1" "tail t = z"
    using S by (auto split: option.splits)
  have z: "head d = z" "z \<noteq> 0" "z \<noteq> x" "z \<in> live d" "app_prev (el d z) = 0"
    using S x(2) by (auto simp: app_ok_def)
  define e' where "e' = (el d x)\<lparr>hashv := hv, keylen := klen, app_next := 0, app_prev := z\<rparr>"
  define t2 where "t2 = t\<lparr>tail := x, num_items := length zs + 2\<rparr>"
  define d2 where "d2 = d\<lparr>tbl := Some t2, store := (store d)(x \<mapsto> e', z \<mapsto> (el d z)\<lparr>app_next := x\<rparr>)\<rparr>"
  have el2: "el d2 p = (if p = x then e' else if p = z then (el d p)\<lparr>app_next := x\<rparr> else el d p)" for p
    using z by (auto simp: d2_def el_def)
  have live2: "live d2 = live d" using z x by (auto simp: d2_def)
  have eq: "HASH_ADD_KEYPTR_BYHASHVALUE mem d klen hv x = HASH_ADD_TO_BKT mem d2 (HASH_TO_BKT hv (num_buckets t2)) x"
  proof -
    have "store d z = Some (el d z)" "store d x = Some (el d x)" using z x by (auto simp: el_def)
    then show ?thesis using z x t len
      by (simp add: HASH_ADD_KEYPTR_BYHASHVALUE_def modify_def HASH_APPEND_LIST_def load_tbl_def HASH_ADD_TO_TABLE_def
          d2_def t2_def e'_def ut_field_order)
  qed
  have bok: "ut_buckets_ok d2 (set (z # zs)) t2"
    by (rule buckets_ok_cong [OF t(2)]) (use x(2) in \<open>auto simp: t2_def el2\<close>)
  have "HASH_ADD_TO_BKT mem d2 (HASH_TO_BKT hv (num_buckets t2)) x = Inl Fatal_OOM \<or>
      (\<exists>s' t'. HASH_ADD_TO_BKT mem d2 (HASH_TO_BKT hv (num_buckets t2)) x = Inr s' \<and> same_app d2 s' \<and> tbl s' = Some t' \<and>
        ut_buckets_ok s' (insert x (set (z # zs))) t' \<and> num_items t' = num_items t2 \<and> tail t' = tail t2)"
  proof (rule add_to_bkt_result [OF _ bok _ _ x(2,1) _ _ _ _ mem])
    have "card (set (z # zs)) \<le> length (z # zs)" by (rule card_length)
    then show "card (set (z # zs)) \<le> num_items t2" "card (set (z # zs)) + 1 < 2 ^ 32" using len by (simp_all add: t2_def)
    show "x \<in> live d2" "set (z # zs) \<subseteq> live d2" using S x(3) by (simp_all only: live2)
    show "hv = hashv (el d2 x)" by (simp add: el2 e'_def)
    show "tbl d2 = Some t2" by (simp add: d2_def)
  qed simp
  then obtain t' where R: "same_app d2 d'" "tbl d' = Some t'" "ut_buckets_ok d' (insert x (set (z # zs))) t'" "num_items t' = num_items t2"
    using add unfolding eq by auto
  have "lseg (\<lambda>p. app_next (el d' p)) (\<lambda>p. app_prev (el d' p)) 0 [z, x] 0"
    using R(1) z x(1) by (simp add: same_app_def el2 e'_def)
  moreover have "head d' = z" "live d' = live d" using R(1) z(1) live2 by (simp_all add: same_app_def d2_def)
  ultimately show ?thesis using R(2-4) by (simp add: t2_def)
qed

lemma ut_walk_longer:
  assumes "lseg (\<lambda>p. app_next (el s p)) pv q xs 0" "length xs \<le> n"
  shows "ut_walk n s (hd_or xs 0) = xs"
  using assms
proof (induction xs arbitrary: q n)
  case Nil
  then show ?case by (cases n) auto
next
  case (Cons y ys)
  obtain m where m: "n = Suc m" using Cons.prems(2) by (cases n) auto
  then have "ut_walk m s (hd_or ys 0) = ys" using Cons by auto
  then show ?case using Cons.prems by (simp add: m el_def)
qed

lemma selected_elems: "selected hf klen d zs \<Longrightarrow> ut_elems d = zs"
  by (auto simp: selected_def app_ok_def ut_elems_def ut_walk_seg split: option.splits)

lemma selected_find:
  assumes sel: "selected hf klen d zs"
  shows "\<exists>p. HASH_FIND_BYHASHVALUE (=) d key klen (hf key) = Inr p \<and>
    (if p = 0 then key \<notin> (\<lambda>p. el_key (el d p)) ` set zs else p \<in> set zs \<and> el_key (el d p) = key)"
proof (cases "zs = []")
  case True
  then show ?thesis using selected_head [OF sel] by (simp add: HASH_FIND_BYHASHVALUE_def)
next
  case False
  note S = sel [unfolded selected_def]
  obtain t where t: "tbl d = Some t" "ut_buckets_ok d (set zs) t" "num_items t = length zs"
    using S False by (auto split: option.splits)
  show ?thesis
    by (rule hash_find_buckets [OF _ t(1,2)])
      (use S t(3) False card_length [of zs] selected_nonzero [OF sel] selected_head [OF sel] in \<open>auto simp: keys_ok_def\<close>)
qed

section \<open>An example\<close>

text \<open>The value of \<open>ut_example\<close>, and a destination whose handles hold junk.\<close>

definition sel_src :: "(u32, u32) ut" where
  "sel_src = \<lparr>head = 1,
     tbl = Some \<lparr>buckets = (replicate 32 \<lparr>hh_head = 0, count = 0, expand_mult = 0\<rparr>)
        [21 := \<lparr>hh_head = 1, count = 1, expand_mult = 0\<rparr>, 29 := \<lparr>hh_head = 2, count = 1, expand_mult = 0\<rparr>],
      num_buckets = 32, log2_num_buckets = 5, num_items = 2, tail = 2, ideal_chain_maxlen = 0,
      nonideal_items = 0, ineff_expands = 0, noexpand = False\<rparr>,
     store = [1 \<mapsto> \<lparr>el_key = 5, el_value = 0, app_prev = 0, app_next = 2, hh_prev = 0, hh_next = 0, keylen = 4, hashv = 3578549621\<rparr>,
       2 \<mapsto> \<lparr>el_key = 7, el_value = 0, app_prev = 1, app_next = 0, hh_prev = 0, hh_next = 0, keylen = 4, hashv = 3832074717\<rparr>]\<rparr>"

lemma ut_example_value: "ut_example = sel_src"
  by (simp add: ut_example_def ut_run_simps ut_example_hashes ut_example_buckets Let_def) (simp add: sel_src_def numeral_2_eq_2)

definition sel_dst :: "(u32, u32) ut" where
  "sel_dst = \<lparr>head = 0, tbl = None, store = (\<lambda>p. if p \<in> {1, 2, 3} then Some \<lparr>el_key = of_nat p, el_value = 0, app_prev = 9, app_next = 9,
     hh_prev = 9, hh_next = 9, keylen = 9, hashv = 9\<rparr> else None)\<rparr>"

lemma sel_dst_same: "same_elems ut_example sel_dst (ut_elems ut_example)"
proof -
  have s: "set (ut_elems sel_src) = {1, 2}" by code_simp
  show ?thesis unfolding ut_example_value same_elems_def s by (auto simp: sel_src_def sel_dst_def el_def)
qed

lemma sel_seven: "case HASH_SELECT ut_ex_mem (\<lambda>e. fst e = 7) sel_src sel_dst of Inl _ \<Rightarrow> False | Inr d \<Rightarrow> True"
  by code_simp

lemma sel_run:
  "case HASH_SELECT ut_ex_mem (\<lambda>_. True) sel_src sel_dst of Inl _ \<Rightarrow> False
   | Inr d \<Rightarrow> ut_elems d = [1, 2] \<and> store d 3 \<noteq> None \<and>
     (case HASH_ADD_KEYPTR_BYHASHVALUE ut_ex_mem d 4 0 3 of Inl _ \<Rightarrow> False | Inr d' \<Rightarrow> True)"
  by code_simp

section \<open>Properties\<close>

text \<open>C27: \<open>HASH_SELECT\<close> into an empty hash: no invalid pointer is followed and the loops end; the call exits for lack
  of memory, or the destination holds the entries that the condition selects and no others, and \<open>HASH_FIND\<close> in it
  returns the element of every selected key and \<open>NULL\<close> for the other keys.\<close>

theorem uthash_select_selects:
  assumes "ut_ok hk klen src" "ut_mem_ok mem" "head dst = 0" "tbl dst = None" "same_elems src dst (ut_elems src)"
  shows "HASH_SELECT mem cnd src dst = Inl Fatal_OOM \<or> (\<exists>d. HASH_SELECT mem cnd src dst = Inr d \<and>
    mset (ut_entries d) = mset (filter cnd (ut_entries src)) \<and>
    (\<forall>key. \<exists>p. HASH_FIND_BYHASHVALUE (=) d key klen (ut_hash hk key) = Inr p \<and>
      (if p = 0 then \<forall>v. ut_content src key = Some v \<longrightarrow> \<not> cnd (key, v)
       else p \<in> set (ut_elems d) \<and> el_key (el d p) = key \<and> ut_content src key = Some (el_value (el d p)) \<and> cnd (key, el_value (el d p)))))"
proof -
  note inv = ut_okE [OF assms(1)]
  then have src: "ut_linked (ut_hash hk) klen src (ut_elems src)" by (simp only: ut_inv_linked)
  from hash_select_result [OF src assms(3-5,2), of cnd] show ?thesis
  proof (elim disjE exE conjE)
    fix d zs assume R: "HASH_SELECT mem cnd src dst = Inr d" "selecting (ut_hash hk) klen src (ut_elems src) d zs"
      "set zs = {p \<in> set (ut_elems src). cnd (content_of src p)}"
    have sel: "selected (ut_hash hk) klen d zs" using R(2) by (simp add: selecting_def)
    have cont: "content_of d p = content_of src p" if "p \<in> set zs" for p
      using that R(2) by (auto simp: selecting_def same_elems_def)
    have ds: "distinct zs" "distinct (ut_elems src)" using sel inv by (simp_all add: selected_def ut_inv_def app_ok_def)
    have "mset zs = mset (filter (\<lambda>p. cnd (content_of src p)) (ut_elems src))"
      by (rule set_eq_iff_mset_eq_distinct [THEN iffD1]) (use ds R(3) in auto)
    then have "mset (map (content_of src) zs) = mset (filter cnd (ut_entries src))"
      by (simp add: ut_entries_def filter_map comp_def mset_map [symmetric] del: mset_map mset_filter) (metis mset_map)
    moreover have "ut_entries d = map (content_of src) zs" using cont by (simp add: ut_entries_def selected_elems [OF sel])
    moreover have "\<exists>p. HASH_FIND_BYHASHVALUE (=) d key klen (ut_hash hk key) = Inr p \<and>
      (if p = 0 then \<forall>v. ut_content src key = Some v \<longrightarrow> \<not> cnd (key, v)
       else p \<in> set (ut_elems d) \<and> el_key (el d p) = key \<and> ut_content src key = Some (el_value (el d p)) \<and> cnd (key, el_value (el d p)))" for key
    proof -
      obtain p where p: "HASH_FIND_BYHASHVALUE (=) d key klen (ut_hash hk key) = Inr p"
        "if p = 0 then key \<notin> (\<lambda>p. el_key (el d p)) ` set zs else p \<in> set zs \<and> el_key (el d p) = key"
        using selected_find [OF sel, of key] by blast
      have "ut_content src key = Some v \<longleftrightarrow> (\<exists>p \<in> set (ut_elems src). content_of src p = (key, v))" for v
        using inv by (simp add: ut_content_def ut_map_Some [of "ut_hash hk" klen] ut_inv_def)
      then have hit: "ut_content src key = Some v \<and> cnd (key, v) \<longleftrightarrow> (\<exists>p \<in> set zs. content_of d p = (key, v))" for v
        using R(3) cont by auto
      show ?thesis
        by (rule exI [of _ p]) (use p hit selected_elems [OF sel] in \<open>auto split: if_splits\<close>)
    qed
    ultimately show ?thesis using R(1) by auto
  qed simp
qed

theorem uthash_select_selects_witness:
  "\<exists>d p. HASH_SELECT ut_ex_mem (\<lambda>e. fst e = 7) ut_example sel_dst = Inr d \<and> mset (ut_entries d) = {#(7, 0)#} \<and>
    HASH_FIND_BYHASHVALUE (=) d 7 4 (ut_hash hash_key_uint32 7) = Inr p \<and> p \<noteq> 0 \<and> el_key (el d p) = 7"
proof -
  have "HASH_SELECT ut_ex_mem (\<lambda>e. fst e = 7) ut_example sel_dst \<noteq> Inl Fatal_OOM"
    using sel_seven unfolding ut_example_value by (auto split: sum.splits)
  then obtain d where d: "HASH_SELECT ut_ex_mem (\<lambda>e. fst e = 7) ut_example sel_dst = Inr d"
    "mset (ut_entries d) = mset (filter (\<lambda>e. fst e = 7) (ut_entries ut_example))"
    "\<forall>key. \<exists>p. HASH_FIND_BYHASHVALUE (=) d key 4 (ut_hash hash_key_uint32 key) = Inr p \<and>
      (if p = 0 then \<forall>v. ut_content ut_example key = Some v \<longrightarrow> \<not> fst (key, v) = 7
       else p \<in> set (ut_elems d) \<and> el_key (el d p) = key \<and> ut_content ut_example key = Some (el_value (el d p)) \<and> fst (key, el_value (el d p)) = 7)"
    using uthash_select_selects [OF ut_example_ok ut_ex_mem_ok _ _ sel_dst_same, of "\<lambda>e. fst e = 7"]
    by (auto simp: sel_dst_def)
  obtain p where "HASH_FIND_BYHASHVALUE (=) d 7 4 (ut_hash hash_key_uint32 7) = Inr p" "p \<noteq> 0" "el_key (el d p) = 7"
    using spec [OF d(3), of 7] by (auto simp: ut_example_content split: if_splits)
  then show ?thesis using d(1,2) by (auto simp: ut_example_entries)
qed

text \<open>C22: a selection leaves \<open>tail\<close> at its first element, so that after the selection of two elements or more
  \<open>HASH_ADD\<close> links the new element behind the first one: the others are no longer in the order of the
  application, iteration visits two elements while \<open>HASH_COUNT\<close> counts all of them, and \<open>HASH_FSCK\<close> reports an error.\<close>

theorem uthash_select_then_add_loses:
  assumes "ut_ok hk klen src" "ut_mem_ok mem" "head dst = 0" "tbl dst = None" "same_elems src dst (ut_elems src)"
    "HASH_SELECT mem cnd src dst = Inr d" "2 \<le> length (ut_elems d)" "length (ut_elems d) + 1 < 2 ^ 32"
    "x \<noteq> 0" "x \<notin> set (ut_elems d)" "x \<in> dom (store d)" "HASH_ADD_KEYPTR_BYHASHVALUE mem d klen hv x = Inr d'"
  shows "ut_elems d' = [hd (ut_elems d), x] \<and> HASH_CNT d' = Inr (length (ut_elems d) + 1) \<and> HASH_FSCK d' = Inr False"
proof -
  have src: "ut_linked (ut_hash hk) klen src (ut_elems src)" using ut_okE [OF assms(1)] by (simp only: ut_inv_linked)
  obtain zs0 where sel0: "selected (ut_hash hk) klen d zs0"
    using hash_select_result [OF src assms(3-5,2), of cnd] assms(6) by (auto simp: selecting_def)
  obtain z zs where zs: "ut_elems d = z # zs" using assms(7) by (cases "ut_elems d") auto
  have sel: "selected (ut_hash hk) klen d (z # zs)" using sel0 selected_elems [OF sel0] zs by simp
  obtain t where t: "tbl d' = Some t" "num_items t = length zs + 2" "ut_buckets_ok d' (insert x (set (z # zs))) t"
    "live d' = live d" "head d' = z" "lseg (\<lambda>p. app_next (el d' p)) (\<lambda>p. app_prev (el d' p)) 0 [z, x] 0"
    using add_after_select [OF sel assms(9) _ _ _ assms(2,12)] assms(8,10,11) zs by auto
  have sub: "insert x (set (z # zs)) \<subseteq> live d'" using sel assms(11) t(4) by (simp add: selected_def)
  have "distinct (z # zs)" using sel by (simp add: selected_def app_ok_def)
  then have "card (insert x (set (z # zs))) = num_items t" using assms(10) zs t(2) distinct_card [of "z # zs"] by simp
  then have fsck: "fsck_buckets (num_items t + 1) d' (take (num_buckets t) (buckets t)) = Inr (Some (num_items t))"
    using fsck_table_result [OF t(3) _ sub] by simp
  have "fsck_app (num_items t + 1) d' 0 (hd_or [z, x] 0) = Inr (Some (length [z, x]))"
    by (rule fsck_app_result [OF t(6)]) (use sub t(2) in auto)
  then have "fsck_app (num_items t + 1) d' 0 (head d') = Inr (Some 2)" using t(5) by simp
  moreover have z: "head d' \<noteq> 0" using t(5,6) by simp
  moreover have "num_items t \<noteq> 2" using assms(7) zs t(2) by (cases zs) simp_all
  ultimately have "HASH_FSCK d' = Inr False" using t(1) fsck by (simp add: HASH_FSCK_def load_tbl_def)
  moreover have "ut_elems d' = [z, x]"
    using ut_walk_longer [OF t(6), of "num_items t"] t(1,2,5) by (simp add: ut_elems_def del: ut_walk.simps)
  moreover have "HASH_CNT d' = Inr (length zs + 2)" using t(1,2) z by (simp add: HASH_CNT_def load_tbl_def)
  ultimately show ?thesis by (simp add: zs)
qed

text \<open>5 and 7 are selected and 3 is added: the iteration over the destination misses 7.\<close>

theorem uthash_select_then_add_loses_witness:
  "\<exists>d d'. HASH_SELECT ut_ex_mem (\<lambda>_. True) ut_example sel_dst = Inr d \<and> ut_elems d = [1, 2] \<and>
    HASH_ADD_KEYPTR_BYHASHVALUE ut_ex_mem d 4 0 3 = Inr d' \<and> ut_elems d' = [1, 3] \<and> HASH_CNT d' = Inr 3 \<and> HASH_FSCK d' = Inr False"
proof -
  obtain d d' where d: "HASH_SELECT ut_ex_mem (\<lambda>_. True) ut_example sel_dst = Inr d" "ut_elems d = [1, 2]" "3 \<in> dom (store d)"
    "HASH_ADD_KEYPTR_BYHASHVALUE ut_ex_mem d 4 0 3 = Inr d'"
    using sel_run unfolding ut_example_value by (auto split: sum.splits)
  have "ut_elems d' = [hd (ut_elems d), 3] \<and> HASH_CNT d' = Inr (length (ut_elems d) + 1) \<and> HASH_FSCK d' = Inr False"
    by (rule uthash_select_then_add_loses [OF ut_example_ok ut_ex_mem_ok _ _ sel_dst_same d(1) _ _ _ _ d(3,4)])
      (simp_all add: d(2) sel_dst_def)
  then show ?thesis using d by (simp add: eval_nat_numeral)
qed

end
