(* ===== verification/Uthash_Hash.thy ===== *)
theory Uthash_Hash
  imports Prelude
begin

text \<open>
  The hash functions of \<open>src/shims/uthash/uthash.h\<close> and its Bloom filter. A key is the list of its \<open>keylen\<close>
  bytes; the macros read it through \<open>unsigned char *\<close>. \<open>HASH_BER\<close>, \<open>HASH_JEN\<close> and \<open>HASH_SFH\<close> convert the length to
  32 bits first. The others count with a 32-bit \<open>unsigned\<close> up to the length, which never ends for a length of
  type \<open>size_t\<close> from \<open>2 ^ 32\<close> on; the result is \<open>None\<close> then.
\<close>

text \<open>The bytes that \<open>(unsigned)(keylen)\<close> counts.\<close>

definition key_read :: "u8 list \<Rightarrow> u8 list" where
  "key_read key = take (wrap32 (length key)) key"

definition counted :: "u8 list \<Rightarrow> u32 \<Rightarrow> u32 option" where
  "counted key hashv = (if length key < 2 ^ 32 then Some hashv else None)"

section \<open>Bernstein, SAX, FNV and OAT\<close>

definition ber_step :: "u32 \<Rightarrow> u8 \<Rightarrow> u32" where
  "ber_step hashv c = (push_bit 5 hashv + hashv) + ucast c"

definition HASH_BER :: "u8 list \<Rightarrow> u32" where
  "HASH_BER key = foldl ber_step 0 (key_read key)"

definition sax_step :: "u32 \<Rightarrow> u8 \<Rightarrow> u32" where
  "sax_step hashv c = hashv XOR (push_bit 5 hashv + drop_bit 2 hashv + ucast c)"

definition HASH_SAX :: "u8 list \<Rightarrow> u32 option" where
  "HASH_SAX key = counted key (foldl sax_step 0 key)"

definition fnv_step :: "u32 \<Rightarrow> u8 \<Rightarrow> u32" where
  "fnv_step hashv c = (hashv XOR ucast c) * 16777619"

definition HASH_FNV :: "u8 list \<Rightarrow> u32 option" where
  "HASH_FNV key = counted key (foldl fnv_step 2166136261 key)"

definition oat_step :: "u32 \<Rightarrow> u8 \<Rightarrow> u32" where
  "oat_step hashv c =
    (let hashv = hashv + ucast c;
         hashv = hashv + push_bit 10 hashv
     in hashv XOR drop_bit 6 hashv)"

definition HASH_OAT :: "u8 list \<Rightarrow> u32 option" where
  "HASH_OAT key =
    (let hashv = foldl oat_step 0 key;
         hashv = hashv + push_bit 3 hashv;
         hashv = hashv XOR drop_bit 11 hashv
     in counted key (hashv + push_bit 15 hashv))"

section \<open>Jenkins\<close>

definition HASH_JEN_MIX :: "u32 \<Rightarrow> u32 \<Rightarrow> u32 \<Rightarrow> u32 \<times> u32 \<times> u32" where
  "HASH_JEN_MIX a b c =
    (let a = a - b; a = a - c; a = a XOR drop_bit 13 c;
         b = b - c; b = b - a; b = b XOR push_bit 8 a;
         c = c - a; c = c - b; c = c XOR drop_bit 13 b;
         a = a - b; a = a - c; a = a XOR drop_bit 12 c;
         b = b - c; b = b - a; b = b XOR push_bit 16 a;
         c = c - a; c = c - b; c = c XOR drop_bit 5 b;
         a = a - b; a = a - c; a = a XOR drop_bit 3 c;
         b = b - c; b = b - a; b = b XOR push_bit 10 a;
         c = c - a; c = c - b; c = c XOR drop_bit 15 b
     in (a, b, c))"

text \<open>Four bytes from index \<open>i\<close>, the first the lowest.\<close>

definition jen_word :: "u8 list \<Rightarrow> nat \<Rightarrow> u32" where
  "jen_word key i = ucast (key ! i) + push_bit 8 (ucast (key ! (i + 1))) + push_bit 16 (ucast (key ! (i + 2)))
     + push_bit 24 (ucast (key ! (i + 3)))"

text \<open>The loop over blocks of 12 bytes; the result has the bytes that are left.\<close>

fun jen_loop :: "u8 list \<Rightarrow> u32 \<Rightarrow> u32 \<Rightarrow> u32 \<Rightarrow> u8 list \<times> u32 \<times> u32 \<times> u32" where
  "jen_loop key i j hashv =
    (if 12 \<le> length key
     then (let i = i + jen_word key 0; j = j + jen_word key 4; hashv = hashv + jen_word key 8;
               (i, j, hashv) = HASH_JEN_MIX i j hashv
           in jen_loop (drop 12 key) i j hashv)
     else (key, i, j, hashv))"

declare jen_loop.simps [simp del]

text \<open>The \<open>switch\<close>, which falls through from the case of the number \<open>k\<close> of bytes left.\<close>

definition jen_switch :: "u8 list \<Rightarrow> u32 \<Rightarrow> u32 \<Rightarrow> u32 \<Rightarrow> u32 \<times> u32 \<times> u32" where
  "jen_switch key i j hashv =
    (let k = length key;
         hashv = (if 11 \<le> k then hashv + push_bit 24 (ucast (key ! 10)) else hashv);
         hashv = (if 10 \<le> k then hashv + push_bit 16 (ucast (key ! 9)) else hashv);
         hashv = (if 9 \<le> k then hashv + push_bit 8 (ucast (key ! 8)) else hashv);
         j = (if 8 \<le> k then j + push_bit 24 (ucast (key ! 7)) else j);
         j = (if 7 \<le> k then j + push_bit 16 (ucast (key ! 6)) else j);
         j = (if 6 \<le> k then j + push_bit 8 (ucast (key ! 5)) else j);
         j = (if 5 \<le> k then j + ucast (key ! 4) else j);
         i = (if 4 \<le> k then i + push_bit 24 (ucast (key ! 3)) else i);
         i = (if 3 \<le> k then i + push_bit 16 (ucast (key ! 2)) else i);
         i = (if 2 \<le> k then i + push_bit 8 (ucast (key ! 1)) else i);
         i = (if 1 \<le> k then i + ucast (key ! 0) else i)
     in (i, j, hashv))"

definition HASH_JEN :: "u8 list \<Rightarrow> u32" where
  "HASH_JEN key =
    (let (rest, i, j, hashv) = jen_loop (key_read key) 0x9e3779b9 0x9e3779b9 0xfeedbeef;
         hashv = hashv + of_nat (length key);
         (i, j, hashv) = jen_switch rest i j hashv;
         (i, j, hashv) = HASH_JEN_MIX i j hashv
     in hashv)"

section \<open>Hsieh\<close>

definition get16bits :: "u8 list \<Rightarrow> nat \<Rightarrow> u32" where
  "get16bits d i = push_bit 8 (ucast (d ! (i + 1))) + ucast (d ! i)"

definition sfh_step :: "u8 list \<Rightarrow> u32 \<Rightarrow> u32" where
  "sfh_step key hashv =
    (let hashv = hashv + get16bits key 0;
         tmp = push_bit 11 (get16bits key 2) XOR hashv;
         hashv = push_bit 16 hashv XOR tmp
     in hashv + drop_bit 11 hashv)"

fun sfh_loop :: "u8 list \<Rightarrow> u32 \<Rightarrow> u8 list \<times> u32" where
  "sfh_loop key hashv = (if 4 \<le> length key then sfh_loop (drop 4 key) (sfh_step key hashv) else (key, hashv))"

declare sfh_loop.simps [simp del]

definition sfh_rem :: "u8 list \<Rightarrow> u32 \<Rightarrow> u32" where
  "sfh_rem key hashv =
    (if length key = 3 then
       (let hashv = hashv + get16bits key 0;
            hashv = hashv XOR push_bit 16 hashv;
            hashv = hashv XOR push_bit 18 (ucast (key ! 2))
        in hashv + drop_bit 11 hashv)
     else if length key = 2 then
       (let hashv = hashv + get16bits key 0;
            hashv = hashv XOR push_bit 11 hashv
        in hashv + drop_bit 17 hashv)
     else if length key = 1 then
       (let hashv = hashv + ucast (key ! 0);
            hashv = hashv XOR push_bit 10 hashv
        in hashv + drop_bit 1 hashv)
     else hashv)"

definition sfh_avalanche :: "u32 \<Rightarrow> u32" where
  "sfh_avalanche hashv =
    (let hashv = hashv XOR push_bit 3 hashv; hashv = hashv + drop_bit 5 hashv;
         hashv = hashv XOR push_bit 4 hashv; hashv = hashv + drop_bit 17 hashv;
         hashv = hashv XOR push_bit 25 hashv
     in hashv + drop_bit 6 hashv)"

definition HASH_SFH :: "u8 list \<Rightarrow> u32" where
  "HASH_SFH key = (let (rest, hashv) = sfh_loop (key_read key) 0xcafebabe in sfh_avalanche (sfh_rem rest hashv))"

section \<open>The Bloom filter\<close>

text \<open>
  Compiled in when \<open>HASH_BLOOM\<close>, the logarithm of the number of bits, is defined; \<open>bv\<close> are the bytes of the
  filter. \<open>idx\<close> keeps the low \<open>nbits\<close> bits of the hash value.
\<close>

definition HASH_BLOOM_BYTELEN :: "nat \<Rightarrow> nat" where
  "HASH_BLOOM_BYTELEN nbits = 2 ^ nbits div 8 + (if 2 ^ nbits mod 8 \<noteq> (0 :: nat) then 1 else 0)"

definition HASH_BLOOM_MAKE :: "nat \<Rightarrow> u8 list" where
  "HASH_BLOOM_MAKE nbits = replicate (HASH_BLOOM_BYTELEN nbits) 0"

definition bloom_idx :: "nat \<Rightarrow> u32 \<Rightarrow> nat" where
  "bloom_idx nbits hashv = unat (hashv AND ucast (push_bit nbits (1 :: u64) - 1))"

definition HASH_BLOOM_BITSET :: "u8 list \<Rightarrow> nat \<Rightarrow> u8 list" where
  "HASH_BLOOM_BITSET bv idx = bv[idx div 8 := (bv ! (idx div 8)) OR push_bit (idx mod 8) 1]"

definition HASH_BLOOM_BITTEST :: "u8 list \<Rightarrow> nat \<Rightarrow> bool" where
  "HASH_BLOOM_BITTEST bv idx \<longleftrightarrow> (bv ! (idx div 8)) AND push_bit (idx mod 8) 1 \<noteq> 0"

definition HASH_BLOOM_ADD :: "nat \<Rightarrow> u8 list \<Rightarrow> u32 \<Rightarrow> u8 list" where
  "HASH_BLOOM_ADD nbits bv hashv = HASH_BLOOM_BITSET bv (bloom_idx nbits hashv)"

definition HASH_BLOOM_TEST :: "nat \<Rightarrow> u8 list \<Rightarrow> u32 \<Rightarrow> bool" where
  "HASH_BLOOM_TEST nbits bv hashv \<longleftrightarrow> HASH_BLOOM_BITTEST bv (bloom_idx nbits hashv)"

section \<open>Lemmas\<close>

text \<open>Jenkins' mix is undone step by step.\<close>

definition jen_unmix :: "u32 \<times> u32 \<times> u32 \<Rightarrow> u32 \<times> u32 \<times> u32" where
  "jen_unmix = (\<lambda>(a, b, c).
    let c = c XOR drop_bit 15 b; c = c + b; c = c + a;
        b = b XOR push_bit 10 a; b = b + a; b = b + c;
        a = a XOR drop_bit 3 c; a = a + c; a = a + b;
        c = c XOR drop_bit 5 b; c = c + b; c = c + a;
        b = b XOR push_bit 16 a; b = b + a; b = b + c;
        a = a XOR drop_bit 12 c; a = a + c; a = a + b;
        c = c XOR drop_bit 13 b; c = c + b; c = c + a;
        b = b XOR push_bit 8 a; b = b + a; b = b + c;
        a = a XOR drop_bit 13 c; a = a + c; a = a + b
    in (a, b, c))"

lemma xor_cancel: "(x XOR y) XOR y = (x :: 'a::len word)"
  by (simp add: xor.assoc)

text \<open>The values of the variables are named step by step, so that they are not copied into each other.\<close>

lemma jen_unmix_mix: "jen_unmix (HASH_JEN_MIX a b c) = (a, b, c)"
proof -
  define a1 where "a1 = (a - b - c) XOR drop_bit 13 c"
  define b1 where "b1 = (b - c - a1) XOR push_bit 8 a1"
  define c1 where "c1 = (c - a1 - b1) XOR drop_bit 13 b1"
  define a2 where "a2 = (a1 - b1 - c1) XOR drop_bit 12 c1"
  define b2 where "b2 = (b1 - c1 - a2) XOR push_bit 16 a2"
  define c2 where "c2 = (c1 - a2 - b2) XOR drop_bit 5 b2"
  define a3 where "a3 = (a2 - b2 - c2) XOR drop_bit 3 c2"
  define b3 where "b3 = (b2 - c2 - a3) XOR push_bit 10 a3"
  define c3 where "c3 = (c2 - a3 - b3) XOR drop_bit 15 b3"
  have mix: "HASH_JEN_MIX a b c = (a3, b3, c3)"
    by (simp only: HASH_JEN_MIX_def Let_def a1_def [symmetric] b1_def [symmetric] c1_def [symmetric] a2_def [symmetric] b2_def [symmetric] c2_def [symmetric] a3_def [symmetric] b3_def [symmetric] c3_def [symmetric] cong: let_weak_cong)
  have undo:
    "a1 XOR drop_bit 13 c = a - b - c"
    "b1 XOR push_bit 8 a1 = b - c - a1"
    "c1 XOR drop_bit 13 b1 = c - a1 - b1"
    "a2 XOR drop_bit 12 c1 = a1 - b1 - c1"
    "b2 XOR push_bit 16 a2 = b1 - c1 - a2"
    "c2 XOR drop_bit 5 b2 = c1 - a2 - b2"
    "a3 XOR drop_bit 3 c2 = a2 - b2 - c2"
    "b3 XOR push_bit 10 a3 = b2 - c2 - a3"
    "c3 XOR drop_bit 15 b3 = c2 - a3 - b3"
    by (simp_all only: a1_def b1_def c1_def a2_def b2_def c2_def a3_def b3_def c3_def xor_cancel)
  show ?thesis
    by (simp only: mix jen_unmix_def prod.case Let_def undo diff_add_cancel cong: let_weak_cong)
qed

text \<open>A right shift xored to the word, and a multiplication by an odd constant, lose nothing.\<close>

lemma xorshift_inj:
  fixes x y :: u32
  assumes "0 < n" "x XOR drop_bit n x = y XOR drop_bit n y"
  shows "x = y"
proof (rule bit_word_eqI)
  fix i assume "i < LENGTH(32)"
  then show "bit x i = bit y i"
  proof (induction "LENGTH(32) - i" arbitrary: i rule: less_induct)
    case less
    have "bit x (n + i) = bit y (n + i)"
    proof (cases "n + i < LENGTH(32)")
      case True
      then show ?thesis using less.hyps [of "n + i"] less.prems assms(1) by simp
    next
      case False
      then show ?thesis by (metis bit_imp_le_length)
    qed
    moreover have "bit (x XOR drop_bit n x) i = bit (y XOR drop_bit n y) i" by (simp only: assms(2))
    ultimately show ?case by (simp add: bit_simps) blast
  qed
qed

lemma odd_mult_inj:
  assumes "m * w = (1 :: u32)"
  shows "h * m = h' * m \<longleftrightarrow> h = h'"
proof
  assume "h * m = h' * m"
  then have "h * (m * w) = h' * (m * w)" unfolding mult.assoc [symmetric] by (rule arg_cong)
  then show "h = h'" by (simp add: assms)
qed simp

lemma odd_inverses:
  "(33 :: u32) * 1041204193 = 1" "(16777619 :: u32) * 899433627 = 1" "(1025 :: u32) * 3222273025 = 1"
  "(9 :: u32) * 954437177 = 1" "(32769 :: u32) * 1073709057 = 1"
  by simp_all

lemmas odd_mult_eq = odd_inverses [THEN odd_mult_inj]

lemma ucast_u8_eq: "(ucast c :: u32) = ucast d \<longleftrightarrow> c = (d :: u8)"
proof
  assume "(ucast c :: u32) = ucast d"
  then have "(ucast (ucast c :: u32) :: u8) = ucast (ucast d :: u32)" by simp
  then show "c = d" by (simp add: ucast_up_ucast_id is_up)
qed simp

lemma push_bit_add_self: "push_bit 5 h + h = h * (33 :: u32)" "h + push_bit 10 h = h * (1025 :: u32)"
  "h + push_bit 3 h = h * (9 :: u32)" "h + push_bit 15 h = h * (32769 :: u32)"
  by (simp_all add: push_bit_eq_mult algebra_simps)

lemma ber_step_inj: "ber_step h c = ber_step h' c \<longleftrightarrow> h = h'" "ber_step h c = ber_step h d \<longleftrightarrow> c = d"
  by (simp_all only: ber_step_def push_bit_add_self add_right_cancel add_left_cancel odd_mult_eq ucast_u8_eq)

lemma xor_eq: "x XOR z = y XOR z \<longleftrightarrow> x = y" "z XOR x = z XOR y \<longleftrightarrow> x = (y :: u32)"
  by (metis xor_cancel, metis xor_cancel xor.commute)

lemma fnv_step_inj: "fnv_step h c = fnv_step h' c \<longleftrightarrow> h = h'" "fnv_step h c = fnv_step h d \<longleftrightarrow> c = d"
  by (simp_all only: fnv_step_def odd_mult_eq xor_eq ucast_u8_eq)

lemma xorshift_eq: "0 < n \<Longrightarrow> x XOR drop_bit n x = y XOR drop_bit n y \<longleftrightarrow> x = (y :: u32)"
  using xorshift_inj by blast

lemma oat_step_inj: "oat_step h c = oat_step h' c \<longleftrightarrow> h = h'" "oat_step h c = oat_step h d \<longleftrightarrow> c = d"
  by (simp_all only: oat_step_def Let_def push_bit_add_self xorshift_eq zero_less_numeral odd_mult_eq
    add_right_cancel add_left_cancel ucast_u8_eq)

lemma foldl_step_inj:
  assumes "\<And>h h' c. step h c = step h' c \<longleftrightarrow> h = h'" "\<And>h c d. step h c = step h d \<longleftrightarrow> c = d"
  shows "foldl step h (p @ c # s) = foldl step h (p @ d # s) \<longleftrightarrow> c = d"
proof -
  have "foldl step x s = foldl step y s \<longleftrightarrow> x = y" for x y
    by (induction s arbitrary: x y) (simp_all add: assms(1))
  then show ?thesis by (simp add: assms(2))
qed

section \<open>Jenkins' function in integers\<close>

text \<open>
  The function as its author describes it, independent of the macros: on integers, with remainders instead of
  words. A round of the mix takes the triple \<open>(x, y, z)\<close> to \<open>(y, z, (x - y - z) xor sh z)\<close>, where \<open>sh\<close> shifts \<open>z\<close>
  to the right or to the left; the mix is nine such rounds. A block of 12 bytes is three little-endian numbers,
  which are added to the triple before it is mixed. The last block has the bytes that are left; its third
  number is moved up by one byte, and the length is added in the place that becomes free.
\<close>

definition jen_shr :: "nat \<Rightarrow> int \<Rightarrow> int" where
  "jen_shr n z = z div 2 ^ n"

definition jen_shl :: "nat \<Rightarrow> int \<Rightarrow> int" where
  "jen_shl n z = z * 2 ^ n mod 2 ^ 32"

definition jen_round :: "(int \<Rightarrow> int) \<Rightarrow> int \<times> int \<times> int \<Rightarrow> int \<times> int \<times> int" where
  "jen_round sh = (\<lambda>(x, y, z). (y, z, (x - y - z) mod 2 ^ 32 XOR sh z))"

definition jen_mix :: "int \<times> int \<times> int \<Rightarrow> int \<times> int \<times> int" where
  "jen_mix = fold jen_round [jen_shr 13, jen_shl 8, jen_shr 13, jen_shr 12, jen_shl 16, jen_shr 5, jen_shr 3, jen_shl 10, jen_shr 15]"

fun little_endian :: "u8 list \<Rightarrow> int" where
  "little_endian [] = 0"
| "little_endian (b # bs) = uint b + 256 * little_endian bs"

definition jen_add :: "int \<times> int \<times> int \<Rightarrow> int \<Rightarrow> int \<Rightarrow> int \<Rightarrow> int \<times> int \<times> int" where
  "jen_add = (\<lambda>(a, b, c) u v w. ((a + u) mod 2 ^ 32, (b + v) mod 2 ^ 32, (c + w) mod 2 ^ 32))"

definition jen_block :: "int \<times> int \<times> int \<Rightarrow> u8 list \<Rightarrow> int \<times> int \<times> int" where
  "jen_block t b = jen_mix (jen_add t (little_endian (take 4 b)) (little_endian (take 4 (drop 4 b))) (little_endian (drop 8 b)))"

definition jen_blocks :: "u8 list \<Rightarrow> u8 list list" where
  "jen_blocks key = map (\<lambda>b. take 12 (drop (12 * b) key)) [0..<length key div 12]"

definition jen_reference :: "u8 list \<Rightarrow> int" where
  "jen_reference key =
    (let n = length key mod 2 ^ 32; text = take n key; rest = drop (12 * (n div 12)) text;
         t = foldl jen_block (0x9e3779b9, 0x9e3779b9, 0xfeedbeef) (jen_blocks text)
     in snd (snd (jen_mix (jen_add t (little_endian (take 4 rest)) (little_endian (take 4 (drop 4 rest)))
          (256 * little_endian (drop 8 rest) + int n)))))"

text \<open>Words and their values.\<close>

definition values3 :: "u32 \<times> u32 \<times> u32 \<Rightarrow> int \<times> int \<times> int" where
  "values3 = (\<lambda>(a, b, c). (uint a, uint b, uint c))"

definition word_round :: "(u32 \<Rightarrow> u32) \<Rightarrow> u32 \<times> u32 \<times> u32 \<Rightarrow> u32 \<times> u32 \<times> u32" where
  "word_round sh = (\<lambda>(x, y, z). (y, z, (x - y - z) XOR sh z))"

lemma mix_rounds:
  "HASH_JEN_MIX a b c = fold word_round [drop_bit 13, push_bit 8, drop_bit 13, drop_bit 12, push_bit 16, drop_bit 5,
    drop_bit 3, push_bit 10, drop_bit 15] (a, b, c)"
proof -
  define a1 where "a1 = (a - b - c) XOR drop_bit 13 c"
  define b1 where "b1 = (b - c - a1) XOR push_bit 8 a1"
  define c1 where "c1 = (c - a1 - b1) XOR drop_bit 13 b1"
  define a2 where "a2 = (a1 - b1 - c1) XOR drop_bit 12 c1"
  define b2 where "b2 = (b1 - c1 - a2) XOR push_bit 16 a2"
  define c2 where "c2 = (c1 - a2 - b2) XOR drop_bit 5 b2"
  define a3 where "a3 = (a2 - b2 - c2) XOR drop_bit 3 c2"
  define b3 where "b3 = (b2 - c2 - a3) XOR push_bit 10 a3"
  define c3 where "c3 = (c2 - a3 - b3) XOR drop_bit 15 b3"
  note names = a1_def b1_def c1_def a2_def b2_def c2_def a3_def b3_def c3_def
  show ?thesis
    by (simp only: HASH_JEN_MIX_def Let_def fold_simps word_round_def prod.case names [symmetric] cong: let_weak_cong)
qed

lemma round_value:
  assumes "\<And>z. uint (sh z) = sh' (uint z)"
  shows "values3 (word_round sh t) = jen_round sh' (values3 t)"
proof -
  have "uint (x - y - z) = (uint x - uint y - uint z) mod 2 ^ 32" for x y z :: u32
    by (simp add: uint_word_ariths mod_diff_left_eq)
  then show ?thesis
    by (cases t) (simp add: values3_def word_round_def jen_round_def assms unsigned_xor_eq)
qed

lemma shift_value: "uint (drop_bit n z) = jen_shr n (uint z)" "uint (push_bit n z) = jen_shl n (uint z)" for z :: u32
proof -
  have "uint (drop_bit n z) = drop_bit n (uint z)" by (simp add: unsigned_drop_bit_eq bintr_uint)
  then show "uint (drop_bit n z) = jen_shr n (uint z)" by (simp only: jen_shr_def drop_bit_eq_div)
  have "uint (push_bit n z) = take_bit 32 (push_bit n (uint z))" by (simp add: unsigned_push_bit_eq)
  then show "uint (push_bit n z) = jen_shl n (uint z)" by (simp only: jen_shl_def push_bit_eq_mult take_bit_eq_mod)
qed

lemma mix_value: "values3 (HASH_JEN_MIX a b c) = jen_mix (values3 (a, b, c))"
  unfolding mix_rounds jen_mix_def
  by (simp only: fold_simps round_value [of _ "jen_shr _", OF shift_value(1)] round_value [of _ "jen_shl _", OF shift_value(2)])

lemma little_endian_pad: "little_endian (bs @ replicate n 0) = little_endian bs"
proof (induction bs)
  case Nil
  show ?case by (induction n) simp_all
qed simp

lemma word_value: "i + 4 \<le> length b \<Longrightarrow> jen_word b i = of_int (little_endian (take 4 (drop i b)))"
proof -
  assume "i + 4 \<le> length b"
  then have "take 4 (drop i b) = [b ! i, b ! (i + 1), b ! (i + 2), b ! (i + 3)]"
    by (intro nth_equalityI) (auto simp: nth_Cons less_Suc_eq numeral_eq_Suc split: nat.split)
  moreover have "ucast c = (of_int (uint c) :: u32)" for c :: u8 by simp
  ultimately show ?thesis
    by (simp add: jen_word_def push_bit_eq_mult algebra_simps)
qed

lemma add_value: "values3 (i + of_int u, j + of_int v, h + of_int w) = jen_add (values3 (i, j, h)) u v w"
  by (simp add: values3_def jen_add_def uint_word_ariths uint_word_of_int mod_add_right_eq)

lemma nth_pad: "i < 12 \<Longrightarrow> length r < 12 \<Longrightarrow> (r @ replicate (12 - length r) 0) ! i = (if i < length r then r ! i else (0 :: u8))"
  by (simp add: nth_append)

lemma jen_switch_pad:
  assumes "length r < 12"
  defines "b \<equiv> r @ replicate (12 - length r) 0"
  shows "jen_switch r i j h = (i + jen_word b 0, j + jen_word b 4, h + push_bit 8 (jen_word b 8))"
proof -
  have drop11: "push_bit 8 (push_bit 24 x) = (0 :: u32)" for x by (rule bit_word_eqI) (simp add: bit_simps)
  have b: "b ! n = (if n < length r then r ! n else 0)" if "n < 12" for n
    unfolding b_def using assms(1) that by (intro nth_pad)
  show ?thesis
    unfolding jen_switch_def jen_word_def Let_def
    by (simp add: b push_bit_add drop11 algebra_simps Suc_le_eq) (simp add: numeral_2_eq_2)
qed

lemma jen_blocks_step: "12 \<le> length key \<Longrightarrow> jen_blocks key = take 12 key # jen_blocks (drop 12 key)"
proof -
  assume "12 \<le> length key"
  then have "length key div 12 = Suc ((length key - 12) div 12)" by (simp add: le_div_geq)
  then show ?thesis by (simp add: jen_blocks_def upt_conv_Cons map_Suc_upt [symmetric] algebra_simps del: upt_Suc)
qed

lemma block_value:
  "12 \<le> length key \<Longrightarrow> values3 (HASH_JEN_MIX (i + jen_word key 0) (j + jen_word key 4) (h + jen_word key 8)) =
    jen_block (values3 (i, j, h)) (take 12 key)"
proof -
  assume "12 \<le> length key"
  moreover have "drop 8 (take 12 key) = take 4 (drop 8 key)" "take 4 (drop 4 (take 12 key)) = take 4 (drop 4 key)"
    "take 4 (take 12 key) = take 4 key" by (simp_all add: drop_take)
  ultimately show ?thesis by (simp add: mix_value jen_block_def word_value add_value)
qed

lemma jen_loop_blocks:
  "fst (jen_loop key i j h) = drop (12 * (length key div 12)) key \<and>
    values3 (snd (jen_loop key i j h)) = foldl jen_block (values3 (i, j, h)) (jen_blocks key)"
proof (induction key i j h rule: jen_loop.induct)
  case (1 key i j h)
  show ?case
  proof (cases "12 \<le> length key")
    case False
    then show ?thesis by (simp add: jen_loop.simps [of key] jen_blocks_def)
  next
    case True
    obtain i' j' h' where mix: "HASH_JEN_MIX (i + jen_word key 0) (j + jen_word key 4) (h + jen_word key 8) = (i', j', h')"
      by (cases "HASH_JEN_MIX (i + jen_word key 0) (j + jen_word key 4) (h + jen_word key 8)")
    have n: "length key div 12 = Suc ((length key - 12) div 12)" using True by (simp add: le_div_geq)
    have "values3 (i', j', h') = jen_block (values3 (i, j, h)) (take 12 key)" using block_value [OF True, of i j h] mix by simp
    then show ?thesis
      using 1 [OF True refl refl refl mix [symmetric] refl refl] True
      by (simp add: jen_loop.simps [of key] mix jen_blocks_step n add.commute)
  qed
qed

text \<open>The bits of the filter after some additions.\<close>

lemma bloom_idx_mod: "nbits \<le> 32 \<Longrightarrow> bloom_idx nbits hashv = unat hashv mod 2 ^ nbits"
proof -
  assume n: "nbits \<le> 32"
  have "hashv AND ucast (push_bit nbits (1 :: u64) - 1) = take_bit nbits hashv"
  proof (rule bit_word_eqI)
    fix i assume i: "i < LENGTH(32)"
    have "push_bit nbits (1 :: u64) - 1 = mask nbits" by (simp add: push_bit_eq_mult mask_eq_exp_minus_1)
    then show "bit (hashv AND ucast (push_bit nbits (1 :: u64) - 1)) i = bit (take_bit nbits hashv) i"
      using i by (auto simp: bit_simps)
  qed
  then have "bloom_idx nbits hashv = unat (take_bit nbits hashv)" by (simp only: bloom_idx_def)
  then show ?thesis by (simp only: unsigned_take_bit_eq) (simp add: take_bit_eq_mod)
qed

lemma bloom_bittest: "HASH_BLOOM_BITTEST bv i \<longleftrightarrow> bit (bv ! (i div 8)) (i mod 8)"
proof -
  have "x AND push_bit k 1 = 0 \<longleftrightarrow> \<not> bit x k" if "k < 8" for x :: u8 and k
    by (simp add: push_bit_eq_mult and_exp_eq_0_iff_not_bit)
  then show ?thesis by (simp add: HASH_BLOOM_BITTEST_def)
qed

lemma bloom_set_test:
  "i div 8 < length bv \<Longrightarrow>
    HASH_BLOOM_BITTEST (HASH_BLOOM_BITSET bv i) j \<longleftrightarrow> i = j \<or> HASH_BLOOM_BITTEST bv j"
proof -
  assume i: "i div 8 < length bv"
  have "i = j \<longleftrightarrow> i div 8 = j div 8 \<and> i mod 8 = j mod 8" by (metis div_mult_mod_eq)
  then show ?thesis
    using i by (auto simp: bloom_bittest HASH_BLOOM_BITSET_def nth_list_update bit_simps)
qed

lemma length_bloom_set [simp]: "length (HASH_BLOOM_BITSET bv i) = length bv"
  by (simp add: HASH_BLOOM_BITSET_def)

lemma bloom_idx_fits: "nbits \<le> 32 \<Longrightarrow> bloom_idx nbits hashv div 8 < HASH_BLOOM_BYTELEN nbits"
proof -
  assume "nbits \<le> 32"
  then have i: "bloom_idx nbits hashv < 2 ^ nbits" by (simp add: bloom_idx_mod)
  show ?thesis
  proof (cases "2 ^ nbits mod 8 = (0 :: nat)")
    case True
    then have "2 ^ nbits div 8 * 8 = (2 :: nat) ^ nbits" by (simp add: dvd_div_mult_self mod_0_imp_dvd)
    then have "bloom_idx nbits hashv < 2 ^ nbits div 8 * 8" using i by simp
    then have "bloom_idx nbits hashv div 8 < 2 ^ nbits div 8" by (rule less_mult_imp_div_less)
    then show ?thesis using True by (simp add: HASH_BLOOM_BYTELEN_def)
  next
    case False
    have "bloom_idx nbits hashv div 8 \<le> 2 ^ nbits div 8" using i by (intro div_le_mono) simp
    then show ?thesis using False by (simp add: HASH_BLOOM_BYTELEN_def)
  qed
qed

lemma bloom_adds:
  "nbits \<le> 32 \<Longrightarrow> length bv = HASH_BLOOM_BYTELEN nbits \<Longrightarrow>
    HASH_BLOOM_TEST nbits (foldl (HASH_BLOOM_ADD nbits) bv hs) h \<longleftrightarrow>
      HASH_BLOOM_TEST nbits bv h \<or> (\<exists>h' \<in> set hs. unat h' mod 2 ^ nbits = unat h mod 2 ^ nbits)"
proof (induction hs arbitrary: bv)
  case (Cons g hs)
  have "length (HASH_BLOOM_ADD nbits bv g) = HASH_BLOOM_BYTELEN nbits" using Cons.prems(2) by (simp add: HASH_BLOOM_ADD_def)
  from Cons.IH [OF Cons.prems(1) this] show ?case
    using bloom_set_test [of "bloom_idx nbits g" bv "bloom_idx nbits h"] bloom_idx_fits [OF Cons.prems(1), of g] Cons.prems
    by (auto simp: HASH_BLOOM_TEST_def HASH_BLOOM_ADD_def bloom_idx_mod)
qed simp


section \<open>Properties\<close>

text \<open>C39: \<open>HASH_JEN\<close>, the default hash function, computes Jenkins' function: its value is the one that the
  description on integers gives, for keys of every length (of which it reads the length modulo \<open>2 ^ 32\<close>). The mix
  on words, the loop over the blocks and the fall through of the \<open>switch\<close> are each the step described.\<close>

theorem jen_is_reference: "uint (HASH_JEN key) = jen_reference key"
proof -
  let ?n = "length key mod 2 ^ 32"
  let ?text = "take ?n key" and ?init = "(0x9e3779b9, 0x9e3779b9, 0xfeedbeef) :: u32 \<times> u32 \<times> u32"
  let ?rest = "drop (12 * (?n div 12)) ?text"
  have n: "key_read key = ?text" "length ?text = ?n" by (simp_all add: key_read_def wrap32_def)
  have r: "length ?rest < 12" unfolding length_drop n(2) by (simp add: minus_mult_div_eq_mod)
  obtain i j h where loop: "jen_loop ?text 0x9e3779b9 0x9e3779b9 0xfeedbeef = (?rest, i, j, h)"
    and v: "values3 (i, j, h) = foldl jen_block (values3 ?init) (jen_blocks ?text)"
    using jen_loop_blocks [where key = ?text and i = "0x9e3779b9" and j = "0x9e3779b9" and h = "0xfeedbeef"] unfolding n(2) by (metis prod.collapse)
  have "(of_int (int (length key)) :: u32) = of_int (int (length key) mod 2 ^ 32)"
    by (simp only: word_of_int_eq_iff take_bit_eq_mod) simp
  then have len: "(of_nat (length key) :: u32) = of_int (int ?n)" by (simp only: of_int_of_nat_eq zmod_int of_nat_power of_nat_numeral)
  have last_block: "values3 (HASH_JEN_MIX i' j' h') = jen_mix (jen_add (values3 (i, j, h)) (little_endian (take 4 ?rest))
      (little_endian (take 4 (drop 4 ?rest))) (256 * little_endian (drop 8 ?rest) + int ?n))"
    if "jen_switch ?rest i j (h + of_nat (length key)) = (i', j', h')" for i' j' h'
  proof -
    let ?b = "?rest @ replicate (12 - length ?rest) 0"
    have b: "length ?b = 12" using r by simp
    have w: "jen_word ?b k = of_int (little_endian (take 4 (drop k ?rest)))" if "k \<le> 8" for k
      using word_value [of k ?b] that b by (simp only: take_append drop_append take_replicate drop_replicate little_endian_pad)
    have "take 4 (drop 8 ?rest) = drop 8 ?rest" using r by simp
    then have "i' = i + of_int (little_endian (take 4 ?rest))" "j' = j + of_int (little_endian (take 4 (drop 4 ?rest)))"
      "h' = h + of_int (256 * little_endian (drop 8 ?rest) + int ?n)"
      using that w [of 0] w [of 4] w [of 8] unfolding jen_switch_pad [OF r] len
      by (simp_all add: push_bit_eq_mult algebra_simps)
    then show ?thesis by (simp only: mix_value add_value)
  qed
  show ?thesis
  proof -
    obtain i' j' h' where sw: "jen_switch ?rest i j (h + of_nat (length key)) = (i', j', h')"
      by (cases "jen_switch ?rest i j (h + of_nat (length key))")
    have "uint (HASH_JEN key) = snd (snd (values3 (HASH_JEN_MIX i' j' h')))"
      by (cases "HASH_JEN_MIX i' j' h'") (simp only: HASH_JEN_def n(1) loop Let_def prod.case sw values3_def snd_conv)
    also have "\<dots> = jen_reference key"
      unfolding last_block [OF sw] v by (simp add: jen_reference_def Let_def values3_def)
    finally show ?thesis .
  qed
qed

text \<open>Jenkins' mix loses nothing: \<open>HASH_JEN_MIX\<close> is a permutation of the triples of words.\<close>

theorem jen_mix_bijective: "bij (\<lambda>(a, b, c). HASH_JEN_MIX a b c)"
proof -
  have "inj (\<lambda>(a, b, c). HASH_JEN_MIX a b c)"
    by (rule inj_on_inverseI [where g = jen_unmix]) (auto simp: jen_unmix_mix)
  then show ?thesis by (simp add: bij_def finite_UNIV_inj_surj)
qed

text \<open>Two keys of less than \<open>2 ^ 32\<close> bytes that differ in one byte never have the same hash value under \<open>HASH_BER\<close>, \<open>HASH_FNV\<close> and
  \<open>HASH_OAT\<close>; under \<open>HASH_SAX\<close> they can.\<close>

theorem one_byte_change:
  assumes "length (p @ c # s) < 2 ^ 32"
  shows "(HASH_BER (p @ c # s) = HASH_BER (p @ d # s) \<longleftrightarrow> c = d) \<and>
   (HASH_FNV (p @ c # s) = HASH_FNV (p @ d # s) \<longleftrightarrow> c = d) \<and>
   (HASH_OAT (p @ c # s) = HASH_OAT (p @ d # s) \<longleftrightarrow> c = d) \<and>
   HASH_SAX [0, 95, 216] = HASH_SAX [0, 96, 216]"
proof (intro conjI)
  have key_read: "key_read (p @ b # s) = p @ b # s" and counted: "counted (p @ b # s) h = Some h" for b h
    using assms by (simp_all add: key_read_def counted_def)
  show "HASH_BER (p @ c # s) = HASH_BER (p @ d # s) \<longleftrightarrow> c = d"
    unfolding HASH_BER_def key_read by (rule foldl_step_inj) (rule ber_step_inj)+
  show "HASH_FNV (p @ c # s) = HASH_FNV (p @ d # s) \<longleftrightarrow> c = d"
    unfolding HASH_FNV_def counted option.inject by (rule foldl_step_inj) (rule fnv_step_inj)+
  have "HASH_OAT (p @ c # s) = HASH_OAT (p @ d # s) \<longleftrightarrow> foldl oat_step 0 (p @ c # s) = foldl oat_step 0 (p @ d # s)"
    by (simp only: HASH_OAT_def counted option.inject Let_def push_bit_add_self xorshift_eq zero_less_numeral odd_mult_eq)
  then show "HASH_OAT (p @ c # s) = HASH_OAT (p @ d # s) \<longleftrightarrow> c = d"
    by (simp only: foldl_step_inj [where step = oat_step, OF oat_step_inj])
  show "HASH_SAX [0, 95, 216] = HASH_SAX [0, 96, 216]" by code_simp
qed

text \<open>The Bloom filter of \<open>HASH_BLOOM\<close>, of up to \<open>2 ^ 32\<close> bits: after any additions, the test of a hash value
  succeeds exactly if a value with the same low bits was added, so a key of the table is never missed.\<close>

theorem bloom_filter_exact:
  assumes "nbits \<le> 32"
  shows "HASH_BLOOM_TEST nbits (foldl (HASH_BLOOM_ADD nbits) (HASH_BLOOM_MAKE nbits) added) hashv \<longleftrightarrow>
    (\<exists>h \<in> set added. unat h mod 2 ^ nbits = unat hashv mod 2 ^ nbits)"
proof -
  have "\<not> HASH_BLOOM_TEST nbits (HASH_BLOOM_MAKE nbits) hashv"
    using bloom_idx_fits [OF assms] by (simp add: HASH_BLOOM_TEST_def bloom_bittest HASH_BLOOM_MAKE_def)
  then show ?thesis using bloom_adds [OF assms, of "HASH_BLOOM_MAKE nbits"] by (simp add: HASH_BLOOM_MAKE_def)
qed

theorem bloom_filter_exact_witness:
  "HASH_BLOOM_TEST 4 (foldl (HASH_BLOOM_ADD 4) (HASH_BLOOM_MAKE 4) [0x1a, 0x25]) 0x3a \<and>
   \<not> HASH_BLOOM_TEST 4 (foldl (HASH_BLOOM_ADD 4) (HASH_BLOOM_MAKE 4) [0x1a, 0x25]) 0x1b"
  using bloom_filter_exact [where nbits = 4 and added = "[0x1a, 0x25]" and hashv = "0x3a"]
    bloom_filter_exact [where nbits = 4 and added = "[0x1a, 0x25]" and hashv = "0x1b"] by simp

end
