(* ===== verification/Stb.thy ===== *)
theory Stb
  imports Prelude
begin

text \<open>
  stb_ds (\<open>src/shims/stb_ds_hm_sh/stb_ds_modified.h\<close>): the hash map of the library, an array of elements with a
  hash index beside it. Element 0 of the array is the default element, the entries follow it without gaps.
  The index holds, in buckets of eight slots, the hash code of an entry and its position; a hash code of 0
  marks an empty slot and 1 a deleted one. A probe searches a whole bucket, from the slot of the hash code to the end
  and then from the start, and goes on in triangular steps of buckets.

  Sizes are natural numbers: a slot takes 16 bytes, so \<open>slot_count\<close> is below \<open>2 ^ 60\<close> and the products
  of \<open>stbds_make_hash_index\<close> stay below \<open>2 ^ 64\<close>. The list \<open>sa_elems\<close> holds the elements \<open>0\<close> to \<open>length - 1\<close>.
  The probe loops have no exit of their own, hence \<open>partial_function (option)\<close>: \<open>None\<close> is a call that does
  not return. \<open>STBDS_REALLOC\<close> is taken to succeed, as the code takes it. Keys are values, so
  the copies of strings in the modes \<open>SH_STRDUP\<close> and \<open>SH_ARENA\<close> equal their originals; their memory shows in the
  arena and in what \<open>stbds_hmfree_func\<close> frees.
\<close>

section \<open>Data\<close>

definition STBDS_BUCKET_LENGTH :: nat where "STBDS_BUCKET_LENGTH = 8"

definition STBDS_BUCKET_SHIFT :: nat where "STBDS_BUCKET_SHIFT = 3"

definition STBDS_BUCKET_MASK :: nat where "STBDS_BUCKET_MASK = STBDS_BUCKET_LENGTH - 1"

definition STBDS_INDEX_EMPTY :: int where "STBDS_INDEX_EMPTY = -1"

definition STBDS_INDEX_DELETED :: int where "STBDS_INDEX_DELETED = -2"

definition STBDS_INDEX_IN_USE :: "int \<Rightarrow> bool" where "STBDS_INDEX_IN_USE x \<longleftrightarrow> 0 \<le> x"

definition STBDS_HASH_EMPTY :: u64 where "STBDS_HASH_EMPTY = 0"

definition STBDS_HASH_DELETED :: u64 where "STBDS_HASH_DELETED = 1"

datatype hm_mode = HM_BINARY | HM_STRING

datatype sh_mode = SH_NONE | SH_DEFAULT | SH_STRDUP | SH_ARENA

text \<open>The string arena: the blocks in list order, each with its address and the size of its storage.\<close>

record stb_arena =
  ar_storage :: "(nat \<times> nat) list"
  ar_remaining :: nat
  ar_block :: u8
  ar_mode :: sh_mode

record stb_bucket =
  bk_hash :: "u64 list"
  bk_index :: "int list"

text \<open>\<open>temp_key\<close> is \<open>None\<close> as long as it has not been written.\<close>

record 'k stb_index =
  temp_key :: "'k option"
  slot_count :: nat
  used_count :: nat
  used_count_threshold :: nat
  used_count_shrink_threshold :: nat
  tombstone_count :: nat
  tombstone_count_threshold :: nat
  hi_seed :: u64
  slot_count_log2 :: nat
  hi_string :: stb_arena
  hi_storage :: "stb_bucket list"

record ('k, 'v) stb_arr =
  sa_elems :: "('k \<times> 'v) list"
  sa_capacity :: nat
  sa_temp :: int
  sa_table :: "'k stb_index option"

text \<open>
  What the code takes from outside: the hash function of a key and a seed, the element of zero bytes,
  the contents of the value of an element that has just been added, and the length of a key as a string.
\<close>

record ('k, 'v) stb_env =
  sb_hash :: "'k \<Rightarrow> u64 \<Rightarrow> u64"
  sb_zero :: "'k \<times> 'v"
  sb_junk :: 'v
  sb_strlen :: "'k \<Rightarrow> nat"

section \<open>The array\<close>

definition stbds_arrlen :: "('k, 'v) stb_arr option \<Rightarrow> nat" where
  "stbds_arrlen a = (case a of None \<Rightarrow> 0 | Some x \<Rightarrow> length (sa_elems x))"

definition stbds_arrcap :: "('k, 'v) stb_arr option \<Rightarrow> nat" where
  "stbds_arrcap a = (case a of None \<Rightarrow> 0 | Some x \<Rightarrow> sa_capacity x)"

definition stbds_arrgrowf :: "('k, 'v) stb_arr option \<Rightarrow> nat \<Rightarrow> nat \<Rightarrow> ('k, 'v) stb_arr option" where
  "stbds_arrgrowf a addlen min_cap =
    (let min_len = stbds_arrlen a + addlen;
         min_cap = (if min_len > min_cap then min_len else min_cap)
     in if min_cap \<le> stbds_arrcap a then a
        else let min_cap = (if min_cap < 2 * stbds_arrcap a then 2 * stbds_arrcap a
                            else if min_cap < 4 then 4 else min_cap)
             in Some (case a of
                  None \<Rightarrow> \<lparr>sa_elems = [], sa_capacity = min_cap, sa_temp = 0, sa_table = None\<rparr>
                | Some x \<Rightarrow> x\<lparr>sa_capacity := min_cap\<rparr>))"

text \<open>The array with nothing but the zeroed default element, which lookup and insertion make of \<open>NULL\<close>.\<close>

definition stb_default_array :: "('k, 'v) stb_env \<Rightarrow> ('k, 'v) stb_arr" where
  "stb_default_array E =
    (case stbds_arrgrowf None 0 1 of
       Some x \<Rightarrow> x\<lparr>sa_elems := sa_elems x @ [sb_zero E]\<rparr>
     | None \<Rightarrow> \<lparr>sa_elems = [], sa_capacity = 0, sa_temp = 0, sa_table = None\<rparr>)"

text \<open>The entry at position \<open>i\<close>, behind the default element.\<close>

definition elem_at :: "('k \<times> 'v) list \<Rightarrow> int \<Rightarrow> 'k \<times> 'v" where
  "elem_at es i = es ! nat (i + 1)"

definition stbds_is_key_equal :: "('k \<times> 'v) list \<Rightarrow> 'k \<Rightarrow> int \<Rightarrow> bool" where
  "stbds_is_key_equal es key i \<longleftrightarrow> key = fst (elem_at es i)"

section \<open>Probing\<close>

definition stbds_probe_position :: "u64 \<Rightarrow> nat \<Rightarrow> nat" where
  "stbds_probe_position hash slots = unat hash AND (slots - 1)"

fun stbds_log2_loop :: "nat \<Rightarrow> nat \<Rightarrow> nat" where
  "stbds_log2_loop slots n = (if slots > 1 then stbds_log2_loop (slots div 2) (n + 1) else n)"

declare stbds_log2_loop.simps [simp del]

definition stbds_log2 :: "nat \<Rightarrow> nat" where
  "stbds_log2 slots = stbds_log2_loop slots 0"

text \<open>\<open>hash < 2\<close> is moved away from the codes of empty and deleted slots.\<close>

definition stored_hash :: "u64 \<Rightarrow> u64" where
  "stored_hash hash = (if hash < 2 then hash + 2 else hash)"

definition hash_at :: "'k stb_index \<Rightarrow> nat \<Rightarrow> nat \<Rightarrow> u64" where
  "hash_at t b z = bk_hash (hi_storage t ! b) ! z"

definition index_at :: "'k stb_index \<Rightarrow> nat \<Rightarrow> nat \<Rightarrow> int" where
  "index_at t b z = bk_index (hi_storage t ! b) ! z"

definition set_slot :: "'k stb_index \<Rightarrow> nat \<Rightarrow> nat \<Rightarrow> u64 \<Rightarrow> int \<Rightarrow> 'k stb_index" where
  "set_slot t b z hash i =
    t\<lparr>hi_storage := (hi_storage t)[b := \<lparr>bk_hash = (bk_hash (hi_storage t ! b))[z := hash],
                                        bk_index = (bk_index (hi_storage t ! b))[z := i]\<rparr>]\<rparr>"

text \<open>
  The shape the three probe loops share. \<open>visit wrapped b z s\<close> is the body of an inner loop at slot \<open>z\<close> of
  bucket \<open>b\<close>, in the second inner loop when \<open>wrapped\<close>: it leaves the loops with a result or continues
  with a state.
\<close>

fun slots_loop :: "(nat \<Rightarrow> 's \<Rightarrow> 'r + 's) \<Rightarrow> nat list \<Rightarrow> 's \<Rightarrow> 'r + 's" where
  "slots_loop visit [] s = Inr s"
| "slots_loop visit (z # zs) s = (case visit z s of Inl r \<Rightarrow> Inl r | Inr s \<Rightarrow> slots_loop visit zs s)"

definition bucket_scan :: "(bool \<Rightarrow> nat \<Rightarrow> nat \<Rightarrow> 's \<Rightarrow> 'r + 's) \<Rightarrow> nat \<Rightarrow> 's \<Rightarrow> 'r + 's" where
  "bucket_scan visit pos s =
    (let b = drop_bit STBDS_BUCKET_SHIFT pos; limit = pos AND STBDS_BUCKET_MASK
     in case slots_loop (visit False b) [limit..<STBDS_BUCKET_LENGTH] s of
          Inl r \<Rightarrow> Inl r
        | Inr s \<Rightarrow> slots_loop (visit True b) [0..<limit] s)"

partial_function (option) probe_loop ::
    "(bool \<Rightarrow> nat \<Rightarrow> nat \<Rightarrow> 's \<Rightarrow> 'r + 's) \<Rightarrow> nat \<Rightarrow> nat \<Rightarrow> nat \<Rightarrow> 's \<Rightarrow> 'r option" where
  "probe_loop visit slots pos step s =
    (case bucket_scan visit pos s of
       Inl r \<Rightarrow> Some r
     | Inr s \<Rightarrow> probe_loop visit slots ((pos + step) AND (slots - 1)) (step + STBDS_BUCKET_LENGTH) s)"

declare probe_loop.simps [code]

section \<open>The index\<close>

text \<open>The loop that copies one slot to the new index.\<close>

definition place_visit :: "'k stb_index \<Rightarrow> u64 \<Rightarrow> int \<Rightarrow> bool \<Rightarrow> nat \<Rightarrow> nat \<Rightarrow> unit \<Rightarrow> 'k stb_index + unit" where
  "place_visit t hash i wrapped b z u =
    (if hash_at t b z = 0 then Inl (set_slot t b z hash i) else Inr ())"

fun copy_slots :: "'k stb_index \<Rightarrow> (nat \<times> nat) list \<Rightarrow> 'k stb_index \<Rightarrow> 'k stb_index option" where
  "copy_slots ot [] t = Some t"
| "copy_slots ot ((i, j) # ijs) t =
    (if STBDS_INDEX_IN_USE (index_at ot i j)
     then let hash = hash_at ot i j
          in case probe_loop (place_visit t hash (index_at ot i j)) (slot_count t)
                    (stbds_probe_position hash (slot_count t)) STBDS_BUCKET_LENGTH () of
               None \<Rightarrow> None
             | Some t \<Rightarrow> copy_slots ot ijs t
     else copy_slots ot ijs t)"

text \<open>\<open>stbds_load_32_or_64\<close> for a 64-bit \<open>size_t\<close>, and the two constants of the generator of seeds.\<close>

definition stbds_load_64 :: "u64 \<Rightarrow> u64 \<Rightarrow> u64 \<Rightarrow> u64" where
  "stbds_load_64 v32 v64_hi v64_lo =
    (let tmp = drop_bit 16 (drop_bit 16 (push_bit 16 (push_bit 16 (v64_lo XOR v32))));
         var = push_bit 16 (push_bit 16 v64_hi)
     in var XOR (tmp XOR v32))"

definition next_seed :: "u64 \<Rightarrow> u64" where
  "next_seed seed = seed * stbds_load_64 2147001325 0x27bb2ee6 0x87b0b0fd + stbds_load_64 715136305 0 0xb504f32d"

text \<open>The constants are the ones the comment beside them names.\<close>

lemma next_seed_64 [code]: "next_seed seed = seed * 2862933555777941757 + 3037000493"
  by (simp add: next_seed_def stbds_load_64_def)

definition stb_arena_zero :: stb_arena where
  "stb_arena_zero = \<lparr>ar_storage = [], ar_remaining = 0, ar_block = 0, ar_mode = SH_NONE\<rparr>"

text \<open>\<open>gs\<close> is the global \<open>stbds_hash_seed\<close>.\<close>

definition stbds_make_hash_index :: "u64 \<Rightarrow> nat \<Rightarrow> 'k stb_index option \<Rightarrow> ('k stb_index \<times> u64) option" where
  "stbds_make_hash_index gs slots ot =
    (let t = \<lparr>temp_key = None, slot_count = slots, used_count = 0,
              used_count_threshold = slots * 14 div 16,
              used_count_shrink_threshold = (if slots \<le> STBDS_BUCKET_LENGTH then 0 else slots * 6 div 16),
              tombstone_count = 0, tombstone_count_threshold = slots * 2 div 16,
              hi_seed = (case ot of Some ot \<Rightarrow> hi_seed ot | None \<Rightarrow> gs),
              slot_count_log2 = stbds_log2 slots,
              hi_string = (case ot of Some ot \<Rightarrow> hi_string ot | None \<Rightarrow> stb_arena_zero),
              hi_storage = replicate (drop_bit STBDS_BUCKET_SHIFT slots)
                \<lparr>bk_hash = replicate STBDS_BUCKET_LENGTH STBDS_HASH_EMPTY,
                 bk_index = replicate STBDS_BUCKET_LENGTH STBDS_INDEX_EMPTY\<rparr>\<rparr>
     in case ot of
          None \<Rightarrow> Some (t, next_seed gs)
        | Some ot \<Rightarrow>
            (case copy_slots ot (List.product [0..<drop_bit STBDS_BUCKET_SHIFT (slot_count ot)] [0..<STBDS_BUCKET_LENGTH])
                    (t\<lparr>used_count := used_count ot\<rparr>) of
               None \<Rightarrow> None
             | Some t \<Rightarrow> Some (t, gs)))"

text \<open>The condition that the code asserts of the thresholds, with assertions turned off.\<close>

definition stbds_assert_thresholds :: "'k stb_index \<Rightarrow> bool" where
  "stbds_assert_thresholds t \<longleftrightarrow> used_count_threshold t + tombstone_count_threshold t < slot_count t"

section \<open>Lookup\<close>

definition find_visit ::
    "'k stb_index \<Rightarrow> ('k \<times> 'v) list \<Rightarrow> 'k \<Rightarrow> u64 \<Rightarrow> bool \<Rightarrow> nat \<Rightarrow> nat \<Rightarrow> unit \<Rightarrow> int + unit" where
  "find_visit t es key hash wrapped b z u =
    (if hash_at t b z = hash
     then (if stbds_is_key_equal es key (index_at t b z) then Inl (int (STBDS_BUCKET_LENGTH * b + z)) else Inr ())
     else if hash_at t b z = STBDS_HASH_EMPTY then Inl (-1) else Inr ())"

definition stbds_hm_find_slot :: "('k, 'v) stb_env \<Rightarrow> 'k stb_index \<Rightarrow> ('k \<times> 'v) list \<Rightarrow> 'k \<Rightarrow> int option" where
  "stbds_hm_find_slot E t es key =
    (let hash = stored_hash (sb_hash E key (hi_seed t))
     in probe_loop (find_visit t es key hash) (slot_count t) (stbds_probe_position hash (slot_count t))
          STBDS_BUCKET_LENGTH ())"

text \<open>The array (made when there is none) and the position of the key, or \<open>-1\<close>.\<close>

definition stbds_hmget_key_ts ::
    "('k, 'v) stb_env \<Rightarrow> ('k, 'v) stb_arr option \<Rightarrow> 'k \<Rightarrow> (('k, 'v) stb_arr \<times> int) option" where
  "stbds_hmget_key_ts E a key =
    (case a of
       None \<Rightarrow> Some (stb_default_array E, STBDS_INDEX_EMPTY)
     | Some x \<Rightarrow>
         (case sa_table x of
            None \<Rightarrow> Some (x, -1)
          | Some t \<Rightarrow>
              (case stbds_hm_find_slot E t (sa_elems x) key of
                 None \<Rightarrow> None
               | Some slot \<Rightarrow>
                   Some (x, if slot < 0 then STBDS_INDEX_EMPTY
                            else index_at t (drop_bit STBDS_BUCKET_SHIFT (nat slot)) (nat slot AND STBDS_BUCKET_MASK)))))"

definition stbds_hmget_key :: "('k, 'v) stb_env \<Rightarrow> ('k, 'v) stb_arr option \<Rightarrow> 'k \<Rightarrow> ('k, 'v) stb_arr option" where
  "stbds_hmget_key E a key =
    (case stbds_hmget_key_ts E a key of None \<Rightarrow> None | Some (x, temp) \<Rightarrow> Some (x\<lparr>sa_temp := temp\<rparr>))"

definition stbds_hmput_default :: "('k, 'v) stb_env \<Rightarrow> ('k, 'v) stb_arr option \<Rightarrow> ('k, 'v) stb_arr option" where
  "stbds_hmput_default E a =
    (if stbds_arrlen a = 0
     then (case stbds_arrgrowf a 0 1 of None \<Rightarrow> None | Some x \<Rightarrow> Some (x\<lparr>sa_elems := sa_elems x @ [sb_zero E]\<rparr>))
     else a)"

section \<open>Strings\<close>

definition STBDS_STRING_ARENA_BLOCKSIZE_MIN :: nat where "STBDS_STRING_ARENA_BLOCKSIZE_MIN = 512"

definition STBDS_STRING_ARENA_BLOCKSIZE_MAX :: nat where "STBDS_STRING_ARENA_BLOCKSIZE_MAX = 2 ^ 20"

text \<open>
  Room for a string of \<open>len\<close> bytes, terminator included: the new arena and the block and offset of the string.
  \<open>fresh\<close> is the address of a new block.
\<close>

definition stbds_stralloc :: "nat \<Rightarrow> stb_arena \<Rightarrow> nat \<Rightarrow> stb_arena \<times> nat \<times> nat" where
  "stbds_stralloc fresh a len =
    (let blocksize = push_bit (unat (drop_bit 1 (ar_block a))) STBDS_STRING_ARENA_BLOCKSIZE_MIN;
         grown = a\<lparr>ar_block := ar_block a + (if blocksize < STBDS_STRING_ARENA_BLOCKSIZE_MAX then 1 else 0)\<rparr>
     in if len > ar_remaining a \<and> len > blocksize
        then (case ar_storage a of
                first # rest \<Rightarrow> (grown\<lparr>ar_storage := first # (fresh, len) # rest\<rparr>, fresh, 0)
              | [] \<Rightarrow> (grown\<lparr>ar_storage := [(fresh, len)], ar_remaining := 0\<rparr>, fresh, 0))
        else let a = (if len > ar_remaining a
                      then grown\<lparr>ar_storage := (fresh, blocksize) # ar_storage a, ar_remaining := blocksize\<rparr> else a)
             in (a\<lparr>ar_remaining := ar_remaining a - len\<rparr>, fst (hd (ar_storage a)), ar_remaining a - len))"

definition stbds_strreset :: "stb_arena \<Rightarrow> nat list \<times> stb_arena" where
  "stbds_strreset a = (map fst (ar_storage a), stb_arena_zero)"

section \<open>Insertion\<close>

datatype put_exit = Put_found bool int | Put_empty nat nat int

definition put_visit ::
    "'k stb_index \<Rightarrow> ('k \<times> 'v) list \<Rightarrow> 'k \<Rightarrow> u64 \<Rightarrow> bool \<Rightarrow> nat \<Rightarrow> nat \<Rightarrow> int \<Rightarrow> put_exit + int" where
  "put_visit t es key hash wrapped b z tombstone =
    (if hash_at t b z = hash
     then (if stbds_is_key_equal es key (index_at t b z) then Inl (Put_found wrapped (index_at t b z)) else Inr tombstone)
     else if hash_at t b z = 0 then Inl (Put_empty b z tombstone)
     else if tombstone < 0
     then (if index_at t b z = STBDS_INDEX_DELETED then Inr (int (STBDS_BUCKET_LENGTH * b + z)) else Inr tombstone)
     else Inr tombstone)"

text \<open>The index to search: the old one, or a new one when there is none or it is at its load factor.\<close>

definition put_index ::
    "u64 \<Rightarrow> hm_mode \<Rightarrow> 'k stb_index option \<Rightarrow> ('k stb_index \<times> u64) option" where
  "put_index gs mode table =
    (case table of
       None \<Rightarrow>
         (case stbds_make_hash_index gs STBDS_BUCKET_LENGTH None of
            None \<Rightarrow> None
          | Some (nt, gs) \<Rightarrow>
              Some (nt\<lparr>hi_string := (hi_string nt)\<lparr>ar_mode := (if mode = HM_STRING then SH_DEFAULT else SH_NONE)\<rparr>\<rparr>, gs))
     | Some t \<Rightarrow>
         if used_count t \<ge> used_count_threshold t then stbds_make_hash_index gs (slot_count t * 2) (Some t)
         else Some (t, gs))"

text \<open>The element appended for a new key, with the store of the key by the mode of the index.\<close>

definition put_append ::
    "('k, 'v) stb_env \<Rightarrow> ('k, 'v) stb_arr \<Rightarrow> 'k stb_index \<Rightarrow> 'k \<Rightarrow> u64 \<Rightarrow> nat \<Rightarrow> nat \<Rightarrow> int \<Rightarrow> ('k, 'v) stb_arr" where
  "put_append E x t key hash b z tombstone =
    (let (b, z) = (if tombstone \<ge> 0 then (drop_bit STBDS_BUCKET_SHIFT (nat tombstone), nat tombstone AND STBDS_BUCKET_MASK)
                   else (b, z));
         t = (if tombstone \<ge> 0 then t\<lparr>tombstone_count := tombstone_count t - 1\<rparr> else t);
         t = t\<lparr>used_count := used_count t + 1\<rparr>;
         i = length (sa_elems x);
         x = (if i + 1 > sa_capacity x then (case stbds_arrgrowf (Some x) 1 0 of Some x \<Rightarrow> x | None \<Rightarrow> x) else x);
         t = set_slot t b z hash (int i - 1);
         t = (case ar_mode (hi_string t) of
                SH_STRDUP \<Rightarrow> t\<lparr>temp_key := Some key\<rparr>
              | SH_ARENA \<Rightarrow> t\<lparr>hi_string := fst (stbds_stralloc (length (ar_storage (hi_string t))) (hi_string t) (sb_strlen E key + 1)),
                             temp_key := Some key\<rparr>
              | SH_DEFAULT \<Rightarrow> t\<lparr>temp_key := Some key\<rparr>
              | SH_NONE \<Rightarrow> t)
     in x\<lparr>sa_elems := sa_elems x @ [(key, sb_junk E)], sa_temp := int i - 1, sa_table := Some t\<rparr>)"

definition stbds_hmput_key ::
    "('k, 'v) stb_env \<Rightarrow> u64 \<Rightarrow> ('k, 'v) stb_arr option \<Rightarrow> 'k \<Rightarrow> hm_mode \<Rightarrow> (('k, 'v) stb_arr \<times> u64) option" where
  "stbds_hmput_key E gs a key mode =
    (let x = (case a of None \<Rightarrow> stb_default_array E | Some x \<Rightarrow> x)
     in case put_index gs mode (sa_table x) of
          None \<Rightarrow> None
        | Some (t, gs) \<Rightarrow>
            (let hash = stored_hash (sb_hash E key (hi_seed t))
             in case probe_loop (put_visit t (sa_elems x) key hash) (slot_count t)
                       (stbds_probe_position hash (slot_count t)) STBDS_BUCKET_LENGTH (-1) of
                  None \<Rightarrow> None
                | Some (Put_found wrapped i) \<Rightarrow>
                    Some (x\<lparr>sa_temp := i,
                            sa_table := Some (if mode = HM_STRING \<and> \<not> wrapped
                                              then t\<lparr>temp_key := Some (fst (elem_at (sa_elems x) i))\<rparr> else t)\<rparr>, gs)
                | Some (Put_empty b z tombstone) \<Rightarrow> Some (put_append E x t key hash b z tombstone, gs)))"

definition stbds_shmode_func :: "('k, 'v) stb_env \<Rightarrow> u64 \<Rightarrow> sh_mode \<Rightarrow> (('k, 'v) stb_arr \<times> u64) option" where
  "stbds_shmode_func E gs mode =
    (case stbds_make_hash_index gs STBDS_BUCKET_LENGTH None of
       None \<Rightarrow> None
     | Some (h, gs) \<Rightarrow>
         Some ((stb_default_array E)\<lparr>sa_table := Some (h\<lparr>hi_string := (hi_string h)\<lparr>ar_mode := mode\<rparr>\<rparr>)\<rparr>, gs))"

section \<open>Deletion\<close>

text \<open>The index after a deletion: half the size, a copy without deleted slots, or the same.\<close>

definition del_index :: "u64 \<Rightarrow> 'k stb_index \<Rightarrow> 'k stb_index option" where
  "del_index gs t =
    (if used_count t < used_count_shrink_threshold t \<and> slot_count t > STBDS_BUCKET_LENGTH
     then map_option fst (stbds_make_hash_index gs (drop_bit 1 (slot_count t)) (Some t))
     else if tombstone_count t > tombstone_count_threshold t
     then map_option fst (stbds_make_hash_index gs (slot_count t) (Some t))
     else Some t)"

text \<open>The last entry takes the place of the deleted one, and its slot is told so.\<close>

definition del_swap ::
    "('k, 'v) stb_env \<Rightarrow> 'k stb_index \<Rightarrow> ('k \<times> 'v) list \<Rightarrow> int \<Rightarrow> int \<Rightarrow> ('k stb_index \<times> ('k \<times> 'v) list) option" where
  "del_swap E t es old_index final_index =
    (if old_index = final_index then Some (t, es)
     else let es = es[nat (old_index + 1) := elem_at es final_index]
          in case stbds_hm_find_slot E t es (fst (elem_at es old_index)) of
               None \<Rightarrow> None
             | Some slot \<Rightarrow>
                 (let b = drop_bit STBDS_BUCKET_SHIFT (nat slot); i = nat slot AND STBDS_BUCKET_MASK
                  in Some (set_slot t b i (hash_at t b i) old_index, es)))"

definition stbds_hmdel_key ::
    "('k, 'v) stb_env \<Rightarrow> u64 \<Rightarrow> ('k, 'v) stb_arr option \<Rightarrow> 'k \<Rightarrow> ('k, 'v) stb_arr option option" where
  "stbds_hmdel_key E gs a key =
    (case a of
       None \<Rightarrow> Some None
     | Some x \<Rightarrow>
         let x = x\<lparr>sa_temp := 0\<rparr>
         in case sa_table x of
              None \<Rightarrow> Some (Some x)
            | Some t \<Rightarrow>
                (case stbds_hm_find_slot E t (sa_elems x) key of
                   None \<Rightarrow> None
                 | Some slot \<Rightarrow>
                     if slot < 0 then Some (Some x)
                     else let b = drop_bit STBDS_BUCKET_SHIFT (nat slot); i = nat slot AND STBDS_BUCKET_MASK;
                              old_index = index_at t b i;
                              final_index = int (length (sa_elems x)) - 1 - 1;
                              t = t\<lparr>used_count := used_count t - 1, tombstone_count := tombstone_count t + 1\<rparr>;
                              t = set_slot t b i STBDS_HASH_DELETED STBDS_INDEX_DELETED
                          in case del_swap E t (sa_elems x) old_index final_index of
                               None \<Rightarrow> None
                             | Some (t, es) \<Rightarrow>
                                 (case del_index gs t of
                                    None \<Rightarrow> None
                                  | Some t \<Rightarrow>
                                      Some (Some (x\<lparr>sa_elems := butlast es, sa_temp := 1, sa_table := Some t\<rparr>)))))"

section \<open>Release\<close>

datatype 'k stb_freed = Freed_key 'k | Freed_block nat | Freed_table | Freed_array

text \<open>What is freed, in order; \<open>free\<close> of a null pointer frees nothing.\<close>

definition stbds_hmfree_func :: "('k, 'v) stb_arr option \<Rightarrow> 'k stb_freed list" where
  "stbds_hmfree_func a =
    (case a of
       None \<Rightarrow> []
     | Some x \<Rightarrow>
         (case sa_table x of
            None \<Rightarrow> []
          | Some t \<Rightarrow>
              (if ar_mode (hi_string t) = SH_STRDUP then map (\<lambda>e. Freed_key (fst e)) (drop 1 (sa_elems x)) else []) @
              map Freed_block (fst (stbds_strreset (hi_string t))) @ [Freed_table]) @ [Freed_array])"

section \<open>The macros\<close>

definition stbds_hmput ::
    "('k, 'v) stb_env \<Rightarrow> u64 \<Rightarrow> ('k, 'v) stb_arr option \<Rightarrow> 'k \<Rightarrow> 'v \<Rightarrow> (('k, 'v) stb_arr \<times> u64) option" where
  "stbds_hmput E gs t k v =
    (case stbds_hmput_key E gs t k HM_BINARY of
       None \<Rightarrow> None
     | Some (x, gs) \<Rightarrow> Some (x\<lparr>sa_elems := (sa_elems x)[nat (sa_temp x + 1) := (k, v)]\<rparr>, gs))"

definition stbds_shput ::
    "('k, 'v) stb_env \<Rightarrow> u64 \<Rightarrow> ('k, 'v) stb_arr option \<Rightarrow> 'k \<Rightarrow> 'v \<Rightarrow> (('k, 'v) stb_arr \<times> u64) option" where
  "stbds_shput E gs t k v =
    (case stbds_hmput_key E gs t k HM_STRING of
       None \<Rightarrow> None
     | Some (x, gs) \<Rightarrow>
         Some (x\<lparr>sa_elems := (sa_elems x)[nat (sa_temp x + 1) := (fst (elem_at (sa_elems x) (sa_temp x)), v)]\<rparr>, gs))"

text \<open>\<open>stbds_shputs\<close> stores the whole element and then its key again, from \<open>temp_key\<close>; \<open>None\<close> also stands for the read
  of a \<open>temp_key\<close> that was never written.\<close>

definition stbds_shputs ::
    "('k, 'v) stb_env \<Rightarrow> u64 \<Rightarrow> ('k, 'v) stb_arr option \<Rightarrow> 'k \<times> 'v \<Rightarrow> (('k, 'v) stb_arr \<times> u64) option" where
  "stbds_shputs E gs t s =
    (case stbds_hmput_key E gs t (fst s) HM_STRING of
       None \<Rightarrow> None
     | Some (x, gs) \<Rightarrow>
         (case Option.bind (sa_table x) temp_key of
            None \<Rightarrow> None
          | Some k \<Rightarrow> Some (x\<lparr>sa_elems := (sa_elems x)[nat (sa_temp x + 1) := (k, snd s)]\<rparr>, gs)))"

definition stbds_hmgeti :: "('k, 'v) stb_env \<Rightarrow> ('k, 'v) stb_arr option \<Rightarrow> 'k \<Rightarrow> (('k, 'v) stb_arr \<times> int) option" where
  "stbds_hmgeti E t k = (case stbds_hmget_key E t k of None \<Rightarrow> None | Some x \<Rightarrow> Some (x, sa_temp x))"

definition stbds_hmdel ::
    "('k, 'v) stb_env \<Rightarrow> u64 \<Rightarrow> ('k, 'v) stb_arr option \<Rightarrow> 'k \<Rightarrow> (('k, 'v) stb_arr option \<times> int) option" where
  "stbds_hmdel E gs t k =
    (case stbds_hmdel_key E gs t k of
       None \<Rightarrow> None
     | Some t \<Rightarrow> Some (t, case t of None \<Rightarrow> 0 | Some x \<Rightarrow> sa_temp x))"

definition stbds_hmlen :: "('k, 'v) stb_arr option \<Rightarrow> int" where
  "stbds_hmlen t = (case t of None \<Rightarrow> 0 | Some x \<Rightarrow> int (length (sa_elems x)) - 1)"

end
