(* ===== verification/Stb_Correct.thy ===== *)
theory Stb_Correct
  imports Stb
begin

text \<open>
  The hash map of stb_ds: the slots a probe visits and when its loop ends, the invariant of the index, lookup,
  insertion with the growth of the index, deletion with its shrinking, and what they do to the map.
\<close>

section \<open>The slots a probe visits\<close>

text \<open>
  A probe is the list of the slots it visits, each with the inner loop that visits it: the bucket of the position
  from its slot on and then from the start, for the buckets of the triangular sequence.
\<close>

definition bucket_path :: "nat \<Rightarrow> (bool \<times> nat) list" where
  "bucket_path pos =
    map (\<lambda>z. (False, 8 * (pos div 8) + z)) [pos mod 8..<8] @ map (\<lambda>z. (True, 8 * (pos div 8) + z)) [0..<pos mod 8]"

definition position :: "nat \<Rightarrow> nat \<Rightarrow> nat \<Rightarrow> nat" where
  "position nb pos r = 8 * probe nb (pos div 8) r + pos mod 8"

definition slot_path :: "nat \<Rightarrow> nat \<Rightarrow> nat \<Rightarrow> (bool \<times> nat) list" where
  "slot_path nb pos r = concat (map (\<lambda>i. bucket_path (position nb pos i)) [0..<r])"

lemma bucket_consts [simp]:
  "STBDS_BUCKET_LENGTH = 8" "drop_bit STBDS_BUCKET_SHIFT (n :: nat) = n div 8" "n AND STBDS_BUCKET_MASK = n mod 8"
  using nat_and_mask [of n 3] by (simp_all add: STBDS_BUCKET_LENGTH_def STBDS_BUCKET_SHIFT_def STBDS_BUCKET_MASK_def drop_bit_eq_div)

lemma set_bucket_path: "snd ` set (bucket_path pos) = {8 * (pos div 8)..<8 * (pos div 8) + 8}"
proof -
  have "snd ` set (bucket_path pos) = (\<lambda>z. 8 * (pos div 8) + z) ` ({pos mod 8..<8} \<union> {0..<pos mod 8})"
    by (simp add: bucket_path_def image_Un image_image)
  also have "{pos mod 8..<8} \<union> {0..<pos mod 8} = {0..<8}"
    using mod_less_divisor [of 8 pos] by (simp add: Un_commute ivl_disj_un_two)
  finally show ?thesis by (simp add: add.commute)
qed

lemma position_0: "pos < 8 * nb \<Longrightarrow> position nb pos 0 = pos"
  by (simp add: position_def probe_0 less_mult_imp_div_less mult.commute)

lemma position_less: "0 < nb \<Longrightarrow> position nb pos r < 8 * nb"
proof -
  assume "0 < nb"
  then have "probe nb (pos div 8) r + 1 \<le> nb" using probe_less [of nb] by (simp add: Suc_le_eq)
  then have "8 * (probe nb (pos div 8) r + 1) \<le> 8 * nb" by (rule mult_le_mono2)
  moreover have "pos mod 8 < 8" by simp
  ultimately show "position nb pos r < 8 * nb" by (simp add: position_def)
qed

lemma position_Suc:
  "(position (2 ^ k) pos r + 8 * Suc r) AND (8 * 2 ^ k - 1) = position (2 ^ k) pos (Suc r)"
proof -
  let ?p = "probe (2 ^ k) (pos div 8) r"
  have "(position (2 ^ k) pos r + 8 * Suc r) AND (8 * 2 ^ k - 1) = (8 * (?p + Suc r) + pos mod 8) mod 2 ^ (k + 3)"
    using nat_and_mask [of "position (2 ^ k) pos r + 8 * Suc r" "k + 3"]
    by (simp add: position_def algebra_simps power_add)
  also have "\<dots> = 8 * ((?p + Suc r) mod 2 ^ k) + pos mod 8"
  proof -
    have "(8 * x + y) mod (8 * m) = 8 * (x mod m) + y" if "y < 8" for x y m :: nat
      using that by (simp add: mod_mult2_eq)
    from this [of "pos mod 8" "?p + Suc r" "2 ^ k"] have "(8 * (?p + Suc r) + pos mod 8) mod (8 * 2 ^ k) = 8 * ((?p + Suc r) mod 2 ^ k) + pos mod 8"
      by simp
    moreover have "(2::nat) ^ (k + 3) = 8 * 2 ^ k" by (simp add: power_add)
    ultimately show ?thesis by (simp only:)
  qed
  finally show ?thesis by (simp add: position_def probe_Suc)
qed

lemma set_slot_path:
  assumes "pos < 8 * 2 ^ k"
  shows "snd ` set (slot_path (2 ^ k) pos (2 ^ k)) = {..<8 * 2 ^ k}"
proof
  have "snd ` set (slot_path (2 ^ k) pos (2 ^ k)) =
      (\<Union>i<2 ^ k. {8 * probe (2 ^ k) (pos div 8) i..<8 * probe (2 ^ k) (pos div 8) i + 8})"
    by (simp add: slot_path_def image_UN set_bucket_path position_def atLeast0LessThan)
  note eq = this
  show "snd ` set (slot_path (2 ^ k) pos (2 ^ k)) \<subseteq> {..<8 * 2 ^ k}"
  proof
    fix p assume "p \<in> snd ` set (slot_path (2 ^ k) pos (2 ^ k))"
    then obtain i where "p < 8 * probe (2 ^ k) (pos div 8) i + 8" by (auto simp: eq add.commute)
    then have "p < 8 * (probe (2 ^ k) (pos div 8) i + 1)" by simp
    moreover have "8 * (probe (2 ^ k) (pos div 8) i + 1) \<le> 8 * 2 ^ k"
      using probe_less [of "2 ^ k"] by (intro mult_le_mono2) (simp add: Suc_le_eq)
    ultimately show "p \<in> {..<8 * 2 ^ k}" by (meson lessThan_iff less_le_trans)
  qed
  show "{..<8 * 2 ^ k} \<subseteq> snd ` set (slot_path (2 ^ k) pos (2 ^ k))"
  proof
    fix p :: nat assume "p \<in> {..<8 * 2 ^ k}"
    then have "p div 8 < 2 ^ k" by (simp add: less_mult_imp_div_less mult.commute)
    then obtain i where "i < 2 ^ k" "probe (2 ^ k) (pos div 8) i = p div 8" using probe_covers by blast
    then show "p \<in> snd ` set (slot_path (2 ^ k) pos (2 ^ k))"
      unfolding eq by (intro UN_I [of i]) auto
  qed
qed

lemma slot_path_split:
  assumes "pos < 8 * 2 ^ k" "p < 8 * 2 ^ k" "Q p"
  obtains xs w q ys where "slot_path (2 ^ k) pos (2 ^ k) = xs @ (w, q) # ys" "Q q" "\<forall>x \<in> set xs. \<not> Q (snd x)"
proof -
  have "p \<in> snd ` set (slot_path (2 ^ k) pos (2 ^ k))" using assms(1,2) by (simp only: set_slot_path lessThan_iff)
  then obtain x where "x \<in> set (slot_path (2 ^ k) pos (2 ^ k))" "Q (snd x)" using assms(3) by auto
  then obtain xs x ys where *: "slot_path (2 ^ k) pos (2 ^ k) = xs @ x # ys" "Q (snd x)" "\<forall>x \<in> set xs. \<not> Q (snd x)"
    using split_list_first_prop [of "slot_path (2 ^ k) pos (2 ^ k)" "\<lambda>x. Q (snd x)"] by blast
  then show thesis using that [of xs "fst x" "snd x" ys] by simp
qed

section \<open>The probe loop\<close>

fun visits :: "(bool \<Rightarrow> nat \<Rightarrow> nat \<Rightarrow> 's \<Rightarrow> 'r + 's) \<Rightarrow> (bool \<times> nat) list \<Rightarrow> 's \<Rightarrow> 'r + 's" where
  "visits visit [] s = Inr s"
| "visits visit ((w, p) # ps) s = (case visit w (p div 8) (p mod 8) s of Inl r \<Rightarrow> Inl r | Inr s \<Rightarrow> visits visit ps s)"

lemma visits_append:
  "visits visit (xs @ ys) s = (case visits visit xs s of Inl r \<Rightarrow> Inl r | Inr s \<Rightarrow> visits visit ys s)"
  by (induction visit xs s rule: visits.induct) (auto split: sum.splits)

lemma slots_loop_visits:
  "set zs \<subseteq> {..<8} \<Longrightarrow> slots_loop (visit w b) zs s = visits visit (map (\<lambda>z. (w, 8 * b + z)) zs) s"
  by (induction zs arbitrary: s) (auto split: sum.splits)

lemma bucket_scan_visits: "bucket_scan visit pos s = visits visit (bucket_path pos) s"
proof -
  have "slots_loop (visit False (pos div 8)) [pos mod 8..<8] s =
      visits visit (map (\<lambda>z. (False, 8 * (pos div 8) + z)) [pos mod 8..<8]) s" for s
    by (rule slots_loop_visits) auto
  moreover have "slots_loop (visit True (pos div 8)) [0..<pos mod 8] s =
      visits visit (map (\<lambda>z. (True, 8 * (pos div 8) + z)) [0..<pos mod 8]) s" for s
    using mod_less_divisor [of 8 pos] by (intro slots_loop_visits) auto
  ultimately show ?thesis
    by (auto simp: bucket_scan_def bucket_path_def visits_append Let_def split: sum.splits)
qed

lemma probe_loop_visits:
  "probe_loop visit (8 * 2 ^ k) (position (2 ^ k) pos r) (8 * Suc r) s =
    (case visits visit (concat (map (\<lambda>i. bucket_path (position (2 ^ k) pos i)) [r..<r + m])) s of
       Inl x \<Rightarrow> Some x
     | Inr s \<Rightarrow> probe_loop visit (8 * 2 ^ k) (position (2 ^ k) pos (r + m)) (8 * Suc (r + m)) s)"
proof (induction m arbitrary: r s)
  case (Suc m)
  have up: "[r..<r + Suc m] = r # [Suc r..<Suc r + m]" by (simp add: upt_conv_Cons del: upt_Suc)
  have step: "probe_loop visit (8 * 2 ^ k) (position (2 ^ k) pos r) (8 * Suc r) s =
      (case visits visit (bucket_path (position (2 ^ k) pos r)) s of
         Inl x \<Rightarrow> Some x
       | Inr s \<Rightarrow> probe_loop visit (8 * 2 ^ k) (position (2 ^ k) pos (Suc r)) (8 * Suc (Suc r)) s)"
    by (subst probe_loop.simps) (simp add: bucket_scan_visits position_Suc [simplified] add.commute split: sum.splits)
  show ?case
    unfolding step up list.map concat.simps visits_append
    by (cases "visits visit (bucket_path (position (2 ^ k) pos r)) s") (simp_all only: Suc.IH [of "Suc r"] sum.case add_Suc add_Suc_right)
qed simp

text \<open>A loop that no slot ends does not return.\<close>

lemma probe_loop_diverges:
  assumes "\<And>w p s. p < 8 * 2 ^ k \<Longrightarrow> \<exists>s'. visit w (p div 8) (p mod 8) s = Inr s'" and "pos < 8 * 2 ^ k"
  shows "probe_loop visit (8 * 2 ^ k) pos step s = None"
proof (rule ccontr)
  assume "probe_loop visit (8 * 2 ^ k) pos step s \<noteq> None"
  then obtain x where x: "probe_loop visit (8 * 2 ^ k) pos step s = Some x" by blast
  have scan: "\<exists>s'. bucket_scan visit p s = Inr s'" if "p < 8 * 2 ^ k" for p s
  proof -
    have inr: "\<exists>s'. visits visit xs s = Inr s'" if "\<forall>x \<in> set xs. snd x < 8 * 2 ^ k" for xs s
      using that
    proof (induction xs arbitrary: s)
      case (Cons x xs)
      then obtain s' where "visit (fst x) (snd x div 8) (snd x mod 8) s = Inr s'" using assms(1) [of "snd x" "fst x" s] by auto
      then show ?case using Cons by (cases x) simp
    qed simp
    have "\<forall>x \<in> set (bucket_path p). snd x < 8 * 2 ^ k"
    proof
      fix x assume "x \<in> set (bucket_path p)"
      then have "snd x \<in> snd ` set (bucket_path p)" by (rule imageI)
      then have "snd x < 8 * (p div 8 + 1)" by (simp add: set_bucket_path)
      moreover have "8 * (p div 8 + 1) \<le> 8 * 2 ^ k"
        using that by (intro mult_le_mono2) (simp add: Suc_le_eq less_mult_imp_div_less mult.commute)
      ultimately show "snd x < 8 * 2 ^ k" by linarith
    qed
    then show ?thesis using inr by (simp add: bucket_scan_visits)
  qed
  have "v = visit \<and> n = 8 * 2 ^ k \<and> p < 8 * 2 ^ k \<longrightarrow> False" if "probe_loop v n p st s = Some x" for v n p st s x
  proof (rule probe_loop.raw_induct [where P = "\<lambda>v n p st s x. v = visit \<and> n = 8 * 2 ^ k \<and> p < 8 * 2 ^ k \<longrightarrow> False", OF _ that])
    fix f v n p st s x
    assume IH: "\<And>v n p st s x. f v n p st s = Some x \<Longrightarrow> v = visit \<and> n = 8 * 2 ^ k \<and> p < 8 * 2 ^ k \<longrightarrow> False"
      and eq: "(case bucket_scan v p s of Inl r \<Rightarrow> Some r
        | Inr s \<Rightarrow> f v n ((p + st) AND (n - 1)) (st + STBDS_BUCKET_LENGTH) s) = Some x"
    show "v = visit \<and> n = 8 * 2 ^ k \<and> p < 8 * 2 ^ k \<longrightarrow> False"
    proof
      assume a: "v = visit \<and> n = 8 * 2 ^ k \<and> p < 8 * 2 ^ k"
      then obtain s' where "bucket_scan v p s = Inr s'" using scan by blast
      moreover have "(p + st) AND (n - 1) < 8 * 2 ^ k"
        using a nat_and_mask [of "p + st" "k + 3"] by (simp add: power_add mult.commute)
      ultimately show False using IH eq a by simp
    qed
  qed
  then show False using x assms(2) by blast
qed

text \<open>
  The loops of lookup, insertion and copying as instances: the slots that end the loop, the result, and
  what a slot that does not end it does to the state.
\<close>

locale probe_visit =
  fixes visit :: "bool \<Rightarrow> nat \<Rightarrow> nat \<Rightarrow> 's \<Rightarrow> 'r + 's"
    and stops :: "nat \<Rightarrow> bool"
    and res :: "bool \<Rightarrow> nat \<Rightarrow> 's \<Rightarrow> 'r"
    and upd :: "nat \<Rightarrow> 's \<Rightarrow> 's"
  assumes visit_law: "visit w (p div 8) (p mod 8) s = (if stops p then Inl (res w p s) else Inr (upd p s))"
begin

lemma visits_result:
  "\<forall>x \<in> set xs. \<not> stops (snd x) \<Longrightarrow> stops q \<Longrightarrow>
    visits visit (xs @ (w, q) # ys) s = Inl (res w q (fold (\<lambda>x. upd (snd x)) xs s))"
  by (induction xs arbitrary: s) (auto simp: visit_law)

lemma loop_result:
  assumes "pos < 8 * 2 ^ k" "slot_path (2 ^ k) pos (2 ^ k) = xs @ (w, q) # ys"
    "\<forall>x \<in> set xs. \<not> stops (snd x)" "stops q"
  shows "probe_loop visit (8 * 2 ^ k) pos 8 s = Some (res w q (fold (\<lambda>x. upd (snd x)) xs s))"
proof -
  have "probe_loop visit (8 * 2 ^ k) (position (2 ^ k) pos 0) (8 * Suc 0) s =
      (case visits visit (slot_path (2 ^ k) pos (2 ^ k)) s of
         Inl x \<Rightarrow> Some x
       | Inr s \<Rightarrow> probe_loop visit (8 * 2 ^ k) (position (2 ^ k) pos (2 ^ k)) (8 * Suc (2 ^ k)) s)"
    using probe_loop_visits [of visit k pos 0 s "2 ^ k"] unfolding slot_path_def add_0 .
  then show ?thesis using assms by (simp add: position_0 visits_result)
qed

lemma loop_returns_iff:
  assumes "pos < 8 * 2 ^ k"
  shows "(\<exists>x. probe_loop visit (8 * 2 ^ k) pos 8 s = Some x) \<longleftrightarrow> (\<exists>p < 8 * 2 ^ k. stops p)"
proof
  assume "\<exists>x. probe_loop visit (8 * 2 ^ k) pos 8 s = Some x"
  then show "\<exists>p < 8 * 2 ^ k. stops p"
    using probe_loop_diverges [of k visit pos 8 s] assms visit_law by force
next
  assume "\<exists>p < 8 * 2 ^ k. stops p"
  then obtain xs w q ys where "slot_path (2 ^ k) pos (2 ^ k) = xs @ (w, q) # ys" "stops q" "\<forall>x \<in> set xs. \<not> stops (snd x)"
    using slot_path_split [OF assms, of _ stops] by blast
  then show "\<exists>x. probe_loop visit (8 * 2 ^ k) pos 8 s = Some x" using loop_result assms by blast
qed

end

section \<open>The slots of an index\<close>

definition hash_slot :: "'k stb_index \<Rightarrow> nat \<Rightarrow> u64" where
  "hash_slot t p = hash_at t (p div 8) (p mod 8)"

definition index_slot :: "'k stb_index \<Rightarrow> nat \<Rightarrow> int" where
  "index_slot t p = index_at t (p div 8) (p mod 8)"

definition index_shape :: "nat \<Rightarrow> 'k stb_index \<Rightarrow> bool" where
  "index_shape k t \<longleftrightarrow> slot_count t = 8 * 2 ^ k \<and> length (hi_storage t) = 2 ^ k \<and>
    (\<forall>b \<in> set (hi_storage t). length (bk_hash b) = 8 \<and> length (bk_index b) = 8)"

definition hash_path :: "nat \<Rightarrow> u64 \<Rightarrow> (bool \<times> nat) list" where
  "hash_path k hash = slot_path (2 ^ k) (unat hash mod (8 * 2 ^ k)) (2 ^ k)"

text \<open>A probe for the hash code comes to slot \<open>p\<close> before any empty slot.\<close>

definition reach :: "nat \<Rightarrow> 'k stb_index \<Rightarrow> u64 \<Rightarrow> nat \<Rightarrow> bool" where
  "reach k t hash p \<longleftrightarrow> (\<exists>xs w ys. hash_path k hash = xs @ (w, p) # ys \<and> (\<forall>x \<in> set xs. hash_slot t (snd x) \<noteq> 0))"

text \<open>
  The index holds exactly the positions \<open>D\<close> of the keys \<open>ks\<close>, each in one slot with the hash code of its key, and
  every other slot is empty or deleted.
\<close>

definition slot_ok :: "nat \<Rightarrow> ('k \<Rightarrow> u64) \<Rightarrow> 'k stb_index \<Rightarrow> 'k list \<Rightarrow> nat set \<Rightarrow> nat \<Rightarrow> bool" where
  "slot_ok k hf t ks D p \<longleftrightarrow>
    hash_slot t p = 0 \<and> index_slot t p = -1 \<or> hash_slot t p = 1 \<and> index_slot t p = -2 \<or>
    (\<exists>i \<in> D. index_slot t p = int i \<and> hash_slot t p = hf (ks ! i) \<and> reach k t (hf (ks ! i)) p)"

definition slots_ok :: "nat \<Rightarrow> ('k \<Rightarrow> u64) \<Rightarrow> 'k stb_index \<Rightarrow> 'k list \<Rightarrow> nat set \<Rightarrow> bool" where
  "slots_ok k hf t ks D \<longleftrightarrow> index_shape k t \<and> D \<subseteq> {..<length ks} \<and>
    (\<forall>p < 8 * 2 ^ k. slot_ok k hf t ks D p) \<and> (\<forall>i \<in> D. \<exists>p < 8 * 2 ^ k. index_slot t p = int i) \<and>
    inj_on (index_slot t) {p. p < 8 * 2 ^ k \<and> 0 \<le> index_slot t p}"

lemma stored_hash_range: "stored_hash h \<noteq> 0" "stored_hash h \<noteq> 1"
proof -
  have "stored_hash h \<noteq> 0 \<and> stored_hash h \<noteq> 1"
  proof (cases "h < 2")
    case True
    then have "h = 0 \<or> h = 1" by unat_arith
    then show ?thesis by (auto simp: stored_hash_def)
  next
    case False
    then show ?thesis by (auto simp: stored_hash_def)
  qed
  then show "stored_hash h \<noteq> 0" "stored_hash h \<noteq> 1" by simp_all
qed

lemma probe_position [simp]: "stbds_probe_position hash (8 * 2 ^ k) = unat hash mod (8 * 2 ^ k)"
  using nat_and_mask [of "unat hash" "k + 3"] by (simp add: stbds_probe_position_def power_add mult.commute)

lemma slot_div: "p < 8 * 2 ^ k \<Longrightarrow> p div 8 < (2 ^ k :: nat)"
  by (simp add: less_mult_imp_div_less mult.commute)

lemma set_slot_fields [simp]:
  "slot_count (set_slot t b z h i) = slot_count t" "used_count (set_slot t b z h i) = used_count t"
  "used_count_threshold (set_slot t b z h i) = used_count_threshold t"
  "used_count_shrink_threshold (set_slot t b z h i) = used_count_shrink_threshold t"
  "tombstone_count (set_slot t b z h i) = tombstone_count t"
  "tombstone_count_threshold (set_slot t b z h i) = tombstone_count_threshold t"
  "hi_seed (set_slot t b z h i) = hi_seed t" "hi_string (set_slot t b z h i) = hi_string t"
  "temp_key (set_slot t b z h i) = temp_key t" "slot_count_log2 (set_slot t b z h i) = slot_count_log2 t"
  by (simp_all add: set_slot_def)

lemma set_slot_shape: "index_shape k t \<Longrightarrow> p < 8 * 2 ^ k \<Longrightarrow> index_shape k (set_slot t (p div 8) (p mod 8) h i)"
  by (auto simp: index_shape_def set_slot_def slot_div dest!: in_set_conv_nth [THEN iffD1] split: if_splits)
    (auto simp: nth_list_update slot_div split: if_splits)

lemma set_slot_at:
  assumes "index_shape k t" "p < 8 * 2 ^ k"
  shows "hash_slot (set_slot t (p div 8) (p mod 8) h i) q = (if q = p then h else hash_slot t q)"
    and "index_slot (set_slot t (p div 8) (p mod 8) h i) q = (if q = p then i else index_slot t q)"
proof -
  have b: "p div 8 < length (hi_storage t)" using assms slot_div by (auto simp: index_shape_def)
  then have "length (bk_hash (hi_storage t ! (p div 8))) = 8" "length (bk_index (hi_storage t ! (p div 8))) = 8"
    using assms by (auto simp: index_shape_def)
  moreover have "q = p \<longleftrightarrow> q div 8 = p div 8 \<and> q mod 8 = p mod 8" by (metis div_mod_decomp)
  ultimately show "hash_slot (set_slot t (p div 8) (p mod 8) h i) q = (if q = p then h else hash_slot t q)"
    "index_slot (set_slot t (p div 8) (p mod 8) h i) q = (if q = p then i else index_slot t q)"
    using b by (auto simp: hash_slot_def index_slot_def hash_at_def index_at_def set_slot_def nth_list_update)
qed

text \<open>Facts that depend on the storage only.\<close>

lemma storage_cong:
  assumes "hi_storage t' = hi_storage t" "slot_count t' = slot_count t"
  shows "hash_slot t' = hash_slot t" "index_slot t' = index_slot t" "index_shape k t' = index_shape k t"
    "slots_ok k hf t' ks D = slots_ok k hf t ks D"
proof -
  show h: "hash_slot t' = hash_slot t" by (simp add: fun_eq_iff hash_slot_def hash_at_def assms)
  show i: "index_slot t' = index_slot t" by (simp add: fun_eq_iff index_slot_def index_at_def assms)
  show s: "index_shape k t' = index_shape k t" by (simp add: index_shape_def assms)
  show "slots_ok k hf t' ks D = slots_ok k hf t ks D"
    by (simp add: slots_ok_def slot_ok_def reach_def h i s)
qed

lemma reach_cong:
  "reach k t hash p \<Longrightarrow> (\<And>q. hash_slot t q \<noteq> 0 \<Longrightarrow> hash_slot t' q \<noteq> 0) \<Longrightarrow> reach k t' hash p"
  unfolding reach_def by blast

lemma slots_okD:
  assumes "slots_ok k hf t ks D"
  shows "index_shape k t" "D \<subseteq> {..<length ks}" "p < 8 * 2 ^ k \<Longrightarrow> slot_ok k hf t ks D p"
    "i \<in> D \<Longrightarrow> \<exists>p < 8 * 2 ^ k. index_slot t p = int i"
    "p < 8 * 2 ^ k \<Longrightarrow> q < 8 * 2 ^ k \<Longrightarrow> 0 \<le> index_slot t p \<Longrightarrow> index_slot t p = index_slot t q \<Longrightarrow> p = q"
  using assms unfolding slots_ok_def by (auto simp: inj_on_def)

lemma slot_in_use:
  assumes "slots_ok k hf t ks D" "p < 8 * 2 ^ k" "0 \<le> index_slot t p"
  obtains i where "i \<in> D" "index_slot t p = int i" "hash_slot t p = hf (ks ! i)" "reach k t (hf (ks ! i)) p"
  using slots_okD(3) [OF assms(1,2)] assms(3) unfolding slot_ok_def by auto

lemma slot_of_position:
  assumes "slots_ok k hf t ks D" "i \<in> D"
  obtains p where "p < 8 * 2 ^ k" "index_slot t p = int i" "hash_slot t p = hf (ks ! i)" "reach k t (hf (ks ! i)) p"
proof -
  obtain p where p: "p < 8 * 2 ^ k" "index_slot t p = int i" using slots_okD(4) [OF assms] by blast
  then show thesis using slot_in_use [OF assms(1) p(1)] that [OF p] by (metis of_nat_0_le_iff of_nat_eq_iff)
qed

text \<open>The slots of each kind.\<close>

definition empty_slots :: "nat \<Rightarrow> 'k stb_index \<Rightarrow> nat set" where
  "empty_slots k t = {p. p < 8 * 2 ^ k \<and> hash_slot t p = 0}"

definition dead_slots :: "nat \<Rightarrow> 'k stb_index \<Rightarrow> nat set" where
  "dead_slots k t = {p. p < 8 * 2 ^ k \<and> hash_slot t p = 1}"

lemma finite_slots [simp]: "finite (empty_slots k t)" "finite (dead_slots k t)"
  by (simp_all add: empty_slots_def dead_slots_def)

lemma hf_index:
  assumes "slots_ok k hf t ks D" "\<And>key. hf key \<noteq> 0 \<and> hf key \<noteq> 1" "p < 8 * 2 ^ k"
  shows "hash_slot t p = 0 \<longleftrightarrow> index_slot t p = -1" "hash_slot t p = 1 \<longleftrightarrow> index_slot t p = -2"
    "0 \<le> index_slot t p \<longleftrightarrow> hash_slot t p \<noteq> 0 \<and> hash_slot t p \<noteq> 1"
  using slots_okD(3) [OF assms(1,3)] assms(2) unfolding slot_ok_def by auto

lemma slot_census:
  assumes ok: "slots_ok k hf t ks D" and hf: "\<And>key. hf key \<noteq> 0 \<and> hf key \<noteq> 1"
  shows "card D + card (dead_slots k t) + card (empty_slots k t) = 8 * 2 ^ k"
proof -
  define L where "L = {p. p < 8 * 2 ^ k \<and> 0 \<le> index_slot t p}"
  have "bij_betw (\<lambda>p. nat (index_slot t p)) L D"
  proof (rule bij_betwI')
    fix p q assume "p \<in> L" "q \<in> L"
    then show "(nat (index_slot t p) = nat (index_slot t q)) = (p = q)"
      using slots_okD(5) [OF ok] by (auto simp: L_def)
  next
    fix p assume "p \<in> L"
    then show "nat (index_slot t p) \<in> D" unfolding L_def using slot_in_use [OF ok] by force
  next
    fix i assume "i \<in> D"
    then obtain p where "p < 8 * 2 ^ k" "index_slot t p = int i" using slots_okD(4) [OF ok] by blast
    then show "\<exists>p \<in> L. i = nat (index_slot t p)" by (intro bexI [of _ p]) (auto simp: L_def)
  qed
  then have "card L = card D" by (rule bij_betw_same_card)
  moreover have "{..<8 * 2 ^ k} = L \<union> dead_slots k t \<union> empty_slots k t"
    using hf_index [OF ok hf] by (auto simp: L_def dead_slots_def empty_slots_def)
  moreover have "card (L \<union> dead_slots k t \<union> empty_slots k t) = card L + card (dead_slots k t) + card (empty_slots k t)"
  proof -
    have "finite L" by (simp add: L_def)
    moreover have "L \<inter> dead_slots k t = {}" using hf_index [OF ok hf] by (auto simp: L_def dead_slots_def)
    moreover have "(L \<union> dead_slots k t) \<inter> empty_slots k t = {}"
      using hf_index [OF ok hf] by (auto simp: L_def dead_slots_def empty_slots_def)
    ultimately show ?thesis by (simp add: card_Un_disjoint)
  qed
  ultimately show ?thesis by (metis card_lessThan)
qed

section \<open>Lookup\<close>

definition keys_of :: "('k \<times> 'v) list \<Rightarrow> 'k list" where
  "keys_of es = map fst (tl es)"

lemma elem_at_key: "i < length (keys_of es) \<Longrightarrow> fst (elem_at es (int i)) = keys_of es ! i"
  by (simp add: keys_of_def elem_at_def nth_tl nat_add_distrib)

definition key_hash :: "('k, 'v) stb_env \<Rightarrow> u64 \<Rightarrow> 'k \<Rightarrow> u64" where
  "key_hash E seed key = stored_hash (sb_hash E key seed)"

lemma key_hash_range: "key_hash E seed key \<noteq> 0 \<and> key_hash E seed key \<noteq> 1"
  using stored_hash_range by (simp add: key_hash_def)

text \<open>A slot matches when it has the hash code and the key.\<close>

definition matches :: "'k stb_index \<Rightarrow> ('k \<times> 'v) list \<Rightarrow> 'k \<Rightarrow> u64 \<Rightarrow> nat \<Rightarrow> bool" where
  "matches t es key hash p \<longleftrightarrow> hash_slot t p = hash \<and> stbds_is_key_equal es key (index_slot t p)"

interpretation fv: probe_visit "find_visit t es key hash" "\<lambda>p. matches t es key hash p \<or> hash_slot t p \<noteq> hash \<and> hash_slot t p = 0"
  "\<lambda>w p u. if matches t es key hash p then int p else -1" "\<lambda>p u. u" for t es key hash
  by unfold_locales (auto simp: find_visit_def matches_def hash_slot_def index_slot_def STBDS_HASH_EMPTY_def)

interpretation pl: probe_visit "place_visit t hash i" "\<lambda>p. hash_slot t p = 0"
  "\<lambda>w p u. set_slot t (p div 8) (p mod 8) hash i" "\<lambda>p u. u" for t hash i
  by unfold_locales (auto simp: place_visit_def hash_slot_def)

interpretation pv: probe_visit "put_visit t es key hash" "\<lambda>p. matches t es key hash p \<or> hash_slot t p \<noteq> hash \<and> hash_slot t p = 0"
  "\<lambda>w p s. if matches t es key hash p then Put_found w (index_slot t p) else Put_empty (p div 8) (p mod 8) s"
  "\<lambda>p s. if hash_slot t p \<noteq> hash \<and> s < 0 \<and> index_slot t p = -2 then int p else s" for t es key hash
  by unfold_locales (auto simp: put_visit_def matches_def hash_slot_def index_slot_def STBDS_INDEX_DELETED_def)

lemma matches_unique:
  assumes ok: "slots_ok k hf t (keys_of es) D" and hf: "\<And>key. hf key \<noteq> 0 \<and> hf key \<noteq> 1"
    and m: "matches t es key (hf key) p" "p < 8 * 2 ^ k"
  obtains i where "i \<in> D" "index_slot t p = int i" "keys_of es ! i = key"
proof -
  have "0 \<le> index_slot t p" using hf_index [OF ok hf m(2)] m hf by (simp add: matches_def)
  then obtain i where i: "i \<in> D" "index_slot t p = int i" using slot_in_use [OF ok m(2)] by metis
  then have "i < length (keys_of es)" using slots_okD(2) [OF ok] by blast
  then show thesis using that [OF i] m elem_at_key [of i es] by (simp add: matches_def stbds_is_key_equal_def i)
qed

lemma matches_position:
  assumes ok: "slots_ok k hf t (keys_of es) D" and i: "i \<in> D" "keys_of es ! i = key"
  obtains p where "p < 8 * 2 ^ k" "index_slot t p = int i" "matches t es key (hf key) p" "reach k t (hf key) p"
proof -
  obtain p where p: "p < 8 * 2 ^ k" "index_slot t p = int i" "hash_slot t p = hf key" "reach k t (hf key) p"
    using slot_of_position [OF ok i(1)] i(2) by metis
  have "i < length (keys_of es)" using slots_okD(2) [OF ok] i by blast
  then have "matches t es key (hf key) p"
    using p elem_at_key [of i es] i(2) by (simp add: matches_def stbds_is_key_equal_def)
  then show thesis using that p by blast
qed

text \<open>
  The first slot that ends a search: for a key of the index its slot, otherwise the first empty slot of the path.
\<close>

lemma search_hits:
  assumes ok: "slots_ok k hf t (keys_of es) D" and hf: "\<And>key. hf key \<noteq> 0 \<and> hf key \<noteq> 1"
    and inj: "inj_on ((!) (keys_of es)) D" and i: "i \<in> D" "keys_of es ! i = key"
  obtains xs w p ys where "hash_path k (hf key) = xs @ (w, p) # ys" "p < 8 * 2 ^ k" "index_slot t p = int i"
    "matches t es key (hf key) p"
    "\<forall>x \<in> set xs. \<not> (matches t es key (hf key) (snd x) \<or> hash_slot t (snd x) \<noteq> hf key \<and> hash_slot t (snd x) = 0)"
proof -
  obtain p where p: "p < 8 * 2 ^ k" "index_slot t p = int i" "matches t es key (hf key) p" "reach k t (hf key) p"
    using matches_position [OF ok i] .
  obtain xs w ys where path: "hash_path k (hf key) = xs @ (w, p) # ys" "\<forall>x \<in> set xs. hash_slot t (snd x) \<noteq> 0"
    using p(4) by (auto simp: reach_def)
  let ?S = "\<lambda>q. matches t es key (hf key) q \<or> hash_slot t q \<noteq> hf key \<and> hash_slot t q = 0"
  have S: "q = p" if q: "q < 8 * 2 ^ k" "matches t es key (hf key) q" for q
  proof -
    obtain j where "j \<in> D" "index_slot t q = int j" "keys_of es ! j = key" using matches_unique [OF ok hf q(2,1)] .
    then have "j = i" using inj i by (auto simp: inj_on_def)
    then show ?thesis using slots_okD(5) [OF ok q(1) p(1)] \<open>index_slot t q = int j\<close> p(2) by simp
  qed
  have lt: "snd x < 8 * 2 ^ k" if "x \<in> set (hash_path k (hf key))" for x
    using set_slot_path [of "unat (hf key) mod (8 * 2 ^ k)" k] that by (auto simp: hash_path_def)
  have "\<exists>x \<in> set (hash_path k (hf key)). ?S (snd x)" using path p(3) by (intro bexI [of _ "(w, p)"]) auto
  then obtain us x vs where first: "hash_path k (hf key) = us @ x # vs" "?S (snd x)" "\<forall>x \<in> set us. \<not> ?S (snd x)"
    using split_list_first_prop [of "hash_path k (hf key)" "\<lambda>x. ?S (snd x)"] by blast
  have xp: "snd x = p"
  proof (cases "x \<in> set xs \<or> x = (w, p)")
    case True
    then have "matches t es key (hf key) (snd x)" using first(2) path(2) p(3) by auto
    then show ?thesis using S lt first(1) by simp
  next
    case False
    have "xs @ (w, p) # ys = us @ x # vs" using path first by simp
    then have "(w, p) \<in> set us"
      using False by (auto simp: append_eq_append_conv2 append_eq_Cons_conv Cons_eq_append_conv)
    then show ?thesis using first(3) p(3) by auto
  qed
  show thesis
    using that [of us "fst x" p vs] first(1,3) p(1-3) by (simp add: xp [symmetric])
qed

lemma search_misses:
  assumes ok: "slots_ok k hf t (keys_of es) D" and hf: "\<And>key. hf key \<noteq> 0 \<and> hf key \<noteq> 1"
    and out: "key \<notin> (!) (keys_of es) ` D" and q: "q < 8 * 2 ^ k"
  shows "\<not> matches t es key (hf key) q"
    and "(matches t es key (hf key) q \<or> hash_slot t q \<noteq> hf key \<and> hash_slot t q = 0) \<longleftrightarrow> hash_slot t q = 0"
proof -
  show n: "\<not> matches t es key (hf key) q" using matches_unique [OF ok hf _ q] out by blast
  show "(matches t es key (hf key) q \<or> hash_slot t q \<noteq> hf key \<and> hash_slot t q = 0) \<longleftrightarrow> hash_slot t q = 0"
    using n hf [of key] by auto
qed

lemma start_less: "unat (h :: u64) mod (8 * 2 ^ k) < 8 * 2 ^ k"
  by simp

lemma find_slot_hit:
  assumes ok: "slots_ok k (key_hash E (hi_seed t)) t (keys_of es) D"
    and inj: "inj_on ((!) (keys_of es)) D" and i: "i \<in> D" "keys_of es ! i = key"
  obtains p where "p < 8 * 2 ^ k" "stbds_hm_find_slot E t es key = Some (int p)" "index_slot t p = int i"
proof -
  obtain xs w p ys where p: "hash_path k (key_hash E (hi_seed t) key) = xs @ (w, p) # ys" "p < 8 * 2 ^ k" "index_slot t p = int i"
    "matches t es key (key_hash E (hi_seed t) key) p"
    "\<forall>x \<in> set xs. \<not> (matches t es key (key_hash E (hi_seed t) key) (snd x) \<or>
      hash_slot t (snd x) \<noteq> key_hash E (hi_seed t) key \<and> hash_slot t (snd x) = 0)"
    using search_hits [OF ok key_hash_range inj i] .
  have "slot_count t = 8 * 2 ^ k" using slots_okD(1) [OF ok] by (simp add: index_shape_def)
  then have "stbds_hm_find_slot E t es key = Some (int p)"
    using fv.loop_result [OF start_less p(1) [unfolded hash_path_def] p(5), of "()"] p(4)
    by (simp add: stbds_hm_find_slot_def key_hash_def Let_def)
  then show thesis using that p by blast
qed

lemma find_slot_miss:
  assumes ok: "slots_ok k (key_hash E (hi_seed t)) t (keys_of es) D" and out: "key \<notin> (!) (keys_of es) ` D"
  shows "stbds_hm_find_slot E t es key = (if empty_slots k t = {} then None else Some (-1))"
proof -
  let ?h = "key_hash E (hi_seed t) key"
  have sc: "slot_count t = 8 * 2 ^ k" using slots_okD(1) [OF ok] by (simp add: index_shape_def)
  have find: "stbds_hm_find_slot E t es key = probe_loop (find_visit t es key ?h) (8 * 2 ^ k) (unat ?h mod (8 * 2 ^ k)) 8 ()"
    by (simp add: stbds_hm_find_slot_def key_hash_def Let_def sc)
  note S = search_misses [OF ok key_hash_range out]
  show ?thesis
  proof (cases "empty_slots k t = {}")
    case True
    then have "\<not> (\<exists>p < 8 * 2 ^ k. matches t es key ?h p \<or> hash_slot t p \<noteq> ?h \<and> hash_slot t p = 0)"
      using S(2) by (auto simp: empty_slots_def)
    then show ?thesis
      using fv.loop_returns_iff [OF start_less [where k = k and h = ?h], where t = t and es = es and key = key and hash = ?h and s = "()"] True find
      by auto
  next
    case False
    then obtain q where q: "q < 8 * 2 ^ k" "matches t es key ?h q \<or> hash_slot t q \<noteq> ?h \<and> hash_slot t q = 0"
      using S(2) by (auto simp: empty_slots_def)
    obtain xs w p ys where p: "slot_path (2 ^ k) (unat ?h mod (8 * 2 ^ k)) (2 ^ k) = xs @ (w, p) # ys"
      "matches t es key ?h p \<or> hash_slot t p \<noteq> ?h \<and> hash_slot t p = 0"
      "\<forall>x \<in> set xs. \<not> (matches t es key ?h (snd x) \<or> hash_slot t (snd x) \<noteq> ?h \<and> hash_slot t (snd x) = 0)"
      using slot_path_split [OF start_less q(1), of "\<lambda>q. matches t es key ?h q \<or> hash_slot t q \<noteq> ?h \<and> hash_slot t q = 0"] q(2)
      by blast
    have "p \<in> snd ` set (slot_path (2 ^ k) (unat ?h mod (8 * 2 ^ k)) (2 ^ k))" by (simp add: p(1))
    then have "p < 8 * 2 ^ k" using set_slot_path [OF start_less] by blast
    then have "\<not> matches t es key ?h p" by (rule S(1))
    then show ?thesis using False find fv.loop_result [OF start_less p(1,3,2), of "()"] by simp
  qed
qed

section \<open>Changes of one slot\<close>

lemma slots_okI:
  assumes "index_shape k t" "D \<subseteq> {..<length ks}" "\<And>p. p < 8 * 2 ^ k \<Longrightarrow> slot_ok k hf t ks D p"
    "\<And>i. i \<in> D \<Longrightarrow> \<exists>p < 8 * 2 ^ k. index_slot t p = int i"
    "\<And>p q. p < 8 * 2 ^ k \<Longrightarrow> q < 8 * 2 ^ k \<Longrightarrow> 0 \<le> index_slot t p \<Longrightarrow> index_slot t p = index_slot t q \<Longrightarrow> p = q"
  shows "slots_ok k hf t ks D"
  using assms unfolding slots_ok_def by (auto simp: inj_on_def)

lemma slots_cong:
  assumes "slots_ok k hf t ks D" "\<And>i. i \<in> D \<Longrightarrow> ks' ! i = ks ! i" "D \<subseteq> {..<length ks'}"
  shows "slots_ok k hf t ks' D"
  using assms unfolding slots_ok_def slot_ok_def by auto

lemma slot_ok_other:
  assumes "slot_ok k hf t ks D q" "hash_slot t' q = hash_slot t q" "index_slot t' q = index_slot t q"
    "\<And>r. hash_slot t r \<noteq> 0 \<Longrightarrow> hash_slot t' r \<noteq> 0"
    "\<And>i. index_slot t q = int i \<Longrightarrow> i \<in> D \<Longrightarrow> i \<in> D' \<and> ks' ! i = ks ! i"
  shows "slot_ok k hf t' ks' D' q"
  using assms(1) unfolding slot_ok_def
proof (elim disjE bexE conjE)
  fix i assume i: "i \<in> D" "index_slot t q = int i" "hash_slot t q = hf (ks ! i)" "reach k t (hf (ks ! i)) q"
  then show "hash_slot t' q = 0 \<and> index_slot t' q = - 1 \<or> hash_slot t' q = 1 \<and> index_slot t' q = - 2 \<or>
      (\<exists>i\<in>D'. index_slot t' q = int i \<and> hash_slot t' q = hf (ks' ! i) \<and> reach k t' (hf (ks' ! i)) q)"
    using assms(2,3) assms(5) [OF i(2,1)] reach_cong [OF i(4) assms(4)] by auto
qed (use assms in auto)

lemma slots_add:
  assumes ok: "slots_ok k hf t ks D" and hf: "\<And>key. hf key \<noteq> 0 \<and> hf key \<noteq> 1"
    and i: "i \<notin> D" "i < length ks" and p: "p < 8 * 2 ^ k" "index_slot t p < 0" "reach k t (hf (ks ! i)) p"
  shows "slots_ok k hf (set_slot t (p div 8) (p mod 8) (hf (ks ! i)) (int i)) ks (insert i D)"
proof -
  let ?t = "set_slot t (p div 8) (p mod 8) (hf (ks ! i)) (int i)"
  note at = set_slot_at [OF slots_okD(1) [OF ok] p(1)]
  have keep: "hash_slot ?t r \<noteq> 0" if "hash_slot t r \<noteq> 0" for r using that hf by (simp add: at)
  have nu: "index_slot t q \<noteq> int i" if "q < 8 * 2 ^ k" for q
    using slot_in_use [OF ok that] i(1) by (metis of_nat_0_le_iff of_nat_eq_iff)
  show ?thesis
  proof (rule slots_okI)
    fix q :: nat assume q: "q < 8 * 2 ^ k"
    show "slot_ok k hf ?t ks (insert i D) q"
    proof (cases "q = p")
      case True
      then show ?thesis using reach_cong [OF p(3) keep] by (auto simp: slot_ok_def at)
    next
      case False
      then show ?thesis by (intro slot_ok_other [OF slots_okD(3) [OF ok q]]) (use keep in \<open>simp_all add: at(1,2)\<close>)
    qed
  next
    fix j assume "j \<in> insert i D"
    then show "\<exists>q < 8 * 2 ^ k. index_slot ?t q = int j"
    proof
      assume "j = i" then show ?thesis using p(1) by (auto simp: at)
    next
      assume "j \<in> D"
      then obtain q where "q < 8 * 2 ^ k" "index_slot t q = int j" using slots_okD(4) [OF ok] by blast
      then show ?thesis using p(2) by (intro exI [of _ q]) (auto simp: at)
    qed
  next
    fix q r :: nat
    assume "q < 8 * 2 ^ k" "r < 8 * 2 ^ k" "0 \<le> index_slot ?t q" "index_slot ?t q = index_slot ?t r"
    then show "q = r" using slots_okD(5) [OF ok] nu by (auto simp: at split: if_splits)
  qed (use slots_okD(1,2) [OF ok] i p(1) set_slot_shape in auto)
qed

lemma slots_mark:
  assumes ok: "slots_ok k hf t ks D" and p: "p < 8 * 2 ^ k" "index_slot t p = int i"
  shows "slots_ok k hf (set_slot t (p div 8) (p mod 8) STBDS_HASH_DELETED STBDS_INDEX_DELETED) ks (D - {i})"
proof -
  let ?t = "set_slot t (p div 8) (p mod 8) STBDS_HASH_DELETED STBDS_INDEX_DELETED"
  note at = set_slot_at [OF slots_okD(1) [OF ok] p(1)]
  have other: "q = p" if "q < 8 * 2 ^ k" "index_slot t q = int i" for q
    using slots_okD(5) [OF ok that(1) p(1)] that(2) p(2) by simp
  show ?thesis
  proof (rule slots_okI)
    fix q :: nat assume q: "q < 8 * 2 ^ k"
    show "slot_ok k hf ?t ks (D - {i}) q"
    proof (cases "q = p")
      case True
      then show ?thesis by (simp add: slot_ok_def at STBDS_HASH_DELETED_def STBDS_INDEX_DELETED_def)
    next
      case False
      then show ?thesis
        by (intro slot_ok_other [OF slots_okD(3) [OF ok q]]) (use other q in \<open>auto simp: at STBDS_HASH_DELETED_def\<close>)
    qed
  next
    fix j assume "j \<in> D - {i}"
    then obtain q where "q < 8 * 2 ^ k" "index_slot t q = int j" "j \<noteq> i" using slots_okD(4) [OF ok] by blast
    then show "\<exists>q < 8 * 2 ^ k. index_slot ?t q = int j" using p(2) by (intro exI [of _ q]) (auto simp: at)
  next
    fix q r :: nat
    assume "q < 8 * 2 ^ k" "r < 8 * 2 ^ k" "0 \<le> index_slot ?t q" "index_slot ?t q = index_slot ?t r"
    then show "q = r" using slots_okD(5) [OF ok] by (auto simp: at STBDS_INDEX_DELETED_def split: if_splits)
  qed (use slots_okD(1,2) [OF ok] p(1) set_slot_shape in auto)
qed

lemma slots_renumber:
  assumes ok: "slots_ok k hf t ks D" and hf: "\<And>key. hf key \<noteq> 0 \<and> hf key \<noteq> 1"
    and p: "p < 8 * 2 ^ k" "index_slot t p = int i" and j: "j \<notin> D" "j < length ks" "ks ! j = ks ! i" and i: "i \<in> D"
  shows "slots_ok k hf (set_slot t (p div 8) (p mod 8) (hash_slot t p) (int j)) ks (insert j (D - {i}))"
proof -
  let ?t = "set_slot t (p div 8) (p mod 8) (hash_slot t p) (int j)"
  note at = set_slot_at [OF slots_okD(1) [OF ok] p(1)]
  have nj: "index_slot t q \<noteq> int j" if "q < 8 * 2 ^ k" for q
    using slot_in_use [OF ok that] j(1) by (metis of_nat_0_le_iff of_nat_eq_iff)
  have other: "q = p" if "q < 8 * 2 ^ k" "index_slot t q = int i" for q
    using slots_okD(5) [OF ok that(1) p(1)] that(2) p(2) by simp
  have keep: "hash_slot ?t r = hash_slot t r" for r by (simp add: at)
  show ?thesis
  proof (rule slots_okI)
    fix q :: nat assume q: "q < 8 * 2 ^ k"
    show "slot_ok k hf ?t ks (insert j (D - {i})) q"
    proof (cases "q = p")
      case True
      have "hash_slot t p = hf (ks ! j)" "reach k t (hf (ks ! j)) p"
        using slot_in_use [OF ok p(1)] p(2) by (metis j(3) of_nat_0_le_iff of_nat_eq_iff)+
      moreover from this(2) have "reach k ?t (hf (ks ! j)) p" by (rule reach_cong) (subst keep, assumption)
      ultimately show ?thesis using True by (simp only: slot_ok_def at keep) simp
    next
      case False
      then show ?thesis
        by (intro slot_ok_other [OF slots_okD(3) [OF ok q]]) (use other q in \<open>auto simp: at\<close>)
    qed
  next
    fix l assume "l \<in> insert j (D - {i})"
    then show "\<exists>q < 8 * 2 ^ k. index_slot ?t q = int l"
    proof
      assume "l = j" then show ?thesis using p(1) by (auto simp: at)
    next
      assume l: "l \<in> D - {i}"
      then obtain q where "q < 8 * 2 ^ k" "index_slot t q = int l" using slots_okD(4) [OF ok] by blast
      then show ?thesis using p(2) l by (intro exI [of _ q]) (auto simp: at)
    qed
  next
    fix q r :: nat
    assume "q < 8 * 2 ^ k" "r < 8 * 2 ^ k" "0 \<le> index_slot ?t q" "index_slot ?t q = index_slot ?t r"
    then show "q = r" using slots_okD(5) [OF ok] nj by (auto simp: at split: if_splits)
  qed (use slots_okD(1,2) [OF ok] j p(1) set_slot_shape in auto)
qed

lemma Collect_update:
  "p < n \<Longrightarrow> {q. q < (n :: nat) \<and> (if q = p then a else f q) = c} =
    (if a = c then insert p {q. q < n \<and> f q = c} else {q. q < n \<and> f q = c} - {p})"
  by auto

lemma set_slot_kinds:
  assumes "index_shape k t" "p < 8 * 2 ^ k"
  shows "dead_slots k (set_slot t (p div 8) (p mod 8) h i) = (if h = 1 then insert p (dead_slots k t) else dead_slots k t - {p})"
    "empty_slots k (set_slot t (p div 8) (p mod 8) h i) = (if h = 0 then insert p (empty_slots k t) else empty_slots k t - {p})"
proof -
  note at = set_slot_at(1) [OF assms, of h i]
  show "dead_slots k (set_slot t (p div 8) (p mod 8) h i) = (if h = 1 then insert p (dead_slots k t) else dead_slots k t - {p})"
    unfolding dead_slots_def at by (rule Collect_update [OF assms(2)])
  show "empty_slots k (set_slot t (p div 8) (p mod 8) h i) = (if h = 0 then insert p (empty_slots k t) else empty_slots k t - {p})"
    unfolding empty_slots_def at
    by (rule Collect_update [OF assms(2), of h "hash_slot t" 0])
qed

lemma kinds_cong:
  fixes t t' :: "'k stb_index"
  shows "hi_storage t' = hi_storage t \<Longrightarrow> slot_count t' = slot_count t \<Longrightarrow>
    dead_slots k t' = dead_slots k t \<and> empty_slots k t' = empty_slots k t"
  using storage_cong(1) [of t' t] by (simp add: dead_slots_def empty_slots_def)

section \<open>A new index\<close>

lemma path_slot_less: "x \<in> set (hash_path k hash) \<Longrightarrow> snd x < 8 * 2 ^ k"
  using set_slot_path [OF start_less [where h = hash and k = k]] by (auto simp: hash_path_def)

lemma place_result:
  assumes ok: "slots_ok k hf t ks D" and hf: "\<And>key. hf key \<noteq> 0 \<and> hf key \<noteq> 1"
    and i: "i \<notin> D" "i < length ks" and room: "empty_slots k t \<noteq> {}" and dead: "dead_slots k t = {}"
  shows "\<exists>st. probe_loop (place_visit t (hf (ks ! i)) (int i)) (slot_count t)
      (stbds_probe_position (hf (ks ! i)) (slot_count t)) 8 () = Some (t\<lparr>hi_storage := st\<rparr>) \<and>
    slots_ok k hf (t\<lparr>hi_storage := st\<rparr>) ks (insert i D) \<and> dead_slots k (t\<lparr>hi_storage := st\<rparr>) = {}"
proof -
  let ?h = "hf (ks ! i)"
  note shape = slots_okD(1) [OF ok]
  have sc: "slot_count t = 8 * 2 ^ k" using shape by (simp add: index_shape_def)
  obtain q where q: "q < 8 * 2 ^ k" "hash_slot t q = 0" using room by (auto simp: empty_slots_def)
  obtain xs w p ys where path: "hash_path k ?h = xs @ (w, p) # ys" "hash_slot t p = 0" "\<forall>x \<in> set xs. hash_slot t (snd x) \<noteq> 0"
    unfolding hash_path_def using slot_path_split [OF start_less q(1), of "\<lambda>q. hash_slot t q = 0" ?h] q(2) by blast
  have p: "p < 8 * 2 ^ k" using path_slot_less [of "(w, p)" k ?h] path(1) by simp
  have reach: "reach k t ?h p" using path by (auto simp: reach_def)
  have neg: "index_slot t p < 0" using hf_index(1) [OF ok hf p] path(2) by simp
  define t' where "t' = set_slot t (p div 8) (p mod 8) ?h (int i)"
  have "probe_loop (place_visit t ?h (int i)) (8 * 2 ^ k) (unat ?h mod (8 * 2 ^ k)) 8 () = Some t'"
    unfolding t'_def by (rule pl.loop_result [OF start_less path(1) [unfolded hash_path_def] path(3,2)])
  moreover have "slots_ok k hf t' ks (insert i D)" unfolding t'_def by (rule slots_add [OF ok hf i p neg reach])
  moreover have "dead_slots k t' = {}" using dead hf by (simp add: t'_def set_slot_kinds [OF shape p])
  moreover have "t' = t\<lparr>hi_storage := hi_storage t'\<rparr>" by (simp add: t'_def set_slot_def)
  ultimately show ?thesis using sc by (intro exI [of _ "hi_storage t'"]) simp
qed

lemma copy_slots_result:
  assumes old: "slots_ok ko hf ot ks D" and hf: "\<And>key. hf key \<noteq> 0 \<and> hf key \<noteq> 1"
    and room: "card D < 8 * 2 ^ k"
    and ijs: "\<forall>(b, z) \<in> set ijs. b < 2 ^ ko \<and> z < 8" "distinct ijs"
    and new: "slots_ok k hf t ks D0" "dead_slots k t = {}" "D0 \<subseteq> D"
      "\<forall>(b, z) \<in> set ijs. 0 \<le> index_at ot b z \<longrightarrow> nat (index_at ot b z) \<notin> D0"
  shows "\<exists>st. copy_slots ot ijs t = Some (t\<lparr>hi_storage := st\<rparr>) \<and> dead_slots k (t\<lparr>hi_storage := st\<rparr>) = {} \<and>
    slots_ok k hf (t\<lparr>hi_storage := st\<rparr>) ks (D0 \<union> {nat (index_at ot b z) |b z. (b, z) \<in> set ijs \<and> 0 \<le> index_at ot b z})"
  using ijs new
proof (induction ijs arbitrary: t D0)
  case Nil
  have "t = t\<lparr>hi_storage := hi_storage t\<rparr>" by simp
  then show ?case using Nil.prems by (intro exI [of _ "hi_storage t"]) simp
next
  case (Cons bz ijs)
  obtain b z where bz: "bz = (b, z)" by (cases bz)
  define p where "p = 8 * b + z"
  have lt: "b < 2 ^ ko" "z < 8" using Cons.prems(1) by (simp_all add: bz)
  then have "8 * (b + 1) \<le> 8 * 2 ^ ko" by (intro mult_le_mono2) simp
  then have p: "p < 8 * 2 ^ ko" "p div 8 = b" "p mod 8 = z" using lt by (simp_all add: p_def)
  have idx: "index_at ot b z = index_slot ot p" "hash_at ot b z = hash_slot ot p"
    using p by (simp_all add: index_slot_def hash_slot_def)
  show ?case
  proof (cases "0 \<le> index_at ot b z")
    case False
    then have "\<exists>st. copy_slots ot ijs t = Some (t\<lparr>hi_storage := st\<rparr>) \<and> dead_slots k (t\<lparr>hi_storage := st\<rparr>) = {} \<and>
        slots_ok k hf (t\<lparr>hi_storage := st\<rparr>) ks (D0 \<union> {nat (index_at ot b z) |b z. (b, z) \<in> set ijs \<and> 0 \<le> index_at ot b z})"
      using Cons.prems by (intro Cons.IH) auto
    moreover have "{nat (index_at ot b z) |b z. (b, z) \<in> set (bz # ijs) \<and> 0 \<le> index_at ot b z} =
        {nat (index_at ot b z) |b z. (b, z) \<in> set ijs \<and> 0 \<le> index_at ot b z}"
      using False by (auto simp: bz)
    ultimately show ?thesis using False by (simp add: bz STBDS_INDEX_IN_USE_def)
  next
    case True
    then obtain i where i: "i \<in> D" "index_slot ot p = int i" "hash_slot ot p = hf (ks ! i)"
      using slot_in_use [OF old p(1)] by (metis idx(1))
    have ilt: "i < length ks" using slots_okD(2) [OF old] i(1) by blast
    have ni: "i \<notin> D0" using Cons.prems(6) True by (auto simp: bz idx i(2))
    have "finite D" using slots_okD(2) [OF old] finite_subset by blast
    then have "card D0 < 8 * 2 ^ k" using room card_mono [OF _ Cons.prems(5)] by linarith
    then have "empty_slots k t \<noteq> {}"
      using slot_census [OF Cons.prems(3) hf] Cons.prems(4) by auto
    from place_result [OF Cons.prems(3) hf ni ilt this Cons.prems(4)] obtain st where st:
      "probe_loop (place_visit t (hf (ks ! i)) (int i)) (slot_count t)
        (stbds_probe_position (hf (ks ! i)) (slot_count t)) 8 () = Some (t\<lparr>hi_storage := st\<rparr>)"
      "slots_ok k hf (t\<lparr>hi_storage := st\<rparr>) ks (insert i D0)" "dead_slots k (t\<lparr>hi_storage := st\<rparr>) = {}" by blast
    have fresh: "\<forall>(b', z') \<in> set ijs. 0 \<le> index_at ot b' z' \<longrightarrow> nat (index_at ot b' z') \<notin> insert i D0"
    proof (intro ballI, clarify)
      fix b' z' assume m: "(b', z') \<in> set ijs" "0 \<le> index_at ot b' z'" "nat (index_at ot b' z') \<in> insert i D0"
      then have ne: "(b', z') \<noteq> (b, z)" and l': "b' < 2 ^ ko" "z' < 8" using Cons.prems(1,2) by (auto simp: bz)
      then have "8 * (b' + 1) \<le> 8 * 2 ^ ko" by (intro mult_le_mono2) simp
      then have p': "8 * b' + z' < 8 * 2 ^ ko" "(8 * b' + z') div 8 = b'" "(8 * b' + z') mod 8 = z'" using l' by simp_all
      have "nat (index_at ot b' z') = i" using m(1,2,3) Cons.prems(6) by auto
      then have "index_slot ot (8 * b' + z') = int i" using m(2) p' by (simp add: index_slot_def)
      then have "8 * b' + z' = p" using slots_okD(5) [OF old p'(1) p(1)] i(2) by simp
      then show False using ne p(2,3) p'(2,3) by auto
    qed
    have "\<exists>st'. copy_slots ot ijs (t\<lparr>hi_storage := st\<rparr>) = Some (t\<lparr>hi_storage := st\<rparr>\<lparr>hi_storage := st'\<rparr>) \<and>
        dead_slots k (t\<lparr>hi_storage := st\<rparr>\<lparr>hi_storage := st'\<rparr>) = {} \<and>
        slots_ok k hf (t\<lparr>hi_storage := st\<rparr>\<lparr>hi_storage := st'\<rparr>) ks
          (insert i D0 \<union> {nat (index_at ot b z) |b z. (b, z) \<in> set ijs \<and> 0 \<le> index_at ot b z})"
      by (rule Cons.IH [OF _ _ st(2,3) _ fresh]) (use Cons.prems(1,2,5) i(1) in auto)
    then obtain st' where st': "copy_slots ot ijs (t\<lparr>hi_storage := st\<rparr>) = Some (t\<lparr>hi_storage := st'\<rparr>)"
      "dead_slots k (t\<lparr>hi_storage := st'\<rparr>) = {}"
      "slots_ok k hf (t\<lparr>hi_storage := st'\<rparr>) ks (insert i D0 \<union> {nat (index_at ot b z) |b z. (b, z) \<in> set ijs \<and> 0 \<le> index_at ot b z})"
      by auto
    have "copy_slots ot (bz # ijs) t = Some (t\<lparr>hi_storage := st'\<rparr>)"
      using True st(1) st'(1) by (simp add: bz STBDS_INDEX_IN_USE_def idx i(2,3))
    moreover have "insert i D0 \<union> {nat (index_at ot b z) |b z. (b, z) \<in> set ijs \<and> 0 \<le> index_at ot b z} =
        D0 \<union> {nat (index_at ot b z) |b z. (b, z) \<in> set (bz # ijs) \<and> 0 \<le> index_at ot b z}"
    proof -
      have "nat (index_at ot b z) = i" by (simp add: idx i(2))
      then show ?thesis using True by (auto simp: bz)
    qed
    ultimately show ?thesis using st'(2,3) by auto
  qed
qed

lemma log2_loop: "stbds_log2_loop (2 ^ k) n = n + k"
proof (induction k arbitrary: n)
  case 0
  then show ?case by (subst stbds_log2_loop.simps) simp
next
  case (Suc k)
  have "(1::nat) < 2 ^ Suc k" by (rule power_gt1) simp
  then show ?case by (subst stbds_log2_loop.simps) (simp add: Suc)
qed

lemma log2_pow2: "stbds_log2 (8 * 2 ^ k) = k + 3"
  using log2_loop [of "k + 3" 0] by (simp add: stbds_log2_def power_add mult.commute)

lemma pow_le_1: "(2 :: nat) ^ k \<le> Suc 0 \<longleftrightarrow> k = 0"
proof (cases k)
  case (Suc n)
  have "(1::nat) < 2 ^ Suc n" by (rule power_gt1) simp
  then show ?thesis using Suc by simp
qed simp

text \<open>The header fields of an index of \<open>8 * 2 ^ k\<close> slots.\<close>

definition header_ok :: "nat \<Rightarrow> 'k stb_index \<Rightarrow> bool" where
  "header_ok k t \<longleftrightarrow> slot_count t = 8 * 2 ^ k \<and> used_count_threshold t = 7 * 2 ^ k \<and> tombstone_count_threshold t = 2 ^ k \<and>
    used_count_shrink_threshold t = (if k = 0 then 0 else 3 * 2 ^ k) \<and> slot_count_log2 t = k + 3"

lemma replicate_shape:
  assumes "hi_storage t = replicate (2 ^ k) \<lparr>bk_hash = replicate 8 0, bk_index = replicate 8 (-1)\<rparr>" "slot_count t = 8 * 2 ^ k"
  shows "slots_ok k hf t ks {}" "dead_slots k t = {}"
proof -
  have at: "hash_slot t p = 0" "index_slot t p = -1" if "p < 8 * 2 ^ k" for p
    using slot_div [OF that] by (simp_all add: hash_slot_def index_slot_def hash_at_def index_at_def assms)
  show "slots_ok k hf t ks {}"
    by (rule slots_okI) (auto simp: index_shape_def assms at slot_ok_def)
  show "dead_slots k t = {}" by (auto simp: dead_slots_def at)
qed

lemma make_index_fresh:
  obtains t :: "'k stb_index" where "stbds_make_hash_index gs (8 * 2 ^ k) None = Some (t, next_seed gs)" "\<forall>hf ks. slots_ok k hf t ks {}"
    "dead_slots k t = {}" "header_ok k t" "used_count t = 0" "tombstone_count t = 0"
proof -
  obtain t :: "'k stb_index" where t: "stbds_make_hash_index gs (8 * 2 ^ k) None = Some (t, next_seed gs)"
    "hi_storage t = replicate (2 ^ k) \<lparr>bk_hash = replicate 8 0, bk_index = replicate 8 (-1)\<rparr>"
    "header_ok k t" "used_count t = 0" "tombstone_count t = 0"
    by (simp add: stbds_make_hash_index_def header_ok_def log2_pow2 pow_le_1 STBDS_HASH_EMPTY_def STBDS_INDEX_EMPTY_def Let_def)
  then have sc: "slot_count t = 8 * 2 ^ k" by (simp add: header_ok_def)
  have "\<forall>hf ks. slots_ok k hf t ks {}" using replicate_shape(1) [OF t(2) sc] by blast
  then show thesis by (rule that [OF t(1) _ replicate_shape(2) [OF t(2) sc] t(3-5)])
qed

lemma make_index_copy:
  fixes E :: "('k, 'v) stb_env" and ot :: "'k stb_index"
  assumes old: "slots_ok ko (key_hash E (hi_seed ot)) ot ks D" and room: "card D < 8 * 2 ^ k"
  obtains t where "stbds_make_hash_index gs (8 * 2 ^ k) (Some ot) = Some (t, gs)" "slots_ok k (key_hash E (hi_seed ot)) t ks D"
    "dead_slots k t = {}" "header_ok k t" "used_count t = used_count ot" "tombstone_count t = 0"
    "hi_seed t = hi_seed ot" "hi_string t = hi_string ot"
proof -
  define t0 :: "'k stb_index" where "t0 = \<lparr>temp_key = None, slot_count = 8 * 2 ^ k, used_count = used_count ot,
    used_count_threshold = 8 * 2 ^ k * 14 div 16,
    used_count_shrink_threshold = (if 8 * 2 ^ k \<le> STBDS_BUCKET_LENGTH then 0 else 8 * 2 ^ k * 6 div 16),
    tombstone_count = 0, tombstone_count_threshold = 8 * 2 ^ k * 2 div 16,
    hi_seed = hi_seed ot, slot_count_log2 = stbds_log2 (8 * 2 ^ k), hi_string = hi_string ot,
    hi_storage = replicate (2 ^ k) \<lparr>bk_hash = replicate 8 0, bk_index = replicate 8 (-1)\<rparr>\<rparr>"
  let ?hf = "key_hash E (hi_seed ot)"
  let ?ijs = "List.product [0..<2 ^ ko] [0..<8]"
  have sc: "slot_count ot = 8 * 2 ^ ko" using slots_okD(1) [OF old] by (simp add: index_shape_def)
  have make: "stbds_make_hash_index gs (8 * 2 ^ k) (Some ot) = map_option (\<lambda>t. (t, gs)) (copy_slots ot ?ijs t0)"
    by (auto simp: stbds_make_hash_index_def t0_def sc STBDS_HASH_EMPTY_def STBDS_INDEX_EMPTY_def Let_def
        simp del: upt_rec_numeral split: option.splits)
  have new: "slots_ok k ?hf t0 ks {}" "dead_slots k t0 = {}" by (rule replicate_shape; simp add: t0_def)+
  obtain st where st: "copy_slots ot ?ijs t0 = Some (t0\<lparr>hi_storage := st\<rparr>)" "dead_slots k (t0\<lparr>hi_storage := st\<rparr>) = {}"
    "slots_ok k ?hf (t0\<lparr>hi_storage := st\<rparr>) ks ({} \<union> {nat (index_at ot b z) |b z. (b, z) \<in> set ?ijs \<and> 0 \<le> index_at ot b z})"
    using copy_slots_result [OF old key_hash_range room _ _ new, of ?ijs] by (auto simp: distinct_product simp del: upt_rec_numeral)
  have "{nat (index_at ot b z) |b z. (b, z) \<in> set ?ijs \<and> 0 \<le> index_at ot b z} = D"
  proof
    show "{nat (index_at ot b z) |b z. (b, z) \<in> set ?ijs \<and> 0 \<le> index_at ot b z} \<subseteq> D"
    proof clarify
      fix b z assume bz: "(b, z) \<in> set ?ijs" "0 \<le> index_at ot b z"
      then have "b < 2 ^ ko" "z < 8" by auto
      then have "8 * (b + 1) \<le> 8 * 2 ^ ko" "(8 * b + z) div 8 = b" "(8 * b + z) mod 8 = z" by simp_all
      then have p: "8 * b + z < 8 * 2 ^ ko" "index_slot ot (8 * b + z) = index_at ot b z"
        using \<open>z < 8\<close> by (simp_all add: index_slot_def)
      then show "nat (index_at ot b z) \<in> D" using slot_in_use [OF old p(1)] bz(2) by (metis nat_int)
    qed
    show "D \<subseteq> {nat (index_at ot b z) |b z. (b, z) \<in> set ?ijs \<and> 0 \<le> index_at ot b z}"
    proof
      fix i assume "i \<in> D"
      then obtain p where p: "p < 8 * 2 ^ ko" "index_slot ot p = int i" using slots_okD(4) [OF old] by blast
      then show "i \<in> {nat (index_at ot b z) |b z. (b, z) \<in> set ?ijs \<and> 0 \<le> index_at ot b z}"
        using slot_div [OF p(1)]
        by (intro CollectI exI [of _ "p div 8"] exI [of _ "p mod 8"]) (auto simp: index_slot_def)
    qed
  qed
  then have s: "slots_ok k ?hf (t0\<lparr>hi_storage := st\<rparr>) ks D" using st(3) by simp
  have fields: "header_ok k (t0\<lparr>hi_storage := st\<rparr>)" "used_count (t0\<lparr>hi_storage := st\<rparr>) = used_count ot"
    "tombstone_count (t0\<lparr>hi_storage := st\<rparr>) = 0" "hi_seed (t0\<lparr>hi_storage := st\<rparr>) = hi_seed ot"
    "hi_string (t0\<lparr>hi_storage := st\<rparr>) = hi_string ot"
    by (simp_all add: t0_def header_ok_def log2_pow2 pow_le_1)
  have "stbds_make_hash_index gs (8 * 2 ^ k) (Some ot) = Some (t0\<lparr>hi_storage := st\<rparr>, gs)" using make st(1) by simp
  then show thesis using that [OF _ s st(2) fields] by blast
qed

section \<open>The invariant\<close>

definition index_ok :: "('k, 'v) stb_env \<Rightarrow> 'k stb_index \<Rightarrow> 'k list \<Rightarrow> bool" where
  "index_ok E t ks \<longleftrightarrow> (\<exists>k. slots_ok k (key_hash E (hi_seed t)) t ks {..<length ks} \<and> header_ok k t \<and>
    used_count t = length ks \<and> tombstone_count t = card (dead_slots k t) \<and>
    length ks \<le> 7 * 2 ^ k \<and> card (dead_slots k t) \<le> 2 ^ k)"

text \<open>The default element, then the entries with pairwise different keys, indexed when there is an index.\<close>

definition stb_ok :: "('k, 'v) stb_env \<Rightarrow> ('k, 'v) stb_arr option \<Rightarrow> bool" where
  "stb_ok E a = (case a of None \<Rightarrow> True | Some x \<Rightarrow>
    sa_elems x \<noteq> [] \<and> length (sa_elems x) \<le> sa_capacity x \<and> distinct (keys_of (sa_elems x)) \<and>
    (case sa_table x of None \<Rightarrow> length (sa_elems x) = 1 | Some t \<Rightarrow> index_ok E t (keys_of (sa_elems x))))"

definition stb_map :: "('k, 'v) stb_arr option \<Rightarrow> 'k \<Rightarrow> 'v option" where
  "stb_map a = (case a of None \<Rightarrow> Map.empty | Some x \<Rightarrow> map_of (tl (sa_elems x)))"

definition stb_keys :: "('k, 'v) stb_arr option \<Rightarrow> 'k list" where
  "stb_keys a = (case a of None \<Rightarrow> [] | Some x \<Rightarrow> keys_of (sa_elems x))"

text \<open>An index at its load factor and with as many deleted slots as it tolerates.\<close>

definition index_full :: "'k stb_index \<Rightarrow> bool" where
  "index_full t \<longleftrightarrow> used_count t = used_count_threshold t \<and> tombstone_count t = tombstone_count_threshold t"

definition stb_full :: "('k, 'v) stb_arr option \<Rightarrow> bool" where
  "stb_full a = (case a of None \<Rightarrow> False | Some x \<Rightarrow> (case sa_table x of None \<Rightarrow> False | Some t \<Rightarrow> index_full t))"

definition stb_tombs :: "('k, 'v) stb_arr option \<Rightarrow> nat" where
  "stb_tombs a = (case Option.bind a sa_table of None \<Rightarrow> 0 | Some t \<Rightarrow> tombstone_count t)"

lemma no_tombs_not_full:
  assumes "stb_ok E a" "stb_tombs a = 0"
  shows "\<not> stb_full a"
  using assms
  by (auto simp: stb_full_def stb_ok_def stb_tombs_def index_full_def index_ok_def header_ok_def split: option.splits)

lemma stb_map_dom: "dom (stb_map a) = set (stb_keys a)"
  by (auto simp: stb_map_def stb_keys_def keys_of_def dom_map_of_conv_image_fst split: option.splits)

lemma index_ok_full:
  assumes "slots_ok k (key_hash E (hi_seed t)) t ks {..<length ks}" "header_ok k t" "used_count t = length ks"
    "tombstone_count t = card (dead_slots k t)" "length ks \<le> 7 * 2 ^ k" "card (dead_slots k t) \<le> 2 ^ k"
  shows "index_full t \<longleftrightarrow> empty_slots k t = {}"
proof -
  have "length ks + card (dead_slots k t) + card (empty_slots k t) = 8 * 2 ^ k"
    using slot_census [OF assms(1) key_hash_range] by simp
  then have "card (empty_slots k t) = 0 \<longleftrightarrow> length ks = 7 * 2 ^ k \<and> card (dead_slots k t) = 2 ^ k"
    using assms(5,6) by linarith
  then show ?thesis using assms(2-4) by (simp add: index_full_def header_ok_def)
qed

lemma index_full_storage:
  assumes "index_ok E t ks"
  shows "index_full t \<longleftrightarrow> (\<forall>b \<in> set (hi_storage t). STBDS_HASH_EMPTY \<notin> set (bk_hash b))"
proof -
  obtain k where k: "slots_ok k (key_hash E (hi_seed t)) t ks {..<length ks}" "header_ok k t" "used_count t = length ks"
    "tombstone_count t = card (dead_slots k t)" "length ks \<le> 7 * 2 ^ k" "card (dead_slots k t) \<le> 2 ^ k"
    using assms by (auto simp: index_ok_def)
  have shape: "length (hi_storage t) = 2 ^ k" "\<And>b. b \<in> set (hi_storage t) \<Longrightarrow> length (bk_hash b) = 8"
    using slots_okD(1) [OF k(1)] by (auto simp: index_shape_def)
  have "(\<exists>b \<in> set (hi_storage t). 0 \<in> set (bk_hash b)) \<longleftrightarrow> empty_slots k t \<noteq> {}"
  proof
    assume "\<exists>b \<in> set (hi_storage t). 0 \<in> set (bk_hash b)"
    then obtain i z where i: "i < 2 ^ k" "z < 8" "hash_at t i z = 0"
      using shape by (auto simp: in_set_conv_nth hash_at_def)
    then have "8 * (i + 1) \<le> 8 * 2 ^ k" by (intro mult_le_mono2) simp
    then have "8 * i + z \<in> empty_slots k t" using i by (simp add: empty_slots_def hash_slot_def)
    then show "empty_slots k t \<noteq> {}" by blast
  next
    assume "empty_slots k t \<noteq> {}"
    then obtain p where p: "p < 8 * 2 ^ k" "hash_at t (p div 8) (p mod 8) = 0" by (auto simp: empty_slots_def hash_slot_def)
    then have b: "hi_storage t ! (p div 8) \<in> set (hi_storage t)" using slot_div shape(1) by simp
    then have "0 \<in> set (bk_hash (hi_storage t ! (p div 8)))"
      using p(2) shape(2) [OF b] by (metis hash_at_def mod_less_divisor nth_mem zero_less_numeral)
    then show "\<exists>b \<in> set (hi_storage t). 0 \<in> set (bk_hash b)" using b by blast
  qed
  then show ?thesis using index_ok_full [OF k] by (auto simp: STBDS_HASH_EMPTY_def)
qed

lemma nth_image_all: "(!) ks ` {..<length ks} = set ks"
  by (auto simp: in_set_conv_nth)

lemma inj_on_nth_all: "distinct ks \<Longrightarrow> inj_on ((!) ks) {..<length ks}"
  by (auto simp: inj_on_def nth_eq_iff_index_eq)

text \<open>Lookup in an index that is in order.\<close>

lemma index_find:
  assumes ok: "index_ok E t (keys_of es)" and d: "distinct (keys_of es)"
  shows "key \<notin> set (keys_of es) \<Longrightarrow> stbds_hm_find_slot E t es key = (if index_full t then None else Some (-1))"
    and "i < length (keys_of es) \<Longrightarrow> keys_of es ! i = key \<Longrightarrow>
      \<exists>p. stbds_hm_find_slot E t es key = Some (int p) \<and> index_slot t p = int i"
proof -
  obtain k where k: "slots_ok k (key_hash E (hi_seed t)) t (keys_of es) {..<length (keys_of es)}" "header_ok k t"
    "used_count t = length (keys_of es)" "tombstone_count t = card (dead_slots k t)"
    "length (keys_of es) \<le> 7 * 2 ^ k" "card (dead_slots k t) \<le> 2 ^ k"
    using ok by (auto simp: index_ok_def)
  show "stbds_hm_find_slot E t es key = (if index_full t then None else Some (-1))" if "key \<notin> set (keys_of es)"
    using find_slot_miss [OF k(1)] that index_ok_full [OF k] by (simp add: nth_image_all)
  show "\<exists>p. stbds_hm_find_slot E t es key = Some (int p) \<and> index_slot t p = int i"
    if "i < length (keys_of es)" "keys_of es ! i = key"
    using find_slot_hit [OF k(1) inj_on_nth_all [OF d], of i key] that by auto
qed

lemma default_array: "stb_default_array E = \<lparr>sa_elems = [sb_zero E], sa_capacity = 4, sa_temp = 0, sa_table = None\<rparr>"
  by (simp add: stb_default_array_def stbds_arrgrowf_def stbds_arrlen_def stbds_arrcap_def)

lemma default_array_ok:
  "stb_ok E (Some (stb_default_array E))" "stb_map (Some (stb_default_array E)) = Map.empty"
  "stb_keys (Some (stb_default_array E)) = []"
  by (simp_all add: default_array stb_ok_def stb_map_def stb_keys_def keys_of_def)

text \<open>Lookup: the position of the key, or \<open>-1\<close>, or no return.\<close>

lemma hmgeti_result:
  assumes ok: "stb_ok E a"
  shows "(if stb_map a key = None \<and> stb_full a then stbds_hmgeti E a key = None
    else \<exists>x i. stbds_hmgeti E a key = Some (x, i) \<and> stb_ok E (Some x) \<and> stb_map (Some x) = stb_map a \<and>
      stb_keys (Some x) = stb_keys a \<and> stb_full (Some x) = stb_full a \<and>
      (if stb_map a key = None then i = -1 else 0 \<le> i \<and> nat i < length (stb_keys a) \<and> stb_keys a ! nat i = key))"
proof (cases a)
  case None
  then show ?thesis
    using default_array_ok [of E]
    by (simp add: stbds_hmgeti_def stbds_hmget_key_def stbds_hmget_key_ts_def stb_map_def stb_full_def stb_keys_def stb_ok_def
        STBDS_INDEX_EMPTY_def default_array)
next
  case (Some x)
  note x = ok [unfolded Some stb_ok_def option.case]
  have temp: "stb_ok E (Some (x\<lparr>sa_temp := i\<rparr>))" "stb_map (Some (x\<lparr>sa_temp := i\<rparr>)) = stb_map a"
    "stb_keys (Some (x\<lparr>sa_temp := i\<rparr>)) = stb_keys a" "stb_full (Some (x\<lparr>sa_temp := i\<rparr>)) = stb_full a" for i
    using x by (simp_all add: Some stb_ok_def stb_map_def stb_keys_def stb_full_def split: option.splits)
  show ?thesis
  proof (cases "sa_table x")
    case None
    then have "stb_map a = Map.empty" "\<not> stb_full a" using x Some
      by (auto simp: stb_map_def stb_full_def length_Suc_conv)
    moreover have "stbds_hmgeti E a key = Some (x\<lparr>sa_temp := -1\<rparr>, -1)"
      by (simp add: Some None stbds_hmgeti_def stbds_hmget_key_def stbds_hmget_key_ts_def)
    ultimately show ?thesis using temp by auto
  next
    case (Some t)
    then have full: "stb_full a = index_full t" and t: "index_ok E t (keys_of (sa_elems x))" "distinct (keys_of (sa_elems x))"
      and keys: "stb_keys a = keys_of (sa_elems x)"
      using x \<open>a = Some x\<close> by (auto simp: stb_full_def stb_keys_def)
    have none: "stb_map a key = None \<longleftrightarrow> key \<notin> set (stb_keys a)" using stb_map_dom [of a] by blast
    have get: "stbds_hmgeti E a key = (case stbds_hm_find_slot E t (sa_elems x) key of None \<Rightarrow> None
      | Some slot \<Rightarrow> let i = (if slot < 0 then -1 else index_slot t (nat slot)) in Some (x\<lparr>sa_temp := i\<rparr>, i))"
      using Some \<open>a = Some x\<close>
      by (simp add: stbds_hmgeti_def stbds_hmget_key_def stbds_hmget_key_ts_def index_slot_def STBDS_INDEX_EMPTY_def Let_def
          split: option.splits)
    show ?thesis
    proof (cases "key \<in> set (keys_of (sa_elems x))")
      case False
      then show ?thesis using index_find(1) [OF t False] none temp by (auto simp: get full keys Let_def)
    next
      case True
      then obtain i where i: "i < length (keys_of (sa_elems x))" "keys_of (sa_elems x) ! i = key"
        by (auto simp: in_set_conv_nth)
      then obtain p where "stbds_hm_find_slot E t (sa_elems x) key = Some (int p)" "index_slot t p = int i"
        using index_find(2) [OF t] by blast
      then show ?thesis using True i none temp by (auto simp: get full keys Let_def)
    qed
  qed
qed

section \<open>Insertion\<close>

lemma fold_tombstone:
  assumes "fold (\<lambda>x s. if hash_slot t (snd x) \<noteq> h \<and> s < 0 \<and> index_slot t (snd x) = -2 then int (snd x) else s) xs s0 = s"
  shows "s = s0 \<or> (\<exists>x \<in> set xs. s = int (snd x) \<and> index_slot t (snd x) = -2)"
  using assms by (induction xs arbitrary: s0) (force split: if_splits)+

text \<open>The search for a key that is not in the index: the slot it will go to.\<close>

lemma put_search_miss:
  assumes ok: "slots_ok k (key_hash E (hi_seed t)) t (keys_of es) D" and out: "key \<notin> (!) (keys_of es) ` D"
    and room: "empty_slots k t \<noteq> {}"
  obtains p q s where "probe_loop (put_visit t es key (key_hash E (hi_seed t) key)) (slot_count t)
      (stbds_probe_position (key_hash E (hi_seed t) key) (slot_count t)) 8 (-1) = Some (Put_empty (p div 8) (p mod 8) s)"
    "q = (if s \<ge> 0 then nat s else p)" "q < 8 * 2 ^ k" "index_slot t q < 0"
    "reach k t (key_hash E (hi_seed t) key) q" "q \<in> dead_slots k t \<longleftrightarrow> s \<ge> 0"
proof -
  let ?h = "key_hash E (hi_seed t) key"
  have sc: "slot_count t = 8 * 2 ^ k" using slots_okD(1) [OF ok] by (simp add: index_shape_def)
  note S = search_misses [OF ok key_hash_range out]
  obtain r where r: "r < 8 * 2 ^ k" "hash_slot t r = 0" using room by (auto simp: empty_slots_def)
  obtain xs w p ys where path: "hash_path k ?h = xs @ (w, p) # ys" "hash_slot t p = 0" "\<forall>x \<in> set xs. hash_slot t (snd x) \<noteq> 0"
    unfolding hash_path_def using slot_path_split [OF start_less r(1), of "\<lambda>q. hash_slot t q = 0" ?h] r(2) by blast
  have lt: "snd x < 8 * 2 ^ k" if "x \<in> set xs" for x using path_slot_less [of x k ?h] that path(1) by simp
  have p: "p < 8 * 2 ^ k" using path_slot_less [of "(w, p)" k ?h] path(1) by simp
  define s where "s = fold (\<lambda>x s. if hash_slot t (snd x) \<noteq> ?h \<and> s < 0 \<and> index_slot t (snd x) = -2 then int (snd x) else s) xs (-1)"
  have loop: "probe_loop (put_visit t es key ?h) (8 * 2 ^ k) (unat ?h mod (8 * 2 ^ k)) 8 (-1) = Some (Put_empty (p div 8) (p mod 8) s)"
  proof -
    have stop: "\<forall>x \<in> set xs. \<not> (matches t es key ?h (snd x) \<or> hash_slot t (snd x) \<noteq> ?h \<and> hash_slot t (snd x) = 0)"
      using S(2) [OF lt] path(3) by blast
    show ?thesis
      using pv.loop_result [OF start_less path(1) [unfolded hash_path_def] stop, of "-1"] S(1) [OF p] S(2) [OF p] path(2)
      by (simp add: s_def)
  qed
  have reach: "reach k t ?h (snd x)" if xin: "x \<in> set xs" for x
  proof -
    obtain us vs where "xs = us @ x # vs" using xin by (meson split_list)
    then show ?thesis using path(1,3) unfolding reach_def
      by (intro exI [of _ us] exI [of _ "fst x"] exI [of _ "vs @ (w, p) # ys"]) auto
  qed
  have kind: "s = -1 \<or> (\<exists>x \<in> set xs. s = int (snd x) \<and> index_slot t (snd x) = -2)"
    by (rule fold_tombstone [of t ?h]) (simp add: s_def)
  define q where "q = (if s \<ge> 0 then nat s else p)"
  have q: "q < 8 * 2 ^ k \<and> index_slot t q < 0 \<and> reach k t ?h q \<and> (q \<in> dead_slots k t \<longleftrightarrow> s \<ge> 0)"
  proof (cases "s \<ge> 0")
    case True
    then obtain x where x: "x \<in> set xs" "q = snd x" "index_slot t q = -2" using kind by (auto simp: q_def)
    then show ?thesis using lt reach hf_index(2) [OF ok key_hash_range, of q] True by (auto simp: dead_slots_def)
  next
    case False
    have "reach k t ?h p" using path by (auto simp: reach_def)
    then show ?thesis
      using False p path(2) hf_index(1) [OF ok key_hash_range p] by (auto simp: q_def dead_slots_def)
  qed
  show thesis using that [of p s q] loop q sc by (simp add: q_def)
qed

lemma put_search_hit:
  assumes ok: "slots_ok k (key_hash E (hi_seed t)) t (keys_of es) D"
    and inj: "inj_on ((!) (keys_of es)) D" and i: "i \<in> D" "keys_of es ! i = key"
  obtains w where "probe_loop (put_visit t es key (key_hash E (hi_seed t) key)) (slot_count t)
      (stbds_probe_position (key_hash E (hi_seed t) key) (slot_count t)) 8 (-1) = Some (Put_found w (int i))"
proof -
  let ?h = "key_hash E (hi_seed t) key"
  have sc: "slot_count t = 8 * 2 ^ k" using slots_okD(1) [OF ok] by (simp add: index_shape_def)
  obtain xs w p ys where p: "hash_path k ?h = xs @ (w, p) # ys" "p < 8 * 2 ^ k" "index_slot t p = int i"
    "matches t es key ?h p"
    "\<forall>x \<in> set xs. \<not> (matches t es key ?h (snd x) \<or> hash_slot t (snd x) \<noteq> ?h \<and> hash_slot t (snd x) = 0)"
    using search_hits [OF ok key_hash_range inj i] .
  have "probe_loop (put_visit t es key ?h) (8 * 2 ^ k) (unat ?h mod (8 * 2 ^ k)) 8 (-1) = Some (Put_found w (int i))"
    using pv.loop_result [OF start_less p(1) [unfolded hash_path_def] p(5), of "-1"] p(3,4) by simp
  then show thesis using that sc by simp
qed

text \<open>
  Which of the two inner loops finds a key: the second one for the slots before the start within the bucket,
  as every step of the probe is a whole number of buckets.
\<close>

lemma slot_path_wrapped: "(w, q) \<in> set (slot_path nb pos r) \<Longrightarrow> w \<longleftrightarrow> q mod 8 < pos mod 8"
  by (auto simp: slot_path_def bucket_path_def position_def)

text \<open>The index that insertion searches: in order, below its load factor and with an empty slot.\<close>

definition index_ready :: "('k, 'v) stb_env \<Rightarrow> nat \<Rightarrow> 'k stb_index \<Rightarrow> 'k list \<Rightarrow> bool" where
  "index_ready E k t ks \<longleftrightarrow> slots_ok k (key_hash E (hi_seed t)) t ks {..<length ks} \<and> header_ok k t \<and>
    used_count t = length ks \<and> tombstone_count t = card (dead_slots k t) \<and>
    length ks < 7 * 2 ^ k \<and> card (dead_slots k t) \<le> 2 ^ k"

lemma index_ready_room: "index_ready E k t ks \<Longrightarrow> empty_slots k t \<noteq> {}"
  using slot_census [of k _ t ks "{..<length ks}", OF _ key_hash_range] by (auto simp: index_ready_def)

lemma put_index_ready:
  assumes "case table of None \<Rightarrow> ks = [] | Some t \<Rightarrow> index_ok E t ks"
  obtains t gs' k where "put_index gs mode table = Some (t, gs')" "index_ready E k t ks"
    "tombstone_count t \<le> (case table of None \<Rightarrow> 0 | Some t0 \<Rightarrow> tombstone_count t0)"
proof (cases table)
  case None
  obtain t where t: "stbds_make_hash_index gs (8 * 2 ^ 0) None = Some (t, next_seed gs)"
    "\<forall>hf (ks :: 'a list). slots_ok 0 hf t ks {}" "dead_slots 0 t = {}" "header_ok 0 t" "used_count t = 0" "tombstone_count t = 0"
    using make_index_fresh [of gs 0] .
  let ?t = "t\<lparr>hi_string := (hi_string t)\<lparr>ar_mode := (if mode = HM_STRING then SH_DEFAULT else SH_NONE)\<rparr>\<rparr>"
  have "slots_ok 0 (key_hash E (hi_seed ?t)) ?t ks {}" "dead_slots 0 ?t = {}" "header_ok 0 ?t"
    using t(2-4) storage_cong(4) [of ?t t 0 "key_hash E (hi_seed ?t)" ks "{}"] kinds_cong [of ?t t 0] by (simp_all add: header_ok_def)
  then have "index_ready E 0 ?t ks" using assms t(5,6) None by (simp add: index_ready_def)
  then show thesis using that [of ?t "next_seed gs" 0] t(1,6) None by (simp add: put_index_def)
next
  case (Some t0)
  obtain k where k: "slots_ok k (key_hash E (hi_seed t0)) t0 ks {..<length ks}" "header_ok k t0" "used_count t0 = length ks"
    "tombstone_count t0 = card (dead_slots k t0)" "length ks \<le> 7 * 2 ^ k" "card (dead_slots k t0) \<le> 2 ^ k"
    using assms Some by (auto simp: index_ok_def)
  show thesis
  proof (cases "used_count t0 \<ge> used_count_threshold t0")
    case False
    then have "index_ready E k t0 ks" using k by (simp add: index_ready_def header_ok_def)
    then show thesis using that [of t0 gs k] False Some by (simp add: put_index_def)
  next
    case True
    have room: "card {..<length ks} < 8 * 2 ^ Suc k"
    proof -
      have "(0::nat) < 2 ^ k" by simp
      then show ?thesis using k(5) unfolding power_Suc card_lessThan by linarith
    qed
    obtain t where t: "stbds_make_hash_index gs (8 * 2 ^ Suc k) (Some t0) = Some (t, gs)"
      "slots_ok (Suc k) (key_hash E (hi_seed t0)) t ks {..<length ks}"
      "dead_slots (Suc k) t = {}" "header_ok (Suc k) t" "used_count t = used_count t0" "tombstone_count t = 0"
      "hi_seed t = hi_seed t0" "hi_string t = hi_string t0"
      using make_index_copy [OF k(1) room] .
    have "length ks < 7 * 2 ^ Suc k"
    proof -
      have "(0::nat) < 2 ^ k" by simp
      then show ?thesis using k(5) unfolding power_Suc by linarith
    qed
    then have "index_ready E (Suc k) t ks" using t k(3) by (simp add: index_ready_def)
    moreover have "put_index gs mode table = Some (t, gs)"
      using True t(1) Some k(2) by (simp add: put_index_def header_ok_def mult.assoc mult.commute)
    ultimately show thesis using that [of t gs "Suc k"] t(6) Some by simp
  qed
qed

lemma keys_of_append: "es \<noteq> [] \<Longrightarrow> keys_of (es @ [e]) = keys_of es @ [fst e]"
  by (simp add: keys_of_def)

lemma stb_keys_Some: "stb_keys (Some x) = keys_of (sa_elems x)"
  by (simp add: stb_keys_def)

lemma length_keys_of: "length (keys_of es) = length es - 1"
  by (simp add: keys_of_def)

lemma index_ok_store:
  assumes "slots_ok k (key_hash E (hi_seed t)) t ks {..<length ks}" "header_ok k t"
    "hi_storage t' = hi_storage t" "slot_count t' = slot_count t" "used_count_threshold t' = used_count_threshold t"
    "used_count_shrink_threshold t' = used_count_shrink_threshold t" "hi_seed t' = hi_seed t"
    "tombstone_count_threshold t' = tombstone_count_threshold t" "slot_count_log2 t' = slot_count_log2 t"
    "used_count t' = length ks" "tombstone_count t' = card (dead_slots k t)" "length ks \<le> 7 * 2 ^ k" "card (dead_slots k t) \<le> 2 ^ k"
  shows "index_ok E t' ks"
  unfolding index_ok_def
proof (intro exI conjI)
  show "slots_ok k (key_hash E (hi_seed t')) t' ks {..<length ks}"
    using assms(1) storage_cong(4) [OF assms(3,4)] by (simp add: assms(7))
  show "tombstone_count t' = card (dead_slots k t')" "card (dead_slots k t') \<le> 2 ^ k"
    using kinds_cong [of t' t] assms(3,4,11,13) by simp_all
qed (use assms in \<open>simp_all add: header_ok_def\<close>)

lemma arrgrow_capacity:
  assumes "length (sa_elems x) + 1 > sa_capacity x"
  obtains c where "stbds_arrgrowf (Some x) 1 0 = Some (x\<lparr>sa_capacity := c\<rparr>)" "length (sa_elems x) + 1 \<le> c"
  using assms that
  by (simp add: stbds_arrgrowf_def stbds_arrlen_def stbds_arrcap_def Let_def split: if_splits)

lemma put_append_result:
  assumes ready: "index_ready E k t (keys_of (sa_elems x))" and es: "sa_elems x \<noteq> []" "length (sa_elems x) \<le> sa_capacity x"
    and q: "q = (if s \<ge> 0 then nat s else p)" "q < 8 * 2 ^ k" "index_slot t q < 0"
    "reach k t (key_hash E (hi_seed t) key) q" "q \<in> dead_slots k t \<longleftrightarrow> s \<ge> 0"
    and h: "h = key_hash E (hi_seed t) key"
  obtains x' t' where "put_append E x t key h (p div 8) (p mod 8) s = x'" "sa_elems x' = sa_elems x @ [(key, sb_junk E)]"
    "sa_temp x' = int (length (keys_of (sa_elems x)))" "sa_table x' = Some t'" "index_ok E t' (keys_of (sa_elems x) @ [key])"
    "length (sa_elems x') \<le> sa_capacity x'" "tombstone_count t' \<le> tombstone_count t"
proof -
  let ?ks = "keys_of (sa_elems x)"
  let ?n = "length ?ks"
  note r = ready [unfolded index_ready_def]
  have len: "length (sa_elems x) = Suc ?n" using es(1) by (simp add: length_keys_of)
  define ts where "ts = set_slot t (q div 8) (q mod 8) h (int ?n)"
  have shape: "index_shape k t" using r slots_okD(1) by blast
  have s1: "slots_ok k (key_hash E (hi_seed t)) t (?ks @ [key]) {..<?n}"
    by (rule slots_cong [OF conjunct1 [OF r]]) (auto simp: nth_append)
  have "slots_ok k (key_hash E (hi_seed t)) ts (?ks @ [key]) (insert ?n {..<?n})"
    unfolding ts_def using slots_add [OF s1 key_hash_range, of ?n q] q(2-4) by (simp add: h)
  then have s2: "slots_ok k (key_hash E (hi_seed ts)) ts (?ks @ [key]) {..<length (?ks @ [key])}"
    by (simp add: lessThan_Suc ts_def)
  have hr: "h \<noteq> 1" "h \<noteq> 0" using key_hash_range [of E "hi_seed t" key] by (simp_all add: h)
  have dead: "dead_slots k ts = dead_slots k t - {q}" using hr by (simp add: ts_def set_slot_kinds [OF shape q(2)])
  have dc: "card (dead_slots k ts) = tombstone_count t - (if s \<ge> 0 then 1 else 0)" using q(5) r by (simp add: dead)
  have slot: "(if s \<ge> 0 then (nat s div 8, nat s mod 8) else (p div 8, p mod 8)) = (q div 8, q mod 8)" by (simp add: q(1))
  obtain c where c: "(if length (sa_elems x) + 1 > sa_capacity x
      then (case stbds_arrgrowf (Some x) 1 0 of Some x \<Rightarrow> x | None \<Rightarrow> x) else x) = x\<lparr>sa_capacity := c\<rparr>" "length (sa_elems x) + 1 \<le> c"
  proof (cases "length (sa_elems x) + 1 > sa_capacity x")
    case True
    obtain c where "stbds_arrgrowf (Some x) 1 0 = Some (x\<lparr>sa_capacity := c\<rparr>)" "length (sa_elems x) + 1 \<le> c"
      using arrgrow_capacity [OF True] .
    then show ?thesis using that [of c] True by simp
  next
    case False
    have "x = x\<lparr>sa_capacity := sa_capacity x\<rparr>" by simp
    then show ?thesis using that [of "sa_capacity x"] False by simp
  qed
  obtain tk str where t': "put_append E x t key h (p div 8) (p mod 8) s =
      x\<lparr>sa_capacity := c, sa_elems := sa_elems x @ [(key, sb_junk E)], sa_temp := int ?n,
        sa_table := Some (t\<lparr>tombstone_count := tombstone_count t - (if s \<ge> 0 then 1 else 0), used_count := used_count t + 1,
          hi_storage := hi_storage ts, hi_string := str, temp_key := tk\<rparr>)\<rparr>" "ar_mode str = ar_mode (hi_string t)"
  proof -
    define t1 where "t1 = t\<lparr>tombstone_count := tombstone_count t - (if s \<ge> 0 then 1 else 0), used_count := used_count t + 1\<rparr>"
    have "set_slot t1 (q div 8) (q mod 8) h (int ?n) = t1\<lparr>hi_storage := hi_storage ts\<rparr>" by (simp add: set_slot_def ts_def t1_def)
    moreover have "(let t = (if s \<ge> 0 then t\<lparr>tombstone_count := tombstone_count t - 1\<rparr> else t) in t\<lparr>used_count := used_count t + 1\<rparr>) = t1"
      by (simp add: t1_def)
    ultimately have e: "put_append E x t key h (p div 8) (p mod 8) s =
        (let t = (case ar_mode (hi_string t) of
                SH_STRDUP \<Rightarrow> t1\<lparr>hi_storage := hi_storage ts, temp_key := Some key\<rparr>
              | SH_ARENA \<Rightarrow> t1\<lparr>hi_storage := hi_storage ts,
                  hi_string := fst (stbds_stralloc (length (ar_storage (hi_string t))) (hi_string t) (sb_strlen E key + 1)),
                  temp_key := Some key\<rparr>
              | SH_DEFAULT \<Rightarrow> t1\<lparr>hi_storage := hi_storage ts, temp_key := Some key\<rparr>
              | SH_NONE \<Rightarrow> t1\<lparr>hi_storage := hi_storage ts\<rparr>)
         in x\<lparr>sa_capacity := c, sa_elems := sa_elems x @ [(key, sb_junk E)], sa_temp := int ?n, sa_table := Some t\<rparr>)"
      unfolding put_append_def bucket_consts slot prod.case Let_def c(1)
      by (cases "s \<ge> 0"; cases "ar_mode (hi_string t)"; simp add: len t1_def ts_def set_slot_def)
    show thesis
    proof (cases "ar_mode (hi_string t)")
      case SH_ARENA
      have "ar_mode (fst (stbds_stralloc n b m)) = ar_mode b" for n b m
        by (auto simp: stbds_stralloc_def Let_def split: list.splits)
      then show thesis
        using that [of "Some key" "fst (stbds_stralloc (length (ar_storage (hi_string t))) (hi_string t) (sb_strlen E key + 1))"] e SH_ARENA
        by (simp add: t1_def)
    qed (use that [of "Some key" "hi_string t"] that [of "temp_key t" "hi_string t"] e in \<open>simp_all add: t1_def\<close>)
  qed
  have "index_ok E (t\<lparr>tombstone_count := tombstone_count t - (if s \<ge> 0 then 1 else 0), used_count := used_count t + 1,
          hi_storage := hi_storage ts, hi_string := str, temp_key := tk\<rparr>) (?ks @ [key])"
    by (rule index_ok_store [OF s2]) (use r dc in \<open>auto simp: header_ok_def ts_def\<close>)
  then show thesis using that [OF refl] t' c(2) by simp
qed

text \<open>
  Insertion returns. It leaves a known key where it is, and appends an unknown one with a value yet to be set.
\<close>

lemma hmput_key_result:
  assumes ok: "stb_ok E a"
  obtains x gs' t where "stbds_hmput_key E gs a key mode = Some (x, gs')" "stb_ok E (Some x)" "sa_table x = Some t"
    "key \<in> set (stb_keys a) \<longrightarrow> a \<noteq> None \<and> sa_elems x = sa_elems (the a)"
    "key \<notin> set (stb_keys a) \<longrightarrow> sa_elems x = sa_elems (case a of None \<Rightarrow> stb_default_array E | Some x \<Rightarrow> x) @ [(key, sb_junk E)]"
    "0 \<le> sa_temp x" "nat (sa_temp x) < length (stb_keys (Some x))" "stb_keys (Some x) ! nat (sa_temp x) = key"
    "stb_tombs (Some x) \<le> stb_tombs a"
proof -
  define y where "y = (case a of None \<Rightarrow> stb_default_array E | Some x \<Rightarrow> x)"
  have oky: "stb_ok E (Some y)" "stb_keys (Some y) = stb_keys a"
    using ok default_array_ok [of E] by (auto simp: y_def stb_keys_def split: option.splits)
  let ?ks = "keys_of (sa_elems y)"
  note y = oky(1) [unfolded stb_ok_def option.case]
  have ks: "?ks = stb_keys a" using oky(2) by (simp add: stb_keys_def)
  have tab: "case sa_table y of None \<Rightarrow> ?ks = [] | Some t \<Rightarrow> index_ok E t ?ks"
    using y by (auto simp: keys_of_def length_Suc_conv split: option.splits)
  obtain t gs' k where t: "put_index gs mode (sa_table y) = Some (t, gs')" "index_ready E k t ?ks"
    "tombstone_count t \<le> (case sa_table y of None \<Rightarrow> 0 | Some t0 \<Rightarrow> tombstone_count t0)"
    using put_index_ready [OF tab] by metis
  then have tombs: "tombstone_count t \<le> stb_tombs a"
    by (auto simp: y_def stb_tombs_def default_array split: option.splits)
  note r = t(2) [unfolded index_ready_def]
  let ?h = "key_hash E (hi_seed t) key"
  have put: "stbds_hmput_key E gs a key mode =
      (case probe_loop (put_visit t (sa_elems y) key ?h) (slot_count t) (stbds_probe_position ?h (slot_count t)) 8 (-1) of
         None \<Rightarrow> None
       | Some (Put_found wrapped i) \<Rightarrow>
           Some (y\<lparr>sa_temp := i, sa_table := Some (if mode = HM_STRING \<and> \<not> wrapped
              then t\<lparr>temp_key := Some (fst (elem_at (sa_elems y) i))\<rparr> else t)\<rparr>, gs')
       | Some (Put_empty b z s) \<Rightarrow> Some (put_append E y t key ?h b z s, gs'))"
    unfolding stbds_hmput_key_def y_def [symmetric] key_hash_def Let_def t(1) by simp
  show thesis
  proof (cases "key \<in> set ?ks")
    case True
    then obtain i where i: "i < length ?ks" "?ks ! i = key" by (auto simp: in_set_conv_nth)
    obtain w where w: "probe_loop (put_visit t (sa_elems y) key ?h) (slot_count t) (stbds_probe_position ?h (slot_count t)) 8 (-1) =
        Some (Put_found w (int i))"
      using put_search_hit [OF conjunct1 [OF r] inj_on_nth_all, of i key] i y by auto
    define t' where "t' = (if mode = HM_STRING \<and> \<not> w then t\<lparr>temp_key := Some (fst (elem_at (sa_elems y) (int i)))\<rparr> else t)"
    have "index_ok E t' ?ks" by (rule index_ok_store [of k E t]) (use r in \<open>simp_all add: t'_def\<close>)
    define x' where "x' = y\<lparr>sa_temp := int i, sa_table := Some t'\<rparr>"
    have "stb_ok E (Some x')" using y \<open>index_ok E t' ?ks\<close> by (simp add: stb_ok_def x'_def)
    moreover have "stbds_hmput_key E gs a key mode = Some (x', gs')" using put w by (simp add: t'_def x'_def)
    moreover have "a \<noteq> None \<and> y = the a" using True default_array_ok(3) [of E]
      by (auto simp: y_def stb_keys_def split: option.splits)
    moreover have "sa_table x' = Some t'" "sa_elems x' = sa_elems y" "sa_temp x' = int i" "stb_keys (Some x') = ?ks"
      "stb_tombs (Some x') \<le> stb_tombs a"
      using tombs by (simp_all add: x'_def t'_def stb_keys_def stb_tombs_def)
    ultimately show thesis using that [of x' gs' t'] i True ks by simp
  next
    case False
    then have out: "key \<notin> (!) ?ks ` {..<length ?ks}" by (simp add: nth_image_all)
    obtain p q s where loop: "probe_loop (put_visit t (sa_elems y) key ?h) (slot_count t) (stbds_probe_position ?h (slot_count t)) 8 (-1) =
        Some (Put_empty (p div 8) (p mod 8) s)"
      and q: "q = (if s \<ge> 0 then nat s else p)" "q < 8 * 2 ^ k" "index_slot t q < 0" "reach k t ?h q" "q \<in> dead_slots k t \<longleftrightarrow> s \<ge> 0"
      using put_search_miss [OF conjunct1 [OF r] out index_ready_room [OF t(2)]] .
    obtain x' t' where x': "put_append E y t key ?h (p div 8) (p mod 8) s = x'" "sa_elems x' = sa_elems y @ [(key, sb_junk E)]"
      "sa_temp x' = int (length ?ks)" "sa_table x' = Some t'" "index_ok E t' (?ks @ [key])" "length (sa_elems x') \<le> sa_capacity x'"
      "tombstone_count t' \<le> tombstone_count t"
      using put_append_result [OF t(2) _ _ q refl] y by metis
    have "keys_of (sa_elems x') = ?ks @ [key]" using y by (simp add: x'(2) keys_of_append)
    then have "stb_ok E (Some x')" "stb_keys (Some x') = stb_keys a @ [key]"
      using x' y False by (simp_all add: stb_ok_def ks [symmetric] stb_keys_Some)
    moreover have "sa_elems x' = sa_elems (case a of None \<Rightarrow> stb_default_array E | Some x \<Rightarrow> x) @ [(key, sb_junk E)]"
      unfolding y_def [symmetric] by (rule x'(2))
    moreover have "stbds_hmput_key E gs a key mode = Some (x', gs')" using put loop x'(1) by simp
    moreover have "sa_temp x' = int (length (stb_keys a))" "key \<notin> set (stb_keys a)" using x'(3) False by (simp_all add: ks)
    moreover have "stb_tombs (Some x') \<le> stb_tombs a" using tombs x'(4,7) by (simp add: stb_tombs_def)
    ultimately show thesis using that [of x' gs' t'] x'(4) by (simp add: nth_append)
  qed
qed

lemma put_found_where:
  assumes ok: "stb_ok E (Some x)" and tab: "sa_table x = Some t"
    and i: "i < length (stb_keys (Some x))" "stb_keys (Some x) ! i = key"
    and p: "p < slot_count t" "index_at t (p div 8) (p mod 8) = int i"
  shows "\<exists>w. probe_loop (put_visit t (sa_elems x) key (key_hash E (hi_seed t) key)) (slot_count t)
      (stbds_probe_position (key_hash E (hi_seed t) key) (slot_count t)) 8 (-1) = Some (Put_found w (int i)) \<and>
    (w \<longleftrightarrow> p mod 8 < stbds_probe_position (key_hash E (hi_seed t) key) (slot_count t) mod 8)"
proof -
  let ?ks = "keys_of (sa_elems x)" and ?h = "key_hash E (hi_seed t) key"
  obtain k where k: "slots_ok k (key_hash E (hi_seed t)) t ?ks {..<length ?ks}"
    using ok tab by (auto simp: stb_ok_def index_ok_def)
  have sc: "slot_count t = 8 * 2 ^ k" using slots_okD(1) [OF k] by (simp add: index_shape_def)
  have inj: "inj_on ((!) ?ks) {..<length ?ks}" by (rule inj_on_nth_all) (use ok in \<open>simp add: stb_ok_def\<close>)
  have i': "i \<in> {..<length ?ks}" "?ks ! i = key" using i by (simp_all add: stb_keys_Some)
  obtain xs w q ys where q: "hash_path k ?h = xs @ (w, q) # ys" "q < 8 * 2 ^ k" "index_slot t q = int i"
    "matches t (sa_elems x) key ?h q"
    "\<forall>y \<in> set xs. \<not> (matches t (sa_elems x) key ?h (snd y) \<or> hash_slot t (snd y) \<noteq> ?h \<and> hash_slot t (snd y) = 0)"
    using search_hits [OF k key_hash_range inj i'] .
  have "index_slot t p = int i" using p(2) by (simp add: index_slot_def)
  then have "q = p" using slots_okD(5) [OF k q(2), of p] q(3) p(1) by (simp add: sc)
  have "(w, q) \<in> set (slot_path (2 ^ k) (unat ?h mod (8 * 2 ^ k)) (2 ^ k))" using q(1) by (simp add: hash_path_def)
  from slot_path_wrapped [OF this] have "w \<longleftrightarrow> p mod 8 < (unat ?h mod (8 * 2 ^ k)) mod 8" by (simp only: \<open>q = p\<close>)
  moreover have "probe_loop (put_visit t (sa_elems x) key ?h) (8 * 2 ^ k) (unat ?h mod (8 * 2 ^ k)) 8 (-1) = Some (Put_found w (int i))"
    using pv.loop_result [OF start_less q(1) [unfolded hash_path_def] q(5), of "-1"] q(3,4) by simp
  ultimately show ?thesis by (intro exI [of _ w]) (simp add: sc)
qed

text \<open>Setting the value of the entry that \<open>temp\<close> points to.\<close>

lemma set_value_ok:
  assumes ok: "stb_ok E (Some x)" and i: "i < length (stb_keys (Some x))" "stb_keys (Some x) ! i = key"
  shows "stb_ok E (Some (x\<lparr>sa_elems := (sa_elems x)[Suc i := (key, v)]\<rparr>))"
    and "stb_map (Some (x\<lparr>sa_elems := (sa_elems x)[Suc i := (key, v)]\<rparr>)) = (stb_map (Some x))(key \<mapsto> v)"
    and "stb_keys (Some (x\<lparr>sa_elems := (sa_elems x)[Suc i := (key, v)]\<rparr>)) = stb_keys (Some x)"
proof -
  obtain d es where es: "sa_elems x = d # es" using ok by (cases "sa_elems x") (auto simp: stb_ok_def)
  have il: "i < length es" "fst (es ! i) = key" using i by (simp_all add: es stb_keys_def keys_of_def)
  have keys: "map fst (es[i := (key, v)]) = map fst es" by (simp add: map_update il(2) [symmetric] list_update_same_conv il(1))
  then have k: "keys_of (d # es[i := (key, v)]) = keys_of (d # es)" by (simp add: keys_of_def)
  then show "stb_ok E (Some (x\<lparr>sa_elems := (sa_elems x)[Suc i := (key, v)]\<rparr>))"
    "stb_keys (Some (x\<lparr>sa_elems := (sa_elems x)[Suc i := (key, v)]\<rparr>)) = stb_keys (Some x)"
    using ok by (simp_all add: stb_ok_def es stb_keys_def split: option.splits)
  have "distinct (map fst es)" using ok by (simp add: stb_ok_def es keys_of_def)
  then have "map_of (es[i := (key, v)]) = (map_of es)(key \<mapsto> v)"
  proof (intro map_eqI)
    fix a w assume d: "distinct (map fst es)"
    have "map_of (es[i := (key, v)]) a = Some w \<longleftrightarrow> (a, w) \<in> set (es[i := (key, v)])" using d keys by (simp add: map_of_eq_Some_iff)
    also have "\<dots> \<longleftrightarrow> (a, w) \<in> insert (key, v) (set es - {es ! i})"
      using d il(1) by (simp add: set_update_distinct distinct_map)
    also have "\<dots> \<longleftrightarrow> ((map_of es)(key \<mapsto> v)) a = Some w"
    proof (cases "a = key")
      case True
      have "(a, w) \<in> set es \<Longrightarrow> (a, w) = es ! i"
        using d il True by (metis (no_types, lifting) eq_key_imp_eq_value in_set_conv_nth prod.collapse)
      then show ?thesis using True by auto
    next
      case False
      obtain w0 where "es ! i = (key, w0)" using il(2) by (cases "es ! i") simp
      then show ?thesis using d False by (auto simp: map_of_eq_Some_iff)
    qed
    finally show "map_of (es[i := (key, v)]) a = Some w \<longleftrightarrow> ((map_of es)(key \<mapsto> v)) a = Some w" .
  qed
  then show "stb_map (Some (x\<lparr>sa_elems := (sa_elems x)[Suc i := (key, v)]\<rparr>)) = (stb_map (Some x))(key \<mapsto> v)"
    by (simp add: stb_map_def es)
qed

lemma put_value_result:
  assumes ok: "stb_ok E a"
  obtains x gs' where "stbds_hmput_key E gs a key mode = Some (x, gs')"
    "stb_ok E (Some (x\<lparr>sa_elems := (sa_elems x)[nat (sa_temp x + 1) := (key, v)]\<rparr>))"
    "stb_map (Some (x\<lparr>sa_elems := (sa_elems x)[nat (sa_temp x + 1) := (key, v)]\<rparr>)) = (stb_map a)(key \<mapsto> v)"
    "stb_keys (Some (x\<lparr>sa_elems := (sa_elems x)[nat (sa_temp x + 1) := (key, v)]\<rparr>)) =
      (if key \<in> set (stb_keys a) then stb_keys a else stb_keys a @ [key])"
    "fst (elem_at (sa_elems x) (sa_temp x)) = key" "sa_table x \<noteq> None"
    "stb_tombs (Some (x\<lparr>sa_elems := (sa_elems x)[nat (sa_temp x + 1) := (key, v)]\<rparr>)) \<le> stb_tombs a"
proof -
  obtain x gs' t where x: "stbds_hmput_key E gs a key mode = Some (x, gs')" "stb_ok E (Some x)" "sa_table x = Some t"
    "key \<in> set (stb_keys a) \<longrightarrow> a \<noteq> None \<and> sa_elems x = sa_elems (the a)"
    "key \<notin> set (stb_keys a) \<longrightarrow> sa_elems x = sa_elems (case a of None \<Rightarrow> stb_default_array E | Some x \<Rightarrow> x) @ [(key, sb_junk E)]"
    "0 \<le> sa_temp x" "nat (sa_temp x) < length (stb_keys (Some x))" "stb_keys (Some x) ! nat (sa_temp x) = key"
    "stb_tombs (Some x) \<le> stb_tombs a"
    using hmput_key_result [OF ok] .
  have ne: "sa_elems (case a of None \<Rightarrow> stb_default_array E | Some x \<Rightarrow> x) \<noteq> []"
    using ok by (auto simp: stb_ok_def default_array split: option.splits)
  have keys: "stb_keys (Some x) = (if key \<in> set (stb_keys a) then stb_keys a else stb_keys a @ [key])"
    using x(4,5) ne by (cases a) (auto simp: stb_keys_def keys_of_append default_array keys_of_def)
  have map: "(stb_map (Some x))(key \<mapsto> v) = (stb_map a)(key \<mapsto> v)"
  proof (cases "key \<in> set (stb_keys a)")
    case True
    then show ?thesis using x(4) by (auto simp: stb_map_def)
  next
    case False
    then have "stb_map (Some x) = [key \<mapsto> sb_junk E] ++ stb_map a"
      using x(5) ne by (cases a) (auto simp: stb_map_def default_array)
    then show ?thesis by (auto simp: fun_eq_iff map_add_def split: option.splits)
  qed
  have n: "nat (sa_temp x + 1) = Suc (nat (sa_temp x))" using x(6) by simp
  have "fst (elem_at (sa_elems x) (sa_temp x)) = key"
    using elem_at_key [of "nat (sa_temp x)" "sa_elems x"] x(6-8) by (simp add: stb_keys_def)
  then show thesis
    using that [OF x(1)] set_value_ok [OF x(2,7,8), of v] x(3,9) map keys by (simp add: n stb_tombs_def)
qed

lemma hmput_result:
  assumes "stb_ok E a"
  shows "\<exists>x gs'. stbds_hmput E gs a key v = Some (x, gs') \<and> stb_ok E (Some x) \<and> stb_map (Some x) = (stb_map a)(key \<mapsto> v) \<and>
    stb_keys (Some x) = (if key \<in> set (stb_keys a) then stb_keys a else stb_keys a @ [key]) \<and>
    stb_tombs (Some x) \<le> stb_tombs a"
proof -
  obtain x gs' where x: "stbds_hmput_key E gs a key HM_BINARY = Some (x, gs')"
    "stb_ok E (Some (x\<lparr>sa_elems := (sa_elems x)[nat (sa_temp x + 1) := (key, v)]\<rparr>))"
    "stb_map (Some (x\<lparr>sa_elems := (sa_elems x)[nat (sa_temp x + 1) := (key, v)]\<rparr>)) = (stb_map a)(key \<mapsto> v)"
    "stb_keys (Some (x\<lparr>sa_elems := (sa_elems x)[nat (sa_temp x + 1) := (key, v)]\<rparr>)) =
      (if key \<in> set (stb_keys a) then stb_keys a else stb_keys a @ [key])"
    "stb_tombs (Some (x\<lparr>sa_elems := (sa_elems x)[nat (sa_temp x + 1) := (key, v)]\<rparr>)) \<le> stb_tombs a"
    using put_value_result [OF assms, of gs key HM_BINARY v] .
  then show ?thesis by (simp add: stbds_hmput_def)
qed

lemma shput_result:
  assumes "stb_ok E a"
  shows "\<exists>x gs'. stbds_shput E gs a key v = Some (x, gs') \<and> stb_ok E (Some x) \<and> stb_map (Some x) = (stb_map a)(key \<mapsto> v) \<and>
    stb_keys (Some x) = (if key \<in> set (stb_keys a) then stb_keys a else stb_keys a @ [key]) \<and>
    stb_tombs (Some x) \<le> stb_tombs a"
proof -
  obtain x gs' where x: "stbds_hmput_key E gs a key HM_STRING = Some (x, gs')"
    "stb_ok E (Some (x\<lparr>sa_elems := (sa_elems x)[nat (sa_temp x + 1) := (key, v)]\<rparr>))"
    "stb_map (Some (x\<lparr>sa_elems := (sa_elems x)[nat (sa_temp x + 1) := (key, v)]\<rparr>)) = (stb_map a)(key \<mapsto> v)"
    "stb_keys (Some (x\<lparr>sa_elems := (sa_elems x)[nat (sa_temp x + 1) := (key, v)]\<rparr>)) =
      (if key \<in> set (stb_keys a) then stb_keys a else stb_keys a @ [key])"
    "fst (elem_at (sa_elems x) (sa_temp x)) = key"
    "stb_tombs (Some (x\<lparr>sa_elems := (sa_elems x)[nat (sa_temp x + 1) := (key, v)]\<rparr>)) \<le> stb_tombs a"
    using put_value_result [OF assms, of gs key HM_STRING v] .
  then show ?thesis by (simp add: stbds_shput_def)
qed

section \<open>Deletion\<close>

text \<open>The list without its \<open>i\<close>-th element, in whose place the last one goes.\<close>

definition swap_del :: "'a list \<Rightarrow> nat \<Rightarrow> 'a list" where
  "swap_del xs i = butlast (xs[i := xs ! (length xs - 1)])"

lemma swap_del_mset:
  assumes "i < length xs"
  shows "mset (swap_del xs i) = mset xs - {#xs ! i#}"
proof -
  obtain ys where xs: "xs = ys @ [last xs]" using assms by (metis append_butlast_last_id length_greater_0_conv less_zeroE list.size(3))
  have l: "xs ! (length xs - 1) = last xs" using assms by (simp add: last_conv_nth [of xs] flip: length_greater_0_conv)
  show ?thesis
  proof (cases "i = length xs - 1")
    case True
    then have "swap_del xs i = ys" by (metis butlast_snoc l list_update_id swap_del_def xs)
    moreover have "xs ! i = last xs" using True l by simp
    ultimately show ?thesis by (metis add_diff_cancel_right' mset_append mset_single_iff_right xs mset.simps)
  next
    case False
    then have i: "i < length ys" using assms xs by (metis One_nat_def diff_Suc_1 length_append_singleton less_SucE)
    then have "swap_del xs i = ys[i := last xs]"
      using xs l by (metis butlast_snoc list_update_append1 swap_del_def)
    moreover have "xs ! i = ys ! i" using i xs by (metis nth_append)
    moreover have "mset (ys[i := last xs]) = add_mset (last xs) (mset ys - {#ys ! i#})" using i by (rule mset_update)
    moreover have "mset xs = add_mset (last xs) (mset ys)" using xs by (metis mset_append mset_single_iff_right union_mset_add_mset_right add.right_neutral mset.simps)
    ultimately show ?thesis using i by (simp add: diff_union_swap2)
  qed
qed

lemma length_swap_del: "length (swap_del xs i) = length xs - 1"
  by (simp add: swap_del_def)

lemma map_swap_del: "i < length xs \<Longrightarrow> map f (swap_del xs i) = swap_del (map f xs) i"
  by (simp add: swap_del_def map_butlast map_update)

lemma nth_swap_del:
  "j < length xs - 1 \<Longrightarrow> swap_del xs i ! j = (if j = i then xs ! (length xs - 1) else xs ! j)"
  by (simp add: swap_del_def nth_butlast nth_list_update)

lemma swap_del_map_of:
  assumes d: "distinct (map fst xs)" and i: "i < length xs"
  shows "map_of (swap_del xs i) = (map_of xs)(fst (xs ! i) := None)" "distinct (map fst (swap_del xs i))"
    "set (map fst (swap_del xs i)) = set (map fst xs) - {fst (xs ! i)}"
proof -
  obtain ys zs where xs: "xs = ys @ xs ! i # zs" using i by (metis id_take_nth_drop)
  have m: "mset (swap_del xs i) = mset (ys @ zs)"
    unfolding swap_del_mset [OF i] by (subst (1) xs) simp
  have d': "distinct (map fst (ys @ zs))" using d by (subst (asm) xs) simp
  have mk: "mset (map fst (swap_del xs i)) = mset (map fst (ys @ zs))" by (simp add: m)
  show dd: "distinct (map fst (swap_del xs i))" using d' mk mset_eq_imp_distinct_iff by blast
  have "map_of (swap_del xs i) = map_of (ys @ zs)"
    using map_of_inject_set [OF dd d'] mset_eq_setD [OF m] by blast
  have no: "fst (xs ! i) \<notin> set (map fst (ys @ zs))" using d by (subst (asm) xs) auto
  have "map_of (ys @ (a, b) # zs) = (map_of (ys @ zs))(a \<mapsto> b)" if "a \<notin> set (map fst (ys @ zs))" for a b
  proof -
    have "map_of ys a = None" using that by (simp add: map_of_eq_None_iff)
    then show ?thesis by (auto simp: fun_eq_iff map_add_def split: option.splits)
  qed
  from this [OF no, of "snd (xs ! i)"] have "map_of xs = (map_of (ys @ zs))(fst (xs ! i) \<mapsto> snd (xs ! i))"
    using xs by (metis prod.collapse)
  moreover have "map_of (ys @ zs) (fst (xs ! i)) = None" using no by (simp only: map_of_eq_None_iff set_map not_False_eq_True)
  ultimately show "map_of (swap_del xs i) = (map_of xs)(fst (xs ! i) := None)"
    using \<open>map_of (swap_del xs i) = map_of (ys @ zs)\<close> by (simp only: fun_upd_upd) (simp only: fun_upd_idem)
  have "set (map fst (swap_del xs i)) = set (map fst (ys @ zs))" using mset_eq_setD [OF mk] .
  moreover have "set (map fst xs) = insert (fst (xs ! i)) (set (map fst (ys @ zs)))" by (subst xs) auto
  ultimately show "set (map fst (swap_del xs i)) = set (map fst xs) - {fst (xs ! i)}"
    using no by auto
qed

lemma del_index_result:
  assumes s: "slots_ok k (key_hash E (hi_seed t)) t ks {..<length ks}" and h: "header_ok k t"
    and c: "used_count t = length ks" "tombstone_count t = card (dead_slots k t)" "length ks \<le> 7 * 2 ^ k"
  obtains t' where "del_index gs t = Some t'" "index_ok E t' ks"
proof -
  have pos: "(0::nat) < 2 ^ m" for m by simp
  have copy: "\<exists>t'. map_option fst (stbds_make_hash_index gs (8 * 2 ^ m) (Some t)) = Some t' \<and> index_ok E t' ks"
    if l: "length ks \<le> 7 * 2 ^ m" for m
  proof -
    have "card {..<length ks} < 8 * 2 ^ m" using l pos [of m] unfolding card_lessThan by linarith
    then obtain t' where t': "stbds_make_hash_index gs (8 * 2 ^ m) (Some t) = Some (t', gs)"
      "slots_ok m (key_hash E (hi_seed t)) t' ks {..<length ks}" "dead_slots m t' = {}" "header_ok m t'"
      "used_count t' = used_count t" "tombstone_count t' = 0" "hi_seed t' = hi_seed t"
      using make_index_copy [OF s] by metis
    then have "index_ok E t' ks" using l c(1) by (auto simp: index_ok_def)
    then show ?thesis using t'(1) by simp
  qed
  show thesis
  proof (cases "used_count t < used_count_shrink_threshold t \<and> slot_count t > STBDS_BUCKET_LENGTH")
    case True
    then obtain j where j: "k = Suc j" using h by (cases k) (auto simp: header_ok_def)
    have "length ks \<le> 7 * 2 ^ j" using True h c(1) by (simp add: header_ok_def j)
    then obtain t' where "map_option fst (stbds_make_hash_index gs (8 * 2 ^ j) (Some t)) = Some t'" "index_ok E t' ks"
      using copy by blast
    moreover have "drop_bit 1 (slot_count t) = 8 * 2 ^ j" using h by (simp add: header_ok_def j drop_bit_eq_div)
    ultimately show thesis using that [of t'] True by (simp add: del_index_def)
  next
    case False
    show thesis
    proof (cases "tombstone_count t > tombstone_count_threshold t")
      case True
      obtain t' where "map_option fst (stbds_make_hash_index gs (8 * 2 ^ k) (Some t)) = Some t'" "index_ok E t' ks"
        using copy [OF c(3)] by blast
      then show thesis using that [of t'] False True h by (auto simp: del_index_def header_ok_def)
    next
      case small: False
      have "index_ok E t ks" by (rule index_ok_store [OF s h]) (use c small h in \<open>auto simp: header_ok_def\<close>)
      then show thesis using that [of t] False small by (auto simp: del_index_def)
    qed
  qed
qed

lemma del_swap_result:
  assumes s: "slots_ok k (key_hash E (hi_seed t)) t (keys_of es) ({..<length (keys_of es)} - {old})"
    and old: "old < length (keys_of es)" and d: "distinct (keys_of es)" and es: "es \<noteq> []"
  obtains t' es' where "del_swap E t es (int old) (int (length es) - 1 - 1) = Some (t', es')"
    "butlast es' = hd es # swap_del (tl es) old"
    "slots_ok k (key_hash E (hi_seed t)) t' (swap_del (keys_of es) old) {..<length (keys_of es) - 1}"
    "dead_slots k t' = dead_slots k t" "\<exists>st. t' = t\<lparr>hi_storage := st\<rparr>"
proof -
  let ?ks = "keys_of es"
  let ?n = "length ?ks"
  have final: "int (length es) - 1 - 1 = int (?n - 1)" using old by (simp add: length_keys_of)
  have cons: "es = hd es # tl es" using es by simp
  have ntl: "length (tl es) = ?n" by (simp add: length_keys_of)
  have tl0: "tl es \<noteq> []" using old ntl by (metis less_nat_zero_code list.size(3))
  have upd: "butlast (es[Suc old := es ! ?n]) = hd es # swap_del (tl es) old"
  proof -
    have "es[Suc old := es ! ?n] = hd es # (tl es)[old := tl es ! (?n - 1)]"
      using old by (subst (1 2) cons) (cases ?n; simp)
    moreover have "(tl es)[old := tl es ! (?n - 1)] \<noteq> []" using tl0 by simp
    ultimately show ?thesis using ntl by (simp add: swap_del_def)
  qed
  have at: "elem_at es (int (?n - 1)) = es ! ?n" using old by (simp add: elem_at_def nat_add_distrib)
  show thesis
  proof (cases "old = ?n - 1")
    case True
    have D: "{..<?n} - {old} = {..<?n - 1}" using True old by auto
    have "slots_ok k (key_hash E (hi_seed t)) t (swap_del ?ks old) {..<?n - 1}"
    proof (rule slots_cong [OF s [unfolded D]])
      fix j assume "j \<in> {..<?n - 1}"
      then have "j < ?n - 1" "j \<noteq> old" using True by simp_all
      then show "swap_del ?ks old ! j = ?ks ! j" by (simp only: nth_swap_del if_False)
    qed (simp only: length_swap_del order_refl)
    moreover have "butlast es = hd es # swap_del (tl es) old"
    proof -
      have "Suc old = ?n" using True old by simp
      from upd [unfolded this] show ?thesis unfolding list_update_id .
    qed
    moreover have "\<exists>st. t = t\<lparr>hi_storage := st\<rparr>" by (intro exI [of _ "hi_storage t"]) simp
    moreover have "del_swap E t es (int old) (int (length es) - 1 - 1) = Some (t, es)"
      unfolding final True [symmetric] del_swap_def by simp
    ultimately show thesis by (intro that [of t es]) (simp_all only:)
  next
    case False
    then have lt: "old < ?n - 1" using old by simp
    define es1 where "es1 = es[Suc old := es ! ?n]"
    define ks1 where "ks1 = ?ks[old := ?ks ! (?n - 1)]"
    have k1: "keys_of es1 = ks1"
    proof -
      have "es1 = hd es # (tl es)[old := tl es ! (?n - 1)]" unfolding es1_def
        using old by (subst (1 2) cons) (cases ?n; simp)
      then show ?thesis using old ntl by (simp add: keys_of_def ks1_def map_update)
    qed
    have l1: "length ks1 = ?n" by (simp add: ks1_def)
    have s1: "slots_ok k (key_hash E (hi_seed t)) t (keys_of es1) ({..<?n} - {old})"
      unfolding k1 by (rule slots_cong [OF s]) (auto simp: ks1_def)
    have inj: "inj_on ((!) (keys_of es1)) ({..<?n} - {old})"
      using d by (auto simp: inj_on_def k1 ks1_def nth_eq_iff_index_eq)
    have key: "keys_of es1 ! (?n - 1) = fst (elem_at es1 (int old))"
      using elem_at_key [of old es1] lt by (simp add: k1 ks1_def)
    obtain p where p: "p < 8 * 2 ^ k" "stbds_hm_find_slot E t es1 (fst (elem_at es1 (int old))) = Some (int p)"
      "index_slot t p = int (?n - 1)"
    proof (rule find_slot_hit [OF s1 inj _ key])
      show "?n - 1 \<in> {..<?n} - {old}" using lt by simp
    qed
    define t' where "t' = set_slot t (p div 8) (p mod 8) (hash_slot t p) (int old)"
    have "slots_ok k (key_hash E (hi_seed t)) t' ks1 (insert old ({..<?n} - {old} - {?n - 1}))"
      unfolding t'_def
      by (rule slots_renumber [OF s1 [unfolded k1] key_hash_range p(1,3)]) (use lt in \<open>auto simp: l1 ks1_def\<close>)
    moreover have "insert old ({..<?n} - {old} - {?n - 1}) = {..<?n - 1}" using lt by auto
    ultimately have "slots_ok k (key_hash E (hi_seed t)) t' ks1 {..<?n - 1}" by simp
    then have s2: "slots_ok k (key_hash E (hi_seed t)) t' (swap_del ?ks old) {..<?n - 1}"
      by (rule slots_cong) (auto simp: ks1_def swap_del_def nth_butlast)
    have "hash_slot t p \<noteq> 1" using hf_index(2) [OF s key_hash_range p(1)] p(3) by auto
    then have dead: "dead_slots k t' = dead_slots k t"
      using set_slot_kinds(1) [OF slots_okD(1) [OF s] p(1)] by (auto simp: t'_def dead_slots_def)
    have nat_old: "nat (int old + 1) = Suc old" by simp
    have ne: "\<not> int old = int (?n - 1)" using lt by linarith
    have "del_swap E t es (int old) (int (length es) - 1 - 1) = Some (t', es1)"
      unfolding del_swap_def final if_not_P [OF ne] Let_def at nat_old es1_def [symmetric] p(2)
      by (simp add: t'_def hash_slot_def)
    moreover have "t' = t\<lparr>hi_storage := hi_storage t'\<rparr>" by (simp add: t'_def set_slot_def)
    ultimately show thesis using that [of t' es1] upd s2 dead by (simp add: es1_def) blast
  qed
qed

text \<open>
  Deletion: a key that is there goes, and the last entry takes its place; a key that is not leaves everything as
  it is, except that the call does not return when the index is full.
\<close>

lemma hmdel_result:
  assumes ok: "stb_ok E a"
  shows "(if stb_map a key = None \<and> stb_full a then stbds_hmdel E gs a key = None
    else \<exists>a'. stbds_hmdel E gs a key = Some (a', if stb_map a key = None then 0 else 1) \<and> stb_ok E a' \<and>
      stb_map a' = (stb_map a)(key := None) \<and>
      (if stb_map a key = None then stb_keys a' = stb_keys a
       else \<exists>i < length (stb_keys a). stb_keys a ! i = key \<and> stb_keys a' = swap_del (stb_keys a) i))"
proof (cases a)
  case None
  then show ?thesis by (simp add: stbds_hmdel_def stbds_hmdel_key_def stb_map_def stb_full_def stb_ok_def)
next
  case (Some x)
  note x = ok [unfolded Some stb_ok_def option.case]
  let ?ks = "keys_of (sa_elems x)"
  have keys: "stb_keys a = ?ks" by (simp add: Some stb_keys_def)
  have none: "stb_map a key = None \<longleftrightarrow> key \<notin> set ?ks" using stb_map_dom [of a] by (auto simp: keys)
  have temp: "stb_ok E (Some (x\<lparr>sa_temp := 0\<rparr>))" "stb_map (Some (x\<lparr>sa_temp := 0\<rparr>)) = stb_map a"
    "stb_keys (Some (x\<lparr>sa_temp := 0\<rparr>)) = ?ks"
    using x by (simp_all add: Some stb_ok_def stb_map_def stb_keys_def split: option.splits)
  have gone: "key \<notin> set ?ks \<Longrightarrow> (stb_map a)(key := None) = stb_map a" using none by (simp add: fun_upd_idem)
  show ?thesis
  proof (cases "sa_table x")
    case None
    then have "?ks = []" using x by (auto simp: keys_of_def length_Suc_conv)
    then have "key \<notin> set ?ks" "\<not> stb_full a" using None Some by (simp_all add: stb_full_def)
    moreover have "stbds_hmdel E gs a key = Some (Some (x\<lparr>sa_temp := 0\<rparr>), 0)"
      by (simp add: Some None stbds_hmdel_def stbds_hmdel_key_def Let_def)
    ultimately show ?thesis using temp gone none keys by simp
  next
    case t: (Some t)
    then have full: "stb_full a = index_full t" and ix: "index_ok E t ?ks" and d: "distinct ?ks"
      using x Some by (auto simp: stb_full_def)
    show ?thesis
    proof (cases "key \<in> set ?ks")
      case False
      have f: "stbds_hm_find_slot E t (sa_elems x) key = (if index_full t then None else Some (-1))"
        by (rule index_find(1) [OF ix d False])
      then show ?thesis
        using False temp gone none by (simp add: Some t stbds_hmdel_def stbds_hmdel_key_def full [unfolded Some] keys [unfolded Some] Let_def)
    next
      case True
      then obtain i where i: "i < length ?ks" "?ks ! i = key" by (auto simp: in_set_conv_nth)
      obtain k where k: "slots_ok k (key_hash E (hi_seed t)) t ?ks {..<length ?ks}" "header_ok k t"
        "used_count t = length ?ks" "tombstone_count t = card (dead_slots k t)" "length ?ks \<le> 7 * 2 ^ k"
        using ix by (auto simp: index_ok_def)
      obtain p where p: "p < 8 * 2 ^ k" "stbds_hm_find_slot E t (sa_elems x) key = Some (int p)" "index_slot t p = int i"
        using find_slot_hit [OF k(1) inj_on_nth_all [OF d], of i key] i by auto
      define t1 where "t1 = t\<lparr>used_count := used_count t - 1, tombstone_count := tombstone_count t + 1\<rparr>"
      define t2 where "t2 = set_slot t1 (p div 8) (p mod 8) STBDS_HASH_DELETED STBDS_INDEX_DELETED"
      have st: "hi_storage t1 = hi_storage t" "slot_count t1 = slot_count t" by (simp_all add: t1_def)
      have s1: "slots_ok k (key_hash E (hi_seed t)) t1 ?ks {..<length ?ks}" using k(1) storage_cong(4) [OF st] by blast
      have p1: "index_slot t1 p = int i" using p(3) storage_cong(2) [OF st] by simp
      have "slots_ok k (key_hash E (hi_seed t2)) t2 ?ks ({..<length ?ks} - {i})"
        using slots_mark [OF s1 p(1) p1] by (simp add: t2_def t1_def)
      then obtain t3 es3 where t3: "del_swap E t2 (sa_elems x) (int i) (int (length (sa_elems x)) - 1 - 1) = Some (t3, es3)"
        "butlast es3 = hd (sa_elems x) # swap_del (tl (sa_elems x)) i"
        "slots_ok k (key_hash E (hi_seed t2)) t3 (swap_del ?ks i) {..<length ?ks - 1}"
        "dead_slots k t3 = dead_slots k t2" "\<exists>st. t3 = t2\<lparr>hi_storage := st\<rparr>"
        using del_swap_result [of k E t2 "sa_elems x" i] i(1) d x by metis
      obtain st3 where st3: "t3 = t2\<lparr>hi_storage := st3\<rparr>" using t3(5) by blast
      have dead: "card (dead_slots k t3) = card (dead_slots k t) + 1"
      proof -
        have "p \<notin> dead_slots k t" using hf_index(2) [OF k(1) key_hash_range p(1)] p(3) by (auto simp: dead_slots_def)
        moreover have "dead_slots k t2 = insert p (dead_slots k t)"
          using set_slot_kinds(1) [OF slots_okD(1) [OF s1] p(1)] kinds_cong [OF st, of k]
          by (simp add: t2_def STBDS_HASH_DELETED_def)
        ultimately show ?thesis by (simp add: t3(4))
      qed
      have l3: "length (swap_del ?ks i) = length ?ks - 1" by (rule length_swap_del)
      obtain t4 where t4: "del_index gs t3 = Some t4" "index_ok E t4 (swap_del ?ks i)"
      proof (rule del_index_result [of k E t3 "swap_del ?ks i" gs])
        show "slots_ok k (key_hash E (hi_seed t3)) t3 (swap_del ?ks i) {..<length (swap_del ?ks i)}"
          using t3(3) by (simp add: l3 st3)
        show "header_ok k t3" "used_count t3 = length (swap_del ?ks i)"
          using k(2,3) by (simp_all add: st3 t2_def t1_def header_ok_def l3)
        show "tombstone_count t3 = card (dead_slots k t3)" using dead k(4) by (simp add: st3 t2_def t1_def)
        show "length (swap_del ?ks i) \<le> 7 * 2 ^ k" using k(5) by (simp add: l3)
      qed
      define x' where "x' = x\<lparr>sa_elems := butlast es3, sa_temp := 1, sa_table := Some t4\<rparr>"
      have "stbds_hmdel E gs a key = Some (Some x', 1)"
        using p(2,3) t3(1) [unfolded t2_def t1_def] t4(1)
        by (simp add: Some t stbds_hmdel_def stbds_hmdel_key_def index_slot_def x'_def Let_def)
      moreover have keys': "stb_keys (Some x') = swap_del ?ks i"
        using i(1) by (simp add: x'_def stb_keys_def t3(2) keys_of_def map_swap_del)
      moreover have "stb_ok E (Some x')"
      proof -
        have dt: "distinct (map fst (tl (sa_elems x)))" "i < length (tl (sa_elems x))" using d i(1) by (simp_all add: keys_of_def)
        have "length (sa_elems x') \<le> sa_capacity x'" using x dt(2) by (auto simp: x'_def t3(2) length_swap_del)
        moreover have "distinct (keys_of (sa_elems x'))"
          using swap_del_map_of(2) [OF dt] by (simp add: x'_def t3(2) keys_of_def)
        moreover have "keys_of (sa_elems x') = swap_del ?ks i" using keys' by (simp add: stb_keys_def)
        ultimately show ?thesis using t4(2) by (simp add: stb_ok_def x'_def t3(2))
      qed
      moreover have "stb_map (Some x') = (stb_map a)(key := None)"
      proof -
        have dt: "distinct (map fst (tl (sa_elems x)))" "i < length (tl (sa_elems x))" using d i(1) by (simp_all add: keys_of_def)
        have "fst (tl (sa_elems x) ! i) = key" using i dt(2) by (simp add: keys_of_def)
        then show ?thesis using swap_del_map_of(1) [OF dt] by (simp add: stb_map_def Some x'_def t3(2))
      qed
      ultimately show ?thesis using True none i keys by auto
    qed
  qed
qed

end
