(* ===== verification/Stb_Shim.thy ===== *)
theory Stb_Shim
  imports Stb_Correct Blueprints
begin

text \<open>
  \<open>src/shims/stb_ds_hm_sh/shim.h\<close>: the shim over stb_ds, what a history of its calls does, when a call does not
  return, and the strings of the arena.
\<close>

section \<open>The shim\<close>

text \<open>\<open>STBDS_HM_SPECIALIZATION\<close> and \<open>STBDS_SH_SPECIALIZATION\<close> differ in the macros they call.\<close>

definition sb_create_table :: "('k, 'v) stb_arr option" where
  "sb_create_table = None"

definition sb_find :: "('k, 'v) stb_env \<Rightarrow> ('k, 'v) stb_arr option \<Rightarrow> 'k \<Rightarrow> (('k, 'v) stb_arr \<times> int) option" where
  "sb_find E t key = stbds_hmgeti E t key"

definition sb_insert ::
    "('k, 'v) stb_env \<Rightarrow> hm_mode \<Rightarrow> 'v \<Rightarrow> u64 \<Rightarrow> ('k, 'v) stb_arr option \<Rightarrow> 'k \<Rightarrow> (('k, 'v) stb_arr \<times> u64) option" where
  "sb_insert E mode dflt gs t key =
    (case mode of HM_BINARY \<Rightarrow> stbds_hmput E gs t key dflt | HM_STRING \<Rightarrow> stbds_shput E gs t key dflt)"

definition sb_erase :: "('k, 'v) stb_env \<Rightarrow> u64 \<Rightarrow> ('k, 'v) stb_arr option \<Rightarrow> 'k \<Rightarrow> ('k, 'v) stb_arr option option" where
  "sb_erase E gs t key = map_option fst (stbds_hmdel E gs t key)"

definition sb_begin_itr :: "('k, 'v) stb_arr option \<Rightarrow> int" where
  "sb_begin_itr t = 0"

definition sb_is_itr_valid :: "('k, 'v) stb_arr option \<Rightarrow> int \<Rightarrow> bool" where
  "sb_is_itr_valid t itr \<longleftrightarrow> itr \<noteq> -1 \<and> itr < stbds_hmlen t"

definition sb_increment_itr :: "int \<Rightarrow> int" where
  "sb_increment_itr itr = itr + 1"

definition sb_get_key_from_itr :: "('k, 'v) stb_arr \<Rightarrow> int \<Rightarrow> 'k" where
  "sb_get_key_from_itr x itr = fst (elem_at (sa_elems x) itr)"

definition sb_get_value_from_itr :: "('k, 'v) stb_arr \<Rightarrow> int \<Rightarrow> 'v" where
  "sb_get_value_from_itr x itr = snd (elem_at (sa_elems x) itr)"

definition sb_destroy_table :: "('k, 'v) stb_arr option \<Rightarrow> 'k stb_freed list \<times> ('k, 'v) stb_arr option" where
  "sb_destroy_table t = (stbds_hmfree_func t, None)"

text \<open>
  Calls of the shim in sequence; the state is the global seed and the table, which \<open>find\<close> changes too.
\<close>

datatype 'k sb_call = Sb_insert 'k | Sb_erase 'k | Sb_find 'k

type_synonym ('k, 'v) sb_state = "u64 \<times> ('k, 'v) stb_arr option"

fun sb_step :: "('k, 'v) stb_env \<Rightarrow> hm_mode \<Rightarrow> 'v \<Rightarrow> 'k sb_call \<Rightarrow> ('k, 'v) sb_state \<Rightarrow> ('k, 'v) sb_state option" where
  "sb_step E mode dflt (Sb_insert key) (gs, t) = map_option (\<lambda>(x, gs). (gs, Some x)) (sb_insert E mode dflt gs t key)"
| "sb_step E mode dflt (Sb_erase key) (gs, t) = map_option (\<lambda>t. (gs, t)) (sb_erase E gs t key)"
| "sb_step E mode dflt (Sb_find key) (gs, t) = map_option (\<lambda>(x, itr). (gs, Some x)) (sb_find E t key)"

fun sb_run :: "('k, 'v) stb_env \<Rightarrow> hm_mode \<Rightarrow> 'v \<Rightarrow> 'k sb_call list \<Rightarrow> ('k, 'v) sb_state \<Rightarrow> ('k, 'v) sb_state option" where
  "sb_run E mode dflt [] s = Some s"
| "sb_run E mode dflt (c # cs) s = Option.bind (sb_step E mode dflt c s) (sb_run E mode dflt cs)"

text \<open>What the calls are to do to a map.\<close>

fun sb_spec :: "'v \<Rightarrow> 'k sb_call \<Rightarrow> ('k \<Rightarrow> 'v option) \<Rightarrow> 'k \<Rightarrow> 'v option" where
  "sb_spec dflt (Sb_insert key) m = m(key \<mapsto> dflt)"
| "sb_spec dflt (Sb_erase key) m = m(key := None)"
| "sb_spec dflt (Sb_find key) m = m"

definition sb_spec_run :: "'v \<Rightarrow> 'k sb_call list \<Rightarrow> 'k \<Rightarrow> 'v option" where
  "sb_spec_run dflt cs = fold (sb_spec dflt) cs Map.empty"

definition sb_no_erase :: "'k sb_call \<Rightarrow> bool" where
  "sb_no_erase c \<longleftrightarrow> (case c of Sb_erase key \<Rightarrow> False | _ \<Rightarrow> True)"

text \<open>The environments of the three blueprints: the hash functions ignore the seed.\<close>

definition stb_env_of :: "('k \<Rightarrow> u64) \<Rightarrow> 'k \<times> 'v \<Rightarrow> 'v \<Rightarrow> ('k \<Rightarrow> nat) \<Rightarrow> ('k, 'v) stb_env" where
  "stb_env_of hash_key z junk slen = \<lparr>sb_hash = (\<lambda>key seed. hash_key key), sb_zero = z, sb_junk = junk, sb_strlen = slen\<rparr>"

section \<open>One call\<close>

lemma sb_insert_result:
  assumes "stb_ok E t"
  shows "\<exists>x gs'. sb_insert E mode dflt gs t key = Some (x, gs') \<and> stb_ok E (Some x) \<and>
    stb_map (Some x) = (stb_map t)(key \<mapsto> dflt) \<and>
    stb_keys (Some x) = (if key \<in> set (stb_keys t) then stb_keys t else stb_keys t @ [key]) \<and>
    stb_tombs (Some x) \<le> stb_tombs t"
  using hmput_result [OF assms] shput_result [OF assms] by (cases mode) (simp_all add: sb_insert_def)

definition sb_hangs :: "('k, 'v) stb_arr option \<Rightarrow> 'k sb_call \<Rightarrow> bool" where
  "sb_hangs t c \<longleftrightarrow> stb_full t \<and> (case c of Sb_insert key \<Rightarrow> False | Sb_erase key \<Rightarrow> stb_map t key = None
    | Sb_find key \<Rightarrow> stb_map t key = None)"

text \<open>A call hangs or keeps the invariant and does what it is to do.\<close>

lemma sb_step_result:
  assumes ok: "stb_ok E t"
  shows "(if sb_hangs t c then sb_step E mode dflt c (gs, t) = None
    else \<exists>gs' t'. sb_step E mode dflt c (gs, t) = Some (gs', t') \<and> stb_ok E t' \<and> stb_map t' = sb_spec dflt c (stb_map t) \<and>
      (sb_no_erase c \<longrightarrow> stb_tombs t' \<le> stb_tombs t))"
proof (cases c)
  case (Sb_insert key)
  then show ?thesis using sb_insert_result [OF ok, of mode dflt gs key] by (auto simp: sb_hangs_def)
next
  case (Sb_erase key)
  then show ?thesis using hmdel_result [OF ok, of key gs]
    by (auto simp: sb_hangs_def sb_erase_def sb_no_erase_def split: if_splits)
next
  case (Sb_find key)
  have "stb_tombs (Some x) \<le> stb_tombs t" if "sb_find E t key = Some (x, i)" for x i
    using that by (auto simp: sb_find_def stbds_hmgeti_def stbds_hmget_key_def stbds_hmget_key_ts_def stb_tombs_def default_array
        split: option.splits)
  then show ?thesis using hmgeti_result [OF ok, of key] Sb_find
    by (auto simp: sb_hangs_def sb_find_def split: if_splits) 
qed

lemma sb_run_result:
  "stb_ok E t \<Longrightarrow> sb_run E mode dflt cs (gs, t) = Some (gs', t') \<Longrightarrow>
    stb_ok E t' \<and> stb_map t' = fold (sb_spec dflt) cs (stb_map t)"
proof (induction cs arbitrary: gs t)
  case (Cons c cs)
  then obtain gs1 t1 where 1: "sb_step E mode dflt c (gs, t) = Some (gs1, t1)" "sb_run E mode dflt cs (gs1, t1) = Some (gs', t')"
    by (auto simp: bind_eq_Some_conv)
  then have "stb_ok E t1" "stb_map t1 = sb_spec dflt c (stb_map t)"
    using sb_step_result [OF Cons.prems(1), of c mode dflt gs] by (auto split: if_splits)
  then show ?case using Cons.IH [OF _ 1(2)] by simp
qed simp

lemma sb_run_no_erase:
  "stb_ok E t \<Longrightarrow> stb_tombs t = 0 \<Longrightarrow> \<forall>c \<in> set cs. sb_no_erase c \<Longrightarrow>
    \<exists>gs' t'. sb_run E mode dflt cs (gs, t) = Some (gs', t') \<and> stb_tombs t' = 0"
proof (induction cs arbitrary: gs t)
  case (Cons c cs)
  have "\<not> sb_hangs t c" using no_tombs_not_full Cons.prems(1,2) by (auto simp: sb_hangs_def)
  then obtain gs1 t1 where 1: "sb_step E mode dflt c (gs, t) = Some (gs1, t1)" "stb_ok E t1" "stb_tombs t1 \<le> stb_tombs t"
    using sb_step_result [OF Cons.prems(1), of c mode dflt gs] Cons.prems(3) by (auto split: if_splits)
  then show ?case using Cons.IH [OF 1(2), of gs1] Cons.prems(2,3) by simp
qed simp

lemma sb_create_ok: "stb_ok E sb_create_table" "stb_map sb_create_table = Map.empty" "stb_tombs sb_create_table = 0"
  by (simp_all add: sb_create_table_def stb_ok_def stb_map_def stb_tombs_def)

text \<open>The iterators of a table are the positions of its keys.\<close>

lemma stb_position:
  assumes ok: "stb_ok E (Some x)" and i: "0 \<le> i" "nat i < length (stb_keys (Some x))"
  shows "sb_is_itr_valid (Some x) i" "sb_get_key_from_itr x i = stb_keys (Some x) ! nat i"
    "stb_map (Some x) (sb_get_key_from_itr x i) = Some (sb_get_value_from_itr x i)"
proof -
  obtain d es where es: "sa_elems x = d # es" using ok by (cases "sa_elems x") (auto simp: stb_ok_def)
  have n: "nat (i + 1) = Suc (nat i)" using i by simp
  have il: "nat i < length es" using i by (simp add: stb_keys_def keys_of_def es)
  show "sb_is_itr_valid (Some x) i" using i il by (simp add: sb_is_itr_valid_def stbds_hmlen_def es)
  show "sb_get_key_from_itr x i = stb_keys (Some x) ! nat i"
    using il by (simp add: sb_get_key_from_itr_def elem_at_def n es stb_keys_def keys_of_def)
  have "distinct (map fst es)" using ok by (simp add: stb_ok_def keys_of_def es)
  then have "map_of es (fst (es ! nat i)) = Some (snd (es ! nat i))" using il by (simp add: map_of_eq_Some_iff)
  then show "stb_map (Some x) (sb_get_key_from_itr x i) = Some (sb_get_value_from_itr x i)"
    by (simp add: stb_map_def sb_get_key_from_itr_def sb_get_value_from_itr_def elem_at_def n es)
qed

section \<open>An index without an empty slot\<close>

text \<open>Eight keys of the vector of the 32-bit blueprint: seven fill all slots but one, the first is erased,
  and the last goes to the slot that was empty.\<close>

definition stb_hang_env :: "(u32, u32) stb_env" where
  "stb_hang_env = stb_env_of hash_key_uint32 (0, 0) 0 (\<lambda>k. 0)"

text \<open>The hash codes of the keys of the examples, computed once.\<close>

lemma example_hashes:
  "hash_key_uint32 30 = 0xc068d3a0083b4330"
  "hash_key_uint32 1 = 0xb456bcfc34c2cb2c"
  "hash_key_uint32 2 = 0x3abf2a20650683e7"
  "hash_key_uint32 3 = 0xb5181c509f8d8ce"
  "hash_key_uint32 4 = 0x47900468a8f01875"
  "hash_key_uint32 6 = 0xe8b4b3b1c77c4573"
  "hash_key_uint32 19 = 0xfec2978bc98e5299"
  "hash_key_uint32 28 = 0x8182fda86e799352"
  "hash_key_uint32 5 = 0xd66ad737d54c5575"
  "hash_key_uint32 9 = 0x91209a1ff7f4f1d5"
  by (simp_all add: hash_key_uint32_def murmur_fin_def)

lemma stb_hang_env_code [code]:
  "stb_hang_env = stb_env_of (\<lambda>k. if k = 30 then 0xc068d3a0083b4330 else if k = 1 then 0xb456bcfc34c2cb2c else if k = 2 then 0x3abf2a20650683e7 else if k = 3 then 0xb5181c509f8d8ce else if k = 4 then 0x47900468a8f01875 else if k = 6 then 0xe8b4b3b1c77c4573 else if k = 19 then 0xfec2978bc98e5299 else if k = 28 then 0x8182fda86e799352 else if k = 5 then 0xd66ad737d54c5575 else if k = 9 then 0x91209a1ff7f4f1d5 else hash_key_uint32 k)
    (0, 0) 0 (\<lambda>k. 0)"
  by (simp add: stb_hang_env_def stb_env_of_def fun_eq_iff example_hashes)

definition stb_hang_calls :: "u32 sb_call list" where
  "stb_hang_calls = map Sb_insert [30, 1, 2, 3, 4, 6, 19] @ [Sb_erase 30, Sb_insert 28]"

lemma stb_hang_run:
  "map_option (\<lambda>(gs, t). (stb_full t, stb_keys t))
    (sb_run stb_hang_env HM_BINARY 0 stb_hang_calls (0x31415926, sb_create_table)) =
    Some (True, [19, 1, 2, 3, 4, 6, 28])"
  by code_simp

text \<open>The thresholds of the code never meet the condition it asserts of them.\<close>

lemma stb_thresholds_not_as_asserted: "header_ok k t \<Longrightarrow> \<not> stbds_assert_thresholds t"
  by (simp add: header_ok_def stbds_assert_thresholds_def)

section \<open>The strings of the arena\<close>

text \<open>Strings of the given lengths, one after the other, each with the place it gets.\<close>

fun arena_run :: "(nat \<times> nat) list \<Rightarrow> stb_arena \<Rightarrow> stb_arena \<times> (nat \<times> nat \<times> nat) list" where
  "arena_run [] a = (a, [])"
| "arena_run ((fresh, len) # rs) a =
    (let (a, b, off) = stbds_stralloc fresh a len; (a, ps) = arena_run rs a in (a, (b, off, len) # ps))"

text \<open>The bytes of a place.\<close>

definition place_bytes :: "nat \<times> nat \<times> nat \<Rightarrow> (nat \<times> nat) set" where
  "place_bytes p = (case p of (b, off, len) \<Rightarrow> {b} \<times> {off..<off + len})"

text \<open>The bytes that the arena has not given out: the start of its first block.\<close>

definition arena_free :: "stb_arena \<Rightarrow> (nat \<times> nat) set" where
  "arena_free a = (case ar_storage a of [] \<Rightarrow> {} | (b, sz) # bs \<Rightarrow> {b} \<times> {..<ar_remaining a})"

definition arena_bytes :: "stb_arena \<Rightarrow> (nat \<times> nat) set" where
  "arena_bytes a = (\<Union>(b, sz) \<in> set (ar_storage a). {b} \<times> {..<sz})"

definition arena_ok :: "stb_arena \<Rightarrow> bool" where
  "arena_ok a \<longleftrightarrow> (case ar_storage a of [] \<Rightarrow> ar_remaining a = 0 | (b, sz) # bs \<Rightarrow> ar_remaining a \<le> sz) \<and>
    distinct (map fst (ar_storage a))"

lemma arena_free_bytes: "arena_ok a \<Longrightarrow> arena_free a \<subseteq> arena_bytes a"
  by (auto simp: arena_ok_def arena_free_def arena_bytes_def split: list.splits)

lemma stralloc_result:
  assumes ok: "arena_ok a" and len: "0 < len" and fresh: "fresh \<notin> fst ` set (ar_storage a)"
    and r: "stbds_stralloc fresh a len = (a', b, off)"
  shows "arena_ok a'" "place_bytes (b, off, len) \<subseteq> arena_bytes a' - arena_free a'"
    "arena_bytes a \<subseteq> arena_bytes a'" "place_bytes (b, off, len) \<inter> (arena_bytes a - arena_free a) = {}"
    "arena_bytes a - arena_free a \<subseteq> arena_bytes a' - arena_free a'"
    "fst ` set (ar_storage a') \<subseteq> insert fresh (fst ` set (ar_storage a))"
proof -
  define blocksize where "blocksize = push_bit (unat (drop_bit 1 (ar_block a))) STBDS_STRING_ARENA_BLOCKSIZE_MIN"
  define blk where "blk = ar_block a + (if blocksize < STBDS_STRING_ARENA_BLOCKSIZE_MAX then 1 else 0)"
  have new: "(fresh, x) \<notin> arena_bytes a" for x using fresh by (force simp: arena_bytes_def)
  have res: "arena_ok a' \<and> place_bytes (b, off, len) \<subseteq> arena_bytes a' - arena_free a' \<and>
    arena_bytes a \<subseteq> arena_bytes a' \<and> place_bytes (b, off, len) \<inter> (arena_bytes a - arena_free a) = {} \<and>
    arena_bytes a - arena_free a \<subseteq> arena_bytes a' - arena_free a' \<and>
    fst ` set (ar_storage a') \<subseteq> insert fresh (fst ` set (ar_storage a))"
  proof (cases "len > ar_remaining a")
    case False
    then obtain c sz bs where st: "ar_storage a = (c, sz) # bs" "ar_remaining a \<le> sz"
      using ok len by (cases "ar_storage a") (auto simp: arena_ok_def)
    have "a' = a\<lparr>ar_remaining := ar_remaining a - len\<rparr>" "b = c" "off = ar_remaining a - len"
      using r False st by (auto simp: stbds_stralloc_def Let_def)
    then show ?thesis using ok False st
      by (auto simp: arena_ok_def place_bytes_def arena_bytes_def arena_free_def)
  next
    case big: True
    show ?thesis
    proof (cases "len > blocksize")
      case True
      show ?thesis
      proof (cases "ar_storage a")
        case Nil
        then have "a' = a\<lparr>ar_block := blk, ar_storage := [(fresh, len)], ar_remaining := 0\<rparr>" "b = fresh" "off = 0"
          using r big True by (auto simp: stbds_stralloc_def Let_def blocksize_def blk_def)
        then show ?thesis using Nil by (auto simp: arena_ok_def place_bytes_def arena_bytes_def arena_free_def)
      next
        case (Cons first rest)
        obtain c sz where first: "first = (c, sz)" by (cases first)
        have a': "a' = a\<lparr>ar_block := blk, ar_storage := first # (fresh, len) # rest\<rparr>" "b = fresh" "off = 0"
          using r big True Cons by (auto simp: stbds_stralloc_def Let_def blocksize_def blk_def)
        then show ?thesis using ok fresh new
          by (auto simp: Cons first arena_ok_def place_bytes_def arena_bytes_def arena_free_def)
      qed
    next
      case False
      then have "a' = a\<lparr>ar_block := blk, ar_storage := (fresh, blocksize) # ar_storage a, ar_remaining := blocksize - len\<rparr>"
        "b = fresh" "off = blocksize - len"
        using r big by (auto simp: stbds_stralloc_def Let_def blocksize_def blk_def)
      then show ?thesis using ok fresh new False
        by (auto simp: arena_ok_def place_bytes_def arena_bytes_def arena_free_def)
    qed
  qed
  then show "arena_ok a'" "place_bytes (b, off, len) \<subseteq> arena_bytes a' - arena_free a'"
    "arena_bytes a \<subseteq> arena_bytes a'" "place_bytes (b, off, len) \<inter> (arena_bytes a - arena_free a) = {}"
    "arena_bytes a - arena_free a \<subseteq> arena_bytes a' - arena_free a'"
    "fst ` set (ar_storage a') \<subseteq> insert fresh (fst ` set (ar_storage a))"
    by simp_all
qed

lemma arena_run_result:
  assumes "arena_ok a" "\<forall>r \<in> set rs. 0 < snd r" "distinct (map fst rs)" "fst ` set rs \<inter> fst ` set (ar_storage a) = {}"
    "arena_run rs a = (a', ps)"
  shows "length ps = length rs \<and> (\<forall>p \<in> set ps. place_bytes p \<subseteq> arena_bytes a' - arena_free a' \<and>
      place_bytes p \<inter> (arena_bytes a - arena_free a) = {}) \<and>
    arena_bytes a - arena_free a \<subseteq> arena_bytes a' - arena_free a' \<and>
    (\<forall>i < length ps. \<forall>j < i. place_bytes (ps ! i) \<inter> place_bytes (ps ! j) = {})"
  using assms
proof (induction rs arbitrary: a ps)
  case (Cons r rs)
  obtain fresh len where r: "r = (fresh, len)" by (cases r)
  obtain a1 b off where 1: "stbds_stralloc fresh a len = (a1, b, off)" by (metis prod_cases3)
  obtain qs where 2: "arena_run rs a1 = (a', qs)" "ps = (b, off, len) # qs"
    using Cons.prems(5) 1 by (auto simp: r split: prod.splits)
  have f: "0 < len" "fresh \<notin> fst ` set (ar_storage a)" using Cons.prems(2,4) by (auto simp: r)
  note s = stralloc_result [OF Cons.prems(1) f 1]
  have "fst ` set rs \<inter> insert fresh (fst ` set (ar_storage a)) = {}" using Cons.prems(3,4) by (auto simp: r)
  then have "fst ` set rs \<inter> fst ` set (ar_storage a1) = {}" using s(6) by blast
  from Cons.IH [OF s(1) _ _ this 2(1)] Cons.prems(2,3)
  have ih: "length qs = length rs" "\<forall>p \<in> set qs. place_bytes p \<subseteq> arena_bytes a' - arena_free a' \<and>
      place_bytes p \<inter> (arena_bytes a1 - arena_free a1) = {}" "arena_bytes a1 - arena_free a1 \<subseteq> arena_bytes a' - arena_free a'"
    "\<forall>i < length qs. \<forall>j < i. place_bytes (qs ! i) \<inter> place_bytes (qs ! j) = {}"
    by simp_all
  have "place_bytes (qs ! i) \<inter> place_bytes (b, off, len) = {}" if "i < length qs" for i
    using ih(2) s(2) nth_mem [OF that] by blast
  then have "\<forall>i < length ps. \<forall>j < i. place_bytes (ps ! i) \<inter> place_bytes (ps ! j) = {}"
    using ih(4) by (auto simp: 2(2) nth_Cons split: nat.splits)
  moreover have "\<forall>p \<in> set ps. place_bytes p \<subseteq> arena_bytes a' - arena_free a' \<and>
      place_bytes p \<inter> (arena_bytes a - arena_free a) = {}"
  proof
    fix p assume "p \<in> set ps"
    then consider "p = (b, off, len)" | "p \<in> set qs" by (auto simp: 2(2))
    then show "place_bytes p \<subseteq> arena_bytes a' - arena_free a' \<and> place_bytes p \<inter> (arena_bytes a - arena_free a) = {}"
      using ih(2,3) s(2,4,5) by cases blast+
  qed
  moreover have "arena_bytes a - arena_free a \<subseteq> arena_bytes a' - arena_free a'" using s(5) ih(3) by blast
  ultimately show ?case using ih(1) by (simp add: 2(2) del: split_paired_All)
qed simp

section \<open>Properties\<close>

text \<open>C7: stb_ds behind its shim implements a map, for any hash function and both kinds of keys: after any history
  of insertions, erasures and lookups from the empty table that has returned, the table stands for the map
  the history leaves, and a lookup gives a valid iterator to exactly the keys of the map, with the value
  the shim stored, unless the key is missing and the index is full; then it does not return.\<close>

theorem stb_shim_implements_map:
  assumes "sb_run E mode dflt calls (gs, sb_create_table) = Some (gs', t)"
  shows "stb_map t = sb_spec_run dflt calls \<and>
    (if sb_spec_run dflt calls key = None \<and> stb_full t then sb_find E t key = None
     else \<exists>x itr. sb_find E t key = Some (x, itr) \<and>
       (sb_is_itr_valid (Some x) itr \<longleftrightarrow> sb_spec_run dflt calls key \<noteq> None) \<and>
       (sb_is_itr_valid (Some x) itr \<longrightarrow> sb_get_key_from_itr x itr = key \<and>
         sb_spec_run dflt calls key = Some (sb_get_value_from_itr x itr)))"
proof -
  have t: "stb_ok E t" "stb_map t = sb_spec_run dflt calls"
    using sb_run_result [OF sb_create_ok(1) assms] by (simp_all add: sb_create_ok(2) sb_spec_run_def)
  show ?thesis
  proof (cases "stb_map t key = None \<and> stb_full t")
    case True
    then show ?thesis using hmgeti_result [OF t(1), of key] t(2) by (simp add: sb_find_def)
  next
    case False
    then obtain x itr where x: "stbds_hmgeti E t key = Some (x, itr)" "stb_ok E (Some x)" "stb_map (Some x) = stb_map t"
      "stb_keys (Some x) = stb_keys t" "if stb_map t key = None then itr = -1
        else 0 \<le> itr \<and> nat itr < length (stb_keys t) \<and> stb_keys t ! nat itr = key"
      using hmgeti_result [OF t(1), of key] by auto
    show ?thesis
    proof (cases "stb_map t key")
      case None
      then show ?thesis using x False t(2) by (simp add: sb_find_def sb_is_itr_valid_def)
    next
      case (Some v)
      then have itr: "0 \<le> itr" "nat itr < length (stb_keys (Some x))" "stb_keys (Some x) ! nat itr = key" using x(4,5) by simp_all
      note pos = stb_position [OF x(2) itr(1,2)]
      have "sb_get_key_from_itr x itr = key" using pos(2) itr(3) by simp
      then show ?thesis using pos(1,3) x(1,3) t(2) Some by (simp add: sb_find_def)
    qed
  qed
qed

theorem stb_shim_implements_map_witness:
  "\<exists>gs t x itr. sb_run stb_hang_env HM_BINARY 7 [Sb_insert 5, Sb_insert 9, Sb_find 5, Sb_erase 5] (1, sb_create_table) = Some (gs, t) \<and>
    stb_map t = [9 \<mapsto> 7] \<and> sb_find stb_hang_env t 9 = Some (x, itr) \<and> sb_get_key_from_itr x itr = 9 \<and> sb_get_value_from_itr x itr = 7"
proof -
  have "map_option (\<lambda>(gs, t). stb_full t)
      (sb_run stb_hang_env HM_BINARY 7 [Sb_insert 5, Sb_insert 9, Sb_find 5, Sb_erase 5] (1, sb_create_table)) = Some False"
    by code_simp
  then obtain gs t where r: "sb_run stb_hang_env HM_BINARY 7 [Sb_insert 5, Sb_insert 9, Sb_find 5, Sb_erase 5] (1, sb_create_table) =
      Some (gs, t)" by auto
  have m: "sb_spec_run 7 [Sb_insert (5 :: u32), Sb_insert 9, Sb_find 5, Sb_erase 5] = [9 \<mapsto> (7 :: u32)]" by (auto simp: sb_spec_run_def)
  from stb_shim_implements_map [OF r, of 9] show ?thesis unfolding m using r by auto
qed

text \<open>C12: when the calls return. After any history that has returned, insertion returns, and erasure and lookup
  of a key return if the key is in the table or the index is not full; otherwise the probe loop goes round
  for ever. The index is full exactly when none of its slots is empty.\<close>

theorem stb_call_returns_iff:
  assumes "sb_run E mode dflt calls (gs, sb_create_table) = Some (gs', t)"
  shows "(sb_step E mode dflt c (gs', t) = None \<longleftrightarrow>
      stb_full t \<and> (\<exists>key. (c = Sb_erase key \<or> c = Sb_find key) \<and> sb_spec_run dflt calls key = None)) \<and>
    (stb_full t \<longleftrightarrow> (\<exists>x ix. t = Some x \<and> sa_table x = Some ix \<and>
      (\<forall>b \<in> set (hi_storage ix). STBDS_HASH_EMPTY \<notin> set (bk_hash b))))"
proof
  have t: "stb_ok E t" "stb_map t = sb_spec_run dflt calls"
    using sb_run_result [OF sb_create_ok(1) assms] by (simp_all add: sb_create_ok(2) sb_spec_run_def)
  show "sb_step E mode dflt c (gs', t) = None \<longleftrightarrow>
      stb_full t \<and> (\<exists>key. (c = Sb_erase key \<or> c = Sb_find key) \<and> sb_spec_run dflt calls key = None)"
    using sb_step_result [OF t(1), of c mode dflt gs'] by (cases c) (auto simp: sb_hangs_def t(2) split: if_splits)
  show "stb_full t \<longleftrightarrow> (\<exists>x ix. t = Some x \<and> sa_table x = Some ix \<and>
      (\<forall>b \<in> set (hi_storage ix). STBDS_HASH_EMPTY \<notin> set (bk_hash b)))"
    using t(1) index_full_storage by (auto simp: stb_ok_def stb_full_def split: option.splits)
qed

theorem stb_call_returns_iff_witness:
  "\<exists>gs t. sb_run stb_hang_env HM_BINARY 0 stb_hang_calls (0x31415926, sb_create_table) = Some (gs, t) \<and>
    sb_step stb_hang_env HM_BINARY 0 (Sb_erase 30) (gs, t) = None \<and>
    sb_step stb_hang_env HM_BINARY 0 (Sb_insert 30) (gs, t) \<noteq> None"
proof -
  obtain gs t where r: "sb_run stb_hang_env HM_BINARY 0 stb_hang_calls (0x31415926, sb_create_table) = Some (gs, t)"
    "stb_full t" using stb_hang_run by auto
  have "sb_spec_run (0 :: u32) stb_hang_calls 30 = None" by (simp add: sb_spec_run_def stb_hang_calls_def)
  then show ?thesis
    using stb_call_returns_iff [OF r(1), of "Sb_erase 30"] stb_call_returns_iff [OF r(1), of "Sb_insert 30"] r by auto
qed

text \<open>C18: insertions and lookups alone, in any number and order, always return, whatever the hash function: without
  deleted slots the load factor leaves an empty one. This covers every benchmark that does not erase.\<close>

theorem stb_history_without_erase_returns:
  assumes "\<forall>c \<in> set calls. sb_no_erase c"
  shows "\<exists>gs' t. sb_run E mode dflt calls (gs, sb_create_table) = Some (gs', t) \<and> stb_map t = sb_spec_run dflt calls \<and>
    \<not> stb_full t"
proof -
  obtain gs' t where t: "sb_run E mode dflt calls (gs, sb_create_table) = Some (gs', t)" "stb_tombs t = 0"
    using sb_run_no_erase [OF sb_create_ok(1) sb_create_ok(3) assms, where E = E and mode = mode and dflt = dflt and gs = gs] by blast
  have "stb_ok E t" "stb_map t = sb_spec_run dflt calls"
    using sb_run_result [OF sb_create_ok(1) t(1)] by (simp_all add: sb_create_ok(2) sb_spec_run_def)
  then show ?thesis using t no_tombs_not_full by blast
qed

theorem stb_history_without_erase_returns_witness:
  "\<exists>gs' t. sb_run stb_hang_env HM_BINARY 0 (map (\<lambda>n. Sb_insert (of_nat n)) [0..<1000] @ [Sb_find 5000]) (1, sb_create_table) = Some (gs', t) \<and>
    \<not> stb_full t"
proof -
  have "\<forall>c \<in> set (map (\<lambda>n. Sb_insert (of_nat n)) [0..<1000] @ [Sb_find (5000 :: u32)]). sb_no_erase c"
    by (auto simp: sb_no_erase_def)
  from stb_history_without_erase_returns [OF this, of stb_hang_env HM_BINARY 0 1] show ?thesis by blast
qed

text \<open>C13: an index without an empty slot is within reach, with keys of the 32-bit blueprint's vector and its hash
  function: after seven insertions, one erasure and one more insertion, the lookup of a key returns exactly
  when the key is one of the seven in the table. The thresholds 14/16 and 2/16 leave no slot over, against
  the assertion in the code that at least one stays empty.\<close>

theorem stb_lookup_can_diverge:
  "\<exists>gs x ix. sb_run stb_hang_env HM_BINARY 0 stb_hang_calls (0x31415926, sb_create_table) = Some (gs, Some x) \<and>
    (\<forall>key. sb_find stb_hang_env (Some x) key \<noteq> None \<longleftrightarrow> key \<in> {19, 1, 2, 3, 4, 6, 28}) \<and>
    {30, 1, 2, 3, 4, 6, 19, 28} \<subseteq> set (fill_unique_keys_uint32 31) \<and>
    sa_table x = Some ix \<and> \<not> stbds_assert_thresholds ix"
proof -
  obtain gs t where r: "sb_run stb_hang_env HM_BINARY 0 stb_hang_calls (0x31415926, sb_create_table) = Some (gs, t)"
    "stb_full t" "stb_keys t = [19, 1, 2, 3, 4, 6, 28]" using stb_hang_run by auto
  have ok: "stb_ok stb_hang_env t" using sb_run_result [OF sb_create_ok(1) r(1)] by simp
  obtain x ix where x: "t = Some x" "sa_table x = Some ix" using r(2) by (auto simp: stb_full_def split: option.splits)
  have "\<not> stbds_assert_thresholds ix"
    using ok x stb_thresholds_not_as_asserted by (auto simp: stb_ok_def index_ok_def)
  moreover have "sb_find stb_hang_env t key \<noteq> None \<longleftrightarrow> key \<in> {19, 1, 2, 3, 4, 6, 28}" for key
  proof -
    have "stb_map t key = None \<longleftrightarrow> key \<notin> {19, 1, 2, 3, 4, 6, 28}" using stb_map_dom [of t] by (auto simp: r(3))
    then show ?thesis using hmgeti_result [OF ok, of key] r(2) by (auto simp: sb_find_def)
  qed
  moreover have "{30, 1, 2, 3, 4, 6, 19, 28} \<subseteq> set (fill_unique_keys_uint32 31)"
  proof -
    have "(of_nat ` {0..<31} :: u32 set) = set (fill_unique_keys_uint32 31)" by (simp add: fill_unique_keys_uint32_def)
    moreover have "of_nat n \<in> (of_nat ` {0..<31} :: u32 set)" if "n < 31" for n using that by simp
    from this [of 30] this [of 1] this [of 2] this [of 3] this [of 4] this [of 6] this [of 19] this [of 28]
    have "{30, 1, 2, 3, 4, 6, 19, 28} \<subseteq> (of_nat ` {0..<31} :: u32 set)" by simp
    ultimately show ?thesis by simp
  qed
  ultimately show ?thesis using r(1) x by blast
qed

text \<open>C23: erasing a key moves the last entry to its place and keeps the order of all others; a missing key leaves
  the entries alone. The result of the macro tells the two apart, and the index, which may be rebuilt or
  halved on the way, still finds every key that is left.\<close>

theorem stb_erase_moves_last:
  assumes "stb_ok E t" and "\<not> stb_full t \<or> stb_map t key \<noteq> None"
  shows "\<exists>t' r. stbds_hmdel E gs t key = Some (t', r) \<and> stb_ok E t' \<and> stb_map t' = (stb_map t)(key := None) \<and>
    (if stb_map t key = None then r = 0 \<and> stb_keys t' = stb_keys t
     else r = 1 \<and> (\<exists>i < length (stb_keys t). stb_keys t ! i = key \<and>
       stb_keys t' = butlast ((stb_keys t)[i := last (stb_keys t)]))) \<and>
    (\<forall>k'. stb_map t k' \<noteq> None \<and> k' \<noteq> key \<longleftrightarrow> (\<exists>x i. stbds_hmgeti E t' k' = Some (x, i) \<and> 0 \<le> i))"
proof -
  obtain t' where t': "stbds_hmdel E gs t key = Some (t', if stb_map t key = None then 0 else 1)" "stb_ok E t'"
    "stb_map t' = (stb_map t)(key := None)" "if stb_map t key = None then stb_keys t' = stb_keys t
       else \<exists>i < length (stb_keys t). stb_keys t ! i = key \<and> stb_keys t' = swap_del (stb_keys t) i"
  proof -
    have "\<not> (stb_map t key = None \<and> stb_full t)" using assms(2) by auto
    from hmdel_result [OF assms(1), of key gs, unfolded if_not_P [OF this]] show thesis using that by blast
  qed
  have lastx: "swap_del xs i = butlast (xs[i := last xs])" if "i < length xs" for xs :: "'a list" and i
    using that by (cases "xs = []") (simp_all add: swap_del_def last_conv_nth)
  have find: "stb_map t' k' \<noteq> None \<longleftrightarrow> (\<exists>x i. stbds_hmgeti E t' k' = Some (x, i) \<and> 0 \<le> i)" for k'
    using hmgeti_result [OF t'(2), of k'] by (auto split: if_splits)
  then have "\<forall>k'. stb_map t k' \<noteq> None \<and> k' \<noteq> key \<longleftrightarrow> (\<exists>x i. stbds_hmgeti E t' k' = Some (x, i) \<and> 0 \<le> i)"
    by (auto simp: t'(3) simp flip: find)
  moreover have "if stb_map t key = None then stb_keys t' = stb_keys t
     else \<exists>i < length (stb_keys t). stb_keys t ! i = key \<and> stb_keys t' = butlast ((stb_keys t)[i := last (stb_keys t)])"
    using t'(4) lastx by (auto split: if_splits)
  ultimately show ?thesis using t'(1-3) by (auto split: if_splits)
qed

definition stb_example :: "(nat, nat) stb_env" where
  "stb_example = stb_env_of of_nat (0, 0) 0 (\<lambda>k. k)"

theorem stb_erase_moves_last_witness:
  "\<exists>gs t t'. sb_run stb_example HM_BINARY 5 [Sb_insert 3, Sb_insert 7, Sb_insert 11] (1, sb_create_table) = Some (gs, t) \<and>
    stbds_hmdel stb_example gs t 3 = Some (t', 1) \<and> stb_keys t' = [11, 7]"
proof -
  have "map_option (\<lambda>(gs, t). (stb_full t, stb_keys t))
      (sb_run stb_example HM_BINARY 5 [Sb_insert 3, Sb_insert 7, Sb_insert 11] (1, sb_create_table)) = Some (False, [3, 7, 11])"
    by code_simp
  then obtain gs t where r: "sb_run stb_example HM_BINARY 5 [Sb_insert 3, Sb_insert 7, Sb_insert 11] (1, sb_create_table) = Some (gs, t)"
    "\<not> stb_full t" "stb_keys t = [3, 7, 11]" by auto
  have ok: "stb_ok stb_example t" using sb_run_result [OF sb_create_ok(1) r(1)] by simp
  have d: "stb_map t 3 \<noteq> None" using stb_map_dom [of t] r(3) by auto
  from stb_erase_moves_last [OF ok, of 3 gs] r(2) d obtain t' i where h: "stbds_hmdel stb_example gs t 3 = Some (t', 1)"
    "i < length (stb_keys t)" "stb_keys t ! i = 3" "stb_keys t' = butlast ((stb_keys t)[i := last (stb_keys t)])" by auto
  have "i = 0" using h(2,3) by (auto simp: r(3) less_Suc_eq)
  then show ?thesis using h(1,4) r(1,3) by auto
qed

text \<open>C31: what \<open>shputs\<close> does to a key that is in the table, whatever the hash function: when the slot of the key
  comes before the slot where its probe starts within the bucket, the search ends in the second inner loop,
  which does not set \<open>temp_key\<close>, and the macro writes the \<open>temp_key\<close> of an earlier call over the key of the
  entry; with another key there the entry's own key is lost from the table. Otherwise the entry keeps its
  key and gets the new value. Without a rebuild of the index, that is below its load factor.\<close>

theorem stb_shputs_loses_key:
  assumes "stb_ok E (Some x)" "sa_table x = Some t" "used_count t < used_count_threshold t"
    and "i < length (stb_keys (Some x))" "stb_keys (Some x) ! i = key"
    and "p < slot_count t" "index_at t (p div 8) (p mod 8) = int i"
  defines "start \<equiv> stbds_probe_position (stored_hash (sb_hash E key (hi_seed t))) (slot_count t)"
  shows "case (if p mod 8 < start mod 8 then temp_key t else Some key) of
      None \<Rightarrow> stbds_shputs E gs (Some x) (key, v) = None
    | Some k \<Rightarrow> \<exists>y. stbds_shputs E gs (Some x) (key, v) = Some (y, gs) \<and>
        sa_elems y = (sa_elems x)[Suc i := (k, v)] \<and> stb_keys (Some y) = (stb_keys (Some x))[i := k] \<and>
        (k \<noteq> key \<longrightarrow> stb_map (Some y) key = None)"
proof -
  let ?ks = "keys_of (sa_elems x)"
  obtain w where w: "probe_loop (put_visit t (sa_elems x) key (key_hash E (hi_seed t) key)) (slot_count t)
      (stbds_probe_position (key_hash E (hi_seed t) key) (slot_count t)) 8 (-1) = Some (Put_found w (int i))"
    "w \<longleftrightarrow> p mod 8 < start mod 8"
    using put_found_where [OF assms(1,2,4-7)] unfolding start_def key_hash_def by blast
  define t' where "t' = (if w then t else t\<lparr>temp_key := Some key\<rparr>)"
  have key: "fst (elem_at (sa_elems x) (int i)) = key" using assms(4,5) by (simp add: elem_at_key stb_keys_Some)
  have put: "stbds_hmput_key E gs (Some x) key HM_STRING = Some (x\<lparr>sa_temp := int i, sa_table := Some t'\<rparr>, gs)"
    using w(1) assms(2,3) key by (auto simp: stbds_hmput_key_def put_index_def key_hash_def Let_def t'_def)
  have temp: "temp_key t' = (if p mod 8 < start mod 8 then temp_key t else Some key)" using w(2) by (simp add: t'_def)
  show ?thesis
  proof (cases "temp_key t'")
    case None
    then show ?thesis by (simp add: stbds_shputs_def put temp [symmetric])
  next
    case (Some k)
    define y where "y = x\<lparr>sa_elems := (sa_elems x)[Suc i := (k, v)], sa_temp := int i, sa_table := Some t'\<rparr>"
    have n: "nat (int i + 1) = Suc i" by simp
    have "stbds_shputs E gs (Some x) (key, v) = Some (y, gs)"
      by (simp add: stbds_shputs_def put Some y_def n)
    moreover have keys: "stb_keys (Some y) = (stb_keys (Some x))[i := k]"
      by (cases "sa_elems x") (simp_all add: y_def stb_keys_Some keys_of_def map_update)
    moreover have "stb_map (Some y) key = None" if "k \<noteq> key"
    proof -
      have "distinct (stb_keys (Some x))" using assms(1) by (simp add: stb_ok_def stb_keys_Some)
      then have "key \<notin> set (stb_keys (Some y))"
        unfolding keys using that assms(4,5) by (auto simp: set_update_distinct)
      then show ?thesis using stb_map_dom [of "Some y"] by auto
    qed
    ultimately show ?thesis unfolding temp [symmetric] Some by (auto simp: y_def)
  qed
qed

text \<open>Keys 7 and 15 share the last slot of the first bucket as their start, so that 15 is found in the second
  loop; after a call with 7 it is overwritten by 7.\<close>

theorem stb_shputs_loses_key_witness:
  "\<exists>x y gs gs'. sb_run stb_example HM_STRING 0 [Sb_insert 7, Sb_insert 15, Sb_insert 7] (1, None) = Some (gs, Some x) \<and>
    stbds_shputs stb_example gs (Some x) (15, 4) = Some (y, gs') \<and> stb_keys (Some y) = [7, 7] \<and> stb_map (Some y) 15 = None"
proof -
  have "(case sb_run stb_example HM_STRING 0 [Sb_insert 7, Sb_insert 15, Sb_insert 7] (1, None) of
      Some (gs, Some x) \<Rightarrow> map_option (\<lambda>t. (stb_keys (Some x), temp_key t, used_count t, used_count_threshold t, slot_count t, index_at t 0 0)) (sa_table x)
    | _ \<Rightarrow> None) = Some ([7, 15], Some 7, 2, 7, 8, 1)"
    by code_simp
  then obtain gs x t where r: "sb_run stb_example HM_STRING 0 [Sb_insert 7, Sb_insert 15, Sb_insert 7] (1, None) = Some (gs, Some x)"
    "sa_table x = Some t" "stb_keys (Some x) = [7, 15]" "temp_key t = Some 7" "used_count t = 2" "used_count_threshold t = 7"
    "slot_count t = 8" "index_at t 0 0 = 1" by (auto split: option.splits prod.splits)
  have ok: "stb_ok stb_example (Some x)" using sb_run_result [OF _ r(1)] by (simp add: stb_ok_def)
  have start: "stbds_probe_position (stored_hash (sb_hash stb_example 15 (hi_seed t))) 8 mod 8 = 7"
    by (simp add: stb_example_def stb_env_of_def) code_simp
  have pre: "used_count t < used_count_threshold t" "1 < length (stb_keys (Some x))" "stb_keys (Some x) ! 1 = 15" "0 < slot_count t"
    "index_at t (0 div 8) (0 mod 8) = int 1" using r by simp_all
  from stb_shputs_loses_key [OF ok r(2) pre, of gs 4] show ?thesis using r start by auto
qed

text \<open>The strings of an arena never overlap: for requests of any lengths, each with the address of a block that the
  allocator could give it, every string lies in the blocks of the arena, outside the part that is still
  free, and no two strings share a byte.\<close>

theorem stb_arena_strings_disjoint:
  assumes "\<forall>r \<in> set rs. 0 < snd r" "distinct (map fst rs)" "arena_run rs stb_arena_zero = (a, ps)"
  shows "length ps = length rs \<and> (\<forall>p \<in> set ps. place_bytes p \<subseteq> arena_bytes a - arena_free a) \<and>
    (\<forall>i < length ps. \<forall>j < i. place_bytes (ps ! i) \<inter> place_bytes (ps ! j) = {})"
proof -
  have ok: "arena_ok stb_arena_zero" "fst ` set rs \<inter> fst ` set (ar_storage stb_arena_zero) = {}"
    by (simp_all add: arena_ok_def stb_arena_zero_def)
  from arena_run_result [OF ok(1) assms(1,2) ok(2) assms(3)] show ?thesis by blast
qed

theorem stb_arena_strings_disjoint_witness:
  "\<exists>a ps. arena_run [(10, 300), (11, 300), (12, 600), (13, 5)] stb_arena_zero = (a, ps) \<and> length ps = 4 \<and>
    place_bytes (ps ! 3) \<inter> place_bytes (ps ! 0) = {}"
proof -
  obtain a ps where r: "arena_run [(10, 300), (11, 300), (12, 600), (13, 5)] stb_arena_zero = (a, ps)" by fastforce
  from stb_arena_strings_disjoint [OF _ _ r] have "length ps = 4" "\<forall>i < length ps. \<forall>j < i. place_bytes (ps ! i) \<inter> place_bytes (ps ! j) = {}"
    by simp_all
  then show ?thesis using r by simp
qed

end
