(* ===== verification/Ccmap.thy ===== *)
theory Ccmap
  imports Verstable
begin

text \<open>
  The map of CC, \<open>src/shims/cc_lib_map/cc.h\<close>: Verstable's algorithm with a single allocation for header,
  buckets and metadata, pointers to elements as iterators, and destructors for keys and elements. \<open>hf\<close> is
  the hash function and \<open>eq\<close> the equality the API macros select for a map; the maximum load is the 0.875
  of the shim. Pointers into the buckets are indices. A result \<open>None\<close> of an operation as a whole means that
  the C code does not return. The allocator \<open>mem\<close> is described as for Verstable.
\<close>

section \<open>Layout of a bucket\<close>

text \<open>Elements come first, then padding to the alignment of the keys, the key, and padding to the larger alignment.\<close>

definition CC_PADDING :: "u64 \<Rightarrow> u64 \<Rightarrow> u64" where
  "CC_PADDING sz align = (NOT sz + 1) AND (align - 1)"

definition CC_MAP_EL_PADDING :: "u64 \<Rightarrow> u64 \<Rightarrow> u64" where
  "CC_MAP_EL_PADDING el_size key_align = CC_PADDING el_size key_align"

definition CC_MAP_KEY_PADDING :: "u64 \<Rightarrow> u64 \<Rightarrow> u64 \<Rightarrow> u64 \<Rightarrow> u64" where
  "CC_MAP_KEY_PADDING el_size el_align key_size key_align =
    CC_PADDING (el_size + CC_MAP_EL_PADDING el_size key_align + key_size)
      (if el_align > key_align then el_align else key_align)"

text \<open>\<open>cc_layout\<close> for the container id \<open>CC_MAP\<close>.\<close>

definition cc_layout :: "u64 \<Rightarrow> u64 \<Rightarrow> u64 \<Rightarrow> u64 \<Rightarrow> u64" where
  "cc_layout el_size el_align key_size key_align =
    key_size OR push_bit 32 (CC_MAP_EL_PADDING el_size key_align) OR
    push_bit 48 (CC_MAP_KEY_PADDING el_size el_align key_size key_align)"

definition CC_KEY_SIZE :: "u64 \<Rightarrow> u32" where
  "CC_KEY_SIZE layout = ucast layout"

definition CC_KEY_OFFSET :: "u64 \<Rightarrow> u64 \<Rightarrow> u64" where
  "CC_KEY_OFFSET el_size layout = el_size + ucast (ucast (drop_bit 32 layout) :: u16)"

definition CC_BUCKET_SIZE :: "u64 \<Rightarrow> u64 \<Rightarrow> u64" where
  "CC_BUCKET_SIZE el_size layout =
    CC_KEY_OFFSET el_size layout + ucast (ucast layout :: u32) + ucast (ucast (drop_bit 48 layout) :: u16)"

text \<open>
  One allocation holds the header (three fields of eight bytes, aligned to the 16 of \<open>max_align_t\<close>), the buckets and
  the metadata; a bucket's address is an offset from the handle.
\<close>

definition CC_MAP_HDR_SIZE :: u64 where "CC_MAP_HDR_SIZE = 32"

definition cc_map_el_offset :: "u64 \<Rightarrow> u64 \<Rightarrow> u64 \<Rightarrow> u64" where
  "cc_map_el_offset bucket el_size layout = CC_MAP_HDR_SIZE + CC_BUCKET_SIZE el_size layout * bucket"

text \<open>The offset of the metadata and the size of the allocation.\<close>

definition cc_map_allocation_details :: "u64 \<Rightarrow> u64 \<Rightarrow> u64 \<Rightarrow> u64 \<times> u64" where
  "cc_map_allocation_details cap el_size layout =
    (let buckets_size = CC_BUCKET_SIZE el_size layout * cap;
         metadata_offset = CC_MAP_HDR_SIZE + buckets_size + CC_PADDING buckets_size 2
     in (metadata_offset, metadata_offset + 2 * (cap + 4)))"

section \<open>Metadata\<close>

definition CC_MAP_EMPTY :: u16 where "CC_MAP_EMPTY = 0x0000"
definition CC_MAP_HASH_FRAG_MASK :: u16 where "CC_MAP_HASH_FRAG_MASK = 0xF000"
definition CC_MAP_IN_HOME_BUCKET_MASK :: u16 where "CC_MAP_IN_HOME_BUCKET_MASK = 0x0800"
definition CC_MAP_DISPLACEMENT_MASK :: u16 where "CC_MAP_DISPLACEMENT_MASK = 0x07FF"
definition CC_MAP_MIN_NONZERO_BUCKET_COUNT :: nat where "CC_MAP_MIN_NONZERO_BUCKET_COUNT = 8"

definition cc_hash_frag :: "u64 \<Rightarrow> u16" where
  "cc_hash_frag hash = ucast (drop_bit ((8 - 2) * 8) hash AND ucast CC_MAP_HASH_FRAG_MASK)"

definition cc_quadratic :: "nat \<Rightarrow> nat" where
  "cc_quadratic displacement = (displacement * displacement + displacement) div 2"

definition cc_disp :: "u16 \<Rightarrow> nat" where
  "cc_disp md = unat (md AND CC_MAP_DISPLACEMENT_MASK)"

definition cc_set_disp :: "u16 \<Rightarrow> u16 \<Rightarrow> u16" where
  "cc_set_disp md disp = (md AND NOT CC_MAP_DISPLACEMENT_MASK) OR disp"

section \<open>The first and the last nonzero metadatum of four\<close>

definition cc_first_nonzero_uint16 :: "u64 \<Rightarrow> nat" where
  "cc_first_nonzero_uint16 a = ctz_from 64 a 0 div 16"

text \<open>\<open>__builtin_clzll\<close> of a nonzero word, by testing bits downwards.\<close>

fun clz_from :: "nat \<Rightarrow> u64 \<Rightarrow> nat \<Rightarrow> nat" where
  "clz_from 0 val i = i"
| "clz_from (Suc fuel) val i = (if bit val (63 - i) then i else clz_from fuel val (i + 1))"

definition cc_last_nonzero_uint16 :: "u64 \<Rightarrow> nat" where
  "cc_last_nonzero_uint16 a = clz_from 64 a 0 div 16"

text \<open>The versions without intrinsics, on a little-endian machine.\<close>

definition cc_first_nonzero_portable :: "u64 \<Rightarrow> nat" where
  "cc_first_nonzero_portable a =
    (let result = 0;
         half = (ucast a :: u32);
         result = (if half = 0 then result + 2 else result);
         quarter = (ucast (drop_bit (16 * result) a) :: u16)
     in if quarter = 0 then result + 1 else result)"

definition cc_last_nonzero_portable :: "u64 \<Rightarrow> nat" where
  "cc_last_nonzero_portable a =
    (let result = 3;
         half = (ucast (drop_bit 32 a) :: u32);
         result = (if half = 0 then result - 2 else result);
         quarter = (ucast (drop_bit (16 * result) a) :: u16);
         result = (if quarter = 0 then result - 1 else result)
     in 3 - result)"

section \<open>The map\<close>

text \<open>
  The placeholder of a map without buckets has the mask 0 and a single empty metadatum. Otherwise
  \<open>cc_metadata\<close> has \<open>cap + 4\<close> elements, the first after the buckets being the iteration stopper.
\<close>

record ('k, 'v) cc =
  cc_count :: nat
  cap_mask :: nat
  cc_buckets :: "('k \<times> 'v) list"
  cc_metadata :: "u16 list"

text \<open>\<open>NULL\<close>, the end of backward iteration (the container handle), or the address of a bucket.\<close>

datatype cc_itr = Cc_Null | Cc_R_End | Cc_El nat

text \<open>
  A destructor is a null pointer or a function of the address of a key (\<open>Inl\<close>) or of an element (\<open>Inr\<close>), whose
  effect is an event; operations return the events in their order.
\<close>

type_synonym ('k, 'v, 'e) cc_dtor = "(('k + 'v) \<Rightarrow> 'e) option"

definition cc_destroy :: "('k, 'v, 'e) cc_dtor \<Rightarrow> 'k + 'v \<Rightarrow> 'e list" where
  "cc_destroy dtor p = (case dtor of None \<Rightarrow> [] | Some f \<Rightarrow> [f p])"

definition cc_map_placeholder :: "('k, 'v) cc" where
  "cc_map_placeholder = \<lparr>cc_count = 0, cap_mask = 0, cc_buckets = [], cc_metadata = [CC_MAP_EMPTY]\<rparr>"

definition cc_map_size :: "('k, 'v) cc \<Rightarrow> nat" where
  "cc_map_size cntr = cc_count cntr"

definition cc_map_cap :: "('k, 'v) cc \<Rightarrow> nat" where
  "cc_map_cap cntr = cap_mask cntr + (if cap_mask cntr \<noteq> 0 then 1 else 0)"

definition cc_map_is_placeholder :: "('k, 'v) cc \<Rightarrow> bool" where
  "cc_map_is_placeholder cntr \<longleftrightarrow> cap_mask cntr = 0"

definition cc_map_key :: "('k, 'v) cc \<Rightarrow> nat \<Rightarrow> 'k" where
  "cc_map_key cntr bucket = fst (cc_buckets cntr ! bucket)"

definition cc_map_el :: "('k, 'v) cc \<Rightarrow> nat \<Rightarrow> 'v" where
  "cc_map_el cntr bucket = snd (cc_buckets cntr ! bucket)"

text \<open>
  \<open>while( n > cap * max_load ) cap *= 2\<close>, where \<open>cap\<close> wraps around. The fuel is enough for \<open>n\<close> up to \<open>2 ^ 60\<close>;
  for much larger \<open>n\<close> no fuel is (lemma \<open>cc_min_cap_huge\<close>).
\<close>

fun cc_min_cap_loop :: "nat \<Rightarrow> nat \<Rightarrow> nat \<Rightarrow> nat option" where
  "cc_min_cap_loop 0 n cap = None"
| "cc_min_cap_loop (Suc fuel) n cap = (if 7 * cap < 8 * n then cc_min_cap_loop fuel n (wrap64 (cap * 2)) else Some cap)"

definition cc_map_min_cap_for_n_els :: "nat \<Rightarrow> nat option" where
  "cc_map_min_cap_for_n_els n = (if n = 0 then Some 0 else cc_min_cap_loop 64 n CC_MAP_MIN_NONZERO_BUCKET_COUNT)"

definition cc_home :: "('k \<Rightarrow> u64) \<Rightarrow> ('k, 'v) cc \<Rightarrow> 'k \<Rightarrow> nat" where
  "cc_home hf cntr key = unat (hf key AND of_nat (cap_mask cntr))"

text \<open>\<open>( home_bucket + cc_quadratic( displacement ) ) & cap_mask\<close>\<close>

definition cc_position :: "('k, 'v) cc \<Rightarrow> nat \<Rightarrow> nat \<Rightarrow> nat" where
  "cc_position cntr home displacement = (home + cc_quadratic displacement) AND cap_mask cntr"

text \<open>\<open>size + 1 > max_load * cap\<close>; exact for counts below \<open>2 ^ 50\<close>.\<close>

definition cc_overloaded :: "('k, 'v) cc \<Rightarrow> bool" where
  "cc_overloaded cntr \<longleftrightarrow> 7 * cc_map_cap cntr < 8 * (cc_count cntr + 1)"

section \<open>Chains\<close>

fun cc_find_first_empty_loop :: "nat \<Rightarrow> ('k, 'v) cc \<Rightarrow> nat \<Rightarrow> nat \<Rightarrow> nat \<Rightarrow> (nat \<times> nat) option" where
  "cc_find_first_empty_loop 0 cntr home displacement linear = None"
| "cc_find_first_empty_loop (Suc fuel) cntr home displacement linear =
    (let vacant = (home + linear) AND cap_mask cntr
     in if cc_metadata cntr ! vacant = CC_MAP_EMPTY then Some (vacant, displacement)
        else (let displacement = displacement + 1
              in if displacement = unat CC_MAP_DISPLACEMENT_MASK then None
                 else cc_find_first_empty_loop fuel cntr home displacement (linear + displacement)))"

text \<open>The empty bucket and its displacement; \<open>None\<close> is the result \<open>false\<close>.\<close>

definition cc_map_find_first_empty :: "('k, 'v) cc \<Rightarrow> nat \<Rightarrow> (nat \<times> nat) option" where
  "cc_map_find_first_empty cntr home = cc_find_first_empty_loop (unat CC_MAP_DISPLACEMENT_MASK) cntr home 1 1"

fun cc_map_find_insert_location_in_chain :: "nat \<Rightarrow> ('k, 'v) cc \<Rightarrow> nat \<Rightarrow> nat \<Rightarrow> nat \<Rightarrow> nat option" where
  "cc_map_find_insert_location_in_chain 0 cntr home displacement_to_empty candidate = None"
| "cc_map_find_insert_location_in_chain (Suc fuel) cntr home displacement_to_empty candidate =
    (let displacement = cc_disp (cc_metadata cntr ! candidate)
     in if displacement > displacement_to_empty then Some candidate
        else cc_map_find_insert_location_in_chain fuel cntr home displacement_to_empty
               (cc_position cntr home displacement))"

text \<open>The loop that looks for the previous key in the chain of \<open>bucket\<close>.\<close>

fun cc_find_prev :: "nat \<Rightarrow> ('k, 'v) cc \<Rightarrow> nat \<Rightarrow> nat \<Rightarrow> nat \<Rightarrow> nat option" where
  "cc_find_prev 0 cntr home bucket prev = None"
| "cc_find_prev (Suc fuel) cntr home bucket prev =
    (let next = cc_position cntr home (cc_disp (cc_metadata cntr ! prev))
     in if next = bucket then Some prev else cc_find_prev fuel cntr home bucket next)"

text \<open>A chain has fewer keys than there are displacements, so its loops get that much fuel.\<close>

definition cc_fuel :: nat where
  "cc_fuel = unat CC_MAP_DISPLACEMENT_MASK + 1"

definition cc_map_evict :: "('k \<Rightarrow> u64) \<Rightarrow> ('k, 'v) cc \<Rightarrow> nat \<Rightarrow> (('k, 'v) cc \<times> bool) option" where
  "cc_map_evict hf cntr bucket =
    (let home = cc_home hf cntr (cc_map_key cntr bucket)
     in case cc_find_prev cc_fuel cntr home bucket home of
          None \<Rightarrow> None
        | Some prev \<Rightarrow>
            (let cntr = cntr\<lparr>cc_metadata := (cc_metadata cntr)[prev :=
                   cc_set_disp (cc_metadata cntr ! prev) (cc_metadata cntr ! bucket AND CC_MAP_DISPLACEMENT_MASK)]\<rparr>
             in case cc_map_find_first_empty cntr home of
                  None \<Rightarrow> Some (cntr, False)
                | Some (vacant, displacement) \<Rightarrow>
                    (case cc_map_find_insert_location_in_chain cc_fuel cntr home displacement home of
                       None \<Rightarrow> None
                     | Some prev \<Rightarrow>
                         (let cntr = cntr\<lparr>cc_buckets := (cc_buckets cntr)[vacant := cc_buckets cntr ! bucket]\<rparr>;
                              cntr = cntr\<lparr>cc_metadata := (cc_metadata cntr)[vacant :=
                                (cc_metadata cntr ! bucket AND CC_MAP_HASH_FRAG_MASK) OR
                                (cc_metadata cntr ! prev AND CC_MAP_DISPLACEMENT_MASK)]\<rparr>;
                              cntr = cntr\<lparr>cc_metadata := (cc_metadata cntr)[prev :=
                                cc_set_disp (cc_metadata cntr ! prev) (of_nat displacement)]\<rparr>
                          in Some (cntr, True)))))"

section \<open>Lookup\<close>

text \<open>The traversal of a chain that \<open>insert_raw\<close>, \<open>get\<close> and \<open>erase\<close> share; \<open>Some None\<close>: not found.\<close>

fun cc_search_chain :: "nat \<Rightarrow> ('k \<Rightarrow> 'k \<Rightarrow> bool) \<Rightarrow> ('k, 'v) cc \<Rightarrow> 'k \<Rightarrow> u16 \<Rightarrow> nat \<Rightarrow> nat \<Rightarrow> nat option option" where
  "cc_search_chain 0 eq cntr key hashfrag home bucket = None"
| "cc_search_chain (Suc fuel) eq cntr key hashfrag home bucket =
    (if cc_metadata cntr ! bucket AND CC_MAP_HASH_FRAG_MASK = hashfrag \<and> eq (cc_map_key cntr bucket) key
     then Some (Some bucket)
     else (let displacement = cc_disp (cc_metadata cntr ! bucket)
           in if displacement = unat CC_MAP_DISPLACEMENT_MASK then Some None
              else cc_search_chain fuel eq cntr key hashfrag home (cc_position cntr home displacement)))"

definition cc_map_get :: "('k \<Rightarrow> u64) \<Rightarrow> ('k \<Rightarrow> 'k \<Rightarrow> bool) \<Rightarrow> ('k, 'v) cc \<Rightarrow> 'k \<Rightarrow> cc_itr option" where
  "cc_map_get hf eq cntr key =
    (let home = cc_home hf cntr key
     in if cc_metadata cntr ! home AND CC_MAP_IN_HOME_BUCKET_MASK = 0 then Some Cc_Null
        else map_option (\<lambda>found. case found of None \<Rightarrow> Cc_Null | Some bucket \<Rightarrow> Cc_El bucket)
               (cc_search_chain cc_fuel eq cntr key (cc_hash_frag (hf key)) home home))"

section \<open>Insertion\<close>

text \<open>A key and its element at the start of a chain, and linked into the chain of \<open>home\<close>.\<close>

definition cc_put_home :: "('k, 'v) cc \<Rightarrow> nat \<Rightarrow> u16 \<Rightarrow> 'k \<Rightarrow> 'v \<Rightarrow> ('k, 'v) cc" where
  "cc_put_home cntr home hashfrag key el =
    cntr\<lparr>cc_buckets := (cc_buckets cntr)[home := (key, el)],
         cc_metadata := (cc_metadata cntr)[home := hashfrag OR CC_MAP_IN_HOME_BUCKET_MASK OR CC_MAP_DISPLACEMENT_MASK],
         cc_count := cc_count cntr + 1\<rparr>"

definition cc_put_chain :: "('k, 'v) cc \<Rightarrow> nat \<Rightarrow> nat \<Rightarrow> nat \<Rightarrow> u16 \<Rightarrow> 'k \<Rightarrow> 'v \<Rightarrow> ('k, 'v) cc" where
  "cc_put_chain cntr vacant displacement prev hashfrag key el =
    (let cntr = cntr\<lparr>cc_buckets := (cc_buckets cntr)[vacant := (key, el)]\<rparr>;
         cntr = cntr\<lparr>cc_metadata := (cc_metadata cntr)[vacant :=
           hashfrag OR (cc_metadata cntr ! prev AND CC_MAP_DISPLACEMENT_MASK)]\<rparr>;
         cntr = cntr\<lparr>cc_metadata := (cc_metadata cntr)[prev :=
           cc_set_disp (cc_metadata cntr ! prev) (of_nat displacement)]\<rparr>
     in cntr\<lparr>cc_count := cc_count cntr + 1\<rparr>)"

text \<open>The two ends that \<open>insert_raw\<close> and \<open>reinsert\<close> share: into the home bucket, or into an empty one of the chain.\<close>

definition cc_take_home :: "('k \<Rightarrow> u64) \<Rightarrow> ('k, 'v) cc \<Rightarrow> nat \<Rightarrow> 'k \<Rightarrow> 'v \<Rightarrow> (('k, 'v) cc \<times> cc_itr) option" where
  "cc_take_home hf cntr home key el =
    (case (if cc_metadata cntr ! home \<noteq> CC_MAP_EMPTY then cc_map_evict hf cntr home else Some (cntr, True)) of
       None \<Rightarrow> None
     | Some (cntr, vacated) \<Rightarrow>
         if \<not> vacated then Some (cntr, Cc_Null)
         else Some (cc_put_home cntr home (cc_hash_frag (hf key)) key el, Cc_El home))"

definition cc_take_empty :: "('k \<Rightarrow> u64) \<Rightarrow> ('k, 'v) cc \<Rightarrow> nat \<Rightarrow> 'k \<Rightarrow> 'v \<Rightarrow> (('k, 'v) cc \<times> cc_itr) option" where
  "cc_take_empty hf cntr home key el =
    (case cc_map_find_first_empty cntr home of
       None \<Rightarrow> Some (cntr, Cc_Null)
     | Some (vacant, displacement) \<Rightarrow>
         (case cc_map_find_insert_location_in_chain cc_fuel cntr home displacement home of
            None \<Rightarrow> None
          | Some prev \<Rightarrow>
              Some (cc_put_chain cntr vacant displacement prev (cc_hash_frag (hf key)) key el, Cc_El vacant)))"

definition cc_map_insert_raw :: "('k \<Rightarrow> u64) \<Rightarrow> ('k \<Rightarrow> 'k \<Rightarrow> bool) \<Rightarrow> ('k, 'v, 'e) cc_dtor \<Rightarrow> ('k, 'v, 'e) cc_dtor
    \<Rightarrow> ('k, 'v) cc \<Rightarrow> 'v \<Rightarrow> 'k \<Rightarrow> bool \<Rightarrow> (('k, 'v) cc \<times> cc_itr \<times> 'e list) option" where
  "cc_map_insert_raw hf eq el_dtor key_dtor cntr el key replace =
    (let home = cc_home hf cntr key
     in if cc_metadata cntr ! home AND CC_MAP_IN_HOME_BUCKET_MASK = 0
        then (if cc_overloaded cntr then Some (cntr, Cc_Null, [])
              else map_option (\<lambda>(cntr, itr). (cntr, itr, [])) (cc_take_home hf cntr home key el))
        else (case cc_search_chain cc_fuel eq cntr key (cc_hash_frag (hf key)) home home of
                None \<Rightarrow> None
              | Some (Some bucket) \<Rightarrow>
                  (if replace
                   then Some (cntr\<lparr>cc_buckets := (cc_buckets cntr)[bucket := (key, el)]\<rparr>, Cc_El bucket,
                          cc_destroy key_dtor (Inl (cc_map_key cntr bucket)) @
                          cc_destroy el_dtor (Inr (cc_map_el cntr bucket)))
                   else Some (cntr, Cc_El bucket, []))
              | Some None \<Rightarrow>
                  if cc_overloaded cntr then Some (cntr, Cc_Null, [])
                  else map_option (\<lambda>(cntr, itr). (cntr, itr, [])) (cc_take_empty hf cntr home key el)))"

text \<open>Without a load-factor check and without a search for the key.\<close>

definition cc_map_reinsert :: "('k \<Rightarrow> u64) \<Rightarrow> ('k, 'v) cc \<Rightarrow> 'v \<Rightarrow> 'k \<Rightarrow> (('k, 'v) cc \<times> cc_itr) option" where
  "cc_map_reinsert hf cntr el key =
    (let home = cc_home hf cntr key
     in if cc_metadata cntr ! home AND CC_MAP_IN_HOME_BUCKET_MASK = 0 then cc_take_home hf cntr home key el
        else cc_take_empty hf cntr home key el)"

text \<open>The \<open>for\<close> loop of \<open>make_rehash\<close>: \<open>c\<close> buckets of the old map from \<open>i\<close> on go into \<open>new\<close>.\<close>

fun cc_reinsert_all :: "nat \<Rightarrow> ('k \<Rightarrow> u64) \<Rightarrow> ('k, 'v) cc \<Rightarrow> nat \<Rightarrow> ('k, 'v) cc \<Rightarrow> ('k, 'v) cc option" where
  "cc_reinsert_all 0 hf cntr i new = Some new"
| "cc_reinsert_all (Suc c) hf cntr i new =
    (if cc_metadata cntr ! i \<noteq> CC_MAP_EMPTY
     then (case cc_map_reinsert hf new (cc_map_el cntr i) (cc_map_key cntr i) of
             None \<Rightarrow> None
           | Some (new, itr) \<Rightarrow>
               if itr = Cc_Null then Some new else cc_reinsert_all c hf cntr (i + 1) new)
     else cc_reinsert_all c hf cntr (i + 1) new)"

definition cc_new_map :: "('k, 'v) vt_mem \<Rightarrow> nat \<Rightarrow> ('k, 'v) cc" where
  "cc_new_map mem cap =
    \<lparr>cc_count = 0, cap_mask = cap - 1, cc_buckets = replicate cap (fresh_bucket mem),
     cc_metadata = (replicate (cap + 4) 0x00)[cap := 0x01]\<rparr>"

text \<open>Each retry doubles the capacity, so no more than 64 of them fit in \<open>size_t\<close>; \<open>Some None\<close> is the result \<open>NULL\<close>.\<close>

fun cc_map_make_rehash :: "nat \<Rightarrow> ('k \<Rightarrow> u64) \<Rightarrow> ('k, 'v) vt_mem \<Rightarrow> ('k, 'v) cc \<Rightarrow> nat \<Rightarrow> ('k, 'v) cc option option" where
  "cc_map_make_rehash 0 hf mem cntr cap = None"
| "cc_map_make_rehash (Suc fuel) hf mem cntr cap =
    (if \<not> alloc_ok mem cap then Some None
     else (case cc_reinsert_all (cc_map_cap cntr) hf cntr 0 (cc_new_map mem cap) of
             None \<Rightarrow> None
           | Some new_cntr \<Rightarrow>
               if cc_count new_cntr < cc_map_size cntr then cc_map_make_rehash fuel hf mem cntr (cap * 2)
               else Some (Some new_cntr)))"

definition cc_map_reserve :: "('k \<Rightarrow> u64) \<Rightarrow> ('k, 'v) vt_mem \<Rightarrow> ('k, 'v) cc \<Rightarrow> nat \<Rightarrow> (('k, 'v) cc \<times> bool) option" where
  "cc_map_reserve hf mem cntr n =
    (case cc_map_min_cap_for_n_els n of
       None \<Rightarrow> None
     | Some cap \<Rightarrow>
         if cc_map_cap cntr \<ge> cap then Some (cntr, True)
         else map_option (\<lambda>new_cntr. case new_cntr of None \<Rightarrow> (cntr, False) | Some new_cntr \<Rightarrow> (new_cntr, True))
                (cc_map_make_rehash 64 hf mem cntr cap))"

fun cc_insert_loop :: "nat \<Rightarrow> ('k \<Rightarrow> u64) \<Rightarrow> ('k \<Rightarrow> 'k \<Rightarrow> bool) \<Rightarrow> ('k, 'v, 'e) cc_dtor \<Rightarrow> ('k, 'v, 'e) cc_dtor
    \<Rightarrow> ('k, 'v) vt_mem \<Rightarrow> ('k, 'v) cc \<Rightarrow> 'v \<Rightarrow> 'k \<Rightarrow> bool \<Rightarrow> (('k, 'v) cc \<times> cc_itr \<times> 'e list) option" where
  "cc_insert_loop 0 hf eq el_dtor key_dtor mem cntr el key replace = None"
| "cc_insert_loop (Suc fuel) hf eq el_dtor key_dtor mem cntr el key replace =
    (case cc_map_insert_raw hf eq el_dtor key_dtor cntr el key replace of
       None \<Rightarrow> None
     | Some (cntr, itr, events) \<Rightarrow>
         if itr \<noteq> Cc_Null then Some (cntr, itr, events)
         else (case cc_map_make_rehash 64 hf mem cntr
                      (if cap_mask cntr \<noteq> 0 then cc_map_cap cntr * 2 else CC_MAP_MIN_NONZERO_BUCKET_COUNT) of
                 None \<Rightarrow> None
               | Some None \<Rightarrow> Some (cntr, Cc_Null, events)
               | Some (Some new_cntr) \<Rightarrow> cc_insert_loop fuel hf eq el_dtor key_dtor mem new_cntr el key replace))"

definition cc_map_insert :: "('k \<Rightarrow> u64) \<Rightarrow> ('k \<Rightarrow> 'k \<Rightarrow> bool) \<Rightarrow> ('k, 'v, 'e) cc_dtor \<Rightarrow> ('k, 'v, 'e) cc_dtor
    \<Rightarrow> ('k, 'v) vt_mem \<Rightarrow> ('k, 'v) cc \<Rightarrow> 'v \<Rightarrow> 'k \<Rightarrow> bool \<Rightarrow> (('k, 'v) cc \<times> cc_itr \<times> 'e list) option" where
  "cc_map_insert hf eq el_dtor key_dtor mem cntr el key replace =
    cc_insert_loop 64 hf eq el_dtor key_dtor mem cntr el key replace"

section \<open>Iteration\<close>

definition cc_map_end :: "('k, 'v) cc \<Rightarrow> cc_itr" where
  "cc_map_end cntr = Cc_El (cc_map_cap cntr)"

definition cc_map_r_end :: cc_itr where
  "cc_map_r_end = Cc_R_End"

text \<open>\<open>memcpy\<close> of four metadata into a word, on a little-endian machine.\<close>

definition cc_read4 :: "u16 list \<Rightarrow> nat \<Rightarrow> u64" where
  "cc_read4 md i =
    ucast (md ! i) OR push_bit 16 (ucast (md ! (i + 1))) OR push_bit 32 (ucast (md ! (i + 2))) OR
    push_bit 48 (ucast (md ! (i + 3)))"

fun cc_map_leap_forward :: "nat \<Rightarrow> ('k, 'v) cc \<Rightarrow> nat \<Rightarrow> cc_itr option" where
  "cc_map_leap_forward 0 cntr bucket = None"
| "cc_map_leap_forward (Suc fuel) cntr bucket =
    (let md = cc_read4 (cc_metadata cntr) bucket
     in if md \<noteq> 0 then Some (Cc_El (bucket + cc_first_nonzero_uint16 md))
        else cc_map_leap_forward fuel cntr (bucket + 4))"

text \<open>\<open>while( bucket-- ) if( metadata[ bucket ] ) return\<close>\<close>

fun cc_step_down :: "('k, 'v) cc \<Rightarrow> nat \<Rightarrow> cc_itr" where
  "cc_step_down cntr 0 = cc_map_r_end"
| "cc_step_down cntr (Suc bucket) = (if cc_metadata cntr ! bucket \<noteq> 0 then Cc_El bucket else cc_step_down cntr bucket)"

fun cc_map_leap_backward :: "('k, 'v) cc \<Rightarrow> nat \<Rightarrow> cc_itr" where
  "cc_map_leap_backward cntr bucket =
    (if bucket < 4 then cc_step_down cntr bucket
     else (let md = cc_read4 (cc_metadata cntr) (bucket - 4)
           in if md \<noteq> 0 then Cc_El (bucket - 1 - cc_last_nonzero_uint16 md)
              else cc_map_leap_backward cntr (bucket - 4)))"

declare cc_map_leap_backward.simps [simp del]

definition cc_map_first :: "('k, 'v) cc \<Rightarrow> cc_itr option" where
  "cc_map_first cntr =
    (if cap_mask cntr = 0 then Some (Cc_El 0) else cc_map_leap_forward (cc_map_cap cntr) cntr 0)"

text \<open>An iterator is the address of a bucket or, for \<open>prev\<close>, the end; \<open>None\<close> for others, for which C computes no bucket.\<close>

definition cc_map_last :: "('k, 'v) cc \<Rightarrow> cc_itr option" where
  "cc_map_last cntr = (case cc_map_end cntr of Cc_El bucket \<Rightarrow> Some (cc_map_leap_backward cntr bucket) | _ \<Rightarrow> None)"

definition cc_map_prev :: "('k, 'v) cc \<Rightarrow> cc_itr \<Rightarrow> cc_itr option" where
  "cc_map_prev cntr itr = (case itr of Cc_El bucket \<Rightarrow> Some (cc_map_leap_backward cntr bucket) | _ \<Rightarrow> None)"

definition cc_map_next :: "('k, 'v) cc \<Rightarrow> cc_itr \<Rightarrow> cc_itr option" where
  "cc_map_next cntr itr =
    (case itr of Cc_El bucket \<Rightarrow> cc_map_leap_forward (cc_map_cap cntr) cntr (bucket + 1) | _ \<Rightarrow> None)"

section \<open>Erasure\<close>

fun cc_find_last :: "nat \<Rightarrow> ('k, 'v) cc \<Rightarrow> nat \<Rightarrow> nat \<Rightarrow> (nat \<times> nat) option" where
  "cc_find_last 0 cntr home bucket = None"
| "cc_find_last (Suc fuel) cntr home bucket =
    (let prev = bucket; bucket = cc_position cntr home (cc_disp (cc_metadata cntr ! bucket))
     in if cc_disp (cc_metadata cntr ! bucket) = unat CC_MAP_DISPLACEMENT_MASK then Some (prev, bucket)
        else cc_find_last fuel cntr home bucket)"

text \<open>The destructor calls of an erasure; the home bucket is computed from the key before them.\<close>

definition cc_destroy_el :: "('k, 'v, 'e) cc_dtor \<Rightarrow> ('k, 'v, 'e) cc_dtor \<Rightarrow> ('k, 'v) cc \<Rightarrow> nat \<Rightarrow> 'e list" where
  "cc_destroy_el el_dtor key_dtor cntr bucket =
    cc_destroy el_dtor (Inr (cc_map_el cntr bucket)) @ cc_destroy key_dtor (Inl (cc_map_key cntr bucket))"

text \<open>\<open>home\<close> is \<open>None\<close> for \<open>SIZE_MAX\<close>. The result says whether an iteration has to advance to see the next key.\<close>

definition cc_map_erase_raw :: "('k \<Rightarrow> u64) \<Rightarrow> ('k, 'v, 'e) cc_dtor \<Rightarrow> ('k, 'v, 'e) cc_dtor \<Rightarrow> ('k, 'v) cc \<Rightarrow> nat \<Rightarrow> nat option
    \<Rightarrow> (('k, 'v) cc \<times> bool \<times> 'e list) option" where
  "cc_map_erase_raw hf el_dtor key_dtor cntr b home =
    (let cntr = cntr\<lparr>cc_count := cc_count cntr - 1\<rparr>; md = cc_metadata cntr ! b;
         events = cc_destroy_el el_dtor key_dtor cntr b
     in if md AND CC_MAP_IN_HOME_BUCKET_MASK \<noteq> 0 \<and> md AND CC_MAP_DISPLACEMENT_MASK = CC_MAP_DISPLACEMENT_MASK
        then Some (cntr\<lparr>cc_metadata := (cc_metadata cntr)[b := CC_MAP_EMPTY]\<rparr>, True, events)
        else (let home = (case home of
                            Some h \<Rightarrow> h
                          | None \<Rightarrow> if md AND CC_MAP_IN_HOME_BUCKET_MASK \<noteq> 0 then b
                                    else cc_home hf cntr (cc_map_key cntr b))
              in if md AND CC_MAP_DISPLACEMENT_MASK = CC_MAP_DISPLACEMENT_MASK
                 then (case cc_find_prev cc_fuel cntr home b home of
                         None \<Rightarrow> None
                       | Some prev \<Rightarrow>
                           (let cntr = cntr\<lparr>cc_metadata := (cc_metadata cntr)[prev :=
                                  cc_metadata cntr ! prev OR CC_MAP_DISPLACEMENT_MASK]\<rparr>
                            in Some (cntr\<lparr>cc_metadata := (cc_metadata cntr)[b := CC_MAP_EMPTY]\<rparr>, True, events)))
                 else (case cc_find_last cc_fuel cntr home b of
                         None \<Rightarrow> None
                       | Some (prev, bucket) \<Rightarrow>
                           (let cntr = cntr\<lparr>cc_buckets := (cc_buckets cntr)[b := cc_buckets cntr ! bucket]\<rparr>;
                                cntr = cntr\<lparr>cc_metadata := (cc_metadata cntr)[b :=
                                  (cc_metadata cntr ! b AND NOT CC_MAP_HASH_FRAG_MASK) OR
                                  (cc_metadata cntr ! bucket AND CC_MAP_HASH_FRAG_MASK)]\<rparr>;
                                cntr = cntr\<lparr>cc_metadata := (cc_metadata cntr)[prev :=
                                  cc_metadata cntr ! prev OR CC_MAP_DISPLACEMENT_MASK]\<rparr>;
                                cntr = cntr\<lparr>cc_metadata := (cc_metadata cntr)[bucket := CC_MAP_EMPTY]\<rparr>
                            in Some (cntr, \<not> bucket > b, events)))))"

definition cc_map_erase_itr :: "('k \<Rightarrow> u64) \<Rightarrow> ('k, 'v, 'e) cc_dtor \<Rightarrow> ('k, 'v, 'e) cc_dtor \<Rightarrow> ('k, 'v) cc \<Rightarrow> cc_itr
    \<Rightarrow> (('k, 'v) cc \<times> cc_itr \<times> 'e list) option" where
  "cc_map_erase_itr hf el_dtor key_dtor cntr itr =
    (case itr of
       Cc_El bucket \<Rightarrow>
         (case cc_map_erase_raw hf el_dtor key_dtor cntr bucket None of
            None \<Rightarrow> None
          | Some (cntr, advance, events) \<Rightarrow>
              if advance then map_option (\<lambda>itr. (cntr, itr, events)) (cc_map_next cntr itr)
              else Some (cntr, itr, events))
     | _ \<Rightarrow> None)"

definition cc_map_erase :: "('k \<Rightarrow> u64) \<Rightarrow> ('k \<Rightarrow> 'k \<Rightarrow> bool) \<Rightarrow> ('k, 'v, 'e) cc_dtor \<Rightarrow> ('k, 'v, 'e) cc_dtor
    \<Rightarrow> ('k, 'v) cc \<Rightarrow> 'k \<Rightarrow> (('k, 'v) cc \<times> bool \<times> 'e list) option" where
  "cc_map_erase hf eq el_dtor key_dtor cntr key =
    (let home = cc_home hf cntr key
     in if cc_metadata cntr ! home AND CC_MAP_IN_HOME_BUCKET_MASK = 0 then Some (cntr, False, [])
        else (case cc_search_chain cc_fuel eq cntr key (cc_hash_frag (hf key)) home home of
                None \<Rightarrow> None
              | Some None \<Rightarrow> Some (cntr, False, [])
              | Some (Some bucket) \<Rightarrow>
                  map_option (\<lambda>(cntr, advance, events). (cntr, True, events))
                    (cc_map_erase_raw hf el_dtor key_dtor cntr bucket (Some home))))"

section \<open>The whole map\<close>

definition cc_map_shrink :: "('k \<Rightarrow> u64) \<Rightarrow> ('k, 'v) vt_mem \<Rightarrow> ('k, 'v) cc \<Rightarrow> (('k, 'v) cc \<times> bool) option" where
  "cc_map_shrink hf mem cntr =
    (case cc_map_min_cap_for_n_els (cc_map_size cntr) of
       None \<Rightarrow> None
     | Some cap \<Rightarrow>
         if cap = cc_map_cap cntr then Some (cntr, True)
         else if cap = 0 then Some (cc_map_placeholder, True)
         else map_option (\<lambda>new_cntr. case new_cntr of None \<Rightarrow> (cntr, False) | Some new_cntr \<Rightarrow> (new_cntr, True))
                (cc_map_make_rehash 64 hf mem cntr cap))"

text \<open>The copy, or \<open>None\<close> after a failed allocation.\<close>

definition cc_map_init_clone :: "('k, 'v) vt_mem \<Rightarrow> ('k, 'v) cc \<Rightarrow> ('k, 'v) cc option" where
  "cc_map_init_clone mem src =
    (if cc_map_size src = 0 then Some cc_map_placeholder
     else if \<not> alloc_ok mem (cc_map_cap src) then None
     else Some \<lparr>cc_count = cc_count src, cap_mask = cap_mask src, cc_buckets = cc_buckets src, cc_metadata = cc_metadata src\<rparr>)"

text \<open>The \<open>for\<close> loop of \<open>clear\<close>: \<open>c\<close> buckets from \<open>bucket\<close> on.\<close>

fun cc_clear_loop :: "nat \<Rightarrow> ('k, 'v, 'e) cc_dtor \<Rightarrow> ('k, 'v, 'e) cc_dtor \<Rightarrow> ('k, 'v) cc \<Rightarrow> nat \<Rightarrow> ('k, 'v) cc \<times> 'e list" where
  "cc_clear_loop 0 el_dtor key_dtor cntr bucket = (cntr, [])"
| "cc_clear_loop (Suc c) el_dtor key_dtor cntr bucket =
    (if cc_metadata cntr ! bucket \<noteq> 0
     then (let events = cc_destroy key_dtor (Inl (cc_map_key cntr bucket)) @ cc_destroy el_dtor (Inr (cc_map_el cntr bucket));
               cntr = cntr\<lparr>cc_metadata := (cc_metadata cntr)[bucket := CC_MAP_EMPTY]\<rparr>;
               (cntr, more) = cc_clear_loop c el_dtor key_dtor cntr (bucket + 1)
           in (cntr, events @ more))
     else cc_clear_loop c el_dtor key_dtor cntr (bucket + 1))"

definition cc_map_clear :: "('k, 'v, 'e) cc_dtor \<Rightarrow> ('k, 'v, 'e) cc_dtor \<Rightarrow> ('k, 'v) cc \<Rightarrow> ('k, 'v) cc \<times> 'e list" where
  "cc_map_clear el_dtor key_dtor cntr =
    (if cc_map_size cntr = 0 then (cntr, [])
     else (let (cntr, events) = cc_clear_loop (cc_map_cap cntr) el_dtor key_dtor cntr 0
           in (cntr\<lparr>cc_count := 0\<rparr>, events)))"

text \<open>
  \<open>cleanup\<close> passes the destructors to \<open>clear\<close> in the order key, element. The macro over it makes the
  handle a placeholder again.
\<close>

definition cc_map_cleanup :: "('k, 'v, 'e) cc_dtor \<Rightarrow> ('k, 'v, 'e) cc_dtor \<Rightarrow> ('k, 'v) cc \<Rightarrow> 'e list" where
  "cc_map_cleanup el_dtor key_dtor cntr = snd (cc_map_clear key_dtor el_dtor cntr)"

definition cc_cleanup :: "('k, 'v, 'e) cc_dtor \<Rightarrow> ('k, 'v, 'e) cc_dtor \<Rightarrow> ('k, 'v) cc \<Rightarrow> ('k, 'v) cc \<times> 'e list" where
  "cc_cleanup el_dtor key_dtor cntr = (cc_map_placeholder, cc_map_cleanup el_dtor key_dtor cntr)"

end
