(* ===== verification/Ccmap_Correct.thy ===== *)
theory Ccmap_Correct
  imports Ccmap Verstable_Shim
begin

text \<open>
  Every function of CC's map acts on the header, buckets and metadata as its counterpart in Verstable, under
  the same allocator: \<open>vt_of\<close> reads a CC map as a Verstable table. The insertions of CC's rehash check no load
  factor, so there the simulation needs that the new map has room for all keys, which holds wherever the
  code rehashes.
\<close>

section \<open>The two tables\<close>

definition vt_of :: "('k, 'v) cc \<Rightarrow> ('k, 'v) vt" where
  "vt_of cntr = \<lparr>key_count = cc_count cntr, buckets_mask = cap_mask cntr, buckets = cc_buckets cntr, metadata = cc_metadata cntr\<rparr>"

lemma vt_of_simps [simp]:
  "key_count (vt_of cntr) = cc_count cntr" "buckets_mask (vt_of cntr) = cap_mask cntr"
  "buckets (vt_of cntr) = cc_buckets cntr" "metadata (vt_of cntr) = cc_metadata cntr"
  by (simp_all add: vt_of_def)

lemma vt_of_update [simp]:
  "vt_of (cntr\<lparr>cc_count := c\<rparr>) = (vt_of cntr)\<lparr>key_count := c\<rparr>"
  "vt_of (cntr\<lparr>cc_buckets := b\<rparr>) = (vt_of cntr)\<lparr>buckets := b\<rparr>"
  "vt_of (cntr\<lparr>cc_metadata := m\<rparr>) = (vt_of cntr)\<lparr>metadata := m\<rparr>"
  by (simp_all add: vt_of_def)

lemma vt_of_inj: "vt_of a = vt_of b \<longleftrightarrow> a = b"
  by (cases a, cases b) (simp add: vt_of_def)

lemma cc_constants [simp]:
  "CC_MAP_EMPTY = VT_EMPTY" "CC_MAP_HASH_FRAG_MASK = VT_HASH_FRAG_MASK" "CC_MAP_IN_HOME_BUCKET_MASK = VT_IN_HOME_BUCKET_MASK"
  "CC_MAP_DISPLACEMENT_MASK = VT_DISPLACEMENT_MASK" "CC_MAP_MIN_NONZERO_BUCKET_COUNT = VT_MIN_NONZERO_BUCKET_COUNT"
  by (simp_all add: CC_MAP_EMPTY_def VT_EMPTY_def CC_MAP_HASH_FRAG_MASK_def VT_HASH_FRAG_MASK_def
      CC_MAP_IN_HOME_BUCKET_MASK_def VT_IN_HOME_BUCKET_MASK_def CC_MAP_DISPLACEMENT_MASK_def VT_DISPLACEMENT_MASK_def
      CC_MAP_MIN_NONZERO_BUCKET_COUNT_def VT_MIN_NONZERO_BUCKET_COUNT_def)

lemma cc_fields [simp]:
  "cc_hash_frag = vt_hashfrag" "cc_quadratic = vt_quadratic" "cc_disp = vt_disp" "cc_set_disp = vt_set_disp"
  "cc_fuel = vt_fuel" "cc_read4 = vt_read4" "cc_first_nonzero_uint16 = vt_first_nonzero_uint16"
  by (simp_all add: fun_eq_iff cc_hash_frag_def vt_hashfrag_def cc_quadratic_def vt_quadratic_def cc_disp_def vt_disp_def
      cc_set_disp_def vt_set_disp_def cc_fuel_def vt_fuel_def cc_read4_def vt_read4_def cc_first_nonzero_uint16_def
      vt_first_nonzero_uint16_def)

lemma cc_views [simp]:
  "cc_map_cap cntr = vt_bucket_count (vt_of cntr)" "cc_home hf cntr = vt_home hf (vt_of cntr)"
  "cc_position cntr = vt_position (vt_of cntr)" "cc_overloaded cntr = vt_overloaded (vt_of cntr)"
  "cc_map_key cntr b = vt_key (vt_of cntr) b"
  by (simp_all add: fun_eq_iff cc_map_cap_def vt_bucket_count_def cc_home_def vt_home_def cc_position_def vt_position_def
      cc_overloaded_def vt_overloaded_def cc_map_key_def vt_key_def)

lemma cc_find_first_empty_loop_vt [simp]:
  "cc_find_first_empty_loop fuel cntr h d l = vt_find_first_empty_loop fuel (vt_of cntr) h d l"
  by (induction fuel arbitrary: d l) (simp_all add: Let_def)

lemma cc_find_insert_location_vt [simp]:
  "cc_map_find_insert_location_in_chain fuel cntr h d c = vt_find_insert_location_in_chain fuel (vt_of cntr) h d c"
  by (induction fuel arbitrary: c) (simp_all add: Let_def)

lemma cc_find_prev_vt [simp]: "cc_find_prev fuel cntr h b p = vt_find_prev fuel (vt_of cntr) h b p"
  by (induction fuel arbitrary: p) (simp_all add: Let_def)

lemma cc_find_last_vt [simp]: "cc_find_last fuel cntr h b = vt_find_last fuel (vt_of cntr) h b"
  by (induction fuel arbitrary: b) (simp_all add: Let_def)

lemma cc_find_first_empty_vt [simp]: "cc_map_find_first_empty cntr h = vt_find_first_empty (vt_of cntr) h"
  by (simp add: cc_map_find_first_empty_def vt_find_first_empty_def)

lemma cc_search_chain_vt [simp]:
  "cc_search_chain fuel eq cntr key f h b = vt_search_chain fuel eq (vt_of cntr) key f h b"
  by (induction fuel arbitrary: b) (simp_all add: Let_def vt_key_def)

lemma cc_evict_vt: "vt_evict hf (vt_of cntr) b = map_option (apfst vt_of) (cc_map_evict hf cntr b)"
  by (simp add: vt_evict_def cc_map_evict_def Let_def vt_key_def split: option.split)

lemma cc_min_cap_vt:
  assumes "n \<le> 2 ^ 60"
  shows "cc_map_min_cap_for_n_els n = vt_min_bucket_count_for_size n"
proof -
  have "cc_min_cap_loop fuel n c = vt_grow fuel n c" for fuel c
  proof (induction fuel arbitrary: c)
    case (Suc fuel)
    have "wrap64 (c * 2) = c * 2" if "7 * c < 8 * n" using that assms by (intro wrap64_id) simp
    then show ?case using Suc by simp
  qed simp
  then show ?thesis by (simp add: cc_map_min_cap_for_n_els_def vt_min_bucket_count_for_size_def)
qed

text \<open>An iterator as one of Verstable's, with the home bucket known or not, and back.\<close>

definition itr_of :: "vt_itr option \<Rightarrow> cc_itr" where
  "itr_of itr = (case itr of None \<Rightarrow> Cc_Null | Some i \<Rightarrow> Cc_El (itr_bucket i))"

lemma itr_of_simps [simp]:
  "itr_of vt_end_itr = Cc_Null" "itr_of None = Cc_Null" "itr_of (Some i) = Cc_El (itr_bucket i)" "itr_of (vt_itr_at b h) = Cc_El b"
  "itr_of itr = Cc_Null \<longleftrightarrow> itr = None"
  by (simp_all add: itr_of_def vt_end_itr_def vt_itr_at_def split: option.splits)

lemma itr_of_found [simp]:
  "itr_of (case found of None \<Rightarrow> vt_end_itr | Some b \<Rightarrow> vt_itr_at b h) = (case found of None \<Rightarrow> Cc_Null | Some b \<Rightarrow> Cc_El b)"
  by (simp split: option.split)

lemma cc_get_vt: "cc_map_get hf eq cntr key = map_option itr_of (vt_get hf eq (vt_of cntr) key)"
  by (simp add: cc_map_get_def vt_get_def Let_def option.map_comp comp_def)

section \<open>Insertion\<close>

lemma cc_take_home_vt:
  "map_option (apfst vt_of) (cc_take_home hf cntr home key el) =
    (case (if metadata (vt_of cntr) ! home \<noteq> VT_EMPTY then vt_evict hf (vt_of cntr) home else Some (vt_of cntr, True)) of
       None \<Rightarrow> None
     | Some (t, vacated) \<Rightarrow>
         if \<not> vacated then Some (t, Cc_Null)
         else Some (t\<lparr>buckets := (buckets t)[home := (key, el)],
                     metadata := (metadata t)[home := vt_hashfrag (hf key) OR VT_IN_HOME_BUCKET_MASK OR VT_DISPLACEMENT_MASK],
                     key_count := key_count t + 1\<rparr>, Cc_El home))"
  by (simp add: cc_take_home_def cc_evict_vt cc_put_home_def split: option.split)

lemma cc_take_empty_vt:
  "map_option (apfst vt_of) (cc_take_empty hf cntr home key el) =
    (case vt_find_first_empty (vt_of cntr) home of
       None \<Rightarrow> Some (vt_of cntr, Cc_Null)
     | Some (vacant, displacement) \<Rightarrow>
         (case vt_find_insert_location_in_chain vt_fuel (vt_of cntr) home displacement home of
            None \<Rightarrow> None
          | Some prev \<Rightarrow>
              (let t = (vt_of cntr)\<lparr>buckets := (buckets (vt_of cntr))[vacant := (key, el)]\<rparr>;
                   t = t\<lparr>metadata := (metadata t)[vacant :=
                          vt_hashfrag (hf key) OR (metadata t ! prev AND VT_DISPLACEMENT_MASK)]\<rparr>;
                   t = t\<lparr>metadata := (metadata t)[prev := vt_set_disp (metadata t ! prev) (of_nat displacement)]\<rparr>;
                   t = t\<lparr>key_count := key_count t + 1\<rparr>
               in Some (t, Cc_El vacant))))"
  by (simp add: cc_take_empty_def cc_put_chain_def Let_def split: option.split)

text \<open>What an insertion that searches the chain first does to the table and to the iterator.\<close>

lemma cc_insert_raw_vt:
  "map_option (\<lambda>(c, itr, events). (vt_of c, itr)) (cc_map_insert_raw hf eq el_dtor key_dtor cntr el key replace) =
    map_option (apsnd itr_of) (vt_insert_raw hf eq (vt_of cntr) key el False replace)"
proof -
  have split: "map_option (\<lambda>(c, itr, events). (vt_of c, itr)) (map_option (\<lambda>(c, itr). (c, itr, [])) r) = map_option (apfst vt_of) r"
    for r :: "(('a, 'b) cc \<times> cc_itr) option" by (cases r) auto
  show ?thesis
    unfolding cc_map_insert_raw_def vt_insert_raw_def Let_def
    by (simp add: split cc_take_home_vt cc_take_empty_vt Let_def split: option.split)
qed

lemma cc_reinsert_vt:
  assumes "\<not> vt_overloaded (vt_of cntr)"
  shows "map_option (apfst vt_of) (cc_map_reinsert hf cntr el key) =
    map_option (apsnd itr_of) (vt_insert_raw hf eq (vt_of cntr) key el True replace)"
  unfolding cc_map_reinsert_def vt_insert_raw_def Let_def
  by (simp add: assms cc_take_home_vt cc_take_empty_vt Let_def split: option.split)

section \<open>Rehash\<close>

lemma and_nat_le: "(x::nat) AND m \<le> m"
proof -
  have "int x AND int m \<le> int m" by (rule AND_upper2) simp
  then show ?thesis by (simp flip: of_nat_and_eq)
qed

lemma cc_take_home_fields:
  "cc_take_home hf cntr home key el = Some (c, itr) \<Longrightarrow> cap_mask c = cap_mask cntr \<and>
    (if itr = Cc_Null then cc_count c = cc_count cntr else cc_count c = Suc (cc_count cntr) \<and> itr = Cc_El home)"
  by (auto simp: cc_take_home_def cc_map_evict_def cc_put_home_def Let_def split: if_splits option.splits)

lemma vt_find_first_empty_le: "vt_find_first_empty_loop fuel t home d l = Some (vacant, d') \<Longrightarrow> vacant \<le> buckets_mask t"
  by (induction fuel arbitrary: d l) (auto simp: Let_def and_nat_le split: if_splits)

lemma cc_take_empty_fields:
  "cc_take_empty hf cntr home key el = Some (c, itr) \<Longrightarrow> cap_mask c = cap_mask cntr \<and>
    (if itr = Cc_Null then cc_count c = cc_count cntr else cc_count c = Suc (cc_count cntr) \<and> (\<exists>b. itr = Cc_El b \<and> b \<le> cap_mask cntr))"
  using vt_find_first_empty_le [of _ "vt_of cntr" home]
  by (auto simp: cc_take_empty_def cc_put_chain_def vt_find_first_empty_def Let_def split: if_splits option.splits)

lemma vt_home_le: "vt_home hf t key \<le> buckets_mask t"
proof -
  have "unat (hf key AND of_nat (buckets_mask t)) \<le> unat (of_nat (buckets_mask t) :: u64)"
    by (simp add: word_and_le1 word_le_nat_alt [symmetric])
  also have "\<dots> \<le> buckets_mask t" by (simp add: unat_of_nat)
  finally show ?thesis by (simp add: vt_home_def)
qed

lemma cc_reinsert_fields:
  assumes "cc_map_reinsert hf cntr el key = Some (c, itr)"
  shows "cap_mask c = cap_mask cntr \<and> (if itr = Cc_Null then cc_count c = cc_count cntr
    else cc_count c = Suc (cc_count cntr) \<and> (\<exists>b. itr = Cc_El b \<and> b \<le> cap_mask cntr))"
  using assms cc_take_home_fields [of hf cntr _ key el c itr] cc_take_empty_fields [of hf cntr _ key el c itr]
    vt_home_le [of hf "vt_of cntr" key]
  by (fastforce simp: cc_map_reinsert_def Let_def split: if_splits)

text \<open>The loop over the old buckets, when there is room for all their keys.\<close>

lemma cc_reinsert_all_vt:
  assumes "8 * (cc_count new + length (filter (vt_live (vt_of cntr)) [i..<i + c])) \<le> 7 * vt_bucket_count (vt_of new)"
  shows "map_option vt_of (cc_reinsert_all c hf cntr i new) = vt_reinsert c hf eq (vt_of cntr) i (vt_of new)"
  using assms
proof (induction c arbitrary: i new)
  case (Suc c)
  have range: "[i..<i + Suc c] = i # [Suc i..<Suc i + c]" by (simp add: upt_conv_Cons)
  show ?case
  proof (cases "vt_live (vt_of cntr) i")
    case False
    then have "8 * (cc_count new + length (filter (vt_live (vt_of cntr)) [Suc i..<Suc i + c])) \<le> 7 * vt_bucket_count (vt_of new)"
      using Suc.prems unfolding range by simp
    from Suc.IH [OF this] show ?thesis using False by (simp add: vt_live_def)
  next
    case live: True
    have room: "8 * (Suc (cc_count new) + length (filter (vt_live (vt_of cntr)) [Suc i..<Suc i + c])) \<le> 7 * vt_bucket_count (vt_of new)"
      using Suc.prems live unfolding range by simp
    then have "\<not> vt_overloaded (vt_of new)" by (simp add: vt_overloaded_def)
    note sim = cc_reinsert_vt [OF this, of hf "cc_map_el cntr i" "cc_map_key cntr i" eq False]
    have md: "cc_metadata cntr ! i \<noteq> VT_EMPTY" using live by (simp add: vt_live_def)
    have kv: "cc_map_key cntr i = fst (cc_buckets cntr ! i)" "cc_map_el cntr i = snd (cc_buckets cntr ! i)"
      by (simp_all add: cc_map_key_def cc_map_el_def del: cc_views)
    show ?thesis
    proof (cases "cc_map_reinsert hf new (cc_map_el cntr i) (cc_map_key cntr i)")
      case None
      then have "vt_insert_raw hf eq (vt_of new) (fst (cc_buckets cntr ! i)) (snd (cc_buckets cntr ! i)) True False = None"
        using sim kv by simp
      then show ?thesis using None md by simp
    next
      case (Some r)
      obtain new1 itr where r: "r = (new1, itr)" by (cases r)
      note fields = cc_reinsert_fields [OF Some [unfolded r]]
      have "map_option (apsnd itr_of) (vt_insert_raw hf eq (vt_of new) (cc_map_key cntr i) (cc_map_el cntr i) True False)
        = Some (vt_of new1, itr)" using sim Some r by simp
      then obtain vitr where vt: "vt_insert_raw hf eq (vt_of new) (fst (cc_buckets cntr ! i)) (snd (cc_buckets cntr ! i)) True False
        = Some (vt_of new1, vitr)" "itr = itr_of vitr" unfolding kv by auto
      show ?thesis
      proof (cases vitr)
        case None
        then show ?thesis using Some r vt md by (simp add: vt_is_end_def)
      next
        case (Some vi)
        then have "\<not> vt_is_end (vt_of new1) vitr" using fields vt(2) by (auto simp: vt_is_end_def)
        moreover have "vt_bucket_count (vt_of new1) = vt_bucket_count (vt_of new)" "cc_count new1 = Suc (cc_count new)"
          using fields vt(2) Some by (simp_all add: vt_bucket_count_def)
        moreover from this have "map_option vt_of (cc_reinsert_all c hf cntr (Suc i) new1) = vt_reinsert c hf eq (vt_of cntr) (Suc i) (vt_of new1)"
          using Suc.IH [of new1 "Suc i"] room by simp
        ultimately show ?thesis using \<open>cc_map_reinsert _ _ _ _ = Some r\<close> r vt md Some by simp
      qed
    qed
  qed
qed simp

lemma cc_rehash_vt:
  assumes count: "cc_count cntr = card {j. j < vt_bucket_count (vt_of cntr) \<and> vt_live (vt_of cntr) j}"
    and room: "8 * cc_count cntr \<le> 7 * n" and n: "2 \<le> n"
  shows "vt_rehash fuel hf eq mem (vt_of cntr) n =
    map_option (\<lambda>r. case r of None \<Rightarrow> (vt_of cntr, False) | Some c \<Rightarrow> (vt_of c, True)) (cc_map_make_rehash fuel hf mem cntr n)"
  using room n
proof (induction fuel arbitrary: n)
  case (Suc fuel)
  let ?m = "vt_bucket_count (vt_of cntr)"
  have len: "length (filter (vt_live (vt_of cntr)) [0..<0 + ?m]) = cc_count cntr"
    unfolding count length_filter_conv_card by (rule arg_cong [where f = card]) auto
  have new: "vt_of (cc_new_map mem n) = vt_new_table mem n" by (simp add: vt_of_def cc_new_map_def vt_new_table_def)
  have room: "8 * (cc_count (cc_new_map mem n) + length (filter (vt_live (vt_of cntr)) [0..<0 + ?m]))
      \<le> 7 * vt_bucket_count (vt_of (cc_new_map mem n))"
    unfolding len using Suc.prems by (simp add: new vt_new_table_def cc_new_map_def vt_bucket_count_def)
  have re: "vt_reinsert ?m hf eq (vt_of cntr) 0 (vt_new_table mem n) = map_option vt_of (cc_reinsert_all ?m hf cntr 0 (cc_new_map mem n))"
    unfolding new [symmetric] by (rule cc_reinsert_all_vt [OF room, symmetric])
  show ?case
    using Suc.IH [of "n * 2"] Suc.prems by (simp add: re cc_map_size_def split: option.split)
qed simp

section \<open>The operations that grow the map\<close>

lemma cc_rehash_fits:
  assumes "vt_content_ok (vt_of cntr)" "8 * cc_count cntr \<le> 7 * n" "2 \<le> n"
  shows "vt_rehash fuel hf eq mem (vt_of cntr) n =
    map_option (\<lambda>r. case r of None \<Rightarrow> (vt_of cntr, False) | Some c \<Rightarrow> (vt_of c, True)) (cc_map_make_rehash fuel hf mem cntr n)"
  by (rule cc_rehash_vt) (use assms in \<open>simp_all add: vt_content_ok_def\<close>)

definition cc_request :: "('k, 'v) cc \<Rightarrow> nat" where
  "cc_request cntr = (if cap_mask cntr \<noteq> 0 then cc_map_cap cntr * 2 else CC_MAP_MIN_NONZERO_BUCKET_COUNT)"

text \<open>The destructor calls of an insertion: of the key and the element it replaces.\<close>

definition cc_replaced :: "('k, 'v, 'e) cc_dtor \<Rightarrow> ('k, 'v, 'e) cc_dtor \<Rightarrow> 'v option \<Rightarrow> 'k \<Rightarrow> bool \<Rightarrow> 'e list" where
  "cc_replaced el_dtor key_dtor old key replace =
    (case old of Some v \<Rightarrow> if replace then cc_destroy key_dtor (Inl key) @ cc_destroy el_dtor (Inr v) else [] | None \<Rightarrow> [])"

lemma cc_replaced_None [simp]: "cc_replaced el_dtor key_dtor None key replace = []"
  by (simp add: cc_replaced_def)

lemma cc_insert_raw_events:
  assumes inv: "vt_inv hf (vt_of cntr)" and run: "cc_map_insert_raw hf (=) el_dtor key_dtor cntr el key replace = Some (c, itr, events)"
  shows "events = cc_replaced el_dtor key_dtor (vt_map (vt_of cntr) key) key replace"
proof (cases "vt_of cntr = vt_init")
  case True
  then have "cc_metadata cntr = [VT_EMPTY]" "cap_mask cntr = 0" by (simp_all add: vt_of_def vt_init_def)
  then have "events = []"
    using run by (simp add: cc_map_insert_raw_def Let_def vt_home_def VT_EMPTY_def split: if_splits)
  then show ?thesis using True by simp
next
  case False
  then obtain n where tbl: "vt_table hf (vt_of cntr) n" using inv by (auto simp: vt_inv_def)
  have home: "vt_home hf (vt_of cntr) key = vt_khome hf n key" by (rule vt_home_khome [OF vt_tableD(2) [OF tbl]])
  show ?thesis
  proof (cases "cc_metadata cntr ! vt_khome hf n key AND VT_IN_HOME_BUCKET_MASK = 0")
    case True
    then have "vt_map (vt_of cntr) key = None" using vt_insert_home(1) [OF tbl, of key] by simp
    then show ?thesis using run True home by (auto simp: cc_map_insert_raw_def Let_def split: if_splits)
  next
    case False
    then obtain r where r: "vt_search_chain vt_fuel (=) (vt_of cntr) key (vt_hashfrag (hf key)) (vt_khome hf n key) (vt_khome hf n key) = Some r"
      "case r of Some b \<Rightarrow> b \<in> vt_used (vt_of cntr) n \<and> vt_key (vt_of cntr) b = key \<and> vt_map (vt_of cntr) key = Some (snd (buckets (vt_of cntr) ! b))
       | None \<Rightarrow> vt_map (vt_of cntr) key = None"
      using vt_search_result [OF tbl] by fastforce
    show ?thesis
    proof (cases r)
      case None
      then show ?thesis using run False home r
        by (auto simp: cc_map_insert_raw_def Let_def split: if_splits)
    next
      case (Some b)
      then show ?thesis using run False home r
        by (auto simp: cc_map_insert_raw_def Let_def cc_replaced_def cc_map_el_def split: if_splits)
    qed
  qed
qed

lemma cc_insert_loop_vt:
  assumes "vt_inv hf (vt_of cntr)" and mem: "vt_mem_ok mem"
  shows "map_option (\<lambda>(c, itr, events). (vt_of c, itr)) (cc_insert_loop fuel hf (=) el_dtor key_dtor mem cntr el key replace) =
      map_option (apsnd itr_of) (vt_insert_loop fuel hf (=) mem (vt_of cntr) key el replace) \<and>
    (\<forall>c itr events. cc_insert_loop fuel hf (=) el_dtor key_dtor mem cntr el key replace = Some (c, itr, events) \<longrightarrow>
      events = cc_replaced el_dtor key_dtor (vt_map (vt_of cntr) key) key replace)"
  using assms(1)
proof (induction fuel arbitrary: cntr)
  case (Suc fuel)
  let ?t = "vt_of cntr"
  obtain t' itr where raw: "vt_insert_raw hf (=) ?t key el False replace = Some (t', itr)"
    "case itr of
       Some i \<Rightarrow> (\<exists>n. vt_inserted hf n ?t key el replace t' i)
     | None \<Rightarrow> vt_content_ok t' \<and> vt_map t' = vt_map ?t \<and> key_count t' = key_count ?t \<and> vt_map ?t key = None \<and>
         vt_request t' = vt_request ?t \<and> (key_count ?t < 0x7FF \<longrightarrow> vt_request ?t < 2 ^ 13 \<and> 8 * (key_count ?t + 1) \<le> 7 * vt_request ?t)"
    "\<exists>k. vt_request ?t = 2 ^ k \<and> 3 \<le> k" "itr = None \<longrightarrow> 8 * key_count ?t \<le> 7 * vt_request ?t"
    using vt_insert_round [OF Suc.prems, of key el replace] by blast
  obtain c events where cc: "cc_map_insert_raw hf (=) el_dtor key_dtor cntr el key replace = Some (c, itr_of itr, events)" "t' = vt_of c"
    using cc_insert_raw_vt [of hf "(=)" el_dtor key_dtor cntr el key replace] raw(1) by auto
  have events: "events = cc_replaced el_dtor key_dtor (vt_map ?t key) key replace"
    by (rule cc_insert_raw_events [OF Suc.prems cc(1)])
  show ?case
  proof (cases itr)
    case (Some i)
    then obtain n where "vt_inserted hf n ?t key el replace t' i" using raw(2) by auto
    then have "\<not> vt_is_end t' itr" using vt_table_not_end [of hf t' n i] Some by (simp add: vt_inserted_def)
    then show ?thesis using raw(1) cc Some events by simp
  next
    case None
    then have R: "vt_content_ok (vt_of c)" "cc_count c = cc_count cntr" "vt_request (vt_of c) = vt_request ?t"
      "8 * cc_count cntr \<le> 7 * vt_request ?t" and absent: "vt_map ?t key = None" "vt_map (vt_of c) = vt_map ?t"
      using raw(2,4) cc(2) by auto
    obtain k where k: "vt_request ?t = 2 ^ k" "3 \<le> k" using raw(3) by blast
    have "(2::nat) ^ 3 \<le> 2 ^ k" by (rule power_increasing [OF k(2)]) simp
    then have two: "2 \<le> vt_request ?t" using k(1) by simp
    have "(2::nat) ^ 61 < 2 ^ 64 * 2 ^ k" by (rule less_le_trans [of _ "2 ^ 64 * 1"]) simp_all
    then have fuel: "2 ^ 61 < 2 ^ 64 * vt_request ?t" by (simp only: k(1))
    have sim: "vt_rehash 64 hf (=) mem (vt_of c) (vt_request ?t) =
      map_option (\<lambda>r. case r of None \<Rightarrow> (vt_of c, False) | Some c \<Rightarrow> (vt_of c, True)) (cc_map_make_rehash 64 hf mem c (vt_request ?t))"
      by (rule cc_rehash_fits) (use R two in simp_all)
    obtain t2 ok where reh: "vt_rehash 64 hf (=) mem (vt_of c) (vt_request ?t) = Some (t2, ok)"
      "ok \<longrightarrow> (\<exists>n'. vt_table hf t2 n') \<and> vt_map t2 = vt_map (vt_of c)"
      using vt_rehash_result [OF R(1) mem k fuel, of hf] by (metis one_le_numeral)
    have req: "(if cap_mask c \<noteq> 0 then cc_map_cap c * 2 else CC_MAP_MIN_NONZERO_BUCKET_COUNT) = vt_request ?t"
      using R(3) unfolding vt_request_def by (simp only: cc_views cc_constants vt_of_simps)
    have step: "vt_insert_loop (Suc fuel) hf (=) mem ?t key el replace =
        (if \<not> ok then Some (t2, None) else vt_insert_loop fuel hf (=) mem t2 key el replace)"
      using raw(1) None reh(1) R(3) cc(2) by (simp add: vt_is_end_def vt_request_def)
    have loop: "cc_insert_loop (Suc fuel) hf (=) el_dtor key_dtor mem cntr el key replace =
        (case cc_map_make_rehash 64 hf mem c (vt_request ?t) of
           None \<Rightarrow> None
         | Some None \<Rightarrow> Some (c, Cc_Null, events)
         | Some (Some new_cntr) \<Rightarrow> cc_insert_loop fuel hf (=) el_dtor key_dtor mem new_cntr el key replace)"
      unfolding cc_insert_loop.simps cc(1) option.case prod.case req using None by simp
    show ?thesis
    proof (cases "cc_map_make_rehash 64 hf mem c (vt_request ?t)")
      case None
      then show ?thesis using sim reh(1) by simp
    next
      case (Some r)
      have run: "cc_insert_loop (Suc fuel) hf (=) el_dtor key_dtor mem cntr el key replace =
          (case r of None \<Rightarrow> Some (c, Cc_Null, events)
           | Some new_cntr \<Rightarrow> cc_insert_loop fuel hf (=) el_dtor key_dtor mem new_cntr el key replace)"
        unfolding loop Some by simp
      show ?thesis
      proof (cases r)
        case None
        then have "t2 = vt_of c" "\<not> ok" using sim reh(1) Some by simp_all
        then show ?thesis unfolding run step using None events absent by simp
      next
        case (Some new)
        then have new: "t2 = vt_of new" "ok" using sim reh(1) \<open>cc_map_make_rehash _ _ _ _ _ = Some r\<close> by simp_all
        then have "vt_inv hf (vt_of new)" "vt_map (vt_of new) = vt_map ?t" using reh(2) absent by (auto simp: vt_inv_def)
        then show ?thesis unfolding run step using Suc.IH [of new] Some new by simp
      qed
    qed
  qed
qed simp

lemma cc_insert_vt:
  assumes "vt_inv hf (vt_of cntr)" "vt_mem_ok mem"
  shows "map_option (\<lambda>(c, itr, events). (vt_of c, itr)) (cc_map_insert hf (=) el_dtor key_dtor mem cntr el key replace) =
      map_option (apsnd itr_of) ((if replace then vt_insert else vt_get_or_insert) hf (=) mem (vt_of cntr) key el)"
    and "cc_map_insert hf (=) el_dtor key_dtor mem cntr el key replace = Some (c, itr, events) \<Longrightarrow>
      events = cc_replaced el_dtor key_dtor (vt_map (vt_of cntr) key) key replace"
  using cc_insert_loop_vt [OF assms, of 64 el_dtor key_dtor el key replace]
  by (simp_all add: cc_map_insert_def vt_insert_def vt_get_or_insert_def)

text \<open>The invariant leaves room for the keys in every table that is at least as large.\<close>

lemma vt_inv_room: "vt_inv hf t \<Longrightarrow> 8 * key_count t \<le> 7 * vt_bucket_count t"
  unfolding vt_inv_def
proof (elim disjE exE)
  show "8 * key_count t \<le> 7 * vt_bucket_count t" if "t = vt_init" using that by (simp add: vt_init_def)
  show "8 * key_count t \<le> 7 * vt_bucket_count t" if "vt_table hf t n" for n using vt_tableD(5,6,9) [OF that] by simp
qed

lemma cc_reserve_vt:
  assumes inv: "vt_inv hf (vt_of cntr)" and n: "n \<le> 2 ^ 60"
  shows "map_option (apfst vt_of) (cc_map_reserve hf mem cntr n) = vt_reserve hf eq mem (vt_of cntr) n"
proof -
  note cap = cc_min_cap_vt [OF n]
  obtain m where m: "vt_min_bucket_count_for_size n = Some m" "if n = 0 then m = 0 else \<exists>j. m = 2 ^ j \<and> 3 \<le> j"
    using vt_min_bucket_count_result [OF n] by blast
  show ?thesis
  proof (cases "m \<le> vt_bucket_count (vt_of cntr)")
    case True
    then show ?thesis using m(1) by (simp add: cap cc_map_reserve_def vt_reserve_def)
  next
    case False
    then obtain j where "m = 2 ^ j" "3 \<le> j" using m(2) by (auto split: if_splits)
    then have "2 ^ 3 \<le> m" by (simp only: power_increasing one_le_numeral)
    then have "vt_rehash 64 hf eq mem (vt_of cntr) m =
      map_option (\<lambda>r. case r of None \<Rightarrow> (vt_of cntr, False) | Some c \<Rightarrow> (vt_of c, True)) (cc_map_make_rehash 64 hf mem cntr m)"
      using vt_inv_room [OF inv] False by (intro cc_rehash_fits [OF vt_content_inv [OF inv]]) simp_all
    then show ?thesis using m(1) False
      by (simp add: cap cc_map_reserve_def vt_reserve_def option.map_comp comp_def)
         (rule option.map_cong0, simp split: option.split)
  qed
qed

lemma cc_shrink_vt:
  assumes inv: "vt_inv hf (vt_of cntr)" and n: "cc_count cntr \<le> 2 ^ 60"
  shows "map_option (apfst vt_of) (cc_map_shrink hf mem cntr) = vt_shrink hf eq mem (vt_of cntr)"
proof -
  note cap = cc_min_cap_vt [OF n]
  obtain m where m: "vt_min_bucket_count_for_size (cc_count cntr) = Some m" "8 * cc_count cntr \<le> 7 * m"
    "if cc_count cntr = 0 then m = 0 else \<exists>j. m = 2 ^ j \<and> 3 \<le> j"
    using vt_min_bucket_count_result [OF n] by blast
  show ?thesis
  proof (cases "m = 0 \<or> m = vt_bucket_count (vt_of cntr)")
    case True
    then show ?thesis using m
      by (auto simp: cap cc_map_shrink_def vt_shrink_def cc_map_size_def cc_map_placeholder_def vt_of_def)
  next
    case False
    then obtain j where "m = 2 ^ j" "3 \<le> j" using m(3) by (auto split: if_splits)
    then have "2 ^ 3 \<le> m" by (simp only: power_increasing one_le_numeral)
    then have "vt_rehash 64 hf eq mem (vt_of cntr) m =
      map_option (\<lambda>r. case r of None \<Rightarrow> (vt_of cntr, False) | Some c \<Rightarrow> (vt_of c, True)) (cc_map_make_rehash 64 hf mem cntr m)"
      using m(2) by (intro cc_rehash_fits [OF vt_content_inv [OF inv]]) simp_all
    then show ?thesis using m(1) False
      by (simp add: cap cc_map_shrink_def vt_shrink_def cc_map_size_def option.map_comp comp_def)
         (rule option.map_cong0, simp split: option.split)
  qed
qed

section \<open>Erasure\<close>

lemma cc_erase_raw_vt:
  "map_option (\<lambda>(c, advance, events). (vt_of c, advance)) (cc_map_erase_raw hf el_dtor key_dtor cntr b home) =
    vt_erase_itr_raw hf (vt_of cntr) \<lparr>itr_bucket = b, home_bucket = home\<rparr>"
  unfolding cc_map_erase_raw_def vt_erase_itr_raw_def Let_def
  by (simp add: vt_key_def split: option.split)

lemma cc_destroy_el_cong: "cc_buckets c = cc_buckets cntr \<Longrightarrow> cc_destroy_el el_dtor key_dtor c b = cc_destroy_el el_dtor key_dtor cntr b"
  by (simp add: cc_destroy_el_def cc_map_el_def cc_map_key_def del: cc_views)

lemma cc_erase_raw_events:
  "cc_map_erase_raw hf el_dtor key_dtor cntr b home = Some (c, advance, events) \<Longrightarrow> events = cc_destroy_el el_dtor key_dtor cntr b"
  using cc_destroy_el_cong [of "cntr\<lparr>cc_count := cc_count cntr - 1\<rparr>" cntr]
  by (auto simp: cc_map_erase_raw_def Let_def split: if_splits option.splits)

lemma vt_search_chain_le:
  "vt_search_chain fuel eq t key f h b = Some (Some c) \<Longrightarrow> b \<le> buckets_mask t \<Longrightarrow> c \<le> buckets_mask t"
  by (induction fuel arbitrary: b) (auto simp: Let_def vt_position_def and_nat_le split: if_splits)

lemma cc_erase_vt:
  "map_option (\<lambda>(c, found, events). (vt_of c, found)) (cc_map_erase hf eq el_dtor key_dtor cntr key) = vt_erase hf eq (vt_of cntr) key"
proof -
  let ?h = "vt_home hf (vt_of cntr) key"
  let ?s = "vt_search_chain vt_fuel eq (vt_of cntr) key (vt_hashfrag (hf key)) ?h ?h"
  have raw: "map_option (\<lambda>(c, found, events). (vt_of c, found)) (map_option (\<lambda>(c, advance, events). (c, True, events)) r) =
    map_option (\<lambda>(t, b). (t, True)) (map_option (\<lambda>(c, advance, events). (vt_of c, advance)) r)"
    for r :: "(('a, 'b) cc \<times> bool \<times> 'c list) option" by (cases r) auto
  have le: "c \<le> cap_mask cntr" if "?s = Some (Some c)" for c
    using vt_search_chain_le [OF that] vt_home_le [of hf "vt_of cntr" key] by simp
  show ?thesis
    unfolding cc_map_erase_def vt_erase_def vt_get_def Let_def
    using le by (auto simp: raw cc_erase_raw_vt vt_is_end_def vt_end_itr_def vt_itr_at_def dest: le split: option.split)
qed

end
