(* ===== verification/Ccmap_Table.thy ===== *)
theory Ccmap_Table
  imports Ccmap_Correct
begin

text \<open>
  Iteration over CC's map in both directions, and what its operations do to the map it stands for and to the
  destructors they call.
\<close>

section \<open>The last nonzero metadatum\<close>

definition last_field :: "u64 \<Rightarrow> nat \<Rightarrow> bool" where
  "last_field val f \<longleftrightarrow> f < 4 \<and> field16 val f \<noteq> 0 \<and> (\<forall>g. f < g \<longrightarrow> g < 4 \<longrightarrow> field16 val g = 0)"

lemma last_field_unique: "last_field val f \<Longrightarrow> last_field val g \<Longrightarrow> f = g"
  by (simp add: last_field_def) (metis nat_neq_iff)

lemma clz_from_result:
  assumes "bit val (63 - (i + d))" "d < fuel"
  shows "bit val (63 - clz_from fuel val i) \<and> i \<le> clz_from fuel val i \<and> clz_from fuel val i \<le> i + d \<and>
    (\<forall>j. i \<le> j \<longrightarrow> j < clz_from fuel val i \<longrightarrow> \<not> bit val (63 - j))"
  using assms
proof (induction fuel arbitrary: i d)
  case (Suc fuel)
  show ?case
  proof (cases "bit val (63 - i)")
    case False
    then obtain d' where d: "d = Suc d'" using Suc.prems(1) by (cases d) auto
    then have "bit val (63 - (Suc i + d'))" "d' < fuel" using Suc.prems by simp_all
    from Suc.IH [OF this] show ?thesis using False d by (simp, metis Suc_leI le_neq_implies_less)
  qed simp
qed simp

lemma last_nonzero_field:
  assumes "val \<noteq> 0"
  shows "last_field val (3 - cc_last_nonzero_uint16 val)" "cc_last_nonzero_uint16 val \<le> 3"
proof -
  obtain p where "bit val p" using assms by (auto simp: bit_eq_iff)
  moreover from this have "p < 64" using bit_imp_le_length by fastforce
  ultimately have "bit val (63 - (0 + (63 - p)))" "63 - p < 64" by simp_all
  note c = clz_from_result [OF this]
  let ?c = "clz_from 64 val 0"
  have "?c \<le> 63 - p" using c by simp
  then have c63: "?c \<le> 63" by linarith
  have bit: "bit val (63 - ?c)" using c by simp
  have zero: "\<not> bit val p" if "63 - ?c < p" "p < 64" for p
  proof -
    have "63 - p < ?c" "63 - (63 - p) = p" using that by simp_all
    then show ?thesis using c by (metis le0)
  qed
  have div: "3 - ?c div 16 = (63 - ?c) div 16" using c63 by simp
  have "bit (field16 val ((63 - ?c) div 16)) ((63 - ?c) mod 16)" using bit by (simp add: bit_field16)
  then have "field16 val ((63 - ?c) div 16) \<noteq> 0" by auto
  moreover have "field16 val g = 0" if "(63 - ?c) div 16 < g" "g < 4" for g
  proof (rule bit_word_eqI)
    fix i assume "i < LENGTH(16)"
    then have "i < 16" by simp
    then have "63 - ?c < 16 * g + i" "16 * g + i < 64" using that by linarith+
    then show "bit (field16 val g) i \<longleftrightarrow> bit 0 i" using zero by (simp add: bit_field16)
  qed
  ultimately show "last_field val (3 - cc_last_nonzero_uint16 val)"
    unfolding cc_last_nonzero_uint16_def div by (simp add: last_field_def)
  show "cc_last_nonzero_uint16 val \<le> 3" using c63 by (simp add: cc_last_nonzero_uint16_def)
qed

lemma last_portable_field:
  assumes "val \<noteq> 0"
  shows "last_field val (3 - cc_last_nonzero_portable val)" "cc_last_nonzero_portable val \<le> 3"
proof -
  have half: "(ucast (drop_bit 32 val) :: u32) = 0 \<longleftrightarrow> field16 val 2 = 0 \<and> field16 val 3 = 0"
  proof -
    have "(ucast (drop_bit 32 val) :: u32) = 0 \<longleftrightarrow> (\<forall>i < 32. \<not> bit val (32 + i))"
      by (auto simp: bit_eq_iff bit_ucast_iff bit_drop_bit_eq)
    also have "\<dots> \<longleftrightarrow> (\<forall>i < 16. \<not> bit val (32 + i)) \<and> (\<forall>i < 16. \<not> bit val (48 + i))"
    proof (intro iffI conjI allI impI)
      fix i :: nat assume "\<forall>i < 32. \<not> bit val (32 + i)" "i < 16"
      then show "\<not> bit val (32 + i)" "\<not> bit val (48 + i)"
        using spec [of "\<lambda>i. i < 32 \<longrightarrow> \<not> bit val (32 + i)" "16 + i"] by (simp_all add: add.assoc [symmetric])
    next
      fix i :: nat assume a: "(\<forall>i < 16. \<not> bit val (32 + i)) \<and> (\<forall>i < 16. \<not> bit val (48 + i))" "i < 32"
      show "\<not> bit val (32 + i)"
      proof (cases "i < 16")
        case False
        then have "32 + i = 48 + (i - 16)" "i - 16 < 16" using a(2) by simp_all
        then show ?thesis using a(1) by metis
      qed (use a in simp)
    qed
    also have "\<dots> \<longleftrightarrow> field16 val 2 = 0 \<and> field16 val 3 = 0"
      by (auto simp: bit_eq_iff bit_field16)
    finally show ?thesis .
  qed
  have quarter: "(ucast (drop_bit (16 * g) val) :: u16) = field16 val g" for g by (simp add: field16_def)
  define r where "r = (if field16 val 2 = 0 \<and> field16 val 3 = 0 then 1 else 3 :: nat)"
  have port: "cc_last_nonzero_portable val = 3 - (if field16 val r = 0 then r - 1 else r)"
    unfolding cc_last_nonzero_portable_def Let_def half quarter r_def by simp
  show "cc_last_nonzero_portable val \<le> 3" by (simp add: port)
  have "\<exists>g < 4. field16 val g \<noteq> 0" using last_nonzero_field(1) [OF assms] by (auto simp: last_field_def)
  then have "field16 val 0 \<noteq> 0 \<or> field16 val 1 \<noteq> 0 \<or> field16 val 2 \<noteq> 0 \<or> field16 val 3 \<noteq> 0"
    by (auto simp: numeral_eq_Suc less_Suc_eq)
  then show "last_field val (3 - cc_last_nonzero_portable val)"
    unfolding port r_def last_field_def by (auto simp: numeral_eq_Suc less_Suc_eq)
qed

text \<open>The versions with and without intrinsics agree.\<close>

lemma cc_nonzero_versions:
  assumes "val \<noteq> 0"
  shows "cc_first_nonzero_portable val = cc_first_nonzero_uint16 val" "cc_last_nonzero_portable val = cc_last_nonzero_uint16 val"
proof -
  have "cc_first_nonzero_portable = vt_first_nonzero_portable"
    by (simp add: fun_eq_iff cc_first_nonzero_portable_def vt_first_nonzero_portable_def)
  then show "cc_first_nonzero_portable val = cc_first_nonzero_uint16 val"
    using first_field_unique [OF portable_field [OF assms] first_nonzero_field [OF assms]] by simp
  show "cc_last_nonzero_portable val = cc_last_nonzero_uint16 val"
    using last_field_unique [OF last_portable_field(1) [OF assms] last_nonzero_field(1) [OF assms]]
      last_portable_field(2) [OF assms] last_nonzero_field(2) [OF assms] by simp
qed

section \<open>Iteration\<close>

lemma cc_leap_forward_vt: "cc_map_leap_forward fuel cntr i = map_option itr_of (vt_fast_forward fuel (vt_of cntr) i)"
  by (induction fuel arbitrary: i) (simp_all add: Let_def)

definition last_live :: "('k, 'v) cc \<Rightarrow> nat \<Rightarrow> cc_itr" where
  "last_live cntr b = (let bs = filter (vt_live (vt_of cntr)) [0..<b] in if bs = [] then Cc_R_End else Cc_El (last bs))"

lemma last_live_skip:
  assumes "c \<le> b" "\<And>j. c \<le> j \<Longrightarrow> j < b \<Longrightarrow> \<not> vt_live (vt_of cntr) j"
  shows "last_live cntr b = last_live cntr c"
proof -
  obtain d where b: "b = c + d" using assms(1) le_Suc_ex by blast
  have "[0..<b] = [0..<c] @ [c..<b]" unfolding b by (rule upt_add_eq_append) simp
  moreover have "filter (vt_live (vt_of cntr)) [c..<b] = []" using assms(2) by (simp add: filter_empty_conv)
  ultimately show ?thesis by (simp add: last_live_def)
qed

lemma last_live_at: "vt_live (vt_of cntr) c \<Longrightarrow> last_live cntr (Suc c) = Cc_El c"
  by (simp add: last_live_def)

lemma cc_step_down_live: "cc_step_down cntr b = last_live cntr b"
proof (induction b)
  case (Suc b)
  show ?case
  proof (cases "vt_live (vt_of cntr) b")
    case True
    then show ?thesis by (simp add: last_live_at) (simp add: vt_live_def VT_EMPTY_def)
  next
    case False
    then have "last_live cntr (Suc b) = last_live cntr b" by (intro last_live_skip) (auto simp: le_less_Suc_eq)
    then show ?thesis using Suc False by (simp add: vt_live_def VT_EMPTY_def)
  qed
qed (simp add: last_live_def cc_map_r_end_def)

lemma cc_leap_backward_live: "cc_map_leap_backward cntr b = last_live cntr b"
proof (induction cntr b rule: cc_map_leap_backward.induct)
  case (1 cntr b)
  show ?case
  proof (cases "b < 4")
    case True
    then show ?thesis by (subst cc_map_leap_backward.simps) (simp add: cc_step_down_live)
  next
    case False
    let ?md = "cc_read4 (cc_metadata cntr) (b - 4)"
    have field: "field16 ?md g = cc_metadata cntr ! (b - 4 + g)" if "g < 4" for g using field_read4 [OF that] by simp
    show ?thesis
    proof (cases "?md = 0")
      case True
      have "\<not> vt_live (vt_of cntr) j" if "b - 4 \<le> j" "j < b" for j
      proof -
        have j: "j - (b - 4) < 4" "b - 4 + (j - (b - 4)) = j" using that by linarith+
        have "cc_metadata cntr ! (b - 4 + (j - (b - 4))) = 0"
          using True j(1) read4_zero [of "cc_metadata cntr" "b - 4"] by simp
        then show ?thesis unfolding j(2) by (simp add: vt_live_def VT_EMPTY_def)
      qed
      then have "last_live cntr b = last_live cntr (b - 4)" by (intro last_live_skip) auto
      moreover have "cc_map_leap_backward cntr b = cc_map_leap_backward cntr (b - 4)"
        using False True by (subst cc_map_leap_backward.simps) simp
      ultimately show ?thesis using 1 False True by simp
    next
      case md: False
      define l where "l = cc_last_nonzero_uint16 ?md"
      note f = last_nonzero_field [OF md, folded l_def]
      have live: "vt_live (vt_of cntr) (b - 1 - l)"
      proof -
        have "b - 4 + (3 - l) = b - 1 - l" using f(2) False by simp
        then show ?thesis using f field [of "3 - l"] by (simp add: last_field_def vt_live_def VT_EMPTY_def)
      qed
      have "\<not> vt_live (vt_of cntr) j" if "Suc (b - 1 - l) \<le> j" "j < b" for j
      proof -
        have j: "3 - l < j - (b - 4)" "j - (b - 4) < 4" "b - 4 + (j - (b - 4)) = j" using that f(2) False by linarith+
        then have "field16 ?md (j - (b - 4)) = 0" using f(1) by (simp add: last_field_def)
        then show ?thesis using field [OF j(2)] j(3) by (simp add: vt_live_def VT_EMPTY_def)
      qed
      then have "last_live cntr b = last_live cntr (Suc (b - 1 - l))" using False by (intro last_live_skip) auto
      also have "\<dots> = Cc_El (b - 1 - l)" by (rule last_live_at [OF live])
      finally show ?thesis using False md by (subst cc_map_leap_backward.simps) (simp add: l_def)
    qed
  qed
qed

section \<open>The order of the keys\<close>

definition cc_inv :: "('k \<Rightarrow> u64) \<Rightarrow> ('k, 'v) cc \<Rightarrow> bool" where
  "cc_inv hf cntr \<longleftrightarrow> vt_inv hf (vt_of cntr)"

definition cc_map :: "('k, 'v) cc \<Rightarrow> 'k \<Rightarrow> 'v option" where
  "cc_map cntr = vt_map (vt_of cntr)"

definition cc_order :: "('k, 'v) cc \<Rightarrow> nat list" where
  "cc_order cntr = vt_order (vt_of cntr)"

definition cc_keys :: "('k, 'v) cc \<Rightarrow> 'k list" where
  "cc_keys cntr = map (\<lambda>b. fst (cc_buckets cntr ! b)) (cc_order cntr)"

lemma cc_keys_vt: "cc_keys cntr = vt_keys (vt_of cntr)"
  by (simp add: cc_keys_def vt_keys_def cc_order_def vt_key_def)

lemma vt_of_placeholder [simp]: "vt_of cc_map_placeholder = vt_init"
  by (simp add: vt_of_def cc_map_placeholder_def vt_init_def)

lemma cc_placeholder [simp]: "cc_inv hf cc_map_placeholder" "cc_map cc_map_placeholder = Map.empty"
  by (simp_all add: cc_inv_def cc_map_def)

lemma cc_order_less: "b \<in> set (cc_order cntr) \<Longrightarrow> b < cc_map_cap cntr"
  by (simp add: cc_order_def vt_order_def)

lemma cc_inv_cases:
  assumes "cc_inv hf cntr"
  obtains "cntr = cc_map_placeholder" | n where "vt_table hf (vt_of cntr) n" "0 < cap_mask cntr"
proof -
  have "vt_of cntr = vt_of cc_map_placeholder \<or> (\<exists>n. vt_table hf (vt_of cntr) n)"
    using assms by (simp add: cc_inv_def vt_inv_def)
  then consider "cntr = cc_map_placeholder" | n where "vt_table hf (vt_of cntr) n" unfolding vt_of_inj by blast
  then show thesis
  proof cases
    case (2 n)
    then have "0 < cap_mask cntr" using vt_tableD(2,4) [of hf "vt_of cntr" n] by (simp add: vt_shape_def)
    then show thesis using that(2) 2 by blast
  qed (rule that(1))
qed

lemma cc_next_at:
  assumes "cc_inv hf cntr" "j < length (cc_order cntr)"
  shows "cc_map_next cntr (Cc_El (cc_order cntr ! j)) =
    Some (if Suc j < length (cc_order cntr) then Cc_El (cc_order cntr ! Suc j) else cc_map_end cntr)"
  using assms(1)
proof (cases rule: cc_inv_cases)
  case 1
  then show ?thesis using assms(2) by (simp add: cc_order_def vt_order_def vt_init_def vt_bucket_count_def)
next
  case (2 n)
  note T = vt_tableD [OF 2(1)]
  let ?b = "cc_order cntr ! j"
  have ord: "cc_order cntr = filter (vt_live (vt_of cntr)) [0..<n]" by (simp add: cc_order_def vt_order_def T(9))
  have "?b < n" using cc_order_less [of ?b cntr] assms(2) T(9) by simp
  then have ff: "vt_fast_forward n (vt_of cntr) (Suc ?b) =
      Some (Some \<lparr>itr_bucket = (case filter (vt_live (vt_of cntr)) [Suc ?b..<n] of [] \<Rightarrow> n | j # _ \<Rightarrow> j), home_bucket = None\<rparr>)"
    by (intro vt_fast_forward_result [OF T(8)]) simp_all
  have rest: "filter (vt_live (vt_of cntr)) [Suc ?b..<n] = drop (Suc j) (cc_order cntr)"
    using assms(2) unfolding ord by (rule filter_upt_after)
  have next_b: "cc_map_next cntr (Cc_El ?b) = Some (Cc_El (case drop (Suc j) (cc_order cntr) of [] \<Rightarrow> n | j # _ \<Rightarrow> j))"
    using ff unfolding rest by (simp add: cc_map_next_def cc_leap_forward_vt T(9))
  show ?thesis
  proof (cases "Suc j < length (cc_order cntr)")
    case True
    then have "drop (Suc j) (cc_order cntr) = cc_order cntr ! Suc j # drop (Suc (Suc j)) (cc_order cntr)"
      by (simp add: Cons_nth_drop_Suc)
    then show ?thesis using next_b True by simp
  next
    case False
    then show ?thesis using next_b by (simp add: cc_map_end_def T(9))
  qed
qed

lemma cc_first_at:
  assumes "cc_inv hf cntr"
  shows "cc_map_first cntr = Some (if cc_order cntr = [] then cc_map_end cntr else Cc_El (cc_order cntr ! 0))"
  using assms
proof (cases rule: cc_inv_cases)
  case 1
  then show ?thesis
    by (simp add: cc_order_def vt_order_def vt_init_def vt_bucket_count_def cc_map_first_def cc_map_end_def)
       (simp add: cc_map_placeholder_def vt_bucket_count_def)
next
  case (2 n)
  note T = vt_tableD [OF 2(1)]
  have ord: "cc_order cntr = filter (vt_live (vt_of cntr)) [0..<n]" by (simp add: cc_order_def vt_order_def T(9))
  have "vt_fast_forward n (vt_of cntr) 0 =
      Some (Some \<lparr>itr_bucket = (case cc_order cntr of [] \<Rightarrow> n | j # _ \<Rightarrow> j), home_bucket = None\<rparr>)"
    unfolding ord by (rule vt_fast_forward_result [OF T(8)]) (use T(4) in simp_all)
  then show ?thesis using 2(2)
    by (simp add: cc_map_first_def cc_leap_forward_vt T(9) cc_map_end_def split: list.split)
qed

lemma upt_at: "k < n \<Longrightarrow> [0..<n] = [0..<k] @ k # [Suc k..<n]"
  using upt_add_eq_append [of 0 k "n - k"] by (simp add: upt_conv_Cons)

lemma filter_upt_before:
  assumes "j < length (filter P [0..<n])"
  shows "filter P [0..<filter P [0..<n] ! j] = take j (filter P [0..<n])"
proof -
  let ?xs = "filter P [0..<n]"
  have x: "?xs ! j \<in> set ?xs" using assms by (rule nth_mem)
  have xP: "P (?xs ! j)" and xn: "?xs ! j < n" using x unfolding set_filter by simp_all
  have "?xs = filter P [0..<?xs ! j] @ (?xs ! j) # filter P [Suc (?xs ! j)..<n]"
    using arg_cong [OF upt_at [OF xn], of "filter P"] xP by simp
  then have split: "?xs = filter P [0..<?xs ! j] @ (?xs ! j) # drop (Suc j) ?xs"
    unfolding filter_upt_after [OF assms] .
  have "?xs = take j ?xs @ ?xs ! j # drop (Suc j) ?xs" by (rule id_take_nth_drop [OF assms])
  then show ?thesis using split by (metis append_same_eq)
qed

lemma last_live_order:
  assumes "j \<le> length (cc_order cntr)"
  shows "last_live cntr (if j < length (cc_order cntr) then cc_order cntr ! j else cc_map_cap cntr) =
    (if j = 0 then Cc_R_End else Cc_El (cc_order cntr ! (j - 1)))"
proof -
  let ?b = "if j < length (cc_order cntr) then cc_order cntr ! j else cc_map_cap cntr"
  have "filter (vt_live (vt_of cntr)) [0..<?b] = take j (cc_order cntr)"
    using assms filter_upt_before [of j "vt_live (vt_of cntr)" "cc_map_cap cntr"]
    by (auto simp: cc_order_def vt_order_def)
  moreover have "last (take j (cc_order cntr)) = cc_order cntr ! (j - 1)" if "j \<noteq> 0"
    using assms that by (subst last_conv_nth) (auto simp: min_def)
  ultimately show ?thesis using assms by (auto simp: last_live_def Let_def)
qed

lemma cc_last_at:
  "cc_map_last cntr = Some (if cc_order cntr = [] then cc_map_r_end else Cc_El (cc_order cntr ! (length (cc_order cntr) - 1)))"
  using last_live_order [of "length (cc_order cntr)" cntr]
  by (auto simp: cc_map_last_def cc_map_end_def cc_leap_backward_live cc_map_r_end_def)

lemma cc_prev_at:
  assumes "j < length (cc_order cntr)"
  shows "cc_map_prev cntr (Cc_El (cc_order cntr ! j)) = Some (if j = 0 then cc_map_r_end else Cc_El (cc_order cntr ! (j - 1)))"
    and "cc_map_prev cntr (cc_map_end cntr) = cc_map_last cntr"
  using assms last_live_order [of j cntr] by (simp_all add: cc_map_prev_def cc_leap_backward_live cc_map_r_end_def cc_map_last_def cc_map_end_def)

section \<open>Clearing\<close>

definition cc_clear_events :: "('k, 'v, 'e) cc_dtor \<Rightarrow> ('k, 'v, 'e) cc_dtor \<Rightarrow> ('k, 'v) cc \<Rightarrow> nat \<Rightarrow> 'e list" where
  "cc_clear_events el_dtor key_dtor cntr b =
    cc_destroy key_dtor (Inl (fst (cc_buckets cntr ! b))) @ cc_destroy el_dtor (Inr (snd (cc_buckets cntr ! b)))"

lemma cc_clear_loop_result:
  assumes "i + c \<le> length (cc_metadata cntr)"
  shows "cc_clear_loop c el_dtor key_dtor cntr i =
    (cntr\<lparr>cc_metadata := take i (cc_metadata cntr) @ replicate c 0 @ drop (i + c) (cc_metadata cntr)\<rparr>,
     concat (map (cc_clear_events el_dtor key_dtor cntr) (filter (vt_live (vt_of cntr)) [i..<i + c])))"
  using assms
proof (induction c arbitrary: cntr i)
  case 0
  then show ?case by (cases cntr) simp
next
  case (Suc c)
  let ?md = "cc_metadata cntr"
  define c1 where "c1 = cntr\<lparr>cc_metadata := ?md[i := 0]\<rparr>"
  have len: "Suc i + c \<le> length (cc_metadata c1)" using Suc.prems by (simp add: c1_def)
  have same: "vt_live (vt_of c1) j = vt_live (vt_of cntr) j" if "Suc i \<le> j" for j
    using that by (simp add: vt_live_def c1_def)
  have filt: "filter (vt_live (vt_of c1)) [Suc i..<Suc i + c] = filter (vt_live (vt_of cntr)) [Suc i..<Suc i + c]"
    by (rule filter_cong [OF refl], rule same) auto
  have ev: "cc_clear_events el_dtor key_dtor c1 = cc_clear_events el_dtor key_dtor cntr"
    by (simp add: fun_eq_iff cc_clear_events_def c1_def)
  have range: "[i..<i + Suc c] = i # [Suc i..<Suc i + c]" by (simp add: upt_conv_Cons)
  have md: "take (Suc i) (?md[i := 0]) @ replicate c 0 @ drop (Suc i + c) (?md[i := 0]) =
      take i ?md @ replicate (Suc c) 0 @ drop (i + Suc c) ?md"
    using Suc.prems by (simp add: take_Suc_conv_app_nth drop_update_cancel)
  have IH: "cc_clear_loop c el_dtor key_dtor c1 (Suc i) =
      (cntr\<lparr>cc_metadata := take i ?md @ replicate (Suc c) 0 @ drop (i + Suc c) ?md\<rparr>,
       concat (map (cc_clear_events el_dtor key_dtor cntr) (filter (vt_live (vt_of cntr)) [Suc i..<Suc i + c])))"
    unfolding Suc.IH [OF len] filt ev md [symmetric] by (simp add: c1_def)
  show ?case
  proof (cases "vt_live (vt_of cntr) i")
    case True
    then have "?md ! i \<noteq> 0" by (simp add: vt_live_def VT_EMPTY_def)
    then have "cc_clear_loop (Suc c) el_dtor key_dtor cntr i =
      (let (c', more) = cc_clear_loop c el_dtor key_dtor c1 (Suc i) in (c', cc_clear_events el_dtor key_dtor cntr i @ more))"
      by (simp add: c1_def cc_clear_events_def cc_map_key_def cc_map_el_def VT_EMPTY_def Let_def del: cc_views)
    then show ?thesis unfolding IH range using True by simp
  next
    case False
    then have zero: "?md ! i = 0" by (simp add: vt_live_def VT_EMPTY_def)
    then have "c1 = cntr" by (simp add: c1_def list_update_same_conv Suc.prems [simplified] less_le_trans [of i "i + Suc c"]) 
    then show ?thesis using IH zero False unfolding range by simp
  qed
qed

section \<open>The operations and the map\<close>

lemma cc_order_at:
  assumes "cc_inv hf cntr"
  shows "distinct (cc_keys cntr)" "set (cc_keys cntr) = dom (cc_map cntr)" "cc_count cntr = length (cc_order cntr)"
proof -
  have inv: "vt_inv hf (vt_of cntr)" using assms by (simp add: cc_inv_def)
  show d: "distinct (cc_keys cntr)" and s: "set (cc_keys cntr) = dom (cc_map cntr)"
    using vt_order_keys [OF inv] by (simp_all add: cc_keys_vt cc_map_def)
  have "cc_count cntr = card (set (cc_keys cntr))" using vt_key_count_card [OF inv] by (simp add: s cc_map_def)
  then show "cc_count cntr = length (cc_order cntr)" using distinct_card [OF d] by (simp add: cc_keys_def)
qed

lemma cc_get_result:
  assumes "cc_inv hf cntr"
  shows "\<exists>itr. cc_map_get hf (=) cntr key = Some itr \<and>
    (case cc_map cntr key of None \<Rightarrow> itr = Cc_Null
     | Some v \<Rightarrow> \<exists>b. itr = Cc_El b \<and> b \<in> set (cc_order cntr) \<and> cc_buckets cntr ! b = (key, v))"
proof -
  obtain i where i: "vt_get hf (=) (vt_of cntr) key = Some i"
    "case vt_map (vt_of cntr) key of None \<Rightarrow> i = None
     | Some v \<Rightarrow> \<exists>b. i = Some \<lparr>itr_bucket = b, home_bucket = Some (vt_khome hf (vt_bucket_count (vt_of cntr)) key)\<rparr> \<and>
         b < vt_bucket_count (vt_of cntr) \<and> vt_live (vt_of cntr) b \<and> buckets (vt_of cntr) ! b = (key, v)"
    using vt_get_result [of hf "vt_of cntr" key] assms unfolding cc_inv_def by blast
  show ?thesis
  proof (cases "vt_map (vt_of cntr) key")
    case None
    then show ?thesis using i by (simp add: cc_get_vt cc_map_def)
  next
    case (Some v)
    then show ?thesis using i by (auto simp: cc_get_vt cc_map_def cc_order_def vt_order_def)
  qed
qed

text \<open>What an insertion gives: with \<open>replace\<close> the new value, otherwise the value that is there already.\<close>

definition cc_inserted :: "('k \<Rightarrow> u64) \<Rightarrow> ('k, 'v) cc \<Rightarrow> 'k \<Rightarrow> 'v \<Rightarrow> bool \<Rightarrow> ('k, 'v) cc \<Rightarrow> nat \<Rightarrow> bool" where
  "cc_inserted hf cntr key el replace c b \<longleftrightarrow> cc_inv hf c \<and> b \<in> set (cc_order c) \<and> fst (cc_buckets c ! b) = key \<and>
     cc_map c = (if cc_map cntr key \<noteq> None \<and> \<not> replace then cc_map cntr else (cc_map cntr)(key \<mapsto> el))"

lemma vt_inserted_cc: "vt_inserted hf n (vt_of cntr) key el replace (vt_of c) i \<Longrightarrow> cc_inserted hf cntr key el replace c (itr_bucket i)"
  using vt_tableD(9) [of hf "vt_of c" n]
  by (auto simp: vt_inserted_def cc_inserted_def cc_inv_def cc_map_def vt_inv_def cc_order_def vt_order_def)

lemma cc_insert_result:
  assumes inv: "cc_inv hf cntr" and mem: "vt_mem_ok mem"
  shows "\<exists>c itr. cc_map_insert hf (=) el_dtor key_dtor mem cntr el key replace =
      Some (c, itr, cc_replaced el_dtor key_dtor (cc_map cntr key) key replace) \<and>
    (case itr of Cc_El b \<Rightarrow> cc_inserted hf cntr key el replace c b
     | _ \<Rightarrow> itr = Cc_Null \<and> cc_map c = cc_map cntr \<and> cc_map cntr key = None \<and>
         (\<exists>n. \<not> alloc_ok mem n \<and> (cc_count cntr < 0x7FF \<longrightarrow> n < 2 ^ 13)))"
proof -
  let ?op = "if replace then vt_insert else vt_get_or_insert"
  note inv = inv [unfolded cc_inv_def]
  have "\<exists>t' itr. ?op hf (=) mem (vt_of cntr) key el = Some (t', itr) \<and>
    (case itr of
       Some i \<Rightarrow> \<exists>n. vt_inserted hf n (vt_of cntr) key el replace t' i
     | None \<Rightarrow> vt_content_ok t' \<and> vt_map t' = vt_map (vt_of cntr) \<and> key_count t' = key_count (vt_of cntr) \<and>
         vt_map (vt_of cntr) key = None \<and> (\<exists>n. \<not> alloc_ok mem n \<and> (key_count (vt_of cntr) < 0x7FF \<longrightarrow> n < 2 ^ 13)))"
  proof (cases replace)
    case True
    then show ?thesis using vt_insert_result [OF inv mem, of key el] by (simp only: if_True)
  next
    case False
    then show ?thesis using vt_get_or_insert_result [OF inv mem, of key el] by (simp only: if_False)
  qed
  then obtain t' i where r: "?op hf (=) mem (vt_of cntr) key el = Some (t', i)"
    "case i of
       Some i \<Rightarrow> \<exists>n. vt_inserted hf n (vt_of cntr) key el replace t' i
     | None \<Rightarrow> vt_content_ok t' \<and> vt_map t' = vt_map (vt_of cntr) \<and> key_count t' = key_count (vt_of cntr) \<and>
         vt_map (vt_of cntr) key = None \<and> (\<exists>n. \<not> alloc_ok mem n \<and> (key_count (vt_of cntr) < 0x7FF \<longrightarrow> n < 2 ^ 13))" by blast
  obtain c events where run: "cc_map_insert hf (=) el_dtor key_dtor mem cntr el key replace = Some (c, itr_of i, events)" "vt_of c = t'"
    using cc_insert_vt(1) [OF inv mem, of el_dtor key_dtor el key replace] r(1) by auto
  have ev: "events = cc_replaced el_dtor key_dtor (cc_map cntr key) key replace"
    unfolding cc_map_def by (rule cc_insert_vt(2) [OF inv mem run(1)])
  show ?thesis
  proof (cases i)
    case None
    then show ?thesis using run r(2) by (intro exI [of _ c] exI [of _ "itr_of i"]) (auto simp: ev cc_map_def)
  next
    case (Some j)
    then obtain n where "vt_inserted hf n (vt_of cntr) key el replace (vt_of c) j" using run(2) r(2) by auto
    from vt_inserted_cc [OF this] show ?thesis
      using run(1) Some by (intro exI [of _ c] exI [of _ "itr_of i"]) (simp add: ev)
  qed
qed

text \<open>What \<open>get\<close> answers for every key, and after a failed insertion, as in Verstable.\<close>

definition cc_finds :: "('k \<Rightarrow> u64) \<Rightarrow> ('k, 'v) cc \<Rightarrow> ('k \<Rightarrow> 'v option) \<Rightarrow> bool" where
  "cc_finds hf cntr m \<longleftrightarrow> (\<forall>key. \<exists>itr. cc_map_get hf (=) cntr key = Some itr \<and>
     (case m key of None \<Rightarrow> itr = Cc_Null | Some v \<Rightarrow> \<exists>b. itr = Cc_El b \<and> cc_buckets cntr ! b = (key, v)))"

lemma vt_finds_cc:
  assumes "vt_finds hf (vt_of cntr) m"
  shows "cc_finds hf cntr m"
  unfolding cc_finds_def
proof
  fix key
  obtain itr where "vt_get hf (=) (vt_of cntr) key = Some itr"
    "case m key of None \<Rightarrow> itr = None | Some v \<Rightarrow> \<exists>i. itr = Some i \<and> buckets (vt_of cntr) ! itr_bucket i = (key, v)"
    using assms unfolding vt_finds_def by blast
  then show "\<exists>itr. cc_map_get hf (=) cntr key = Some itr \<and>
     (case m key of None \<Rightarrow> itr = Cc_Null | Some v \<Rightarrow> \<exists>b. itr = Cc_El b \<and> cc_buckets cntr ! b = (key, v))"
    by (cases "m key") (auto simp: cc_get_vt)
qed

lemma cc_failed_insert:
  assumes run: "cc_map_insert hf (=) el_dtor key_dtor mem cntr el key replace = Some (c, Cc_Null, events)"
    and inv: "cc_inv hf cntr" and mem: "vt_mem_ok mem"
  shows "cc_inv hf c \<and> cc_finds hf c (cc_map cntr) \<or>
    (\<exists>lost. cc_map cntr lost \<noteq> None \<and> cc_finds hf c ((cc_map cntr)(lost := None)))"
proof -
  note inv = inv [unfolded cc_inv_def]
  have "map_option (apsnd itr_of) (vt_insert_loop 64 hf (=) mem (vt_of cntr) key el replace) = Some (vt_of c, Cc_Null)"
    using cc_insert_vt(1) [OF inv mem, of el_dtor key_dtor el key replace] run
    by (cases replace) (simp_all add: vt_insert_def vt_get_or_insert_def)
  then have "vt_insert_loop 64 hf (=) mem (vt_of cntr) key el replace = Some (vt_of c, None)" by auto
  from vt_failed_insert [OF this inv mem] show ?thesis
    unfolding cc_map_def cc_inv_def using vt_finds_cc by blast
qed

lemma cc_erase_result:
  assumes "cc_inv hf cntr"
  shows "\<exists>c. cc_map_erase hf (=) el_dtor key_dtor cntr key = Some (c, cc_map cntr key \<noteq> None,
      case cc_map cntr key of None \<Rightarrow> [] | Some v \<Rightarrow> cc_destroy el_dtor (Inr v) @ cc_destroy key_dtor (Inl key)) \<and>
    cc_inv hf c \<and> cc_map c = (cc_map cntr)(key := None)"
proof -
  note inv = assms [unfolded cc_inv_def]
  obtain t' where t': "vt_erase hf (=) (vt_of cntr) key = Some (t', vt_map (vt_of cntr) key \<noteq> None)" "vt_inv hf t'"
    "vt_map t' = (vt_map (vt_of cntr))(key := None)"
    using vt_erase_result [OF inv, of key] by blast
  obtain c events where run: "cc_map_erase hf (=) el_dtor key_dtor cntr key = Some (c, cc_map cntr key \<noteq> None, events)" "vt_of c = t'"
    using cc_erase_vt [of hf "(=)" el_dtor key_dtor cntr key] t'(1) by (auto simp: cc_map_def)
  obtain itr where get: "cc_map_get hf (=) cntr key = Some itr"
    "case cc_map cntr key of None \<Rightarrow> itr = Cc_Null
     | Some v \<Rightarrow> \<exists>b. itr = Cc_El b \<and> b \<in> set (cc_order cntr) \<and> cc_buckets cntr ! b = (key, v)"
    using cc_get_result [OF assms, of key] by blast
  have "events = (case cc_map cntr key of None \<Rightarrow> [] | Some v \<Rightarrow> cc_destroy el_dtor (Inr v) @ cc_destroy key_dtor (Inl key))"
  proof (cases "cc_map cntr key")
    case None
    then show ?thesis using run(1) get
      by (auto simp: cc_map_erase_def cc_map_get_def Let_def split: if_splits option.splits)
  next
    case (Some v)
    then obtain b where "itr = Cc_El b" "cc_buckets cntr ! b = (key, v)" using get(2) by auto
    moreover from this have "cc_destroy_el el_dtor key_dtor cntr b = cc_destroy el_dtor (Inr v) @ cc_destroy key_dtor (Inl key)"
      by (simp add: cc_destroy_el_def cc_map_el_def vt_key_def)
    ultimately show ?thesis using run(1) get(1) Some
      by (auto simp: cc_map_erase_def cc_map_get_def Let_def dest: cc_erase_raw_events split: if_splits option.splits)
  qed
  then show ?thesis using run t'(2,3) by (intro exI [of _ c]) (simp add: cc_inv_def cc_map_def)
qed

lemma cc_erase_itr_vt:
  "map_option (\<lambda>(c, itr, events). (vt_of c, itr)) (cc_map_erase_itr hf el_dtor key_dtor cntr (Cc_El b)) =
    map_option (apsnd itr_of) (vt_erase_itr hf (vt_of cntr) \<lparr>itr_bucket = b, home_bucket = None\<rparr>)"
proof (cases "cc_map_erase_raw hf el_dtor key_dtor cntr b None")
  case None
  then show ?thesis
    using cc_erase_raw_vt [of hf el_dtor key_dtor cntr b None] by (simp add: cc_map_erase_itr_def vt_erase_itr_def)
next
  case (Some r)
  obtain c advance events where r: "r = (c, advance, events)" by (cases r)
  have raw: "vt_erase_itr_raw hf (vt_of cntr) \<lparr>itr_bucket = b, home_bucket = None\<rparr> = Some (vt_of c, advance)"
    using cc_erase_raw_vt [of hf el_dtor key_dtor cntr b None] Some r by simp
  show ?thesis
    using Some r raw
    by (simp add: cc_map_erase_itr_def vt_erase_itr_def cc_map_next_def vt_next_def cc_leap_forward_vt option.map_comp comp_def)
qed

lemma cc_clear_result:
  assumes "cc_inv hf cntr"
  shows "vt_of (fst (cc_map_clear el_dtor key_dtor cntr)) = vt_clear (vt_of cntr)"
    and "snd (cc_map_clear el_dtor key_dtor cntr) = concat (map (cc_clear_events el_dtor key_dtor cntr) (cc_order cntr))"
proof -
  have "vt_of (fst (cc_map_clear el_dtor key_dtor cntr)) = vt_clear (vt_of cntr) \<and>
    snd (cc_map_clear el_dtor key_dtor cntr) = concat (map (cc_clear_events el_dtor key_dtor cntr) (cc_order cntr))"
  proof (cases "cc_count cntr = 0")
    case True
    then show ?thesis using cc_order_at(3) [OF assms] by (simp add: cc_map_clear_def cc_map_size_def vt_clear_def)
  next
    case False
    then obtain n where tbl: "vt_table hf (vt_of cntr) n"
      using cc_inv_cases [OF assms] by (metis cc.select_convs(1) cc_map_placeholder_def)
    note T = vt_tableD [OF tbl]
    have "n \<le> length (cc_metadata cntr)" using T(2) by (simp add: vt_shape_def)
    then show ?thesis
      using False cc_clear_loop_result [of 0 n cntr el_dtor key_dtor]
      by (simp add: cc_map_clear_def cc_map_size_def vt_clear_def T(9) cc_order_def vt_order_def VT_EMPTY_def)
  qed
  then show "vt_of (fst (cc_map_clear el_dtor key_dtor cntr)) = vt_clear (vt_of cntr)"
    and "snd (cc_map_clear el_dtor key_dtor cntr) = concat (map (cc_clear_events el_dtor key_dtor cntr) (cc_order cntr))"
    by simp_all
qed

lemma cc_clone_result:
  assumes "cc_inv hf cntr"
  shows "case cc_map_init_clone mem cntr of
      None \<Rightarrow> cc_count cntr \<noteq> 0 \<and> \<not> alloc_ok mem (cc_map_cap cntr)
    | Some c \<Rightarrow> cc_inv hf c \<and> cc_map c = cc_map cntr"
proof (cases "cc_count cntr = 0")
  case True
  then have "set (cc_keys cntr) = {}" using cc_order_at(3) [OF assms] by (simp add: cc_keys_def)
  then have "cc_map cntr = Map.empty" unfolding cc_order_at(2) [OF assms] by simp
  then show ?thesis using True by (simp add: cc_map_init_clone_def cc_map_size_def)
next
  case False
  then show ?thesis using assms by (cases cntr) (simp add: cc_map_init_clone_def cc_map_size_def)
qed

end
