(* ===== verification/Ccmap_Shim.thy ===== *)
theory Ccmap_Shim
  imports Ccmap_Table
begin

text \<open>
  The layout of CC's buckets, \<open>src/shims/cc_lib_map/shim.h\<close>, the proof that the shim keeps the contract for each
  of the three blueprints, and the properties of CC's map.
\<close>

section \<open>Layout\<close>

lemma take_bit_nat_eq: "take_bit a (n :: nat) = n mod 2 ^ a"
  by (rule take_bit_eq_mod)

lemma CC_PADDING_result:
  assumes "align = 2 ^ a" "a \<le> 16"
  shows "unat (CC_PADDING sz align) < 2 ^ a" "2 ^ a dvd unat sz + unat (CC_PADDING sz align)"
proof -
  have "(2 :: u64) ^ a - 1 = mask a" by (simp add: mask_eq_decr_exp)
  moreover have "NOT sz + 1 = - sz" by (simp add: minus_eq_not_plus_1)
  ultimately have pad: "CC_PADDING sz align = take_bit a (- sz)"
    unfolding CC_PADDING_def assms(1) by (simp add: take_bit_eq_mask)
  show "unat (CC_PADDING sz align) < 2 ^ a" unfolding pad by (simp add: unsigned_take_bit_eq)
  have "(unat sz + unat (- sz)) mod 2 ^ a = 0"
  proof (cases "sz = 0")
    case False
    have less: "unat sz < 2 ^ 64" using unsigned_less [of sz] by simp
    have "of_nat (2 ^ 64 - unat sz) = (- sz :: u64)" using less by (simp add: of_nat_diff)
    moreover have "0 < unat sz" using False by (simp add: unat_gt_0)
    ultimately have "unat (- sz) = 2 ^ 64 - unat sz"
      using unat_of_nat [of "2 ^ 64 - unat sz", where 'a = 64] by simp
    moreover note less
    moreover have "(2::nat) ^ a dvd 2 ^ 64" by (rule le_imp_power_dvd) (use assms(2) in simp)
    ultimately show ?thesis by simp
  qed simp
  then show "2 ^ a dvd unat sz + unat (CC_PADDING sz align)"
    unfolding pad unsigned_take_bit_eq take_bit_nat_eq mod_add_right_eq dvd_eq_mod_eq_0 .
qed

text \<open>A size and its padding add up to a multiple of the alignment.\<close>

lemma CC_PADDING_aligned:
  assumes "align = 2 ^ a" "a \<le> 16" "unat sz < 2 ^ 63"
  shows "unat (sz + CC_PADDING sz align) = unat sz + unat (CC_PADDING sz align)" "2 ^ a dvd unat (sz + CC_PADDING sz align)"
proof -
  note p = CC_PADDING_result [OF assms(1,2), of sz]
  have "(2::nat) ^ a \<le> 2 ^ 16" by (rule power_increasing) (use assms(2) in simp_all)
  then have "unat sz + unat (CC_PADDING sz align) < 2 ^ 64" using p(1) assms(3) by simp
  then show "unat (sz + CC_PADDING sz align) = unat sz + unat (CC_PADDING sz align)"
    by (subst unat_word_ariths(1)) simp
  then show "2 ^ a dvd unat (sz + CC_PADDING sz align)" using p(2) by simp
qed

lemma unat_bit_less: "unat (w :: u64) < 2 ^ n \<Longrightarrow> bit w i \<Longrightarrow> i < n"
proof (rule ccontr)
  assume a: "unat w < 2 ^ n" "bit w i" "\<not> i < n"
  then have "take_bit n (unat w) = unat w" by (simp add: take_bit_nat_eq_self)
  then have "bit (take_bit n (unat w)) i" using a(2) by (simp add: bit_unsigned_iff)
  then show False using a(3) by (simp add: bit_take_bit_iff)
qed

lemma layout_fields:
  fixes k p q :: u64
  assumes "unat k < 2 ^ 32" "unat p < 2 ^ 16" "unat q < 2 ^ 16"
  defines "l \<equiv> k OR push_bit 32 p OR push_bit 48 q"
  shows "unat (ucast l :: u32) = unat k" "unat (ucast (drop_bit 32 l) :: u16) = unat p" "unat (ucast (drop_bit 48 l) :: u16) = unat q"
    "(ucast (ucast l :: u32) :: u64) = k" "(ucast (ucast (drop_bit 32 l) :: u16) :: u64) = p" "(ucast (ucast (drop_bit 48 l) :: u16) :: u64) = q"
proof -
  note b = unat_bit_less [OF assms(1)] unat_bit_less [OF assms(2)] unat_bit_less [OF assms(3)]
  show k: "(ucast (ucast l :: u32) :: u64) = k"
    by (rule bit_word_eqI) (auto simp: l_def bit_ucast_iff bit_or_iff bit_push_bit_iff dest: b)
  show p: "(ucast (ucast (drop_bit 32 l) :: u16) :: u64) = p"
    by (rule bit_word_eqI) (auto simp: l_def bit_ucast_iff bit_or_iff bit_push_bit_iff bit_drop_bit_eq dest: b)
  show q: "(ucast (ucast (drop_bit 48 l) :: u16) :: u64) = q"
    by (rule bit_word_eqI) (auto simp: l_def bit_ucast_iff bit_or_iff bit_push_bit_iff bit_drop_bit_eq dest: b)
  show "unat (ucast l :: u32) = unat k" "unat (ucast (drop_bit 32 l) :: u16) = unat p" "unat (ucast (drop_bit 48 l) :: u16) = unat q"
    unfolding arg_cong [OF k, of unat, symmetric] arg_cong [OF p, of unat, symmetric] arg_cong [OF q, of unat, symmetric]
    by (simp_all add: unsigned_ucast_eq unsigned_take_bit_eq)
qed

text \<open>Header, buckets and metadata of a map do not overlap, as long as the size of the allocation fits.\<close>

lemma cc_allocation_fits:
  fixes cap el_size layout :: u64
  defines "bs \<equiv> unat (CC_BUCKET_SIZE el_size layout)" and "details \<equiv> cc_map_allocation_details cap el_size layout"
  assumes "bs * unat cap + 2 * unat cap < 2 ^ 62"
  shows "unat (snd details) = unat (fst details) + 2 * (unat cap + 4)" "2 dvd unat (fst details)"
    "b < cap \<Longrightarrow> unat (cc_map_el_offset b el_size layout) = 32 + bs * unat b \<and>
      unat (cc_map_el_offset b el_size layout) + bs \<le> unat (fst details)"
proof -
  let ?bs = "CC_BUCKET_SIZE el_size layout"
  define pad where "pad = CC_PADDING (?bs * cap) 2"
  have buckets: "unat (?bs * cap) = bs * unat cap"
    by (subst unat_word_ariths(2)) (use assms(3) in \<open>simp add: bs_def\<close>)
  have "unat (?bs * cap) < 2 ^ 63" using assms(3) by (simp add: buckets)
  note p = CC_PADDING_aligned [of 2 1 "?bs * cap", OF _ _ this, folded pad_def, simplified]
  have pad: "unat pad < 2" unfolding pad_def using CC_PADDING_result(1) [of 2 1 "?bs * cap"] by simp
  have off: "fst details = 32 + (?bs * cap + pad)"
    by (simp add: details_def cc_map_allocation_details_def CC_MAP_HDR_SIZE_def pad_def Let_def add.assoc)
  have uoff: "unat (fst details) = 32 + (bs * unat cap + unat pad)"
    unfolding off by (subst unat_word_ariths(1)) (use p(1) buckets pad assms(3) in simp)
  have "even (unat (?bs * cap + pad))" using p(2) by simp
  then show "2 dvd unat (fst details)" using uoff p(1) buckets by simp
  have two: "unat (2 * (cap + 4)) = 2 * (unat cap + 4)"
    by (subst unat_word_ariths(2), subst unat_word_ariths(1)) (use assms(3) in simp)
  show "unat (snd details) = unat (fst details) + 2 * (unat cap + 4)"
  proof -
    have "snd details = fst details + 2 * (cap + 4)" by (simp add: details_def cc_map_allocation_details_def Let_def)
    then show ?thesis using uoff two pad assms(3) by (simp add: unat_word_ariths(1))
  qed
  assume "b < cap"
  then have b: "Suc (unat b) \<le> unat cap" by (simp add: word_less_nat_alt)
  have le: "bs * Suc (unat b) \<le> bs * unat cap" by (rule mult_le_mono2 [OF b])
  have "unat (?bs * b) = bs * unat b"
    by (subst unat_word_ariths(2)) (use assms(3) le in \<open>simp add: bs_def\<close>)
  then have el: "unat (cc_map_el_offset b el_size layout) = 32 + bs * unat b"
    using le assms(3) by (simp add: cc_map_el_offset_def CC_MAP_HDR_SIZE_def unat_word_ariths(1))
  then show "unat (cc_map_el_offset b el_size layout) = 32 + bs * unat b \<and>
      unat (cc_map_el_offset b el_size layout) + bs \<le> unat (fst details)"
    using le uoff by simp
qed

text \<open>
  The code does not check that it fits: for a capacity of \<open>2 ^ 63\<close>, which \<open>cc_reserve\<close> computes for requests
  above \<open>0.875 * 2 ^ 62\<close>, and buckets of even size only 40 bytes are requested; for requests from \<open>2 ^ 63\<close> on the
  capacity wraps around to 0 and the loop never ends.
\<close>

lemma cc_allocation_wraps:
  assumes "even (unat (CC_BUCKET_SIZE el_size layout))"
  shows "cc_map_allocation_details (2 ^ 63) el_size layout = (32, 40)"
proof -
  obtain q where "unat (CC_BUCKET_SIZE el_size layout) = 2 * q" using assms by (elim evenE)
  then have "unat (CC_BUCKET_SIZE el_size layout * 2 ^ 63) = (2 * q * 2 ^ 63) mod 2 ^ 64"
    by (simp add: unat_word_ariths(2))
  also have "\<dots> = 0" by simp
  finally have "CC_BUCKET_SIZE el_size layout * 2 ^ 63 = 0" by (simp add: unat_eq_0)
  then show ?thesis by (simp add: cc_map_allocation_details_def CC_MAP_HDR_SIZE_def CC_PADDING_def Let_def)
qed

lemma cc_min_cap_huge:
  assumes "2 ^ 63 \<le> n" and "cap = 0 \<or> (\<exists>k. cap = 2 ^ k \<and> k \<le> 63)"
  shows "cc_min_cap_loop fuel n cap = None"
  using assms(2)
proof (induction fuel arbitrary: cap)
  case (Suc fuel)
  have "cap \<le> 2 ^ 63" using Suc.prems power_increasing [of _ 63 "2 :: nat"] by auto
  then have more: "7 * cap < 8 * n" using assms(1) by simp
  have "wrap64 (cap * 2) = 0 \<or> (\<exists>k. wrap64 (cap * 2) = 2 ^ k \<and> k \<le> 63)"
  proof (cases "cap = 0 \<or> cap = 2 ^ 63")
    case True
    then show ?thesis by (auto simp: wrap64_def)
  next
    case False
    then obtain k where k: "cap = 2 ^ k" "k < 63" using Suc.prems by (metis le_neq_implies_less)
    have "(2::nat) ^ Suc k < 2 ^ 64" using k(2) by (intro power_strict_increasing) simp_all
    then have "wrap64 (cap * 2) = 2 ^ Suc k" using k(1) by (simp add: wrap64_def)
    then show ?thesis using k(2) by (intro disjI2 exI [of _ "Suc k"]) simp
  qed
  then show ?case using Suc.IH more by simp
qed simp

section \<open>The shim\<close>

text \<open>The equality CC makes of the three-way comparison of the shim, \<open>return !cmpr_keys( val_1.data, val_2.data )\<close>.\<close>

definition cc_fn_three_way :: "('k \<Rightarrow> 'k \<Rightarrow> bool) \<Rightarrow> 'k \<Rightarrow> 'k \<Rightarrow> int" where
  "cc_fn_three_way cmpr_keys val_1 val_2 = (if cmpr_keys val_1 val_2 then 0 else 1)"

definition cc_fn_equals :: "('k \<Rightarrow> 'k \<Rightarrow> bool) \<Rightarrow> 'k \<Rightarrow> 'k \<Rightarrow> bool" where
  "cc_fn_equals cmpr_keys val_1 val_2 \<longleftrightarrow> cc_fn_three_way cmpr_keys val_1 val_2 = 0"

lemma cc_fn_equals_eq [simp]: "cc_fn_equals cmpr_keys = cmpr_keys"
  by (simp add: fun_eq_iff cc_fn_equals_def cc_fn_three_way_def)

text \<open>Keys and values have no destructors here.\<close>

definition cc_no_dtor :: "('k, 'v, unit) cc_dtor" where
  "cc_no_dtor = None"

definition cc_shim_ops ::
  "('k \<Rightarrow> u64) \<Rightarrow> ('k \<Rightarrow> 'k \<Rightarrow> bool) \<Rightarrow> ('k, 'v) vt_mem \<Rightarrow> 'v \<Rightarrow> (('k, 'v) cc, 'k, 'v, cc_itr) shim_ops" where
  "cc_shim_ops hf cmpr mem dflt =
    \<lparr>create_table = cc_map_placeholder,
     sh_insert = (\<lambda>t key. map_option fst (cc_map_insert hf (cc_fn_equals cmpr) cc_no_dtor cc_no_dtor mem t dflt key True)),
     sh_erase = (\<lambda>t key. map_option fst (cc_map_erase hf (cc_fn_equals cmpr) cc_no_dtor cc_no_dtor t key)),
     sh_find = cc_map_get hf (cc_fn_equals cmpr),
     begin_itr = cc_map_first,
     is_itr_valid = (\<lambda>t itr. itr \<noteq> Cc_Null \<and> itr \<noteq> cc_map_end t),
     increment_itr = cc_map_next,
     get_key_from_itr = (\<lambda>t itr. case itr of Cc_El b \<Rightarrow> fst (cc_buckets t ! b)),
     get_value_from_itr = (\<lambda>t itr. case itr of Cc_El b \<Rightarrow> snd (cc_buckets t ! b))\<rparr>"

definition cc_at :: "('k, 'v) cc \<Rightarrow> cc_itr \<Rightarrow> nat \<Rightarrow> bool" where
  "cc_at t itr j \<longleftrightarrow> j < length (cc_order t) \<and> itr = Cc_El (cc_order t ! j)"

lemma cc_insert_small:
  assumes inv: "cc_inv hf t" and small: "card (dom (cc_map t)) < 0x7FF"
  shows "\<exists>t' b events. cc_map_insert hf (=) el_dtor key_dtor (vt_good_mem fk fv) t el key replace = Some (t', Cc_El b, events) \<and>
    cc_inserted hf t key el replace t' b"
proof -
  have "cc_count t < 0x7FF"
    using small vt_key_count_card [of hf "vt_of t"] inv by (simp add: cc_inv_def cc_map_def)
  moreover obtain c itr where "cc_map_insert hf (=) el_dtor key_dtor (vt_good_mem fk fv) t el key replace =
      Some (c, itr, cc_replaced el_dtor key_dtor (cc_map t key) key replace)"
    "case itr of Cc_El b \<Rightarrow> cc_inserted hf t key el replace c b
     | _ \<Rightarrow> itr = Cc_Null \<and> cc_map c = cc_map t \<and> cc_map t key = None \<and>
         (\<exists>n. \<not> alloc_ok (vt_good_mem fk fv) n \<and> (cc_count t < 0x7FF \<longrightarrow> n < 2 ^ 13))"
    using cc_insert_result [OF inv vt_good_mem_ok] by blast
  ultimately show ?thesis by (auto simp: vt_good_mem_def split: cc_itr.splits)
qed

lemma cc_shim_keeps_contract:
  "iterable_shim (cc_shim_ops hf (=) (vt_good_mem fk fv) dflt) (cc_inv hf) cc_map dflt 0x7FF cc_keys cc_at"
proof (unfold_locales, goal_cases)
  case 1
  then show ?case by (simp add: cc_shim_ops_def)
next
  case 2
  then show ?case by (simp add: cc_shim_ops_def)
next
  case (3 t key)
  then show ?case
    using cc_insert_small [OF 3, of cc_no_dtor cc_no_dtor fk fv dflt key True] by (auto simp: cc_shim_ops_def cc_inserted_def)
next
  case (4 t key)
  then show ?case using cc_erase_result [OF 4, of cc_no_dtor cc_no_dtor key] by (auto simp: cc_shim_ops_def)
next
  case (5 t key)
  show ?case
    using cc_get_result [OF 5, of key]
    by (cases "cc_map t key") (auto simp: cc_shim_ops_def cc_map_end_def dest!: cc_order_less)
next
  case (6 t i j)
  then have "cc_order t ! j < vt_bucket_count (vt_of t)" using cc_order_less [of "cc_order t ! j" t] by (simp add: cc_at_def)
  then show ?case using 6(2) by (auto simp: cc_shim_ops_def cc_at_def cc_keys_def cc_map_end_def)
next
  case (7 t)
  then show ?case using cc_order_at by blast
next
  case (8 t)
  then show ?case using cc_first_at [OF 8] by (auto simp: cc_shim_ops_def cc_at_def cc_keys_def)
next
  case (9 t i j)
  then have "j < length (cc_order t)" "i = Cc_El (cc_order t ! j)" by (simp_all add: cc_at_def)
  then show ?case using cc_next_at [OF 9(1)] by (auto simp: cc_shim_ops_def cc_at_def cc_keys_def)
next
  case (10 t key i)
  then obtain b where "i = Cc_El b" "b \<in> set (cc_order t)"
    using cc_get_result [OF 10(1), of key] by (auto simp: cc_shim_ops_def split: option.splits)
  then show ?case by (auto simp: cc_at_def in_set_conv_nth)
qed

lemmas cc_shim_histories = shim.history_simulated [OF iterable_shim.axioms(1) [OF cc_shim_keeps_contract]]

interpretation cc_uint32: iterable_shim
  "cc_shim_ops hash_key_uint32 cmpr_keys_uint32 (vt_good_mem fk fv) dflt" "cc_inv hash_key_uint32"
  cc_map dflt "0x7FF" cc_keys cc_at for fk and fv dflt :: u32
  unfolding bp_uint32.cmpr_is_eq by (rule cc_shim_keeps_contract)

interpretation cc_uint64: iterable_shim
  "cc_shim_ops hash_key_uint64 cmpr_keys_uint64 (vt_good_mem fk fv) dflt" "cc_inv hash_key_uint64"
  cc_map dflt "0x7FF" cc_keys cc_at for fk and fv dflt :: "u8 list"
  unfolding bp_uint64.cmpr_is_eq by (rule cc_shim_keeps_contract)

interpretation cc_cstring: iterable_shim
  "cc_shim_ops hash_key_cstring cmpr_keys_cstring (vt_good_mem fk fv) dflt" "cc_inv hash_key_cstring"
  cc_map dflt "0x7FF" cc_keys cc_at for fk and fv dflt :: u64
  unfolding bp_cstring.cmpr_is_eq by (rule cc_shim_keeps_contract)

section \<open>An example map\<close>

text \<open>Keys 0, 8 and 1 under the identity as hash function, inserted in this order.\<close>

definition cc_example :: "(u32, u32) cc" where
  "cc_example = \<lparr>cc_count = 3, cap_mask = 7,
     cc_buckets = [(0, 7), (1, 7), (0, 0), (8, 7), (0, 0), (0, 0), (0, 0), (0, 0)],
     cc_metadata = [0x0802, 0x0FFF, 0, 0x07FF, 0, 0, 0, 0, 1, 0, 0, 0]\<rparr>"

lemma cc_example_vt: "vt_of cc_example = vt_example"
  by (simp add: vt_of_def cc_example_def vt_example_def)

lemma cc_example_run:
  "run_shim (cc_shim_ops vt_id_hash (=) (vt_good_mem 0 (0 :: u32)) 7) [Insert 0, Insert 8, Insert 1] cc_map_placeholder = Some cc_example"
  by code_simp

lemma cc_example_inv: "cc_inv vt_id_hash cc_example"
  by (simp add: cc_inv_def cc_example_vt vt_example_inv)

lemma cc_example_map: "cc_map cc_example = [0 \<mapsto> 7, 8 \<mapsto> 7, 1 \<mapsto> 7]"
  by (simp add: cc_map_def cc_example_vt vt_example_map)

lemma cc_example_order: "cc_order cc_example = [0, 1, 3]"
  by code_simp

section \<open>Properties\<close>

text \<open>C8: CC's map behind its shim implements a map, for every type of keys and values, every hash function and
  every default value, with equality as comparison: after any sequence of up to 2047 insertions and
  erasures, starting from a new table and with an allocator that gives what fits in the address space,
  every call has returned, and \<open>find\<close> gives a valid iterator exactly for the keys the same sequence
  leaves in the map, to the value the shim stored; also when all hash codes are equal.\<close>

theorem cc_shim_implements_map:
  assumes "length calls \<le> 2047"
  shows "\<exists>t itr.
    run_shim (cc_shim_ops hf (=) (vt_good_mem fk fv) dflt) calls cc_map_placeholder = Some t \<and>
    cc_map_get hf (cc_fn_equals (=)) t key = Some itr \<and>
    (case run_map dflt calls Map.empty key of
       None \<Rightarrow> itr = Cc_Null
     | Some v \<Rightarrow> \<exists>b. itr = Cc_El b \<and> b < cc_map_cap t \<and> cc_buckets t ! b = (key, v))"
proof -
  have "length calls \<le> 0x7FF" using assms by simp
  then obtain t where t: "run_shim (cc_shim_ops hf (=) (vt_good_mem fk fv) dflt) calls cc_map_placeholder = Some t"
    "cc_inv hf t" "cc_map t = run_map dflt calls Map.empty"
    using cc_shim_histories [where hf = hf and fk = fk and fv = fv and dflt = dflt and t = cc_map_placeholder and cs = calls] by auto
  show ?thesis
    using t cc_get_result [OF t(2), of key] cc_order_less [of _ t]
    by (intro exI [of _ t]) (auto split: option.splits)
qed

theorem cc_shim_implements_map_witness:
  "\<exists>t itr.
    run_shim (cc_shim_ops hash_key_cstring cmpr_keys_cstring (vt_good_mem (mk_cstr []) 0) (7 :: u64))
      [Insert (mk_cstr [97]), Insert (mk_cstr [98]), Erase (mk_cstr [97])] cc_map_placeholder = Some t \<and>
    cc_map_get hash_key_cstring (cc_fn_equals cmpr_keys_cstring) t (mk_cstr [98]) = Some itr \<and> itr \<noteq> Cc_Null"
proof -
  have "mk_cstr [98] \<noteq> mk_cstr [97]" by (subst mk_cstr_inj) simp_all
  then show ?thesis
    using cc_shim_implements_map [of "[Insert (mk_cstr [97]), Insert (mk_cstr [98]), Erase (mk_cstr [97])]"
        hash_key_cstring "mk_cstr []" 0 7 "mk_cstr [98]"] by (auto simp: bp_cstring.cmpr_is_eq)
qed

text \<open>C24: the map of CC is Verstable with other handles: on the same header, buckets and metadata \<open>get\<close>, \<open>insert\<close>
  with and without \<open>replace\<close>, \<open>erase\<close>, erasure through an iterator, \<open>reserve\<close> and \<open>shrink\<close> do the same
  to the table and give the same results, allocation failures included, although CC's rehash inserts
  by a function of its own that checks no load factor.\<close>

theorem cc_matches_verstable:
  assumes "cc_inv hf cntr" and "vt_mem_ok mem" and "n \<le> 2 ^ 60" and "cc_count cntr \<le> 2 ^ 60"
  shows "cc_map_get hf (=) cntr key = map_option itr_of (vt_get hf (=) (vt_of cntr) key) \<and>
    map_option (\<lambda>(c, itr, events). (vt_of c, itr)) (cc_map_insert hf (=) el_dtor key_dtor mem cntr el key replace) =
      map_option (apsnd itr_of) ((if replace then vt_insert else vt_get_or_insert) hf (=) mem (vt_of cntr) key el) \<and>
    map_option (\<lambda>(c, found, events). (vt_of c, found)) (cc_map_erase hf (=) el_dtor key_dtor cntr key) = vt_erase hf (=) (vt_of cntr) key \<and>
    map_option (\<lambda>(c, itr, events). (vt_of c, itr)) (cc_map_erase_itr hf el_dtor key_dtor cntr (Cc_El b)) =
      map_option (apsnd itr_of) (vt_erase_itr hf (vt_of cntr) \<lparr>itr_bucket = b, home_bucket = None\<rparr>) \<and>
    map_option (apfst vt_of) (cc_map_reserve hf mem cntr n) = vt_reserve hf (=) mem (vt_of cntr) n \<and>
    map_option (apfst vt_of) (cc_map_shrink hf mem cntr) = vt_shrink hf (=) mem (vt_of cntr)"
  using cc_insert_vt(1) [OF assms(1) [unfolded cc_inv_def] assms(2)] cc_reserve_vt [OF assms(1) [unfolded cc_inv_def] assms(3)]
    cc_shrink_vt [OF assms(1) [unfolded cc_inv_def] assms(4)] cc_get_vt cc_erase_vt cc_erase_itr_vt
  by (intro conjI)

theorem cc_matches_verstable_witness:
  "map_option (\<lambda>(c, found, events). (vt_of c, found)) (cc_map_erase vt_id_hash (=) cc_no_dtor cc_no_dtor cc_example 8) =
    vt_erase vt_id_hash (=) vt_example 8"
proof -
  have "cc_count cc_example \<le> 2 ^ 60" by (simp add: cc_example_def)
  then show ?thesis
    using cc_matches_verstable [OF cc_example_inv vt_good_mem_ok, of 0 8 cc_no_dtor cc_no_dtor 0 0 7 True 0]
    unfolding cc_example_vt by simp
qed

text \<open>C19: \<open>insert\<close> returns on every map and with every allocator that gives no more than \<open>2 ^ 60\<close> buckets. It
  gives an iterator to the key in a map that satisfies the invariant, with the element stored (or,
  without \<open>replace\<close>, an existing one kept), or \<open>NULL\<close> after a failed allocation; then the arrays still
  hold every entry, and either the invariant holds and \<open>get\<close> sees all entries, or a failed eviction has
  disconnected one key and \<open>get\<close> sees all entries but that one. It calls the destructors of exactly the
  key and the element it replaces, each once, the key's first.\<close>

theorem cc_insert_any_allocator:
  assumes "cc_inv hf cntr" and "vt_mem_ok mem"
  shows "\<exists>c itr. cc_map_insert hf (=) (Some ed) (Some kd) mem cntr el key replace =
      Some (c, itr, case cc_map cntr key of Some v \<Rightarrow> if replace then [kd (Inl key), ed (Inr v)] else [] | None \<Rightarrow> []) \<and>
    (case itr of
       Cc_El b \<Rightarrow> cc_inv hf c \<and> b < cc_map_cap c \<and> fst (cc_buckets c ! b) = key \<and>
         cc_map c = (if cc_map cntr key \<noteq> None \<and> \<not> replace then cc_map cntr else (cc_map cntr)(key \<mapsto> el))
     | _ \<Rightarrow> itr = Cc_Null \<and> cc_map c = cc_map cntr \<and> cc_map cntr key = None \<and> (\<exists>n. \<not> alloc_ok mem n) \<and>
         (cc_inv hf c \<and> cc_finds hf c (cc_map cntr) \<or>
          (\<exists>lost. cc_map cntr lost \<noteq> None \<and> cc_finds hf c ((cc_map cntr)(lost := None)))))"
proof -
  obtain c itr where r: "cc_map_insert hf (=) (Some ed) (Some kd) mem cntr el key replace =
      Some (c, itr, cc_replaced (Some ed) (Some kd) (cc_map cntr key) key replace)"
    "case itr of Cc_El b \<Rightarrow> cc_inserted hf cntr key el replace c b
     | _ \<Rightarrow> itr = Cc_Null \<and> cc_map c = cc_map cntr \<and> cc_map cntr key = None \<and>
         (\<exists>n. \<not> alloc_ok mem n \<and> (cc_count cntr < 0x7FF \<longrightarrow> n < 2 ^ 13))"
    using cc_insert_result [OF assms] by blast
  have ev: "cc_replaced (Some ed) (Some kd) (cc_map cntr key) key replace =
      (case cc_map cntr key of Some v \<Rightarrow> if replace then [kd (Inl key), ed (Inr v)] else [] | None \<Rightarrow> [])"
    by (simp add: cc_replaced_def cc_destroy_def split: option.split)
  have lost: "cc_inv hf c \<and> cc_finds hf c (cc_map cntr) \<or>
      (\<exists>lost. cc_map cntr lost \<noteq> None \<and> cc_finds hf c ((cc_map cntr)(lost := None)))" if "itr = Cc_Null"
    by (rule cc_failed_insert [OF r(1) [unfolded that] assms])
  show ?thesis
    unfolding ev [symmetric] using r lost
    by (intro exI [of _ c] exI [of _ itr]) (auto simp: cc_inserted_def dest: cc_order_less split: cc_itr.splits)
qed

theorem cc_insert_any_allocator_witness:
  "\<exists>c itr. cc_map_insert vt_id_hash (=) (Some id) (Some id) (vt_good_mem 0 0) cc_example 5 8 True = Some (c, itr, [Inl 8, Inr 7]) \<and>
    cc_map c 8 = Some 5"
proof -
  have old: "cc_map cc_example 8 = Some 7" by (simp add: cc_example_map)
  obtain c itr where c: "cc_map_insert vt_id_hash (=) (Some id) (Some id) (vt_good_mem 0 0) cc_example 5 8 True = Some (c, itr, [Inl 8, Inr 7])"
    "case itr of Cc_El b \<Rightarrow> cc_map c = (cc_map cc_example)(8 \<mapsto> 5) | _ \<Rightarrow> False"
    using cc_insert_any_allocator [OF cc_example_inv vt_good_mem_ok, of id id 0 0 5 8 True] old by (fastforce split: cc_itr.splits)
  then have "cc_map c 8 = Some 5" by (cases itr) simp_all
  then show ?thesis using c(1) by blast
qed

text \<open>C34: iteration in both directions: \<open>first\<close> and \<open>next\<close> visit the occupied buckets in ascending order and end at
  \<open>end\<close>, \<open>last\<close> and \<open>prev\<close> visit the same buckets in descending order and end at \<open>r_end\<close>, although both read
  the metadata four at a time; the buckets hold every key of the map once.\<close>

theorem cc_iteration_both_ways:
  assumes "cc_inv hf cntr"
  defines "bs \<equiv> filter (\<lambda>b. cc_metadata cntr ! b \<noteq> CC_MAP_EMPTY) [0..<cc_map_cap cntr]"
  shows "distinct (map (cc_map_key cntr) bs) \<and> cc_map_key cntr ` set bs = dom (cc_map cntr) \<and> length bs = cc_map_size cntr \<and>
    cc_map_first cntr = Some (if bs = [] then cc_map_end cntr else Cc_El (bs ! 0)) \<and>
    cc_map_last cntr = Some (if bs = [] then cc_map_r_end else Cc_El (bs ! (length bs - 1))) \<and>
    (\<forall>j < length bs.
      cc_map_next cntr (Cc_El (bs ! j)) = Some (if Suc j < length bs then Cc_El (bs ! Suc j) else cc_map_end cntr) \<and>
      cc_map_prev cntr (Cc_El (bs ! j)) = Some (if j = 0 then cc_map_r_end else Cc_El (bs ! (j - 1))))"
proof -
  have bs: "bs = cc_order cntr" by (simp add: bs_def cc_order_def vt_order_def vt_live_def [abs_def])
  have keys: "map (cc_map_key cntr) bs = cc_keys cntr" by (simp add: bs cc_keys_def vt_key_def)
  have "cc_map_key cntr ` set bs = dom (cc_map cntr)" using arg_cong [OF keys, of set] cc_order_at(2) [OF assms(1)] by simp
  then show ?thesis
    using cc_order_at(1,3) [OF assms(1)] cc_first_at [OF assms(1)] cc_last_at [of cntr] cc_next_at [OF assms(1)] cc_prev_at(1) [of _ cntr]
    unfolding keys unfolding bs cc_map_size_def by auto
qed

theorem cc_iteration_both_ways_witness:
  "cc_map_last cc_example = Some (Cc_El 3) \<and> cc_map_prev cc_example (Cc_El 3) = Some (Cc_El 1) \<and>
    cc_map_next cc_example (Cc_El 1) = Some (Cc_El 3)"
proof -
  have "filter (\<lambda>b. cc_metadata cc_example ! b \<noteq> CC_MAP_EMPTY) [0..<cc_map_cap cc_example] = [0, 1, 3]" by code_simp
  note it = cc_iteration_both_ways [OF cc_example_inv, unfolded this]
  have last: "cc_map_last cc_example = Some (Cc_El ([0, 1, 3] ! 2))"
    and steps: "\<And>j. j < 3 \<Longrightarrow>
      cc_map_next cc_example (Cc_El ([0, 1, 3] ! j)) = Some (if Suc j < 3 then Cc_El ([0, 1, 3] ! Suc j) else cc_map_end cc_example) \<and>
      cc_map_prev cc_example (Cc_El ([0, 1, 3] ! j)) = Some (if j = 0 then cc_map_r_end else Cc_El ([0, 1, 3] ! (j - 1)))"
    using it by simp_all
  show ?thesis using last steps [of 1] steps [of 2] by simp
qed

text \<open>C28: \<open>cc_cleanup\<close> of a map passes the destructors in the wrong order: the destructor of the elements is called
  on the address of every key and the destructor of the keys on the address of every element. \<open>clear\<close>
  calls them on the right addresses.\<close>

theorem cc_cleanup_swaps_destructors:
  assumes "cc_inv hf cntr"
  shows "cc_cleanup (Some ed) (Some kd) cntr =
      (cc_map_placeholder, concat (map (\<lambda>b. [ed (Inl (fst (cc_buckets cntr ! b))), kd (Inr (snd (cc_buckets cntr ! b)))]) (cc_order cntr))) \<and>
    snd (cc_map_clear (Some ed) (Some kd) cntr) =
      concat (map (\<lambda>b. [kd (Inl (fst (cc_buckets cntr ! b))), ed (Inr (snd (cc_buckets cntr ! b)))]) (cc_order cntr)) \<and>
    (\<lambda>b. fst (cc_buckets cntr ! b)) ` set (cc_order cntr) = dom (cc_map cntr)"
  using cc_order_at(2) [OF assms]
  by (simp add: cc_cleanup_def cc_map_cleanup_def cc_clear_result(2) [OF assms] cc_clear_events_def [abs_def] cc_destroy_def cc_keys_def)

theorem cc_cleanup_swaps_destructors_witness:
  "snd (cc_cleanup (Some (Pair ''el'')) (Some (Pair ''key'')) cc_example) =
    [(''el'', Inl 0), (''key'', Inr 7), (''el'', Inl 1), (''key'', Inr 7), (''el'', Inl 8), (''key'', Inr 7)]"
  using conjunct1 [OF cc_cleanup_swaps_destructors [OF cc_example_inv, of "Pair ''el''" "Pair ''key''"]]
  unfolding cc_example_order by (simp add: cc_example_def)

text \<open>C35: the layout word describes a bucket that fits: for alignments up to 65536 (powers of two) and keys below
  4 GB the key starts behind the element at a multiple of its alignment, the bucket is large enough
  for both and a multiple of both alignments, with less padding than an alignment each time, so every
  bucket of the array is aligned when the first is.\<close>

theorem cc_layout_fits:
  fixes el_size el_align key_size key_align :: u64
  assumes "el_align = 2 ^ i" "i \<le> 16" "key_align = 2 ^ j" "j \<le> 16" "unat el_size < 2 ^ 62" "unat key_size < 2 ^ 32"
  defines "layout \<equiv> cc_layout el_size el_align key_size key_align"
  defines "offset \<equiv> unat (CC_KEY_OFFSET el_size layout)" and "bucket \<equiv> unat (CC_BUCKET_SIZE el_size layout)"
  shows "unat (CC_KEY_SIZE layout) = unat key_size \<and>
    unat el_size \<le> offset \<and> offset < unat el_size + 2 ^ j \<and> 2 ^ j dvd offset \<and>
    offset + unat key_size \<le> bucket \<and> bucket < offset + unat key_size + 2 ^ max i j \<and> 2 ^ max i j dvd bucket"
proof -
  define p where "p = CC_PADDING el_size key_align"
  define q where "q = CC_PADDING (el_size + p + key_size) (2 ^ max i j)"
  have pow: "(2::nat) ^ j \<le> 2 ^ 16" "(2::nat) ^ max i j \<le> 2 ^ 16" using assms(2,4) by (intro power_increasing; simp)+
  have bigger: "(if el_align > key_align then el_align else key_align) = 2 ^ max i j"
  proof -
    have "(2 :: u64) ^ i > 2 ^ j \<longleftrightarrow> j < i"
      using assms(2,4) by (simp add: word_less_nat_alt unat_pow2)
    then show ?thesis unfolding assms(1,3) by (simp add: max_def)
  qed
  have layout: "layout = key_size OR push_bit 32 p OR push_bit 48 q"
    unfolding layout_def cc_layout_def CC_MAP_KEY_PADDING_def CC_MAP_EL_PADDING_def bigger p_def q_def ..
  have p: "unat p < 2 ^ j" unfolding p_def by (rule CC_PADDING_result(1) [OF assms(3,4)])
  have off: "unat (el_size + p) = unat el_size + unat p" "2 ^ j dvd unat (el_size + p)"
    unfolding p_def by (rule CC_PADDING_aligned [OF assms(3,4)], use assms(5) in simp)+
  have key: "unat (el_size + p + key_size) = unat (el_size + p) + unat key_size"
    by (subst unat_word_ariths(1)) (use off(1) p pow assms(5,6) in simp)
  have ij: "max i j \<le> 16" using assms(2,4) by simp
  have q: "unat q < 2 ^ max i j" unfolding q_def by (rule CC_PADDING_result(1) [OF refl ij])
  have small: "unat (el_size + p + key_size) < 2 ^ 63" using key off(1) p pow assms(5,6) by simp
  have buck: "unat (el_size + p + key_size + q) = unat (el_size + p + key_size) + unat q" "2 ^ max i j dvd unat (el_size + p + key_size + q)"
    unfolding q_def by (rule CC_PADDING_aligned [OF refl ij small])+
  have "unat p < 2 ^ 16" "unat q < 2 ^ 16" using p q pow by linarith+
  note fields = layout_fields [OF assms(6) this, folded layout]
  have "offset = unat (el_size + p)" "bucket = unat (el_size + p + key_size + q)"
    unfolding offset_def bucket_def CC_KEY_OFFSET_def CC_BUCKET_SIZE_def fields by simp_all
  then show ?thesis using off buck key p q by (simp add: CC_KEY_SIZE_def fields(1))
qed

theorem cc_layout_fits_witness:
  "8 dvd unat (CC_KEY_OFFSET 4 (cc_layout 4 4 8 8)) \<and> 12 \<le> unat (CC_BUCKET_SIZE 4 (cc_layout 4 4 8 8))"
  using cc_layout_fits [of 4 2 8 3 4 8] by simp

end
