(* ===== verification/Spec2Isabelle.thy ===== *)
theory Spec2Isabelle
  imports Khash_Shim Hmap_Shim Verstable_Shim Utf8_Correct Utf8_Case Uthash_Ordered Uthash_Select Uthash_Hash Stb_Shim Ccmap_Shim
begin

text \<open>
  Verification of the hash tables in c_cpp_hash_tables_benchmark.

  The program (\<open>src/main.cpp\<close>) measures hash tables. A \<^emph>\<open>blueprint\<close> (\<open>src/blueprints\<close>) fixes a key type, a
  value type, a hash function, a comparison and how unique keys are made; a \<^emph>\<open>shim\<close> (\<open>src/shims/*/shim.h\<close>)
  wraps a table in the static members \<open>create_table\<close>, \<open>insert\<close>, \<open>erase\<close>, \<open>find\<close>, \<open>begin_itr\<close>, \<open>is_itr_valid\<close>,
  \<open>increment_itr\<close>, \<open>get_key_from_itr\<close>, \<open>get_value_from_itr\<close> and \<open>destroy_table\<close>; the function \<open>benchmark\<close> calls
  them in the order of each benchmark. The development states what a shim promises, proves that five C
  tables keep the promise and what a sixth keeps of it, and derives what the benchmark observes.

  \<^bold>\<open>Theories.\<close>
  \<^item> \<open>Prelude\<close>: truncation to 32 and 64 bits, masks, triangular probing, bucket arrays as maps.
  \<^item> \<open>Blueprints\<close>: the three \<open>blueprint.h\<close> files; the locale \<open>blueprint\<close> (comparison is equality, keys are
    unique) is interpreted for each.
  \<^item> \<open>Benchmark\<close>: the record \<open>shim_ops\<close> of the static members, the locales \<open>shim\<close> (what insert, erase and find do
    to the map a table stands for), \<open>iterable_shim\<close> (positions and order of the iterators), \<open>walkable_shim\<close> (iterators
    that can be read and advanced though they may stand at no key, as khash's), \<open>exiting_shim\<close> and
    \<open>iterable_exiting_shim\<close> (the same for a table that may end the program for lack of memory), and the
    benchmarks of \<open>main.cpp\<close> as functions over \<open>shim_ops\<close>.
  \<^item> \<open>Khash\<close>, \<open>Khash_Correct\<close>, \<open>Khash_Shim\<close>: \<open>shims/khash\<close>, triangular probing with tombstones and a resize that
    rehashes in place.
  \<^item> \<open>Hmap\<close>, \<open>Hmap_Correct\<close>, \<open>Hmap_Shim\<close>: \<open>shims/stc_hmap/stc/hmap.h\<close>, linear probing with backward shifts.
  \<^item> \<open>Verstable\<close>, \<open>Verstable_Correct\<close>, \<open>Verstable_Ops\<close>, \<open>Verstable_Table\<close>, \<open>Verstable_Shim\<close>: \<open>shims/verstable\<close>,
    chains of quadratic displacements with eviction, in 16-bit metadata.
  \<^item> \<open>Ccmap\<close>, \<open>Ccmap_Correct\<close>, \<open>Ccmap_Table\<close>, \<open>Ccmap_Shim\<close>: the map of \<open>shims/cc_lib_map/cc.h\<close>, which is
    Verstable's table with the capacity in place of the mask, iterators in both directions, destructors and a
    layout of buckets in bytes. \<open>Ccmap_Correct\<close> proves by simulation that the search, insertion, eviction and erasure
    do what Verstable's do, and so carries over the invariant.
  \<^item> \<open>Uthash\<close>, \<open>Uthash_Correct\<close>, \<open>Uthash_Shim\<close>: \<open>shims/uthash\<close>, intrusive chaining over a heap of elements with
    doubling buckets and a list in the order of addition; \<open>Uthash_Sort\<close>: its merge sort of that list;
    \<open>Uthash_Ordered\<close>: addition in order and replacement; \<open>Uthash_Select\<close>: selection into another hash;
    \<open>Uthash_Hash\<close>: its hash functions and Bloom filter.
  \<^item> \<open>Stb\<close>, \<open>Stb_Correct\<close>, \<open>Stb_Shim\<close>: \<open>shims/stb_ds_hm_sh\<close>, a growing array of entries with an index of
    eight-slot buckets, triangular probing over buckets and deleted slots. The locale \<open>probe_visit\<close> (which slots end
    a probe loop, with what result) is interpreted for its three loops. Its lookup can loop for ever, so it
    does not keep the contract \<open>shim\<close>; \<open>Stb_Shim\<close> says exactly when a call returns.
  \<^item> \<open>Utf8_Tables\<close>, \<open>Utf8\<close>, \<open>Utf8_Correct\<close>, \<open>Utf8_Case\<close>: the UTF-8 code bundled with STC (\<open>stc/priv/utf8_prv.h\<close>,
    \<open>utf8_prv.c\<close>, \<open>utf8_tab.c\<close>): decoder automaton, encoder, case tables, character classes.

  \<^bold>\<open>State and operations.\<close> A table is a record with the fields of the C structure (\<open>kh\<close>, \<open>hm\<close>, \<open>vt\<close>, \<open>cc\<close>, \<open>stb_arr\<close>); arrays
  are lists updated by index. uthash works on pointers: \<open>ut\<close> has a head pointer, an optional table block and
  a store from addresses to elements, and an access to a free address is the error \<open>Bad_Pointer\<close>;
  \<open>ut_run\<close> runs a sequence of the shim's calls and keeps the error that stopped it (\<open>Bad_Pointer\<close>, \<open>Fatal_OOM\<close> or
  \<open>Diverges\<close>), while the shim's record \<open>ut_shim_ops\<close> only tells whether a call returned. Operations
  have the names of the macros and functions they model, with the prefixes \<open>kh_\<close>, \<open>hm_\<close>, \<open>vt_\<close>, \<open>cc_\<close>, \<open>ut_\<close> and \<open>sb_\<close> for
  the shims. The calls cc.h makes to destructors are a list of events. The allocator is a parameter (\<open>kh_mem\<close>, \<open>hm_mem\<close>, \<open>vt_mem\<close>, \<open>ut_mem\<close>): it says which requests succeed
  and what fresh memory holds; stb_ds takes allocations to succeed and the model does so too. A failed call is a value: a return code where C has one, \<open>None\<close> or an error
  where the C code would not return or would leave its memory.

  \<^bold>\<open>Lemmas.\<close> Each table has an invariant (\<open>kh_inv\<close>, \<open>hm_inv\<close>, \<open>vt_inv\<close>, \<open>cc_inv\<close>, \<open>ut_inv\<close>, \<open>stb_ok\<close>) and an abstraction to a map
  (\<open>kh_map\<close>, \<open>hm_map\<close>, \<open>vt_map\<close>, \<open>cc_map\<close>, \<open>ut_map\<close>, \<open>stb_map\<close>); the \<open>_Correct\<close> theories prove that every operation keeps the invariant
  and acts on the map as lookup, update, removal or identity, on every branch, failed allocations included.
  A failed insertion of Verstable and of cc.h can leave one key out of every chain; \<open>vt_finds\<close> and \<open>cc_finds\<close> say which
  map the lookups then see. The order in which uthash iterates is \<open>insertion_order\<close> of the history.
  \<open>jen_reference\<close> describes Jenkins' hash on integers, independently of the words of the code.
  The \<open>_Shim\<close> theories interpret the locales of \<open>Benchmark\<close> on these operations for the three blueprints and
  hold the properties. This theory adds what the benchmarks observe across components.

  \<^bold>\<open>Bounds and fuel.\<close> Loops that the C code does not bound carry fuel, and a theorem shows that it is enough:
  probe loops get the number of buckets, chain traversals in uthash \<open>num_items + 1\<close> steps, Verstable's chains
  2048 (\<open>vt_fuel\<close>, the number of displacements plus one), its rehash and insertion loops 64 rounds, as each
  round doubles a table whose size is below \<open>2 ^ 64\<close>. The probe loop of stb_ds is a \<open>partial_function\<close>, whose \<open>None\<close> is
  a loop that does not end. The histories of calls are bounded by \<open>2 ^ 28\<close> for khash
  (32-bit sizes), and by the width of the counters elsewhere. \<open>ut_mem_ok\<close> bounds a single allocation by
  \<open>2 ^ 36\<close> bytes, since uthash multiplies \<open>num_buckets\<close> by 2 in 32 bits without a check; it lets every allocation fail, that of
  an element too.

  \<^bold>\<open>Not modelled.\<close> Timing, random numbers (arguments here), the HTML and CSV output and the compile-time
  registration of \<open>main.cpp\<close>; the memory blocks behind arrays (no aliasing occurs between them); destructors
  and contexts of Verstable and of STC, which the shims do not use; the non-fatal memory mode of uthash;
  the vectors, lists, sets and the macros of cc.h that choose a function by type; the other tables behind shims: CWISS, M*LIB, tommyds and the C++ templates (their
  contract is the one stated in \<open>Benchmark\<close>); the rest of STC, which no shim instantiates.
\<close>

section \<open>The benchmark's erasures\<close>

text \<open>The erased window covers all positions when there are at most 1000 of them.\<close>

lemma key_window_covers:
  assumes "l < i" "i \<le> 1000"
  shows "set (key_window 1000 0 i l) = {..<i}"
proof
  show "set (key_window 1000 0 i l) \<subseteq> {..<i}" using set_key_window [of 0 l i 1000] assms by auto
  show "{..<i} \<subseteq> set (key_window 1000 0 i l)"
  proof
    fix p assume p: "p \<in> {..<i}"
    define k where "k = (p + (i - l)) mod i"
    have "k < i" unfolding k_def using assms by (intro mod_less_divisor) simp
    then have k: "k < 1000" using assms by simp
    have "(l + k) mod i = (l + (p + (i - l))) mod i" unfolding k_def by (simp add: mod_add_right_eq)
    also have "\<dots> = (p + i) mod i" using assms by (simp add: algebra_simps)
    also have "\<dots> = p" using p by simp
    finally have "key_window 1000 0 i l ! k = p" using nth_key_window [of 0 l i k 1000] assms k by simp
    then show "p \<in> set (key_window 1000 0 i l)"
      using k nth_mem [of k "key_window 1000 0 i l"] by (simp add: length_key_window)
  qed
qed

text \<open>When fewer than 1000 keys are in the table the "1,000 existing keys" the benchmark erases
  are not all existing: the 1000 positions of its window are only the \<open>i\<close> keys of the table, every
  one of them is visited, so the table is empty after the first \<open>i\<close> calls and the remaining
  \<open>1000 - i\<close> calls erase keys that are no longer there.\<close>

lemma erase_benchmark_wraps:
  assumes "l < i" and "i < 1000"
  shows "length (key_window 1000 0 i l) = 1000 \<and> set (key_window 1000 0 i l) = {..<i} \<and>
    set (take i (key_window 1000 0 i l)) = {..<i} \<and> \<not> distinct (key_window 1000 0 i l)"
proof (intro conjI)
  let ?w = "key_window 1000 0 i l"
  show len: "length ?w = 1000" by (rule length_key_window)
  show all: "set ?w = {..<i}" using key_window_covers assms by simp
  have "take i ?w = map (\<lambda>k. (l + k) mod i) [0..<i]"
    by (rule nth_equalityI) (use assms nth_key_window [of 0 l i _ 1000] in \<open>auto simp: len\<close>)
  then have "set (take i ?w) = (\<lambda>k. (l + k) mod i) ` {..<i}" by (simp add: atLeast0LessThan)
  moreover have "(\<lambda>k. (l + k) mod i) ` {..<i} = {..<i}"
  proof (rule endo_inj_surj)
    show "inj_on (\<lambda>k. (l + k) mod i) {..<i}"
      by (rule inj_onI) (use mod_add_left_cancel [of l _ i] in auto)
  qed (use assms in auto)
  ultimately show "set (take i ?w) = {..<i}" by simp
  show "\<not> distinct ?w"
    using assms len all distinct_card [of ?w] by auto
qed

lemma total_keys_default: "total_keys default_config = 600000" "KEY_COUNT default_config = 200000"
  by (simp_all add: total_keys_def default_config_def)

lemma inj_on_inserted: "inj_on keys {..<total_keys cfg} \<Longrightarrow> inj_on keys {..<KEY_COUNT cfg}"
  by (rule inj_on_subset) (auto simp: total_keys_def)

section \<open>The benchmarks on the tables\<close>

text \<open>C2: the benchmarks as \<open>config.h\<close> sets them up, on STC's hash map with the struct blueprint, for any
  shuffle of the keys and any random positions, when allocations succeed: all of them run to their end
  with exactly the 200,000 keys in the table; in particular no lookup of an existing key reads another
  key, where the program would exit.\<close>

theorem benchmark_completes_stc:
  fixes fk :: u64 and fv dflt :: "u8 list"
  assumes "bij_betw shuffled {..<total_keys default_config} {..<total_keys default_config}"
    "\<And>i. 0 < i \<Longrightarrow> rnd_erase i < i" "\<And>i. 0 < i \<Longrightarrow> i \<le> 200000 \<Longrightarrow> positions_ok default_config i (rnd i)"
  defines "keys \<equiv> shuffled_unique_key fill_unique_keys_uint64 default_config shuffled"
    and "ops \<equiv> hm_shim_ops hash_key_uint64 cmpr_keys_uint64 (\<lambda>m. hm_good_mem fk fv) dflt"
  shows "benchmarks_complete default_config ops hm_map dflt keys rnd_erase \<and>
    (\<exists>t. bench_combined default_config ops keys rnd = Some t \<and> hm_map t = key_map keys dflt {..<200000})"
proof -
  have inj: "inj_on keys {..<total_keys default_config}"
    unfolding keys_def by (rule bp_uint64.shuffled_unique_keys [OF assms(1)]) (simp add: total_keys_default)
  have "benchmarks_complete default_config ops hm_map dflt keys rnd_erase"
    unfolding ops_def by (rule hm_uint64.completes) (use inj_on_inserted [OF inj] assms(2) in \<open>simp_all add: total_keys_default\<close>)
  moreover have "\<exists>t. bench_combined default_config ops keys rnd = Some t \<and> hm_inv hash_key_uint64 t \<and>
      hm_map t = key_map keys dflt {..<KEY_COUNT default_config}"
    unfolding ops_def by (rule hm_uint64.combined_result) (use inj assms(3) in \<open>simp_all add: total_keys_default\<close>)
  ultimately show ?thesis by (auto simp: total_keys_default)
qed

text \<open>The identity as shuffle, and the first position of every range.\<close>

lemma first_positions_ok: "0 < i \<Longrightarrow> positions_ok default_config i (0, 200000, 0, 200000, 0)"
  by (simp add: positions_ok_def total_keys_default)

theorem benchmark_completes_stc_witness:
  "\<exists>t. bench_combined default_config (hm_shim_ops hash_key_uint64 cmpr_keys_uint64 (\<lambda>m. hm_good_mem 0 ([] :: u8 list)) [])
    (shuffled_unique_key fill_unique_keys_uint64 default_config id) (\<lambda>i. (0, 200000, 0, 200000, 0)) = Some t \<and>
    card (dom (hm_map t)) = 200000"
proof -
  let ?keys = "shuffled_unique_key fill_unique_keys_uint64 default_config id"
  have b: "bij_betw id {..<total_keys default_config} {..<total_keys default_config}" by simp
  have "inj_on ?keys {..<total_keys default_config}"
    by (rule bp_uint64.shuffled_unique_keys [OF b]) (simp add: total_keys_default)
  then have "inj_on ?keys {..<200000}" using inj_on_inserted by (fastforce simp: total_keys_default)
  then have "card (dom (key_map ?keys ([] :: u8 list) {..<200000})) = 200000"
    by (simp only: dom_key_map card_image card_lessThan)
  moreover have "\<exists>t. bench_combined default_config (hm_shim_ops hash_key_uint64 cmpr_keys_uint64 (\<lambda>m. hm_good_mem 0 ([] :: u8 list)) []) ?keys
      (\<lambda>i. (0, 200000, 0, 200000, 0)) = Some t \<and> hm_map t = key_map ?keys [] {..<200000}"
    by (rule conjunct2 [OF benchmark_completes_stc [OF b, where rnd_erase = "\<lambda>i. 0"]]) (simp_all only: first_positions_ok)
  ultimately show ?thesis by (elim exE conjE, intro exI conjI) (assumption, simp only:)
qed

text \<open>C3: the same for khash, the combined benchmark and its iteration included: with any shuffle and any random
  positions all of them run to their end with exactly the 200,000 keys in the table, and no lookup makes the
  program exit. khash's iterators are not always at a key, since \<open>begin_itr\<close> gives bucket 0 whether or not it
  holds one, so that the iteration may read a key that is not in the table; but it never leaves the arrays and
  every increment ends.\<close>

theorem benchmark_completes_khash:
  fixes fk :: u64 and fv dflt :: "u8 list"
  assumes "bij_betw shuffled {..<total_keys default_config} {..<total_keys default_config}"
    "\<And>i. 0 < i \<Longrightarrow> rnd_erase i < i" "\<And>i. 0 < i \<Longrightarrow> i \<le> 200000 \<Longrightarrow> positions_ok default_config i (rnd i)"
  defines "keys \<equiv> shuffled_unique_key fill_unique_keys_uint64 default_config shuffled"
    and "ops \<equiv> kh_shim_ops hash_key_uint64 cmpr_keys_uint64 (\<lambda>h. kh_good_mem fk fv) dflt"
  shows "benchmarks_complete default_config ops kh_map dflt keys rnd_erase \<and>
    (\<exists>t. bench_combined default_config ops keys rnd = Some t \<and> kh_map t = key_map keys dflt {..<200000})"
proof -
  have inj: "inj_on keys {..<total_keys default_config}"
    unfolding keys_def by (rule bp_uint64.shuffled_unique_keys [OF assms(1)]) (simp add: total_keys_default)
  have "benchmarks_complete default_config ops kh_map dflt keys rnd_erase"
    unfolding ops_def by (rule kh_uint64.completes) (use inj_on_inserted [OF inj] assms(2) in \<open>simp_all add: total_keys_default\<close>)
  moreover have "\<exists>t. bench_combined default_config ops keys rnd = Some t \<and> kh_ok hash_key_uint64 t \<and>
      kh_map t = key_map keys dflt {..<KEY_COUNT default_config}"
    unfolding ops_def by (rule kh_uint64.combined_result) (use inj assms(3) in \<open>simp_all add: total_keys_default\<close>)
  ultimately show ?thesis by (auto simp: total_keys_default)
qed

theorem benchmark_completes_khash_witness:
  "benchmarks_complete default_config (kh_shim_ops hash_key_uint64 cmpr_keys_uint64 (\<lambda>h. kh_good_mem 0 ([] :: u8 list)) [])
    kh_map [] (shuffled_unique_key fill_unique_keys_uint64 default_config id) (\<lambda>i. 0)"
proof -
  have b: "bij_betw id {..<total_keys default_config} {..<total_keys default_config}" by simp
  show ?thesis
    by (rule conjunct1 [OF benchmark_completes_khash [OF b, where rnd = "\<lambda>i. (0, 200000, 0, 200000, 0)"]])
      (simp_all only: first_positions_ok)
qed

end
